(* ===== verification/Prelude.thy ===== *)
theory Prelude
  imports Main "HOL-Library.Word"
begin

text \<open>
  The generic layer of the development: fallible computations as values of a sum type,
  byte strings with checked and unchecked range access, little-endian encoding of
  machine integers, and a few list and arithmetic facts that every component uses.

  Conventions of the whole development. A byte string is a list of \<^typ>\<open>8 word\<close>; a
  \<open>u16\<close>, \<open>u32\<close> or \<open>u64\<close> of the source is a word of that width; a \<open>usize\<close> is a
  \<^typ>\<open>nat\<close>, with the bounds the source checks written out. A \<open>Result\<close> is a sum with the
  error on the left, and \<open>?\<close> is \<open>rbind\<close>.
\<close>

named_theorems result_simps \<open>evaluation and inversion of fallible computations\<close>
named_theorems byte_simps \<open>range reads after range writes\<close>

section \<open>Fallible computations\<close>

type_synonym byte = "8 word"
type_synonym bytes = "8 word list"

fun rbind :: "'e + 'a \<Rightarrow> ('a \<Rightarrow> 'e + 'b) \<Rightarrow> 'e + 'b" where
  "rbind (Inl e) f = Inl e"
| "rbind (Inr x) f = f x"

fun ok_or :: "'e \<Rightarrow> 'a option \<Rightarrow> 'e + 'a" where
  "ok_or e None = Inl e"
| "ok_or e (Some x) = Inr x"

definition require :: "'e \<Rightarrow> bool \<Rightarrow> 'e + unit" where
  "require e b = (if b then Inr () else Inl e)"

fun rmap :: "('a \<Rightarrow> 'b) \<Rightarrow> 'e + 'a \<Rightarrow> 'e + 'b" where
  "rmap f (Inl e) = Inl e"
| "rmap f (Inr x) = Inr (f x)"

fun map_err :: "('e \<Rightarrow> 'f) \<Rightarrow> 'e + 'a \<Rightarrow> 'f + 'a" where
  "map_err f (Inl e) = Inl (f e)"
| "map_err f (Inr x) = Inr x"

fun rfold :: "('s \<Rightarrow> 'a \<Rightarrow> 'e + 's) \<Rightarrow> 's \<Rightarrow> 'a list \<Rightarrow> 'e + 's" where
  "rfold f s [] = Inr s"
| "rfold f s (x # xs) = rbind (f s x) (\<lambda>s'. rfold f s' xs)"

lemma rbind_Inr_iff [result_simps]:
  "rbind r f = Inr y \<longleftrightarrow> (\<exists>x. r = Inr x \<and> f x = Inr y)"
  by (cases r) auto

lemma rbind_Inl_iff [result_simps]:
  "rbind r f = Inl e \<longleftrightarrow> r = Inl e \<or> (\<exists>x. r = Inr x \<and> f x = Inl e)"
  by (cases r) auto

lemma rbind_assoc: "rbind (rbind r f) g = rbind r (\<lambda>x. rbind (f x) g)"
  by (cases r) auto

lemma rbind_cong [fundef_cong]:
  "r = s \<Longrightarrow> (\<And>x. s = Inr x \<Longrightarrow> f x = g x) \<Longrightarrow> rbind r f = rbind s g"
  by (cases s) auto

lemma ok_or_Inr_iff [result_simps]: "ok_or e m = Inr x \<longleftrightarrow> m = Some x"
  by (cases m) auto

lemma ok_or_Inl_iff [result_simps]: "ok_or e m = Inl f \<longleftrightarrow> m = None \<and> e = f"
  by (cases m) auto

lemma require_Inr_iff [result_simps]: "require e b = Inr u \<longleftrightarrow> b"
  by (simp add: require_def)

lemma require_Inl_iff [result_simps]: "require e b = Inl f \<longleftrightarrow> \<not> b \<and> e = f"
  by (auto simp: require_def)

lemma require_True [simp]: "require e True = Inr ()"
  by (simp add: require_def)

lemma require_False [simp]: "require e False = Inl e"
  by (simp add: require_def)

lemma rmap_Inr_iff [result_simps]: "rmap f r = Inr y \<longleftrightarrow> (\<exists>x. r = Inr x \<and> y = f x)"
  by (cases r) auto

lemma rmap_Inl_iff [result_simps]: "rmap f r = Inl e \<longleftrightarrow> r = Inl e"
  by (cases r) auto

lemma map_err_Inr_iff [result_simps]: "map_err f r = Inr y \<longleftrightarrow> r = Inr y"
  by (cases r) auto

lemma rfold_append: "rfold f s (xs @ ys) = rbind (rfold f s xs) (\<lambda>s'. rfold f s' ys)"
  by (induction xs arbitrary: s) (auto simp: rbind_assoc)

section \<open>Outcomes\<close>

text \<open>
  \<open>rwp r Q E\<close>: the computation \<open>r\<close> returned a value that satisfies \<open>Q\<close>, or it failed and \<open>E\<close>
  holds. With \<open>E = False\<close> it states that \<open>r\<close> returns; with \<open>E\<close> a resource condition, that it
  fails only under that condition.
\<close>

definition rwp :: "'e + 'a \<Rightarrow> ('a \<Rightarrow> bool) \<Rightarrow> bool \<Rightarrow> bool" where
  "rwp r Q E = (case r of Inl _ \<Rightarrow> E | Inr x \<Rightarrow> Q x)"

lemma rwp_Inr [simp]: "rwp (Inr x) Q E = Q x"
  by (simp add: rwp_def)

lemma rwp_Inl [simp]: "rwp (Inl e) Q E = E"
  by (simp add: rwp_def)

lemma rwp_mono: "rwp r P E \<Longrightarrow> (\<And>x. P x \<Longrightarrow> Q x) \<Longrightarrow> (E \<Longrightarrow> F) \<Longrightarrow> rwp r Q F"
  by (cases r) auto

lemma rwp_rbind: "rwp (rbind r f) Q E = rwp r (\<lambda>x. rwp (f x) Q E) E"
  by (cases r) auto

lemma rwp_rbindI: "rwp r P E \<Longrightarrow> (\<And>x. P x \<Longrightarrow> rwp (f x) Q E) \<Longrightarrow> rwp (rbind r f) Q E"
  by (cases r) auto

lemma rwp_False: "rwp r Q False \<longleftrightarrow> (\<exists>x. r = Inr x \<and> Q x)"
  by (cases r) auto

section \<open>Ranges of byte strings\<close>

text \<open>
  \<open>rd p at n\<close> are the \<open>n\<close> bytes of \<open>p\<close> from \<open>at\<close>; \<open>wr p at bs\<close> is \<open>p\<close> with \<open>bs\<close> stored
  from \<open>at\<close>. Both are meant for ranges inside \<open>p\<close>, which the operations of the source
  check before they touch memory.
\<close>

definition rd :: "'a list \<Rightarrow> nat \<Rightarrow> nat \<Rightarrow> 'a list" where
  "rd p at n = take n (drop at p)"

definition wr :: "'a list \<Rightarrow> nat \<Rightarrow> 'a list \<Rightarrow> 'a list" where
  "wr p at bs = take at p @ bs @ drop (at + length bs) p"

lemma length_rd [simp]: "at + n \<le> length p \<Longrightarrow> length (rd p at n) = n"
  by (simp add: rd_def)

lemma length_wr [simp]: "at + length bs \<le> length p \<Longrightarrow> length (wr p at bs) = length p"
  by (simp add: wr_def)

lemma nth_rd: "at + n \<le> length p \<Longrightarrow> i < n \<Longrightarrow> rd p at n ! i = p ! (at + i)"
  by (simp add: rd_def)

lemma nth_wr:
  "at + length bs \<le> length p \<Longrightarrow> i < length p \<Longrightarrow>
   wr p at bs ! i = (if at \<le> i \<and> i < at + length bs then bs ! (i - at) else p ! i)"
  by (auto simp: wr_def nth_append min_def)

lemma rd_wr_same [byte_simps]:
  "at + length bs \<le> length p \<Longrightarrow> n = length bs \<Longrightarrow> rd (wr p at bs) at n = bs"
  by (simp add: rd_def wr_def)

lemma rd_wr_inside:
  "at + length bs \<le> length p \<Longrightarrow> at \<le> b \<Longrightarrow> b + n \<le> at + length bs \<Longrightarrow>
   rd (wr p at bs) b n = rd bs (b - at) n"
  by (rule nth_equalityI) (auto simp: nth_rd nth_wr)

lemma rd_wr_disjoint [byte_simps]:
  assumes "at + length bs \<le> length p" "b + n \<le> length p" "b + n \<le> at \<or> at + length bs \<le> b"
  shows "rd (wr p at bs) b n = rd p b n"
  using assms by (intro nth_equalityI) (auto simp: nth_rd nth_wr)

lemma rd_rd: "b + n \<le> m \<Longrightarrow> at + m \<le> length p \<Longrightarrow> rd (rd p at m) b n = rd p (at + b) n"
  by (rule nth_equalityI) (auto simp: nth_rd ac_simps)

lemma rd_cong:
  "at + n \<le> length p \<Longrightarrow> at + n \<le> length q \<Longrightarrow> (\<And>i. at \<le> i \<Longrightarrow> i < at + n \<Longrightarrow> p ! i = q ! i) \<Longrightarrow>
   rd p at n = rd q at n"
  by (intro nth_equalityI) (auto simp: nth_rd)

lemma wr_append:
  "a + length xs \<le> length p \<Longrightarrow> wr (wr p a xs) (a + length xs) ys = wr p a (xs @ ys)"
  by (simp add: wr_def ac_simps)

lemma rd_all [simp]: "rd p 0 (length p) = p"
  by (simp add: rd_def)

lemma rd_zero [simp]: "rd p at 0 = []"
  by (simp add: rd_def)

lemma wr_empty [simp]: "wr p at [] = p"
  by (simp add: wr_def)

lemma rd_replicate [simp]: "at + n \<le> m \<Longrightarrow> rd (replicate m x) at n = replicate n x"
  by (simp add: rd_def)

lemma rd_append_left: "at + n \<le> length p \<Longrightarrow> rd (p @ q) at n = rd p at n"
  by (simp add: rd_def)

lemma rd_append_right: "length p \<le> at \<Longrightarrow> rd (p @ q) at n = rd q (at - length p) n"
  by (simp add: rd_def)

lemma wr_wr_same: "length bs = length cs \<Longrightarrow> at + length bs \<le> length p \<Longrightarrow>
  wr (wr p at bs) at cs = wr p at cs"
  by (rule nth_equalityI) (auto simp: nth_wr)

lemma wr_swap:
  assumes "at + length bs \<le> length p" "b + length cs \<le> length p"
    and "b + length cs \<le> at \<or> at + length bs \<le> b"
  shows "wr (wr p at bs) b cs = wr (wr p b cs) at bs"
  using assms by (intro nth_equalityI) (auto simp: nth_wr)

section \<open>Little-endian integers\<close>

fun le_nat :: "bytes \<Rightarrow> nat" where
  "le_nat [] = 0"
| "le_nat (b # bs) = unat b + 256 * le_nat bs"

fun nat_le :: "nat \<Rightarrow> nat \<Rightarrow> bytes" where
  "nat_le 0 v = []"
| "nat_le (Suc k) v = of_nat (v mod 256) # nat_le k (v div 256)"

definition from_le_bytes :: "bytes \<Rightarrow> 'w::len word" where
  "from_le_bytes bs = of_nat (le_nat bs)"

definition to_le_bytes :: "'w::len word \<Rightarrow> bytes" where
  "to_le_bytes w = nat_le (LENGTH('w) div 8) (unat w)"

lemma length_nat_le [simp]: "length (nat_le k v) = k"
  by (induction k arbitrary: v) auto

lemma length_to_le_bytes [simp]: "length (to_le_bytes (w :: 'w::len word)) = LENGTH('w) div 8"
  by (simp add: to_le_bytes_def)

lemma unat_word_less: "unat (w :: 'w::len word) < 2 ^ LENGTH('w)"
  by (rule unsigned_less)

lemma unat_byte: "unat (b :: 8 word) < 256"
  using unat_word_less [of b] by simp

lemma le_nat_bound: "le_nat bs < 256 ^ length bs"
proof (induction bs)
  case (Cons b bs)
  have "unat b < 256" by (rule unat_byte)
  with Cons show ?case by simp
qed simp

lemma le_nat_nat_le: "le_nat (nat_le k v) = v mod 256 ^ k"
proof (induction k arbitrary: v)
  case (Suc k)
  have "le_nat (nat_le (Suc k) v) = v mod 256 + 256 * ((v div 256) mod 256 ^ k)"
    using Suc by (simp add: unat_of_nat take_bit_eq_mod)
  also have "\<dots> = v mod 256 ^ Suc k"
    by (simp add: mod_mult2_eq)
  finally show ?case .
qed simp

lemma nat_le_le_nat: "nat_le (length bs) (le_nat bs) = bs"
proof (induction bs)
  case (Cons b bs)
  have "unat b < 256" by (rule unat_byte)
  with Cons show ?case by simp
qed simp

lemma pow256_length: "8 dvd LENGTH('w::len) \<Longrightarrow> (256::nat) ^ (LENGTH('w) div 8) = 2 ^ LENGTH('w)"
  by (auto elim!: dvdE simp: power_mult)

lemma from_to_le_bytes [simp]:
  fixes w :: "'w::len word"
  assumes "8 dvd LENGTH('w)"
  shows "from_le_bytes (to_le_bytes w) = w"
proof -
  have "(256::nat) ^ (LENGTH('w) div 8) = 2 ^ LENGTH('w)"
    using assms(1) by (rule pow256_length)
  thus ?thesis
    by (simp add: from_le_bytes_def to_le_bytes_def le_nat_nat_le)
qed

lemma to_from_le_bytes:
  assumes "8 dvd LENGTH('w::len)" "length bs = LENGTH('w) div 8"
  shows "to_le_bytes (from_le_bytes bs :: 'w word) = bs"
proof -
  have "(256::nat) ^ (LENGTH('w) div 8) = 2 ^ LENGTH('w)"
    using assms(1) by (rule pow256_length)
  hence "le_nat bs < 2 ^ LENGTH('w)"
    using le_nat_bound [of bs] assms by simp
  thus ?thesis
    using nat_le_le_nat [of bs] assms
    by (simp add: from_le_bytes_def to_le_bytes_def unat_of_nat take_bit_nat_eq_self)
qed

lemma to_le_bytes_inj:
  fixes v w :: "'w::len word"
  assumes "8 dvd LENGTH('w)" "to_le_bytes v = to_le_bytes w"
  shows "v = w"
  by (metis assms from_to_le_bytes)

section \<open>Checked machine arithmetic\<close>

lemma unat_ucast:
  "unat (ucast (x :: 'a :: len word) :: 'b :: len word) = unat x mod 2 ^ LENGTH('b)"
  by (simp add: unsigned_ucast_eq take_bit_eq_mod)

definition checked_add :: "'w::len word \<Rightarrow> 'w word \<Rightarrow> 'w word option" where
  "checked_add x y = (if unat x + unat y < 2 ^ LENGTH('w) then Some (x + y) else None)"

definition checked_sub :: "'w::len word \<Rightarrow> 'w word \<Rightarrow> 'w word option" where
  "checked_sub x y = (if y \<le> x then Some (x - y) else None)"

definition checked_mul :: "'w::len word \<Rightarrow> 'w word \<Rightarrow> 'w word option" where
  "checked_mul x y = (if unat x * unat y < 2 ^ LENGTH('w) then Some (x * y) else None)"

definition overflowing_add :: "'w::len word \<Rightarrow> 'w word \<Rightarrow> 'w word \<times> bool" where
  "overflowing_add x y = (x + y, \<not> unat x + unat y < 2 ^ LENGTH('w))"

definition overflowing_sub :: "'w::len word \<Rightarrow> 'w word \<Rightarrow> 'w word \<times> bool" where
  "overflowing_sub x y = (x - y, x < y)"

definition usize_max :: nat where
  "usize_max = 2 ^ 64 - 1"

definition usize_checked_add :: "nat \<Rightarrow> nat \<Rightarrow> nat option" where
  "usize_checked_add x y = (if x + y \<le> usize_max then Some (x + y) else None)"

definition usize_checked_mul :: "nat \<Rightarrow> nat \<Rightarrow> nat option" where
  "usize_checked_mul x y = (if x * y \<le> usize_max then Some (x * y) else None)"

definition usize_checked_sub :: "nat \<Rightarrow> nat \<Rightarrow> nat option" where
  "usize_checked_sub x y = (if y \<le> x then Some (x - y) else None)"

lemma checked_add_Some_iff:
  fixes x y :: "'w::len word"
  shows "checked_add x y = Some z \<longleftrightarrow> unat z = unat x + unat y"
proof -
  have "unat (x + y) = unat x + unat y" if "unat x + unat y < 2 ^ LENGTH('w)"
    using that by (simp add: unat_word_ariths)
  thus ?thesis
    by (auto simp: checked_add_def word_unat_eq_iff) (metis unat_word_less)
qed

lemma checked_sub_Some_iff:
  fixes x y :: "'w::len word"
  shows "checked_sub x y = Some z \<longleftrightarrow> unat z + unat y = unat x"
proof -
  have "unat (x - y) = unat x - unat y" if "y \<le> x"
    using that by (rule unat_sub)
  thus ?thesis
    by (auto simp: checked_sub_def word_le_nat_alt word_unat_eq_iff)
qed

section \<open>Lists\<close>

lemma nth_append_middle [simp]: "(xs @ x # ys) ! length xs = x"
  by simp

lemma take_Suc_nth: "n < length xs \<Longrightarrow> take (Suc n) xs = take n xs @ [xs ! n]"
  by (rule take_Suc_conv_app_nth)

lemma sorted_wrt_nth_le:
  "sorted_wrt (<) (xs :: 'a::linorder list) \<Longrightarrow> i \<le> j \<Longrightarrow> j < length xs \<Longrightarrow> xs ! i \<le> xs ! j"
  by (cases "i = j") (auto simp: sorted_wrt_nth_less intro: less_imp_le)

end
