(* ===== verification/Errors.thy ===== *)
theory Errors
  imports Prelude
begin

text \<open>
  The error values of the database (\<open>sdk_error.rs\<close>). \<open>error_code\<close> is the stable class an
  error is reported under, with its wire number; \<open>error\<close> has the constructors of the
  source. The text of an \<open>io::Error\<close> or \<open>getrandom::Error\<close> stands for its opaque payload.
  \<open>Panicked\<close> is not a value of the source: it is the outcome of an \<open>expect\<close>, an
  \<open>unwrap\<close> or an index that is out of range, so that a theorem that an operation
  returns \<open>Inr\<close> also says that it does not panic.
\<close>

section \<open>Problems found while opening a file\<close>

datatype meta_problem =
    Magic | FixedValue | Reserved | Tag | DatabaseId | Checksum | CommitNonce | Transaction
  | PageCount | PhysicalLength | RootBounds | KindInvariant | CountInvariant
  | MetadataInvariant | RetirementInvariant | AllocatorReserve

datatype bootstrap_error =
    FileTooShort | FileUnaligned | HostAddressability | StaticIdentityMismatch
  | NoBootstrapMeta (meta0: meta_problem) (meta1: meta_problem)
  | TransactionGap | PhysicalParity | EqualTransactionDisagreement
  | CurrentGenerationUnprovable | ImmutableLengthMismatch | B_UnsupportedStructure "8 word"

section \<open>Error classes and their wire numbers\<close>

datatype (plugins only: size) error_code =
    C_InvalidArgument
  | C_NullPointer
  | C_MisalignedPointer
  | C_InvalidLength
  | C_InvalidEnum
  | C_ReservedNonzero
  | C_BufferTooSmall
  | C_WrongHandleKind
  | C_HandleClosed
  | C_HandleBusy
  | C_WrongState
  | C_WrongAddressFamily
  | C_WrongValueKind
  | C_WrongValueTag
  | C_RangeReversed
  | C_NameInvalid
  | C_NameExists
  | C_NameNotFound
  | C_StaleReference
  | C_ForeignReference
  | C_NoPendingTransaction
  | C_TransactionAborted
  | C_AbortIncomplete
  | C_InsufficientResourceBudget
  | C_PageSpaceExhausted
  | C_WorkLimitTooSmall
  | C_Cancelled
  | C_SourceFailed
  | C_SinkFailed
  | C_StoppedBySink
  | C_Io
  | C_FormatInvalid
  | C_NotV4
  | C_DurabilityUnsupported
  | C_PublicationUnsupported
  | C_AccessPolicyUnsupported
  | C_Conflict
  | C_Unresolvable
  | C_WriterBusy
  | C_DirectoryIdentityMismatch
  | C_DestinationNameMismatch
  | C_CleanupConflict
  | C_CoordinationSequenceExhausted
  | C_LiveCoordinationUnsupported
  | C_LiveCoordinationCleanupRequired
  | C_LiveCoordinationMalformedRequiresReset
  | C_LiveOpenCleanupRequired
  | C_LiveRecoveryCoordinationUnavailable
  | C_LiveRecoveryCurrentGenerationUnprovable
  | C_LiveRecoveryCurrentGenerationUnreadable
  | C_RecoveryCandidateChanged
  | C_RecoveryPreparationFailed
  | C_SnapshotPreparationFailed
  | C_TransitionSuperseded
  | C_CurrentGenerationUnprovable
  | C_ForkedHandle
  | C_Panic
  | C_OsUnsupported
  | C_TransactionIdExhausted
  | C_ArithmeticOverflow
  | C_FeedIndexExhausted
  | C_MembershipIdExhausted
  | C_ReaderCapacityExhausted
  | C_CleanupInProgress
  | C_FaultWorkerUnavailable
  | C_FaultWorkerFailed
  | C_UnsupportedStructure
  | C_WrongStructureKind
  | C_StructureIdExhausted

primrec wire :: "error_code \<Rightarrow> nat" where
  "wire C_InvalidArgument = 1"
| "wire C_NullPointer = 2"
| "wire C_MisalignedPointer = 3"
| "wire C_InvalidLength = 4"
| "wire C_InvalidEnum = 5"
| "wire C_ReservedNonzero = 6"
| "wire C_BufferTooSmall = 7"
| "wire C_WrongHandleKind = 8"
| "wire C_HandleClosed = 9"
| "wire C_HandleBusy = 10"
| "wire C_WrongState = 11"
| "wire C_WrongAddressFamily = 12"
| "wire C_WrongValueKind = 13"
| "wire C_WrongValueTag = 14"
| "wire C_RangeReversed = 15"
| "wire C_NameInvalid = 16"
| "wire C_NameExists = 17"
| "wire C_NameNotFound = 18"
| "wire C_StaleReference = 19"
| "wire C_ForeignReference = 20"
| "wire C_NoPendingTransaction = 21"
| "wire C_TransactionAborted = 22"
| "wire C_AbortIncomplete = 23"
| "wire C_InsufficientResourceBudget = 24"
| "wire C_PageSpaceExhausted = 25"
| "wire C_WorkLimitTooSmall = 26"
| "wire C_Cancelled = 27"
| "wire C_SourceFailed = 28"
| "wire C_SinkFailed = 29"
| "wire C_StoppedBySink = 30"
| "wire C_Io = 31"
| "wire C_FormatInvalid = 32"
| "wire C_NotV4 = 33"
| "wire C_DurabilityUnsupported = 34"
| "wire C_PublicationUnsupported = 35"
| "wire C_AccessPolicyUnsupported = 36"
| "wire C_Conflict = 37"
| "wire C_Unresolvable = 38"
| "wire C_WriterBusy = 39"
| "wire C_DirectoryIdentityMismatch = 40"
| "wire C_DestinationNameMismatch = 41"
| "wire C_CleanupConflict = 42"
| "wire C_CoordinationSequenceExhausted = 43"
| "wire C_LiveCoordinationUnsupported = 44"
| "wire C_LiveCoordinationCleanupRequired = 45"
| "wire C_LiveCoordinationMalformedRequiresReset = 46"
| "wire C_LiveOpenCleanupRequired = 47"
| "wire C_LiveRecoveryCoordinationUnavailable = 48"
| "wire C_LiveRecoveryCurrentGenerationUnprovable = 49"
| "wire C_LiveRecoveryCurrentGenerationUnreadable = 50"
| "wire C_RecoveryCandidateChanged = 51"
| "wire C_RecoveryPreparationFailed = 52"
| "wire C_SnapshotPreparationFailed = 53"
| "wire C_TransitionSuperseded = 54"
| "wire C_CurrentGenerationUnprovable = 55"
| "wire C_ForkedHandle = 56"
| "wire C_Panic = 57"
| "wire C_OsUnsupported = 58"
| "wire C_TransactionIdExhausted = 59"
| "wire C_ArithmeticOverflow = 60"
| "wire C_FeedIndexExhausted = 61"
| "wire C_MembershipIdExhausted = 62"
| "wire C_ReaderCapacityExhausted = 63"
| "wire C_CleanupInProgress = 64"
| "wire C_FaultWorkerUnavailable = 65"
| "wire C_FaultWorkerFailed = 66"
| "wire C_UnsupportedStructure = 67"
| "wire C_WrongStructureKind = 68"
| "wire C_StructureIdExhausted = 69"

definition from_wire :: "nat \<Rightarrow> error_code option" where
  "from_wire value = (
    if value = 1 then Some C_InvalidArgument
    else if value = 2 then Some C_NullPointer
    else if value = 3 then Some C_MisalignedPointer
    else if value = 4 then Some C_InvalidLength
    else if value = 5 then Some C_InvalidEnum
    else if value = 6 then Some C_ReservedNonzero
    else if value = 7 then Some C_BufferTooSmall
    else if value = 8 then Some C_WrongHandleKind
    else if value = 9 then Some C_HandleClosed
    else if value = 10 then Some C_HandleBusy
    else if value = 11 then Some C_WrongState
    else if value = 12 then Some C_WrongAddressFamily
    else if value = 13 then Some C_WrongValueKind
    else if value = 14 then Some C_WrongValueTag
    else if value = 15 then Some C_RangeReversed
    else if value = 16 then Some C_NameInvalid
    else if value = 17 then Some C_NameExists
    else if value = 18 then Some C_NameNotFound
    else if value = 19 then Some C_StaleReference
    else if value = 20 then Some C_ForeignReference
    else if value = 21 then Some C_NoPendingTransaction
    else if value = 22 then Some C_TransactionAborted
    else if value = 23 then Some C_AbortIncomplete
    else if value = 24 then Some C_InsufficientResourceBudget
    else if value = 25 then Some C_PageSpaceExhausted
    else if value = 26 then Some C_WorkLimitTooSmall
    else if value = 27 then Some C_Cancelled
    else if value = 28 then Some C_SourceFailed
    else if value = 29 then Some C_SinkFailed
    else if value = 30 then Some C_StoppedBySink
    else if value = 31 then Some C_Io
    else if value = 32 then Some C_FormatInvalid
    else if value = 33 then Some C_NotV4
    else if value = 34 then Some C_DurabilityUnsupported
    else if value = 35 then Some C_PublicationUnsupported
    else if value = 36 then Some C_AccessPolicyUnsupported
    else if value = 37 then Some C_Conflict
    else if value = 38 then Some C_Unresolvable
    else if value = 39 then Some C_WriterBusy
    else if value = 40 then Some C_DirectoryIdentityMismatch
    else if value = 41 then Some C_DestinationNameMismatch
    else if value = 42 then Some C_CleanupConflict
    else if value = 43 then Some C_CoordinationSequenceExhausted
    else if value = 44 then Some C_LiveCoordinationUnsupported
    else if value = 45 then Some C_LiveCoordinationCleanupRequired
    else if value = 46 then Some C_LiveCoordinationMalformedRequiresReset
    else if value = 47 then Some C_LiveOpenCleanupRequired
    else if value = 48 then Some C_LiveRecoveryCoordinationUnavailable
    else if value = 49 then Some C_LiveRecoveryCurrentGenerationUnprovable
    else if value = 50 then Some C_LiveRecoveryCurrentGenerationUnreadable
    else if value = 51 then Some C_RecoveryCandidateChanged
    else if value = 52 then Some C_RecoveryPreparationFailed
    else if value = 53 then Some C_SnapshotPreparationFailed
    else if value = 54 then Some C_TransitionSuperseded
    else if value = 55 then Some C_CurrentGenerationUnprovable
    else if value = 56 then Some C_ForkedHandle
    else if value = 57 then Some C_Panic
    else if value = 58 then Some C_OsUnsupported
    else if value = 59 then Some C_TransactionIdExhausted
    else if value = 60 then Some C_ArithmeticOverflow
    else if value = 61 then Some C_FeedIndexExhausted
    else if value = 62 then Some C_MembershipIdExhausted
    else if value = 63 then Some C_ReaderCapacityExhausted
    else if value = 64 then Some C_CleanupInProgress
    else if value = 65 then Some C_FaultWorkerUnavailable
    else if value = 66 then Some C_FaultWorkerFailed
    else if value = 67 then Some C_UnsupportedStructure
    else if value = 68 then Some C_WrongStructureKind
    else if value = 69 then Some C_StructureIdExhausted
    else None)"

section \<open>Errors\<close>

datatype (plugins only: code size) error =
    InvalidArgument string
  | NameInvalid
  | NameExists
  | NameNotFound
  | StaleReference
  | ForeignReference
  | WrongState string
  | WrongMode string
  | WrongAddressFamily string
  | WrongValueKind string
  | WrongValueTag string
  | UnsupportedStructure "8 word"
  | WrongStructureKind string
  | LiveCoordinationUnsupported
  | Unsupported string
  | DurabilityUnsupported string
  | Io string
  | Format bootstrap_error
  | Corrupt string
  | ArithmeticOverflow string
  | PageSpaceExhausted
  | FeedIndexExhausted
  | MembershipIdExhausted
  | StructureIdExhausted
  | BudgetExceeded string
  | WorkLimitTooSmall "64 word"
  | BufferTooSmall "64 word"
  | Cancelled
  | Random string
  | WriterBusy
  | ReaderCapacityExhausted
  | NoPendingTransaction
  | TransactionAborted error
  | CleanupIncomplete error error
  | SinkFailed error
  | StoppedBySink
  | LiveRecoveryCoordinationUnavailable error
  | LiveRecoveryCurrentGenerationUnprovable
  | LiveRecoveryCurrentGenerationUnreadable
  | RecoveryCandidateChanged
  | DirectoryIdentityMismatch
  | Conflict string
  | Unresolvable string
  | CleanupConflict string
  | CleanupInProgress string
  | ForkedHandle
  | WorkerOperation error_code "32 word option"
  | Panicked string

type_synonym 'a result = "error + 'a"

primrec code :: "error \<Rightarrow> error_code" where
  "code (InvalidArgument d) = C_InvalidArgument"
| "code NameInvalid = C_NameInvalid"
| "code NameExists = C_NameExists"
| "code NameNotFound = C_NameNotFound"
| "code StaleReference = C_StaleReference"
| "code ForeignReference = C_ForeignReference"
| "code (WrongState d) = C_WrongState"
| "code (WrongMode d) = C_WrongState"
| "code (WrongAddressFamily d) = C_WrongAddressFamily"
| "code (WrongValueKind d) = C_WrongValueKind"
| "code (WrongValueTag d) = C_WrongValueTag"
| "code (UnsupportedStructure d) = C_UnsupportedStructure"
| "code (WrongStructureKind d) = C_WrongStructureKind"
| "code LiveCoordinationUnsupported = C_LiveCoordinationUnsupported"
| "code (Unsupported d) = C_OsUnsupported"
| "code (DurabilityUnsupported d) = C_DurabilityUnsupported"
| "code (Io d) = C_Io"
| "code (Format d) = C_FormatInvalid"
| "code (Corrupt d) = C_FormatInvalid"
| "code (ArithmeticOverflow d) = C_ArithmeticOverflow"
| "code PageSpaceExhausted = C_PageSpaceExhausted"
| "code FeedIndexExhausted = C_FeedIndexExhausted"
| "code MembershipIdExhausted = C_MembershipIdExhausted"
| "code StructureIdExhausted = C_StructureIdExhausted"
| "code (BudgetExceeded d) = C_InsufficientResourceBudget"
| "code (WorkLimitTooSmall d) = C_WorkLimitTooSmall"
| "code (BufferTooSmall d) = C_BufferTooSmall"
| "code Cancelled = C_Cancelled"
| "code (Random d) = C_Io"
| "code WriterBusy = C_WriterBusy"
| "code ReaderCapacityExhausted = C_ReaderCapacityExhausted"
| "code NoPendingTransaction = C_NoPendingTransaction"
| "code (TransactionAborted d) = C_TransactionAborted"
| "code (CleanupIncomplete cause cleanup) = C_CleanupInProgress"
| "code (SinkFailed d) = C_SinkFailed"
| "code StoppedBySink = C_StoppedBySink"
| "code (LiveRecoveryCoordinationUnavailable d) = C_LiveRecoveryCoordinationUnavailable"
| "code LiveRecoveryCurrentGenerationUnprovable = C_LiveRecoveryCurrentGenerationUnprovable"
| "code LiveRecoveryCurrentGenerationUnreadable = C_LiveRecoveryCurrentGenerationUnreadable"
| "code RecoveryCandidateChanged = C_RecoveryCandidateChanged"
| "code DirectoryIdentityMismatch = C_DirectoryIdentityMismatch"
| "code (Conflict d) = C_Conflict"
| "code (Unresolvable d) = C_Unresolvable"
| "code (CleanupConflict d) = C_CleanupConflict"
| "code (CleanupInProgress d) = C_CleanupInProgress"
| "code ForkedHandle = C_ForkedHandle"
| "code (WorkerOperation c os_code) = c"
| "code (Panicked d) = C_Panic"

definition residue_possible :: "error \<Rightarrow> bool" where
  "residue_possible e = (case e of CleanupIncomplete cause cleanup \<Rightarrow> True | _ \<Rightarrow> False)"

fun combine_errors :: "error \<Rightarrow> unit result \<Rightarrow> error" where
  "combine_errors cause (Inr _) = cause"
| "combine_errors cause (Inl cleanup) = CleanupIncomplete cause cleanup"

fun finish_with_cleanup :: "'a result \<Rightarrow> unit result \<Rightarrow> 'a result" where
  "finish_with_cleanup (Inr value) cleanup = rmap (\<lambda>_. value) cleanup"
| "finish_with_cleanup (Inl cause) cleanup = Inl (combine_errors cause cleanup)"

fun error_of_format :: "bootstrap_error \<Rightarrow> error" where
  "error_of_format (B_UnsupportedStructure kind) = UnsupportedStructure kind"
| "error_of_format other = Format other"

section \<open>Facts\<close>

lemma wire_range: "1 \<le> wire c \<and> wire c \<le> 69"
  by (cases c) simp_all

lemma from_wire_wire: "from_wire (wire c) = Some c"
  by (cases c) (simp_all add: from_wire_def)

lemma wire_inj: "wire c = wire d \<Longrightarrow> c = d"
  by (metis from_wire_wire option.inject)

lemma from_wire_SomeD: "from_wire n = Some c \<Longrightarrow> wire c = n"
  unfolding from_wire_def by (simp split: if_split_asm)

lemma finish_with_cleanup_Inr_iff [result_simps]:
  "finish_with_cleanup r cleanup = Inr v \<longleftrightarrow> r = Inr v \<and> cleanup = Inr ()"
  by (cases r; cases cleanup) auto

section \<open>Loops\<close>

text \<open>A loop with no bound of its own is a partial function: \<open>None\<close> is a call that does not return.\<close>

type_synonym 'a run = "'a result option"

fun step_result :: "'a result \<Rightarrow> ('a \<Rightarrow> 'b run) \<Rightarrow> 'b run" where
  "step_result (Inl e) k = Some (Inl e)"
| "step_result (Inr x) k = k x"

fun step_run :: "'a run \<Rightarrow> ('a \<Rightarrow> 'b run) \<Rightarrow> 'b run" where
  "step_run None k = None"
| "step_run (Some r) k = step_result r k"

lemma step_run_Some [simp]: "step_run (Some (Inr x)) k = k x"
  by simp

lemma step_result_mono [partial_function_mono]:
  "(\<And>x. mono_option (k x)) \<Longrightarrow> mono_option (\<lambda>f. step_result r (\<lambda>x. k x f))"
  by (cases r) (simp_all add: partial_function_mono)

lemma step_run_mono [partial_function_mono]:
  "(\<And>x. mono_option (k x)) \<Longrightarrow> mono_option (\<lambda>f. step_run r (\<lambda>x. k x f))"
  by (cases r) (simp_all add: partial_function_mono step_result_mono)

text \<open>\<open>runs r Q E\<close>: the call returns, with a value that satisfies \<open>Q\<close> or with an error and \<open>E\<close>.\<close>

definition runs :: "'a run \<Rightarrow> ('a \<Rightarrow> bool) \<Rightarrow> bool \<Rightarrow> bool" where
  "runs r Q E = (case r of None \<Rightarrow> False | Some x \<Rightarrow> rwp x Q E)"

lemma runs_Some [simp]: "runs (Some x) Q E = rwp x Q E"
  by (simp add: runs_def)

lemma runs_step_result: "rwp r P E \<Longrightarrow> (\<And>x. P x \<Longrightarrow> runs (k x) Q E) \<Longrightarrow> runs (step_result r k) Q E"
  by (cases r) auto

lemma runs_step_run: "runs r P E \<Longrightarrow> (\<And>x. P x \<Longrightarrow> runs (k x) Q E) \<Longrightarrow> runs (step_run r k) Q E"
  by (cases r) (auto simp: runs_def intro: runs_step_result [unfolded runs_def])

lemma runs_mono: "runs r P E \<Longrightarrow> (\<And>x. P x \<Longrightarrow> Q x) \<Longrightarrow> (E \<Longrightarrow> F) \<Longrightarrow> runs r Q F"
  by (cases r) (auto simp: runs_def intro: rwp_mono)

lemma runs_False: "runs r Q False \<longleftrightarrow> (\<exists>x. r = Some (Inr x) \<and> Q x)"
  by (cases r) (auto simp: runs_def rwp_False)

text \<open>C32. Every error code has its own wire number, decoding a number gives back exactly the code it
  encodes, and a number that is no code decodes to nothing.\<close>

theorem error_codes_roundtrip:
  "from_wire (wire c) = Some c \<and> (from_wire w = Some c' \<longleftrightarrow> wire c' = w)"
  using from_wire_wire from_wire_SomeD by auto

end
