(* ===== verification/MappedBytes.thy ===== *)
theory MappedBytes
  imports Errors
begin

text \<open>
  Byte sources and page edits (\<open>mapped_bytes.rs\<close>, \<open>page_io.rs\<close>, the readers of
  \<open>contract.rs\<close>). A \<open>ByteSource\<close> is the list of its bytes; a \<open>ByteRange\<close> is the bytes of
  its range. A page edit takes the page and returns it changed. A read whose \<open>expect\<close>
  fires is \<open>Panicked\<close>. \<open>u16_at\<close> and its siblings are the value of an in-range read, the form the
  unchecked reads of the source have; \<open>u16_le_in\<close> relates the two. The reads behind raw
  pointers touch the same bytes, so the pointer of a view has no counterpart here.
\<close>

section \<open>Reading\<close>

definition PAGE_SIZE :: nat where
  "PAGE_SIZE = 4096"

definition MAX_TREE_LEVEL :: "16 word" where
  "MAX_TREE_LEVEL = 31"

definition byte_at :: "bytes \<Rightarrow> nat \<Rightarrow> byte option" where
  "byte_at src at = (if at < length src then Some (src ! at) else None)"

definition array :: "nat \<Rightarrow> bytes \<Rightarrow> nat \<Rightarrow> bytes option" where
  "array n src at =
    (case usize_checked_add at n of
      None \<Rightarrow> None
    | Some end' \<Rightarrow> if end' > length src then None else Some (rd src at n))"

definition equals :: "bytes \<Rightarrow> nat \<Rightarrow> bytes \<Rightarrow> bool" where
  "equals src at expected =
    ((case usize_checked_add at (length expected) of
        None \<Rightarrow> False | Some end' \<Rightarrow> end' \<le> length src)
     \<and> list_all (\<lambda>(index, b). byte_at src (at + index) = Some b)
          (zip [0..<length expected] expected))"

function pointer_all_zero :: "bytes \<Rightarrow> bool" where
  "pointer_all_zero bs =
    (if length bs \<ge> 8
     then (if (from_le_bytes (take 8 bs) :: 64 word) \<noteq> 0 then False
           else pointer_all_zero (drop 8 bs))
     else list_all (\<lambda>b. b = 0) bs)"
  by pat_completeness auto
termination by (relation "measure length") auto

definition all_zero :: "bytes \<Rightarrow> nat \<Rightarrow> nat \<Rightarrow> bool" where
  "all_zero src at len =
    (case usize_checked_add at len of
      None \<Rightarrow> False
    | Some end' \<Rightarrow> if end' > length src then False else pointer_all_zero (rd src at len))"

definition same :: "bytes \<Rightarrow> bytes \<Rightarrow> nat \<Rightarrow> nat \<Rightarrow> bool" where
  "same src other at len =
    ((case usize_checked_add at len of
        None \<Rightarrow> False | Some end' \<Rightarrow> end' \<le> length src \<and> end' \<le> length other)
     \<and> list_all (\<lambda>index. byte_at src index = byte_at other index) [at..<at + len])"

definition byte_range :: "bytes \<Rightarrow> nat \<Rightarrow> nat \<Rightarrow> bytes option" where
  "byte_range src at len =
    (case usize_checked_add at len of
      None \<Rightarrow> None
    | Some end' \<Rightarrow>
        if end' > length src \<or> at \<ge> 2 ^ 32 \<or> len \<ge> 2 ^ 32 then None else Some (rd src at len))"

definition u16_source :: "bytes \<Rightarrow> nat \<Rightarrow> 16 word option" where
  "u16_source src at = map_option from_le_bytes (array 2 src at)"

definition u32_source :: "bytes \<Rightarrow> nat \<Rightarrow> 32 word option" where
  "u32_source src at = map_option from_le_bytes (array 4 src at)"

definition u64_source :: "bytes \<Rightarrow> nat \<Rightarrow> 64 word option" where
  "u64_source src at = map_option from_le_bytes (array 8 src at)"

definition u16_le :: "bytes \<Rightarrow> nat \<Rightarrow> 16 word result" where
  "u16_le src at = ok_or (Panicked ''validated u16 field'') (u16_source src at)"

definition u32_le :: "bytes \<Rightarrow> nat \<Rightarrow> 32 word result" where
  "u32_le src at = ok_or (Panicked ''validated u32 field'') (u32_source src at)"

definition u64_le :: "bytes \<Rightarrow> nat \<Rightarrow> 64 word result" where
  "u64_le src at = ok_or (Panicked ''validated u64 field'') (u64_source src at)"

definition u16_at :: "bytes \<Rightarrow> nat \<Rightarrow> 16 word" where
  "u16_at src at = from_le_bytes (rd src at 2)"

definition u32_at :: "bytes \<Rightarrow> nat \<Rightarrow> 32 word" where
  "u32_at src at = from_le_bytes (rd src at 4)"

definition u64_at :: "bytes \<Rightarrow> nat \<Rightarrow> 64 word" where
  "u64_at src at = from_le_bytes (rd src at 8)"

section \<open>Writing\<close>

definition checked_subrange :: "nat \<Rightarrow> nat \<Rightarrow> nat \<Rightarrow> nat result" where
  "checked_subrange at len extent =
    (if (case usize_checked_add at len of None \<Rightarrow> False | Some end' \<Rightarrow> end' \<le> extent)
     then Inr len
     else Inl (ArithmeticOverflow ''mapped byte range''))"

definition fill :: "byte \<Rightarrow> bytes" where
  "fill value = replicate PAGE_SIZE value"

definition write_bytes :: "bytes \<Rightarrow> nat \<Rightarrow> bytes \<Rightarrow> bytes result" where
  "write_bytes page at bs =
    rbind (checked_subrange at (length bs) PAGE_SIZE) (\<lambda>len. Inr (wr page at bs))"

definition write_source :: "bytes \<Rightarrow> nat \<Rightarrow> bytes \<Rightarrow> bytes result" where
  "write_source page at bs =
    rbind (checked_subrange at (length bs) PAGE_SIZE) (\<lambda>len. Inr (wr page at bs))"

definition zero :: "bytes \<Rightarrow> nat \<Rightarrow> nat \<Rightarrow> bytes result" where
  "zero page at len =
    rbind (checked_subrange at len PAGE_SIZE) (\<lambda>len. Inr (wr page at (replicate len 0)))"

definition copy_within :: "bytes \<Rightarrow> nat \<Rightarrow> nat \<Rightarrow> nat \<Rightarrow> bytes result" where
  "copy_within page source_at destination_at len =
    rbind (checked_subrange source_at len PAGE_SIZE) (\<lambda>_.
    rbind (checked_subrange destination_at len PAGE_SIZE) (\<lambda>_.
    Inr (wr page destination_at (rd page source_at len))))"

definition set_byte :: "bytes \<Rightarrow> nat \<Rightarrow> byte \<Rightarrow> bytes result" where
  "set_byte page at value =
    rbind (checked_subrange at 1 PAGE_SIZE) (\<lambda>_. Inr (wr page at [value]))"

definition put_u16 :: "bytes \<Rightarrow> nat \<Rightarrow> 16 word \<Rightarrow> bytes result" where
  "put_u16 page at value = write_bytes page at (to_le_bytes value)"

definition put_u32 :: "bytes \<Rightarrow> nat \<Rightarrow> 32 word \<Rightarrow> bytes result" where
  "put_u32 page at value = write_bytes page at (to_le_bytes value)"

definition put_u64 :: "bytes \<Rightarrow> nat \<Rightarrow> 64 word \<Rightarrow> bytes result" where
  "put_u64 page at value = write_bytes page at (to_le_bytes value)"

section \<open>Facts about reads\<close>

named_theorems page_simps \<open>reads and edits of a page that stay inside it\<close>

lemma usize_page [simp]: "n \<le> PAGE_SIZE \<Longrightarrow> n \<le> usize_max"
  by (simp add: PAGE_SIZE_def usize_max_def)

lemma array_in: "at + n \<le> length src \<Longrightarrow> length src \<le> usize_max \<Longrightarrow> array n src at = Some (rd src at n)"
  by (simp add: array_def usize_checked_add_def)

lemma array_Some_iff:
  "length src \<le> usize_max \<Longrightarrow>
   array n src at = Some bs \<longleftrightarrow> at + n \<le> length src \<and> bs = rd src at n"
  by (auto simp: array_def usize_checked_add_def)

lemma u16_le_in [page_simps]:
  "at + 2 \<le> length src \<Longrightarrow> length src \<le> usize_max \<Longrightarrow> u16_le src at = Inr (u16_at src at)"
  by (simp add: u16_le_def u16_source_def array_in u16_at_def)

lemma u32_le_in [page_simps]:
  "at + 4 \<le> length src \<Longrightarrow> length src \<le> usize_max \<Longrightarrow> u32_le src at = Inr (u32_at src at)"
  by (simp add: u32_le_def u32_source_def array_in u32_at_def)

lemma u64_le_in [page_simps]:
  "at + 8 \<le> length src \<Longrightarrow> length src \<le> usize_max \<Longrightarrow> u64_le src at = Inr (u64_at src at)"
  by (simp add: u64_le_def u64_source_def array_in u64_at_def)

lemma u32_source_in [page_simps]:
  "at + 4 \<le> length src \<Longrightarrow> length src \<le> usize_max \<Longrightarrow> u32_source src at = Some (u32_at src at)"
  by (simp add: u32_source_def array_in u32_at_def)

lemma le_nat_zero_iff: "le_nat bs = 0 \<longleftrightarrow> (\<forall>b\<in>set bs. b = 0)"
  by (induction bs) (auto simp: unat_eq_0)

lemma from_le_bytes_zero_iff:
  assumes "length bs = 8"
  shows "(from_le_bytes bs :: 64 word) = 0 \<longleftrightarrow> (\<forall>b\<in>set bs. b = 0)"
proof -
  have "le_nat bs < 2 ^ 64"
    using le_nat_bound [of bs] assms by simp
  hence "(from_le_bytes bs :: 64 word) = 0 \<longleftrightarrow> le_nat bs = 0"
    by (auto simp: from_le_bytes_def word_unat_eq_iff unat_of_nat take_bit_eq_mod)
  thus ?thesis by (simp add: le_nat_zero_iff)
qed

lemma pointer_all_zero_iff: "pointer_all_zero bs \<longleftrightarrow> (\<forall>b\<in>set bs. b = 0)"
proof (induction bs rule: pointer_all_zero.induct)
  case (1 bs)
  show ?case
  proof (cases "length bs \<ge> 8")
    case True
    have "set bs = set (take 8 bs) \<union> set (drop 8 bs)"
      by (metis append_take_drop_id set_append)
    thus ?thesis
      using 1 True from_le_bytes_zero_iff [of "take 8 bs"]
      by (subst pointer_all_zero.simps) (auto simp del: pointer_all_zero.simps)
  qed (simp add: list_all_iff)
qed

declare pointer_all_zero.simps [simp del]

lemma eq_replicate_iff: "length xs = n \<Longrightarrow> xs = replicate n x \<longleftrightarrow> (\<forall>y\<in>set xs. y = x)"
  by (metis in_set_replicate replicate_eqI)

lemma all_zero_iff:
  "length src \<le> usize_max \<Longrightarrow>
   all_zero src at len \<longleftrightarrow> at + len \<le> length src \<and> rd src at len = replicate len 0"
  by (auto simp: all_zero_def usize_checked_add_def pointer_all_zero_iff eq_replicate_iff)

lemma equals_iff:
  assumes "length src \<le> usize_max"
  shows "equals src at e \<longleftrightarrow> at + length e \<le> length src \<and> rd src at (length e) = e"
proof (cases "at + length e \<le> length src")
  case True
  hence "equals src at e \<longleftrightarrow> (\<forall>i<length e. src ! (at + i) = e ! i)"
    using assms by (auto simp: equals_def usize_checked_add_def byte_at_def list_all_length)
  also have "\<dots> \<longleftrightarrow> rd src at (length e) = e"
    using True by (subst list_eq_iff_nth_eq) (auto simp: nth_rd)
  finally show ?thesis using True by simp
qed (use assms in \<open>auto simp: equals_def usize_checked_add_def\<close>)

lemma same_iff:
  assumes "length src \<le> usize_max"
  shows "same src other at len \<longleftrightarrow>
     at + len \<le> length src \<and> at + len \<le> length other \<and> rd src at len = rd other at len"
proof (cases "at + len \<le> length src \<and> at + len \<le> length other")
  case True
  hence "same src other at len \<longleftrightarrow> (\<forall>i<len. src ! (at + i) = other ! (at + i))"
    using assms by (auto simp: same_def usize_checked_add_def byte_at_def list_all_length)
  also have "\<dots> \<longleftrightarrow> rd src at len = rd other at len"
    using True by (subst list_eq_iff_nth_eq) (auto simp: nth_rd)
  finally show ?thesis using True by simp
qed (use assms in \<open>auto simp: same_def usize_checked_add_def\<close>)

section \<open>Facts about edits\<close>

lemma checked_subrange_in [page_simps]:
  "at + len \<le> PAGE_SIZE \<Longrightarrow> checked_subrange at len PAGE_SIZE = Inr len"
  by (simp add: checked_subrange_def usize_checked_add_def)

lemma write_bytes_in [page_simps]: "at + length bs \<le> PAGE_SIZE \<Longrightarrow> write_bytes page at bs = Inr (wr page at bs)"
  by (simp add: write_bytes_def page_simps)

lemma write_source_in [page_simps]:
  "at + length bs \<le> PAGE_SIZE \<Longrightarrow> write_source page at bs = Inr (wr page at bs)"
  by (simp add: write_source_def page_simps)

lemma zero_in [page_simps]:
  "at + len \<le> PAGE_SIZE \<Longrightarrow> zero page at len = Inr (wr page at (replicate len 0))"
  by (simp add: zero_def page_simps)

lemma copy_within_in [page_simps]:
  "src + len \<le> PAGE_SIZE \<Longrightarrow> dst + len \<le> PAGE_SIZE \<Longrightarrow>
   copy_within page src dst len = Inr (wr page dst (rd page src len))"
  by (simp add: copy_within_def page_simps)

lemma set_byte_in [page_simps]: "at < PAGE_SIZE \<Longrightarrow> set_byte page at v = Inr (wr page at [v])"
  by (simp add: set_byte_def page_simps)

lemma put_u16_in [page_simps]:
  "at + 2 \<le> PAGE_SIZE \<Longrightarrow> put_u16 page at v = Inr (wr page at (to_le_bytes v))"
  by (simp add: put_u16_def page_simps)

lemma put_u32_in [page_simps]:
  "at + 4 \<le> PAGE_SIZE \<Longrightarrow> put_u32 page at v = Inr (wr page at (to_le_bytes v))"
  by (simp add: put_u32_def page_simps)

lemma put_u64_in [page_simps]:
  "at + 8 \<le> PAGE_SIZE \<Longrightarrow> put_u64 page at v = Inr (wr page at (to_le_bytes v))"
  by (simp add: put_u64_def page_simps)

lemma length_fill [simp]: "length (fill v) = PAGE_SIZE"
  by (simp add: fill_def)

lemma write_length: "write_bytes page at bs = Inr page' \<Longrightarrow> length page = PAGE_SIZE \<Longrightarrow> length page' = PAGE_SIZE"
  by (auto simp: write_bytes_def checked_subrange_def usize_checked_add_def result_simps
      split: if_splits option.splits)

text \<open>Reading back the integer fields that a range write leaves alone or stores.\<close>

lemma u16_at_wr_same [byte_simps]:
  "at + 2 \<le> length p \<Longrightarrow> u16_at (wr p at (to_le_bytes v)) at = v"
  by (simp add: u16_at_def byte_simps)

lemma u32_at_wr_same [byte_simps]:
  "at + 4 \<le> length p \<Longrightarrow> u32_at (wr p at (to_le_bytes v)) at = v"
  by (simp add: u32_at_def byte_simps)

lemma u64_at_wr_same [byte_simps]:
  "at + 8 \<le> length p \<Longrightarrow> u64_at (wr p at (to_le_bytes v)) at = v"
  by (simp add: u64_at_def byte_simps)

lemma u16_at_wr_disjoint [byte_simps]:
  "at + length bs \<le> length p \<Longrightarrow> b + 2 \<le> length p \<Longrightarrow> b + 2 \<le> at \<or> at + length bs \<le> b \<Longrightarrow>
   u16_at (wr p at bs) b = u16_at p b"
  by (simp add: u16_at_def byte_simps)

lemma u32_at_wr_disjoint [byte_simps]:
  "at + length bs \<le> length p \<Longrightarrow> b + 4 \<le> length p \<Longrightarrow> b + 4 \<le> at \<or> at + length bs \<le> b \<Longrightarrow>
   u32_at (wr p at bs) b = u32_at p b"
  by (simp add: u32_at_def byte_simps)

lemma u64_at_wr_disjoint [byte_simps]:
  "at + length bs \<le> length p \<Longrightarrow> b + 8 \<le> length p \<Longrightarrow> b + 8 \<le> at \<or> at + length bs \<le> b \<Longrightarrow>
   u64_at (wr p at bs) b = u64_at p b"
  by (simp add: u64_at_def byte_simps)

end
