(* ===== verification/PageHeader.thy ===== *)
theory PageHeader
  imports MappedBytes
begin

text \<open>
  The common 32-byte header of every database page (\<open>page_header.rs\<close>). The readers take a
  page of \<open>PAGE_SIZE\<close> bytes, as every \<open>PageView\<close> has; on such a page no \<open>expect\<close> of the
  field readers can fire (\<open>u16_le_in\<close>, \<open>u64_le_in\<close>), so they are total here.
\<close>

section \<open>Layout\<close>

definition SIZE :: nat where "SIZE = 32"
definition MAGIC :: nat where "MAGIC = 0"
definition TYPE_OFFSET :: nat where "TYPE_OFFSET = 4"
definition FLAGS :: nat where "FLAGS = 5"
definition HEADER_BYTES :: nat where "HEADER_BYTES = 6"
definition BORN_TXN :: nat where "BORN_TXN = 8"
definition ITEM_COUNT :: nat where "ITEM_COUNT = 16"
definition LEVEL :: nat where "LEVEL = 18"
definition LOWER :: nat where "LOWER = 20"
definition UPPER :: nat where "UPPER = 22"
definition AUX :: nat where "AUX = 24"

lemmas header_offsets = SIZE_def MAGIC_def TYPE_OFFSET_def FLAGS_def HEADER_BYTES_def BORN_TXN_def
  ITEM_COUNT_def LEVEL_def LOWER_def UPPER_def AUX_def

text \<open>\<open>PAGE_MAGIC\<close> is the ASCII text \<open>IP4P\<close>.\<close>

definition PAGE_MAGIC :: bytes where
  "PAGE_MAGIC = [0x49, 0x50, 0x34, 0x50]"

definition MAGIC_WORD :: "32 word" where
  "MAGIC_WORD = from_le_bytes PAGE_MAGIC"

record fields =
  f_page_type :: "8 word"
  f_born_txn :: "64 word"
  f_item_count :: "16 word"
  f_level :: "16 word"
  f_lower :: "16 word"
  f_upper :: "16 word"
  f_aux :: "32 word"

datatype common_problem = CP_Header | CP_Born

section \<open>Operations\<close>

definition initialize :: "fields \<Rightarrow> bytes result" where
  "initialize fs =
    rbind (write_bytes (fill 0) MAGIC PAGE_MAGIC) (\<lambda>page.
    rbind (set_byte page TYPE_OFFSET (f_page_type fs)) (\<lambda>page.
    rbind (put_u16 page HEADER_BYTES (of_nat SIZE)) (\<lambda>page.
    rbind (put_u64 page BORN_TXN (f_born_txn fs)) (\<lambda>page.
    rbind (put_u16 page ITEM_COUNT (f_item_count fs)) (\<lambda>page.
    rbind (put_u16 page LEVEL (f_level fs)) (\<lambda>page.
    rbind (put_u16 page LOWER (f_lower fs)) (\<lambda>page.
    rbind (put_u16 page UPPER (f_upper fs)) (\<lambda>page.
    put_u32 page AUX (f_aux fs)))))))))"

definition has_magic :: "bytes \<Rightarrow> bool" where
  "has_magic page \<longleftrightarrow> u32_source page MAGIC = Some MAGIC_WORD"

definition common_valid :: "bytes \<Rightarrow> bool" where
  "common_valid page \<longleftrightarrow>
    length page = PAGE_SIZE \<and> has_magic page \<and> byte_at page FLAGS = Some 0
    \<and> u16_at page HEADER_BYTES = of_nat SIZE"

definition page_type :: "bytes \<Rightarrow> 8 word option" where
  "page_type page = byte_at page TYPE_OFFSET"

definition born_txn :: "bytes \<Rightarrow> 64 word" where
  "born_txn page = u64_at page BORN_TXN"

definition item_count :: "bytes \<Rightarrow> nat" where
  "item_count page = unat (u16_at page ITEM_COUNT)"

definition level :: "bytes \<Rightarrow> 16 word" where
  "level page = u16_at page LEVEL"

definition lower :: "bytes \<Rightarrow> nat" where
  "lower page = unat (u16_at page LOWER)"

definition upper :: "bytes \<Rightarrow> nat" where
  "upper page = unat (u16_at page UPPER)"

definition owned_by :: "bytes \<Rightarrow> 64 word \<Rightarrow> bool" where
  "owned_by page txn \<longleftrightarrow> has_magic page \<and> born_txn page = txn"

definition born_valid :: "bytes \<Rightarrow> 64 word \<Rightarrow> bool" where
  "born_valid page selected_txn \<longleftrightarrow> (let born = born_txn page in born \<noteq> 0 \<and> born \<le> selected_txn)"

definition kind_valid :: "bytes \<Rightarrow> 8 word \<Rightarrow> 32 word \<Rightarrow> bool" where
  "kind_valid page expected_type aux \<longleftrightarrow>
    byte_at page TYPE_OFFSET = Some expected_type \<and> u32_at page AUX = aux"

definition common_problem :: "bytes \<Rightarrow> 64 word \<Rightarrow> common_problem option" where
  "common_problem page selected_txn =
    (if \<not> common_valid page then Some CP_Header
     else if \<not> born_valid page selected_txn then Some CP_Born
     else None)"

section \<open>Facts\<close>

text \<open>
  The header as a unit: \<open>header_of\<close> collects every field, and \<open>frame_header\<close> says that an
  edit behind the header leaves them all alone.
\<close>

definition ident_of :: "bytes \<Rightarrow> 32 word \<times> byte option \<times> byte option \<times> 16 word \<times> 64 word \<times> 32 word" where
  "ident_of page = (u32_at page MAGIC, byte_at page TYPE_OFFSET, byte_at page FLAGS,
     u16_at page HEADER_BYTES, born_txn page, u32_at page AUX)"

lemma byte_at_wr [byte_simps]:
  "at + length bs \<le> length p \<Longrightarrow> i < at \<or> at + length bs \<le> i \<Longrightarrow> byte_at (wr p at bs) i = byte_at p i"
  by (auto simp: byte_at_def nth_wr)

lemma byte_at_wr_same [byte_simps]: "at < length p \<Longrightarrow> byte_at (wr p at [v]) at = Some v"
  by (simp add: byte_at_def nth_wr)

lemma has_magic_iff:
  "length p = PAGE_SIZE \<Longrightarrow> has_magic p \<longleftrightarrow> u32_at p MAGIC = MAGIC_WORD"
  by (simp add: has_magic_def page_simps MAGIC_def PAGE_SIZE_def usize_max_def)

lemma common_valid_ident:
  "length p = PAGE_SIZE \<Longrightarrow> length q = PAGE_SIZE \<Longrightarrow> ident_of p = ident_of q \<Longrightarrow>
   common_valid p = common_valid q \<and> born_valid p txn = born_valid q txn
   \<and> kind_valid p ty aux = kind_valid q ty aux \<and> owned_by p txn = owned_by q txn"
  by (simp add: common_valid_def has_magic_iff ident_of_def born_valid_def kind_valid_def owned_by_def)

lemma ident_of_wr:
  assumes "length p = PAGE_SIZE" "at + length bs \<le> PAGE_SIZE"
    and "SIZE \<le> at \<or> (ITEM_COUNT \<le> at \<and> at + length bs \<le> AUX)"
  shows "ident_of (wr p at bs) = ident_of p"
  using assms
  by (auto simp: ident_of_def born_txn_def header_offsets PAGE_SIZE_def byte_simps)

lemma u32_at_magic_init [byte_simps]:
  "length p = PAGE_SIZE \<Longrightarrow> u32_at (wr p MAGIC PAGE_MAGIC) MAGIC = MAGIC_WORD"
  by (simp add: u32_at_def MAGIC_WORD_def rd_wr_same MAGIC_def PAGE_MAGIC_def PAGE_SIZE_def)

lemma initialize_eq:
  "initialize f = Inr
    (wr (wr (wr (wr (wr (wr (wr (wr (wr (fill 0) MAGIC PAGE_MAGIC)
      TYPE_OFFSET [f_page_type f]) HEADER_BYTES (to_le_bytes (of_nat SIZE :: 16 word)))
      BORN_TXN (to_le_bytes (f_born_txn f))) ITEM_COUNT (to_le_bytes (f_item_count f)))
      LEVEL (to_le_bytes (f_level f))) LOWER (to_le_bytes (f_lower f)))
      UPPER (to_le_bytes (f_upper f))) AUX (to_le_bytes (f_aux f)))"
  by (simp add: initialize_def page_simps header_offsets PAGE_SIZE_def PAGE_MAGIC_def)

lemma initialize_fields:
  assumes "initialize f = Inr p"
  shows "length p = PAGE_SIZE" "u32_at p MAGIC = MAGIC_WORD" "byte_at p TYPE_OFFSET = Some (f_page_type f)"
    "byte_at p FLAGS = Some 0" "u16_at p HEADER_BYTES = of_nat SIZE" "born_txn p = f_born_txn f"
    "u16_at p ITEM_COUNT = f_item_count f" "level p = f_level f"
    "u16_at p LOWER = f_lower f" "u16_at p UPPER = f_upper f" "u32_at p AUX = f_aux f"
  using assms u32_at_magic_init [of "fill 0"]
  by (auto simp: initialize_eq header_offsets PAGE_SIZE_def PAGE_MAGIC_def born_txn_def
      level_def byte_simps fill_def byte_at_def nth_wr)

lemma initialize_zero:
  assumes "initialize f = Inr p" "SIZE \<le> i" "i < PAGE_SIZE"
  shows "p ! i = 0"
  using assms
  by (auto simp: initialize_eq header_offsets PAGE_SIZE_def PAGE_MAGIC_def fill_def nth_wr)

lemma initialize_valid:
  assumes "initialize f = Inr p"
  shows "common_valid p" "kind_valid p (f_page_type f) (f_aux f)" "born_txn p = f_born_txn f"
    "owned_by p (f_born_txn f)"
  using initialize_fields [OF assms]
  by (auto simp: common_valid_def has_magic_iff kind_valid_def owned_by_def)

end
