(* ===== verification/SlottedPage.thy ===== *)
theory SlottedPage
  imports PageHeader
begin

text \<open>
  Slotted pages (\<open>slotted_page.rs\<close>): after the 32-byte header an array of two-byte slots
  grows upwards to \<open>lower\<close>; the records fill the page from \<open>upper\<close> to its end. This theory
  holds the operations: parsing, cell access, the layout inspection with its bitmap of
  used bytes, insertion, replacement, removal, truncation and the append-only builder.
  An edit takes the page and the parsed header and returns the changed page.

  The source subtracts offsets without a check in places where the parsed header orders
  them (\<open>shape_valid\<close>); those differences are plain \<^typ>\<open>nat\<close> differences here.
\<close>

unbundle bit_operations_syntax

section \<open>Headers\<close>

definition HEADER_SIZE :: nat where
  "HEADER_SIZE = SIZE"

definition MAX_SLOT_COUNT :: nat where
  "MAX_SLOT_COUNT = (PAGE_SIZE - HEADER_SIZE) div 2"

record header =
  h_item_count :: nat
  h_level :: "16 word"
  h_lower :: nat
  h_upper :: nat

datatype header_problem = HP_Header | HP_Born | HP_Type | HP_Level | HP_Shape

datatype cell_layout = Fixed nat | Variable nat nat

definition raw_header :: "bytes \<Rightarrow> header" where
  "raw_header page = \<lparr> h_item_count = item_count page, h_level = level page,
     h_lower = lower page, h_upper = upper page \<rparr>"

definition shape_valid :: "header \<Rightarrow> bool" where
  "shape_valid h \<longleftrightarrow>
    (let expected_lower = HEADER_SIZE + h_item_count h * 2
     in h_item_count h \<noteq> 0 \<and> expected_lower = h_lower h \<and> h_lower h \<le> h_upper h
        \<and> h_upper h < PAGE_SIZE)"

definition tree_kind_valid_at_level ::
  "bytes \<Rightarrow> 16 word \<Rightarrow> 8 word \<Rightarrow> 8 word \<Rightarrow> 32 word \<Rightarrow> bool" where
  "tree_kind_valid_at_level page lvl branch_type leaf_type aux =
    (let expected_type = (if lvl = 0 then leaf_type else branch_type)
     in kind_valid page expected_type aux)"

definition tree_kind_valid :: "bytes \<Rightarrow> 8 word \<Rightarrow> 8 word \<Rightarrow> 32 word \<Rightarrow> bool" where
  "tree_kind_valid page branch_type leaf_type aux =
    tree_kind_valid_at_level page (level page) branch_type leaf_type aux"

definition inspect_tree_header ::
  "bytes \<Rightarrow> 64 word \<Rightarrow> 8 word \<Rightarrow> 8 word \<Rightarrow> 32 word \<Rightarrow> 16 word option \<Rightarrow> header_problem + header" where
  "inspect_tree_header page selected_txn branch_type leaf_type aux expected_level =
    (let h = raw_header page in
     if \<not> common_valid page then Inl HP_Header
     else if \<not> born_valid page selected_txn then Inl HP_Born
     else if \<not> tree_kind_valid_at_level page (h_level h) branch_type leaf_type aux then Inl HP_Type
     else if h_level h > MAX_TREE_LEVEL
        \<or> (case expected_level of None \<Rightarrow> False | Some expected \<Rightarrow> expected \<noteq> h_level h)
       then Inl HP_Level
     else if \<not> shape_valid h then Inl HP_Shape
     else Inr h)"

definition validate_identity :: "bytes \<Rightarrow> 64 word \<Rightarrow> 8 word \<Rightarrow> 32 word \<Rightarrow> unit result" where
  "validate_identity page selected_txn expected_type aux =
    (if \<not> common_valid page then Inl (Corrupt ''slotted-page header is invalid'')
     else if \<not> born_valid page selected_txn then Inl (Corrupt ''slotted-page transaction is invalid'')
     else if \<not> kind_valid page expected_type aux
       then Inl (Corrupt ''slotted-page type or discriminator is invalid'')
     else Inr ())"

definition parse_shape :: "bytes \<Rightarrow> 16 word option \<Rightarrow> header result" where
  "parse_shape page expected_level =
    (let h = raw_header page in
     if h_item_count h = 0 \<or> h_level h > MAX_TREE_LEVEL
       then Inl (Corrupt ''slotted-page count or level is invalid'')
     else if (case expected_level of None \<Rightarrow> False | Some expected \<Rightarrow> expected \<noteq> h_level h)
       then Inl (Corrupt ''slotted-page child level is invalid'')
     else if \<not> shape_valid h then Inl (Corrupt ''slotted-page bounds are invalid'')
     else Inr h)"

definition parse :: "bytes \<Rightarrow> 64 word \<Rightarrow> 8 word \<Rightarrow> 32 word \<Rightarrow> 16 word option \<Rightarrow> header result" where
  "parse page selected_txn expected_type aux expected_level =
    rbind (validate_identity page selected_txn expected_type aux) (\<lambda>_.
    parse_shape page expected_level)"

primrec header_problem_error :: "header_problem \<Rightarrow> error" where
  "header_problem_error HP_Header = Corrupt ''slotted-page header is invalid''"
| "header_problem_error HP_Born = Corrupt ''slotted-page transaction is invalid''"
| "header_problem_error HP_Type = Corrupt ''slotted-page type or discriminator is invalid''"
| "header_problem_error HP_Level = Corrupt ''slotted-page child level is invalid''"
| "header_problem_error HP_Shape = Corrupt ''slotted-page bounds are invalid''"

definition parse_tree ::
  "bytes \<Rightarrow> 64 word \<Rightarrow> 8 word \<Rightarrow> 8 word \<Rightarrow> 32 word \<Rightarrow> 16 word option \<Rightarrow> header result" where
  "parse_tree page selected_txn branch_type leaf_type aux expected_level =
    map_err header_problem_error
      (inspect_tree_header page selected_txn branch_type leaf_type aux expected_level)"

section \<open>Cells\<close>

definition slot_start :: "bytes \<Rightarrow> header \<Rightarrow> nat \<Rightarrow> nat result" where
  "slot_start page h index =
    (if index \<ge> h_item_count h then Inl (Corrupt ''slotted-page slot index is invalid'')
     else let slot = HEADER_SIZE + index * 2 in
       if slot + 2 > h_lower h then Inl (Corrupt ''slotted-page slot is outside the array'')
       else rmap unat (u16_le page slot))"

definition cell :: "bytes \<Rightarrow> header \<Rightarrow> nat \<Rightarrow> nat \<Rightarrow> bytes result" where
  "cell page h index cell_len =
    rbind (slot_start page h index) (\<lambda>start.
    rbind (ok_or (Corrupt ''slotted-page cell end overflows'') (usize_checked_add start cell_len)) (\<lambda>end'.
    if start < h_upper h \<or> end' > PAGE_SIZE
    then Inl (Corrupt ''slotted-page cell is outside the record area'')
    else ok_or (Corrupt ''slotted-page cell is outside the record area'')
           (byte_range page start cell_len)))"

text \<open>A variable record carries its length in its first two bytes. The \<open>ByteRange\<close> the
  source returns is its offset with its bytes.\<close>

definition record_range :: "bytes \<Rightarrow> header \<Rightarrow> nat \<Rightarrow> nat \<Rightarrow> nat \<Rightarrow> (nat \<times> bytes) result" where
  "record_range page h index minimum_len maximum_len =
    rbind (slot_start page h index) (\<lambda>start.
    if start < h_upper h \<or> start + 2 > PAGE_SIZE
    then Inl (Corrupt ''slotted-page record is outside the record area'')
    else rbind (rmap unat (u16_le page start)) (\<lambda>record_len.
      if \<not> (minimum_len \<le> record_len \<and> record_len \<le> maximum_len)
      then Inl (Corrupt ''slotted-page record length is invalid'')
      else rbind (ok_or (Corrupt ''slotted-page record end overflows'')
                   (usize_checked_add start record_len)) (\<lambda>end'.
        if end' > PAGE_SIZE then Inl (Corrupt ''slotted-page record is outside the record area'')
        else rmap (Pair start) (ok_or (Corrupt ''slotted-page record is outside the record area'')
               (byte_range page start record_len)))))"

record fixed_search =
  fs_page :: bytes
  fs_header :: header
  fs_cell_len :: nat

definition fixed_search_new :: "bytes \<Rightarrow> header \<Rightarrow> nat \<Rightarrow> fixed_search result" where
  "fixed_search_new page h cell_len =
    (if length page \<noteq> PAGE_SIZE \<or> \<not> shape_valid h \<or> cell_len = 0 \<or> cell_len > PAGE_SIZE
     then Inl (Corrupt ''fixed slotted-page search shape is invalid'')
     else Inr \<lparr> fs_page = page, fs_header = h, fs_cell_len = cell_len \<rparr>)"

definition cell_at :: "fixed_search \<Rightarrow> nat \<Rightarrow> bytes result" where
  "cell_at s index =
    (let slot = HEADER_SIZE + index * 2; start = unat (u16_at (fs_page s) slot) in
     if start < h_upper (fs_header s) \<or> start > PAGE_SIZE - fs_cell_len s
     then Inl (Corrupt ''slotted-page cell is outside the record area'')
     else Inr (rd (fs_page s) start (fs_cell_len s)))"

section \<open>Layout inspection\<close>

type_synonym extent_bits = "64 word list"

definition end_mask :: "nat \<Rightarrow> 64 word" where
  "end_mask b = (if b = 0 then - 1 else push_bit b 1 - 1)"

definition mark_word :: "64 word \<Rightarrow> 64 word \<Rightarrow> 64 word option" where
  "mark_word w mask' = (if w AND mask' \<noteq> 0 then None else Some (w OR mask'))"

definition mark_at :: "extent_bits \<Rightarrow> nat \<Rightarrow> 64 word \<Rightarrow> extent_bits option" where
  "mark_at bits i mask' = map_option (\<lambda>w. bits[i := w]) (mark_word (bits ! i) mask')"

fun mark_all :: "extent_bits \<Rightarrow> nat list \<Rightarrow> extent_bits option" where
  "mark_all bits [] = Some bits"
| "mark_all bits (i # is) = Option.bind (mark_at bits i (- 1)) (\<lambda>bits. mark_all bits is)"

definition mark_extent :: "extent_bits \<Rightarrow> nat \<Rightarrow> nat \<Rightarrow> extent_bits option" where
  "mark_extent bits start end' =
    (if start \<ge> end' \<or> end' > PAGE_SIZE then None
     else let first = start div 64; last' = (end' - 1) div 64 in
       if first = last'
       then mark_at bits first (push_bit (start mod 64) (- 1) AND end_mask (end' mod 64))
       else Option.bind (mark_at bits first (push_bit (start mod 64) (- 1))) (\<lambda>bits.
            Option.bind (mark_all bits [first + 1..<last']) (\<lambda>bits.
            mark_at bits last' (end_mask (end' mod 64)))))"

fun fixed_extents_loop ::
  "bytes \<Rightarrow> header \<Rightarrow> nat \<Rightarrow> nat \<Rightarrow> nat list \<Rightarrow> extent_bits \<times> nat \<Rightarrow> (extent_bits \<times> nat) option" where
  "fixed_extents_loop page h len maximum_start [] acc = Some acc"
| "fixed_extents_loop page h len maximum_start (index # rest) (used, minimum) =
    (let slot = HEADER_SIZE + index * 2; start = unat (u16_at page slot) in
     if start < h_upper h \<or> start > maximum_start then None
     else case mark_extent used start (start + len) of
        None \<Rightarrow> None
      | Some used \<Rightarrow> fixed_extents_loop page h len maximum_start rest (used, min minimum start))"

definition inspect_fixed_extents ::
  "bytes \<Rightarrow> header \<Rightarrow> nat \<Rightarrow> extent_bits \<Rightarrow> (extent_bits \<times> nat) option" where
  "inspect_fixed_extents page h len used =
    (case usize_checked_sub PAGE_SIZE len of
      None \<Rightarrow> None
    | Some maximum_start \<Rightarrow>
        fixed_extents_loop page h len maximum_start [0..<h_item_count h] (used, PAGE_SIZE))"

fun variable_extents_loop ::
  "bytes \<Rightarrow> header \<Rightarrow> nat \<Rightarrow> nat \<Rightarrow> nat list \<Rightarrow> extent_bits \<times> nat \<Rightarrow> (extent_bits \<times> nat) option" where
  "variable_extents_loop page h minimum_len maximum_len [] acc = Some acc"
| "variable_extents_loop page h minimum_len maximum_len (index # rest) (used, minimum) =
    (case record_range page h index minimum_len maximum_len of
      Inl _ \<Rightarrow> None
    | Inr (start, rec) \<Rightarrow>
        (case usize_checked_add start (length rec) of
          None \<Rightarrow> None
        | Some end' \<Rightarrow>
            (case mark_extent used start end' of
              None \<Rightarrow> None
            | Some used \<Rightarrow>
                variable_extents_loop page h minimum_len maximum_len rest (used, min minimum start))))"

definition inspect_variable_extents ::
  "bytes \<Rightarrow> header \<Rightarrow> nat \<Rightarrow> nat \<Rightarrow> extent_bits \<Rightarrow> (extent_bits \<times> nat) option" where
  "inspect_variable_extents page h minimum_len maximum_len used =
    variable_extents_loop page h minimum_len maximum_len [0..<h_item_count h] (used, PAGE_SIZE)"

definition trailing_zeros :: "64 word \<Rightarrow> nat" where
  "trailing_zeros w = length (takeWhile (\<lambda>i. \<not> bit w i) [0..<64])"

definition trailing_ones :: "64 word \<Rightarrow> nat" where
  "trailing_ones w = length (takeWhile (\<lambda>i. bit w i) [0..<64])"

definition run_mask :: "nat \<Rightarrow> nat \<Rightarrow> 64 word" where
  "run_mask b len = (if len = 64 then - 1 else push_bit b (push_bit len 1 - 1))"

text \<open>The runs of unmarked bytes of one 64-byte word, lowest first, as the inner loop of
  \<open>unmarked_nonzero\<close> visits them.\<close>

lemma takeWhile_upt_all: "i < length (takeWhile P [0..<n]) \<Longrightarrow> P i"
  by (metis (no_types, lifting) add_0 diff_zero length_takeWhile_le length_upt nth_mem nth_upt
      order_less_le_trans set_takeWhileD takeWhile_nth)

lemma takeWhile_upt_stop: "length (takeWhile P [0..<n]) < n \<Longrightarrow> \<not> P (length (takeWhile P [0..<n]))"
  by (metis add_0 diff_zero length_upt nth_length_takeWhile nth_upt)

lemma trailing_zeros_bit:
  assumes "w \<noteq> 0"
  shows "trailing_zeros w < 64" "bit w (trailing_zeros w)" "i < trailing_zeros w \<Longrightarrow> \<not> bit w i"
proof -
  obtain n where n: "bit w n"
    using assms by (auto simp: bit_eq_iff)
  hence "n < 64" using bit_imp_le_length [of w n] by simp
  show less: "trailing_zeros w < 64"
  proof (rule ccontr)
    assume "\<not> trailing_zeros w < 64"
    hence "n < length (takeWhile (\<lambda>i. \<not> bit w i) [0..<64])"
      using \<open>n < 64\<close> by (simp add: trailing_zeros_def)
    from takeWhile_upt_all [OF this] n show False by simp
  qed
  show "bit w (trailing_zeros w)"
    using less takeWhile_upt_stop [of "\<lambda>i. \<not> bit w i" 64] by (simp add: trailing_zeros_def)
  show "i < trailing_zeros w \<Longrightarrow> \<not> bit w i"
    using takeWhile_upt_all [of i "\<lambda>i. \<not> bit w i" 64] by (simp add: trailing_zeros_def)
qed

lemma trailing_ones_bit: "i < trailing_ones w \<Longrightarrow> bit w i"
  using takeWhile_upt_all [of i "bit w" 64] by (simp add: trailing_ones_def)

lemma trailing_ones_le: "trailing_ones w \<le> 64"
  using length_takeWhile_le [of "bit w" "[0..<64]"] by (simp add: trailing_ones_def)

lemma trailing_ones_pos: "bit w 0 \<Longrightarrow> 0 < trailing_ones w"
  by (simp add: trailing_ones_def upt_conv_Cons)

lemma trailing_ones_stop: "trailing_ones w < 64 \<Longrightarrow> \<not> bit w (trailing_ones w)"
  using takeWhile_upt_stop [of "bit w" 64] by (simp add: trailing_ones_def)

lemma bit_run_mask: "b + len \<le> 64 \<Longrightarrow> bit (run_mask b len) i \<longleftrightarrow> b \<le> i \<and> i < b + len"
  by (auto simp: run_mask_def bit_push_bit_iff bit_mask_iff bit_minus_1_iff
      push_bit_of_1 simp flip: mask_eq_exp_minus_1)

lemma bits_psubset:
  fixes v w :: "64 word"
  assumes "\<And>i. bit v i \<Longrightarrow> bit w i" "bit w n" "\<not> bit v n"
  shows "card {i. i < 64 \<and> bit v i} < card {i. i < 64 \<and> bit w i}"
proof (rule psubset_card_mono)
  have "n < 64" using bit_imp_le_length [OF assms(2)] by simp
  thus "{i. i < 64 \<and> bit v i} \<subset> {i. i < 64 \<and> bit w i}" using assms by auto
qed simp

lemma run_within:
  assumes "w \<noteq> 0"
  shows "0 < trailing_ones (drop_bit (trailing_zeros w) w)"
    and "trailing_zeros w + trailing_ones (drop_bit (trailing_zeros w) w) \<le> 64"
proof -
  let ?b = "trailing_zeros w"
  let ?l = "trailing_ones (drop_bit ?b w)"
  show pos: "0 < ?l"
    using trailing_zeros_bit [OF assms] by (simp add: trailing_ones_pos bit_drop_bit_eq)
  have "bit w (?b + (?l - 1))"
    using pos trailing_ones_bit [of "?l - 1" "drop_bit ?b w"] by (simp add: bit_drop_bit_eq)
  from bit_imp_le_length [OF this] pos show "?b + ?l \<le> 64" by simp
qed

function unmarked_loop :: "bytes \<Rightarrow> nat \<Rightarrow> 64 word \<Rightarrow> bool" where
  "unmarked_loop page base unmarked =
    (if unmarked = 0 then False
     else let b = trailing_zeros unmarked; len = trailing_ones (drop_bit b unmarked) in
       if \<not> all_zero page (base + b) len then True
       else unmarked_loop page base (unmarked AND NOT (run_mask b len)))"
  by pat_completeness auto
termination
proof (relation "measure (\<lambda>(page, base, w). card {i. i < 64 \<and> bit w i})", goal_cases)
  case (2 page base w b len)
  have "bit (run_mask b len) b"
    using 2 run_within [of w] by (simp add: bit_run_mask)
  thus ?case
    unfolding in_measure prod.case
    using 2 trailing_zeros_bit [of w]
    by (intro bits_psubset [where n = b]) (auto simp: bit_and_iff bit_not_iff)
qed simp

declare unmarked_loop.simps [simp del]

definition unmarked_nonzero :: "bytes \<Rightarrow> extent_bits \<Rightarrow> nat \<Rightarrow> bool" where
  "unmarked_nonzero page used start =
    list_ex (\<lambda>(word_index, marked).
        let base = word_index * 64;
            in_range = (if base < start then push_bit (start - base) (- 1) else - 1)
        in unmarked_loop page base (NOT marked AND in_range))
      (drop (start div 64) (zip [0..<length used] used))"

record layout_inspection =
  reserved_nonzero :: bool
  li_page :: bytes
  li_header :: header
  li_layout :: cell_layout

definition inspect_layout :: "bytes \<Rightarrow> header \<Rightarrow> cell_layout \<Rightarrow> layout_inspection option" where
  "inspect_layout page h layout =
    (if length page \<noteq> PAGE_SIZE \<or> \<not> shape_valid h then None
     else let used = replicate (PAGE_SIZE div 64) 0 in
       case (case layout of
               Fixed len \<Rightarrow> inspect_fixed_extents page h len used
             | Variable minimum_len maximum_len \<Rightarrow>
                 inspect_variable_extents page h minimum_len maximum_len used) of
         None \<Rightarrow> None
       | Some (used, minimum) \<Rightarrow>
           if minimum \<noteq> h_upper h then None
           else let reserved = \<not> all_zero page (h_lower h) (h_upper h - h_lower h);
                    reserved = (if \<not> reserved then unmarked_nonzero page used (h_upper h) else reserved)
                in Some \<lparr> reserved_nonzero = reserved, li_page = page, li_header = h,
                          li_layout = layout \<rparr>)"

definition layout_cell :: "layout_inspection \<Rightarrow> nat \<Rightarrow> bytes" where
  "layout_cell li index =
    (let slot = HEADER_SIZE + index * 2;
         start = unat (u16_at (li_page li) slot);
         len = (case li_layout li of
                  Fixed len \<Rightarrow> len
                | Variable _ _ \<Rightarrow> unat (u16_at (li_page li) start))
     in rd (li_page li) start len)"

definition layout_cells :: "layout_inspection \<Rightarrow> bytes list" where
  "layout_cells li = map (layout_cell li) [0..<h_item_count (li_header li)]"

section \<open>Edits\<close>

definition insert_fits :: "header \<Rightarrow> nat \<Rightarrow> bool" where
  "insert_fits h cell_len \<longleftrightarrow> cell_len \<noteq> 0 \<and>
    (case usize_checked_sub (h_upper h) cell_len of
      None \<Rightarrow> False | Some new_upper \<Rightarrow> h_lower h + 2 \<le> new_upper)"

definition replace_fits :: "header \<Rightarrow> nat \<Rightarrow> nat \<Rightarrow> bool" where
  "replace_fits h old_len new_len \<longleftrightarrow>
    old_len \<noteq> 0 \<and> new_len \<noteq> 0 \<and> new_len \<le> min usize_max (old_len + (h_upper h - h_lower h))"

definition record_start :: "bytes \<Rightarrow> header \<Rightarrow> nat \<Rightarrow> nat \<Rightarrow> nat result" where
  "record_start page h index cell_len =
    rbind (slot_start page h index) (\<lambda>start.
    case usize_checked_add start cell_len of
      None \<Rightarrow> Inl (Corrupt ''slotted-page record extent is invalid'')
    | Some end' \<Rightarrow>
        if start < h_upper h \<or> end' > PAGE_SIZE
        then Inl (Corrupt ''slotted-page record extent is invalid'')
        else Inr start)"

definition adjust_slot ::
  "nat \<Rightarrow> nat \<Rightarrow> bool \<Rightarrow> nat \<Rightarrow> bytes \<Rightarrow> nat \<Rightarrow> bytes result" where
  "adjust_slot target before add amount page index =
    (if index = target then Inr page
     else let at = HEADER_SIZE + index * 2 in
       rbind (rmap unat (u16_le page at)) (\<lambda>old.
       if old \<ge> before then Inr page
       else rbind (ok_or (Corrupt ''slotted-page slot adjustment overflows'')
                    (if add then usize_checked_add old amount else usize_checked_sub old amount))
              (\<lambda>adjusted.
                if adjusted \<ge> PAGE_SIZE
                then Inl (Corrupt ''slotted-page slot adjustment is invalid'')
                else put_u16 page at (of_nat adjusted))))"

definition adjust_slots_before ::
  "bytes \<Rightarrow> header \<Rightarrow> nat \<Rightarrow> nat \<Rightarrow> bool \<Rightarrow> nat \<Rightarrow> bytes result" where
  "adjust_slots_before page h target before add amount =
    rfold (adjust_slot target before add amount) page [0..<h_item_count h]"

definition insert_slot :: "bytes \<Rightarrow> header \<Rightarrow> nat \<Rightarrow> bytes \<Rightarrow> (bytes \<times> bool) result" where
  "insert_slot page h index c =
    (if index > h_item_count h then Inl (Corrupt ''slotted-page insertion index is invalid'')
     else if c = [] then Inl (InvalidArgument ''slotted-page record is empty'')
     else if \<not> insert_fits h (length c) then Inr (page, False)
     else let new_upper = h_upper h - length c; new_lower = h_lower h + 2;
              slot = HEADER_SIZE + index * 2 in
       rbind (if slot \<noteq> h_lower h then copy_within page slot (slot + 2) (h_lower h - slot)
              else Inr page) (\<lambda>page.
       rbind (write_source page new_upper c) (\<lambda>page.
       rbind (put_u16 page slot (of_nat new_upper)) (\<lambda>page.
       rbind (put_u16 page ITEM_COUNT (of_nat (h_item_count h + 1))) (\<lambda>page.
       rbind (put_u16 page LOWER (of_nat new_lower)) (\<lambda>page.
       rbind (put_u16 page UPPER (of_nat new_upper)) (\<lambda>page.
       Inr (page, True))))))))"

definition replace_slot :: "bytes \<Rightarrow> header \<Rightarrow> nat \<Rightarrow> nat \<Rightarrow> bytes \<Rightarrow> (bytes \<times> bool) result" where
  "replace_slot page h index old_len c =
    (if index \<ge> h_item_count h \<or> old_len = 0 \<or> c = []
     then Inl (Corrupt ''slotted-page replacement is invalid'')
     else rbind (record_start page h index old_len) (\<lambda>start.
       if length c > old_len then
         let growth = length c - old_len in
         if h_lower h > h_upper h - growth then Inr (page, False)
         else
           rbind (copy_within page (h_upper h) (h_upper h - growth) (start - h_upper h)) (\<lambda>page.
           rbind (adjust_slots_before page h index start False growth) (\<lambda>page.
           let new_start = start - growth in
           rbind (write_source page new_start c) (\<lambda>page.
           rbind (put_u16 page (HEADER_SIZE + index * 2) (of_nat new_start)) (\<lambda>page.
           rbind (put_u16 page UPPER (of_nat (h_upper h - growth))) (\<lambda>page.
           Inr (page, True))))))
       else
         let shrink = old_len - length c in
         rbind (if shrink \<noteq> 0 then
             rbind (copy_within page (h_upper h) (h_upper h + shrink) (start - h_upper h)) (\<lambda>page.
             rbind (zero page (h_upper h) shrink) (\<lambda>page.
             adjust_slots_before page h index start True shrink))
           else Inr page) (\<lambda>page.
         let new_start = start + shrink in
         rbind (write_source page new_start c) (\<lambda>page.
         rbind (put_u16 page (HEADER_SIZE + index * 2) (of_nat new_start)) (\<lambda>page.
         rbind (put_u16 page UPPER (of_nat (h_upper h + shrink))) (\<lambda>page.
         Inr (page, True)))))))"

definition remove_slot :: "bytes \<Rightarrow> header \<Rightarrow> nat \<Rightarrow> nat \<Rightarrow> bytes result" where
  "remove_slot page h index old_len =
    (if index \<ge> h_item_count h \<or> h_item_count h \<le> 1 \<or> old_len = 0
     then Inl (Corrupt ''slotted-page removal is invalid'')
     else
       rbind (record_start page h index old_len) (\<lambda>start.
       rbind (copy_within page (h_upper h) (h_upper h + old_len) (start - h_upper h)) (\<lambda>page.
       rbind (zero page (h_upper h) old_len) (\<lambda>page.
       rbind (adjust_slots_before page h index start True old_len) (\<lambda>page.
       let slot = HEADER_SIZE + index * 2 in
       rbind (copy_within page (slot + 2) slot (h_lower h - slot - 2)) (\<lambda>page.
       rbind (put_u16 page (h_lower h - 2) 0) (\<lambda>page.
       rbind (put_u16 page ITEM_COUNT (of_nat (h_item_count h - 1))) (\<lambda>page.
       rbind (put_u16 page LOWER (of_nat (h_lower h - 2))) (\<lambda>page.
       put_u16 page UPPER (of_nat (h_upper h + old_len)))))))))))"

text \<open>The physical order of the records of a packed fixed-record page: entry \<open>k\<close> is the
  index of the slot whose record is the \<open>k\<close>-th of the payload.\<close>

definition fixed_position ::
  "bytes \<Rightarrow> header \<Rightarrow> nat \<Rightarrow> 16 word list \<Rightarrow> nat \<Rightarrow> 16 word list result" where
  "fixed_position page h cell_len positions logical =
    rbind (slot_start page h logical) (\<lambda>start.
    rbind (ok_or (Corrupt ''fixed slotted-page record is outside payload'')
             (usize_checked_sub start (h_upper h))) (\<lambda>offset.
    if offset mod cell_len \<noteq> 0 then Inl (Corrupt ''fixed slotted-page record is misaligned'')
    else let physical = offset div cell_len in
      if physical \<ge> length positions
      then Inl (Corrupt ''fixed slotted-page record is outside payload'')
      else if positions ! physical \<noteq> - 1
      then Inl (Corrupt ''fixed slotted-page records overlap'')
      else Inr (positions[physical := of_nat logical])))"

definition fixed_positions :: "bytes \<Rightarrow> header \<Rightarrow> nat \<Rightarrow> 16 word list result" where
  "fixed_positions page h cell_len =
    rbind (ok_or (Corrupt ''fixed slotted-page payload overflows'')
             (if h_item_count h * cell_len \<le> usize_max
              then usize_checked_add (h_upper h) (h_item_count h * cell_len) else None)) (\<lambda>payload.
    if cell_len = 0 \<or> payload \<noteq> PAGE_SIZE
    then Inl (Corrupt ''fixed slotted-page payload is not packed'')
    else if h_item_count h > MAX_SLOT_COUNT
    then Inl (Corrupt ''slotted-page slot count is invalid'')
    else
      rbind (rfold (fixed_position page h cell_len) (replicate (h_item_count h) (- 1))
               [0..<h_item_count h]) (\<lambda>positions.
      if - 1 \<in> set positions then Inl (Corrupt ''fixed slotted-page payload has a gap'')
      else Inr positions))"

definition finish_truncate :: "bytes \<Rightarrow> header \<Rightarrow> nat \<Rightarrow> nat \<Rightarrow> (bytes \<times> header) result" where
  "finish_truncate page h keep new_upper =
    (let new_lower = HEADER_SIZE + keep * 2 in
     rbind (zero page new_lower (h_lower h - new_lower)) (\<lambda>page.
     rbind (zero page (h_upper h) (new_upper - h_upper h)) (\<lambda>page.
     rbind (put_u16 page ITEM_COUNT (of_nat keep)) (\<lambda>page.
     rbind (put_u16 page LOWER (of_nat new_lower)) (\<lambda>page.
     rbind (put_u16 page UPPER (of_nat new_upper)) (\<lambda>page.
     Inr (page, \<lparr> h_item_count = keep, h_level = h_level h, h_lower = new_lower,
                   h_upper = new_upper \<rparr>)))))))"

text \<open>One step of the compaction loops of \<open>remove_fixed_range\<close> and \<open>truncate_fixed\<close>: the
  record at a physical position moves to the end of the compacted payload when its slot
  is kept, and its slot, renumbered by \<open>output\<close>, follows it.\<close>

definition remove_fixed_step ::
  "header \<Rightarrow> nat \<Rightarrow> nat \<Rightarrow> nat \<Rightarrow> nat \<Rightarrow> 16 word list \<Rightarrow> bytes \<times> nat \<Rightarrow> nat \<Rightarrow> (bytes \<times> nat) result" where
  "remove_fixed_step h start end' count cell_len positions = (\<lambda>(page, destination) physical.
    let logical = unat (positions ! physical) in
    if logical < start \<or> logical \<ge> end' then
      let output = (if logical < start then logical else logical - count);
          source = h_upper h + physical * cell_len;
          destination = destination - cell_len in
      rbind (copy_within page source destination cell_len) (\<lambda>page.
      rbind (put_u16 page (HEADER_SIZE + output * 2) (of_nat destination)) (\<lambda>page.
      Inr (page, destination)))
    else Inr (page, destination))"

definition remove_fixed_range ::
  "bytes \<Rightarrow> header \<Rightarrow> nat \<Rightarrow> nat \<Rightarrow> nat \<Rightarrow> (bytes \<times> header) result" where
  "remove_fixed_range page h start count cell_len =
    rbind (ok_or (Corrupt ''slotted-page removal range overflows'')
             (usize_checked_add start count)) (\<lambda>end'.
    if count = 0 \<or> end' > h_item_count h \<or> count \<ge> h_item_count h \<or> cell_len = 0
    then Inl (Corrupt ''slotted-page removal range is invalid'')
    else
      rbind (fixed_positions page h cell_len) (\<lambda>positions.
      let remaining = h_item_count h - count in
      rbind (rfold (remove_fixed_step h start end' count cell_len positions) (page, PAGE_SIZE)
               (rev [0..<length positions])) (\<lambda>(page, destination).
      let new_lower = HEADER_SIZE + remaining * 2 in
      rbind (zero page new_lower (h_lower h - new_lower)) (\<lambda>page.
      rbind (zero page (h_upper h) (destination - h_upper h)) (\<lambda>page.
      rbind (put_u16 page ITEM_COUNT (of_nat remaining)) (\<lambda>page.
      rbind (put_u16 page LOWER (of_nat new_lower)) (\<lambda>page.
      rbind (put_u16 page UPPER (of_nat destination)) (\<lambda>page.
      Inr (page, \<lparr> h_item_count = remaining, h_level = h_level h, h_lower = new_lower,
                    h_upper = destination \<rparr>)))))))))"

definition truncate_fixed_step ::
  "header \<Rightarrow> nat \<Rightarrow> nat \<Rightarrow> 16 word list \<Rightarrow> bytes \<times> nat \<Rightarrow> nat \<Rightarrow> (bytes \<times> nat) result" where
  "truncate_fixed_step h keep cell_len positions = (\<lambda>(page, destination) physical.
    let logical = unat (positions ! physical) in
    if logical < keep then
      let start = h_upper h + physical * cell_len; destination = destination - cell_len in
      rbind (copy_within page start destination cell_len) (\<lambda>page.
      rbind (put_u16 page (HEADER_SIZE + logical * 2) (of_nat destination)) (\<lambda>page.
      Inr (page, destination)))
    else Inr (page, destination))"

definition truncate_fixed :: "bytes \<Rightarrow> header \<Rightarrow> nat \<Rightarrow> nat \<Rightarrow> (bytes \<times> header) result" where
  "truncate_fixed page h keep cell_len =
    (if keep = 0 \<or> keep > h_item_count h \<or> cell_len = 0
     then Inl (Corrupt ''fixed slotted-page truncation is invalid'')
     else if keep = h_item_count h then Inr (page, h)
     else
       rbind (fixed_positions page h cell_len) (\<lambda>positions.
       rbind (rfold (truncate_fixed_step h keep cell_len positions) (page, PAGE_SIZE)
                (rev [0..<length positions])) (\<lambda>(page, destination).
       finish_truncate page h keep destination)))"

text \<open>A physical record of \<open>truncate\<close> is the start of its bytes with the index of its slot.\<close>

definition physical_record :: "bytes \<Rightarrow> header \<Rightarrow> nat \<Rightarrow> (nat \<times> nat) result" where
  "physical_record page h index =
    rbind (slot_start page h index) (\<lambda>start.
    if start < h_upper h \<or> start \<ge> PAGE_SIZE
    then Inl (Corrupt ''slotted-page record offset is invalid'')
    else Inr (start, index))"

definition physical_records :: "bytes \<Rightarrow> header \<Rightarrow> (nat \<times> nat) list result" where
  "physical_records page h =
    rfold (\<lambda>records index. rmap (\<lambda>r. records @ [r]) (physical_record page h index)) []
      [0..<h_item_count h]"

definition truncate_step ::
  "nat \<Rightarrow> (nat \<times> nat) list \<Rightarrow> bytes \<times> nat \<Rightarrow> nat \<Rightarrow> (bytes \<times> nat) result" where
  "truncate_step keep records = (\<lambda>(page, destination) physical.
    let (start, index) = records ! physical;
        end' = (if physical + 1 < length records then fst (records ! (physical + 1)) else PAGE_SIZE)
    in if index < keep then
      let len = end' - start; new_start = destination - len in
      rbind (copy_within page start new_start len) (\<lambda>page.
      rbind (put_u16 page (HEADER_SIZE + index * 2) (of_nat new_start)) (\<lambda>page.
      Inr (page, new_start)))
    else Inr (page, destination))"

definition truncate_slots :: "bytes \<Rightarrow> header \<Rightarrow> nat \<Rightarrow> (bytes \<times> header) result" where
  "truncate_slots page h keep =
    (if keep = 0 \<or> keep > h_item_count h then Inl (Corrupt ''slotted-page truncation is invalid'')
     else if keep = h_item_count h then Inr (page, h)
     else if h_item_count h > MAX_SLOT_COUNT then Inl (Corrupt ''slotted-page slot count is invalid'')
     else
       rbind (physical_records page h) (\<lambda>records.
       let records = sort_key fst records in
       if fst (records ! 0) \<noteq> h_upper h
          \<or> list_ex (\<lambda>i. fst (records ! i) = fst (records ! (i + 1))) [0..<length records - 1]
       then Inl (Corrupt ''slotted-page record offsets are invalid'')
       else
         rbind (rfold (truncate_step keep records) (page, PAGE_SIZE) (rev [0..<length records]))
           (\<lambda>(page, destination). finish_truncate page h keep destination)))"

section \<open>Appending\<close>

record appender =
  ap_item_count :: nat
  ap_upper :: nat

definition appender_new ::
  "8 word \<Rightarrow> 64 word \<Rightarrow> 16 word \<Rightarrow> 32 word \<Rightarrow> (bytes \<times> appender) result" where
  "appender_new ptype born lvl aux =
    (case initialize \<lparr> f_page_type = ptype, f_born_txn = born, f_item_count = 0, f_level = lvl,
            f_lower = of_nat HEADER_SIZE, f_upper = of_nat PAGE_SIZE, f_aux = aux \<rparr> of
      Inl _ \<Rightarrow> Inl (Panicked ''fixed mapped header fits'')
    | Inr page \<Rightarrow> Inr (page, \<lparr> ap_item_count = 0, ap_upper = PAGE_SIZE \<rparr>))"

definition try_push :: "appender \<Rightarrow> bytes \<Rightarrow> bytes \<Rightarrow> (bytes \<times> appender \<times> bool) result" where
  "try_push self page c =
    (if c = [] then Inl (InvalidArgument ''slotted-page record is empty'')
     else
       rbind (ok_or (Corrupt ''slotted-page slot array overflows'')
                (usize_checked_add HEADER_SIZE ((ap_item_count self + 1) * 2))) (\<lambda>new_lower.
       rbind (ok_or (Corrupt ''slotted-page record area overflows'')
                (usize_checked_sub (ap_upper self) (length c))) (\<lambda>new_upper.
       if new_lower > new_upper then Inr (page, self, False)
       else
         rbind (write_source page new_upper c) (\<lambda>page.
         rbind (put_u16 page (HEADER_SIZE + ap_item_count self * 2) (of_nat new_upper)) (\<lambda>page.
         Inr (page, \<lparr> ap_item_count = ap_item_count self + 1, ap_upper = new_upper \<rparr>, True))))))"

definition appender_finish :: "appender \<Rightarrow> bytes \<Rightarrow> bytes result" where
  "appender_finish self page =
    (if ap_item_count self = 0
     then Inl (InvalidArgument ''reachable slotted page cannot be empty'')
     else
       rbind (put_u16 page ITEM_COUNT (of_nat (ap_item_count self))) (\<lambda>page.
       rbind (put_u16 page LOWER (of_nat (HEADER_SIZE + ap_item_count self * 2))) (\<lambda>page.
       put_u16 page UPPER (of_nat (ap_upper self)))))"

type_synonym builder = "bytes \<times> appender"

definition builder_push :: "builder \<Rightarrow> bytes \<Rightarrow> builder result" where
  "builder_push b c =
    rbind (try_push (snd b) (fst b) c) (\<lambda>(page, self, pushed).
    if pushed then Inr (page, self) else Inl (InvalidArgument ''slotted page is full''))"

definition builder_finish :: "builder \<Rightarrow> bytes result" where
  "builder_finish b = appender_finish (snd b) (fst b)"

end
