(* ===== verification/SlottedLayout.thy ===== *)
theory SlottedLayout
  imports SlottedPage
begin

text \<open>
  What the bytes of a slotted page mean. \<open>laid p up cs\<close> says that the slot array of \<open>p\<close>
  lists the records \<open>cs\<close> in order, that their extents are disjoint and exactly fill the
  page from \<open>up\<close> on, and that the free gap between them and the slots is zero;
  \<open>slotted\<close> adds that the header fields agree. Each edit of \<open>SlottedPage\<close> is shown to be a
  list operation on \<open>cs\<close>.
\<close>

named_theorems slotted_simps \<open>values read from a slotted page\<close>

definition slot_of :: "bytes \<Rightarrow> nat \<Rightarrow> nat" where
  "slot_of p i = unat (u16_at p (HEADER_SIZE + i * 2))"

definition slots :: "bytes \<Rightarrow> nat \<Rightarrow> nat list" where
  "slots p n = map (slot_of p) [0..<n]"

text \<open>A placed record is its offset with its bytes.\<close>

fun apart :: "nat \<times> bytes \<Rightarrow> nat \<times> bytes \<Rightarrow> bool" where
  "apart (s, c) (t, d) \<longleftrightarrow> s + length c \<le> t \<or> t + length d \<le> s"

fun placed :: "bytes \<Rightarrow> nat \<Rightarrow> nat \<times> bytes \<Rightarrow> bool" where
  "placed p up (s, c) \<longleftrightarrow>
    c \<noteq> [] \<and> up \<le> s \<and> s + length c \<le> PAGE_SIZE \<and> rd p s (length c) = c"

definition records :: "bytes \<Rightarrow> bytes list \<Rightarrow> (nat \<times> bytes) list" where
  "records p cs = zip (slots p (length cs)) cs"

definition laid :: "bytes \<Rightarrow> nat \<Rightarrow> bytes list \<Rightarrow> bool" where
  "laid p up cs \<longleftrightarrow>
    length p = PAGE_SIZE \<and> up + sum_list (map length cs) = PAGE_SIZE
    \<and> HEADER_SIZE + 2 * length cs \<le> up
    \<and> list_all (placed p up) (records p cs) \<and> sorted_wrt apart (records p cs)
    \<and> (\<forall>k. HEADER_SIZE + 2 * length cs \<le> k \<and> k < up \<longrightarrow> p ! k = 0)"

definition slotted :: "bytes \<Rightarrow> bytes list \<Rightarrow> bool" where
  "slotted p cs \<longleftrightarrow> laid p (upper p) cs \<and> item_count p = length cs
    \<and> lower p = HEADER_SIZE + 2 * length cs"

definition insert_at :: "nat \<Rightarrow> 'a \<Rightarrow> 'a list \<Rightarrow> 'a list" where
  "insert_at i x xs = take i xs @ x # drop i xs"

definition remove_at :: "nat \<Rightarrow> 'a list \<Rightarrow> 'a list" where
  "remove_at i xs = take i xs @ drop (Suc i) xs"

definition remove_range :: "nat \<Rightarrow> nat \<Rightarrow> 'a list \<Rightarrow> 'a list" where
  "remove_range i n xs = take i xs @ drop (i + n) xs"

section \<open>List operations\<close>

lemma length_insert_at [simp]: "i \<le> length xs \<Longrightarrow> length (insert_at i x xs) = Suc (length xs)"
  by (simp add: insert_at_def)

lemma nth_insert_at:
  "i \<le> length xs \<Longrightarrow> j \<le> length xs \<Longrightarrow>
   insert_at i x xs ! j = (if j < i then xs ! j else if j = i then x else xs ! (j - 1))"
  by (auto simp: insert_at_def nth_append nth_Cons' min_def)

lemma sum_insert_at: "i \<le> length xs \<Longrightarrow> sum_list (map f (insert_at i x xs)) = (f x :: nat) + sum_list (map f xs)"
  by (simp add: insert_at_def) (metis add.left_commute append_take_drop_id map_append sum_list_append)

lemma set_insert_at: "set (insert_at i x xs) = {x} \<union> set xs"
  by (simp add: insert_at_def) (metis Un_insert_right append_take_drop_id set_append)

lemma length_remove_at [simp]: "i < length xs \<Longrightarrow> length (remove_at i xs) = length xs - 1"
  by (simp add: remove_at_def)

lemma nth_remove_at:
  "i < length xs \<Longrightarrow> j < length xs - 1 \<Longrightarrow> remove_at i xs ! j = (if j < i then xs ! j else xs ! Suc j)"
  by (auto simp: remove_at_def nth_append min_def)

lemma map_insert_at: "map f (insert_at i x xs) = insert_at i (f x) (map f xs)"
  by (simp add: insert_at_def take_map drop_map)

lemma list_all_insert_at: "list_all P (insert_at i x xs) \<longleftrightarrow> P x \<and> list_all P xs"
  by (simp add: list_all_iff set_insert_at)

lemma sorted_wrt_insert_at:
  assumes "\<And>a b. R a b \<Longrightarrow> R b a"
  shows "sorted_wrt R (insert_at i x xs) \<longleftrightarrow> (\<forall>y\<in>set xs. R x y) \<and> sorted_wrt R xs"
proof -
  obtain ys zs where "xs = ys @ zs" "insert_at i x xs = ys @ x # zs"
    by (metis append_take_drop_id insert_at_def)
  thus ?thesis using assms by (auto simp: sorted_wrt_append)
qed

lemma map_remove_at: "map f (remove_at i xs) = remove_at i (map f xs)"
  by (simp add: remove_at_def take_map drop_map)

lemma set_remove_at_subset: "set (remove_at i xs) \<subseteq> set xs"
  by (auto simp: remove_at_def dest: in_set_takeD in_set_dropD)

lemma sorted_wrt_remove_at:
  assumes "sorted_wrt R xs"
  shows "sorted_wrt R (remove_at i xs)"
proof -
  have "sorted_wrt R (take i xs @ drop i xs)" using assms by simp
  hence "\<forall>x\<in>set (take i xs). \<forall>y\<in>set (drop i xs). R x y"
    unfolding sorted_wrt_append by blast
  moreover have "set (drop (Suc i) xs) \<subseteq> set (drop i xs)" by (simp add: set_drop_subset_set_drop)
  ultimately show ?thesis
    using assms by (auto simp: remove_at_def sorted_wrt_append sorted_wrt_drop sorted_wrt_take)
qed

lemma sum_remove_at: "i < length xs \<Longrightarrow> sum_list (map f (remove_at i xs)) + (f (xs ! i) :: nat) = sum_list (map f xs)"
  by (subst (3) id_take_nth_drop [of i xs]) (auto simp: remove_at_def)

lemma sum_list_update_nat:
  "i < length xs \<Longrightarrow> sum_list (map f (xs[i := y])) + (f (xs ! i) :: nat) = sum_list (map f xs) + f y"
  by (induction xs arbitrary: i) (auto split: nat.splits)

lemma sum_list_take_le: "sum_list (take n xs) \<le> (sum_list xs :: nat)"
  by (metis append_take_drop_id le_add1 sum_list_append)

section \<open>Reading a laid page\<close>

lemmas layout_consts = HEADER_SIZE_def header_offsets PAGE_SIZE_def

lemma slots_simps [simp]: "length (slots p n) = n" "i < n \<Longrightarrow> slots p n ! i = slot_of p i"
  by (simp_all add: slots_def)

lemma length_records [simp]: "length (records p cs) = length cs"
  by (simp add: records_def)

lemma nth_records [simp]: "i < length cs \<Longrightarrow> records p cs ! i = (slot_of p i, cs ! i)"
  by (simp add: records_def)

lemma map_records [simp]: "map fst (records p cs) = slots p (length cs)" "map snd (records p cs) = cs"
  by (simp_all add: records_def)

lemma sum_records [simp]: "sum_list (map (length \<circ> snd) (records p cs)) = sum_list (map length cs)"
  by (simp only: map_records flip: map_map)

lemma apart_sym: "apart x y \<Longrightarrow> apart y x"
  by (cases x; cases y) auto

lemma laidD:
  assumes "laid p up cs"
  shows "length p = PAGE_SIZE" "up + sum_list (map length cs) = PAGE_SIZE" "up \<le> PAGE_SIZE"
    "HEADER_SIZE + 2 * length cs \<le> up" "length cs \<le> MAX_SLOT_COUNT"
    "list_all (placed p up) (records p cs)" "sorted_wrt apart (records p cs)"
  using assms by (auto simp: laid_def MAX_SLOT_COUNT_def)

lemma laidI:
  assumes "length p = PAGE_SIZE" "slots p (length rs) = map fst rs"
    "up + sum_list (map (length \<circ> snd) rs) = PAGE_SIZE" "HEADER_SIZE + 2 * length rs \<le> up"
    "list_all (placed p up) rs" "sorted_wrt apart rs"
    "\<And>k. HEADER_SIZE + 2 * length rs \<le> k \<Longrightarrow> k < up \<Longrightarrow> p ! k = 0"
  shows "laid p up (map snd rs)"
proof -
  have "records p (map snd rs) = rs"
    using assms(2) by (simp add: records_def zip_map_fst_snd)
  thus ?thesis using assms by (simp add: laid_def)
qed

lemma laid_cellD:
  assumes "laid p up cs" "i < length cs"
  shows "cs ! i \<noteq> []" "up \<le> slot_of p i" "slot_of p i + length (cs ! i) \<le> PAGE_SIZE"
    "rd p (slot_of p i) (length (cs ! i)) = cs ! i"
  using assms laidD(6) [OF assms(1)] by (auto simp: list_all_length)

lemma laid_disjointD:
  assumes "laid p up cs" "i < length cs" "j < length cs" "i \<noteq> j"
  shows "slot_of p i + length (cs ! i) \<le> slot_of p j \<or> slot_of p j + length (cs ! j) \<le> slot_of p i"
  using assms sorted_wrt_nth_less [OF laidD(7) [OF assms(1)], of i j]
    sorted_wrt_nth_less [OF laidD(7) [OF assms(1)], of j i]
  by (cases "i < j") auto

lemma laid_zeroD: "laid p up cs \<Longrightarrow> HEADER_SIZE + 2 * length cs \<le> k \<Longrightarrow> k < up \<Longrightarrow> p ! k = 0"
  by (auto simp: laid_def)

lemma laid_empty_slots:
  assumes "laid p up cs" "i < length cs"
  shows "up < PAGE_SIZE"
  using laid_cellD [OF assms] by (cases "cs ! i") auto

lemma slot_of_wr:
  assumes "length p = PAGE_SIZE" "at + length bs \<le> PAGE_SIZE"
    "HEADER_SIZE + 2 * i + 2 \<le> PAGE_SIZE"
    "HEADER_SIZE + 2 * i + 2 \<le> at \<or> at + length bs \<le> HEADER_SIZE + 2 * i"
  shows "slot_of (wr p at bs) i = slot_of p i"
  using assms by (simp add: slot_of_def u16_at_wr_disjoint mult.commute)

lemma slot_of_put:
  assumes "length p = PAGE_SIZE" "HEADER_SIZE + 2 * i + 2 \<le> PAGE_SIZE" "v \<le> PAGE_SIZE"
  shows "slot_of (wr p (HEADER_SIZE + i * 2) (to_le_bytes (of_nat v :: 16 word))) i = v"
  using assms
  by (simp add: slot_of_def byte_simps mult.commute unat_of_nat take_bit_eq_mod PAGE_SIZE_def)

lemma laid_frame:
  assumes l: "laid p up cs" and q: "length q = PAGE_SIZE"
    "\<And>i. HEADER_SIZE \<le> i \<Longrightarrow> i < PAGE_SIZE \<Longrightarrow> q ! i = p ! i"
  shows "laid q up cs"
proof -
  note d = laidD [OF l]
  have rds: "rd q a n = rd p a n" if "HEADER_SIZE \<le> a" "a + n \<le> PAGE_SIZE" for a n
    using that d q by (intro nth_equalityI) (auto simp: nth_rd)
  have sl: "slots q (length cs) = slots p (length cs)"
    using d by (intro nth_equalityI) (auto simp: slot_of_def u16_at_def rds)
  have "placed q up r" if "placed p up r" for r
    using that d(4) by (cases r) (auto simp: rds)
  thus ?thesis
    using l q sl by (auto simp: laid_def records_def list_all_iff)
qed

lemma laid_wr_header:
  assumes l: "laid p up cs" and at: "at + length bs \<le> HEADER_SIZE"
  shows "laid (wr p at bs) up cs"
proof (rule laid_frame [OF l])
  have "HEADER_SIZE \<le> length p" using laidD [OF l] by simp
  thus "length (wr p at bs) = PAGE_SIZE" "\<And>i. HEADER_SIZE \<le> i \<Longrightarrow> i < PAGE_SIZE \<Longrightarrow> wr p at bs ! i = p ! i"
    using at laidD(1) [OF l] by (auto simp: nth_wr)
qed

lemma u16_nat [simp]: "n \<le> PAGE_SIZE \<Longrightarrow> unat (of_nat n :: 16 word) = n"
  by (simp add: unat_of_nat take_bit_eq_mod PAGE_SIZE_def)

lemma slot_start_laid:
  assumes "laid p up cs" "i < length cs" "h_item_count h = length cs"
    "h_lower h = HEADER_SIZE + 2 * length cs"
  shows "slot_start p h i = Inr (slot_of p i)"
proof -
  have "HEADER_SIZE + i * 2 + 2 \<le> length p"
    using laidD [OF assms(1)] assms(2) by simp
  thus ?thesis
    using laidD [OF assms(1)] assms
    by (simp add: slot_start_def slot_of_def u16_le_in)
qed

lemma raw_header_slotted:
  "slotted p cs \<Longrightarrow> h_item_count (raw_header p) = length cs
    \<and> h_lower (raw_header p) = HEADER_SIZE + 2 * length cs \<and> h_upper (raw_header p) = upper p
    \<and> h_level (raw_header p) = level p"
  by (simp add: slotted_def raw_header_def)

lemma shape_valid_slotted: "slotted p cs \<Longrightarrow> cs \<noteq> [] \<Longrightarrow> shape_valid (raw_header p)"
  using laid_empty_slots [of p "upper p" cs 0] laidD [of p "upper p" cs]
  by (auto simp: shape_valid_def raw_header_slotted slotted_def raw_header_def)

lemma cell_slotted:
  assumes "slotted p cs" "i < length cs" "n = length (cs ! i)"
  shows "cell p (raw_header p) i n = Inr (cs ! i)"
proof -
  have l: "laid p (upper p) cs" using assms by (simp add: slotted_def)
  note c = laid_cellD [OF l assms(2)] and d = laidD [OF l]
  have "slot_of p i + n \<le> usize_max"
    using c assms by (simp add: PAGE_SIZE_def usize_max_def)
  moreover have "slot_of p i < 2 ^ 32" "n < 2 ^ 32"
    using c assms by (auto simp: PAGE_SIZE_def)
  ultimately show ?thesis
    using c d assms raw_header_slotted [OF assms(1)]
    by (simp add: cell_def slot_start_laid [OF l] usize_checked_add_def byte_range_def)
qed

lemma cell_at_slotted:
  assumes "slotted p cs" "i < length cs" "n = length (cs ! i)"
  shows "cell_at \<lparr> fs_page = p, fs_header = raw_header p, fs_cell_len = n \<rparr> i = Inr (cs ! i)"
proof -
  have l: "laid p (upper p) cs" using assms by (simp add: slotted_def)
  note c = laid_cellD [OF l assms(2)]
  show ?thesis
    using c assms raw_header_slotted [OF assms(1)]
    by (simp add: cell_at_def Let_def flip: slot_of_def)
qed

section \<open>Insertion\<close>

lemma sum_lengths_pos: "i < length cs \<Longrightarrow> length (cs ! i) \<le> sum_list (map length cs)"
  by (metis elem_le_sum_list length_map nth_map)

lemma laid_insert:
  assumes l: "laid p up cs" and i: "index \<le> length cs" and c: "c \<noteq> []"
    and fits: "HEADER_SIZE + 2 * length cs + 2 + length c \<le> up"
  defines "slot \<equiv> HEADER_SIZE + index * 2"
  defines "low \<equiv> HEADER_SIZE + 2 * length cs"
  defines "p1 \<equiv> wr p (slot + 2) (rd p slot (low - slot))"
  defines "p2 \<equiv> wr p1 (up - length c) c"
  defines "p3 \<equiv> wr p2 slot (to_le_bytes (of_nat (up - length c) :: 16 word))"
  shows "laid p3 (up - length c) (insert_at index c cs)"
proof -
  note d = laidD [OF l]
  let ?rs = "insert_at index (up - length c, c) (records p cs)"
  have bnds: "slot \<le> low" "low + 2 + length c \<le> up" "up \<le> PAGE_SIZE" "length p = PAGE_SIZE"
    using i d fits by (auto simp: slot_def low_def)
  have len: "length p1 = PAGE_SIZE" "length p2 = PAGE_SIZE" "length p3 = PAGE_SIZE"
    using bnds by (auto simp: p1_def p2_def p3_def)
  have low_nth: "p3 ! k = (if slot + 2 \<le> k \<and> k < low + 2 then p ! (k - 2) else p ! k)"
    if "k < slot \<or> slot + 2 \<le> k" "k < up - length c" for k
    using that bnds by (auto simp: p3_def p2_def p1_def nth_wr nth_rd)
  have high: "rd p3 a n = rd p a n" if "up \<le> a" "a + n \<le> PAGE_SIZE" for a n
    using that bnds by (simp add: p3_def p2_def p1_def rd_wr_disjoint)
  have new: "rd p3 (up - length c) (length c) = c"
    using bnds by (simp add: p3_def p2_def p1_def rd_wr_disjoint rd_wr_same)
  have slot_lt: "slot_of p3 j = slot_of p j" if "j < index" for j
  proof -
    have "HEADER_SIZE + 2 * j + 2 \<le> slot" using that by (simp add: slot_def)
    thus ?thesis using bnds by (simp add: p3_def p2_def p1_def slot_of_wr)
  qed
  have slot_eq: "slot_of p3 index = up - length c"
    using bnds len unfolding p3_def slot_def by (intro slot_of_put) (auto simp: slot_def)
  have slot_gt: "slot_of p3 (Suc j) = slot_of p j" if "index \<le> j" "j < length cs" for j
  proof -
    have "slot \<le> HEADER_SIZE + j * 2" "HEADER_SIZE + j * 2 + 2 \<le> low"
      using that by (auto simp: slot_def low_def)
    hence "rd p3 (HEADER_SIZE + j * 2 + 2) 2 = rd p (HEADER_SIZE + j * 2) 2"
      using bnds by (intro nth_equalityI) (auto simp: nth_rd low_nth len)
    thus ?thesis by (simp add: slot_of_def u16_at_def)
  qed
  have sl: "slots p3 (Suc (length cs)) = insert_at index (up - length c) (slots p (length cs))"
  proof (rule nth_equalityI)
    fix j assume "j < length (slots p3 (Suc (length cs)))"
    thus "slots p3 (Suc (length cs)) ! j = insert_at index (up - length c) (slots p (length cs)) ! j"
      using i slot_lt slot_eq slot_gt less_le_trans [of j index "length cs"]
      by (cases j) (auto simp: nth_insert_at slots_def simp del: upt_Suc length_greater_0_conv)
  qed (use i in simp)
  have pl: "placed p3 (up - length c) r" and ap: "apart (up - length c, c) r" if "placed p up r" for r
    using that bnds high by (cases r, auto)+
  have "laid p3 (up - length c) (map snd ?rs)"
  proof (rule laidI)
    show "up - length c + sum_list (map (length \<circ> snd) ?rs) = PAGE_SIZE"
      using d(2) bnds i by (simp add: sum_insert_at sum_records)
    show "list_all (placed p3 (up - length c)) ?rs"
      using d(6) new c bnds pl
      by (auto simp: list_all_insert_at elim!: list.pred_mono_strong)
    show "sorted_wrt apart ?rs"
      using d(6,7) ap by (subst sorted_wrt_insert_at) (auto simp: list_all_iff intro: apart_sym)
    show "p3 ! k = 0" if "HEADER_SIZE + 2 * length ?rs \<le> k" "k < up - length c" for k
      using that i bnds low_nth [of k] laid_zeroD [OF l, of k] by (simp add: low_def)
    show "slots p3 (length ?rs) = map fst ?rs"
      using i by (simp add: map_insert_at sl)
    show "HEADER_SIZE + 2 * length ?rs \<le> up - length c"
      using i bnds by (simp add: low_def)
  qed (rule len)
  thus ?thesis by (simp add: map_insert_at)
qed

section \<open>Updating the header of a laid page\<close>

text \<open>\<open>tag_of\<close> is what no edit changes: magic, type, flags, birth transaction, discriminator
  and level.\<close>

definition tag_of :: "bytes \<Rightarrow> (32 word \<times> byte option \<times> byte option \<times> 16 word \<times> 64 word \<times> 32 word) \<times> 16 word" where
  "tag_of p = (ident_of p, level p)"

definition with_counts :: "bytes \<Rightarrow> nat \<Rightarrow> nat \<Rightarrow> nat \<Rightarrow> bytes" where
  "with_counts p n low up =
    wr (wr (wr p ITEM_COUNT (to_le_bytes (of_nat n :: 16 word)))
      LOWER (to_le_bytes (of_nat low :: 16 word))) UPPER (to_le_bytes (of_nat up :: 16 word))"

lemma tag_of_wr:
  assumes "length p = PAGE_SIZE" "at + length bs \<le> PAGE_SIZE" "HEADER_SIZE \<le> at"
  shows "tag_of (wr p at bs) = tag_of p"
  using assms ident_of_wr [of p at bs]
  by (simp add: tag_of_def level_def u16_at_wr_disjoint layout_consts)

lemma put_counts:
  "rbind (put_u16 p ITEM_COUNT (of_nat n)) (\<lambda>p. rbind (put_u16 p LOWER (of_nat low)) (\<lambda>p.
     rbind (put_u16 p UPPER (of_nat up)) f)) = f (with_counts p n low up)"
  "rbind (put_u16 p ITEM_COUNT (of_nat n)) (\<lambda>p. rbind (put_u16 p LOWER (of_nat low)) (\<lambda>p.
     put_u16 p UPPER (of_nat up))) = Inr (with_counts p n low up)"
  by (simp_all add: with_counts_def page_simps layout_consts)

lemma slotted_with_counts:
  assumes l: "laid p up cs" and n: "n = length cs" "low = HEADER_SIZE + 2 * length cs"
  shows "slotted (with_counts p n low up) cs" "tag_of (with_counts p n low up) = tag_of p"
    "upper (with_counts p n low up) = up"
proof -
  note d = laidD [OF l]
  have b: "n \<le> PAGE_SIZE" "low \<le> PAGE_SIZE" "up \<le> PAGE_SIZE"
    using d n by auto
  have len: "length p = 4096" using d by (simp add: PAGE_SIZE_def)
  have laid': "laid (with_counts p n low up) up cs"
    unfolding with_counts_def by (intro laid_wr_header l) (simp_all add: layout_consts)
  show up: "upper (with_counts p n low up) = up"
    using b len by (simp add: upper_def with_counts_def byte_simps layout_consts)
  have "lower (with_counts p n low up) = low"
    using b len by (simp add: lower_def with_counts_def byte_simps layout_consts)
  moreover have "item_count (with_counts p n low up) = n"
    using b len by (simp add: item_count_def with_counts_def byte_simps layout_consts)
  ultimately show "slotted (with_counts p n low up) cs"
    using laid' up n by (simp add: slotted_def)
  show "tag_of (with_counts p n low up) = tag_of p"
    using len by (simp add: tag_of_def level_def ident_of_def born_txn_def with_counts_def byte_simps layout_consts)
qed

lemma insert_fits_slotted:
  "slotted p cs \<Longrightarrow> insert_fits (raw_header p) n \<longleftrightarrow> n \<noteq> 0 \<and> HEADER_SIZE + 2 * length cs + 2 + n \<le> upper p"
  using raw_header_slotted [of p cs]
  by (auto simp: insert_fits_def usize_checked_sub_def)

theorem insert_slot_slotted:
  assumes s: "slotted p cs" and i: "index \<le> length cs" and c: "c \<noteq> []"
    and fits: "insert_fits (raw_header p) (length c)"
  obtains p' where "insert_slot p (raw_header p) index c = Inr (p', True)"
    "slotted p' (insert_at index c cs)" "tag_of p' = tag_of p" "upper p' = upper p - length c"
proof -
  have l: "laid p (upper p) cs" using s by (simp add: slotted_def)
  note d = laidD [OF l] and h = raw_header_slotted [OF s]
  let ?slot = "HEADER_SIZE + index * 2" and ?low = "HEADER_SIZE + 2 * length cs"
  let ?up = "upper p - length c"
  let ?p1 = "wr p (?slot + 2) (rd p ?slot (?low - ?slot))"
  let ?p3 = "wr (wr ?p1 ?up c) ?slot (to_le_bytes (of_nat ?up :: 16 word))"
  have fit: "?low + 2 + length c \<le> upper p"
    using fits insert_fits_slotted [OF s] by simp
  have b: "?slot + 2 \<le> PAGE_SIZE" "?low + 2 \<le> PAGE_SIZE" "?slot + (?low - ?slot) \<le> PAGE_SIZE"
    "?slot + 2 + (?low - ?slot) \<le> PAGE_SIZE" "?up + length c \<le> PAGE_SIZE" "?slot \<le> ?low" "HEADER_SIZE \<le> ?up"
    using fit d i by auto
  have len: "length ?p1 = PAGE_SIZE" "length (wr ?p1 ?up c) = PAGE_SIZE"
    using b d by auto
  have "laid ?p3 ?up (insert_at index c cs)"
    by (rule laid_insert [OF l i c fit])
  from slotted_with_counts [OF this refl refl] i
  have r: "slotted (with_counts ?p3 (length cs + 1) (?low + 2) ?up) (insert_at index c cs)"
    "tag_of (with_counts ?p3 (length cs + 1) (?low + 2) ?up) = tag_of ?p3"
    "upper (with_counts ?p3 (length cs + 1) (?low + 2) ?up) = ?up"
    by (simp_all add: algebra_simps)
  have tag: "tag_of ?p3 = tag_of p"
    using b d len by (simp add: tag_of_wr)
  have eq: "insert_slot p (raw_header p) index c
      = Inr (with_counts ?p3 (length cs + 1) (?low + 2) ?up, True)"
    using fits i c h b
    by (auto simp: insert_slot_def Let_def copy_within_in write_source_in put_u16_in [of ?slot]
        put_counts simp del: of_nat_add of_nat_Suc of_nat_diff)
  show thesis using that [OF eq] r tag by simp
qed

lemma insert_slot_full:
  "\<lbrakk>slotted p cs; index \<le> length cs; c \<noteq> []; \<not> insert_fits (raw_header p) (length c)\<rbrakk> \<Longrightarrow>
   insert_slot p (raw_header p) index c = Inr (p, False)"
  using raw_header_slotted [of p cs] by (simp add: insert_slot_def)

end
