(* ===== verification/SlottedEdits.thy ===== *)
theory SlottedEdits
  imports SlottedLayout
begin

text \<open>
  Removal and replacement of one record of a slotted page, on the layout of
  \<open>SlottedLayout\<close>: the records below the changed one slide up or down, their slots are
  adjusted, and the result is again a laid page whose records are the list operation's.
\<close>

section \<open>Moving the records below one record\<close>

text \<open>
  Removal and replacement slide the block of records below a record up or down; \<open>slid\<close>
  is the new offset of a record, for the old and the new start of the payload.
\<close>

definition slid :: "nat \<Rightarrow> nat \<Rightarrow> nat \<Rightarrow> nat \<Rightarrow> nat" where
  "slid start up up' s = (if s < start then s - up + up' else s)"

lemma set_remove_at_apart:
  assumes "sorted_wrt apart rs" "i < length rs" "r \<in> set (remove_at i rs)"
  shows "r \<in> set rs" "apart r (rs ! i)"
proof -
  have rs: "rs = take i rs @ rs ! i # drop (Suc i) rs"
    using assms(2) by (rule id_take_nth_drop)
  show "r \<in> set rs" using assms(3) set_remove_at_subset by fast
  have "sorted_wrt apart (take i rs @ rs ! i # drop (Suc i) rs)" using assms(1) rs by simp
  thus "apart r (rs ! i)"
    using assms(3) by (auto simp: remove_at_def sorted_wrt_append intro: apart_sym)
qed

lemma slid_record:
  assumes pl: "placed p up (s, c)" and ap: "apart (s, c) (start, d)" and st: "up \<le> start"
    and up': "up' + (start - up) \<le> start + length d" "start + length d \<le> PAGE_SIZE"
    and len: "length p = PAGE_SIZE" "length q = PAGE_SIZE"
    and block: "\<And>k. up \<le> k \<Longrightarrow> k < start \<Longrightarrow> q ! (k - up + up') = p ! k"
    and above: "\<And>k. start + length d \<le> k \<Longrightarrow> k < PAGE_SIZE \<Longrightarrow> q ! k = p ! k"
  shows "placed q up' (slid start up up' s, c)"
    and "slid start up up' s + length c \<le> up' + (start - up) \<or> start + length d \<le> slid start up up' s"
proof -
  have "c \<noteq> []" using pl by simp
  from ap consider (lo) "s + length c \<le> start" | (hi) "start + length d \<le> s" by auto
  hence "placed q up' (slid start up up' s, c) \<and>
    (slid start up up' s + length c \<le> up' + (start - up) \<or> start + length d \<le> slid start up up' s)"
  proof cases
    case lo
    have "s < start" using lo \<open>c \<noteq> []\<close> by (cases c) auto
    hence sl: "slid start up up' s = s - up + up'" by (simp add: slid_def)
    have b: "s - up + up' + length c \<le> up' + (start - up)" using lo pl by simp
    have "rd q (s - up + up') (length c) = rd p s (length c)"
    proof (rule nth_equalityI)
      fix k assume "k < length (rd q (s - up + up') (length c))"
      hence k: "k < length c" using b up' len by simp
      have "rd q (s - up + up') (length c) ! k = q ! (s - up + up' + k)"
        using k b up' len by (simp add: nth_rd)
      also have "s - up + up' + k = (s + k) - up + up'" using pl by simp
      also have "q ! \<dots> = p ! (s + k)" using k lo pl by (intro block) auto
      also have "\<dots> = rd p s (length c) ! k" using k pl len by (subst nth_rd) auto
      finally show "rd q (s - up + up') (length c) ! k = rd p s (length c) ! k" .
    qed (use b up' len pl in simp)
    thus ?thesis using pl b up' unfolding sl by auto
  next
    case hi
    hence "slid start up up' s = s" by (simp add: slid_def)
    moreover have "rd q s (length c) = rd p s (length c)"
    proof (rule nth_equalityI)
      have "s + length c \<le> PAGE_SIZE" using pl by simp
      thus "length (rd q s (length c)) = length (rd p s (length c))"
        "\<And>k. k < length (rd q s (length c)) \<Longrightarrow> rd q s (length c) ! k = rd p s (length c) ! k"
        using hi len above by (auto simp: nth_rd)
    qed
    ultimately show ?thesis using hi pl up' st by simp
  qed
  thus "placed q up' (slid start up up' s, c)"
    "slid start up up' s + length c \<le> up' + (start - up) \<or> start + length d \<le> slid start up up' s"
    by auto
qed

lemma slid_apart:
  assumes "apart (s, c) (t, d)" "up \<le> s" "up \<le> t" "c \<noteq> []" "d \<noteq> []"
    "apart (s, c) (start, e)" "apart (t, d) (start, e)" "up' + (start - up) \<le> start + length e"
  shows "apart (slid start up up' s, c) (slid start up up' t, d)"
proof -
  have "1 \<le> length c" "1 \<le> length d" using assms by (auto simp: Suc_le_eq)
  thus ?thesis using assms(1-3,6-8) by (auto simp: slid_def)
qed

lemma slide:
  fixes up' :: nat
  assumes l: "laid p up cs" and i: "i < length cs"
  defines "start \<equiv> slot_of p i"
  defines "hole \<equiv> up' + (start - up)"
  assumes up': "hole \<le> start + length (cs ! i)" and len: "length q = PAGE_SIZE"
    and block: "\<And>k. up \<le> k \<Longrightarrow> k < start \<Longrightarrow> q ! (k - up + up') = p ! k"
    and above: "\<And>k. start + length (cs ! i) \<le> k \<Longrightarrow> k < PAGE_SIZE \<Longrightarrow> q ! k = p ! k"
  defines "rs \<equiv> map (apfst (slid start up up')) (remove_at i (records p cs))"
  shows "list_all (placed q up') rs" "sorted_wrt apart rs"
    and "hole + length c = start + length (cs ! i) \<Longrightarrow> \<forall>r\<in>set rs. apart (hole, c) r"
proof -
  note d = laidD [OF l] and c = laid_cellD [OF l i, folded start_def]
  have old: "placed p up r" "apart r (start, cs ! i)" if "r \<in> set (remove_at i (records p cs))" for r
    using set_remove_at_apart [OF d(7), of i r] that i d(6) by (auto simp: start_def list_all_iff)
  have new: "placed q up' (slid start up up' s, x)"
    "slid start up up' s + length x \<le> hole \<or> start + length (cs ! i) \<le> slid start up up' s"
    if "(s, x) \<in> set (remove_at i (records p cs))" for s x
    using slid_record [OF old(1,2) [OF that] c(2) up' [unfolded hole_def] c(3) d(1) len block above]
    by (auto simp: hole_def)
  show "list_all (placed q up') rs"
    using new(1) by (auto simp: rs_def list_all_iff)
  show "\<forall>r\<in>set rs. apart (hole, x) r" if "hole + length x = start + length (cs ! i)" for x
    using that by (auto simp: rs_def dest!: new(2))
  have "sorted_wrt apart (remove_at i (records p cs))" using d(7) by (rule sorted_wrt_remove_at)
  thus "sorted_wrt apart rs"
    unfolding rs_def sorted_wrt_map
  proof (rule sorted_wrt_mono_rel [rotated])
    fix x y assume xy: "x \<in> set (remove_at i (records p cs))" "y \<in> set (remove_at i (records p cs))" "apart x y"
    obtain s a t b where eq: "x = (s, a)" "y = (t, b)" by (cases x; cases y)
    show "apart (apfst (slid start up up') x) (apfst (slid start up up') y)"
      unfolding eq apfst_conv
      by (rule slid_apart [where e = "cs ! i"])
        (use xy old [of x] old [of y] up' in \<open>auto simp: eq hole_def simp del: apart.simps\<close>)
  qed
qed

section \<open>Adjusting slots\<close>

definition adjusted :: "nat \<Rightarrow> nat \<Rightarrow> bool \<Rightarrow> nat \<Rightarrow> nat \<Rightarrow> nat \<Rightarrow> nat" where
  "adjusted target before add amount j s =
    (if j = target \<or> s \<ge> before then s else if add then s + amount else s - amount)"

lemma adjust_slot_step:
  assumes p: "length p = PAGE_SIZE" "HEADER_SIZE + 2 * j + 2 \<le> PAGE_SIZE"
    and ok: "j \<noteq> target \<Longrightarrow> slot_of p j < before \<Longrightarrow>
      (if add then slot_of p j + amount < PAGE_SIZE else amount \<le> slot_of p j \<and> slot_of p j < PAGE_SIZE)"
  shows "adjust_slot target before add amount p j =
    Inr (if j = target \<or> slot_of p j \<ge> before then p
         else wr p (HEADER_SIZE + j * 2)
           (to_le_bytes (of_nat (adjusted target before add amount j (slot_of p j)) :: 16 word)))"
proof -
  have r: "u16_le p (HEADER_SIZE + j * 2) = Inr (u16_at p (HEADER_SIZE + j * 2))"
    using p by (simp add: u16_le_in mult.commute)
  have "slot_of p j + amount \<le> usize_max" if "slot_of p j + amount < PAGE_SIZE"
    using that by (simp add: PAGE_SIZE_def usize_max_def)
  thus ?thesis
    using p ok
    by (cases "j = target"; cases "slot_of p j < before"; cases add)
      (auto simp: adjust_slot_def Let_def r put_u16_in mult.commute adjusted_def
        usize_checked_add_def usize_checked_sub_def simp del: of_nat_add of_nat_diff simp flip: slot_of_def)
qed

lemma adjust_slots:
  assumes p: "length p = PAGE_SIZE" "HEADER_SIZE + 2 * n \<le> PAGE_SIZE"
    and ok: "\<And>j. j < n \<Longrightarrow> j \<noteq> target \<Longrightarrow> slot_of p j < before \<Longrightarrow>
      (if add then slot_of p j + amount < PAGE_SIZE else amount \<le> slot_of p j \<and> slot_of p j < PAGE_SIZE)"
  shows "\<exists>p'. rfold (adjust_slot target before add amount) p [0..<n] = Inr p' \<and> length p' = PAGE_SIZE
    \<and> (\<forall>j. HEADER_SIZE + 2 * j + 2 \<le> PAGE_SIZE \<longrightarrow>
          slot_of p' j = (if j < n then adjusted target before add amount j (slot_of p j) else slot_of p j))
    \<and> (\<forall>i<PAGE_SIZE. i < HEADER_SIZE \<or> HEADER_SIZE + 2 * n \<le> i \<longrightarrow> p' ! i = p ! i)
    \<and> tag_of p' = tag_of p"
  using assms(2) ok
proof (induction n)
  case (Suc n)
  have "HEADER_SIZE + 2 * n \<le> PAGE_SIZE" using Suc.prems(1) by simp
  from Suc.IH [OF this Suc.prems(2) [OF less_SucI]] obtain p' where IH: "rfold (adjust_slot target before add amount) p [0..<n] = Inr p'"
    "length p' = PAGE_SIZE" "tag_of p' = tag_of p"
    "\<And>j. HEADER_SIZE + 2 * j + 2 \<le> PAGE_SIZE \<Longrightarrow>
       slot_of p' j = (if j < n then adjusted target before add amount j (slot_of p j) else slot_of p j)"
    "\<And>i. i < PAGE_SIZE \<Longrightarrow> i < HEADER_SIZE \<or> HEADER_SIZE + 2 * n \<le> i \<Longrightarrow> p' ! i = p ! i"
    by auto
  let ?v = "adjusted target before add amount n (slot_of p n)"
  let ?q = "if n = target \<or> slot_of p n \<ge> before then p'
    else wr p' (HEADER_SIZE + n * 2) (to_le_bytes (of_nat ?v :: 16 word))"
  have sn: "slot_of p' n = slot_of p n" using IH(4) [of n] Suc.prems by simp
  have step: "adjust_slot target before add amount p' n = Inr ?q"
    using adjust_slot_step [of p' n target before add amount] IH(2) Suc.prems(1) Suc.prems(2) [of n]
    by (simp add: sn)
  have v: "?v \<le> PAGE_SIZE" if "n \<noteq> target" "slot_of p n < before"
    using Suc.prems(2) [of n] that by (auto simp: adjusted_def split: if_splits)
  have slots: "slot_of ?q j = (if j < Suc n then adjusted target before add amount j (slot_of p j) else slot_of p j)"
    if j: "HEADER_SIZE + 2 * j + 2 \<le> PAGE_SIZE" for j
  proof (cases "j = n")
    case True
    thus ?thesis
      using sn v IH(2) Suc.prems(1) by (auto simp: slot_of_put adjusted_def)
  next
    case False
    hence "HEADER_SIZE + 2 * j + 2 \<le> HEADER_SIZE + n * 2 \<or> HEADER_SIZE + n * 2 + 2 \<le> HEADER_SIZE + 2 * j"
      by auto
    thus ?thesis
      using False j IH(2) IH(4) [OF j] Suc.prems(1) by (auto simp: slot_of_wr)
  qed
  have "length ?q = PAGE_SIZE" "tag_of ?q = tag_of p"
    using IH(2,3) Suc.prems(1) by (auto simp: tag_of_wr)
  moreover have "\<forall>i<PAGE_SIZE. i < HEADER_SIZE \<or> HEADER_SIZE + 2 * Suc n \<le> i \<longrightarrow> ?q ! i = p ! i"
    using IH(2,5) Suc.prems(1) by (auto simp: nth_wr)
  moreover have "rfold (adjust_slot target before add amount) p [0..<Suc n] = Inr ?q"
    using IH(1) step by (simp add: rfold_append)
  ultimately show ?case using slots by blast
qed (use p in auto)

section \<open>Removal\<close>

lemma record_start_laid:
  assumes l: "laid p up cs" and i: "i < length cs" and n: "n = length (cs ! i)"
    and h: "h_item_count h = length cs" "h_lower h = HEADER_SIZE + 2 * length cs" "h_upper h = up"
  shows "record_start p h i n = Inr (slot_of p i)"
proof -
  note c = laid_cellD [OF l i]
  have "slot_of p i + n \<le> usize_max" using c n by (simp add: PAGE_SIZE_def usize_max_def)
  thus ?thesis
    using c n h by (simp add: record_start_def slot_start_laid [OF l i] usize_checked_add_def)
qed

text \<open>The payload and slots after the records below slot \<open>i\<close> slid up by \<open>amt\<close> bytes.\<close>

lemma slide_up:
  assumes l: "laid p up cs" and i: "i < length cs" and amt: "amt \<le> length (cs ! i)" "0 < amt"
    and h: "h_item_count h = length cs"
  defines "start \<equiv> slot_of p i"
  obtains q where
    "rbind (copy_within p up (up + amt) (start - up)) (\<lambda>p. rbind (zero p up amt) (\<lambda>p.
       rbind (adjust_slots_before p h i start True amt) f)) = f q"
    "length q = PAGE_SIZE" "tag_of q = tag_of p"
    "\<And>j. j < length cs \<Longrightarrow> slot_of q j = (if j = i then start else slid start up (up + amt) (slot_of p j))"
    "\<And>k. up \<le> k \<Longrightarrow> k < start \<Longrightarrow> q ! (k - up + (up + amt)) = p ! k"
    "\<And>k. start + amt \<le> k \<Longrightarrow> k < PAGE_SIZE \<Longrightarrow> q ! k = p ! k"
    "\<And>k. HEADER_SIZE + 2 * length cs \<le> k \<Longrightarrow> k < up + amt \<Longrightarrow> q ! k = 0"
    "\<And>k. k < HEADER_SIZE \<Longrightarrow> q ! k = p ! k"
proof -
  note d = laidD [OF l] and c = laid_cellD [OF l i, folded start_def]
  let ?p1 = "wr p (up + amt) (rd p up (start - up))"
  let ?p2 = "wr ?p1 up (replicate amt 0)"
  have b: "up + (start - up) \<le> PAGE_SIZE" "up + amt + (start - up) \<le> PAGE_SIZE" "up + amt \<le> PAGE_SIZE"
    using c amt by auto
  have len: "length ?p1 = PAGE_SIZE" "length ?p2 = PAGE_SIZE" using b d by auto
  have nth2: "?p2 ! k = (if up \<le> k \<and> k < up + amt then 0
      else if up + amt \<le> k \<and> k < start + amt then p ! (k - amt) else p ! k)" if "k < PAGE_SIZE" for k
    using that b d c len by (auto simp: nth_wr nth_rd ac_simps)
  have sl2: "slot_of ?p2 j = slot_of p j" if "HEADER_SIZE + 2 * j + 2 \<le> up" for j
    using that b d len by (simp add: slot_of_wr)
  have "slot_of ?p2 j + amt < PAGE_SIZE" if "j < length cs" "j \<noteq> i" "slot_of ?p2 j < start" for j
  proof -
    have "slot_of p j = slot_of ?p2 j" using sl2 [of j] that d by simp
    thus ?thesis
      using laid_disjointD [OF l that(1) i that(2)] laid_cellD(1) [OF l that(1)] that(3) c amt
      by (cases "cs ! j") (auto simp: start_def)
  qed
  with adjust_slots [OF len(2), of "length cs" i start True amt] d
  obtain q where q: "adjust_slots_before ?p2 h i start True amt = Inr q" "length q = PAGE_SIZE"
    "tag_of q = tag_of ?p2"
    "\<And>j. j < length cs \<Longrightarrow> slot_of q j = adjusted i start True amt j (slot_of ?p2 j)"
    "\<And>k. k < PAGE_SIZE \<Longrightarrow> HEADER_SIZE + 2 * length cs \<le> k \<Longrightarrow> q ! k = ?p2 ! k"
    "\<And>k. k < PAGE_SIZE \<Longrightarrow> k < HEADER_SIZE \<Longrightarrow> q ! k = ?p2 ! k"
    by (auto simp: adjust_slots_before_def h)
  show thesis
  proof
    show "rbind (copy_within p up (up + amt) (start - up)) (\<lambda>p. rbind (zero p up amt) (\<lambda>p.
       rbind (adjust_slots_before p h i start True amt) f)) = f q"
      using b q(1) by (simp add: copy_within_in zero_in)
    show "length q = PAGE_SIZE" by fact
    show "tag_of q = tag_of p" using q(3) b d len by (simp add: tag_of_wr)
    show "slot_of q j = (if j = i then start else slid start up (up + amt) (slot_of p j))"
      if "j < length cs" for j
      using q(4) [OF that] sl2 [of j] that d laid_cellD(2) [OF l that]
      by (auto simp: adjusted_def slid_def start_def)
    show "q ! (k - up + (up + amt)) = p ! k" if "up \<le> k" "k < start" for k
      using that q(5) [of "k + amt"] nth2 [of "k + amt"] c d amt by simp
    show "q ! k = p ! k" if "start + amt \<le> k" "k < PAGE_SIZE" for k
      using that q(5) [of k] nth2 [of k] c d by simp
    show "q ! k = 0" if "HEADER_SIZE + 2 * length cs \<le> k" "k < up + amt" for k
      using that q(5) [of k] nth2 [of k] b laid_zeroD [OF l, of k] by auto
    show "q ! k = p ! k" if "k < HEADER_SIZE" for k
      using that q(6) [of k] nth2 [of k] d by auto
  qed
qed

lemma remove_slots:
  assumes "length q = PAGE_SIZE" "i < n" "HEADER_SIZE + 2 * n \<le> up" "up \<le> PAGE_SIZE"
  defines "slot \<equiv> HEADER_SIZE + i * 2"
  defines "low \<equiv> HEADER_SIZE + 2 * n"
  defines "q1 \<equiv> wr q slot (rd q (slot + 2) (low - slot - 2))"
  defines "q2 \<equiv> wr q1 (low - 2) (to_le_bytes (0 :: 16 word))"
  shows "slots q2 (n - 1) = remove_at i (slots q n)" "length q2 = PAGE_SIZE" "tag_of q2 = tag_of q"
    "\<And>k. low \<le> k \<Longrightarrow> k < PAGE_SIZE \<Longrightarrow> q2 ! k = q ! k"
    "q2 ! (low - 2) = 0" "q2 ! (low - 1) = 0"
proof -
  have b: "slot + 2 \<le> low" "low \<le> PAGE_SIZE" using assms(2-4) by (auto simp: slot_def low_def)
  have len: "length q1 = PAGE_SIZE" using b assms(1) by (simp add: q1_def)
  show len2: "length q2 = PAGE_SIZE" using b len by (simp add: q2_def)
  show "tag_of q2 = tag_of q"
    using b len assms(1) by (simp add: q2_def q1_def tag_of_wr slot_def low_def)
  show "q2 ! k = q ! k" if "low \<le> k" "k < PAGE_SIZE" for k
    using that b len assms(1) by (auto simp: q2_def q1_def nth_wr)
  have z: "to_le_bytes (0 :: 16 word) = [0, 0]"
    by (simp add: to_le_bytes_def numeral_2_eq_2)
  show "q2 ! (low - 2) = 0" "q2 ! (low - 1) = 0"
    using b len by (auto simp: q2_def nth_wr z)
  have low_nth: "q2 ! k = (if k < slot then q ! k else q ! (k + 2))" if "k < low - 2" for k
    using that b len assms(1) by (auto simp: q2_def q1_def nth_wr nth_rd)
  have "slot_of q2 j = (if j < i then slot_of q j else slot_of q (Suc j))" if "j < n - 1" for j
  proof -
    let ?a = "HEADER_SIZE + j * 2"
    have a: "?a + 4 \<le> low" using that by (simp add: low_def)
    have "rd q2 ?a 2 = (if j < i then rd q ?a 2 else rd q (?a + 2) 2)"
    proof (rule nth_equalityI)
      fix k assume "k < length (rd q2 ?a 2)"
      hence "k < 2" using a b len2 by simp
      moreover have "?a + k < slot \<longleftrightarrow> j < i" using \<open>k < 2\<close> by (auto simp: slot_def)
      ultimately show "rd q2 ?a 2 ! k = (if j < i then rd q ?a 2 else rd q (?a + 2) 2) ! k"
        using a b len2 assms(1) low_nth [of "?a + k"] by (auto simp: nth_rd ac_simps)
    qed (use a b len2 assms(1) in auto)
    thus ?thesis by (simp add: slot_of_def u16_at_def ac_simps)
  qed
  thus "slots q2 (n - 1) = remove_at i (slots q n)"
    using assms(2) by (intro nth_equalityI) (auto simp: nth_remove_at)
qed

lemma remove_at_cong:
  "length xs = length ys \<Longrightarrow> i < length xs \<Longrightarrow> (\<And>j. j < length xs \<Longrightarrow> j \<noteq> i \<Longrightarrow> xs ! j = ys ! j) \<Longrightarrow>
   remove_at i xs = remove_at i ys"
  by (intro nth_equalityI) (auto simp: nth_remove_at)

lemma map_apfst: "map fst (map (apfst f) xs) = map f (map fst xs)" "map snd (map (apfst f) xs) = map snd xs"
  by (induction xs) auto

lemma laid_remove:
  assumes l: "laid p up cs" and i: "i < length cs"
  defines "up' \<equiv> up + length (cs ! i)"
  assumes len: "length q = PAGE_SIZE"
    and slots: "slots q (length cs - 1)
      = remove_at i (map (slid (slot_of p i) up up') (slots p (length cs)))"
    and block: "\<And>k. up \<le> k \<Longrightarrow> k < slot_of p i \<Longrightarrow> q ! (k - up + up') = p ! k"
    and above: "\<And>k. slot_of p i + length (cs ! i) \<le> k \<Longrightarrow> k < PAGE_SIZE \<Longrightarrow> q ! k = p ! k"
    and zeros: "\<And>k. HEADER_SIZE + 2 * (length cs - 1) \<le> k \<Longrightarrow> k < up' \<Longrightarrow> q ! k = 0"
  shows "laid q up' (remove_at i cs)"
proof -
  note d = laidD [OF l] and c = laid_cellD [OF l i]
  let ?rs = "map (apfst (slid (slot_of p i) up up')) (remove_at i (records p cs))"
  have hole: "up' + (slot_of p i - up) \<le> slot_of p i + length (cs ! i)"
    using c by (simp add: up'_def)
  note sl = slide [OF l i hole len block above]
  have snds: "map snd ?rs = remove_at i cs" and fsts: "map fst ?rs
      = remove_at i (map (slid (slot_of p i) up up') (slots p (length cs)))"
    by (simp_all only: map_apfst map_remove_at map_records)
  have "laid q up' (map snd ?rs)"
  proof (rule laidI)
    show "up' + sum_list (map (length \<circ> snd) ?rs) = PAGE_SIZE"
      using d(2) sum_remove_at [OF i, of length] unfolding map_map [symmetric] snds
      by (simp add: up'_def)
    show "slots q (length ?rs) = map fst ?rs"
      using i slots unfolding fsts by simp
    show "HEADER_SIZE + 2 * length ?rs \<le> up'"
      using d(4) i by (simp add: up'_def)
  qed (use i sl(1,2) len zeros in simp_all)
  thus ?thesis unfolding snds .
qed

theorem remove_slot_slotted:
  assumes s: "slotted p cs" and i: "i < length cs" and two: "1 < length cs"
  obtains p' where "remove_slot p (raw_header p) i (length (cs ! i)) = Inr p'"
    "slotted p' (remove_at i cs)" "tag_of p' = tag_of p" "upper p' = upper p + length (cs ! i)"
proof -
  have l: "laid p (upper p) cs" using s by (simp add: slotted_def)
  note d = laidD [OF l] and h = raw_header_slotted [OF s] and c = laid_cellD [OF l i]
  let ?n = "length cs" and ?old = "length (cs ! i)" and ?up = "upper p"
  let ?low = "HEADER_SIZE + 2 * ?n" and ?slot = "HEADER_SIZE + i * 2"
  define f where "f page =
    rbind (copy_within page (?slot + 2) ?slot (?low - ?slot - 2)) (\<lambda>page.
    rbind (put_u16 page (?low - 2) 0) (\<lambda>page.
    rbind (put_u16 page ITEM_COUNT (of_nat (?n - 1))) (\<lambda>page.
    rbind (put_u16 page LOWER (of_nat (?low - 2))) (\<lambda>page.
    put_u16 page UPPER (of_nat (?up + ?old))))))" for page
  have amt: "?old \<le> length (cs ! i)" "0 < ?old" using c by auto
  from h have hc: "h_item_count (raw_header p) = ?n" by simp
  let ?h = "raw_header p" and ?start = "slot_of p i"
  obtain q where
    q: "rbind (copy_within p ?up (?up + ?old) (?start - ?up)) (\<lambda>p. rbind (zero p ?up ?old) (\<lambda>p.
       rbind (adjust_slots_before p ?h i ?start True ?old) f)) = f q"
    "length q = PAGE_SIZE" "tag_of q = tag_of p"
    "\<And>j. j < ?n \<Longrightarrow> slot_of q j = (if j = i then ?start else slid ?start ?up (?up + ?old) (slot_of p j))"
    "\<And>k. ?up \<le> k \<Longrightarrow> k < ?start \<Longrightarrow> q ! (k - ?up + (?up + ?old)) = p ! k"
    "\<And>k. ?start + ?old \<le> k \<Longrightarrow> k < PAGE_SIZE \<Longrightarrow> q ! k = p ! k"
    "\<And>k. ?low \<le> k \<Longrightarrow> k < ?up + ?old \<Longrightarrow> q ! k = 0"
    by (rule slide_up [OF l i amt hc, of f]) blast
  let ?q1 = "wr q ?slot (rd q (?slot + 2) (?low - ?slot - 2))"
  let ?q2 = "wr ?q1 (?low - 2) (to_le_bytes (0 :: 16 word))"
  note q2 = remove_slots [OF q(2) i d(4,3)]
  have "laid ?q2 (?up + ?old) (remove_at i cs)"
  proof (rule laid_remove [OF l i q2(2)])
    show "slots ?q2 (?n - 1) = remove_at i (map (slid ?start ?up (?up + ?old)) (slots p ?n))"
      unfolding q2(1) using i q(4) by (intro remove_at_cong) auto
    show "?q2 ! k = 0" if "HEADER_SIZE + 2 * (?n - 1) \<le> k" "k < ?up + ?old" for k
    proof (cases "?low \<le> k")
      case True
      thus ?thesis using that q(7) [of k] q2(4) [of k] c d by simp
    next
      case False
      hence "k = ?low - 2 \<or> k = ?low - 1" using that by auto
      thus ?thesis using q2(5,6) by auto
    qed
  qed (use q(5,6) q2(4) c d i in auto)
  moreover have "?n - 1 = length (remove_at i cs)" "?low - 2 = HEADER_SIZE + 2 * length (remove_at i cs)"
    using i two by auto
  ultimately have r: "slotted (with_counts ?q2 (?n - 1) (?low - 2) (?up + ?old)) (remove_at i cs)"
    "tag_of (with_counts ?q2 (?n - 1) (?low - 2) (?up + ?old)) = tag_of ?q2"
    "upper (with_counts ?q2 (?n - 1) (?low - 2) (?up + ?old)) = ?up + ?old"
    by (blast intro: slotted_with_counts)+
  have b: "?slot + 2 + (?low - ?slot - 2) \<le> PAGE_SIZE" "?slot + (?low - ?slot - 2) \<le> PAGE_SIZE"
    "?low - 2 + 2 \<le> PAGE_SIZE"
    using d i by auto
  have "f q = Inr (with_counts ?q2 (?n - 1) (?low - 2) (?up + ?old))"
    unfolding f_def by (simp only: copy_within_in [OF b(1,2)] put_u16_in [OF b(3)] rbind.simps put_counts)
  moreover have "remove_slot p ?h i ?old = rbind (copy_within p ?up (?up + ?old) (?start - ?up))
      (\<lambda>p. rbind (zero p ?up ?old) (\<lambda>p. rbind (adjust_slots_before p ?h i ?start True ?old) f))"
    using i two c record_start_laid [OF l i refl, of ?h] h
    by (simp add: remove_slot_def f_def [abs_def] Let_def not_le)
  ultimately have "remove_slot p ?h i ?old = Inr (with_counts ?q2 (?n - 1) (?low - 2) (?up + ?old))"
    using q(1) by simp
  thus thesis using that r q(3) q2(3) by simp
qed

section \<open>Replacement\<close>

lemma header_frame:
  assumes "length p = PAGE_SIZE" "length q = PAGE_SIZE" "\<And>k. k < HEADER_SIZE \<Longrightarrow> q ! k = p ! k"
  shows "tag_of q = tag_of p" "item_count q = item_count p" "lower q = lower p" "upper q = upper p"
proof -
  have rds: "rd q a n = rd p a n" if "a + n \<le> 32" for a n
    using that assms by (intro nth_equalityI) (auto simp: nth_rd layout_consts)
  have "q ! k = p ! k" if "k < 32" for k using assms(3) that by (simp add: layout_consts)
  thus "tag_of q = tag_of p"
    using assms(1,2) by (simp add: tag_of_def ident_of_def born_txn_def level_def u16_at_def u32_at_def
        u64_at_def rds byte_at_def layout_consts)
  show "item_count q = item_count p" "lower q = lower p" "upper q = upper p"
    by (simp_all add: item_count_def lower_def upper_def u16_at_def rds layout_consts)
qed

lemma slide_down:
  assumes l: "laid p up cs" and i: "i < length cs" and amt: "HEADER_SIZE + 2 * length cs + amt \<le> up"
    and h: "h_item_count h = length cs"
  defines "start \<equiv> slot_of p i"
  obtains q where
    "rbind (copy_within p up (up - amt) (start - up)) (\<lambda>p.
       rbind (adjust_slots_before p h i start False amt) f) = f q"
    "length q = PAGE_SIZE"
    "\<And>j. j < length cs \<Longrightarrow> slot_of q j = (if j = i then start else slid start up (up - amt) (slot_of p j))"
    "\<And>k. up \<le> k \<Longrightarrow> k < start \<Longrightarrow> q ! (k - up + (up - amt)) = p ! k"
    "\<And>k. start \<le> k \<Longrightarrow> k < PAGE_SIZE \<Longrightarrow> q ! k = p ! k"
    "\<And>k. HEADER_SIZE + 2 * length cs \<le> k \<Longrightarrow> k < up - amt \<Longrightarrow> q ! k = 0"
    "\<And>k. k < HEADER_SIZE \<Longrightarrow> q ! k = p ! k"
proof -
  note d = laidD [OF l] and c = laid_cellD [OF l i, folded start_def]
  let ?p1 = "wr p (up - amt) (rd p up (start - up))"
  have b: "up + (start - up) \<le> PAGE_SIZE" "up - amt + (start - up) \<le> PAGE_SIZE"
    using c amt by auto
  have len: "length ?p1 = PAGE_SIZE" using b d by auto
  have nth1: "?p1 ! k = (if up - amt \<le> k \<and> k < start - amt then p ! (k + amt) else p ! k)"
    if "k < PAGE_SIZE" for k
    using that b d c amt by (auto simp: nth_wr nth_rd ac_simps)
  have sl1: "slot_of ?p1 j = slot_of p j" if "j < length cs" for j
    using that b d amt by (intro slot_of_wr) auto
  have "amt \<le> slot_of ?p1 j \<and> slot_of ?p1 j < PAGE_SIZE" if "j < length cs" for j
    using sl1 [OF that] laid_cellD(1-3) [OF l that] amt by (cases "cs ! j") auto
  with adjust_slots [OF len, of "length cs" i start False amt] d
  obtain q where q: "adjust_slots_before ?p1 h i start False amt = Inr q" "length q = PAGE_SIZE"
    "\<And>j. j < length cs \<Longrightarrow> slot_of q j = adjusted i start False amt j (slot_of ?p1 j)"
    "\<And>k. k < PAGE_SIZE \<Longrightarrow> HEADER_SIZE + 2 * length cs \<le> k \<Longrightarrow> q ! k = ?p1 ! k"
    "\<And>k. k < PAGE_SIZE \<Longrightarrow> k < HEADER_SIZE \<Longrightarrow> q ! k = ?p1 ! k"
    by (auto simp: adjust_slots_before_def h)
  show thesis
  proof
    show "rbind (copy_within p up (up - amt) (start - up)) (\<lambda>p.
       rbind (adjust_slots_before p h i start False amt) f) = f q"
      using b q(1) by (simp add: copy_within_in)
    show "length q = PAGE_SIZE" by fact
    show "slot_of q j = (if j = i then start else slid start up (up - amt) (slot_of p j))"
      if "j < length cs" for j
      using q(3) [OF that] sl1 [OF that] laid_cellD(2) [OF l that] amt
      by (auto simp: adjusted_def slid_def start_def)
    show "q ! (k - up + (up - amt)) = p ! k" if "up \<le> k" "k < start" for k
    proof -
      have a: "k - amt < PAGE_SIZE" "HEADER_SIZE + 2 * length cs \<le> k - amt" "up - amt \<le> k - amt"
        "k - amt < start - amt" "k - amt + amt = k" "k - up + (up - amt) = k - amt"
        using that c amt by auto
      show ?thesis using q(4) [OF a(1,2)] nth1 [OF a(1)] a by simp
    qed
    show "q ! k = p ! k" if "start \<le> k" "k < PAGE_SIZE" for k
      using that q(4) [of k] nth1 [of k] c d amt by (auto split: if_splits)
    show "q ! k = 0" if "HEADER_SIZE + 2 * length cs \<le> k" "k < up - amt" for k
      using that q(4) [of k] nth1 [of k] d laid_zeroD [OF l, of k] by auto
    show "q ! k = p ! k" if "k < HEADER_SIZE" for k
      using that q(5) [of k] nth1 [of k] d amt by auto
  qed
qed

lemma insert_remove_at: "i < length xs \<Longrightarrow> insert_at i x (remove_at i xs) = xs[i := x]"
  by (simp add: insert_at_def remove_at_def upd_conv_take_nth_drop min_def)

lemma laid_replace:
  fixes up' :: nat
  assumes l: "laid p up cs" and i: "i < length cs"
  defines "start \<equiv> slot_of p i"
  defines "hole \<equiv> up' + (start - up)"
  assumes c: "c \<noteq> []" "hole + length c = start + length (cs ! i)" "HEADER_SIZE + 2 * length cs \<le> up'"
    and q: "length q = PAGE_SIZE" "\<And>k. up \<le> k \<Longrightarrow> k < start \<Longrightarrow> q ! (k - up + up') = p ! k"
    "\<And>k. start + length (cs ! i) \<le> k \<Longrightarrow> k < PAGE_SIZE \<Longrightarrow> q ! k = p ! k"
    "\<And>k. HEADER_SIZE + 2 * length cs \<le> k \<Longrightarrow> k < up' \<Longrightarrow> q ! k = 0"
    "\<And>j. j < length cs \<Longrightarrow> slot_of q j = (if j = i then start else slid start up up' (slot_of p j))"
  defines "q' \<equiv> wr (wr q hole c) (HEADER_SIZE + i * 2) (to_le_bytes (of_nat hole :: 16 word))"
  shows "laid q' up' (cs[i := c])"
proof -
  note d = laidD [OF l] and old = laid_cellD [OF l i, folded start_def]
  let ?n = "length cs"
  have b: "hole + length c \<le> PAGE_SIZE" "HEADER_SIZE + 2 * i + 2 \<le> hole" "up' \<le> hole"
    using c old i by (auto simp: hole_def)
  have len: "length (wr q hole c) = PAGE_SIZE" "length q' = PAGE_SIZE"
    using b q(1) by (auto simp: q'_def)
  have nth: "q' ! k = q ! k" if "k < hole \<or> hole + length c \<le> k" "HEADER_SIZE + 2 * ?n \<le> k" "k < PAGE_SIZE" for k
    using that b q(1) len i by (auto simp: q'_def nth_wr)
  have slots: "slot_of q' j = (if j = i then hole else slid start up up' (slot_of p j))" if "j < ?n" for j
  proof (cases "j = i")
    case True
    thus ?thesis using b len by (simp add: q'_def slot_of_put)
  next
    case False
    hence "HEADER_SIZE + 2 * j + 2 \<le> HEADER_SIZE + i * 2 \<or> HEADER_SIZE + i * 2 + 2 \<le> HEADER_SIZE + 2 * j"
      by auto
    thus ?thesis using False that b len q(1,5) c(3) by (simp add: q'_def slot_of_wr)
  qed
  have rdc: "rd q' hole (length c) = c"
    using b q(1) len by (simp add: q'_def rd_wr_disjoint rd_wr_same)
  have hole_le: "up' + (slot_of p i - up) \<le> slot_of p i + length (cs ! i)"
    using c(2) by (simp add: hole_def start_def)
  have blk: "q' ! (k - up + up') = p ! k" if "up \<le> k" "k < slot_of p i" for k
  proof -
    have "k - up + up' < hole" "HEADER_SIZE + 2 * ?n \<le> k - up + up'" "k - up + up' < PAGE_SIZE"
      using that c b by (auto simp: start_def hole_def)
    thus ?thesis using nth [of "k - up + up'"] q(2) [of k] that by (simp add: start_def)
  qed
  have abv: "q' ! k = p ! k" if "slot_of p i + length (cs ! i) \<le> k" "k < PAGE_SIZE" for k
    using that q(3) [of k] nth [of k] c old d by (auto simp: start_def)
  note sl = slide [OF l i hole_le len(2) blk abv, folded start_def, folded hole_def]
  let ?rs = "map (apfst (slid start up up')) (remove_at i (records p cs))"
  have rs: "insert_at i (hole, c) ?rs = (map (apfst (slid start up up')) (records p cs))[i := (hole, c)]"
    using i by (simp add: map_remove_at insert_remove_at)
  have snds: "map snd (insert_at i (hole, c) ?rs) = cs[i := c]"
    unfolding rs map_update map_apfst map_records by simp
  have fsts: "map fst (insert_at i (hole, c) ?rs) = (map (slid start up up') (slots p ?n))[i := hole]"
    unfolding rs map_update map_apfst map_records by simp
  have "laid q' up' (map snd (insert_at i (hole, c) ?rs))"
  proof (rule laidI)
    show "up' + sum_list (map (length \<circ> snd) (insert_at i (hole, c) ?rs)) = PAGE_SIZE"
      using d(2) sum_list_update_nat [OF i, of length c] c(2) old
      unfolding map_map [symmetric] snds by (simp add: hole_def)
    show "slots q' (length (insert_at i (hole, c) ?rs)) = map fst (insert_at i (hole, c) ?rs)"
      unfolding fsts using i slots by (intro nth_equalityI) (auto simp: nth_list_update)
    show "list_all (placed q' up') (insert_at i (hole, c) ?rs)"
      using sl(1) rdc b c(1) by (simp add: list_all_insert_at)
    show "sorted_wrt apart (insert_at i (hole, c) ?rs)"
      using sl(2,3) c(2) by (subst sorted_wrt_insert_at) (auto intro: apart_sym)
    show "q' ! k = 0" if "HEADER_SIZE + 2 * length (insert_at i (hole, c) ?rs) \<le> k" "k < up'" for k
      using that i b q(4) [of k] nth [of k] by simp
  qed (use i c(3) len in simp_all)
  thus ?thesis unfolding snds .
qed

lemma finish_replace:
  fixes up' :: nat
  assumes s: "slotted p cs" and i: "i < length cs"
  defines "start \<equiv> slot_of p i" and "up \<equiv> upper p"
  defines "hole \<equiv> up' + (start - up)"
  assumes c: "c \<noteq> []" "hole + length c = start + length (cs ! i)" "HEADER_SIZE + 2 * length cs \<le> up'"
    and q: "length q = PAGE_SIZE" "\<And>k. up \<le> k \<Longrightarrow> k < start \<Longrightarrow> q ! (k - up + up') = p ! k"
    "\<And>k. start + length (cs ! i) \<le> k \<Longrightarrow> k < PAGE_SIZE \<Longrightarrow> q ! k = p ! k"
    "\<And>k. HEADER_SIZE + 2 * length cs \<le> k \<Longrightarrow> k < up' \<Longrightarrow> q ! k = 0"
    "\<And>j. j < length cs \<Longrightarrow> slot_of q j = (if j = i then start else slid start up up' (slot_of p j))"
    "\<And>k. k < HEADER_SIZE \<Longrightarrow> q ! k = p ! k"
  shows "\<exists>p'. rbind (write_source q hole c) (\<lambda>page.
      rbind (put_u16 page (HEADER_SIZE + i * 2) (of_nat hole)) (\<lambda>page.
      rbind (put_u16 page UPPER (of_nat up')) (\<lambda>page. Inr (page, True)))) = Inr (p', True)
    \<and> slotted p' (cs[i := c]) \<and> tag_of p' = tag_of p \<and> upper p' = up'"
proof -
  have l: "laid p up cs" using s by (simp add: slotted_def up_def)
  note d = laidD [OF l] and old = laid_cellD [OF l i, folded start_def]
  let ?q1 = "wr (wr q hole c) (HEADER_SIZE + i * 2) (to_le_bytes (of_nat hole :: 16 word))"
  let ?q2 = "wr ?q1 UPPER (to_le_bytes (of_nat up' :: 16 word))"
  have b: "hole + length c \<le> PAGE_SIZE" "HEADER_SIZE + i * 2 + 2 \<le> hole" "up' \<le> PAGE_SIZE"
    "HEADER_SIZE + i * 2 + 2 \<le> PAGE_SIZE" "UPPER + 2 \<le> HEADER_SIZE"
    using c old i d by (auto simp: hole_def layout_consts)
  have len: "length ?q1 = PAGE_SIZE" "length (wr q hole c) = PAGE_SIZE" using b q(1) by auto
  have "laid ?q1 up' (cs[i := c])"
    using laid_replace [OF l i c(1), of up' q] c q unfolding hole_def start_def by blast
  hence laid2: "laid ?q2 up' (cs[i := c])" by (rule laid_wr_header) (use b(5) in simp)
  have "?q1 ! k = p ! k" if "k < HEADER_SIZE" for k
    using that b len q(1,6) by (simp add: nth_wr)
  note hf = header_frame [OF d(1) len(1) this]
  have "item_count ?q2 = item_count ?q1" "lower ?q2 = lower ?q1" "tag_of ?q2 = tag_of ?q1" "upper ?q2 = up'"
    using len(1) b by (simp_all add: item_count_def lower_def upper_def tag_of_def ident_of_def born_txn_def
        level_def byte_simps layout_consts)
  moreover have "item_count p = length cs" "lower p = HEADER_SIZE + 2 * length cs"
    using s by (auto simp: slotted_def)
  ultimately have "slotted ?q2 (cs[i := c])" "tag_of ?q2 = tag_of p" "upper ?q2 = up'"
    using laid2 hf by (simp_all add: slotted_def)
  moreover have "rbind (write_source q hole c) (\<lambda>page.
      rbind (put_u16 page (HEADER_SIZE + i * 2) (of_nat hole)) (\<lambda>page.
      rbind (put_u16 page UPPER (of_nat up')) (\<lambda>page. Inr (page, True)))) = Inr (?q2, True)"
    using b by (simp add: write_source_in put_u16_in)
  ultimately show ?thesis by blast
qed

lemma replace_fits_slotted:
  assumes "slotted p cs" "old \<noteq> 0" "old \<le> PAGE_SIZE"
  shows "replace_fits (raw_header p) old n \<longleftrightarrow>
    n \<noteq> 0 \<and> HEADER_SIZE + 2 * length cs + n \<le> old + upper p"
proof -
  have l: "laid p (upper p) cs" using assms by (simp add: slotted_def)
  note d = laidD [OF l]
  have "old + (upper p - lower p) \<le> usize_max" using assms d by (simp add: PAGE_SIZE_def usize_max_def)
  thus ?thesis
    using assms d by (auto simp: replace_fits_def raw_header_def slotted_def)
qed

theorem replace_slot_slotted:
  assumes s: "slotted p cs" and i: "i < length cs" and c: "c \<noteq> []"
    and fits: "replace_fits (raw_header p) (length (cs ! i)) (length c)"
  shows "\<exists>p'. replace_slot p (raw_header p) i (length (cs ! i)) c = Inr (p', True)
    \<and> slotted p' (cs[i := c]) \<and> tag_of p' = tag_of p \<and> upper p' + length c = upper p + length (cs ! i)"
proof -
  have l: "laid p (upper p) cs" using s by (simp add: slotted_def)
  note d = laidD [OF l] and h = raw_header_slotted [OF s] and o = laid_cellD [OF l i]
  let ?old = "length (cs ! i)" and ?up = "upper p" and ?h = "raw_header p" and ?start = "slot_of p i"
  let ?low = "HEADER_SIZE + 2 * length cs"
  define f where "f new_start new_upper page =
    rbind (write_source page new_start c) (\<lambda>page.
    rbind (put_u16 page (HEADER_SIZE + i * 2) (of_nat new_start)) (\<lambda>page.
    rbind (put_u16 page UPPER (of_nat new_upper)) (\<lambda>page.
    Inr (page, True))))" for new_start new_upper page
  have hc: "h_item_count ?h = length cs" using h by simp
  have rs: "record_start p ?h i ?old = Inr ?start" using record_start_laid [OF l i refl] h by simp
  have fit: "?low + length c \<le> ?old + ?up" using fits replace_fits_slotted [OF s, of ?old] o by simp
  consider "length c = ?old" | "length c < ?old" | "length c > ?old" by linarith
  thus ?thesis
  proof cases
    case 1
    have "replace_slot p ?h i ?old c = f ?start ?up p"
      using 1 i c o rs hc h by (simp add: replace_slot_def f_def Let_def)
    thus ?thesis
      using finish_replace [OF s i c, of ?up p] 1 o d laid_zeroD [OF l] laid_cellD(2) [OF l]
      unfolding f_def by (auto simp: slid_def)
  next
    case 2
    let ?amt = "?old - length c"
    have amt: "?amt \<le> ?old" "0 < ?amt" using 2 by auto
    have ee: "?up + ?amt + (?start - ?up) = ?start + ?amt" using o by simp
    obtain q where q: "rbind (copy_within p ?up (?up + ?amt) (?start - ?up)) (\<lambda>p. rbind (zero p ?up ?amt) (\<lambda>p.
       rbind (adjust_slots_before p ?h i ?start True ?amt) (f (?start + ?amt) (?up + ?amt)))) = f (?start + ?amt) (?up + ?amt) q"
      "length q = PAGE_SIZE"
      "\<And>j. j < length cs \<Longrightarrow> slot_of q j = (if j = i then ?start else slid ?start ?up (?up + ?amt) (slot_of p j))"
      "\<And>k. ?up \<le> k \<Longrightarrow> k < ?start \<Longrightarrow> q ! (k - ?up + (?up + ?amt)) = p ! k"
      "\<And>k. ?start + ?amt \<le> k \<Longrightarrow> k < PAGE_SIZE \<Longrightarrow> q ! k = p ! k"
      "\<And>k. ?low \<le> k \<Longrightarrow> k < ?up + ?amt \<Longrightarrow> q ! k = 0" "\<And>k. k < HEADER_SIZE \<Longrightarrow> q ! k = p ! k"
      by (rule slide_up [OF l i amt hc, of "f (?start + ?amt) (?up + ?amt)"]) blast
    have "replace_slot p ?h i ?old c = f (?start + ?amt) (?up + ?amt) q"
      unfolding q(1) [symmetric] using 2 i c o rs hc h
      by (simp add: replace_slot_def f_def [abs_def] Let_def rbind_assoc del: of_nat_add of_nat_diff)
    moreover have "\<exists>p'. f (?start + ?amt) (?up + ?amt) q = Inr (p', True)
      \<and> slotted p' (cs[i := c]) \<and> tag_of p' = tag_of p \<and> upper p' = ?up + ?amt"
      using finish_replace [OF s i c, of "?up + ?amt" q] q 2 d unfolding f_def ee by auto
    ultimately show ?thesis using 2 by auto
  next
    case 3
    let ?amt = "length c - ?old"
    have amt: "?low + ?amt \<le> ?up" using 3 fit by simp
    have ee: "?up - ?amt + (?start - ?up) = ?start - ?amt" using o amt by simp
    have nl: "\<not> ?up + ?old - length c < ?low" using amt 3 by simp
    obtain q where q: "rbind (copy_within p ?up (?up - ?amt) (?start - ?up)) (\<lambda>p.
       rbind (adjust_slots_before p ?h i ?start False ?amt) (f (?start - ?amt) (?up - ?amt))) = f (?start - ?amt) (?up - ?amt) q"
      "length q = PAGE_SIZE"
      "\<And>j. j < length cs \<Longrightarrow> slot_of q j = (if j = i then ?start else slid ?start ?up (?up - ?amt) (slot_of p j))"
      "\<And>k. ?up \<le> k \<Longrightarrow> k < ?start \<Longrightarrow> q ! (k - ?up + (?up - ?amt)) = p ! k"
      "\<And>k. ?start \<le> k \<Longrightarrow> k < PAGE_SIZE \<Longrightarrow> q ! k = p ! k"
      "\<And>k. ?low \<le> k \<Longrightarrow> k < ?up - ?amt \<Longrightarrow> q ! k = 0" "\<And>k. k < HEADER_SIZE \<Longrightarrow> q ! k = p ! k"
      by (rule slide_down [OF l i amt hc, of "f (?start - ?amt) (?up - ?amt)"]) blast
    have "replace_slot p ?h i ?old c = f (?start - ?amt) (?up - ?amt) q"
      unfolding q(1) [symmetric] using 3 i c o rs hc h nl
      by (simp add: replace_slot_def f_def [abs_def] Let_def del: of_nat_add of_nat_diff)
    moreover have "\<exists>p'. f (?start - ?amt) (?up - ?amt) q = Inr (p', True)
      \<and> slotted p' (cs[i := c]) \<and> tag_of p' = tag_of p \<and> upper p' = ?up - ?amt"
      using finish_replace [OF s i c, of "?up - ?amt" q] q 3 d o amt unfolding f_def ee by auto
    ultimately show ?thesis using 3 amt by auto
  qed
qed

lemma replace_slot_full:
  assumes s: "slotted p cs" and i: "i < length cs" and c: "c \<noteq> []"
    and full: "\<not> replace_fits (raw_header p) (length (cs ! i)) (length c)"
  shows "replace_slot p (raw_header p) i (length (cs ! i)) c = Inr (p, False)"
proof -
  have l: "laid p (upper p) cs" using s by (simp add: slotted_def)
  note o = laid_cellD [OF l i] and h = raw_header_slotted [OF s] and d = laidD [OF l]
  have "HEADER_SIZE + 2 * length cs + length c > length (cs ! i) + upper p"
    using full replace_fits_slotted [OF s, of "length (cs ! i)"] o c by auto
  thus ?thesis
    using record_start_laid [OF l i refl, of "raw_header p"] h i o c d
    by (auto simp: replace_slot_def Let_def)
qed

end
