(* ===== verification/SlottedCompact.thy ===== *)
theory SlottedCompact
  imports SlottedEdits "HOL-Library.Multiset"
begin

text \<open>
  Truncation, removal of a range and appending. The records of a laid page tile its
  payload: sorted by offset, each starts where the one before it ends (\<open>tiles\<close>). The
  compaction loops walk this physical order from the end of the page and move every kept
  record up; \<open>dst\<close> is where a record lands.
\<close>

section \<open>The physical order\<close>

definition phys :: "bytes \<Rightarrow> nat \<Rightarrow> nat list" where
  "phys p n = map snd (sort_key fst (map (\<lambda>i. (slot_of p i, i)) [0..<n]))"

lemma tile_bound:
  assumes "sorted_wrt (\<lambda>a b. f a + g a \<le> f b) xs" "\<forall>x\<in>set xs. lo \<le> f x \<and> f x + g x \<le> hi"
    "lo \<le> (hi :: nat)"
  shows "lo + sum_list (map g xs) \<le> hi"
  using assms
proof (induction xs arbitrary: lo)
  case (Cons x xs)
  have "f x + g x + sum_list (map g xs) \<le> hi"
    using Cons.prems by (intro Cons.IH) auto
  thus ?case using Cons.prems by simp
qed simp

lemma tiles:
  assumes "sorted_wrt (\<lambda>a b. f a + g a \<le> f b) xs" "\<forall>x\<in>set xs. lo \<le> f x \<and> f x + g x \<le> hi"
    "lo + sum_list (map g xs) = (hi :: nat)" "k < length xs"
  shows "f (xs ! k) = lo + sum_list (map g (take k xs))"
  using assms
proof (induction xs arbitrary: lo k)
  case (Cons x xs)
  have "f x + g x + sum_list (map g xs) \<le> hi"
    using Cons.prems by (intro tile_bound [of f]) auto
  hence fx: "f x = lo" using Cons.prems by simp
  show ?case
  proof (cases k)
    case (Suc m)
    have "f (xs ! m) = (lo + g x) + sum_list (map g (take m xs))"
      using Cons.prems Suc fx by (intro Cons.IH) auto
    thus ?thesis using Suc by simp
  qed (use fx in simp)
qed simp

lemma phys_perm:
  "length (phys p n) = n" "distinct (phys p n)" "set (phys p n) = {0..<n}"
proof -
  let ?m = "map (\<lambda>i. (slot_of p i, i)) [0..<n]"
  have "mset (phys p n) = mset (map snd ?m)"
    by (simp add: phys_def mset_map del: map_map)
  also have "map snd ?m = [0..<n]"
    by (simp add: comp_def)
  finally have m: "mset (phys p n) = mset [0..<n]" .
  show "length (phys p n) = n" using mset_eq_length [OF m] by simp
  show "distinct (phys p n)" using mset_eq_imp_distinct_iff [OF m] by simp
  show "set (phys p n) = {0..<n}" using mset_eq_setD [OF m] by simp
qed

lemma phys_sorted: "sorted (map (slot_of p) (phys p n))"
proof -
  let ?r = "sort_key fst (map (\<lambda>i. (slot_of p i, i)) [0..<n])"
  have "map (slot_of p) (map snd ?r) = map fst ?r"
    by (auto simp: comp_def)
  thus ?thesis by (simp add: phys_def del: map_map)
qed

definition pos :: "bytes \<Rightarrow> bytes list \<Rightarrow> nat \<Rightarrow> nat" where
  "pos p cs k = (if k < length cs then slot_of p (phys p (length cs) ! k) else PAGE_SIZE)"

definition plen :: "bytes \<Rightarrow> bytes list \<Rightarrow> nat \<Rightarrow> nat" where
  "plen p cs k = length (cs ! (phys p (length cs) ! k))"

lemma sum_map_perm:
  assumes "set xs = {0..<length cs}" "distinct xs"
  shows "sum_list (map (\<lambda>i. length (cs ! i)) xs) = sum_list (map length cs)"
proof -
  have "sum_list (map (\<lambda>i. length (cs ! i)) xs) = (\<Sum>i = 0..<length cs. length (cs ! i))"
    using assms by (simp add: sum_list_distinct_conv_sum_set)
  also have "\<dots> = sum_list (map length cs)"
    by (simp add: sum_list_sum_nth)
  finally show ?thesis .
qed

lemma laid_tiled:
  assumes l: "laid p up cs" and k: "k < length cs"
  shows "pos p cs 0 = up" "pos p cs (Suc k) = pos p cs k + plen p cs k" "up \<le> pos p cs k"
proof -
  note d = laidD [OF l] and ph = phys_perm [of p "length cs"]
  let ?ph = "phys p (length cs)" and ?g = "\<lambda>i. length (cs ! i)"
  have srt: "sorted_wrt (\<lambda>a b. slot_of p a + ?g a \<le> slot_of p b) ?ph"
  proof (unfold sorted_wrt_iff_nth_less, intro allI impI)
    fix a b assume ab: "a < b" "b < length ?ph"
    have n: "?ph ! a < length cs" "?ph ! b < length cs" using ab ph nth_mem [of _ ?ph] by auto
    have "slot_of p (?ph ! a) \<le> slot_of p (?ph ! b)"
      using sorted_nth_mono [OF phys_sorted [of p "length cs"], of a b] ab by simp
    moreover have "?ph ! a \<noteq> ?ph ! b" using ab ph(2) by (simp add: nth_eq_iff_index_eq)
    ultimately show "slot_of p (?ph ! a) + ?g (?ph ! a) \<le> slot_of p (?ph ! b)"
      using laid_disjointD [OF l n] laid_cellD(1) [OF l n(2)] by (cases "cs ! (?ph ! b)") auto
  qed
  have rng: "\<forall>x\<in>set ?ph. up \<le> slot_of p x \<and> slot_of p x + ?g x \<le> PAGE_SIZE"
    using ph laid_cellD(2,3) [OF l] by auto
  have sum: "up + sum_list (map ?g ?ph) = PAGE_SIZE"
    using d(2) sum_map_perm [OF ph(3,2)] by simp
  have eq: "slot_of p (?ph ! j) = up + sum_list (map ?g (take j ?ph))" if "j < length cs" for j
    using tiles [OF srt rng sum] that ph by simp
  show "pos p cs 0 = up" using eq [of 0] k by (force simp: pos_def)
  show "up \<le> pos p cs k" using eq [OF k] k by (simp add: pos_def)
  show "pos p cs (Suc k) = pos p cs k + plen p cs k"
  proof (cases "Suc k < length cs")
    case True
    thus ?thesis using eq [OF k] eq [OF True] ph by (simp add: pos_def plen_def take_Suc_conv_app_nth)
  next
    case False
    hence "?ph = take k ?ph @ [?ph ! k]" using k ph take_Suc_conv_app_nth [of k ?ph] by simp
    hence "sum_list (map ?g ?ph) = sum_list (map ?g (take k ?ph)) + ?g (?ph ! k)"
      by (metis (no_types, lifting) list.simps(8,9) map_append sum_list.Nil sum_list_append sum_list_simps(2) add.right_neutral)
    thus ?thesis using False k eq [OF k] sum by (simp add: pos_def plen_def)
  qed
qed

lemma pos_last: "pos p cs (length cs) = PAGE_SIZE"
  by (simp add: pos_def)

section \<open>The compaction loop\<close>

definition compact_step :: "(nat \<Rightarrow> nat \<times> nat) \<Rightarrow> (nat \<Rightarrow> nat option) \<Rightarrow> bytes \<times> nat \<Rightarrow> nat \<Rightarrow> (bytes \<times> nat) result" where
  "compact_step ext out = (\<lambda>(page, destination) k.
    case out k of
      None \<Rightarrow> Inr (page, destination)
    | Some output \<Rightarrow>
        let (start, len) = ext k; destination = destination - len in
        rbind (copy_within page start destination len) (\<lambda>page.
        rbind (put_u16 page (HEADER_SIZE + output * 2) (of_nat destination)) (\<lambda>page.
        Inr (page, destination))))"

definition dst :: "bytes \<Rightarrow> bytes list \<Rightarrow> (nat \<Rightarrow> nat option) \<Rightarrow> nat \<Rightarrow> nat" where
  "dst p cs out k = PAGE_SIZE - (\<Sum>j = k..<length cs. if out j = None then 0 else plen p cs j)"

lemma dst_facts:
  assumes l: "laid p up cs" and k: "k \<le> length cs"
  shows "(\<Sum>j = k..<length cs. if out j = None then 0 else plen p cs j) + pos p cs k \<le> PAGE_SIZE"
  using k
proof (induction "length cs - k" arbitrary: k)
  case 0
  thus ?case by (simp add: pos_def)
next
  case (Suc d)
  hence k: "k < length cs" and d: "d = length cs - Suc k" by simp_all
  show ?case
    using Suc.hyps(1) [OF d] k laid_tiled(2) [OF l k]
    by (auto simp: sum.atLeast_Suc_lessThan)
qed

lemma dst_step:
  assumes l: "laid p up cs" and k: "k < length cs"
  shows "out k = None \<Longrightarrow> dst p cs out (Suc k) = dst p cs out k"
    "out k \<noteq> None \<Longrightarrow> dst p cs out (Suc k) = dst p cs out k + plen p cs k"
  using k dst_facts [OF l, of k out] by (auto simp: dst_def sum.atLeast_Suc_lessThan)

lemma dst_ge_pos: "laid p up cs \<Longrightarrow> k \<le> length cs \<Longrightarrow> pos p cs k \<le> dst p cs out k"
  using dst_facts [of p up cs k out] by (simp add: dst_def)

lemma dst_le: "dst p cs out k \<le> PAGE_SIZE"
  by (simp add: dst_def)

lemma dst_mono:
  assumes l: "laid p up cs" and jk: "j \<le> k" "k \<le> length cs"
  shows "dst p cs out j \<le> dst p cs out k"
  using jk
proof (induction rule: dec_induct)
  case (step n)
  have "dst p cs out n \<le> dst p cs out (Suc n)"
    using dst_step [OF l, of n out] step by (cases "out n") auto
  thus ?case using step by simp
qed simp

lemma pos_cell:
  assumes l: "laid p up cs" and k: "k < length cs"
  shows "rd p (pos p cs k) (plen p cs k) = cs ! (phys p (length cs) ! k)"
    "pos p cs k + plen p cs k \<le> PAGE_SIZE" "plen p cs k \<noteq> 0"
proof -
  have "phys p (length cs) ! k < length cs"
    using phys_perm [of p "length cs"] k nth_mem [of k "phys p (length cs)"] by auto
  from laid_cellD [OF l this] show "rd p (pos p cs k) (plen p cs k) = cs ! (phys p (length cs) ! k)"
    "pos p cs k + plen p cs k \<le> PAGE_SIZE" "plen p cs k \<noteq> 0"
    using k by (auto simp: pos_def plen_def)
qed

definition compacted :: "bytes \<Rightarrow> bytes list \<Rightarrow> (nat \<Rightarrow> nat option) \<Rightarrow> nat \<Rightarrow> bytes \<Rightarrow> bool" where
  "compacted p cs out k page \<longleftrightarrow> length page = PAGE_SIZE
    \<and> (\<forall>i<HEADER_SIZE. page ! i = p ! i)
    \<and> (\<forall>i. HEADER_SIZE + 2 * length cs \<le> i \<and> i < pos p cs k \<longrightarrow> page ! i = p ! i)
    \<and> (\<forall>j q. k \<le> j \<and> j < length cs \<and> out j = Some q \<longrightarrow> slot_of page q = dst p cs out j
        \<and> rd page (dst p cs out j) (plen p cs j) = cs ! (phys p (length cs) ! j))"

lemma compact_step_ok:
  assumes l: "laid p up cs" and k: "k < length cs" and e: "ext k = (pos p cs k, plen p cs k)"
    and outs: "\<And>j q. j < length cs \<Longrightarrow> out j = Some q \<Longrightarrow> q < length cs"
    and inj: "\<And>i j q. i < length cs \<Longrightarrow> j < length cs \<Longrightarrow> out i = Some q \<Longrightarrow> out j = Some q \<Longrightarrow> i = j"
    and c: "compacted p cs out (Suc k) page"
  shows "\<exists>page'. compact_step ext out (page, dst p cs out (Suc k)) k = Inr (page', dst p cs out k)
    \<and> compacted p cs out k page'"
proof (cases "out k")
  case None
  moreover have "pos p cs k \<le> pos p cs (Suc k)" using laid_tiled(2) [OF l k] by simp
  moreover have "Suc k \<le> j" if "k \<le> j" "out j = Some q" for j q
    using None that by (cases "j = k") auto
  ultimately have "compacted p cs out k page"
    using c unfolding compacted_def by (meson order_less_le_trans)
  thus ?thesis
    using None dst_step(1) [OF l k, of out] by (simp add: compact_step_def)
next
  case (Some q)
  note d = laidD [OF l] and pc = pos_cell [OF l k]
  let ?low = "HEADER_SIZE + 2 * length cs" and ?n = "plen p cs k" and ?d = "dst p cs out k"
  have q: "q < length cs" using outs [OF k Some] .
  have dk: "dst p cs out (Suc k) = ?d + ?n" using dst_step(2) [OF l k] Some by simp
  have b: "pos p cs k \<le> ?d" "?d + ?n \<le> PAGE_SIZE" "up \<le> pos p cs k" "?low \<le> up"
    "HEADER_SIZE + q * 2 + 2 \<le> ?low" "?low \<le> PAGE_SIZE"
    using dst_ge_pos [OF l, of k out] k dst_le [of p cs out "Suc k"] dk laid_tiled(3) [OF l k] d q by auto
  let ?p1 = "wr page ?d (rd page (pos p cs k) ?n)"
  let ?p2 = "wr ?p1 (HEADER_SIZE + q * 2) (to_le_bytes (of_nat ?d :: 16 word))"
  have len: "length page = PAGE_SIZE" "length ?p1 = PAGE_SIZE" "length ?p2 = PAGE_SIZE"
    using c b pc by (auto simp: compacted_def)
  have old: "rd page (pos p cs k) ?n = cs ! (phys p (length cs) ! k)"
  proof -
    have "rd page (pos p cs k) ?n = rd p (pos p cs k) ?n"
      using c b pc(2,3) d(1) laid_tiled(2) [OF l k] by (intro rd_cong) (auto simp: compacted_def)
    thus ?thesis using pc by simp
  qed
  have eq: "compact_step ext out (page, dst p cs out (Suc k)) k = Inr (?p2, ?d)"
    using Some b pc by (simp add: compact_step_def e dk copy_within_in put_u16_in Let_def)
  have high: "rd ?p2 a m = rd page a m" if "?d + ?n \<le> a" "a + m \<le> PAGE_SIZE" for a m
    using that b len pc by (simp add: rd_wr_disjoint)
  have here: "rd ?p2 ?d ?n = cs ! (phys p (length cs) ! k)"
    using b len pc old by (simp add: rd_wr_disjoint rd_wr_same plen_def)
  have slots: "slot_of ?p2 j = (if j = q then ?d else slot_of page j)" if "j < length cs" for j
  proof (cases "j = q")
    case True
    thus ?thesis using b len by (simp add: slot_of_put)
  next
    case False
    hence "HEADER_SIZE + 2 * j + 2 \<le> HEADER_SIZE + q * 2 \<or> HEADER_SIZE + q * 2 + 2 \<le> HEADER_SIZE + 2 * j"
      by auto
    thus ?thesis using False that b len pc by (simp add: slot_of_wr)
  qed
  have "slot_of ?p2 r = dst p cs out j \<and> rd ?p2 (dst p cs out j) (plen p cs j) = cs ! (phys p (length cs) ! j)"
    if j: "k \<le> j" "j < length cs" "out j = Some r" for j r
  proof (cases "j = k")
    case True
    thus ?thesis using Some j slots [OF q] here by simp
  next
    case False
    hence jk: "Suc k \<le> j" using j by simp
    have "r \<noteq> q" using inj [OF j(2) k j(3)] False Some by blast
    have "dst p cs out (Suc j) = dst p cs out j + plen p cs j" using dst_step(2) [OF l j(2)] j by simp
    hence "dst p cs out j + plen p cs j \<le> PAGE_SIZE" using dst_le [of p cs out "Suc j"] by simp
    moreover have "?d + ?n \<le> dst p cs out j"
      using dst_mono [OF l jk, of out] j dk by simp
    ultimately show ?thesis
      using c jk j slots [OF outs [OF j(2,3)]] \<open>r \<noteq> q\<close> high by (auto simp: compacted_def)
  qed
  moreover have "?p2 ! i = page ! i" if "i < HEADER_SIZE \<or> ?low \<le> i \<and> i < pos p cs k" for i
    using that b len pc by (auto simp: nth_wr)
  moreover have "pos p cs k \<le> pos p cs (Suc k)" using laid_tiled(2) [OF l k] by simp
  ultimately have "compacted p cs out k ?p2"
    using c len unfolding compacted_def by auto
  thus ?thesis using eq by blast
qed

lemma compact_loop:
  assumes l: "laid p up cs" and e: "\<And>k. k < length cs \<Longrightarrow> ext k = (pos p cs k, plen p cs k)"
    and outs: "\<And>j q. j < length cs \<Longrightarrow> out j = Some q \<Longrightarrow> q < length cs"
    and inj: "\<And>i j q. i < length cs \<Longrightarrow> j < length cs \<Longrightarrow> out i = Some q \<Longrightarrow> out j = Some q \<Longrightarrow> i = j"
    and k: "k \<le> length cs"
  shows "\<exists>page. rfold (compact_step ext out) (p, PAGE_SIZE) (rev [k..<length cs]) = Inr (page, dst p cs out k)
    \<and> compacted p cs out k page"
  using k
proof (induction "length cs - k" arbitrary: k)
  case 0
  thus ?case using laidD [OF l] by (auto simp: compacted_def dst_def)
next
  case (Suc d)
  hence k: "k < length cs" and d: "d = length cs - Suc k" by simp_all
  from Suc.hyps(1) [OF d] k obtain page where
    page: "rfold (compact_step ext out) (p, PAGE_SIZE) (rev [Suc k..<length cs]) = Inr (page, dst p cs out (Suc k))"
    "compacted p cs out (Suc k) page" by auto
  have "\<exists>page'. compact_step ext out (page, dst p cs out (Suc k)) k = Inr (page', dst p cs out k)
    \<and> compacted p cs out k page'"
    by (rule compact_step_ok [where ext = ext, OF l k e [OF k] _ _ page(2)]) (blast intro: outs inj)+
  thus ?case
    using k page(1) by (auto simp: upt_conv_Cons rfold_append)
qed

text \<open>
  A renumbering keeps some slots: \<open>ren\<close> maps a kept slot to its new index and \<open>orig\<close> maps
  the new index back.
\<close>

definition renumbers :: "nat \<Rightarrow> nat \<Rightarrow> (nat \<Rightarrow> nat option) \<Rightarrow> (nat \<Rightarrow> nat) \<Rightarrow> bool" where
  "renumbers n m ren orig \<longleftrightarrow>
    (\<forall>q<m. orig q < n \<and> ren (orig q) = Some q) \<and> (\<forall>i<n. \<forall>q. ren i = Some q \<longrightarrow> q < m \<and> orig q = i)"

lemma phys_index:
  assumes "i < n"
  obtains k where "k < n" "phys p n ! k = i"
proof -
  have "i \<in> set (phys p n)" using assms phys_perm by simp
  then obtain k where "k < length (phys p n)" "phys p n ! k = i" by (metis in_set_conv_nth)
  thus thesis using that phys_perm by simp
qed

lemma kept_sum:
  assumes l: "laid p up cs" and r: "renumbers (length cs) m ren orig"
  defines "out \<equiv> \<lambda>k. ren (phys p (length cs) ! k)"
  shows "dst p cs out 0 + sum_list (map (\<lambda>q. length (cs ! orig q)) [0..<m]) = PAGE_SIZE"
proof -
  let ?n = "length cs" and ?ph = "phys p (length cs)"
  note ph = phys_perm [of p ?n]
  have bij: "bij_betw (\<lambda>k. the (out k)) {k \<in> {0..<?n}. out k \<noteq> None} {0..<m}"
  proof (rule bij_betwI')
    fix j k assume jk: "j \<in> {k \<in> {0..<?n}. out k \<noteq> None}" "k \<in> {k \<in> {0..<?n}. out k \<noteq> None}"
    have "?ph ! j < ?n" "?ph ! k < ?n" using jk ph nth_mem [of _ ?ph] by auto
    hence "the (out j) = the (out k) \<longleftrightarrow> ?ph ! j = ?ph ! k"
      using jk r by (auto simp: out_def renumbers_def) metis
    also have "\<dots> \<longleftrightarrow> j = k" using jk ph by (simp add: nth_eq_iff_index_eq)
    finally show "the (out j) = the (out k) \<longleftrightarrow> j = k" .
  next
    fix k assume k: "k \<in> {k \<in> {0..<?n}. out k \<noteq> None}"
    have "?ph ! k < ?n" using k ph nth_mem [of k ?ph] by auto
    thus "the (out k) \<in> {0..<m}" using k r by (auto simp: out_def renumbers_def)
  next
    fix q assume "q \<in> {0..<m}"
    hence q: "orig q < ?n" "ren (orig q) = Some q" using r by (auto simp: renumbers_def)
    obtain k where "k < ?n" "?ph ! k = orig q" using phys_index [OF q(1)] by blast
    thus "\<exists>k\<in>{k \<in> {0..<?n}. out k \<noteq> None}. q = the (out k)"
      using q by (intro bexI [of _ k]) (auto simp: out_def)
  qed
  have "(\<Sum>k = 0..<?n. if out k = None then 0 else plen p cs k)
      = (\<Sum>k\<in>{k \<in> {0..<?n}. out k \<noteq> None}. plen p cs k)"
    by (rule sum.mono_neutral_cong_right) auto
  also have "\<dots> = (\<Sum>k\<in>{k \<in> {0..<?n}. out k \<noteq> None}. length (cs ! orig (the (out k))))"
  proof (rule sum.cong)
    fix k assume k: "k \<in> {k \<in> {0..<?n}. out k \<noteq> None}"
    have "?ph ! k < ?n" using k ph nth_mem [of k ?ph] by auto
    thus "plen p cs k = length (cs ! orig (the (out k)))"
      using k r by (auto simp: out_def renumbers_def plen_def)
  qed simp
  also have "\<dots> = (\<Sum>q\<in>{0..<m}. length (cs ! orig q))"
    by (rule sum.reindex_bij_betw [OF bij])
  finally have "(\<Sum>k = 0..<?n. if out k = None then 0 else plen p cs k)
    = sum_list (map (\<lambda>q. length (cs ! orig q)) [0..<m])"
    by (simp add: sum_list_distinct_conv_sum_set)
  thus ?thesis using dst_facts [OF l, of 0 out] by (simp add: dst_def)
qed

lemma laid_compacted:
  assumes l: "laid p up cs" and m: "m < length cs" and r: "renumbers (length cs) m ren orig"
  defines "out \<equiv> \<lambda>k. ren (phys p (length cs) ! k)"
  assumes c: "compacted p cs out 0 page"
  defines "low \<equiv> HEADER_SIZE + 2 * length cs" and "low' \<equiv> HEADER_SIZE + 2 * m"
  defines "d \<equiv> dst p cs out 0"
  defines "q1 \<equiv> wr page low' (replicate (low - low') 0)"
  defines "q2 \<equiv> wr q1 up (replicate (d - up) 0)"
  shows "laid q2 d (map (\<lambda>q. cs ! orig q) [0..<m])" "up \<le> d" "\<And>i. i < HEADER_SIZE \<Longrightarrow> q2 ! i = p ! i"
    "length q2 = PAGE_SIZE"
proof -
  let ?n = "length cs" and ?ph = "phys p (length cs)"
  note dd = laidD [OF l] and ph = phys_perm [of p ?n]
  have n0: "0 < ?n" using m by linarith
  have p0: "pos p cs 0 = up" using laid_tiled(1) [OF l n0] .
  show upd: "up \<le> d" using dst_ge_pos [OF l, of 0 out] p0 by (simp add: d_def)
  have d: "d \<le> PAGE_SIZE" by (simp add: d_def dst_le)
  have b: "low' \<le> low" "low \<le> up" "up \<le> PAGE_SIZE" "HEADER_SIZE \<le> low'"
    using dd m by (auto simp: low_def low'_def)
  have pl: "length page = PAGE_SIZE" using c by (simp add: compacted_def)
  have len: "length q1 = PAGE_SIZE" "length q2 = PAGE_SIZE"
    using pl b upd d by (simp_all add: q1_def q2_def)
  show "length q2 = PAGE_SIZE" by fact
  have nth: "q2 ! i = (if low' \<le> i \<and> i < low \<or> up \<le> i \<and> i < d then 0 else page ! i)" if "i < PAGE_SIZE" for i
    using that pl b upd d len by (auto simp: q2_def q1_def nth_wr)
  show "q2 ! i = p ! i" if "i < HEADER_SIZE" for i
    using that c b nth [of i] by (auto simp: compacted_def)
  have cell: "\<exists>k<?n. ?ph ! k = orig q \<and> out k = Some q \<and> slot_of q2 q = dst p cs out k
      \<and> plen p cs k = length (cs ! orig q) \<and> rd q2 (slot_of q2 q) (length (cs ! orig q)) = cs ! orig q
      \<and> d \<le> slot_of q2 q \<and> slot_of q2 q + length (cs ! orig q) = dst p cs out (Suc k)"
    if q: "q < m" for q
  proof -
    have o: "orig q < ?n" "ren (orig q) = Some q" using r q by (auto simp: renumbers_def)
    obtain k where k: "k < ?n" "?ph ! k = orig q" using phys_index [OF o(1)] by blast
    have out: "out k = Some q" using k o by (simp add: out_def)
    have ln: "plen p cs k = length (cs ! orig q)" using k by (simp add: plen_def)
    have pg: "slot_of page q = dst p cs out k" "rd page (dst p cs out k) (plen p cs k) = cs ! orig q"
      using c k out by (auto simp: compacted_def)
    have nx: "dst p cs out (Suc k) = dst p cs out k + plen p cs k" using dst_step(2) [OF l k(1)] out by simp
    have dk: "d \<le> dst p cs out k" "dst p cs out k + plen p cs k \<le> PAGE_SIZE"
      using dst_mono [OF l, of 0 k out] k nx dst_le [of p cs out "Suc k"] by (auto simp: d_def)
    have sl: "slot_of q2 q = slot_of page q"
      using q b pl upd d len by (simp add: q2_def q1_def slot_of_wr low'_def)
    have "rd q2 (dst p cs out k) (plen p cs k) = rd page (dst p cs out k) (plen p cs k)"
      using dk b upd len pl nth by (intro rd_cong) auto
    thus ?thesis using k out ln pg nx dk sl by auto
  qed
  let ?cs = "map (\<lambda>q. cs ! orig q) [0..<m]"
  have pla: "list_all (placed q2 d) (records q2 ?cs)"
  proof (unfold list_all_length, intro allI impI)
    fix q assume "q < length (records q2 ?cs)"
    hence q: "q < m" by simp
    obtain k where k: "k < ?n" "plen p cs k = length (cs ! orig q)"
      "rd q2 (slot_of q2 q) (length (cs ! orig q)) = cs ! orig q" "d \<le> slot_of q2 q"
      "slot_of q2 q + length (cs ! orig q) = dst p cs out (Suc k)" using cell [OF q] by blast
    thus "placed q2 d (records q2 ?cs ! q)"
      using q pos_cell(3) [OF l k(1)] dst_le [of p cs out "Suc k"] by auto
  qed
  have apt: "sorted_wrt apart (records q2 ?cs)"
  proof (unfold sorted_wrt_iff_nth_less, intro allI impI)
    fix a b assume ab: "a < b" "b < length (records q2 ?cs)"
    hence m: "a < m" "b < m" by auto
    obtain j where j: "j < ?n" "out j = Some a" "slot_of q2 a = dst p cs out j"
      "slot_of q2 a + length (cs ! orig a) = dst p cs out (Suc j)" using cell [OF m(1)] by blast
    obtain k where k: "k < ?n" "out k = Some b" "slot_of q2 b = dst p cs out k"
      "slot_of q2 b + length (cs ! orig b) = dst p cs out (Suc k)" using cell [OF m(2)] by blast
    have "Suc j \<le> k \<or> Suc k \<le> j" using ab j k by (cases "j = k") auto
    thus "apart (records q2 ?cs ! a) (records q2 ?cs ! b)"
      using m j k dst_mono [OF l, of "Suc j" k out] dst_mono [OF l, of "Suc k" j out] by auto
  qed
  have "d + sum_list (map length ?cs) = PAGE_SIZE"
    using kept_sum [OF l r] by (simp add: d_def out_def comp_def)
  moreover have "q2 ! k = 0" if "low' \<le> k" "k < d" for k
    using that nth [of k] d c laid_zeroD [OF l, of k] b p0 by (auto simp: compacted_def low_def)
  ultimately show "laid q2 d ?cs"
    using len pla apt b upd by (auto simp: laid_def low'_def)
qed

lemma finish_compact:
  assumes s: "slotted p cs" and m: "0 < m" "m < length cs" and r: "renumbers (length cs) m ren orig"
  defines "out \<equiv> \<lambda>k. ren (phys p (length cs) ! k)"
  assumes c: "compacted p cs out 0 page"
  defines "low' \<equiv> HEADER_SIZE + m * 2" and "d \<equiv> dst p cs out 0"
  shows "\<exists>p'. rbind (zero page low' (lower p - low')) (\<lambda>page.
      rbind (zero page (upper p) (d - upper p)) (\<lambda>page.
      rbind (put_u16 page ITEM_COUNT (of_nat m)) (\<lambda>page.
      rbind (put_u16 page LOWER (of_nat low')) (\<lambda>page.
      rbind (put_u16 page UPPER (of_nat d)) f)))) = f p'
    \<and> slotted p' (map (\<lambda>q. cs ! orig q) [0..<m]) \<and> tag_of p' = tag_of p \<and> upper p' = d"
proof -
  have l: "laid p (upper p) cs" and low: "lower p = HEADER_SIZE + 2 * length cs"
    using s by (simp_all add: slotted_def)
  note dd = laidD [OF l]
  let ?q1 = "wr page low' (replicate (lower p - low') 0)"
  let ?q2 = "wr ?q1 (upper p) (replicate (d - upper p) 0)"
  note lc = laid_compacted [OF l m(2) r c [unfolded out_def]]
  have e: "HEADER_SIZE + 2 * m = low'" by (simp add: low'_def)
  have laid: "laid ?q2 d (map (\<lambda>q. cs ! orig q) [0..<m])" and up: "upper p \<le> d"
    and hd: "\<And>i. i < HEADER_SIZE \<Longrightarrow> ?q2 ! i = p ! i" and len: "length ?q2 = PAGE_SIZE"
    using lc unfolding low [symmetric] out_def [symmetric] d_def [symmetric] e by blast+
  have b: "low' + (lower p - low') \<le> PAGE_SIZE" "upper p + (d - upper p) \<le> PAGE_SIZE"
    using dd low m up dst_le [of p cs out 0] by (auto simp: low'_def d_def)
  have "slotted (with_counts ?q2 m low' d) (map (\<lambda>q. cs ! orig q) [0..<m])"
    "tag_of (with_counts ?q2 m low' d) = tag_of ?q2" "upper (with_counts ?q2 m low' d) = d"
    by (rule slotted_with_counts [OF laid]; simp add: low'_def)+
  moreover have "tag_of ?q2 = tag_of p" using header_frame(1) [OF dd(1) len hd] .
  moreover have "rbind (zero page low' (lower p - low')) (\<lambda>page.
      rbind (zero page (upper p) (d - upper p)) (\<lambda>page.
      rbind (put_u16 page ITEM_COUNT (of_nat m)) (\<lambda>page.
      rbind (put_u16 page LOWER (of_nat low')) (\<lambda>page.
      rbind (put_u16 page UPPER (of_nat d)) f)))) = f (with_counts ?q2 m low' d)"
    by (simp only: zero_in [OF b(1)] zero_in [OF b(2)] rbind.simps put_counts)
  ultimately show ?thesis by metis
qed

section \<open>Fixed-size records\<close>

lemma fixed_pos:
  assumes l: "laid p up cs" and w: "\<forall>c\<in>set cs. length c = w" and k: "k < length cs"
  shows "pos p cs k = up + k * w" "plen p cs k = w"
proof -
  have pl: "plen p cs j = w" if "j < length cs" for j
  proof -
    have "phys p (length cs) ! j < length cs"
      using that phys_perm [of p "length cs"] nth_mem [of j "phys p (length cs)"] by auto
    thus ?thesis using w by (simp add: plen_def)
  qed
  show "plen p cs k = w" by (rule pl [OF k])
  show "pos p cs k = up + k * w"
    using k
  proof (induction k)
    case 0
    thus ?case using laid_tiled(1) [OF l 0] by simp
  next
    case (Suc k)
    thus ?case using laid_tiled(2) [OF l, of k] pl [of k] by simp
  qed
qed

lemma fixed_sum: "\<forall>c\<in>set cs. length c = w \<Longrightarrow> sum_list (map length cs) = length cs * w"
  by (induction cs) auto

lemma fixed_positions_loop:
  assumes l: "laid p up cs" and w: "\<forall>c\<in>set cs. length c = w"
    and h: "h_item_count h = length cs" "h_lower h = HEADER_SIZE + 2 * length cs" "h_upper h = up"
    and t: "t \<le> length cs"
  defines "ph \<equiv> phys p (length cs)"
  shows "rfold (fixed_position p h w) (replicate (length cs) (- 1)) [0..<t]
    = Inr (map (\<lambda>k. if ph ! k < t then of_nat (ph ! k) else - 1) [0..<length cs])"
  using t
proof (induction t)
  case 0
  show ?case by (simp add: map_replicate_const)
next
  case (Suc t)
  let ?ps = "\<lambda>t. map (\<lambda>k. if ph ! k < t then of_nat (ph ! k) else - 1 :: 16 word) [0..<length cs]"
  have tn: "t < length cs" using Suc.prems by simp
  obtain k where k: "k < length cs" "ph ! k = t" using phys_index [OF tn] unfolding ph_def by blast
  have w0: "0 < w" using laid_cellD(1) [OF l tn] w nth_mem [OF tn] by auto
  have st: "slot_of p t = up + k * w"
    using fixed_pos(1) [OF l w k(1)] k by (simp add: pos_def ph_def)
  have "fixed_position p h w (?ps t) t = Inr ((?ps t)[k := of_nat t])"
    using slot_start_laid [OF l tn h(1,2)] st w0 k h by (simp add: fixed_position_def usize_checked_sub_def Let_def)
  also have "(?ps t)[k := of_nat t] = ?ps (Suc t)"
  proof (rule nth_equalityI)
    fix j assume "j < length ((?ps t)[k := of_nat t])"
    hence j: "j < length cs" by simp
    have "ph ! j = t \<longleftrightarrow> j = k"
      using j k phys_perm [of p "length cs"] by (auto simp: ph_def nth_eq_iff_index_eq)
    thus "(?ps t)[k := of_nat t] ! j = ?ps (Suc t) ! j"
      using j k by (auto simp: nth_list_update less_Suc_eq)
  qed simp
  finally show ?case using Suc by (simp add: rfold_append)
qed

lemma fixed_positions_laid:
  assumes l: "laid p up cs" and w: "\<forall>c\<in>set cs. length c = w" and ne: "cs \<noteq> []"
    and h: "h_item_count h = length cs" "h_lower h = HEADER_SIZE + 2 * length cs" "h_upper h = up"
  shows "fixed_positions p h w = Inr (map of_nat (phys p (length cs)))"
proof -
  note d = laidD [OF l] and ph = phys_perm [of p "length cs"]
  have w0: "w \<noteq> 0" using laid_cellD(1) [OF l, of 0] w ne by (cases cs) auto
  have pay: "up + length cs * w = PAGE_SIZE" using d(2) fixed_sum [OF w] by simp
  hence us: "length cs * w \<le> usize_max" by (intro usize_page) simp
  have "(map (\<lambda>k. if phys p (length cs) ! k < length cs then of_nat (phys p (length cs) ! k) else - 1 :: 16 word)
      [0..<length cs]) = map of_nat (phys p (length cs))"
    using ph by (intro nth_equalityI) (auto dest: nth_mem)
  note loop = fixed_positions_loop [OF l w h order_refl, unfolded this]
  have "of_nat i \<noteq> (- 1 :: 16 word)" if "i < length cs" for i
  proof
    have i: "i < 4096" using that d(5) by (simp add: MAX_SLOT_COUNT_def layout_consts)
    assume "of_nat i = (- 1 :: 16 word)"
    hence "unat (of_nat i :: 16 word) = unat (- 1 :: 16 word)" by simp
    thus False using i by (simp add: unat_of_nat take_bit_eq_mod unsigned_minus_1_eq_mask mask_eq_exp_minus_1)
  qed
  hence "- 1 \<notin> set (map of_nat (phys p (length cs)) :: 16 word list)" using ph by force
  thus ?thesis
    using w0 us pay h d(5) loop by (simp add: fixed_positions_def usize_checked_add_def)
qed

lemma unat_phys:
  assumes "laid p up cs" "k < length cs"
  shows "unat (map of_nat (phys p (length cs)) ! k :: 16 word) = phys p (length cs) ! k"
proof -
  have "phys p (length cs) ! k < length cs"
    using phys_perm [of p "length cs"] assms(2) nth_mem [of k "phys p (length cs)"] by auto
  moreover have "length cs \<le> PAGE_SIZE" using laidD [OF assms(1)] by simp
  ultimately show ?thesis using assms(2) phys_perm [of p "length cs"] by simp
qed

lemma map_nth_take: "m \<le> length cs \<Longrightarrow> map (\<lambda>q. cs ! q) [0..<m] = take m cs"
  by (intro nth_equalityI) auto

lemma map_nth_remove_range:
  assumes "start + cnt \<le> length cs"
  shows "map (\<lambda>q. cs ! (if q < start then q else q + cnt)) [0..<length cs - cnt]
    = remove_range start cnt cs"
  using assms by (intro nth_equalityI) (auto simp: remove_range_def nth_append ac_simps)

lemma renumbers_take: "m \<le> n \<Longrightarrow> renumbers n m (\<lambda>i. if i < m then Some i else None) (\<lambda>q. q)"
  by (auto simp: renumbers_def)

lemma renumbers_remove_range:
  "start + cnt \<le> n \<Longrightarrow> renumbers n (n - cnt)
    (\<lambda>i. if i < start \<or> i \<ge> start + cnt then Some (if i < start then i else i - cnt) else None)
    (\<lambda>q. if q < start then q else q + cnt)"
  by (auto simp: renumbers_def)

lemma compact_all:
  assumes l: "laid p up cs" and m: "m \<le> length cs" and r: "renumbers (length cs) m ren orig"
    and e: "\<And>k. k < length cs \<Longrightarrow> ext k = (pos p cs k, plen p cs k)"
    and eq: "\<And>k acc. k < length cs \<Longrightarrow> step acc k = compact_step ext out acc k"
    and o: "out = (\<lambda>k. ren (phys p (length cs) ! k))"
  shows "\<exists>page. rfold step (p, PAGE_SIZE) (rev [0..<length cs]) = Inr (page, dst p cs out 0)
    \<and> compacted p cs out 0 page"
proof -
  note ph = phys_perm [of p "length cs"]
  have in_n: "phys p (length cs) ! j < length cs" if "j < length cs" for j
    using that ph nth_mem [of j "phys p (length cs)"] by auto
  have ren: "q < m" "orig q = i" if "i < length cs" "ren i = Some q" for i q
    using r that by (auto simp: renumbers_def)
  have step: "rfold step acc xs = rfold (compact_step ext out) acc xs" if "set xs \<subseteq> {0..<length cs}" for acc xs
    using that
  proof (induction xs arbitrary: acc)
    case (Cons x xs)
    hence "step acc x = compact_step ext out acc x" using eq by auto
    thus ?case using Cons by (cases "compact_step ext out acc x") auto
  qed simp
  have "\<exists>page. rfold (compact_step ext out) (p, PAGE_SIZE) (rev [0..<length cs]) = Inr (page, dst p cs out 0)
    \<and> compacted p cs out 0 page"
  proof (rule compact_loop [where ext = ext and out = out, OF l e])
    fix j q assume "j < length cs" "out j = Some q"
    hence "q < m" using ren [OF in_n] by (simp add: o)
    thus "q < length cs" using m by simp
  next
    fix i j q assume ij: "i < length cs" "j < length cs" "out i = Some q" "out j = Some q"
    have "orig q = phys p (length cs) ! i" "orig q = phys p (length cs) ! j"
      using ren(2) [OF in_n, of i q] ren(2) [OF in_n, of j q] ij by (simp_all add: o)
    thus "i = j" using ij ph by (simp add: nth_eq_iff_index_eq)
  qed simp_all
  thus ?thesis using step [of "rev [0..<length cs]"] by simp
qed

theorem truncate_fixed_slotted:
  assumes s: "slotted p cs" and w: "\<forall>c\<in>set cs. length c = w" and k: "0 < keep" "keep < length cs"
  shows "\<exists>p' h'. truncate_fixed p (raw_header p) keep w = Inr (p', h')
    \<and> slotted p' (take keep cs) \<and> tag_of p' = tag_of p \<and> h' = raw_header p'"
proof -
  have l: "laid p (upper p) cs" using s by (simp add: slotted_def)
  note h = raw_header_slotted [OF s]
  let ?h = "raw_header p" and ?n = "length cs" and ?ph = "phys p (length cs)"
  let ?ren = "\<lambda>i. if i < keep then Some i else None"
  let ?out = "\<lambda>k. ?ren (?ph ! k)" and ?ps = "map of_nat (phys p (length cs)) :: 16 word list"
  have ne: "cs \<noteq> []" using k by auto
  have w0: "w \<noteq> 0" using laid_cellD(1) [OF l k(2)] w nth_mem [OF k(2)] by auto
  have r: "renumbers ?n keep ?ren (\<lambda>q. q)" using k by (intro renumbers_take) simp
  have fp: "fixed_positions p ?h w = Inr ?ps"
    using fixed_positions_laid [OF l w ne] h by simp
  have step: "truncate_fixed_step ?h keep w ?ps acc k
      = compact_step (\<lambda>k. (upper p + k * w, w)) ?out acc k" if "k < ?n" for acc k
    using unat_phys [OF l that] h
    by (cases acc) (simp add: truncate_fixed_step_def compact_step_def Let_def)
  obtain page where page: "rfold (truncate_fixed_step ?h keep w ?ps) (p, PAGE_SIZE) (rev [0..<?n])
      = Inr (page, dst p cs ?out 0)" "compacted p cs ?out 0 page"
    using compact_all [OF l _ r _ step refl] k fixed_pos [OF l w] by auto
  from finish_compact [OF s k r page(2), of "\<lambda>page. Inr (page, \<lparr> h_item_count = keep, h_level = level p,
      h_lower = HEADER_SIZE + keep * 2, h_upper = dst p cs ?out 0 \<rparr>)"]
  obtain p' where p': "finish_truncate page ?h keep (dst p cs ?out 0) = Inr (p', \<lparr> h_item_count = keep,
      h_level = level p, h_lower = HEADER_SIZE + keep * 2, h_upper = dst p cs ?out 0 \<rparr>)"
    "slotted p' (take keep cs)" "tag_of p' = tag_of p" "upper p' = dst p cs ?out 0"
    using h k by (auto simp: finish_truncate_def map_nth_take raw_header_def Let_def)
  have "truncate_fixed p ?h keep w = finish_truncate page ?h keep (dst p cs ?out 0)"
    using k w0 h fp page(1) phys_perm(1) [of p ?n] by (simp add: truncate_fixed_def)
  moreover have "raw_header p' = \<lparr> h_item_count = keep,
      h_level = level p, h_lower = HEADER_SIZE + keep * 2, h_upper = dst p cs ?out 0 \<rparr>"
    using p' k by (simp add: raw_header_def slotted_def tag_of_def)
  ultimately show ?thesis using p' by auto
qed

theorem remove_fixed_range_slotted:
  assumes s: "slotted p cs" and w: "\<forall>c\<in>set cs. length c = w"
    and k: "0 < cnt" "start + cnt \<le> length cs" "cnt < length cs"
  shows "\<exists>p' h'. remove_fixed_range p (raw_header p) start cnt w = Inr (p', h')
    \<and> slotted p' (remove_range start cnt cs) \<and> tag_of p' = tag_of p \<and> h' = raw_header p'"
proof -
  have l: "laid p (upper p) cs" using s by (simp add: slotted_def)
  note h = raw_header_slotted [OF s]
  let ?h = "raw_header p" and ?n = "length cs" and ?ph = "phys p (length cs)" and ?m = "length cs - cnt"
  let ?ren = "\<lambda>i. if i < start \<or> i \<ge> start + cnt then Some (if i < start then i else i - cnt) else None"
  let ?orig = "\<lambda>q. if q < start then q else q + cnt"
  let ?out = "\<lambda>k. ?ren (?ph ! k)" and ?ps = "map of_nat (phys p (length cs)) :: 16 word list"
  have ne: "cs \<noteq> []" using k by auto
  have w0: "w \<noteq> 0" using laid_cellD(1) [OF l k(3)] w nth_mem [OF k(3)] by auto
  have r: "renumbers ?n ?m ?ren ?orig" using k by (intro renumbers_remove_range)
  have fp: "fixed_positions p ?h w = Inr ?ps"
    using fixed_positions_laid [OF l w ne] h by simp
  have us: "usize_checked_add start cnt = Some (start + cnt)"
    using k laidD(5) [OF l] by (simp add: usize_checked_add_def MAX_SLOT_COUNT_def PAGE_SIZE_def usize_max_def)
  have step: "remove_fixed_step ?h start (start + cnt) cnt w ?ps acc k
      = compact_step (\<lambda>k. (upper p + k * w, w)) ?out acc k" if "k < ?n" for acc k
    using unat_phys [OF l that] h
    by (cases acc) (simp add: remove_fixed_step_def compact_step_def Let_def)
  obtain page where page: "rfold (remove_fixed_step ?h start (start + cnt) cnt w ?ps) (p, PAGE_SIZE) (rev [0..<?n])
      = Inr (page, dst p cs ?out 0)" "compacted p cs ?out 0 page"
    using compact_all [OF l _ r _ step refl] k fixed_pos [OF l w] by auto
  have m: "0 < ?m" "?m < ?n" using k by auto
  let ?hd = "\<lparr> h_item_count = ?m, h_level = level p, h_lower = HEADER_SIZE + ?m * 2, h_upper = dst p cs ?out 0 \<rparr>"
  from finish_compact [OF s m r page(2), of "\<lambda>page. Inr (page, ?hd)"]
  obtain p' where p': "remove_fixed_range p ?h start cnt w = Inr (p', ?hd)"
    "slotted p' (remove_range start cnt cs)" "tag_of p' = tag_of p" "upper p' = dst p cs ?out 0"
    using h k w0 fp us page(1) phys_perm(1) [of p ?n] map_nth_remove_range [of start cnt cs]
    by (auto simp: remove_fixed_range_def Let_def raw_header_def simp del: of_nat_add of_nat_mult of_nat_diff)
  moreover have "raw_header p' = ?hd"
    using p' k by (simp add: raw_header_def slotted_def tag_of_def remove_range_def)
  ultimately show ?thesis by auto
qed

section \<open>Truncation of variable records\<close>

definition sorted_records :: "bytes \<Rightarrow> nat \<Rightarrow> (nat \<times> nat) list" where
  "sorted_records p n = sort_key fst (map (\<lambda>i. (slot_of p i, i)) [0..<n])"

lemma sorted_records_nth:
  assumes "k < n"
  shows "sorted_records p n ! k = (slot_of p (phys p n ! k), phys p n ! k)" "length (sorted_records p n) = n"
proof -
  show len: "length (sorted_records p n) = n" by (simp add: sorted_records_def)
  have "sorted_records p n ! k \<in> set (sorted_records p n)" using assms len by simp
  moreover have "phys p n ! k = snd (sorted_records p n ! k)"
    using assms len by (simp add: phys_def sorted_records_def)
  ultimately show "sorted_records p n ! k = (slot_of p (phys p n ! k), phys p n ! k)"
    by (auto simp: sorted_records_def)
qed

lemma physical_records_laid:
  assumes l: "laid p up cs"
    and h: "h_item_count h = length cs" "h_lower h = HEADER_SIZE + 2 * length cs" "h_upper h = up"
  shows "physical_records p h = Inr (map (\<lambda>i. (slot_of p i, i)) [0..<length cs])"
proof -
  have "rfold (\<lambda>records index. rmap (\<lambda>r. records @ [r]) (physical_record p h index)) [] [0..<n]
      = Inr (map (\<lambda>i. (slot_of p i, i)) [0..<n])" if "n \<le> length cs" for n
    using that
  proof (induction n)
    case (Suc n)
    hence n: "n < length cs" by simp
    have "slot_of p n < PAGE_SIZE" using laid_cellD [OF l n] by (cases "cs ! n") auto
    hence "physical_record p h n = Inr (slot_of p n, n)"
      using slot_start_laid [OF l n h(1,2)] laid_cellD [OF l n] h by (simp add: physical_record_def)
    thus ?case using Suc by (simp add: rfold_append)
  qed simp
  thus ?thesis by (simp add: physical_records_def h)
qed

theorem truncate_slots_slotted:
  assumes s: "slotted p cs" and k: "0 < keep" "keep < length cs"
  shows "\<exists>p' h'. truncate_slots p (raw_header p) keep = Inr (p', h')
    \<and> slotted p' (take keep cs) \<and> tag_of p' = tag_of p \<and> h' = raw_header p'"
proof -
  have l: "laid p (upper p) cs" using s by (simp add: slotted_def)
  note h = raw_header_slotted [OF s] and d = laidD [OF l]
  let ?h = "raw_header p" and ?n = "length cs" and ?ph = "phys p (length cs)"
  let ?rs = "sorted_records p ?n" and ?ren = "\<lambda>i. if i < keep then Some i else None"
  let ?out = "\<lambda>k. ?ren (?ph ! k)"
  have r: "renumbers ?n keep ?ren (\<lambda>q. q)" using k by (intro renumbers_take) simp
  have nth: "?rs ! j = (pos p cs j, ?ph ! j)" if "j < ?n" for j
    using sorted_records_nth(1) [OF that, of p] that by (simp add: pos_def)
  have len: "length ?rs = ?n" using sorted_records_nth(2) k by blast
  have n0: "0 < ?n" using k by linarith
  have step: "truncate_step keep ?rs acc j = compact_step (\<lambda>k. (pos p cs k, plen p cs k)) ?out acc j"
    if j: "j < ?n" for acc j
  proof -
    have "(if j + 1 < length ?rs then fst (?rs ! (j + 1)) else PAGE_SIZE) = pos p cs (Suc j)"
      using nth [of "j + 1"] len j by (auto simp: pos_def)
    also have "\<dots> = pos p cs j + plen p cs j" using laid_tiled(2) [OF l j] .
    finally show ?thesis
      using nth [OF j] by (cases acc) (simp add: truncate_step_def compact_step_def Let_def)
  qed
  obtain page where page: "rfold (truncate_step keep ?rs) (p, PAGE_SIZE) (rev [0..<?n])
      = Inr (page, dst p cs ?out 0)" "compacted p cs ?out 0 page"
    using compact_all [where step = "truncate_step keep ?rs", OF l _ r refl step refl] k by auto
  have dis: "\<not> list_ex (\<lambda>i. fst (?rs ! i) = fst (?rs ! (i + 1))) [0..<length ?rs - 1]"
    using nth laid_tiled(2) [OF l] pos_cell(3) [OF l] len by (auto simp: list_ex_iff)
  let ?hd = "\<lparr> h_item_count = keep, h_level = level p, h_lower = HEADER_SIZE + keep * 2, h_upper = dst p cs ?out 0 \<rparr>"
  from finish_compact [OF s k r page(2), of "\<lambda>page. Inr (page, ?hd)"]
  obtain p' where p': "finish_truncate page ?h keep (dst p cs ?out 0) = Inr (p', ?hd)"
    "slotted p' (take keep cs)" "tag_of p' = tag_of p" "upper p' = dst p cs ?out 0"
    using h k by (auto simp: finish_truncate_def map_nth_take raw_header_def Let_def)
  have "physical_records p ?h = Inr (map (\<lambda>i. (slot_of p i, i)) [0..<?n])"
    using physical_records_laid [OF l] h by simp
  hence "truncate_slots p ?h keep = finish_truncate page ?h keep (dst p cs ?out 0)"
    using k h d(5) dis nth [OF n0] laid_tiled(1) [OF l n0] page(1) len
    by (simp add: truncate_slots_def Let_def flip: sorted_records_def)
  moreover have "raw_header p' = ?hd"
    using p' k by (simp add: raw_header_def slotted_def tag_of_def)
  ultimately show ?thesis using p' by auto
qed

section \<open>Appending\<close>

definition appending :: "builder \<Rightarrow> bytes list \<Rightarrow> bool" where
  "appending b cs \<longleftrightarrow> laid (fst b) (ap_upper (snd b)) cs \<and> ap_item_count (snd b) = length cs"

lemma appender_new_ok:
  "\<exists>page a. appender_new ptype born lvl aux = Inr (page, a) \<and> appending (page, a) []
    \<and> common_valid page \<and> kind_valid page ptype aux \<and> born_txn page = born \<and> level page = lvl"
proof -
  let ?f = "\<lparr> f_page_type = ptype, f_born_txn = born, f_item_count = 0, f_level = lvl,
            f_lower = of_nat HEADER_SIZE, f_upper = of_nat PAGE_SIZE, f_aux = aux \<rparr>"
  obtain page where page: "initialize ?f = Inr page" by (simp add: initialize_eq)
  note v = initialize_valid [OF page] and fl = initialize_fields [OF page] and z = initialize_zero [OF page]
  have "laid page PAGE_SIZE []"
    using fl(1) z by (auto simp: laid_def records_def slots_def layout_consts)
  thus ?thesis
    using page v fl(8) by (simp add: appender_new_def appending_def)
qed

lemma builder_push_ok:
  assumes a: "appending b cs" and c: "c \<noteq> []"
    and fits: "HEADER_SIZE + 2 * length cs + 2 + length c \<le> ap_upper (snd b)"
  shows "\<exists>b'. builder_push b c = Inr b' \<and> appending b' (cs @ [c]) \<and> tag_of (fst b') = tag_of (fst b)
    \<and> ap_upper (snd b') = ap_upper (snd b) - length c"
proof -
  have l: "laid (fst b) (ap_upper (snd b)) cs" and n: "ap_item_count (snd b) = length cs"
    using a by (simp_all add: appending_def)
  note d = laidD [OF l]
  let ?p = "fst b" and ?up = "ap_upper (snd b) - length c" and ?slot = "HEADER_SIZE + length cs * 2"
  let ?q1 = "wr ?p ?up c"
  let ?q = "wr ?q1 ?slot (to_le_bytes (of_nat ?up :: 16 word))"
  have b: "?slot + 2 \<le> PAGE_SIZE" "?up + length c \<le> PAGE_SIZE" "HEADER_SIZE \<le> ?up"
    "HEADER_SIZE + (length cs + 1) * 2 \<le> ?up"
    using d fits by auto
  have us: "HEADER_SIZE + (length cs + 1) * 2 \<le> usize_max" using b by (intro usize_page) auto
  have "laid ?q ?up (insert_at (length cs) c cs)"
    using laid_insert [OF l order_refl c fits] by (simp add: mult.commute)
  hence "laid ?q ?up (cs @ [c])" by (simp add: insert_at_def)
  moreover have "tag_of ?q = tag_of ?p" using b d by (simp add: tag_of_wr)
  moreover have "builder_push b c = Inr (?q, \<lparr> ap_item_count = length cs + 1, ap_upper = ?up \<rparr>)"
    using c n us fits b
    by (simp add: builder_push_def try_push_def usize_checked_add_def usize_checked_sub_def
        write_source_in put_u16_in)
  ultimately show ?thesis by (auto simp: appending_def)
qed

lemma builder_pushes_ok:
  assumes "appending b cs" "[] \<notin> set ds"
    "HEADER_SIZE + 2 * (length cs + length ds) + sum_list (map length ds) \<le> ap_upper (snd b)"
  shows "\<exists>b'. rfold builder_push b ds = Inr b' \<and> appending b' (cs @ ds) \<and> tag_of (fst b') = tag_of (fst b)"
  using assms
proof (induction ds arbitrary: b cs)
  case (Cons d ds)
  from builder_push_ok [OF Cons.prems(1), of d] Cons.prems obtain b' where
    b': "builder_push b d = Inr b'" "appending b' (cs @ [d])" "tag_of (fst b') = tag_of (fst b)"
    "ap_upper (snd b') = ap_upper (snd b) - length d" by auto
  from Cons.IH [OF b'(2)] b' Cons.prems show ?case by auto
qed simp

lemma builder_finish_ok:
  assumes a: "appending b cs" and ne: "cs \<noteq> []"
  shows "\<exists>p. builder_finish b = Inr p \<and> slotted p cs \<and> tag_of p = tag_of (fst b)"
proof -
  have l: "laid (fst b) (ap_upper (snd b)) cs" and n: "ap_item_count (snd b) = length cs"
    using a by (simp_all add: appending_def)
  let ?q = "with_counts (fst b) (length cs) (HEADER_SIZE + length cs * 2) (ap_upper (snd b))"
  have "builder_finish b = Inr ?q"
    using n ne unfolding builder_finish_def appender_finish_def n put_counts by simp
  moreover have "slotted ?q cs" "tag_of ?q = tag_of (fst b)"
    using slotted_with_counts [OF l refl] by (simp_all add: mult.commute)
  ultimately show ?thesis by blast
qed

end
