(* ===== verification/TreeStore.thy ===== *)
theory TreeStore
  imports SlottedCompact
begin

text \<open>
  The two traits the copy-on-write B+tree is written against (\<open>fixed_tree.rs\<close>): \<open>Codec\<close>, the
  record \<open>codec\<close> of its constants and methods, and \<open>Store\<close>, \<open>RetiringStore\<close> and
  \<open>RangeStore\<close>, records of operations on a store state. A method that takes a closure is the
  acquisition of the page (with the store's checks), the closure, and the write-back: an error
  of the closure is returned and the store state is dropped with it, as every caller
  propagates it.
\<close>

section \<open>Codec\<close>

record ('k, 'l) codec =
  BRANCH_TYPE :: "8 word"
  LEAF_TYPE :: "8 word"
  CODEC_AUX :: "32 word"
  KEY_SIZE :: nat
  LEAF_SIZE :: nat
  MAX_BRANCH_SIZE :: nat
  MAX_LEAF_SIZE :: nat
  read_key :: "bytes \<Rightarrow> 16 word \<Rightarrow> 'k result"
  read_leaf :: "bytes \<Rightarrow> 'l result"
  write_key :: "'k \<Rightarrow> bytes \<Rightarrow> bytes result"
  validate_leaf :: "bytes \<Rightarrow> unit result"
  fixed_cell_size :: "16 word \<Rightarrow> nat option"
  leaf_cell :: "bytes \<Rightarrow> header \<Rightarrow> nat \<Rightarrow> bytes result"
  branch_cell :: "bytes \<Rightarrow> header \<Rightarrow> nat \<Rightarrow> bytes result"
  write_branch :: "'k \<Rightarrow> 32 word \<Rightarrow> bytes \<Rightarrow> (bytes \<times> nat) result"
  read_branch_child :: "bytes \<Rightarrow> 32 word result"

text \<open>The provided methods of the trait, on the constants and methods they use.\<close>

definition default_validate_leaf :: "(bytes \<Rightarrow> 'l result) \<Rightarrow> bytes \<Rightarrow> unit result" where
  "default_validate_leaf reader c = rmap (\<lambda>_. ()) (reader c)"

definition default_fixed_cell_size :: "nat \<Rightarrow> nat \<Rightarrow> nat \<Rightarrow> 16 word \<Rightarrow> nat option" where
  "default_fixed_cell_size key_size leaf_size max_branch_size lvl =
    (if lvl = 0 then (if leaf_size \<noteq> 0 then Some leaf_size else None)
     else if key_size \<noteq> 0 \<and> max_branch_size = key_size + 4 then Some (key_size + 4) else None)"

definition default_leaf_cell :: "nat \<Rightarrow> bytes \<Rightarrow> header \<Rightarrow> nat \<Rightarrow> bytes result" where
  "default_leaf_cell leaf_size page h index = cell page h index leaf_size"

definition default_branch_cell :: "nat \<Rightarrow> bytes \<Rightarrow> header \<Rightarrow> nat \<Rightarrow> bytes result" where
  "default_branch_cell key_size page h index = cell page h index (key_size + 4)"

definition default_write_branch ::
  "nat \<Rightarrow> ('k \<Rightarrow> bytes \<Rightarrow> bytes result) \<Rightarrow> 'k \<Rightarrow> 32 word \<Rightarrow> bytes \<Rightarrow> (bytes \<times> nat) result" where
  "default_write_branch key_size writer key child output =
    (let len = key_size + 4 in
     if length output < len then Inl (Unsupported ''B+tree branch buffer is too small'')
     else rbind (writer key (take key_size output)) (\<lambda>k.
       Inr (wr (wr output 0 k) key_size (to_le_bytes child), len)))"

definition default_read_branch_child :: "nat \<Rightarrow> bytes \<Rightarrow> 32 word result" where
  "default_read_branch_child key_size c =
    ok_or (Corrupt ''B+tree branch record is too short'')
      (map_option from_le_bytes (array 4 c key_size))"

section \<open>Store\<close>

record 's store_ops =
  target_txn :: "'s \<Rightarrow> 64 word"
  page_limit :: "'s \<Rightarrow> 64 word"
  read_page :: "'s \<Rightarrow> 32 word \<Rightarrow> bytes result"
  allocate :: "'s \<Rightarrow> ('s \<times> 32 word) result"
  edit_page :: "'s \<Rightarrow> 32 word \<Rightarrow> bytes result"
  pair_pages :: "'s \<Rightarrow> 32 word \<Rightarrow> 32 word \<Rightarrow> (bytes \<times> bytes) result"
  put_page :: "'s \<Rightarrow> 32 word \<Rightarrow> bytes \<Rightarrow> 's"
  discard_private :: "'s \<Rightarrow> 32 word \<Rightarrow> 's result"

record 's retiring_ops = "'s store_ops" +
  retire_pages :: "'s \<Rightarrow> 32 word list \<Rightarrow> 's result"

record 's range_ops = "'s retiring_ops" +
  range_record_added :: "'s \<Rightarrow> 32 word \<Rightarrow> 's result"
  range_record_removed :: "'s \<Rightarrow> 32 word \<Rightarrow> 's result"

definition inspect_page :: "('s, 'x) store_ops_scheme \<Rightarrow> 's \<Rightarrow> 32 word \<Rightarrow> (bytes \<Rightarrow> 't result) \<Rightarrow> 't result" where
  "inspect_page S st page_number inspect = rbind (read_page S st page_number) inspect"

definition update_page_with ::
  "('s, 'x) store_ops_scheme \<Rightarrow> 's \<Rightarrow> 32 word \<Rightarrow> (bytes \<Rightarrow> (bytes \<times> 't) result) \<Rightarrow> ('s \<times> 't) result" where
  "update_page_with S st page_number update =
    rbind (edit_page S st page_number) (\<lambda>page.
    rbind (update page) (\<lambda>(page, t).
    Inr (put_page S st page_number page, t)))"

definition update_page ::
  "('s, 'x) store_ops_scheme \<Rightarrow> 's \<Rightarrow> 32 word \<Rightarrow> (bytes \<Rightarrow> bytes result) \<Rightarrow> 's result" where
  "update_page S st page_number update =
    rbind (edit_page S st page_number) (\<lambda>page.
    rbind (update page) (\<lambda>page.
    Inr (put_page S st page_number page)))"

definition copy_page ::
  "('s, 'x) store_ops_scheme \<Rightarrow> 's \<Rightarrow> 32 word \<Rightarrow> 32 word \<Rightarrow> (bytes \<Rightarrow> bytes \<Rightarrow> bytes result) \<Rightarrow> 's result" where
  "copy_page S st source destination copy =
    rbind (pair_pages S st source destination) (\<lambda>(src, out).
    rbind (copy src out) (\<lambda>out.
    Inr (put_page S st destination out)))"

text \<open>\<open>page_checksum::clear\<close> and the provided method \<open>copy_for_cow\<close>.\<close>

definition CHECKSUM_OFFSET :: nat where
  "CHECKSUM_OFFSET = 28"

definition clear_checksum :: "bytes \<Rightarrow> bytes result" where
  "clear_checksum page = put_u32 page CHECKSUM_OFFSET 0"

definition copy_for_cow :: "('s, 'x) store_ops_scheme \<Rightarrow> 's \<Rightarrow> 32 word \<Rightarrow> 32 word \<Rightarrow> 's result" where
  "copy_for_cow S st source destination =
    (let txn = target_txn S st in
     copy_page S st source destination (\<lambda>src output.
       rbind (write_source output 0 src) (\<lambda>output.
       rbind (put_u64 output BORN_TXN txn) clear_checksum)))"

section \<open>Page sources\<close>

text \<open>\<open>PageSource\<close>: what a reader sees of a store or of a selected generation.\<close>

record page_source =
  selected_txn :: "64 word"
  selected_page_limit :: "64 word"
  view_page :: "32 word \<Rightarrow> bytes result"

definition store_source :: "('s, 'x) store_ops_scheme \<Rightarrow> 's \<Rightarrow> page_source" where
  "store_source S st = \<lparr> selected_txn = target_txn S st, selected_page_limit = page_limit S st,
     view_page = read_page S st \<rparr>"

section \<open>Paths and retired pages\<close>

definition MAX_PATH :: nat where
  "MAX_PATH = unat MAX_TREE_LEVEL"

type_synonym retired = "32 word list"

definition retired_push :: "retired \<Rightarrow> 32 word \<Rightarrow> retired result" where
  "retired_push self page_number =
    (if length self < MAX_PATH + 1 then Inr (self @ [page_number])
     else Inl (Corrupt ''COW path exceeds the maximum tree height''))"

definition retired_extend :: "retired \<Rightarrow> 32 word list \<Rightarrow> retired result" where
  "retired_extend self pages = rfold retired_push self pages"

record frame =
  fr_page :: "32 word"
  fr_index :: nat
  fr_item_count :: nat

type_synonym path = "frame list"

definition path_push :: "path \<Rightarrow> frame \<Rightarrow> path result" where
  "path_push self fr =
    (if length self < MAX_PATH then Inr (self @ [fr])
     else Inl (Corrupt ''B+tree exceeds its maximum height''))"

lemma MAX_PATH_31: "MAX_PATH = 31"
  by (simp add: MAX_PATH_def MAX_TREE_LEVEL_def)

end
