(* ===== verification/TreePage.thy ===== *)
theory TreePage
  imports TreeStore
begin

text \<open>
  Codec-driven page encoding and search (\<open>fixed_tree/page.rs\<close>): the branch cell buffer, the
  binary search of a page, the virtual cells of an edit or a replacement, the choice of a split
  index, and the building of one side of a split.
\<close>

section \<open>Cells\<close>

definition MAX_TREE_CELL :: nat where
  "MAX_TREE_CELL = 512"

definition branch_buf :: "('k, 'l) codec \<Rightarrow> 'k \<Rightarrow> 32 word \<Rightarrow> bytes result" where
  "branch_buf C key child =
    rbind (write_branch C key child (replicate MAX_TREE_CELL 0)) (\<lambda>(bs, len).
    if len = 0 \<or> len > MAX_BRANCH_SIZE C then Inl (Unsupported ''B+tree branch encoding is invalid'')
    else Inr (take len bs))"

record edit =
  ed_index :: nat
  ed_replace :: bool
  ed_cell :: bytes

definition edit_total :: "edit \<Rightarrow> nat \<Rightarrow> nat" where
  "edit_total self source_count = source_count + of_bool (\<not> ed_replace self)"

record replacement =
  rp_index :: nat
  rp_cells :: "bytes list"

definition replacement_total :: "replacement \<Rightarrow> nat \<Rightarrow> nat" where
  "replacement_total self source_count = source_count + length (rp_cells self) - 1"

definition tree_page_type :: "('k, 'l) codec \<Rightarrow> 16 word \<Rightarrow> 8 word" where
  "tree_page_type C lvl = (if lvl = 0 then LEAF_TYPE C else BRANCH_TYPE C)"

definition parse_page :: "('k, 'l) codec \<Rightarrow> bytes \<Rightarrow> 64 word \<Rightarrow> 16 word option \<Rightarrow> header result" where
  "parse_page C page txn expected_level =
    parse_tree page txn (BRANCH_TYPE C) (LEAF_TYPE C) (CODEC_AUX C) expected_level"

definition codec_cell :: "('k, 'l) codec \<Rightarrow> bytes \<Rightarrow> header \<Rightarrow> nat \<Rightarrow> bytes result" where
  "codec_cell C page h index =
    (if h_level h = 0 then leaf_cell C page h index else branch_cell C page h index)"

definition key_at :: "('k, 'l) codec \<Rightarrow> bytes \<Rightarrow> header \<Rightarrow> nat \<Rightarrow> 'k result" where
  "key_at C page h index = rbind (codec_cell C page h index) (\<lambda>c. read_key C c (h_level h))"

definition require_child :: "('k, 'l) codec \<Rightarrow> bytes \<Rightarrow> 64 word \<Rightarrow> 32 word result" where
  "require_child C c limit =
    rbind (read_branch_child C c) (\<lambda>child.
    if child < 2 \<or> ucast child \<ge> limit then Inl (Corrupt ''B+tree child page is invalid'')
    else Inr child)"

definition branch_child :: "('k, 'l) codec \<Rightarrow> bytes \<Rightarrow> header \<Rightarrow> nat \<Rightarrow> 64 word \<Rightarrow> 32 word result" where
  "branch_child C page h index limit =
    rbind (branch_cell C page h index) (\<lambda>c. require_child C c limit)"

section \<open>Search\<close>

function lower_bound_loop ::
  "(nat \<Rightarrow> 'k :: linorder result) \<Rightarrow> 'k \<Rightarrow> nat \<Rightarrow> nat \<Rightarrow> (nat \<times> 'k) option \<Rightarrow> (nat \<times> (nat \<times> 'k) option) result" where
  "lower_bound_loop probe key low upp seen =
    (if low < upp then
       let middle = low + (upp - low) div 2 in
       case probe middle of
         Inl e \<Rightarrow> Inl e
       | Inr current \<Rightarrow>
           if current < key then lower_bound_loop probe key (middle + 1) upp (Some (middle, current))
           else lower_bound_loop probe key low middle (Some (middle, current))
     else Inr (low, seen))"
  by auto
termination by (relation "measure (\<lambda>(_, _, low, upp, _). upp - low)") auto

declare lower_bound_loop.simps [simp del]

definition lower_bound_by ::
  "header \<Rightarrow> 'k :: linorder \<Rightarrow> bool \<Rightarrow> (nat \<Rightarrow> 'k result) \<Rightarrow> (nat \<times> bool) result" where
  "lower_bound_by h key insertion probe =
    rbind (lower_bound_loop probe key 0 (h_item_count h) None) (\<lambda>(low, seen).
    rbind (if low \<ge> h_item_count h then Inr False
           else rbind (case seen of
                  Some (index, current) \<Rightarrow> if index = low then Inr current else probe low
                | None \<Rightarrow> probe low) (\<lambda>current. Inr (current = key))) (\<lambda>exists.
    if insertion \<or> exists \<or> low = 0 then Inr (low, exists) else Inr (low - 1, False)))"

definition lower_bound_fixed ::
  "('k :: linorder, 'l) codec \<Rightarrow> bytes \<Rightarrow> header \<Rightarrow> 'k \<Rightarrow> bool \<Rightarrow> nat \<Rightarrow> (nat \<times> bool) result" where
  "lower_bound_fixed C page h key insertion cell_len =
    rbind (fixed_search_new page h cell_len) (\<lambda>search.
    lower_bound_by h key insertion (\<lambda>index.
      rbind (cell_at search index) (\<lambda>c. read_key C c (h_level h))))"

definition lower_bound ::
  "('k :: linorder, 'l) codec \<Rightarrow> bytes \<Rightarrow> header \<Rightarrow> 'k \<Rightarrow> bool \<Rightarrow> (nat \<times> bool) result" where
  "lower_bound C page h key insertion =
    (case fixed_cell_size C (h_level h) of
       Some cell_len \<Rightarrow> lower_bound_fixed C page h key insertion cell_len
     | None \<Rightarrow> lower_bound_by h key insertion (key_at C page h))"

section \<open>Virtual cells\<close>

definition virtual_cell :: "('k, 'l) codec \<Rightarrow> bytes \<Rightarrow> header \<Rightarrow> edit \<Rightarrow> nat \<Rightarrow> bytes result" where
  "virtual_cell C source h ed virtual_index =
    (if virtual_index = ed_index ed then Inr (ed_cell ed)
     else codec_cell C source h
       (if virtual_index > ed_index ed \<and> \<not> ed_replace ed then virtual_index - 1 else virtual_index))"

definition replacement_cell :: "('k, 'l) codec \<Rightarrow> bytes \<Rightarrow> header \<Rightarrow> replacement \<Rightarrow> nat \<Rightarrow> bytes result" where
  "replacement_cell C source h rp index =
    (if rp_index rp \<le> index \<and> index - rp_index rp < length (rp_cells rp)
     then Inr (rp_cells rp ! (index - rp_index rp))
     else codec_cell C source h
       (if index \<ge> rp_index rp + length (rp_cells rp) then index - length (rp_cells rp) + 1 else index))"

section \<open>Fitting\<close>

definition edit_fits :: "('k, 'l) codec \<Rightarrow> bytes \<Rightarrow> header \<Rightarrow> edit \<Rightarrow> bool result" where
  "edit_fits C source h ed =
    (if ed_replace ed then
       if ed_index ed \<ge> h_item_count h then Inl (Corrupt ''B+tree replacement index is invalid'')
       else rbind (codec_cell C source h (ed_index ed)) (\<lambda>old.
         Inr (replace_fits h (length old) (length (ed_cell ed))))
     else if ed_index ed > h_item_count h then Inl (Corrupt ''B+tree insertion index is invalid'')
     else Inr (insert_fits h (length (ed_cell ed))))"

definition replacement_fits :: "('k, 'l) codec \<Rightarrow> bytes \<Rightarrow> header \<Rightarrow> replacement \<Rightarrow> bool result" where
  "replacement_fits C source h rp =
    (if rp_index rp \<ge> h_item_count h \<or> rp_cells rp = []
     then Inl (Corrupt ''B+tree replacement is invalid'')
     else
       rbind (codec_cell C source h (rp_index rp)) (\<lambda>old.
       rbind (ok_or (ArithmeticOverflow ''B+tree replacement capacity'')
                (usize_checked_add (length old) (h_upper h - h_lower h))) (\<lambda>available.
       rbind (rfold (\<lambda>total_count c. ok_or (ArithmeticOverflow ''B+tree replacement size'')
                (usize_checked_add total_count (length c))) 0 (rp_cells rp)) (\<lambda>payload.
       rbind (ok_or (ArithmeticOverflow ''B+tree replacement size'')
                (Option.bind (usize_checked_sub (length (rp_cells rp)) 1) (\<lambda>extra.
                 Option.bind (usize_checked_mul extra 2) (\<lambda>slots.
                 usize_checked_add payload slots)))) (\<lambda>required.
       Inr (required \<le> available))))))"

section \<open>Splitting\<close>

definition page_size :: "nat \<Rightarrow> nat \<Rightarrow> nat result" where
  "page_size cnt payload =
    ok_or (ArithmeticOverflow ''B+tree page size'')
      (Option.bind (usize_checked_mul cnt 2) (\<lambda>slots.
       Option.bind (usize_checked_add slots HEADER_SIZE) (\<lambda>base.
       usize_checked_add base payload)))"

definition fixed_split_index :: "nat \<Rightarrow> nat \<Rightarrow> nat result" where
  "fixed_split_index total_count cell_len =
    (if total_count < 2 then Inl (Corrupt ''B+tree split has fewer than two records'')
     else
       let middle = total_count div 2 in
       rbind (ok_or (ArithmeticOverflow ''B+tree split size'') (usize_checked_mul middle cell_len)) (\<lambda>left_payload.
       rbind (ok_or (ArithmeticOverflow ''B+tree split size'')
                (usize_checked_mul (total_count - middle) cell_len)) (\<lambda>right_payload.
       rbind (page_size middle left_payload) (\<lambda>left.
       if left > PAGE_SIZE then Inl (InvalidArgument ''B+tree record cannot be split'')
       else rbind (page_size (total_count - middle) right_payload) (\<lambda>right.
       if right > PAGE_SIZE then Inl (InvalidArgument ''B+tree record cannot be split'')
       else Inr middle)))))"

definition payload_size :: "nat \<Rightarrow> (nat \<Rightarrow> nat result) \<Rightarrow> nat result" where
  "payload_size total_count cell_len =
    rfold (\<lambda>used index. rbind (cell_len index) (\<lambda>n.
      ok_or (ArithmeticOverflow ''B+tree split size'') (usize_checked_add used n))) 0 [0..<total_count]"

definition split_difference :: "nat \<Rightarrow> nat \<Rightarrow> nat \<Rightarrow> nat \<Rightarrow> nat option result" where
  "split_difference total_count middle payload left_payload =
    rbind (page_size middle left_payload) (\<lambda>left.
    rbind (ok_or (Corrupt ''B+tree split size changed'') (usize_checked_sub payload left_payload)) (\<lambda>right_payload.
    rbind (page_size (total_count - middle) right_payload) (\<lambda>right.
    if left > PAGE_SIZE \<or> right > PAGE_SIZE then Inr None
    else Inr (Some (if left < right then right - left else left - right)))))"

definition choose_split :: "nat \<Rightarrow> nat \<Rightarrow> (nat \<Rightarrow> nat result) \<Rightarrow> nat option result" where
  "choose_split total_count payload cell_len =
    rbind (rfold (\<lambda>(left_payload, best) middle.
      rbind (cell_len (middle - 1)) (\<lambda>n.
      rbind (ok_or (ArithmeticOverflow ''B+tree split size'') (usize_checked_add left_payload n)) (\<lambda>left_payload.
      rbind (split_difference total_count middle payload left_payload) (\<lambda>difference.
      Inr (left_payload,
        case difference of
          None \<Rightarrow> best
        | Some d \<Rightarrow>
            if (case best of None \<Rightarrow> True | Some (_, prior) \<Rightarrow> d < prior) then Some (middle, d)
            else best)))))
      (0, None) [1..<total_count]) (\<lambda>(_, best).
    Inr (map_option fst best))"

definition split_by_size :: "nat \<Rightarrow> (nat \<Rightarrow> nat result) \<Rightarrow> nat result" where
  "split_by_size total_count cell_len =
    (if total_count < 2 then Inl (Corrupt ''B+tree split has fewer than two records'')
     else
       rbind (payload_size total_count cell_len) (\<lambda>payload.
       rbind (choose_split total_count payload cell_len) (\<lambda>middle.
       ok_or (InvalidArgument ''B+tree record cannot be split'') middle)))"

definition split_index :: "('k, 'l) codec \<Rightarrow> bytes \<Rightarrow> header \<Rightarrow> edit \<Rightarrow> nat result" where
  "split_index C source h ed =
    (let total_count = edit_total ed (h_item_count h) in
     case fixed_cell_size C (h_level h) of
       Some cell_len \<Rightarrow> fixed_split_index total_count cell_len
     | None \<Rightarrow> split_by_size total_count (\<lambda>index. rmap length (virtual_cell C source h ed index)))"

definition replacement_split_index :: "('k, 'l) codec \<Rightarrow> bytes \<Rightarrow> header \<Rightarrow> replacement \<Rightarrow> nat result" where
  "replacement_split_index C source h rp =
    (let total_count = replacement_total rp (h_item_count h) in
     case fixed_cell_size C (h_level h) of
       Some cell_len \<Rightarrow> fixed_split_index total_count cell_len
     | None \<Rightarrow> split_by_size total_count (\<lambda>index. rmap length (replacement_cell C source h rp index)))"

section \<open>Building and truncating\<close>

definition build_cells ::
  "8 word \<Rightarrow> 64 word \<Rightarrow> 16 word \<Rightarrow> 32 word \<Rightarrow> (nat \<Rightarrow> bytes result) \<Rightarrow> nat list \<Rightarrow> bytes result" where
  "build_cells ptype txn lvl aux cell_of indices =
    rbind (appender_new ptype txn lvl aux) (\<lambda>builder.
    rbind (rfold (\<lambda>b i. rbind (cell_of i) (\<lambda>c. builder_push b c)) builder indices) builder_finish)"

definition build_edit ::
  "('k, 'l) codec \<Rightarrow> bytes \<Rightarrow> header \<Rightarrow> edit \<Rightarrow> nat \<Rightarrow> nat \<Rightarrow> bytes \<Rightarrow> bytes result" where
  "build_edit C source h ed start end' output =
    build_cells (tree_page_type C (h_level h)) (born_txn source) (h_level h) (CODEC_AUX C)
      (virtual_cell C source h ed) [start..<end']"

definition build_replacement ::
  "('k, 'l) codec \<Rightarrow> bytes \<Rightarrow> header \<Rightarrow> replacement \<Rightarrow> nat \<Rightarrow> nat \<Rightarrow> bytes \<Rightarrow> bytes result" where
  "build_replacement C source h rp start end' output =
    build_cells (tree_page_type C (h_level h)) (born_txn source) (h_level h) (CODEC_AUX C)
      (replacement_cell C source h rp) [start..<end']"

definition truncate_page :: "('k, 'l) codec \<Rightarrow> bytes \<Rightarrow> header \<Rightarrow> nat \<Rightarrow> (bytes \<times> header) result" where
  "truncate_page C page h keep =
    (case fixed_cell_size C (h_level h) of
       Some cell_len \<Rightarrow> truncate_fixed page h keep cell_len
     | None \<Rightarrow> truncate_slots page h keep)"

definition require_codec :: "('k, 'l) codec \<Rightarrow> unit result" where
  "require_codec C =
    (if MAX_BRANCH_SIZE C = 0 \<or> MAX_LEAF_SIZE C = 0
        \<or> MAX_BRANCH_SIZE C + 2 + HEADER_SIZE > PAGE_SIZE
        \<or> MAX_LEAF_SIZE C + 2 + HEADER_SIZE > PAGE_SIZE
        \<or> MAX_BRANCH_SIZE C > MAX_TREE_CELL
     then Inl (Unsupported ''invalid B+tree codec'')
     else Inr ())"

end
