(* ===== verification/FixedTree.thy ===== *)
theory FixedTree
  imports TreePage
begin

text \<open>
  The copy-on-write B+tree over pages of a store (\<open>fixed_tree.rs\<close>, \<open>fixed_tree/insert.rs\<close>,
  \<open>fixed_tree/delete.rs\<close>): the private path from the root to a leaf, leaf edits, page splits
  and their propagation to the root, first-key propagation, deletion without rebalancing. A
  function that updates the root takes it and returns it with the store state.
\<close>

section \<open>Reading first keys\<close>

definition first_key ::
  "('k :: linorder, 'l) codec \<Rightarrow> ('s, 'x) store_ops_scheme \<Rightarrow> 's \<Rightarrow> 32 word \<Rightarrow> 16 word \<Rightarrow> 'k result" where
  "first_key C S st page_number lvl =
    inspect_page S st page_number (\<lambda>page.
      rbind (parse_page C page (target_txn S st) (Some lvl)) (\<lambda>h.
      key_at C page h 0))"

definition private_leaf_first ::
  "('k :: linorder, 'l) codec \<Rightarrow> ('s, 'x) store_ops_scheme \<Rightarrow> 's \<Rightarrow> 32 word \<Rightarrow> 'k result" where
  "private_leaf_first C S st page_number =
    inspect_page S st page_number (\<lambda>page.
      rbind (parse_page C page (target_txn S st) (Some 0)) (\<lambda>h.
      if born_txn page \<noteq> target_txn S st then Inl (Corrupt ''leaf locator learned a committed page'')
      else key_at C page h 0))"

section \<open>The private path\<close>

record 'a private_leaf =
  pl_path :: path
  pl_page :: "32 word"
  pl_header :: header
  pl_selection :: 'a

datatype 'a inspected_page =
    InspectedLeaf header bool 'a
  | InspectedBranch header bool nat "32 word"

fun inspected_private :: "'a inspected_page \<Rightarrow> bool" where
  "inspected_private (InspectedLeaf h private selection) = private"
| "inspected_private (InspectedBranch h private index child) = private"

type_synonym 'a leaf_selector = "bytes \<Rightarrow> header \<Rightarrow> path \<Rightarrow> 'a result"

definition inspect_tree ::
  "('k :: linorder, 'l) codec \<Rightarrow> ('s, 'x) store_ops_scheme \<Rightarrow> 's \<Rightarrow> 32 word \<Rightarrow> 16 word option \<Rightarrow> 'k \<Rightarrow> path
    \<Rightarrow> 'a leaf_selector \<Rightarrow> 'a inspected_page result" where
  "inspect_tree C S st page_number expected_level key path select =
    inspect_page S st page_number (\<lambda>page.
      rbind (parse_page C page (target_txn S st) expected_level) (\<lambda>h.
      let private = (born_txn page = target_txn S st) in
      if h_level h = 0 then
        rbind (select page h path) (\<lambda>selection. Inr (InspectedLeaf h private selection))
      else
        rbind (lower_bound C page h key False) (\<lambda>(index, _).
        rbind (branch_child C page h index (page_limit S st)) (\<lambda>child.
        Inr (InspectedBranch h private index child)))))"

definition touch ::
  "('s, 'x) store_ops_scheme \<Rightarrow> 's \<Rightarrow> 32 word \<Rightarrow> retired \<Rightarrow> ('s \<times> retired \<times> 32 word) result" where
  "touch S st page_number retired =
    rbind (allocate S st) (\<lambda>(st, private_page).
    rbind (copy_for_cow S st page_number private_page) (\<lambda>st.
    rbind (retired_push retired page_number) (\<lambda>retired.
    Inr (st, retired, private_page))))"

definition replace_branch_child ::
  "('k :: linorder, 'l) codec \<Rightarrow> ('s, 'x) store_ops_scheme \<Rightarrow> 's \<Rightarrow> 32 word \<Rightarrow> nat \<Rightarrow> 32 word \<Rightarrow> 's result" where
  "replace_branch_child C S st page_number index child =
    rbind (inspect_page S st page_number (\<lambda>page.
      rbind (parse_page C page (target_txn S st) None) (\<lambda>h.
      rbind (key_at C page h index) (\<lambda>key.
      rbind (branch_cell C page h index) (\<lambda>old.
      rbind (branch_child C page h index (page_limit S st)) (\<lambda>_.
      Inr (h, key, length old))))))) (\<lambda>(h, key, old_len).
    rbind (branch_buf C key child) (\<lambda>replacement.
    if length replacement \<noteq> old_len then Inl (Corrupt ''B+tree child replacement changed key size'')
    else update_page S st page_number (\<lambda>page.
      rbind (replace_slot page h index old_len replacement) (\<lambda>(page, replaced).
      if replaced then Inr page else Inl (Corrupt ''B+tree child replacement no longer fits'')))))"

text \<open>One turn of the loop of \<open>private_path_select\<close> up to the choice of the active page.\<close>

definition activate_page ::
  "('k :: linorder, 'l) codec \<Rightarrow> ('s, 'x) store_ops_scheme \<Rightarrow> 's \<Rightarrow> 32 word \<Rightarrow> retired \<Rightarrow> (32 word \<times> nat) option
    \<Rightarrow> 32 word \<Rightarrow> bool \<Rightarrow> ('s \<times> 32 word \<times> retired \<times> 32 word) result" where
  "activate_page C S st root retired parent page_number private =
    (if private then Inr (st, root, retired, page_number)
     else
       rbind (touch S st page_number retired) (\<lambda>(st, retired, copied).
       case parent of
         Some (parent_page, parent_index) \<Rightarrow>
           rbind (replace_branch_child C S st parent_page parent_index copied) (\<lambda>st.
           Inr (st, root, retired, copied))
       | None \<Rightarrow> Inr (st, copied, retired, copied)))"

function private_path_loop ::
  "('k :: linorder, 'l) codec \<Rightarrow> ('s, 'x) store_ops_scheme \<Rightarrow> 'k \<Rightarrow> 'a leaf_selector \<Rightarrow> 's \<Rightarrow> 32 word \<Rightarrow> retired
    \<Rightarrow> path \<Rightarrow> 32 word \<Rightarrow> 16 word option \<Rightarrow> (32 word \<times> nat) option
    \<Rightarrow> ('s \<times> 32 word \<times> retired \<times> 'a private_leaf) result" where
  "private_path_loop C S key select st root retired path page_number expected_level parent =
    (case inspect_tree C S st page_number expected_level key path select of
       Inl e \<Rightarrow> Inl e
     | Inr inspected \<Rightarrow>
    (case activate_page C S st root retired parent page_number (inspected_private inspected) of
       Inl e \<Rightarrow> Inl e
     | Inr (st, root, retired, active_page) \<Rightarrow>
    (case inspected of
       InspectedLeaf h _ selection \<Rightarrow>
         Inr (st, root, retired,
           \<lparr> pl_path = path, pl_page = active_page, pl_header = h, pl_selection = selection \<rparr>)
     | InspectedBranch h _ index child \<Rightarrow>
    (case path_push path \<lparr> fr_page = active_page, fr_index = index, fr_item_count = h_item_count h \<rparr> of
       Inl e \<Rightarrow> Inl e
     | Inr path \<Rightarrow>
         private_path_loop C S key select st root retired path child (Some (h_level h - 1))
           (Some (active_page, index))))))"
  by auto
termination
  by (relation "measure (\<lambda>(_, _, _, _, _, _, _, path, _). MAX_PATH - length path)")
    (auto simp: path_push_def split: if_splits)

declare private_path_loop.simps [simp del]

definition private_path_select ::
  "('k :: linorder, 'l) codec \<Rightarrow> ('s, 'x) store_ops_scheme \<Rightarrow> 's \<Rightarrow> 32 word \<Rightarrow> 'k \<Rightarrow> retired \<Rightarrow> 'a leaf_selector
    \<Rightarrow> ('s \<times> 32 word \<times> retired \<times> 'a private_leaf) result" where
  "private_path_select C S st root key retired select =
    private_path_loop C S key select st root retired [] root None None"

definition key_selector :: "('k :: linorder, 'l) codec \<Rightarrow> 'k \<Rightarrow> (nat \<times> bool) leaf_selector" where
  "key_selector C key page h path = lower_bound C page h key True"

definition private_path ::
  "('k :: linorder, 'l) codec \<Rightarrow> ('s, 'x) store_ops_scheme \<Rightarrow> 's \<Rightarrow> 32 word \<Rightarrow> 'k \<Rightarrow> retired
    \<Rightarrow> ('s \<times> 32 word \<times> retired \<times> (nat \<times> bool) private_leaf) result" where
  "private_path C S st root key retired =
    private_path_select C S st root key retired (key_selector C key)"

section \<open>Checks on leaf cells\<close>

definition require_leaf :: "('k :: linorder, 'l) codec \<Rightarrow> bytes \<Rightarrow> unit result" where
  "require_leaf C c =
    rbind (require_codec C) (\<lambda>_.
    if c = [] \<or> length c > MAX_LEAF_SIZE C then Inl (InvalidArgument ''wrong B+tree leaf size'')
    else validate_leaf C c)"

fun increasing_cells :: "('k :: linorder, 'l) codec \<Rightarrow> 'k option \<Rightarrow> bytes list \<Rightarrow> unit result" where
  "increasing_cells C previous [] = Inr ()"
| "increasing_cells C previous (c # cells) =
    rbind (require_leaf C c) (\<lambda>_.
    rbind (read_key C c 0) (\<lambda>current.
    if (case previous of None \<Rightarrow> False | Some prior \<Rightarrow> prior \<ge> current)
    then Inl (InvalidArgument ''B+tree replacement keys are not increasing'')
    else increasing_cells C (Some current) cells))"

definition require_replacement :: "('k :: linorder, 'l) codec \<Rightarrow> 'k \<Rightarrow> bytes list \<Rightarrow> unit result" where
  "require_replacement C key cells =
    (if \<not> (2 \<le> length cells \<and> length cells \<le> 3)
     then Inl (InvalidArgument ''B+tree leaf replacement requires two or three cells'')
     else
       rbind (increasing_cells C None cells) (\<lambda>_.
       rbind (read_key C (cells ! 0) 0) (\<lambda>first.
       if first \<noteq> key then Inl (InvalidArgument ''B+tree replacement changed its first key'')
       else Inr ())))"

section \<open>Editing one page\<close>

definition apply_edit :: "('k, 'l) codec \<Rightarrow> bytes \<Rightarrow> header \<Rightarrow> edit \<Rightarrow> bytes result" where
  "apply_edit C page h ed =
    rbind (if ed_replace ed then
             rbind (codec_cell C page h (ed_index ed)) (\<lambda>old.
             replace_slot page h (ed_index ed) (length old) (ed_cell ed))
           else insert_slot page h (ed_index ed) (ed_cell ed)) (\<lambda>(page, changed).
    if changed then Inr page else Inl (Corrupt ''B+tree edit no longer fits''))"

definition apply_leaf_edit ::
  "('k, 'l) codec \<Rightarrow> ('s, 'x) store_ops_scheme \<Rightarrow> 's \<Rightarrow> 32 word \<Rightarrow> header \<Rightarrow> edit \<Rightarrow> 's result" where
  "apply_leaf_edit C S st page_number h ed =
    update_page S st page_number (\<lambda>page. apply_edit C page h ed)"

definition new_leaf ::
  "('k, 'l) codec \<Rightarrow> ('s, 'x) store_ops_scheme \<Rightarrow> 's \<Rightarrow> bytes \<Rightarrow> ('s \<times> 32 word) result" where
  "new_leaf C S st c =
    rbind (allocate S st) (\<lambda>(st, page_number).
    rbind (update_page S st page_number (\<lambda>page.
      rbind (appender_new (LEAF_TYPE C) (target_txn S st) 0 (CODEC_AUX C)) (\<lambda>builder.
      rbind (builder_push builder c) builder_finish))) (\<lambda>st.
    Inr (st, page_number)))"

fun insert_cells :: "('k, 'l) codec \<Rightarrow> 16 word \<Rightarrow> nat \<Rightarrow> bytes list \<Rightarrow> bytes \<Rightarrow> bytes result" where
  "insert_cells C lvl index [] page = Inr page"
| "insert_cells C lvl index (c # cells) page =
    rbind (parse_page C page (- 1) (Some lvl)) (\<lambda>current.
    rbind (insert_slot page current index c) (\<lambda>(page, inserted).
    if inserted then insert_cells C lvl (index + 1) cells page
    else Inl (Corrupt ''B+tree replacement insertion no longer fits'')))"

definition apply_cells :: "('k, 'l) codec \<Rightarrow> bytes \<Rightarrow> header \<Rightarrow> nat \<Rightarrow> bytes list \<Rightarrow> bytes result" where
  "apply_cells C page h index cells =
    rbind (codec_cell C page h index) (\<lambda>old.
    case cells of
      [] \<Rightarrow> Inl (Panicked ''index out of bounds'')
    | c # rest \<Rightarrow>
        rbind (replace_slot page h index (length old) c) (\<lambda>(page, replaced).
        if replaced then insert_cells C (h_level h) (index + 1) rest page
        else Inl (Corrupt ''B+tree replacement no longer fits'')))"

definition keep_left_edit ::
  "('k, 'l) codec \<Rightarrow> ('s, 'x) store_ops_scheme \<Rightarrow> 's \<Rightarrow> 32 word \<Rightarrow> header \<Rightarrow> edit \<Rightarrow> nat \<Rightarrow> 's result" where
  "keep_left_edit C S st page_number h ed middle =
    update_page S st page_number (\<lambda>page.
      let edit_in_left = ed_index ed < middle;
          keep = middle - of_bool (edit_in_left \<and> \<not> ed_replace ed)
      in if keep = 0 then
           rbind (appender_new (tree_page_type C (h_level h)) (target_txn S st) (h_level h) (CODEC_AUX C)) (\<lambda>builder.
           rbind (builder_push builder (ed_cell ed)) builder_finish)
         else
           rbind (truncate_page C page h keep) (\<lambda>(page, left).
           if edit_in_left then apply_edit C page left ed else Inr page))"

definition keep_left_replacement ::
  "('k, 'l) codec \<Rightarrow> ('s, 'x) store_ops_scheme \<Rightarrow> 's \<Rightarrow> 32 word \<Rightarrow> header \<Rightarrow> replacement \<Rightarrow> nat \<Rightarrow> 's result" where
  "keep_left_replacement C S st page_number h rp middle =
    update_page S st page_number (\<lambda>page.
      if middle \<le> rp_index rp then rmap fst (truncate_page C page h middle)
      else if middle < rp_index rp + length (rp_cells rp) then
        rbind (truncate_page C page h (rp_index rp + 1)) (\<lambda>(page, left).
        apply_cells C page left (rp_index rp) (take (middle - rp_index rp) (rp_cells rp)))
      else
        rbind (truncate_page C page h (middle - (length (rp_cells rp) - 1))) (\<lambda>(page, left).
        apply_cells C page left (rp_index rp) (rp_cells rp)))"

section \<open>Replacement and splits\<close>

record 'k branch_split =
  bs_right_page :: "32 word"
  bs_right_first :: 'k
  bs_left_first :: 'k
  bs_level :: "16 word"

definition split_replacement ::
  "('k :: linorder, 'l) codec \<Rightarrow> ('s, 'x) store_ops_scheme \<Rightarrow> 's \<Rightarrow> 32 word \<Rightarrow> header \<Rightarrow> replacement
    \<Rightarrow> ('s \<times> 'k branch_split option) result" where
  "split_replacement C S st page_number h rp =
    rbind (inspect_page S st page_number (\<lambda>source. replacement_split_index C source h rp)) (\<lambda>middle.
    rbind (allocate S st) (\<lambda>(st, right_page).
    rbind (copy_page S st page_number right_page
      (\<lambda>source output. build_replacement C source h rp middle (replacement_total rp (h_item_count h)) output)) (\<lambda>st.
    rbind (keep_left_replacement C S st page_number h rp middle) (\<lambda>st.
    rbind (first_key C S st right_page (h_level h)) (\<lambda>right_first.
    rbind (first_key C S st page_number (h_level h)) (\<lambda>left_first.
    Inr (st, Some \<lparr> bs_right_page = right_page, bs_right_first = right_first,
                     bs_left_first = left_first, bs_level = h_level h \<rparr>)))))))"

definition apply_replacement ::
  "('k :: linorder, 'l) codec \<Rightarrow> ('s, 'x) store_ops_scheme \<Rightarrow> 's \<Rightarrow> 32 word \<Rightarrow> header \<Rightarrow> replacement
    \<Rightarrow> ('s \<times> 'k branch_split option) result" where
  "apply_replacement C S st page_number h rp =
    rbind (inspect_page S st page_number (\<lambda>source. replacement_fits C source h rp)) (\<lambda>fits.
    if fits then
      rbind (update_page S st page_number (\<lambda>page. apply_cells C page h (rp_index rp) (rp_cells rp))) (\<lambda>st.
      Inr (st, None))
    else split_replacement C S st page_number h rp)"

text \<open>The frame's page: its header and the child the frame's index selects.\<close>

definition frame_child ::
  "('k :: linorder, 'l) codec \<Rightarrow> ('s, 'x) store_ops_scheme \<Rightarrow> 's \<Rightarrow> frame \<Rightarrow> (header \<times> 32 word) result" where
  "frame_child C S st fr =
    inspect_page S st (fr_page fr) (\<lambda>source.
      rbind (parse_page C source (target_txn S st) None) (\<lambda>h.
      rbind (branch_child C source h (fr_index fr) (page_limit S st)) (\<lambda>child.
      Inr (h, child))))"

definition insert_branch ::
  "('k :: linorder, 'l) codec \<Rightarrow> ('s, 'x) store_ops_scheme \<Rightarrow> 's \<Rightarrow> frame \<Rightarrow> 'k \<Rightarrow> 32 word \<Rightarrow> 'k
    \<Rightarrow> ('s \<times> 'k branch_split option) result" where
  "insert_branch C S st fr left_first right_page right_first =
    rbind (frame_child C S st fr) (\<lambda>(h, left_child).
    rbind (branch_buf C left_first left_child) (\<lambda>left.
    rbind (branch_buf C right_first right_page) (\<lambda>right.
    apply_replacement C S st (fr_page fr) h \<lparr> rp_index = fr_index fr, rp_cells = [left, right] \<rparr>)))"

definition replace_first_branch ::
  "('k :: linorder, 'l) codec \<Rightarrow> ('s, 'x) store_ops_scheme \<Rightarrow> 's \<Rightarrow> frame \<Rightarrow> 'k \<Rightarrow> ('s \<times> 'k branch_split option) result" where
  "replace_first_branch C S st fr key =
    rbind (frame_child C S st fr) (\<lambda>(h, child).
    rbind (branch_buf C key child) (\<lambda>replacement.
    apply_replacement C S st (fr_page fr) h \<lparr> rp_index = fr_index fr, rp_cells = [replacement] \<rparr>))"

definition new_root ::
  "('k :: linorder, 'l) codec \<Rightarrow> ('s, 'x) store_ops_scheme \<Rightarrow> 's \<Rightarrow> 32 word \<Rightarrow> 'k \<Rightarrow> 32 word \<Rightarrow> 'k \<Rightarrow> 16 word
    \<Rightarrow> ('s \<times> 32 word) result" where
  "new_root C S st left_page left_first right_page right_first lvl =
    (if lvl > MAX_TREE_LEVEL then Inl (InvalidArgument ''B+tree height limit reached'')
     else
       rbind (allocate S st) (\<lambda>(st, page_number).
       rbind (branch_buf C left_first left_page) (\<lambda>left.
       rbind (branch_buf C right_first right_page) (\<lambda>right.
       rbind (update_page S st page_number (\<lambda>page.
         rbind (appender_new (BRANCH_TYPE C) (target_txn S st) lvl (CODEC_AUX C)) (\<lambda>builder.
         rbind (builder_push builder left) (\<lambda>builder.
         rbind (builder_push builder right) builder_finish)))) (\<lambda>st.
       Inr (st, page_number))))))"

text \<open>The two loops call each other at a smaller depth. \<open>depth\<close> counts the frames of the path
  that are still above the page that changed.\<close>

fun propagate_split_from ::
    "('k :: linorder, 'l) codec \<Rightarrow> ('s, 'x) store_ops_scheme \<Rightarrow> 's \<Rightarrow> 32 word \<Rightarrow> path \<Rightarrow> nat
      \<Rightarrow> 32 word \<Rightarrow> 'k \<Rightarrow> 32 word \<Rightarrow> 'k \<Rightarrow> 16 word \<Rightarrow> ('s \<times> 32 word) result"
  and propagate_first_from ::
    "('k :: linorder, 'l) codec \<Rightarrow> ('s, 'x) store_ops_scheme \<Rightarrow> 's \<Rightarrow> 32 word \<Rightarrow> path \<Rightarrow> nat \<Rightarrow> 'k
      \<Rightarrow> ('s \<times> 32 word) result" where
  "propagate_split_from C S st root path 0 left_page left_first right_page right_first child_level =
    new_root C S st left_page left_first right_page right_first (child_level + 1)"
| "propagate_split_from C S st root path (Suc depth) left_page left_first right_page right_first child_level =
    (let fr = path ! depth in
     case insert_branch C S st fr left_first right_page right_first of
       Inl e \<Rightarrow> Inl e
     | Inr (st, None) \<Rightarrow>
         if fr_index fr = 0 then propagate_first_from C S st root path depth left_first
         else Inr (st, root)
     | Inr (st, Some split) \<Rightarrow>
         propagate_split_from C S st root path depth (fr_page fr) (bs_left_first split)
           (bs_right_page split) (bs_right_first split) (bs_level split))"
| "propagate_first_from C S st root path 0 key = Inr (st, root)"
| "propagate_first_from C S st root path (Suc depth) key =
    (let fr = path ! depth in
     case replace_first_branch C S st fr key of
       Inl e \<Rightarrow> Inl e
     | Inr (st, Some split) \<Rightarrow>
         propagate_split_from C S st root path depth (fr_page fr) (bs_left_first split)
           (bs_right_page split) (bs_right_first split) (bs_level split)
     | Inr (st, None) \<Rightarrow>
         if fr_index fr \<noteq> 0 then Inr (st, root)
         else propagate_first_from C S st root path depth key)"

declare propagate_split_from.simps [simp del] propagate_first_from.simps [simp del]

definition propagate_split ::
  "('k :: linorder, 'l) codec \<Rightarrow> ('s, 'x) store_ops_scheme \<Rightarrow> 's \<Rightarrow> 32 word \<Rightarrow> path
    \<Rightarrow> 32 word \<Rightarrow> 'k \<Rightarrow> 32 word \<Rightarrow> 'k \<Rightarrow> 16 word \<Rightarrow> ('s \<times> 32 word) result" where
  "propagate_split C S st root path left_page left_first right_page right_first child_level =
    propagate_split_from C S st root path (length path) left_page left_first right_page right_first child_level"

definition propagate_first ::
  "('k :: linorder, 'l) codec \<Rightarrow> ('s, 'x) store_ops_scheme \<Rightarrow> 's \<Rightarrow> 32 word \<Rightarrow> path \<Rightarrow> 'k \<Rightarrow> ('s \<times> 32 word) result" where
  "propagate_first C S st root path key = propagate_first_from C S st root path (length path) key"

section \<open>Insertion\<close>

record leaf_target =
  lt_path :: path
  lt_page :: "32 word"
  lt_header :: header
  lt_index :: nat
  lt_exists :: bool

definition inspect_leaf_target :: "(nat \<times> bool) private_leaf \<Rightarrow> leaf_target" where
  "inspect_leaf_target leaf =
    \<lparr> lt_path = pl_path leaf, lt_page = pl_page leaf, lt_header = pl_header leaf,
      lt_index = fst (pl_selection leaf), lt_exists = snd (pl_selection leaf) \<rparr>"

definition locate_leaf ::
  "('k :: linorder, 'l) codec \<Rightarrow> ('s, 'x) store_ops_scheme \<Rightarrow> 's \<Rightarrow> 32 word \<Rightarrow> 'k \<Rightarrow> retired
    \<Rightarrow> ('s \<times> 32 word \<times> retired \<times> leaf_target) result" where
  "locate_leaf C S st root key retired =
    rbind (private_path C S st root key retired) (\<lambda>(st, root, retired, leaf).
    Inr (st, root, retired, inspect_leaf_target leaf))"

definition split_leaf_at ::
  "('k :: linorder, 'l) codec \<Rightarrow> ('s, 'x) store_ops_scheme \<Rightarrow> 's \<Rightarrow> 32 word \<Rightarrow> leaf_target \<Rightarrow> edit \<Rightarrow> nat \<Rightarrow> nat
    \<Rightarrow> ('s \<times> 32 word) result" where
  "split_leaf_at C S st root target ed middle total_count =
    rbind (allocate S st) (\<lambda>(st, right_page).
    rbind (copy_page S st (lt_page target) right_page
      (\<lambda>source output. build_edit C source (lt_header target) ed middle total_count output)) (\<lambda>st.
    rbind (keep_left_edit C S st (lt_page target) (lt_header target) ed middle) (\<lambda>st.
    rbind (first_key C S st (lt_page target) 0) (\<lambda>left_first.
    rbind (first_key C S st right_page 0) (\<lambda>right_first.
    propagate_split C S st root (lt_path target) (lt_page target) left_first right_page right_first 0)))))"

definition split_leaf ::
  "('k :: linorder, 'l) codec \<Rightarrow> ('s, 'x) store_ops_scheme \<Rightarrow> 's \<Rightarrow> 32 word \<Rightarrow> leaf_target \<Rightarrow> edit
    \<Rightarrow> ('s \<times> 32 word) result" where
  "split_leaf C S st root target ed =
    rbind (inspect_page S st (lt_page target) (\<lambda>source. split_index C source (lt_header target) ed)) (\<lambda>middle.
    split_leaf_at C S st root target ed middle (edit_total ed (h_item_count (lt_header target))))"

definition edit_leaf ::
  "('k :: linorder, 'l) codec \<Rightarrow> ('s, 'x) store_ops_scheme \<Rightarrow> 's \<Rightarrow> 32 word \<Rightarrow> bytes \<Rightarrow> leaf_target
    \<Rightarrow> ('s \<times> 32 word \<times> bool) result" where
  "edit_leaf C S st root c target =
    (let ed = \<lparr> ed_index = lt_index target, ed_replace = lt_exists target, ed_cell = c \<rparr> in
     rbind (inspect_page S st (lt_page target) (\<lambda>page. edit_fits C page (lt_header target) ed)) (\<lambda>fits.
     if \<not> fits then
       rbind (split_leaf C S st root target ed) (\<lambda>(st, root). Inr (st, root, True))
     else
       rbind (apply_leaf_edit C S st (lt_page target) (lt_header target) ed) (\<lambda>st.
       rbind (if lt_index target = 0 then
                rbind (read_key C c 0) (\<lambda>key. propagate_first C S st root (lt_path target) key)
              else Inr (st, root)) (\<lambda>(st, root).
       Inr (st, root, \<not> lt_exists target)))))"

definition insert_leaf ::
  "('k :: linorder, 'l) codec \<Rightarrow> ('s, 'x) store_ops_scheme \<Rightarrow> 's \<Rightarrow> 32 word \<Rightarrow> bytes \<Rightarrow> retired
    \<Rightarrow> ('s \<times> 32 word \<times> retired \<times> bool) result" where
  "insert_leaf C S st root c retired =
    rbind (require_leaf C c) (\<lambda>_.
    if root = 0 then
      rbind (new_leaf C S st c) (\<lambda>(st, root). Inr (st, root, retired, True))
    else
      rbind (read_key C c 0) (\<lambda>key.
      rbind (locate_leaf C S st root key retired) (\<lambda>(st, root, retired, target).
      rbind (edit_leaf C S st root c target) (\<lambda>(st, root, inserted).
      Inr (st, root, retired, inserted)))))"

definition replace_target ::
  "('k :: linorder, 'l) codec \<Rightarrow> ('s, 'x) store_ops_scheme \<Rightarrow> 's \<Rightarrow> 32 word \<Rightarrow> leaf_target \<Rightarrow> bytes list
    \<Rightarrow> ('s \<times> 32 word) result" where
  "replace_target C S st root target cells =
    rbind (apply_replacement C S st (lt_page target) (lt_header target)
      \<lparr> rp_index = lt_index target, rp_cells = cells \<rparr>) (\<lambda>(st, split).
    case split of
      None \<Rightarrow> Inr (st, root)
    | Some split \<Rightarrow>
        if bs_level split \<noteq> 0 then Inl (Corrupt ''B+tree leaf replacement changed level'')
        else propagate_split C S st root (lt_path target) (lt_page target) (bs_left_first split)
          (bs_right_page split) (bs_right_first split) 0)"

definition replace_leaf_with ::
  "('k :: linorder, 'l) codec \<Rightarrow> ('s, 'x) store_ops_scheme \<Rightarrow> 's \<Rightarrow> 32 word \<Rightarrow> 'k \<Rightarrow> bytes list \<Rightarrow> retired
    \<Rightarrow> ('s \<times> 32 word \<times> retired) result" where
  "replace_leaf_with C S st root key cells retired =
    rbind (require_replacement C key cells) (\<lambda>_.
    rbind (private_path C S st root key retired) (\<lambda>(st, root, retired, leaf).
    let target = inspect_leaf_target leaf in
    if \<not> lt_exists target then Inl (Corrupt ''B+tree replacement key is missing'')
    else rbind (replace_target C S st root target cells) (\<lambda>(st, root).
      Inr (st, root, retired))))"

definition insert_retiring ::
  "('k :: linorder, 'l) codec \<Rightarrow> ('s, 'x) retiring_ops_scheme \<Rightarrow> 's \<Rightarrow> 32 word \<Rightarrow> bytes
    \<Rightarrow> ('s \<times> 32 word \<times> bool) result" where
  "insert_retiring C S st root c =
    rbind (insert_leaf C S st root c []) (\<lambda>(st, root, retired, inserted).
    rbind (retire_pages S st retired) (\<lambda>st.
    Inr (st, root, inserted)))"

section \<open>Deletion\<close>

record delete_target_t =
  dt_path :: path
  dt_page :: "32 word"
  dt_header :: header
  dt_index :: nat

definition remove_slot_at :: "('k, 'l) codec \<Rightarrow> bytes \<Rightarrow> header \<Rightarrow> nat \<Rightarrow> bytes result" where
  "remove_slot_at C page h index =
    rbind (codec_cell C page h index) (\<lambda>old. remove_slot page h index (length old))"

definition remove_leaf_record ::
  "('k :: linorder, 'l) codec \<Rightarrow> ('s, 'x) store_ops_scheme \<Rightarrow> 's \<Rightarrow> 32 word \<Rightarrow> delete_target_t \<Rightarrow> ('s \<times> 32 word) result" where
  "remove_leaf_record C S st root target =
    rbind (update_page S st (dt_page target) (\<lambda>page.
      remove_slot_at C page (dt_header target) (dt_index target))) (\<lambda>st.
    if dt_index target \<noteq> 0 then Inr (st, root)
    else rbind (first_key C S st (dt_page target) 0) (\<lambda>first.
      propagate_first C S st root (dt_path target) first))"

text \<open>The loop of \<open>remove_empty_child\<close>: \<open>depth\<close> frames are left above the page that is gone.\<close>

fun remove_empty_from ::
  "('k :: linorder, 'l) codec \<Rightarrow> ('s, 'x) store_ops_scheme \<Rightarrow> 's \<Rightarrow> 32 word \<Rightarrow> path \<Rightarrow> nat \<Rightarrow> ('s \<times> 32 word) result" where
  "remove_empty_from C S st root path 0 = Inr (st, root)"
| "remove_empty_from C S st root path (Suc depth) =
    (let fr = path ! depth in
     case inspect_page S st (fr_page fr) (\<lambda>page. parse_page C page (target_txn S st) None) of
       Inl e \<Rightarrow> Inl e
     | Inr h \<Rightarrow>
         if h_item_count h = 1 then
           (case discard_private S st (fr_page fr) of
              Inl e \<Rightarrow> Inl e
            | Inr st \<Rightarrow> if depth = 0 then Inr (st, 0) else remove_empty_from C S st root path depth)
         else
           rbind (update_page S st (fr_page fr) (\<lambda>page. remove_slot_at C page h (fr_index fr))) (\<lambda>st.
           if depth = 0 \<and> h_item_count h - 1 = 1 then
             rbind (inspect_page S st (fr_page fr) (\<lambda>page.
               rbind (parse_page C page (target_txn S st) (Some (h_level h))) (\<lambda>output.
               branch_child C page output 0 (page_limit S st)))) (\<lambda>child.
             rbind (discard_private S st (fr_page fr)) (\<lambda>st.
             Inr (st, child)))
           else if fr_index fr = 0 then
             rbind (first_key C S st (fr_page fr) (h_level h)) (\<lambda>first.
             propagate_first_from C S st root path depth first)
           else Inr (st, root)))"

declare remove_empty_from.simps [simp del]

definition remove_empty_child ::
  "('k :: linorder, 'l) codec \<Rightarrow> ('s, 'x) store_ops_scheme \<Rightarrow> 's \<Rightarrow> 32 word \<Rightarrow> path \<Rightarrow> ('s \<times> 32 word) result" where
  "remove_empty_child C S st root path =
    (if path = [] then Inr (st, 0) else remove_empty_from C S st root path (length path))"

definition delete_target ::
  "('k :: linorder, 'l) codec \<Rightarrow> ('s, 'x) store_ops_scheme \<Rightarrow> 's \<Rightarrow> 32 word \<Rightarrow> delete_target_t \<Rightarrow> ('s \<times> 32 word) result" where
  "delete_target C S st root target =
    (if h_item_count (dt_header target) > 1 then remove_leaf_record C S st root target
     else
       rbind (discard_private S st (dt_page target)) (\<lambda>st.
       remove_empty_child C S st root (dt_path target)))"

definition locate_existing ::
  "('k :: linorder, 'l) codec \<Rightarrow> ('s, 'x) store_ops_scheme \<Rightarrow> 's \<Rightarrow> 32 word \<Rightarrow> 'k \<Rightarrow> retired
    \<Rightarrow> ('s \<times> 32 word \<times> retired \<times> delete_target_t) result" where
  "locate_existing C S st root key retired =
    rbind (private_path C S st root key retired) (\<lambda>(st, root, retired, leaf).
    if \<not> snd (pl_selection leaf) then Inl (Corrupt ''B+tree key disappeared during deletion'')
    else Inr (st, root, retired,
      \<lparr> dt_path = pl_path leaf, dt_page = pl_page leaf, dt_header = pl_header leaf,
        dt_index = fst (pl_selection leaf) \<rparr>))"

definition delete_existing ::
  "('k :: linorder, 'l) codec \<Rightarrow> ('s, 'x) store_ops_scheme \<Rightarrow> 's \<Rightarrow> 32 word \<Rightarrow> 'k \<Rightarrow> retired
    \<Rightarrow> ('s \<times> 32 word \<times> retired) result" where
  "delete_existing C S st root key retired =
    rbind (locate_existing C S st root key retired) (\<lambda>(st, root, retired, target).
    rbind (delete_target C S st root target) (\<lambda>(st, root).
    Inr (st, root, retired)))"

definition delete_retiring ::
  "('k :: linorder, 'l) codec \<Rightarrow> ('s, 'x) retiring_ops_scheme \<Rightarrow> 's \<Rightarrow> 32 word \<Rightarrow> 'k \<Rightarrow> ('s \<times> 32 word) result" where
  "delete_retiring C S st root key =
    rbind (delete_existing C S st root key []) (\<lambda>(st, root, retired).
    rbind (retire_pages S st retired) (\<lambda>st.
    Inr (st, root)))"

end
