(* ===== verification/TreeCursor.thy ===== *)
theory TreeCursor
  imports FixedTree
begin

text \<open>
  Reading a tree (\<open>fixed_tree/query.rs\<close>, \<open>fixed_tree/cursor.rs\<close>, \<open>fixed_tree/read.rs\<close>): the
  root-to-leaf query, the ordered cursor with its three kinds of access, the one-shot
  predecessor and successor lookups through it, and the neighbour of a leaf across a path. The
  policies and item readers the source passes as traits are functions.
\<close>

section \<open>Query\<close>

type_synonym 'o leaf_query = "bytes \<Rightarrow> header \<Rightarrow> 32 word \<Rightarrow> nat \<Rightarrow> bool \<Rightarrow> 'o option result"

datatype 'o query_step = QFound "'o option" | QDescend "32 word" "16 word"

definition query_page ::
  "('k :: linorder, 'l) codec \<Rightarrow> page_source \<Rightarrow> 'k \<Rightarrow> 'o leaf_query \<Rightarrow> 32 word \<Rightarrow> 16 word option \<Rightarrow> 'o query_step result" where
  "query_page C source key leaf page_number expected_level =
    rbind (view_page source page_number) (\<lambda>page.
    rbind (parse_page C page (selected_txn source) expected_level) (\<lambda>h.
    if h_level h = 0 then
      rbind (lower_bound C page h key True) (\<lambda>(position, exact).
      rmap QFound (leaf page h page_number position exact))
    else
      rbind (lower_bound C page h key False) (\<lambda>(position, _).
      rbind (branch_child C page h position (selected_page_limit source)) (\<lambda>child.
      Inr (QDescend child (h_level h - 1))))))"

fun query_loop ::
  "('k :: linorder, 'l) codec \<Rightarrow> page_source \<Rightarrow> 'k \<Rightarrow> 'o leaf_query \<Rightarrow> nat \<Rightarrow> 32 word \<Rightarrow> 16 word option \<Rightarrow> 'o option result" where
  "query_loop C source key leaf 0 page_number expected_level =
    Inl (Corrupt ''B+tree exceeds its maximum height'')"
| "query_loop C source key leaf (Suc turns) page_number expected_level =
    rbind (query_page C source key leaf page_number expected_level) (\<lambda>step.
    case step of
      QFound result \<Rightarrow> Inr result
    | QDescend child lvl \<Rightarrow> query_loop C source key leaf turns child (Some lvl))"

definition query ::
  "('k :: linorder, 'l) codec \<Rightarrow> page_source \<Rightarrow> 32 word \<Rightarrow> 'k \<Rightarrow> 'o leaf_query \<Rightarrow> 'o option result" where
  "query C source root key leaf =
    (if root = 0 then Inr None
     else query_loop C source key leaf (unat MAX_TREE_LEVEL + 1) root None)"

section \<open>Cursor state\<close>

datatype direction = Forward | Backward

datatype seek_position = Index nat | NextLeaf | Finished

type_synonym 'o item_reader = "bytes \<Rightarrow> header \<Rightarrow> 32 word \<Rightarrow> nat \<Rightarrow> 'o result"
type_synonym seek_policy = "bytes \<Rightarrow> header \<Rightarrow> nat \<Rightarrow> bool \<Rightarrow> direction \<Rightarrow> seek_position result"

record cursor_frame =
  cf_page :: "32 word"
  cf_index :: nat
  cf_item_count :: nat
  cf_level :: "16 word"

record cursor =
  cu_selected_txn :: "64 word"
  cu_page_limit :: "64 word"
  cu_root :: "32 word"
  cu_direction :: direction
  cu_path :: "cursor_frame list"
  cu_leaf :: "(32 word \<times> header) option"
  cu_index :: nat
  cu_needs_advance :: bool
  cu_finished :: bool

record 's access =
  ac_selected_txn :: "'s \<Rightarrow> 64 word"
  ac_page_limit :: "'s \<Rightarrow> 64 word"
  ac_consumed_txn :: "'s \<Rightarrow> 64 word option"
  ac_view_page :: "'s \<Rightarrow> 32 word \<Rightarrow> bytes result"
  ac_discard :: "'s \<Rightarrow> 32 word \<Rightarrow> 's result"

definition shared_access :: "page_source access" where
  "shared_access = \<lparr> ac_selected_txn = selected_txn, ac_page_limit = selected_page_limit,
     ac_consumed_txn = (\<lambda>_. None), ac_view_page = view_page, ac_discard = (\<lambda>source _. Inr source) \<rparr>"

definition consuming_access :: "('s, 'x) store_ops_scheme \<Rightarrow> 64 word \<Rightarrow> 64 word \<Rightarrow> 's access" where
  "consuming_access S txn limit = \<lparr> ac_selected_txn = (\<lambda>_. txn), ac_page_limit = (\<lambda>_. limit),
     ac_consumed_txn = (\<lambda>_. Some txn), ac_view_page = read_page S, ac_discard = discard_private S \<rparr>"

definition edge_index :: "direction \<Rightarrow> header \<Rightarrow> nat" where
  "edge_index dir h = (case dir of Forward \<Rightarrow> 0 | Backward \<Rightarrow> h_item_count h - 1)"

definition cursor_push :: "cursor \<Rightarrow> 32 word \<Rightarrow> nat \<Rightarrow> header \<Rightarrow> cursor result" where
  "cursor_push self page_number index h =
    (if length (cu_path self) < MAX_PATH then
       Inr (self \<lparr> cu_path := cu_path self @
         [\<lparr> cf_page = page_number, cf_index = index, cf_item_count = h_item_count h, cf_level = h_level h \<rparr>] \<rparr>)
     else Inl (Corrupt ''B+tree exceeds its maximum height''))"

definition set_leaf :: "cursor \<Rightarrow> 32 word \<Rightarrow> header \<Rightarrow> nat \<Rightarrow> cursor" where
  "set_leaf self page_number h index =
    self \<lparr> cu_leaf := Some (page_number, h), cu_index := index, cu_needs_advance := False, cu_finished := False \<rparr>"

definition require_access :: "'s access \<Rightarrow> 's \<Rightarrow> cursor \<Rightarrow> unit result" where
  "require_access A st self =
    (if ac_selected_txn A st \<noteq> cu_selected_txn self \<or> ac_page_limit A st \<noteq> cu_page_limit self
     then Inl (Corrupt ''B+tree cursor source changed'') else Inr ())"

definition unpositioned :: "'s access \<Rightarrow> 's \<Rightarrow> 32 word \<Rightarrow> direction \<Rightarrow> cursor result" where
  "unpositioned A st root dir =
    (if root \<noteq> 0 \<and> (root < 2 \<or> ucast root \<ge> ac_page_limit A st)
     then Inl (Corrupt ''B+tree root is outside page bounds'')
     else Inr \<lparr> cu_selected_txn = ac_selected_txn A st, cu_page_limit = ac_page_limit A st, cu_root = root,
       cu_direction = dir, cu_path = [], cu_leaf = None, cu_index = 0, cu_needs_advance = False,
       cu_finished = (root = 0) \<rparr>)"

section \<open>Moving\<close>

definition edge_page ::
  "('k :: linorder, 'l) codec \<Rightarrow> 's access \<Rightarrow> 's \<Rightarrow> cursor \<Rightarrow> 32 word \<Rightarrow> 16 word option \<Rightarrow> (header \<times> 32 word option) result" where
  "edge_page C A st self page_number expected_level =
    rbind (ac_view_page A st page_number) (\<lambda>page.
    rbind (parse_page C page (cu_selected_txn self) expected_level) (\<lambda>h.
    if (case ac_consumed_txn A st of None \<Rightarrow> False | Some txn \<Rightarrow> born_txn page \<noteq> txn)
    then Inl (Corrupt ''consumed B+tree contains a committed page'')
    else if h_level h = 0 then Inr (h, None)
    else rbind (branch_child C page h (edge_index (cu_direction self) h) (cu_page_limit self)) (\<lambda>child.
      Inr (h, Some child))))"

function descend_edge ::
  "('k :: linorder, 'l) codec \<Rightarrow> 's access \<Rightarrow> 's \<Rightarrow> cursor \<Rightarrow> 32 word \<Rightarrow> 16 word option \<Rightarrow> cursor result" where
  "descend_edge C A st self page_number expected_level =
    (case edge_page C A st self page_number expected_level of
       Inl e \<Rightarrow> Inl e
     | Inr (h, None) \<Rightarrow> Inr (set_leaf self page_number h (edge_index (cu_direction self) h))
     | Inr (h, Some child) \<Rightarrow>
         (case cursor_push self page_number (edge_index (cu_direction self) h) h of
            Inl e \<Rightarrow> Inl e
          | Inr self \<Rightarrow> descend_edge C A st self child (Some (h_level h - 1))))"
  by auto
termination
  by (relation "measure (\<lambda>(_, _, _, self, _). MAX_PATH - length (cu_path self))")
    (auto simp: cursor_push_def split: if_splits)

declare descend_edge.simps [simp del]

definition has_sibling :: "direction \<Rightarrow> cursor_frame \<Rightarrow> bool" where
  "has_sibling dir fr =
    (case dir of Forward \<Rightarrow> cf_index fr + 1 < cf_item_count fr | Backward \<Rightarrow> cf_index fr > 0)"

definition step_index :: "direction \<Rightarrow> nat \<Rightarrow> nat" where
  "step_index dir index = (case dir of Forward \<Rightarrow> index + 1 | Backward \<Rightarrow> index - 1)"

text \<open>The loop of \<open>advance_leaf\<close>; \<open>depth\<close> frames of the path are left.\<close>

fun advance_leaf_from ::
  "('k :: linorder, 'l) codec \<Rightarrow> 's access \<Rightarrow> 's \<Rightarrow> cursor \<Rightarrow> nat \<Rightarrow> ('s \<times> cursor) result" where
  "advance_leaf_from C A st self 0 =
    Inr (st, self \<lparr> cu_path := [], cu_needs_advance := False, cu_finished := True \<rparr>)"
| "advance_leaf_from C A st self (Suc slot) =
    (let fr = cu_path self ! slot in
     if \<not> has_sibling (cu_direction self) fr then
       (case ac_discard A st (cf_page fr) of
          Inl e \<Rightarrow> Inl e
        | Inr st \<Rightarrow> advance_leaf_from C A st (self \<lparr> cu_path := take slot (cu_path self) \<rparr>) slot)
     else
       let fr = fr \<lparr> cf_index := step_index (cu_direction self) (cf_index fr) \<rparr>;
           self = self \<lparr> cu_path := take slot (cu_path self) @ [fr] \<rparr> in
       rbind (rbind (ac_view_page A st (cf_page fr)) (\<lambda>page.
         rbind (parse_page C page (cu_selected_txn self) (Some (cf_level fr))) (\<lambda>h.
         if h_item_count h \<noteq> cf_item_count fr
         then Inl (Corrupt ''B+tree branch changed during traversal'')
         else branch_child C page h (cf_index fr) (cu_page_limit self)))) (\<lambda>child.
       rbind (descend_edge C A st self child (Some (cf_level fr - 1))) (\<lambda>self.
       Inr (st, self))))"

definition advance_leaf ::
  "('k :: linorder, 'l) codec \<Rightarrow> 's access \<Rightarrow> 's \<Rightarrow> cursor \<Rightarrow> ('s \<times> cursor) result" where
  "advance_leaf C A st self =
    advance_leaf_from C A st (self \<lparr> cu_leaf := None \<rparr>) (length (cu_path self))"

definition expect_leaf :: "cursor \<Rightarrow> (32 word \<times> header) result" where
  "expect_leaf self = ok_or (Panicked ''active B+tree cursor has a leaf'') (cu_leaf self)"

definition advance ::
  "('k :: linorder, 'l) codec \<Rightarrow> 's access \<Rightarrow> 's \<Rightarrow> cursor \<Rightarrow> ('s \<times> cursor) result" where
  "advance C A st self =
    rbind (expect_leaf self) (\<lambda>(page_number, h).
    if (case cu_direction self of Forward \<Rightarrow> cu_index self + 1 < h_item_count h | Backward \<Rightarrow> cu_index self > 0)
    then Inr (st, self \<lparr> cu_index := step_index (cu_direction self) (cu_index self), cu_needs_advance := False \<rparr>)
    else rbind (ac_discard A st page_number) (\<lambda>st. advance_leaf C A st self))"

definition next_inner ::
  "('k :: linorder, 'l) codec \<Rightarrow> 's access \<Rightarrow> 's \<Rightarrow> cursor \<Rightarrow> 'o item_reader \<Rightarrow> bool
    \<Rightarrow> ('s \<times> cursor \<times> 'o option) result" where
  "next_inner C A st self item eager_advance =
    rbind (require_access A st self) (\<lambda>_.
    if cu_finished self then Inr (st, self, None)
    else
      rbind (if cu_needs_advance self then advance C A st self else Inr (st, self)) (\<lambda>(st, self).
      if cu_finished self then Inr (st, self, None)
      else
        rbind (expect_leaf self) (\<lambda>(page_number, h).
        rbind (rbind (ac_view_page A st page_number) (\<lambda>page. item page h page_number (cu_index self))) (\<lambda>result.
        let self = self \<lparr> cu_needs_advance := True \<rparr> in
        rbind (if eager_advance then advance C A st self else Inr (st, self)) (\<lambda>(st, self).
        Inr (st, self, Some result))))))"

definition open_cursor ::
  "('k :: linorder, 'l) codec \<Rightarrow> 's access \<Rightarrow> 's \<Rightarrow> 32 word \<Rightarrow> direction \<Rightarrow> cursor result" where
  "open_cursor C A st root dir =
    rbind (unpositioned A st root dir) (\<lambda>self.
    if cu_finished self then Inr self else descend_edge C A st self root None)"

text \<open>The public entry points. After an error the cursor is finished: \<open>next\<close> answers \<open>None\<close> from then on, and a
  seek sets every field of the position before it reads it (\<open>seek_forgets\<close>), so the position at which a call failed, which nothing can
  observe, is not kept.\<close>

definition cursor_new :: "('k :: linorder, 'l) codec \<Rightarrow> page_source \<Rightarrow> 32 word \<Rightarrow> direction \<Rightarrow> cursor result" where
  "cursor_new C source root dir = open_cursor C shared_access source root dir"

definition cursor_new_consuming ::
  "('k :: linorder, 'l) codec \<Rightarrow> ('s, 'x) store_ops_scheme \<Rightarrow> 's \<Rightarrow> 32 word \<Rightarrow> direction \<Rightarrow> cursor result" where
  "cursor_new_consuming C S st root dir =
    open_cursor C (consuming_access S (target_txn S st) (page_limit S st)) st root dir"

definition cursor_next ::
  "('k :: linorder, 'l) codec \<Rightarrow> page_source \<Rightarrow> cursor \<Rightarrow> 'o item_reader \<Rightarrow> cursor \<times> 'o option result" where
  "cursor_next C source self item =
    (case next_inner C shared_access source self item False of
       Inl e \<Rightarrow> (self \<lparr> cu_finished := True \<rparr>, Inl e)
     | Inr (_, self, result) \<Rightarrow> (self, Inr result))"

definition next_leaf_mapped ::
  "('k :: linorder, 'l) codec \<Rightarrow> page_source \<Rightarrow> cursor \<Rightarrow> cursor \<times> 'l option result" where
  "next_leaf_mapped C source self =
    (case (if cu_finished self then Inr (self, None)
      else rbind (if cu_needs_advance self then rmap snd (advance C shared_access source self) else Inr self) (\<lambda>self.
        if cu_finished self then Inr (self, None)
        else
          rbind (expect_leaf self) (\<lambda>(page_number, h).
          rbind (view_page source page_number) (\<lambda>page.
          rbind (rbind (leaf_cell C page h (cu_index self)) (read_leaf C)) (\<lambda>result.
          Inr (self \<lparr> cu_needs_advance := True \<rparr>, Some result)))))) of
       Inl e \<Rightarrow> (self \<lparr> cu_finished := True \<rparr>, Inl e)
     | Inr (self, result) \<Rightarrow> (self, Inr result))"

definition cursor_next_consuming ::
  "('k :: linorder, 'l) codec \<Rightarrow> ('s, 'x) store_ops_scheme \<Rightarrow> 's \<Rightarrow> cursor \<Rightarrow> 'o item_reader
    \<Rightarrow> ('s \<times> cursor \<times> 'o option) result" where
  "cursor_next_consuming C S st self item =
    (if target_txn S st \<noteq> cu_selected_txn self \<or> page_limit S st < cu_page_limit self
     then Inl (Corrupt ''B+tree cursor source changed'')
     else next_inner C (consuming_access S (cu_selected_txn self) (cu_page_limit self)) st self item True)"

section \<open>Seeking\<close>

datatype 'o seek_step =
    SFinished
  | SLeaf header seek_position "'o option"
  | SBranch header nat "32 word"

definition seek_page ::
  "('k :: linorder, 'l) codec \<Rightarrow> 's access \<Rightarrow> 's \<Rightarrow> cursor \<Rightarrow> 'k \<Rightarrow> seek_policy \<Rightarrow> 'o item_reader \<Rightarrow> 32 word
    \<Rightarrow> 16 word option \<Rightarrow> 'o seek_step result" where
  "seek_page C A st self key policy item page_number expected_level =
    rbind (ac_view_page A st page_number) (\<lambda>page.
    rbind (parse_page C page (cu_selected_txn self) expected_level) (\<lambda>h.
    rbind (lower_bound C page h key True) (\<lambda>(position, exact).
    if h_level h = 0 then
      rbind (policy page h position exact (cu_direction self)) (\<lambda>selected.
      rbind (case selected of
               Index index \<Rightarrow>
                 if index \<ge> h_item_count h then Inl (Corrupt ''B+tree seek index is invalid'')
                 else rmap Some (item page h page_number index)
             | NextLeaf \<Rightarrow> Inr None
             | Finished \<Rightarrow> Inr None) (\<lambda>output.
      Inr (SLeaf h selected output)))
    else
      let found = (if exact then Some position else usize_checked_sub position 1) in
      case (found, cu_direction self) of
        (None, Backward) \<Rightarrow> Inr SFinished
      | _ \<Rightarrow>
        let index = (case found of Some index \<Rightarrow> index | None \<Rightarrow> 0) in
        rbind (branch_child C page h index (cu_page_limit self)) (\<lambda>child.
        Inr (SBranch h index child)))))"

definition read_current ::
  "'s access \<Rightarrow> 's \<Rightarrow> cursor \<Rightarrow> 'o item_reader \<Rightarrow> 'o option result" where
  "read_current A st self item =
    (if cu_finished self then Inr None
     else
       rbind (expect_leaf self) (\<lambda>(page_number, h).
       rbind (ac_view_page A st page_number) (\<lambda>page.
       rmap Some (item page h page_number (cu_index self)))))"

function seek_loop ::
  "('k :: linorder, 'l) codec \<Rightarrow> 's access \<Rightarrow> 's \<Rightarrow> cursor \<Rightarrow> 'k \<Rightarrow> seek_policy \<Rightarrow> 'o item_reader \<Rightarrow> 32 word
    \<Rightarrow> 16 word option \<Rightarrow> ('s \<times> cursor \<times> 'o option) result" where
  "seek_loop C A st self key policy item page_number expected_level =
    (case seek_page C A st self key policy item page_number expected_level of
       Inl e \<Rightarrow> Inl e
     | Inr SFinished \<Rightarrow> Inr (st, self \<lparr> cu_finished := True \<rparr>, None)
     | Inr (SLeaf h selected output) \<Rightarrow>
         (case selected of
            Index index \<Rightarrow> Inr (st, set_leaf self page_number h index, output)
          | NextLeaf \<Rightarrow>
              rbind (advance_leaf C A st (set_leaf self page_number h (h_item_count h - 1))) (\<lambda>(st, self).
              rbind (read_current A st self item) (\<lambda>output.
              Inr (st, self, output)))
          | Finished \<Rightarrow> Inr (st, self \<lparr> cu_finished := True \<rparr>, None))
     | Inr (SBranch h index child) \<Rightarrow>
         (case cursor_push self page_number index h of
            Inl e \<Rightarrow> Inl e
          | Inr self \<Rightarrow> seek_loop C A st self key policy item child (Some (h_level h - 1))))"
  by auto
termination
  by (relation "measure (\<lambda>(_, _, _, self, _). MAX_PATH - length (cu_path self))")
    (auto simp: cursor_push_def split: if_splits)

declare seek_loop.simps [simp del]

definition seek_read_inner ::
  "('k :: linorder, 'l) codec \<Rightarrow> 's access \<Rightarrow> 's \<Rightarrow> cursor \<Rightarrow> 'k \<Rightarrow> seek_policy \<Rightarrow> 'o item_reader
    \<Rightarrow> ('s \<times> cursor \<times> 'o option) result" where
  "seek_read_inner C A st self key policy item =
    rbind (require_access A st self) (\<lambda>_.
    let self = self \<lparr> cu_path := [], cu_leaf := None, cu_needs_advance := False, cu_finished := (cu_root self = 0) \<rparr> in
    if cu_finished self then Inr (st, self, None)
    else seek_loop C A st self key policy item (cu_root self) None)"

definition cursor_seek ::
  "('k :: linorder, 'l) codec \<Rightarrow> page_source \<Rightarrow> cursor \<Rightarrow> 'k \<Rightarrow> seek_policy \<Rightarrow> cursor \<times> unit result" where
  "cursor_seek C source self key policy =
    (case seek_read_inner C shared_access source self key policy (\<lambda>_ _ _ _. Inr ()) of
       Inl e \<Rightarrow> (self \<lparr> cu_finished := True \<rparr>, Inl e)
     | Inr (_, self, _) \<Rightarrow> (self, Inr ()))"

definition lookup ::
  "('k :: linorder, 'l) codec \<Rightarrow> page_source \<Rightarrow> 32 word \<Rightarrow> direction \<Rightarrow> 'k \<Rightarrow> seek_policy \<Rightarrow> 'o item_reader
    \<Rightarrow> 'o option result" where
  "lookup C source root dir key policy item =
    rbind (unpositioned shared_access source root dir) (\<lambda>self.
    rbind (seek_read_inner C shared_access source self key policy item) (\<lambda>(_, _, output).
    Inr output))"

section \<open>One-shot reads\<close>

definition previous_policy :: seek_policy where
  "previous_policy page h position exact dir =
    (if exact then Inr (Index position)
     else Inr (case usize_checked_sub position 1 of None \<Rightarrow> Finished | Some index \<Rightarrow> Index index))"

definition current_or_next :: seek_policy where
  "current_or_next page h position exact dir =
    Inr (if position < h_item_count h then Index position else NextLeaf)"

definition read_leaf_item :: "('k, 'l) codec \<Rightarrow> 'l item_reader" where
  "read_leaf_item C page h page_number index = rbind (leaf_cell C page h index) (read_leaf C)"

record leaf_location =
  ll_page :: "32 word"
  ll_header :: header
  ll_index :: nat

definition read_located_item :: "('k, 'l) codec \<Rightarrow> (leaf_location \<times> 'l) item_reader" where
  "read_located_item C page h page_number index =
    rbind (rbind (leaf_cell C page h index) (read_leaf C)) (\<lambda>leaf.
    Inr (\<lparr> ll_page = page_number, ll_header = h, ll_index = index \<rparr>, leaf))"

definition predecessor :: "('k :: linorder, 'l) codec \<Rightarrow> page_source \<Rightarrow> 32 word \<Rightarrow> 'k \<Rightarrow> 'l option result" where
  "predecessor C source root key = lookup C source root Backward key previous_policy (read_leaf_item C)"

definition predecessor_located ::
  "('k :: linorder, 'l) codec \<Rightarrow> page_source \<Rightarrow> 32 word \<Rightarrow> 'k \<Rightarrow> (leaf_location \<times> 'l) option result" where
  "predecessor_located C source root key =
    lookup C source root Backward key previous_policy (read_located_item C)"

definition at_or_after :: "('k :: linorder, 'l) codec \<Rightarrow> page_source \<Rightarrow> 32 word \<Rightarrow> 'k \<Rightarrow> 'l option result" where
  "at_or_after C source root key = lookup C source root Forward key current_or_next (read_leaf_item C)"

definition inspect_leaf ::
  "('k :: linorder, 'l) codec \<Rightarrow> page_source \<Rightarrow> leaf_location \<Rightarrow> (bytes \<Rightarrow> 'o result) \<Rightarrow> 'o result" where
  "inspect_leaf C source location inspect =
    rbind (view_page source (ll_page location)) (\<lambda>page.
    rbind (parse_page C page (selected_txn source) (Some 0)) (\<lambda>h.
    if h_item_count h \<noteq> h_item_count (ll_header location)
    then Inl (Corrupt ''B+tree leaf changed during inspection'')
    else rbind (leaf_cell C page h (ll_index location)) inspect))"

text \<open>A seek does not depend on the position of the cursor, and a finished cursor answers \<open>None\<close>.\<close>

lemma seek_forgets:
  "seek_read_inner C A st (self \<lparr> cu_path := p, cu_leaf := l, cu_needs_advance := a, cu_finished := f \<rparr>) key policy item
    = seek_read_inner C A st self key policy item"
  by (simp add: seek_read_inner_def require_access_def Let_def)

lemma next_finished:
  "cu_finished self \<Longrightarrow> require_access shared_access source self = Inr () \<Longrightarrow> cursor_next C source self item = (self, Inr None)"
  by (simp add: cursor_next_def next_inner_def)

end
