(* ===== verification/Contract.thy ===== *)
theory Contract
  imports MappedBytes
begin

text \<open>
  The wire enumerations and the value tag of \<open>contract.rs\<close>: address family, value kind,
  structure kind, direct semantic, membership operation, and the 16-byte NUL-padded tag.
\<close>

section \<open>Enumerations\<close>

datatype address_family = Ipv4 | Ipv6

primrec family_wire :: "address_family \<Rightarrow> 8 word" where
  "family_wire Ipv4 = 4"
| "family_wire Ipv6 = 6"

definition family_from_wire :: "8 word \<Rightarrow> address_family option" where
  "family_from_wire value = (if value = 4 then Some Ipv4 else if value = 6 then Some Ipv6 else None)"

datatype value_kind = VDirect | VMembership | VStructured

primrec value_kind_wire :: "value_kind \<Rightarrow> 8 word" where
  "value_kind_wire VDirect = 1"
| "value_kind_wire VMembership = 2"
| "value_kind_wire VStructured = 3"

definition value_kind_from_wire :: "8 word \<Rightarrow> value_kind option" where
  "value_kind_from_wire value =
    (if value = 1 then Some VDirect else if value = 2 then Some VMembership
     else if value = 3 then Some VStructured else None)"

datatype structure_kind = SNone | NetworkEnrichmentV1

primrec structure_kind_wire :: "structure_kind \<Rightarrow> 8 word" where
  "structure_kind_wire SNone = 0"
| "structure_kind_wire NetworkEnrichmentV1 = 1"

definition structure_kind_from_wire :: "8 word \<Rightarrow> structure_kind option" where
  "structure_kind_from_wire value =
    (if value = 0 then Some SNone else if value = 1 then Some NetworkEnrichmentV1 else None)"

datatype direct_semantic = Generic | FirstSeen | LastSeen

datatype membership_operation = Replace | Union | Difference | Intersection | Xor

lemma family_wire_inverse [simp]: "family_from_wire (family_wire f) = Some f"
  by (cases f) (simp_all add: family_from_wire_def)

lemma value_kind_wire_inverse [simp]: "value_kind_from_wire (value_kind_wire k) = Some k"
  by (cases k) (simp_all add: value_kind_from_wire_def)

lemma structure_kind_wire_inverse [simp]: "structure_kind_from_wire (structure_kind_wire k) = Some k"
  by (cases k) (simp_all add: structure_kind_from_wire_def)

section \<open>Value tags\<close>

type_synonym value_tag = bytes

definition tag_new :: "bytes \<Rightarrow> value_tag option" where
  "tag_new bs =
    (if length bs > 15 \<or> 0 \<in> set bs then None
     else Some (wr (replicate 16 0) 0 bs))"

fun position_zero :: "bytes \<Rightarrow> nat option" where
  "position_zero [] = None"
| "position_zero (b # bs) = (if b = 0 then Some 0 else map_option Suc (position_zero bs))"

definition tag_from_wire :: "bytes \<Rightarrow> value_tag option" where
  "tag_from_wire storage =
    (case position_zero storage of
       None \<Rightarrow> None
     | Some nul \<Rightarrow> if \<exists>b\<in>set (drop nul storage). b \<noteq> 0 then None else Some storage)"

definition tag_bytes :: "value_tag \<Rightarrow> bytes" where
  "tag_bytes tag =
    take (case position_zero tag of None \<Rightarrow> 15 | Some len \<Rightarrow> len) tag"

definition FIRST_SEEN :: value_tag where
  "FIRST_SEEN = [0x66, 0x69, 0x72, 0x73, 0x74, 0x5F, 0x73, 0x65, 0x65, 0x6E, 0, 0, 0, 0, 0, 0]"

definition LAST_SEEN :: value_tag where
  "LAST_SEEN = [0x6C, 0x61, 0x73, 0x74, 0x5F, 0x73, 0x65, 0x65, 0x6E, 0, 0, 0, 0, 0, 0, 0]"

definition direct_semantic :: "value_tag \<Rightarrow> direct_semantic" where
  "direct_semantic tag =
    (if tag = FIRST_SEEN then FirstSeen else if tag = LAST_SEEN then LastSeen else Generic)"

text \<open>A stored tag: sixteen bytes, text without NUL, then only NUL bytes (at least one).\<close>

definition tag_ok :: "value_tag \<Rightarrow> bool" where
  "tag_ok tag \<longleftrightarrow> length tag = 16 \<and> tag_from_wire tag = Some tag"

lemma position_zero_pad:
  "0 \<notin> set bs \<Longrightarrow> position_zero (bs @ replicate (Suc k) 0) = Some (length bs)"
  by (induction bs) auto

lemma tag_new_pad:
  "length bs \<le> 15 \<Longrightarrow> 0 \<notin> set bs \<Longrightarrow> tag_new bs = Some (bs @ replicate (Suc (15 - length bs)) 0)"
  by (simp add: tag_new_def wr_def Suc_diff_le del: replicate_Suc)

lemma tag_new_ok:
  assumes "tag_new bs = Some tag"
  shows "tag_ok tag" "tag_bytes tag = bs"
proof -
  have b: "length bs \<le> 15" "0 \<notin> set bs"
    using assms by (auto simp: tag_new_def split: if_splits)
  hence tag: "tag = bs @ replicate (Suc (15 - length bs)) 0"
    using assms tag_new_pad [OF b] by simp
  have pos: "position_zero tag = Some (length bs)"
    unfolding tag by (rule position_zero_pad [OF b(2)])
  show "tag_ok tag" using b pos by (auto simp: tag_ok_def tag_from_wire_def tag)
  show "tag_bytes tag = bs" using pos by (simp add: tag_bytes_def tag)
qed

lemma tag_bytes_new:
  assumes "tag_ok tag"
  shows "tag_new (tag_bytes tag) = Some tag"
proof -
  obtain n where n: "position_zero tag = Some n" "\<forall>b\<in>set (drop n tag). b = 0" "length tag = 16"
    using assms by (auto simp: tag_ok_def tag_from_wire_def split: option.splits if_splits)
  have "position_zero xs = Some k \<Longrightarrow> k < length xs \<and> 0 \<notin> set (take k xs)" for xs k
    by (induction xs arbitrary: k) (auto split: if_splits)
  from this [OF n(1)] n(3) have k: "n < 16" "0 \<notin> set (take n tag)" by auto
  have "drop n tag = replicate (Suc (15 - n)) 0"
  proof (rule replicate_eqI)
    show "length (drop n tag) = Suc (15 - n)" using n(3) k(1) by simp
  qed (use n(2) in blast)
  hence "tag = take n tag @ replicate (Suc (15 - n)) 0" by (metis append_take_drop_id)
  thus ?thesis using n k tag_new_pad [of "take n tag"] by (simp add: tag_bytes_def del: replicate_Suc)
qed

text \<open>C31. Value tags round-trip: building a tag from text and reading its text back is the identity
  on every text the constructor accepts, and every sixteen bytes the wire reader accepts are the
  tag of their own text.\<close>

theorem value_tag_roundtrip:
  "(tag_new bs = Some tag \<longrightarrow> tag_bytes tag = bs \<and> tag_from_wire tag = Some tag \<and> length tag = 16)
   \<and> (length w = 16 \<and> tag_from_wire w = Some tag' \<longrightarrow> tag' = w \<and> tag_new (tag_bytes tag') = Some w)"
proof
  show "tag_new bs = Some tag \<longrightarrow> tag_bytes tag = bs \<and> tag_from_wire tag = Some tag \<and> length tag = 16"
    using tag_new_ok [of bs tag] by (auto simp: tag_ok_def)
  have "tag' = w" if "tag_from_wire w = Some tag'"
    using that by (auto simp: tag_from_wire_def split: option.splits if_splits)
  thus "length w = 16 \<and> tag_from_wire w = Some tag' \<longrightarrow> tag' = w \<and> tag_new (tag_bytes tag') = Some w"
    using tag_bytes_new [of w] by (auto simp: tag_ok_def)
qed

theorem value_tag_roundtrip_witness:
  "\<exists>tag. tag_new [0x61, 0x62] = Some tag \<and> tag_bytes tag = [0x61, 0x62] \<and> tag_new (tag_bytes LAST_SEEN) = Some LAST_SEEN"
proof -
  obtain tag where t: "tag_new [0x61, 0x62] = Some tag" by (simp add: tag_new_def)
  have "tag_from_wire LAST_SEEN = Some LAST_SEEN" "length LAST_SEEN = 16"
    by (simp_all add: LAST_SEEN_def tag_from_wire_def)
  thus ?thesis using value_tag_roundtrip [of "[0x61, 0x62]" tag LAST_SEEN LAST_SEEN] t by auto
qed

end
