(* ===== verification/Cardinality129.thy ===== *)
theory Cardinality129
  imports Errors
begin

text \<open>
  Exact unsigned 129-bit cardinalities (\<open>cardinality.rs\<close>): three limbs with carries and
  borrows written out, compared lexicographically, and printed in decimal by repeated
  limb-wise division. \<open>card_nat\<close> is the number a value stands for.
\<close>

unbundle bit_operations_syntax

section \<open>Values\<close>

datatype cardinality129 = Cardinality129 (bit128: "8 word") (card_hi: "64 word") (card_lo: "64 word")

datatype cardinality_overflow = CardinalityOverflow

instantiation cardinality129 :: linorder
begin

definition less_eq_cardinality129 :: "cardinality129 \<Rightarrow> cardinality129 \<Rightarrow> bool" where
  "less_eq_cardinality129 x y \<longleftrightarrow>
    bit128 x < bit128 y \<or> bit128 x = bit128 y \<and>
      (card_hi x < card_hi y \<or> card_hi x = card_hi y \<and> card_lo x \<le> card_lo y)"

definition less_cardinality129 :: "cardinality129 \<Rightarrow> cardinality129 \<Rightarrow> bool" where
  "less_cardinality129 x y \<longleftrightarrow>
    bit128 x < bit128 y \<or> bit128 x = bit128 y \<and>
      (card_hi x < card_hi y \<or> card_hi x = card_hi y \<and> card_lo x < card_lo y)"

instance
proof
  fix x y z :: cardinality129
  show "(x < y) = (x \<le> y \<and> \<not> y \<le> x)"
    by (auto simp: less_eq_cardinality129_def less_cardinality129_def)
  show "x \<le> x" by (simp add: less_eq_cardinality129_def)
  show "x \<le> y \<Longrightarrow> y \<le> z \<Longrightarrow> x \<le> z" by (auto simp: less_eq_cardinality129_def)
  show "x \<le> y \<Longrightarrow> y \<le> x \<Longrightarrow> x = y"
    by (cases x; cases y) (auto simp: less_eq_cardinality129_def)
  show "x \<le> y \<or> y \<le> x" by (auto simp: less_eq_cardinality129_def)
qed

end

definition CARD_ZERO :: cardinality129 where
  "CARD_ZERO = Cardinality129 0 0 0"

definition FULL_IPV6_SPACE :: cardinality129 where
  "FULL_IPV6_SPACE = Cardinality129 1 0 0"

definition try_new :: "8 word \<Rightarrow> 64 word \<Rightarrow> 64 word \<Rightarrow> cardinality129 option" where
  "try_new b h l = (if b \<le> 1 then Some (Cardinality129 b h l) else None)"

definition from_u64 :: "64 word \<Rightarrow> cardinality129" where
  "from_u64 value = Cardinality129 0 0 value"

definition from_u128 :: "128 word \<Rightarrow> cardinality129" where
  "from_u128 value = Cardinality129 0 (ucast (drop_bit 64 value)) (ucast value)"

section \<open>Arithmetic\<close>

definition card_add :: "cardinality129 \<Rightarrow> cardinality129 \<Rightarrow> cardinality_overflow + cardinality129" where
  "card_add self rhs =
    (let (l, carry_lo) = overflowing_add (card_lo self) (card_lo rhs);
         (hi0, carry_hi0) = overflowing_add (card_hi self) (card_hi rhs);
         (h, carry_hi1) = overflowing_add hi0 (of_bool carry_lo);
         top' = ucast (bit128 self) + ucast (bit128 rhs) + of_bool carry_hi0 + of_bool carry_hi1 :: 16 word
     in if top' > 1 then Inl CardinalityOverflow
        else Inr (Cardinality129 (ucast top') h l))"

definition card_sub :: "cardinality129 \<Rightarrow> cardinality129 \<Rightarrow> cardinality_overflow + cardinality129" where
  "card_sub self rhs =
    (if self < rhs then Inl CardinalityOverflow
     else
       let (l, borrow_lo) = overflowing_sub (card_lo self) (card_lo rhs);
           (hi0, borrow_hi0) = overflowing_sub (card_hi self) (card_hi rhs);
           (h, borrow_hi1) = overflowing_sub hi0 (of_bool borrow_lo);
           borrow = of_bool borrow_hi0 + of_bool borrow_hi1 :: 8 word
       in rbind (ok_or CardinalityOverflow
              (Option.bind (checked_sub (bit128 self) (bit128 rhs)) (\<lambda>v. checked_sub v borrow)))
            (\<lambda>b. Inr (Cardinality129 b h l)))"

definition ipv4_inclusive :: "32 word \<Rightarrow> 32 word \<Rightarrow> cardinality_overflow + cardinality129" where
  "ipv4_inclusive from' to' =
    (if from' > to' then Inl CardinalityOverflow
     else Inr (from_u64 (ucast to' - ucast from' + 1)))"

definition ipv6_inclusive ::
  "64 word \<Rightarrow> 64 word \<Rightarrow> 64 word \<Rightarrow> 64 word \<Rightarrow> cardinality_overflow + cardinality129" where
  "ipv6_inclusive from_hi from_lo to_hi to_lo =
    (if from_hi > to_hi \<or> from_hi = to_hi \<and> from_lo > to_lo then Inl CardinalityOverflow
     else
       let (l, borrow) = overflowing_sub to_lo from_lo in
       rbind (ok_or CardinalityOverflow
           (Option.bind (checked_sub to_hi from_hi) (\<lambda>v. checked_sub v (of_bool borrow))))
         (\<lambda>h. card_add (Cardinality129 0 h l) (from_u64 1)))"

definition u128_try_from :: "cardinality129 \<Rightarrow> cardinality_overflow + 128 word" where
  "u128_try_from value =
    (if bit128 value \<noteq> 0 then Inl CardinalityOverflow
     else Inr (push_bit 64 (ucast (card_hi value)) OR ucast (card_lo value)))"

definition u64_try_from :: "cardinality129 \<Rightarrow> cardinality_overflow + 64 word" where
  "u64_try_from value =
    (if bit128 value \<noteq> 0 \<or> card_hi value \<noteq> 0 then Inl CardinalityOverflow
     else Inr (card_lo value))"

section \<open>What the limbs mean\<close>

definition card_nat :: "cardinality129 \<Rightarrow> nat" where
  "card_nat c = unat (bit128 c) * 2 ^ 128 + unat (card_hi c) * 2 ^ 64 + unat (card_lo c)"

definition card_ok :: "cardinality129 \<Rightarrow> bool" where
  "card_ok c \<longleftrightarrow> bit128 c \<le> 1"

lemma unat64: "unat (x :: 64 word) < 2 ^ 64"
  using unat_word_less [of x] by simp

lemma overflowing_add_nat:
  fixes x y :: "64 word"
  assumes "overflowing_add x y = (z, c)"
  shows "unat z + of_bool c * 2 ^ 64 = unat x + unat y"
proof -
  have "unat (x + y) = (unat x + unat y) mod 2 ^ 64"
    by (simp add: unat_word_ariths)
  thus ?thesis
    using assms unat64 [of x] unat64 [of y]
    by (auto simp: overflowing_add_def mod_if)
qed

lemma overflowing_sub_nat:
  fixes x y :: "64 word"
  assumes "overflowing_sub x y = (z, c)"
  shows "unat z + unat y = unat x + of_bool c * 2 ^ 64"
proof (cases "y \<le> x")
  case True
  hence "unat (x - y) = unat x - unat y" "unat y \<le> unat x"
    by (simp_all add: unat_sub word_le_nat_alt)
  thus ?thesis using assms True by (auto simp: overflowing_sub_def not_less)
next
  case False
  hence "unat (x - y) = unat x + 2 ^ 64 - unat y"
    by (simp add: unat_sub_if' word_le_nat_alt)
  thus ?thesis using assms False unat64 [of x] unat64 [of y]
    by (auto simp: overflowing_sub_def not_le word_le_nat_alt word_less_nat_alt)
qed

lemma card_nat_less: "card_ok c \<Longrightarrow> card_nat c < 2 ^ 129"
  using unat64 [of "card_hi c"] unat64 [of "card_lo c"]
  by (simp add: card_ok_def word_le_nat_alt card_nat_def)

lemma lex_nat:
  fixes b h l b' h' l' :: nat
  assumes "h < 2 ^ 64" "l < 2 ^ 64" "h' < 2 ^ 64" "l' < 2 ^ 64"
  shows "b * 2 ^ 128 + h * 2 ^ 64 + l < b' * 2 ^ 128 + h' * 2 ^ 64 + l' \<longleftrightarrow>
    b < b' \<or> b = b' \<and> (h < h' \<or> h = h' \<and> l < l')"
  using assms by auto

lemma card_nat_less_iff: "card_nat a < card_nat b \<longleftrightarrow> a < b"
  unfolding card_nat_def less_cardinality129_def
  by (subst lex_nat) (auto simp: unat64 [simplified] word_less_nat_alt word_unat_eq_iff)

lemma card_nat_eq_iff: "card_nat a = card_nat b \<longleftrightarrow> a = b"
  by (metis card_nat_less_iff less_irrefl linorder_neqE)

lemma unat_of_bool [simp]: "unat (of_bool b :: 'a :: len word) = of_bool b"
  by (cases b) simp_all

lemma card_add_spec:
  assumes "card_ok a" "card_ok b"
  shows "card_nat a + card_nat b < 2 ^ 129 \<Longrightarrow>
      \<exists>c. card_add a b = Inr c \<and> card_ok c \<and> card_nat c = card_nat a + card_nat b"
    and "2 ^ 129 \<le> card_nat a + card_nat b \<Longrightarrow> card_add a b = Inl CardinalityOverflow"
proof -
  obtain l cl where l: "overflowing_add (card_lo a) (card_lo b) = (l, cl)" by fastforce
  obtain h0 c0 where h0: "overflowing_add (card_hi a) (card_hi b) = (h0, c0)" by fastforce
  obtain h c1 where h: "overflowing_add h0 (of_bool cl) = (h, c1)" by fastforce
  define t where "t = (ucast (bit128 a) + ucast (bit128 b) + of_bool c0 + of_bool c1 :: 16 word)"
  have bits: "unat (bit128 a) \<le> 1" "unat (bit128 b) \<le> 1"
    using assms by (simp_all add: card_ok_def word_le_nat_alt)
  have ut: "unat t = unat (bit128 a) + unat (bit128 b) + of_bool c0 + of_bool c1"
    using bits by (auto simp: t_def unat_word_ariths unat_ucast)
  have sum: "unat t * 2 ^ 128 + unat h * 2 ^ 64 + unat l = card_nat a + card_nat b"
    using overflowing_add_nat [OF l] overflowing_add_nat [OF h0] overflowing_add_nat [OF h]
    unfolding card_nat_def ut by (simp add: algebra_simps)
  have res: "card_add a b = (if 1 < t then Inl CardinalityOverflow
      else Inr (Cardinality129 (ucast t) h l))"
    by (simp add: card_add_def l h0 h t_def)
  have gt: "1 < t \<longleftrightarrow> 2 ^ 129 \<le> card_nat a + card_nat b"
    using unat64 [of h] unat64 [of l] by (simp add: sum [symmetric] word_less_nat_alt) linarith
  show "card_add a b = Inl CardinalityOverflow" if "2 ^ 129 \<le> card_nat a + card_nat b"
    using that gt res by simp
  show "\<exists>c. card_add a b = Inr c \<and> card_ok c \<and> card_nat c = card_nat a + card_nat b"
    if "card_nat a + card_nat b < 2 ^ 129"
  proof -
    have "\<not> 1 < t" using that gt by simp
    moreover hence "unat (ucast t :: 8 word) = unat t"
      by (simp add: word_less_nat_alt unat_ucast)
    ultimately show ?thesis using res sum
      by (auto simp: card_nat_def card_ok_def word_less_nat_alt word_le_nat_alt)
  qed
qed

lemma card_sub_spec:
  assumes "card_ok a" "card_ok b"
  shows "card_nat b \<le> card_nat a \<Longrightarrow>
      \<exists>c. card_sub a b = Inr c \<and> card_ok c \<and> card_nat c = card_nat a - card_nat b"
    and "card_nat a < card_nat b \<Longrightarrow> card_sub a b = Inl CardinalityOverflow"
proof -
  show "card_sub a b = Inl CardinalityOverflow" if "card_nat a < card_nat b"
    using that by (simp add: card_sub_def card_nat_less_iff)
  assume le: "card_nat b \<le> card_nat a"
  obtain l cl where l: "overflowing_sub (card_lo a) (card_lo b) = (l, cl)" by fastforce
  obtain h0 c0 where h0: "overflowing_sub (card_hi a) (card_hi b) = (h0, c0)" by fastforce
  obtain h c1 where h: "overflowing_sub h0 (of_bool cl) = (h, c1)" by fastforce
  have bits: "unat (bit128 a) \<le> 1" "unat (bit128 b) \<le> 1"
    using assms by (simp_all add: card_ok_def word_le_nat_alt)
  have eq: "unat h * 2 ^ 64 + unat l + unat (bit128 a) * 2 ^ 128 + card_nat b =
      card_nat a + (unat (bit128 b) + of_bool c0 + of_bool c1) * 2 ^ 128"
    using overflowing_sub_nat [OF l] overflowing_sub_nat [OF h0] overflowing_sub_nat [OF h]
    unfolding card_nat_def by (simp add: algebra_simps)
  have borrow: "unat (of_bool c0 + of_bool c1 :: 8 word) = of_bool c0 + of_bool c1"
    by (auto simp: unat_word_ariths)
  have enough: "unat (bit128 b) + of_bool c0 + of_bool c1 \<le> unat (bit128 a)"
    using eq le unat64 [of h] unat64 [of l] by simp
  define v where "v = bit128 a - bit128 b - (of_bool c0 + of_bool c1)"
  have s1: "checked_sub (bit128 a) (bit128 b) = Some (bit128 a - bit128 b)"
      "unat (bit128 a - bit128 b) = unat (bit128 a) - unat (bit128 b)"
    using enough by (simp_all add: checked_sub_def word_le_nat_alt unat_sub)
  hence s2: "checked_sub (bit128 a - bit128 b) (of_bool c0 + of_bool c1) = Some v"
      "unat v = unat (bit128 a) - unat (bit128 b) - (of_bool c0 + of_bool c1)"
    using enough borrow
    by (simp_all add: checked_sub_def word_le_nat_alt unat_sub v_def del: of_bool_eq_iff)
  have "card_sub a b = Inr (Cardinality129 v h l)"
    using le s1(1) s2(1)
    by (simp add: card_sub_def card_nat_less_iff [symmetric] l h0 h)
  moreover have "card_nat (Cardinality129 v h l) = card_nat a - card_nat b"
    using eq enough s2(2) by (simp add: card_nat_def algebra_simps)
  moreover have "card_ok (Cardinality129 v h l)"
    using bits s2(2) by (simp add: card_ok_def word_le_nat_alt)
  ultimately show "\<exists>c. card_sub a b = Inr c \<and> card_ok c \<and> card_nat c = card_nat a - card_nat b"
    by blast
qed

lemma card_nat_from_u64 [simp]: "card_nat (from_u64 v) = unat v" "card_ok (from_u64 v)"
  by (simp_all add: card_nat_def from_u64_def card_ok_def)

lemma ipv4_inclusive_spec:
  "from' \<le> to' \<Longrightarrow> \<exists>c. ipv4_inclusive from' to' = Inr c \<and> card_ok c \<and>
     card_nat c = unat to' - unat from' + 1"
  "to' < from' \<Longrightarrow> ipv4_inclusive from' to' = Inl CardinalityOverflow"
proof -
  assume "from' \<le> to'"
  moreover have "unat (ucast to' - ucast from' + 1 :: 64 word) = unat to' - unat from' + 1"
  proof -
    have "unat (ucast to' - ucast from' :: 64 word) = unat to' - unat from'"
      using calculation(1) unat_word_less [of to'] unat_word_less [of from']
      by (simp add: unat_sub_if' unat_ucast word_le_nat_alt)
    thus ?thesis using unat_word_less [of to'] by (simp add: unat_word_ariths)
  qed
  ultimately show "\<exists>c. ipv4_inclusive from' to' = Inr c \<and> card_ok c \<and>
     card_nat c = unat to' - unat from' + 1"
    by (simp add: ipv4_inclusive_def)
qed (simp add: ipv4_inclusive_def)

lemma ipv6_inclusive_spec:
  fixes fh fl th tl :: "64 word"
  defines "lo' \<equiv> unat fh * 2 ^ 64 + unat fl" and "hi' \<equiv> unat th * 2 ^ 64 + unat tl"
  shows "lo' \<le> hi' \<Longrightarrow> \<exists>c. ipv6_inclusive fh fl th tl = Inr c \<and> card_ok c \<and>
      card_nat c = hi' - lo' + 1"
    and "hi' < lo' \<Longrightarrow> ipv6_inclusive fh fl th tl = Inl CardinalityOverflow"
proof -
  have guard: "(th < fh \<or> fh = th \<and> tl < fl) \<longleftrightarrow> hi' < lo'"
    using unat64 [of fh] unat64 [of fl] unat64 [of th] unat64 [of tl]
    by (auto simp: lo'_def hi'_def word_less_nat_alt word_unat_eq_iff)
  show "ipv6_inclusive fh fl th tl = Inl CardinalityOverflow" if "hi' < lo'"
    using that guard by (simp add: ipv6_inclusive_def)
  assume le: "lo' \<le> hi'"
  obtain l c where l: "overflowing_sub tl fl = (l, c)" by fastforce
  note eq = overflowing_sub_nat [OF l]
  have enough: "unat fh + of_bool c \<le> unat th"
    using eq le unat64 [of l] by (auto simp: lo'_def hi'_def)
  define h where "h = th - fh - of_bool c"
  have s1: "checked_sub th fh = Some (th - fh)" "unat (th - fh) = unat th - unat fh"
    using enough by (simp_all add: checked_sub_def word_le_nat_alt unat_sub)
  hence s2: "checked_sub (th - fh) (of_bool c) = Some h" "unat h = unat th - unat fh - of_bool c"
    using enough by (simp_all add: checked_sub_def word_le_nat_alt unat_sub h_def)
  have val: "card_nat (Cardinality129 0 h l) = hi' - lo'" "card_ok (Cardinality129 0 h l)"
    using eq enough s2(2) by (auto simp: card_nat_def card_ok_def lo'_def hi'_def algebra_simps)
  have "hi' < 2 ^ 128" using unat64 [of th] unat64 [of tl] by (simp add: hi'_def)
  hence "\<exists>r. card_add (Cardinality129 0 h l) (from_u64 1) = Inr r \<and> card_ok r \<and>
      card_nat r = hi' - lo' + 1"
    using card_add_spec(1) [OF val(2) card_nat_from_u64(2) [of 1]] val(1) by simp
  thus "\<exists>r. ipv6_inclusive fh fl th tl = Inr r \<and> card_ok r \<and> card_nat r = hi' - lo' + 1"
    using le guard s1(1) s2(1) by (simp add: ipv6_inclusive_def l)
qed

section \<open>Decimal display\<close>

text \<open>
  \<open>Display\<close> divides the three limbs by ten, most significant first, until they are all zero.
  The digit buffer holds 40 bytes; a store past its end is the \<open>Panicked\<close> branch.
\<close>

definition div10_limb :: "128 word \<Rightarrow> 64 word \<Rightarrow> 64 word \<times> 128 word" where
  "div10_limb remainder limb =
    (let dividend = push_bit 64 remainder OR ucast limb
     in (ucast (dividend div 10), dividend mod 10))"

definition div10 :: "64 word \<times> 64 word \<times> 64 word \<Rightarrow> (64 word \<times> 64 word \<times> 64 word) \<times> 128 word" where
  "div10 limbs = (case limbs of (l, h, b) \<Rightarrow>
    let (b', r2) = div10_limb 0 b;
        (h', r1) = div10_limb r2 h;
        (l', r0) = div10_limb r1 l
    in ((l', h', b'), r0))"

definition limbs_nat :: "64 word \<times> 64 word \<times> 64 word \<Rightarrow> nat" where
  "limbs_nat limbs = (case limbs of (l, h, b) \<Rightarrow> unat b * 2 ^ 128 + unat h * 2 ^ 64 + unat l)"

lemma div10_limb_nat:
  assumes "div10_limb r limb = (q, r')" "unat r < 10"
  shows "unat r * 2 ^ 64 + unat limb = unat q * 10 + unat r'" "unat r' < 10"
proof -
  define d where "d = push_bit 64 r OR (ucast limb :: 128 word)"
  have lt: "unat limb < 2 ^ 64" using unat64 by blast
  have "push_bit 64 r AND (ucast limb :: 128 word) = 0"
    by (rule bit_word_eqI) (auto simp: bit_simps dest: bit_imp_le_length)
  hence "d = push_bit 64 r + ucast limb"
    unfolding d_def by (metis disjunctive_add_eq_or)
  moreover have "unat (push_bit 64 r :: 128 word) = unat r * 2 ^ 64"
    using assms(2) by (simp add: unsigned_push_bit_eq push_bit_eq_mult take_bit_eq_mod unat_word_ariths)
  moreover have "unat (ucast limb :: 128 word) = unat limb" using lt by (simp add: unat_ucast)
  ultimately have d: "unat d = unat r * 2 ^ 64 + unat limb"
    using assms(2) lt by (simp add: unat_word_ariths)
  have q: "q = ucast (d div 10)" "r' = d mod 10"
    using assms(1) by (auto simp: div10_limb_def d_def Let_def)
  have r': "unat r' = unat d mod 10" by (simp add: q unat_mod)
  have "unat d div 10 < 2 ^ 64" using d assms(2) lt by simp
  hence "unat q = unat d div 10" by (simp add: q unat_ucast unat_div)
  thus "unat r * 2 ^ 64 + unat limb = unat q * 10 + unat r'" "unat r' < 10"
    using r' d by simp_all
qed

lemma div10_nat:
  assumes "div10 limbs = (limbs', r)"
  shows "limbs_nat limbs' = limbs_nat limbs div 10" "unat r = limbs_nat limbs mod 10"
proof -
  obtain l h b where limbs: "limbs = (l, h, b)" by (cases limbs) auto
  obtain b' r2 where b: "div10_limb 0 b = (b', r2)" by fastforce
  obtain h' r1 where h: "div10_limb r2 h = (h', r1)" by fastforce
  obtain l' r0 where l: "div10_limb r1 l = (l', r0)" by fastforce
  have res: "limbs' = (l', h', b')" "r = r0" using assms by (auto simp: div10_def limbs b h l)
  note B = div10_limb_nat [OF b, simplified]
  note H = div10_limb_nat [OF h B(2), simplified]
  note L = div10_limb_nat [OF l H(2), simplified]
  have "limbs_nat limbs = limbs_nat limbs' * 10 + unat r"
    using B(1) H(1) L(1) by (simp add: limbs_nat_def limbs res)
  thus "limbs_nat limbs' = limbs_nat limbs div 10" "unat r = limbs_nat limbs mod 10"
    using L(2) by (simp_all add: res)
qed

lemma limbs_nat_0 [simp]: "limbs_nat limbs = 0 \<longleftrightarrow> limbs = (0, 0, 0)"
  by (cases limbs) (auto simp: limbs_nat_def unat_eq_0)

function digits_loop :: "64 word \<times> 64 word \<times> 64 word \<Rightarrow> 8 word list \<Rightarrow> 8 word list result" where
  "digits_loop limbs digits =
    (if limbs = (0, 0, 0) then Inr digits
     else let (limbs', remainder) = div10 limbs in
       if length digits < 40 then digits_loop limbs' (digits @ [0x30 + ucast remainder])
       else Inl (Panicked ''index out of bounds''))"
  by auto
termination
proof (relation "measure (limbs_nat \<circ> fst)", simp)
  fix limbs limbs' :: "64 word \<times> 64 word \<times> 64 word" and digits and x and remainder :: "128 word"
  assume a: "limbs \<noteq> (0, 0, 0)" "x = div10 limbs" "(limbs', remainder) = x"
  hence "limbs_nat limbs' = limbs_nat limbs div 10" using div10_nat(1) [of limbs] by metis
  moreover have "0 < limbs_nat limbs" using a(1) limbs_nat_0 by blast
  ultimately show "((limbs', digits @ [0x30 + ucast remainder]), limbs, digits)
      \<in> measure (limbs_nat \<circ> fst)" by simp
qed

declare digits_loop.simps [simp del]

definition card_display :: "cardinality129 \<Rightarrow> 8 word list result" where
  "card_display self =
    (let limbs = (card_lo self, card_hi self, ucast (bit128 self)) in
     if limbs = (0, 0, 0) then Inr [0x30]
     else rbind (digits_loop limbs []) (\<lambda>digits. Inr (rev digits)))"

text \<open>The reference: the decimal numeral of a number, and the number an ASCII numeral denotes.\<close>

fun decimal :: "nat \<Rightarrow> 8 word list" where
  "decimal n = (if n < 10 then [0x30 + of_nat n] else decimal (n div 10) @ [0x30 + of_nat (n mod 10)])"

declare decimal.simps [simp del]

lemma length_decimal: "n < 10 ^ k \<Longrightarrow> 0 < k \<Longrightarrow> length (decimal n) \<le> k"
proof (induction n arbitrary: k rule: decimal.induct)
  case (1 n)
  show ?case
  proof (cases "n < 10")
    case True thus ?thesis using 1(3) by (simp add: decimal.simps)
  next
    case False
    then obtain j where k: "k = Suc j" "0 < j"
      using 1(2,3) by (cases k; cases "k - 1") auto
    hence "n div 10 < 10 ^ j" using 1(2) by (simp add: less_mult_imp_div_less mult.commute)
    thus ?thesis using 1(1) [OF False _ k(2)] False k(1) by (subst decimal.simps) simp
  qed
qed

lemma digit_byte: "unat r < 10 \<Longrightarrow> (ucast (r :: 128 word) :: 8 word) = of_nat (unat r)"
  by (simp add: word_unat_eq_iff unat_ucast unat_of_nat)

lemma digits_loop_decimal:
  "limbs_nat limbs \<noteq> 0 \<Longrightarrow> length digits + length (decimal (limbs_nat limbs)) \<le> 40 \<Longrightarrow>
   digits_loop limbs digits = Inr (digits @ rev (decimal (limbs_nat limbs)))"
proof (induction limbs digits rule: digits_loop.induct)
  case (1 limbs digits)
  obtain limbs' r where d: "div10 limbs = (limbs', r)" by fastforce
  note n = div10_nat [OF d]
  have nz: "limbs \<noteq> (0, 0, 0)" using 1(2) by simp
  have r: "(ucast r :: 8 word) = of_nat (limbs_nat limbs mod 10)"
    using digit_byte [of r] n(2) by simp
  have room: "length digits < 40"
    using 1(3) by (subst (asm) decimal.simps) (simp split: if_splits)
  show ?case
  proof (cases "limbs_nat limbs < 10")
    case True
    hence "limbs' = (0, 0, 0)" using n(1) limbs_nat_0 [of limbs'] by simp
    thus ?thesis using nz room d r True
      by (simp add: digits_loop.simps [of limbs] digits_loop.simps [of "(0, 0, 0)"] decimal.simps)
  next
    case False
    hence "limbs_nat limbs' \<noteq> 0" using n(1) by simp
    moreover have "length (digits @ [0x30 + ucast r]) + length (decimal (limbs_nat limbs')) \<le> 40"
      using 1(3) False n(1) by (subst (asm) decimal.simps) simp
    ultimately have "digits_loop limbs' (digits @ [0x30 + ucast r]) =
        Inr ((digits @ [0x30 + ucast r]) @ rev (decimal (limbs_nat limbs')))"
      using 1(1) [OF nz d [symmetric] refl room] by blast
    thus ?thesis using nz room d r False n(1)
      by (simp add: digits_loop.simps [of limbs] decimal.simps [of "limbs_nat limbs"])
  qed
qed

lemma card_display_decimal:
  assumes "card_ok c"
  shows "card_display c = Inr (decimal (card_nat c))"
proof -
  let ?limbs = "(card_lo c, card_hi c, ucast (bit128 c)) :: 64 word \<times> 64 word \<times> 64 word"
  have n: "limbs_nat ?limbs = card_nat c"
    using unat_word_less [of "bit128 c"] by (simp add: limbs_nat_def card_nat_def unat_ucast)
  have "length (decimal (card_nat c)) \<le> 40"
    using card_nat_less [OF assms] by (intro length_decimal) simp_all
  thus ?thesis
  proof (cases "card_nat c = 0")
    case True
    hence "?limbs = (0, 0, 0)" using n limbs_nat_0 by metis
    thus ?thesis unfolding card_display_def Let_def True by (simp add: decimal.simps)
  next
    case False
    hence "?limbs \<noteq> (0, 0, 0)" using n limbs_nat_0 by metis
    moreover have "digits_loop ?limbs [] = Inr (rev (decimal (card_nat c)))"
      using digits_loop_decimal [of ?limbs "[]"] n False \<open>length _ \<le> 40\<close> by simp
    ultimately show ?thesis unfolding card_display_def Let_def by (simp only: if_False) simp
  qed
qed

section \<open>Properties\<close>

text \<open>C27. Checked addition and subtraction are exact on every pair of valid 129-bit values: they
  succeed exactly when the true sum or difference is representable, and then return it.\<close>

theorem checked_arithmetic_exact:
  assumes "card_ok a" "card_ok b"
  shows "(case card_add a b of
      Inr c \<Rightarrow> card_ok c \<and> card_nat c = card_nat a + card_nat b \<and> card_nat a + card_nat b < 2 ^ 129
    | Inl _ \<Rightarrow> 2 ^ 129 \<le> card_nat a + card_nat b)
    \<and> (case card_sub a b of
      Inr c \<Rightarrow> card_ok c \<and> card_nat c + card_nat b = card_nat a
    | Inl _ \<Rightarrow> card_nat a < card_nat b)"
  using card_add_spec [OF assms] card_sub_spec [OF assms]
  by (cases "card_nat a + card_nat b < 2 ^ 129"; cases "card_nat b \<le> card_nat a") auto

theorem checked_arithmetic_exact_witness:
  "card_ok FULL_IPV6_SPACE \<and> (\<exists>c. card_sub FULL_IPV6_SPACE (from_u64 1) = Inr c \<and> card_nat c = 2 ^ 128 - 1)"
proof -
  have ok: "card_ok FULL_IPV6_SPACE" "card_ok (from_u64 1)"
    by (simp_all only: card_nat_from_u64) (simp add: card_ok_def FULL_IPV6_SPACE_def)
  have n: "card_nat FULL_IPV6_SPACE = 2 ^ 128" by (simp add: card_nat_def FULL_IPV6_SPACE_def)
  show ?thesis
    using checked_arithmetic_exact [OF ok] ok n by (cases "card_sub FULL_IPV6_SPACE (from_u64 1)") auto
qed

text \<open>C28. The decimal display of every valid value is the decimal numeral of the number it stands
  for: the digit loop ends, never runs past its 40-byte buffer and prints no leading zero.\<close>

theorem display_is_decimal:
  assumes "card_ok c"
  shows "card_display c = Inr (decimal (card_nat c)) \<and> length (decimal (card_nat c)) \<le> 39"
  using card_display_decimal [OF assms] card_nat_less [OF assms]
  by (auto intro: length_decimal)

theorem display_is_decimal_witness:
  "card_display (from_u64 1203) = Inr [0x31, 0x32, 0x30, 0x33]"
proof -
  have "decimal 1203 = [0x31, 0x32, 0x30, 0x33]" by (simp add: decimal.simps)
  thus ?thesis using display_is_decimal [of "from_u64 1203"] by simp
qed

end
