(* ===== verification/Key.thy ===== *)
theory Key
  imports Contract Cardinality129
begin

text \<open>
  Numeric IPv4 and IPv6 keys (\<open>key.rs\<close>). The trait \<open>IpKey\<close> is the record \<open>ip_key\<close> of its
  constants and methods; its two implementations are the values \<open>ipv4_key\<close> and \<open>ipv6_key\<close>;
  the contract the range algorithms rely on is the locale \<open>key_laws\<close>, interpreted on both.
\<close>

section \<open>The trait\<close>

record 'k ip_key =
  WIDTH :: nat
  FAMILY :: address_family
  read_le :: "bytes \<Rightarrow> nat \<Rightarrow> 'k result"
  write_le :: "'k \<Rightarrow> bytes \<Rightarrow> bytes result"
  checked_next :: "'k \<Rightarrow> 'k option"
  checked_previous :: "'k \<Rightarrow> 'k option"
  inclusive_cardinality :: "'k \<Rightarrow> 'k \<Rightarrow> cardinality129 result"

text \<open>\<open>output[from..to].copy_from_slice\<close>: a slice past the end of the output panics.\<close>

definition copy_to_slice :: "bytes \<Rightarrow> nat \<Rightarrow> bytes \<Rightarrow> bytes result" where
  "copy_to_slice output at bs =
    (if at + length bs \<le> length output then Inr (wr output at bs)
     else Inl (Panicked ''range end index out of range''))"

section \<open>IPv4\<close>

type_synonym ipv4 = "32 word"

definition ipv4_next :: "ipv4 \<Rightarrow> ipv4 option" where
  "ipv4_next self = Prelude.checked_add self 1"

definition ipv4_previous :: "ipv4 \<Rightarrow> ipv4 option" where
  "ipv4_previous self = Prelude.checked_sub self 1"

definition ipv4_read_le :: "bytes \<Rightarrow> nat \<Rightarrow> ipv4 result" where
  "ipv4_read_le src at = ok_or (Panicked ''validated IPv4 key'') (map_option from_le_bytes (array 4 src at))"

definition ipv4_write_le :: "ipv4 \<Rightarrow> bytes \<Rightarrow> bytes result" where
  "ipv4_write_le self output = copy_to_slice output 0 (to_le_bytes self)"

definition ipv4_cardinality :: "ipv4 \<Rightarrow> ipv4 \<Rightarrow> cardinality129 result" where
  "ipv4_cardinality self to' =
    map_err (\<lambda>_. ArithmeticOverflow ''IPv4 interval cardinality'') (ipv4_inclusive self to')"

definition ipv4_key :: "ipv4 ip_key" where
  "ipv4_key = \<lparr> WIDTH = 4, FAMILY = Ipv4, read_le = ipv4_read_le, write_le = ipv4_write_le,
     checked_next = ipv4_next, checked_previous = ipv4_previous,
     inclusive_cardinality = ipv4_cardinality \<rparr>"

section \<open>IPv6\<close>

datatype ipv6 = Ipv6Key (hi: "64 word") (lo: "64 word")

instantiation ipv6 :: linorder
begin

definition less_eq_ipv6 :: "ipv6 \<Rightarrow> ipv6 \<Rightarrow> bool" where
  "less_eq_ipv6 x y \<longleftrightarrow> hi x < hi y \<or> hi x = hi y \<and> lo x \<le> lo y"

definition less_ipv6 :: "ipv6 \<Rightarrow> ipv6 \<Rightarrow> bool" where
  "less_ipv6 x y \<longleftrightarrow> hi x < hi y \<or> hi x = hi y \<and> lo x < lo y"

instance
proof
  fix x y z :: ipv6
  show "(x < y) = (x \<le> y \<and> \<not> y \<le> x)" by (auto simp: less_eq_ipv6_def less_ipv6_def)
  show "x \<le> x" by (simp add: less_eq_ipv6_def)
  show "x \<le> y \<Longrightarrow> y \<le> z \<Longrightarrow> x \<le> z" by (auto simp: less_eq_ipv6_def)
  show "x \<le> y \<Longrightarrow> y \<le> x \<Longrightarrow> x = y" by (cases x; cases y) (auto simp: less_eq_ipv6_def)
  show "x \<le> y \<or> y \<le> x" by (auto simp: less_eq_ipv6_def)
qed

end

definition ipv6_from_u128 :: "128 word \<Rightarrow> ipv6" where
  "ipv6_from_u128 v = Ipv6Key (ucast (drop_bit 64 v)) (ucast v)"

definition ipv6_to_u128 :: "ipv6 \<Rightarrow> 128 word" where
  "ipv6_to_u128 self = push_bit 64 (ucast (hi self)) OR ucast (lo self)"

definition ipv6_next :: "ipv6 \<Rightarrow> ipv6 option" where
  "ipv6_next self =
    (if hi self = - 1 \<and> lo self = - 1 then None
     else if lo self = - 1 then Some (Ipv6Key (hi self + 1) 0)
     else Some (Ipv6Key (hi self) (lo self + 1)))"

definition ipv6_previous :: "ipv6 \<Rightarrow> ipv6 option" where
  "ipv6_previous self =
    (if hi self = 0 \<and> lo self = 0 then None
     else if lo self = 0 then Some (Ipv6Key (hi self - 1) (- 1))
     else Some (Ipv6Key (hi self) (lo self - 1)))"

definition ipv6_read_le :: "bytes \<Rightarrow> nat \<Rightarrow> ipv6 result" where
  "ipv6_read_le src at =
    rbind (ok_or (Panicked ''validated IPv6 low limb'') (array 8 src at)) (\<lambda>l.
    rbind (ok_or (Panicked ''validated IPv6 high limb'') (array 8 src (at + 8))) (\<lambda>h.
    Inr (Ipv6Key (from_le_bytes h) (from_le_bytes l))))"

definition ipv6_write_le :: "ipv6 \<Rightarrow> bytes \<Rightarrow> bytes result" where
  "ipv6_write_le self output =
    rbind (copy_to_slice output 0 (to_le_bytes (lo self))) (\<lambda>output.
    copy_to_slice output 8 (to_le_bytes (hi self)))"

definition ipv6_cardinality :: "ipv6 \<Rightarrow> ipv6 \<Rightarrow> cardinality129 result" where
  "ipv6_cardinality self to' =
    map_err (\<lambda>_. ArithmeticOverflow ''IPv6 interval cardinality'')
      (ipv6_inclusive (hi self) (lo self) (hi to') (lo to'))"

definition ipv6_key :: "ipv6 ip_key" where
  "ipv6_key = \<lparr> WIDTH = 16, FAMILY = Ipv6, read_le = ipv6_read_le, write_le = ipv6_write_le,
     checked_next = ipv6_next, checked_previous = ipv6_previous,
     inclusive_cardinality = ipv6_cardinality \<rparr>"

section \<open>The contract of a key\<close>

text \<open>
  \<open>enc\<close> is the wire form, \<open>num\<close> the number a key stands for. The order of keys is the order
  of their numbers, the numbers are exactly \<open>0 .. 2 ^ (8 * WIDTH) - 1\<close>, and next, previous
  and the cardinality are arithmetic on them.
\<close>

locale key_laws =
  fixes K :: "'k :: linorder ip_key"
    and enc :: "'k \<Rightarrow> bytes"
    and num :: "'k \<Rightarrow> nat"
  assumes width: "0 < WIDTH K" "WIDTH K \<le> 16"
    and length_enc: "length (enc k) = WIDTH K"
    and write_le: "WIDTH K \<le> length out \<Longrightarrow> write_le K k out = Inr (wr out 0 (enc k))"
    and read_le: "at + WIDTH K \<le> length src \<Longrightarrow> length src \<le> usize_max \<Longrightarrow>
        rd src at (WIDTH K) = enc k \<Longrightarrow> read_le K src at = Inr k"
    and enc_surj: "length bs = WIDTH K \<Longrightarrow> \<exists>k. enc k = bs"
    and num_less: "num k < 2 ^ (8 * WIDTH K)"
    and num_mono: "k < k' \<longleftrightarrow> num k < num k'"
    and checked_next: "checked_next K k = Some k' \<longleftrightarrow> num k' = num k + 1"
    and checked_previous: "checked_previous K k = Some k' \<longleftrightarrow> num k = num k' + 1"
    and next_None: "checked_next K k = None \<longleftrightarrow> num k + 1 = 2 ^ (8 * WIDTH K)"
    and previous_None: "checked_previous K k = None \<longleftrightarrow> num k = 0"
    and cardinality: "k \<le> k' \<Longrightarrow> \<exists>c. inclusive_cardinality K k k' = Inr c \<and> card_ok c \<and>
        card_nat c = num k' - num k + 1"
    and cardinality_error: "k' < k \<Longrightarrow> \<exists>e. inclusive_cardinality K k k' = Inl e"
begin

lemma num_eq_iff: "num k = num k' \<longleftrightarrow> k = k'"
  by (metis less_irrefl linorder_neqE num_mono)

lemma num_le_iff: "k \<le> k' \<longleftrightarrow> num k \<le> num k'"
  by (metis not_le num_mono)

lemma enc_inj: "enc k = enc k' \<longleftrightarrow> k = k'"
proof
  assume "enc k = enc k'"
  moreover have "read_le K (enc x) 0 = Inr x" for x
  proof (rule read_le)
    show "rd (enc x) 0 (WIDTH K) = enc x" by (simp add: rd_def length_enc)
    show "length (enc x) \<le> usize_max"
      using width(2) by (simp add: length_enc usize_max_def)
  qed (simp add: length_enc)
  ultimately show "k = k'" by (metis sum.inject(2))
qed simp

lemma next_gap: "checked_next K k = Some k' \<Longrightarrow> x < k' \<longleftrightarrow> x \<le> k"
  by (auto simp: checked_next num_mono num_le_iff)

lemma previous_gap: "checked_previous K k = Some k' \<Longrightarrow> k' < x \<longleftrightarrow> k \<le> x"
  by (auto simp: checked_previous num_mono num_le_iff)

lemma next_None_max: "checked_next K k = None \<Longrightarrow> x \<le> k"
  using num_less [of x] by (auto simp: next_None num_le_iff)

lemma previous_None_min: "checked_previous K k = None \<Longrightarrow> k \<le> x"
  by (auto simp: previous_None num_le_iff)

lemma next_previous: "checked_next K k = Some k' \<longleftrightarrow> checked_previous K k' = Some k"
  by (auto simp: checked_next checked_previous)

end

section \<open>Both families satisfy it\<close>

definition ipv6_enc :: "ipv6 \<Rightarrow> bytes" where
  "ipv6_enc k = to_le_bytes (lo k) @ to_le_bytes (hi k)"

definition ipv6_num :: "ipv6 \<Rightarrow> nat" where
  "ipv6_num k = unat (hi k) * 2 ^ 64 + unat (lo k)"

lemma ipv6_num_less: "ipv6_num k < 2 ^ 128"
  using unat64 [of "hi k"] unat64 [of "lo k"] by (simp add: ipv6_num_def)

lemma ipv6_num_mono: "k < k' \<longleftrightarrow> ipv6_num k < ipv6_num k'"
  using unat64 [of "hi k"] unat64 [of "lo k"] unat64 [of "hi k'"] unat64 [of "lo k'"]
  by (auto simp: less_ipv6_def ipv6_num_def word_less_nat_alt word_unat_eq_iff)

lemma ipv6_num_eq: "ipv6_num k = ipv6_num k' \<longleftrightarrow> k = k'"
  by (metis ipv6_num_mono less_irrefl linorder_neqE)

lemma unat_max64: "x = (- 1 :: 64 word) \<longleftrightarrow> unat x = 2 ^ 64 - 1"
  by (simp add: word_unat_eq_iff unsigned_minus_1_eq_mask mask_eq_exp_minus_1)

lemma unat_Suc64: "x \<noteq> (- 1 :: 64 word) \<Longrightarrow> unat (x + 1) = unat x + 1"
  using unat64 [of x] by (simp add: unat_max64 unat_word_ariths)

lemma unat_pred64: "x \<noteq> (0 :: 64 word) \<Longrightarrow> unat (x - 1) + 1 = unat x"
  by (simp add: unat_minus_one unat_gt_0)

lemma ipv6_next_num:
  "ipv6_next k = None \<longleftrightarrow> ipv6_num k + 1 = 2 ^ 128"
  "ipv6_next k = Some k' \<Longrightarrow> ipv6_num k' = ipv6_num k + 1"
proof -
  show "ipv6_next k = None \<longleftrightarrow> ipv6_num k + 1 = 2 ^ 128"
    using unat64 [of "hi k"] unat64 [of "lo k"]
    by (auto simp: ipv6_next_def ipv6_num_def unat_max64)
  show "ipv6_next k = Some k' \<Longrightarrow> ipv6_num k' = ipv6_num k + 1"
    using unat_Suc64 [of "hi k"] unat_Suc64 [of "lo k"]
    by (auto simp: ipv6_next_def ipv6_num_def unat_max64 split: if_splits)
qed

lemma ipv6_previous_num:
  "ipv6_previous k = None \<longleftrightarrow> ipv6_num k = 0"
  "ipv6_previous k = Some k' \<Longrightarrow> ipv6_num k = ipv6_num k' + 1"
proof -
  show "ipv6_previous k = None \<longleftrightarrow> ipv6_num k = 0"
    by (auto simp: ipv6_previous_def ipv6_num_def unat_eq_0)
  have m: "unat (- 1 :: 64 word) = 2 ^ 64 - 1" using unat_max64 by blast
  show "ipv6_previous k = Some k' \<Longrightarrow> ipv6_num k = ipv6_num k' + 1"
    using unat_pred64 [of "hi k"] unat_pred64 [of "lo k"]
    by (auto simp: ipv6_previous_def ipv6_num_def m split: if_splits)
qed

lemma copy_to_slice_in [page_simps]:
  "at + length bs \<le> length out \<Longrightarrow> copy_to_slice out at bs = Inr (wr out at bs)"
  by (simp add: copy_to_slice_def)

interpretation k4: key_laws ipv4_key to_le_bytes unat
proof
  fix k k' :: ipv4 and out src bs :: bytes and at :: nat
  show "0 < WIDTH ipv4_key" "WIDTH ipv4_key \<le> 16" "length (to_le_bytes k) = WIDTH ipv4_key"
    by (simp_all add: ipv4_key_def)
  show "WIDTH ipv4_key \<le> length out \<Longrightarrow> write_le ipv4_key k out = Inr (wr out 0 (to_le_bytes k))"
    by (simp add: ipv4_key_def ipv4_write_le_def page_simps)
  show "at + WIDTH ipv4_key \<le> length src \<Longrightarrow> length src \<le> usize_max \<Longrightarrow>
      rd src at (WIDTH ipv4_key) = to_le_bytes k \<Longrightarrow> read_le ipv4_key src at = Inr k"
    by (simp add: ipv4_key_def ipv4_read_le_def array_in)
  show "length bs = WIDTH ipv4_key \<Longrightarrow> \<exists>k :: ipv4. to_le_bytes k = bs"
    using to_from_le_bytes [where bs = bs and 'w = 32] by (auto simp: ipv4_key_def)
  show "unat k < 2 ^ (8 * WIDTH ipv4_key)"
    using unat_word_less [of k] by (simp add: ipv4_key_def)
  show "k < k' \<longleftrightarrow> unat k < unat k'" by (rule word_less_nat_alt)
  show "checked_next ipv4_key k = Some k' \<longleftrightarrow> unat k' = unat k + 1"
    by (simp add: ipv4_key_def ipv4_next_def checked_add_Some_iff)
  show "checked_previous ipv4_key k = Some k' \<longleftrightarrow> unat k = unat k' + 1"
    by (auto simp: ipv4_key_def ipv4_previous_def checked_sub_Some_iff)
  show "checked_next ipv4_key k = None \<longleftrightarrow> unat k + 1 = 2 ^ (8 * WIDTH ipv4_key)"
    using unat_word_less [of k] by (simp add: ipv4_key_def ipv4_next_def checked_add_def)
  show "checked_previous ipv4_key k = None \<longleftrightarrow> unat k = 0"
    by (simp add: ipv4_key_def ipv4_previous_def checked_sub_def word_le_nat_alt)
  show "k \<le> k' \<Longrightarrow> \<exists>c. inclusive_cardinality ipv4_key k k' = Inr c \<and> card_ok c \<and>
      card_nat c = unat k' - unat k + 1"
    using ipv4_inclusive_spec(1) [of k k'] by (auto simp: ipv4_key_def ipv4_cardinality_def)
  show "k' < k \<Longrightarrow> \<exists>e. inclusive_cardinality ipv4_key k k' = Inl e"
    by (simp add: ipv4_key_def ipv4_cardinality_def ipv4_inclusive_spec(2))
qed

interpretation k6: key_laws ipv6_key ipv6_enc ipv6_num
proof
  fix k k' :: ipv6 and out src bs :: bytes and at :: nat
  show "0 < WIDTH ipv6_key" "WIDTH ipv6_key \<le> 16" "length (ipv6_enc k) = WIDTH ipv6_key"
    by (simp_all add: ipv6_key_def ipv6_enc_def)
  show "WIDTH ipv6_key \<le> length out \<Longrightarrow> write_le ipv6_key k out = Inr (wr out 0 (ipv6_enc k))"
    using wr_append [of 0 "to_le_bytes (lo k)" out "to_le_bytes (hi k)"]
    by (simp add: ipv6_key_def ipv6_write_le_def ipv6_enc_def page_simps)
  show "read_le ipv6_key src at = Inr k"
    if "at + WIDTH ipv6_key \<le> length src" "length src \<le> usize_max"
      "rd src at (WIDTH ipv6_key) = ipv6_enc k"
  proof -
    have r: "rd src at 16 = to_le_bytes (lo k) @ to_le_bytes (hi k)"
      using that(3) by (simp add: ipv6_key_def ipv6_enc_def)
    have len: "at + 16 \<le> length src" using that(1) by (simp add: ipv6_key_def)
    have "rd src at 8 = rd (rd src at 16) 0 8" using rd_rd [of 0 8 16 at src] len by simp
    moreover have "rd src (at + 8) 8 = rd (rd src at 16) 8 8" using rd_rd [of 8 8 16 at src] len by simp
    ultimately have "rd src at 8 = to_le_bytes (lo k)" "rd src (at + 8) 8 = to_le_bytes (hi k)"
      unfolding r by (simp_all add: rd_def)
    thus ?thesis using that(1,2) by (simp add: ipv6_key_def ipv6_read_le_def array_in)
  qed
  show "\<exists>k. ipv6_enc k = bs" if "length bs = WIDTH ipv6_key"
  proof
    have "length (take 8 bs) = 8" "length (drop 8 bs) = 8" using that by (simp_all add: ipv6_key_def)
    thus "ipv6_enc (Ipv6Key (from_le_bytes (drop 8 bs)) (from_le_bytes (take 8 bs))) = bs"
      by (simp add: ipv6_enc_def to_from_le_bytes)
  qed
  show "ipv6_num k < 2 ^ (8 * WIDTH ipv6_key)"
    using ipv6_num_less [of k] by (simp add: ipv6_key_def)
  show "k < k' \<longleftrightarrow> ipv6_num k < ipv6_num k'" by (rule ipv6_num_mono)
  have nxt: "ipv6_next k = Some k' \<longleftrightarrow> ipv6_num k' = ipv6_num k + 1" for k k'
  proof
    assume n: "ipv6_num k' = ipv6_num k + 1"
    then obtain a where a: "ipv6_next k = Some a"
      using ipv6_next_num(1) [of k] ipv6_num_less [of k'] by (cases "ipv6_next k") auto
    hence "ipv6_num a = ipv6_num k'" using ipv6_next_num(2) [OF a] n by simp
    thus "ipv6_next k = Some k'" using a ipv6_num_eq by simp
  qed (rule ipv6_next_num(2))
  show "checked_next ipv6_key k = Some k' \<longleftrightarrow> ipv6_num k' = ipv6_num k + 1"
    by (simp add: ipv6_key_def nxt)
  have prv: "ipv6_previous k = Some k' \<longleftrightarrow> ipv6_num k = ipv6_num k' + 1" for k k'
  proof
    assume n: "ipv6_num k = ipv6_num k' + 1"
    then obtain a where a: "ipv6_previous k = Some a"
      using ipv6_previous_num(1) [of k] by (cases "ipv6_previous k") auto
    hence "ipv6_num a = ipv6_num k'" using ipv6_previous_num(2) [OF a] n by simp
    thus "ipv6_previous k = Some k'" using a ipv6_num_eq by simp
  qed (rule ipv6_previous_num(2))
  show "checked_previous ipv6_key k = Some k' \<longleftrightarrow> ipv6_num k = ipv6_num k' + 1"
    by (simp add: ipv6_key_def prv)
  show "checked_next ipv6_key k = None \<longleftrightarrow> ipv6_num k + 1 = 2 ^ (8 * WIDTH ipv6_key)"
    using ipv6_next_num(1) [of k] by (simp add: ipv6_key_def)
  show "checked_previous ipv6_key k = None \<longleftrightarrow> ipv6_num k = 0"
    using ipv6_previous_num(1) [of k] by (simp add: ipv6_key_def)
  show "k \<le> k' \<Longrightarrow> \<exists>c. inclusive_cardinality ipv6_key k k' = Inr c \<and> card_ok c \<and>
      card_nat c = ipv6_num k' - ipv6_num k + 1"
    using ipv6_inclusive_spec(1) [of "hi k" "lo k" "hi k'" "lo k'"] ipv6_num_mono [of k' k]
    by (fastforce simp: ipv6_key_def ipv6_cardinality_def ipv6_num_def not_less [symmetric])
  show "k' < k \<Longrightarrow> \<exists>e. inclusive_cardinality ipv6_key k k' = Inl e"
    using ipv6_inclusive_spec(2) [of "hi k'" "lo k'" "hi k" "lo k"] ipv6_num_mono [of k' k]
    by (simp add: ipv6_key_def ipv6_cardinality_def ipv6_num_def)
qed

lemma ipv6_u128_roundtrip: "ipv6_from_u128 (ipv6_to_u128 k) = k" "ipv6_to_u128 (ipv6_from_u128 v) = v"
proof -
  have high: "\<not> bit x (64 + n)" for x :: "64 word" and n
    by (auto dest: bit_imp_le_length)
  show "ipv6_from_u128 (ipv6_to_u128 k) = k"
    by (cases k) (auto simp: ipv6_from_u128_def ipv6_to_u128_def bit_simps high intro!: bit_word_eqI)
  show "ipv6_to_u128 (ipv6_from_u128 v) = v"
    by (auto simp: ipv6_from_u128_def ipv6_to_u128_def bit_simps
        intro!: bit_word_eqI dest: bit_imp_le_length)
qed

section \<open>Properties\<close>

text \<open>C29. The number of addresses of an inclusive interval is exact in both families, up to and
  including the whole IPv6 space of \<open>2 ^ 128\<close> addresses, and a reversed interval is an error.\<close>

theorem interval_cardinality_exact:
  "(case ipv4_cardinality a b of Inr c \<Rightarrow> a \<le> b \<and> card_nat c = unat b - unat a + 1
     | Inl e \<Rightarrow> b < a \<and> e = ArithmeticOverflow ''IPv4 interval cardinality'')
   \<and> (case ipv6_cardinality x y of Inr c \<Rightarrow> x \<le> y \<and> card_nat c = ipv6_num y - ipv6_num x + 1
     | Inl e \<Rightarrow> y < x \<and> e = ArithmeticOverflow ''IPv6 interval cardinality'')"
proof
  show "case ipv4_cardinality a b of Inr c \<Rightarrow> a \<le> b \<and> card_nat c = unat b - unat a + 1
     | Inl e \<Rightarrow> b < a \<and> e = ArithmeticOverflow ''IPv4 interval cardinality''"
    using ipv4_inclusive_spec(1) [of a b] ipv4_inclusive_spec(2) [of b a]
    by (cases "a \<le> b") (auto simp: ipv4_cardinality_def)
  show "case ipv6_cardinality x y of Inr c \<Rightarrow> x \<le> y \<and> card_nat c = ipv6_num y - ipv6_num x + 1
     | Inl e \<Rightarrow> y < x \<and> e = ArithmeticOverflow ''IPv6 interval cardinality''"
    using ipv6_inclusive_spec(1) [of "hi x" "lo x" "hi y" "lo y"]
      ipv6_inclusive_spec(2) [of "hi y" "lo y" "hi x" "lo x"] k6.num_mono [of y x]
    by (cases "x \<le> y") (auto simp: ipv6_cardinality_def ipv6_num_def not_le)
qed

text \<open>C30. An IPv6 key written to a buffer and read back is the key, every 16-byte field reads as
  some key and is its encoding, and next and previous are inverse steps of the numeric order.\<close>

theorem ipv6_codec_and_steps:
  "WIDTH ipv6_key \<le> length out \<Longrightarrow> length out \<le> usize_max \<Longrightarrow>
     \<exists>out'. ipv6_write_le k out = Inr out' \<and> length out' = length out \<and> ipv6_read_le out' 0 = Inr k
     \<and> drop 16 out' = drop 16 out
     \<and> (ipv6_next k = Some k' \<longleftrightarrow> ipv6_previous k' = Some k)
     \<and> (ipv6_next k = Some k' \<longrightarrow> (\<forall>x. k < x \<longleftrightarrow> k' \<le> x))"
proof (intro exI conjI)
  assume w: "WIDTH ipv6_key \<le> length out" "length out \<le> usize_max"
  let ?o = "wr out 0 (ipv6_enc k)"
  have w16: "16 \<le> length out" "length (ipv6_enc k) = 16"
    using w k6.length_enc [of k] by (simp_all add: ipv6_key_def)
  show "ipv6_write_le k out = Inr ?o" using k6.write_le [OF w(1)] by (simp add: ipv6_key_def)
  show "length ?o = length out" using w16 by simp
  have "rd ?o 0 16 = ipv6_enc k" using rd_wr_same [of 0 "ipv6_enc k" out] w16 by simp
  thus "ipv6_read_le ?o 0 = Inr k"
    using k6.read_le [of 0 ?o k] w w16 by (simp add: ipv6_key_def)
  show "drop 16 ?o = drop 16 out" using w16 by (simp add: wr_def)
  show "ipv6_next k = Some k' \<longleftrightarrow> ipv6_previous k' = Some k"
    using k6.next_previous [of k k'] by (simp add: ipv6_key_def)
  show "ipv6_next k = Some k' \<longrightarrow> (\<forall>x. k < x \<longleftrightarrow> k' \<le> x)"
  proof (intro impI allI)
    fix x assume "ipv6_next k = Some k'"
    hence "x < k' \<longleftrightarrow> x \<le> k" using k6.next_gap [of k k' x] by (simp add: ipv6_key_def)
    thus "k < x \<longleftrightarrow> k' \<le> x" by (meson not_le)
  qed
qed

theorem ipv6_codec_and_steps_witness:
  "\<exists>out'. ipv6_write_le (Ipv6Key 1 (- 1)) (replicate 20 0) = Inr out' \<and> ipv6_read_le out' 0 = Inr (Ipv6Key 1 (- 1))
    \<and> ipv6_next (Ipv6Key 1 (- 1)) = Some (Ipv6Key 2 0)"
  using ipv6_codec_and_steps [of "replicate 20 0" "Ipv6Key 1 (- 1)" "Ipv6Key 2 0"]
  by (auto simp: ipv6_key_def usize_max_def ipv6_next_def)

end
