(* ===== verification/RangeTree.thy ===== *)
theory RangeTree
  imports TreeCursor Key
begin

text \<open>
  The range tree (\<open>range_tree.rs\<close>): range records, their leaf and branch encodings, the codec of
  the range tree for either key width, and the point lookup in a selected generation
  (\<open>format.rs\<close>).
\<close>

definition RANGE_BRANCH :: "8 word" where "RANGE_BRANCH = 1"
definition RANGE_LEAF :: "8 word" where "RANGE_LEAF = 2"
definition MAX_RECORD_SIZE :: nat where "MAX_RECORD_SIZE = 36"
definition MAX_RANGE_BRANCH_SIZE :: nat where "MAX_RANGE_BRANCH_SIZE = 20"

record 'k range =
  r_from :: 'k
  r_to :: 'k
  r_value :: "32 word"

definition record_size :: "'k ip_key \<Rightarrow> nat" where
  "record_size K = WIDTH K * 2 + 4"

definition branch_size :: "'k ip_key \<Rightarrow> nat" where
  "branch_size K = WIDTH K + 4"

text \<open>\<open>write_le(&mut output[at..])\<close>: the tail of the output is rewritten.\<close>

definition write_key_at :: "'k ip_key \<Rightarrow> 'k \<Rightarrow> nat \<Rightarrow> bytes \<Rightarrow> bytes result" where
  "write_key_at K key at output =
    (if at \<le> length output then
       rbind (write_le K key (drop at output)) (\<lambda>tail. Inr (take at output @ tail))
     else Inl (Panicked ''range start index out of range''))"

definition encode_record :: "'k :: linorder ip_key \<Rightarrow> 'k range \<Rightarrow> bytes \<Rightarrow> (bytes \<times> nat) result" where
  "encode_record K r output =
    (let len = record_size K in
     if r_from r > r_to r then Inl (InvalidArgument ''range start is after its end'')
     else if length output < len then Inl (Unsupported ''range record buffer is too small'')
     else
       rbind (write_key_at K (r_from r) 0 output) (\<lambda>output.
       rbind (write_key_at K (r_to r) (WIDTH K) output) (\<lambda>output.
       rbind (copy_to_slice output (WIDTH K * 2) (to_le_bytes (r_value r))) (\<lambda>output.
       Inr (output, len)))))"

definition decode_fields :: "'k :: linorder ip_key \<Rightarrow> bytes \<Rightarrow> 'k range result" where
  "decode_fields K c =
    (if length c \<noteq> record_size K then Inl (Corrupt ''range leaf has the wrong record size'')
     else
       rbind (read_le K c 0) (\<lambda>f.
       rbind (read_le K c (WIDTH K)) (\<lambda>t.
       rbind (u32_le c (WIDTH K * 2)) (\<lambda>v.
       Inr \<lparr> r_from = f, r_to = t, r_value = v \<rparr>))))"

definition decode_cell :: "'k :: linorder ip_key \<Rightarrow> bytes \<Rightarrow> 'k range result" where
  "decode_cell K c =
    rbind (decode_fields K c) (\<lambda>r.
    if r_from r > r_to r then Inl (Corrupt ''selected range has reversed endpoints'') else Inr r)"

definition decode_branch :: "'k :: linorder ip_key \<Rightarrow> bytes \<Rightarrow> ('k \<times> 32 word) result" where
  "decode_branch K c =
    (if length c \<noteq> branch_size K then Inl (Corrupt ''range branch has the wrong record size'')
     else
       rbind (read_le K c 0) (\<lambda>k.
       rbind (u32_le c (WIDTH K)) (\<lambda>child.
       Inr (k, child))))"

definition range_codec :: "'k :: linorder ip_key \<Rightarrow> ('k, 'k range) codec" where
  "range_codec K = \<lparr>
     BRANCH_TYPE = RANGE_BRANCH,
     LEAF_TYPE = RANGE_LEAF,
     CODEC_AUX = ucast (family_wire (FAMILY K)),
     KEY_SIZE = WIDTH K,
     LEAF_SIZE = WIDTH K * 2 + 4,
     MAX_BRANCH_SIZE = WIDTH K + 4,
     MAX_LEAF_SIZE = WIDTH K * 2 + 4,
     read_key = (\<lambda>c _. read_le K c 0),
     read_leaf = decode_cell K,
     write_key = write_le K,
     validate_leaf = default_validate_leaf (decode_cell K),
     fixed_cell_size = default_fixed_cell_size (WIDTH K) (WIDTH K * 2 + 4) (WIDTH K + 4),
     leaf_cell = default_leaf_cell (WIDTH K * 2 + 4),
     branch_cell = default_branch_cell (WIDTH K),
     write_branch = default_write_branch (WIDTH K) (write_le K),
     read_branch_child = default_read_branch_child (WIDTH K) \<rparr>"

definition encode_branch :: "'k :: linorder ip_key \<Rightarrow> 'k \<Rightarrow> 32 word \<Rightarrow> bytes \<Rightarrow> (bytes \<times> nat) result" where
  "encode_branch K key child output = write_branch (range_codec K) key child output"

definition parse_range_header ::
  "'k ip_key \<Rightarrow> bytes \<Rightarrow> 64 word \<Rightarrow> 16 word option \<Rightarrow> header result" where
  "parse_range_header K page txn expected_level =
    parse_tree page txn RANGE_BRANCH RANGE_LEAF (ucast (family_wire (FAMILY K))) expected_level"

definition leaf_record :: "'k :: linorder ip_key \<Rightarrow> bytes \<Rightarrow> header \<Rightarrow> nat \<Rightarrow> 'k range result" where
  "leaf_record K page h index = rbind (cell page h index (record_size K)) (decode_cell K)"

definition range_lookup_leaf :: "'k :: linorder ip_key \<Rightarrow> 'k \<Rightarrow> 32 word leaf_query" where
  "range_lookup_leaf K target page h page_number position exact =
    (case (if exact then Some position else usize_checked_sub position 1) of
       None \<Rightarrow> Inr None
     | Some index \<Rightarrow>
         rbind (leaf_record K page h index) (\<lambda>r.
         Inr (if target > r_to r then None else Some (r_value r))))"

text \<open>The lookup in a generation: its metadata gives the family and the root of the range tree.\<close>

definition range_lookup ::
  "'k :: linorder ip_key \<Rightarrow> page_source \<Rightarrow> address_family \<Rightarrow> 32 word \<Rightarrow> 'k \<Rightarrow> 32 word option result" where
  "range_lookup K source family root target =
    (if family \<noteq> FAMILY K
     then Inl (WrongAddressFamily ''lookup address family does not match the database'')
     else query (range_codec K) source root target (range_lookup_leaf K target))"

end
