(* ===== verification/RangeMutation.thy ===== *)
theory RangeMutation
  imports RangeTree
begin

text \<open>
  Range assignment over the copy-on-write tree (\<open>range_mutation.rs\<close> and
  \<open>range_mutation/assign.rs\<close>). The arguments \<open>store\<close>, \<open>&mut root\<close> and \<open>&mut record_count\<close>
  that the source threads through every call are one triple. The two loops have no bound of their
  own: they are partial functions, and \<open>None\<close> is a call that does not return. The calls to the
  work counters change no state of the database.
\<close>

section \<open>Records in the tree\<close>

type_synonym 's rtree = "'s \<times> 32 word \<times> 64 word"

definition encoded_range :: "'k :: linorder ip_key \<Rightarrow> 'k range \<Rightarrow> bytes result" where
  "encoded_range K r =
    rbind (encode_record K r (replicate MAX_RECORD_SIZE 0)) (\<lambda>(bs, len). Inr (take len bs))"

definition insert_range :: "'k :: linorder ip_key \<Rightarrow> ('s, 'x) range_ops_scheme \<Rightarrow> 's rtree \<Rightarrow> 'k range \<Rightarrow> 's rtree result" where
  "insert_range K S t r = (case t of (st, root, record_count) \<Rightarrow>
    rbind (encoded_range K r) (\<lambda>encoded.
    rbind (insert_retiring (range_codec K) S st root encoded) (\<lambda>(st, root, inserted).
    if inserted then
      rbind (ok_or (ArithmeticOverflow ''range record count'') (Prelude.checked_add record_count 1)) (\<lambda>record_count.
      rbind (range_record_added S st (r_value r)) (\<lambda>st.
      Inr (st, root, record_count)))
    else Inr (st, root, record_count))))"

definition read_predecessor :: "'k :: linorder ip_key \<Rightarrow> ('s, 'x) store_ops_scheme \<Rightarrow> 's \<Rightarrow> 32 word \<Rightarrow> 'k \<Rightarrow> 'k range option result" where
  "read_predecessor K S st root key = predecessor (range_codec K) (store_source S st) root key"

definition read_at_or_after :: "'k :: linorder ip_key \<Rightarrow> ('s, 'x) store_ops_scheme \<Rightarrow> 's \<Rightarrow> 32 word \<Rightarrow> 'k \<Rightarrow> 'k range option result" where
  "read_at_or_after K S st root key = at_or_after (range_codec K) (store_source S st) root key"

definition range_remove :: "'k :: linorder ip_key \<Rightarrow> ('s, 'x) range_ops_scheme \<Rightarrow> 's rtree \<Rightarrow> 'k range \<Rightarrow> 's rtree result" where
  "range_remove K S t r = (case t of (st, root, record_count) \<Rightarrow>
    rbind (delete_retiring (range_codec K) S st root (r_from r)) (\<lambda>(st, root).
    rbind (ok_or (ArithmeticOverflow ''range record count'') (Prelude.checked_sub record_count 1)) (\<lambda>record_count.
    rbind (range_record_removed S st (r_value r)) (\<lambda>st.
    Inr (st, root, record_count)))))"

section \<open>Coalescing insertion\<close>

definition merge_previous :: "'k :: linorder ip_key \<Rightarrow> ('s, 'x) range_ops_scheme \<Rightarrow> 's rtree \<Rightarrow> 'k range \<Rightarrow> ('s rtree \<times> 'k range) result" where
  "merge_previous K S t r = (case t of (st, root, record_count) \<Rightarrow>
    rbind (read_predecessor K S st root (r_from r)) (\<lambda>found.
    case found of
      None \<Rightarrow> Inr (t, r)
    | Some previous \<Rightarrow>
        if r_value previous = r_value r \<and> checked_next K (r_to previous) = Some (r_from r)
        then rbind (range_remove K S t previous) (\<lambda>t. Inr (t, r \<lparr> r_from := r_from previous \<rparr>))
        else Inr (t, r)))"

definition merge_next :: "'k :: linorder ip_key \<Rightarrow> ('s, 'x) range_ops_scheme \<Rightarrow> 's rtree \<Rightarrow> 'k range \<Rightarrow> ('s rtree \<times> 'k range) result" where
  "merge_next K S t r = (case t of (st, root, record_count) \<Rightarrow>
    rbind (read_at_or_after K S st root (r_from r)) (\<lambda>found.
    case found of
      None \<Rightarrow> Inr (t, r)
    | Some next \<Rightarrow>
        if r_value next = r_value r \<and> checked_next K (r_to r) = Some (r_from next)
        then rbind (range_remove K S t next) (\<lambda>t. Inr (t, r \<lparr> r_to := r_to next \<rparr>))
        else Inr (t, r)))"

definition insert_coalesced :: "'k :: linorder ip_key \<Rightarrow> ('s, 'x) range_ops_scheme \<Rightarrow> 's rtree \<Rightarrow> 'k range \<Rightarrow> 's rtree result" where
  "insert_coalesced K S t r =
    rbind (merge_previous K S t r) (\<lambda>(t, r).
    rbind (merge_next K S t r) (\<lambda>(t, r).
    insert_range K S t r))"

section \<open>Replacement\<close>

record 'k change =
  ch_from :: 'k
  ch_to :: 'k
  ch_value :: "32 word option"

record 'k rewrite =
  rw_left :: "'k range option"
  rw_right :: "'k range option"
  rw_changed :: bool

definition replace_strictly_inside ::
  "'k :: linorder ip_key \<Rightarrow> ('s, 'x) range_ops_scheme \<Rightarrow> 's rtree \<Rightarrow> 'k range \<Rightarrow> 'k change \<Rightarrow> ('s rtree \<times> bool) result" where
  "replace_strictly_inside K S t old change = (case t of (st, root, record_count) \<Rightarrow>
    rbind (ok_or (Panicked ''from is above old.from'') (checked_previous K (ch_from change))) (\<lambda>before.
    rbind (encoded_range K \<lparr> r_from = r_from old, r_to = before, r_value = r_value old \<rparr>) (\<lambda>left.
    rbind (ok_or (Panicked ''to is below old.to'') (checked_next K (ch_to change))) (\<lambda>after.
    rbind (encoded_range K \<lparr> r_from = after, r_to = r_to old, r_value = r_value old \<rparr>) (\<lambda>right.
    rbind (case ch_value change of None \<Rightarrow> Inr None
           | Some v \<Rightarrow> rmap Some (encoded_range K \<lparr> r_from = ch_from change, r_to = ch_to change, r_value = v \<rparr>)) (\<lambda>middle.
    let cells = (case middle of Some m \<Rightarrow> [left, m, right] | None \<Rightarrow> [left, right]) in
    rbind (replace_leaf_with (range_codec K) S st root (r_from old) cells []) (\<lambda>(st, root, retired).
    rbind (retire_pages S st retired) (\<lambda>st.
    rbind (ok_or (ArithmeticOverflow ''range record count'')
            (Prelude.checked_add record_count (if middle \<noteq> None then 2 else 1))) (\<lambda>record_count.
    rbind (range_record_added S st (case ch_value change of Some v \<Rightarrow> v | None \<Rightarrow> r_value old)) (\<lambda>st.
    rbind (if middle \<noteq> None then range_record_added S st (r_value old) else Inr st) (\<lambda>st.
    Inr ((st, root, record_count), True))))))))))))"

definition trim_predecessor ::
  "'k :: linorder ip_key \<Rightarrow> ('s, 'x) range_ops_scheme \<Rightarrow> 's rtree \<Rightarrow> 'k range option \<Rightarrow> 'k \<Rightarrow> 'k \<Rightarrow> ('s rtree \<times> 'k rewrite) result" where
  "trim_predecessor K S t pred from to' =
    (let rewrite = \<lparr> rw_left = None, rw_right = None, rw_changed = False \<rparr> in
     case pred of
       None \<Rightarrow> Inr (t, rewrite)
     | Some old \<Rightarrow>
         if \<not> r_to old \<ge> from then Inr (t, rewrite)
         else
           rbind (range_remove K S t old) (\<lambda>t.
           let rewrite = rewrite \<lparr> rw_changed := True \<rparr> in
           rbind (if r_from old < from then
                    rbind (ok_or (Panicked ''from is above old.from'') (checked_previous K from)) (\<lambda>before.
                    Inr (rewrite \<lparr> rw_left := Some \<lparr> r_from = r_from old, r_to = before, r_value = r_value old \<rparr> \<rparr>))
                  else Inr rewrite) (\<lambda>rewrite.
           rbind (if r_to old > to' then
                    rbind (ok_or (Panicked ''to is below old.to'') (checked_next K to')) (\<lambda>after.
                    Inr (rewrite \<lparr> rw_right := Some \<lparr> r_from = after, r_to = r_to old, r_value = r_value old \<rparr> \<rparr>))
                  else Inr rewrite) (\<lambda>rewrite.
           Inr (t, rewrite)))))"

partial_function (option) trim_following ::
  "'k :: linorder ip_key \<Rightarrow> ('s, 'x) range_ops_scheme \<Rightarrow> 's rtree \<Rightarrow> 'k \<Rightarrow> 'k \<Rightarrow> 'k rewrite \<Rightarrow> ('s rtree \<times> 'k rewrite) run" where
  "trim_following K S t from to' rewrite =
    (case read_at_or_after K S (fst t) (fst (snd t)) from of
       Inl e \<Rightarrow> Some (Inl e)
     | Inr None \<Rightarrow> Some (Inr (t, rewrite))
     | Inr (Some old) \<Rightarrow>
         if r_from old > to' then Some (Inr (t, rewrite))
         else
           (case range_remove K S t old of
              Inl e \<Rightarrow> Some (Inl e)
            | Inr t \<Rightarrow>
                if r_to old > to' then
                  (case checked_next K to' of
                     None \<Rightarrow> Some (Inl (Panicked ''to is below old.to''))
                   | Some after \<Rightarrow> Some (Inr (t, rewrite \<lparr> rw_changed := True,
                       rw_right := Some \<lparr> r_from = after, r_to = r_to old, r_value = r_value old \<rparr> \<rparr>)))
                else trim_following K S t from to' (rewrite \<lparr> rw_changed := True \<rparr>)))"

definition write_replacement ::
  "'k :: linorder ip_key \<Rightarrow> ('s, 'x) range_ops_scheme \<Rightarrow> 's rtree \<Rightarrow> 'k \<Rightarrow> 'k \<Rightarrow> 32 word option \<Rightarrow> 'k rewrite \<Rightarrow> ('s rtree \<times> bool) result" where
  "write_replacement K S t from to' value rewrite =
    rbind (case rw_left rewrite of None \<Rightarrow> Inr t | Some left \<Rightarrow> insert_coalesced K S t left) (\<lambda>t.
    rbind (case value of None \<Rightarrow> Inr t
           | Some v \<Rightarrow> insert_coalesced K S t \<lparr> r_from = from, r_to = to', r_value = v \<rparr>) (\<lambda>t.
    rbind (case rw_right rewrite of None \<Rightarrow> Inr t | Some right \<Rightarrow> insert_coalesced K S t right) (\<lambda>t.
    Inr (t, rw_changed rewrite \<or> value \<noteq> None))))"

text \<open>\<open>replace\<close>, which is \<open>replace_with_hint\<close> without a hint.\<close>

definition replace_range ::
  "'k :: linorder ip_key \<Rightarrow> ('s, 'x) range_ops_scheme \<Rightarrow> 's rtree \<Rightarrow> 'k change \<Rightarrow> ('s rtree \<times> bool) run" where
  "replace_range K S t change =
    (let from = ch_from change; to' = ch_to change; value = ch_value change in
     if from > to' then Some (Inl (InvalidArgument ''range start is after its end''))
     else
       step_result (read_predecessor K S (fst t) (fst (snd t)) from) (\<lambda>pred.
       if (case (value, pred) of (Some new_value, Some old) \<Rightarrow> r_to old \<ge> to' \<and> r_value old = new_value | _ \<Rightarrow> False)
       then Some (Inr (t, False))
       else
         (case pred of
            Some old \<Rightarrow>
              if r_from old < from \<and> r_to old > to' then Some (replace_strictly_inside K S t old change)
              else
                step_result (trim_predecessor K S t pred from to') (\<lambda>(t, rewrite).
                step_run (trim_following K S t from to' rewrite) (\<lambda>(t, rewrite).
                Some (write_replacement K S t from to' value rewrite)))
          | None \<Rightarrow>
              step_result (trim_predecessor K S t pred from to') (\<lambda>(t, rewrite).
              step_run (trim_following K S t from to' rewrite) (\<lambda>(t, rewrite).
              Some (write_replacement K S t from to' value rewrite))))))"

definition assign ::
  "'k :: linorder ip_key \<Rightarrow> ('s, 'x) range_ops_scheme \<Rightarrow> 's rtree \<Rightarrow> 'k \<Rightarrow> 'k \<Rightarrow> 32 word \<Rightarrow> ('s rtree \<times> bool) run" where
  "assign K S t from to' value = replace_range K S t \<lparr> ch_from = from, ch_to = to', ch_value = Some value \<rparr>"

definition clear ::
  "'k :: linorder ip_key \<Rightarrow> ('s, 'x) range_ops_scheme \<Rightarrow> 's rtree \<Rightarrow> 'k \<Rightarrow> 'k \<Rightarrow> ('s rtree \<times> bool) run" where
  "clear K S t from to' = replace_range K S t \<lparr> ch_from = from, ch_to = to', ch_value = None \<rparr>"

section \<open>Transformation\<close>

record 'k segment =
  sg_to :: 'k
  sg_value :: "32 word option"

definition segment_at ::
  "'k :: linorder ip_key \<Rightarrow> ('s, 'x) store_ops_scheme \<Rightarrow> 's \<Rightarrow> 32 word \<Rightarrow> 'k \<Rightarrow> 'k \<Rightarrow> 'k segment result" where
  "segment_at K S st root from to' =
    rbind (read_predecessor K S st root from) (\<lambda>found.
    case (case found of Some r \<Rightarrow> if r_to r \<ge> from then Some r else None | None \<Rightarrow> None) of
      Some r \<Rightarrow> Inr \<lparr> sg_to = min (r_to r) to', sg_value = Some (r_value r) \<rparr>
    | None \<Rightarrow>
        rbind (read_at_or_after K S st root from) (\<lambda>following.
        rbind (case following of
                 Some next \<Rightarrow>
                   if r_from next \<le> to'
                   then ok_or (Corrupt ''range gap does not advance'') (checked_previous K (r_from next))
                   else Inr to'
               | None \<Rightarrow> Inr to') (\<lambda>end'.
        Inr \<lparr> sg_to = end', sg_value = None \<rparr>)))"

type_synonym 's value_operation = "'s \<Rightarrow> 32 word option \<Rightarrow> ('s \<times> 32 word option) result"

partial_function (option) transform_loop ::
  "'k :: linorder ip_key \<Rightarrow> ('s, 'x) range_ops_scheme \<Rightarrow> 's value_operation \<Rightarrow> 'k \<Rightarrow> 's rtree \<Rightarrow> 'k \<Rightarrow> bool \<Rightarrow> ('s rtree \<times> bool) run" where
  "transform_loop K S operation to' t cursor changed =
    (case segment_at K S (fst t) (fst (snd t)) cursor to' of
       Inl e \<Rightarrow> Some (Inl e)
     | Inr segment \<Rightarrow>
         (case operation (fst t) (sg_value segment) of
            Inl e \<Rightarrow> Some (Inl e)
          | Inr (st, value) \<Rightarrow>
              (case (if value \<noteq> sg_value segment
                     then step_run (replace_range K S (st, snd t) \<lparr> ch_from = cursor, ch_to = sg_to segment, ch_value = value \<rparr>)
                            (\<lambda>(t, _). Some (Inr (t, True)))
                     else Some (Inr ((st, snd t), changed))) of
                 None \<Rightarrow> None
               | Some (Inl e) \<Rightarrow> Some (Inl e)
               | Some (Inr (t, changed)) \<Rightarrow>
                   if sg_to segment = to' then Some (Inr (t, changed))
                   else
                     (case checked_next K (sg_to segment) of
                        None \<Rightarrow> Some (Inl (ArithmeticOverflow ''membership range cursor''))
                      | Some cursor \<Rightarrow> transform_loop K S operation to' t cursor changed))))"

definition transform ::
  "'k :: linorder ip_key \<Rightarrow> ('s, 'x) range_ops_scheme \<Rightarrow> 's rtree \<Rightarrow> 'k \<Rightarrow> 'k \<Rightarrow> 's value_operation \<Rightarrow> ('s rtree \<times> bool) run" where
  "transform K S t from to' operation =
    (if from > to' then Some (Inl (InvalidArgument ''range start is after its end''))
     else transform_loop K S operation to' t from False)"

end
