(* ===== verification/RangeList.thy ===== *)
theory RangeList
  imports RangeMutation
begin

text \<open>
  Range maps as lists. A canonical list of ranges is sorted, its ranges do not overlap, and ranges
  that touch carry different values; it is the normal form of a map from addresses to values.
  The lemmas describe the list operations of the range mutation by what they do to that map.
\<close>

section \<open>Canonical lists and their maps\<close>

definition in_range :: "'k :: linorder range \<Rightarrow> 'k \<Rightarrow> bool" where
  "in_range r a \<longleftrightarrow> r_from r \<le> a \<and> a \<le> r_to r"

definition value_at :: "'k :: linorder range list \<Rightarrow> 'k \<Rightarrow> 32 word option" where
  "value_at rs a = map_option r_value (find (\<lambda>r. in_range r a) rs)"

definition touching :: "'k ip_key \<Rightarrow> 'k :: linorder range \<Rightarrow> 'k range \<Rightarrow> bool" where
  "touching K a b \<longleftrightarrow> r_value a = r_value b \<and> checked_next K (r_to a) = Some (r_from b)"

definition apart_from :: "'k ip_key \<Rightarrow> 'k :: linorder range \<Rightarrow> 'k range \<Rightarrow> bool" where
  "apart_from K a b \<longleftrightarrow> r_to a < r_from b \<and> \<not> touching K a b"

definition canonical :: "'k ip_key \<Rightarrow> 'k :: linorder range list \<Rightarrow> bool" where
  "canonical K rs \<longleftrightarrow> (\<forall>r\<in>set rs. r_from r \<le> r_to r) \<and> sorted_wrt (apart_from K) rs"

definition put_range :: "'k :: linorder \<Rightarrow> 'k range list \<Rightarrow> 'k range list \<Rightarrow> 'k range list" where
  "put_range key new rs = filter (\<lambda>r. r_from r < key) rs @ new @ filter (\<lambda>r. key < r_from r) rs"

definition floor_range :: "'k :: linorder \<Rightarrow> 'k range list \<Rightarrow> 'k range option" where
  "floor_range key rs = (case rev (filter (\<lambda>r. r_from r \<le> key) rs) of [] \<Rightarrow> None | r # _ \<Rightarrow> Some r)"

definition ceil_range :: "'k :: linorder \<Rightarrow> 'k range list \<Rightarrow> 'k range option" where
  "ceil_range key rs = (case filter (\<lambda>r. key \<le> r_from r) rs of [] \<Rightarrow> None | r # _ \<Rightarrow> Some r)"

text \<open>Overlaying a map with a range.\<close>

definition overlay :: "'k :: linorder range \<Rightarrow> ('k \<Rightarrow> 32 word option) \<Rightarrow> 'k \<Rightarrow> 32 word option" where
  "overlay r f = (\<lambda>a. if in_range r a then Some (r_value r) else f a)"

definition vacant :: "'k :: linorder range \<Rightarrow> ('k \<Rightarrow> 32 word option) \<Rightarrow> bool" where
  "vacant r f \<longleftrightarrow> (\<forall>a. in_range r a \<longrightarrow> f a = None)"

section \<open>Lists\<close>

lemma canonical_less: "canonical K rs \<Longrightarrow> sorted_wrt (\<lambda>a b. r_to a < r_from b) rs"
  unfolding canonical_def by (elim conjE, erule sorted_wrt_mono_rel [rotated]) (simp add: apart_from_def)

lemma canonical_order:
  assumes "canonical K rs" "x \<in> set rs" "y \<in> set rs" "x \<noteq> y"
  shows "apart_from K x y \<or> apart_from K y x"
proof -
  obtain i j where ij: "i < length rs" "j < length rs" "x = rs ! i" "y = rs ! j" using assms(2,3) by (metis in_set_conv_nth)
  hence "i \<noteq> j" using assms(4) by auto
  thus ?thesis using assms(1) ij by (cases "i < j") (auto simp: canonical_def sorted_wrt_iff_nth_less)
qed

lemma canonical_from:
  assumes "canonical K rs" "x \<in> set rs" "y \<in> set rs" "r_from x = r_from y"
  shows "x = y"
proof (rule ccontr)
  assume "x \<noteq> y"
  hence "r_to x < r_from y \<or> r_to y < r_from x" using canonical_order [OF assms(1-3)] by (auto simp: apart_from_def)
  moreover have "r_from x \<le> r_to x" "r_from y \<le> r_to y" using assms(1-3) by (auto simp: canonical_def)
  ultimately show False using assms(4) by auto
qed

lemma canonical_disjoint:
  assumes "canonical K rs" "x \<in> set rs" "y \<in> set rs" "in_range x a" "in_range y a"
  shows "x = y"
proof (rule ccontr)
  assume "x \<noteq> y"
  hence "r_to x < r_from y \<or> r_to y < r_from x" using canonical_order [OF assms(1-3)] by (auto simp: apart_from_def)
  thus False using assms(4,5) unfolding in_range_def by (meson leD le_less_trans order_trans)
qed

lemma canonical_distinct: "canonical K rs \<Longrightarrow> distinct rs"
proof -
  assume c: "canonical K rs"
  have "rs ! i \<noteq> rs ! j" if "i < j" "j < length rs" for i j
  proof
    assume e: "rs ! i = rs ! j"
    have "r_to (rs ! i) < r_from (rs ! j)" using canonical_less [OF c] that by (simp add: sorted_wrt_iff_nth_less)
    moreover have "r_from (rs ! j) \<le> r_to (rs ! j)" using c that by (simp add: canonical_def)
    ultimately show False using e by simp
  qed
  thus ?thesis unfolding distinct_conv_nth by (metis nat_neq_iff)
qed

lemma canonical_filter: "canonical K rs \<Longrightarrow> canonical K (filter P rs)"
  by (auto simp: canonical_def sorted_wrt_filter)

lemma value_at_iff:
  assumes c: "canonical K rs"
  shows "value_at rs a = Some v \<longleftrightarrow> (\<exists>r\<in>set rs. in_range r a \<and> r_value r = v)"
proof
  assume "value_at rs a = Some v"
  thus "\<exists>r\<in>set rs. in_range r a \<and> r_value r = v" by (auto simp: value_at_def find_Some_iff)
next
  assume "\<exists>r\<in>set rs. in_range r a \<and> r_value r = v"
  then obtain r where r: "r \<in> set rs" "in_range r a" "r_value r = v" by blast
  obtain x where x: "find (\<lambda>r. in_range r a) rs = Some x"
    using r by (cases "find (\<lambda>r. in_range r a) rs") (auto simp: find_None_iff)
  hence "x \<in> set rs" "in_range x a" by (auto simp: find_Some_iff)
  hence "x = r" using canonical_disjoint [OF c, of x r a] r by blast
  thus "value_at rs a = Some v" using x r by (simp add: value_at_def)
qed

lemma value_at_None: "value_at rs a = None \<longleftrightarrow> (\<forall>r\<in>set rs. \<not> in_range r a)"
  by (auto simp: value_at_def find_None_iff)

text \<open>The map of a list depends on the set of its ranges only.\<close>

lemma value_at_set:
  assumes "canonical K rs" "canonical K rs'" "set rs' = A" "\<And>a v. (\<exists>r\<in>A. in_range r a \<and> r_value r = v) \<longleftrightarrow> f a = Some v"
  shows "value_at rs' = f"
proof
  fix a
  show "value_at rs' a = f a"
    using value_at_iff [OF assms(2), of a] assms(3,4) by (cases "f a"; cases "value_at rs' a") auto
qed

lemma vacant_iff:
  assumes "r_from r \<le> r_to r" "\<forall>x\<in>set rs. r_from x \<le> r_to x"
  shows "vacant r (value_at rs) \<longleftrightarrow> (\<forall>x\<in>set rs. r_to x < r_from r \<or> r_to r < r_from x)"
proof
  assume v: "vacant r (value_at rs)"
  show "\<forall>x\<in>set rs. r_to x < r_from r \<or> r_to r < r_from x"
  proof (rule ballI, rule ccontr)
    fix x assume x: "x \<in> set rs" "\<not> (r_to x < r_from r \<or> r_to r < r_from x)"
    let ?a = "max (r_from x) (r_from r)"
    have "in_range r ?a" "in_range x ?a" using x assms by (auto simp: in_range_def max_def not_less)
    thus False using v x(1) by (auto simp: vacant_def value_at_None)
  qed
next
  assume "\<forall>x\<in>set rs. r_to x < r_from r \<or> r_to r < r_from x"
  thus "vacant r (value_at rs)" by (fastforce simp: vacant_def value_at_None in_range_def)
qed

section \<open>Neighbours\<close>

lemma floor_Some:
  assumes c: "canonical K rs" and f: "floor_range key rs = Some r"
  shows "r \<in> set rs" "r_from r \<le> key" "x \<in> set rs \<Longrightarrow> r_from x \<le> key \<Longrightarrow> x = r \<or> r_to x < r_from r"
proof -
  let ?ys = "filter (\<lambda>r. r_from r \<le> key) rs"
  obtain zs where z: "?ys = zs @ [r]"
    using f by (cases ?ys rule: rev_cases) (auto simp: floor_range_def)
  have "r \<in> set ?ys" unfolding z by simp
  thus "r \<in> set rs" "r_from r \<le> key" by auto
  assume "x \<in> set rs" "r_from x \<le> key"
  hence "x \<in> set (zs @ [r])" unfolding z [symmetric] by simp
  moreover have "sorted_wrt (\<lambda>a b. r_to a < r_from b) (zs @ [r])"
    unfolding z [symmetric] by (rule sorted_wrt_filter [OF canonical_less [OF c]])
  ultimately show "x = r \<or> r_to x < r_from r" by (auto simp: sorted_wrt_append)
qed

lemma floor_None: "floor_range key rs = None \<longleftrightarrow> (\<forall>x\<in>set rs. key < r_from x)"
proof -
  have "floor_range key rs = None \<longleftrightarrow> filter (\<lambda>r. r_from r \<le> key) rs = []"
    by (cases "filter (\<lambda>r. r_from r \<le> key) rs" rule: rev_cases) (simp_all add: floor_range_def)
  thus ?thesis by (auto simp: filter_empty_conv not_le)
qed

lemma ceil_Some:
  assumes c: "canonical K rs" and f: "ceil_range key rs = Some r"
  shows "r \<in> set rs" "key \<le> r_from r" "x \<in> set rs \<Longrightarrow> key \<le> r_from x \<Longrightarrow> x = r \<or> r_to r < r_from x"
proof -
  let ?ys = "filter (\<lambda>r. key \<le> r_from r) rs"
  obtain zs where z: "?ys = r # zs" using f by (cases ?ys) (auto simp: ceil_range_def)
  have "r \<in> set ?ys" unfolding z by simp
  thus "r \<in> set rs" "key \<le> r_from r" by auto
  assume "x \<in> set rs" "key \<le> r_from x"
  hence "x \<in> set (r # zs)" unfolding z [symmetric] by simp
  moreover have "sorted_wrt (\<lambda>a b. r_to a < r_from b) (r # zs)"
    unfolding z [symmetric] by (rule sorted_wrt_filter [OF canonical_less [OF c]])
  ultimately show "x = r \<or> r_to r < r_from x" by auto
qed

lemma ceil_None: "ceil_range key rs = None \<longleftrightarrow> (\<forall>x\<in>set rs. r_from x < key)"
proof -
  have "ceil_range key rs = None \<longleftrightarrow> filter (\<lambda>r. key \<le> r_from r) rs = []"
    by (cases "filter (\<lambda>r. key \<le> r_from r) rs") (simp_all add: ceil_range_def)
  thus ?thesis by (auto simp: filter_empty_conv not_le)
qed

section \<open>Removing and adding a range\<close>

lemma put_split:
  assumes c: "canonical K (as @ r # bs)"
  shows "put_range (r_from r) new (as @ r # bs) = as @ new @ bs"
    "\<forall>x\<in>set as. r_from x < r_from r" "\<forall>x\<in>set bs. r_from r < r_from x"
proof -
  have s: "sorted_wrt (\<lambda>a b. r_to a < r_from b) (as @ r # bs)" "\<forall>x\<in>set (as @ r # bs). r_from x \<le> r_to x"
    using canonical_less [OF c] c by (auto simp: canonical_def)
  show a: "\<forall>x\<in>set as. r_from x < r_from r" "\<forall>x\<in>set bs. r_from r < r_from x"
    using s by (force simp: sorted_wrt_append)+
  have "filter (\<lambda>x. r_from x < r_from r) as = as" "filter (\<lambda>x. r_from x < r_from r) bs = []"
    "filter (\<lambda>x. r_from r < r_from x) as = []" "filter (\<lambda>x. r_from r < r_from x) bs = bs"
    using a by (auto simp: filter_id_conv filter_empty_conv)
  thus "put_range (r_from r) new (as @ r # bs) = as @ new @ bs" by (simp add: put_range_def)
qed

lemma put_removes:
  assumes c: "canonical K rs" and r: "r \<in> set rs"
  shows "put_range (r_from r) [] rs = filter (\<lambda>x. x \<noteq> r) rs" "set (put_range (r_from r) [] rs) = set rs - {r}"
    "length rs = Suc (length (put_range (r_from r) [] rs))" "canonical K (put_range (r_from r) [] rs)"
proof -
  obtain as bs where rs: "rs = as @ r # bs" using r by (metis split_list)
  have p: "put_range (r_from r) [] rs = as @ bs" using put_split(1) [OF c [unfolded rs], of "[]"] rs by simp
  have a: "\<forall>x\<in>set as. r_from x < r_from r" "\<forall>x\<in>set bs. r_from r < r_from x" by (rule put_split [OF c [unfolded rs]])+
  have "r \<notin> set as" "r \<notin> set bs" using a by auto
  hence "filter (\<lambda>x. x \<noteq> r) as = as" "filter (\<lambda>x. x \<noteq> r) bs = bs" by (auto simp: filter_id_conv)
  hence "filter (\<lambda>x. x \<noteq> r) rs = as @ bs" unfolding rs by simp
  thus f: "put_range (r_from r) [] rs = filter (\<lambda>x. x \<noteq> r) rs" using p by simp
  show "set (put_range (r_from r) [] rs) = set rs - {r}" unfolding f by auto
  show "length rs = Suc (length (put_range (r_from r) [] rs))" unfolding p using rs by simp
  show "canonical K (put_range (r_from r) [] rs)" unfolding f by (rule canonical_filter [OF c])
qed

lemma put_adds:
  assumes c: "canonical K rs" and r: "r_from r \<le> r_to r" and a: "\<forall>x\<in>set rs. apart_from K x r \<or> apart_from K r x"
  shows "set (put_range (r_from r) [r] rs) = insert r (set rs)" "length (put_range (r_from r) [r] rs) = Suc (length rs)"
    "canonical K (put_range (r_from r) [r] rs)" "\<forall>x\<in>set rs. r_from x \<noteq> r_from r"
proof -
  have o: "\<forall>x\<in>set rs. r_from x \<le> r_to x" using c by (simp add: canonical_def)
  have lt: "r_from x < r_from r \<longleftrightarrow> apart_from K x r" "r_from r < r_from x \<longleftrightarrow> apart_from K r x" if "x \<in> set rs" for x
  proof -
    have "r_from x \<le> r_to x" "apart_from K x r \<or> apart_from K r x" using that o a by auto
    thus "r_from x < r_from r \<longleftrightarrow> apart_from K x r" "r_from r < r_from x \<longleftrightarrow> apart_from K r x"
      using r by (auto simp: apart_from_def)
  qed
  show ne: "\<forall>x\<in>set rs. r_from x \<noteq> r_from r"
  proof
    fix x assume x: "x \<in> set rs"
    hence "r_from x < r_from r \<or> r_from r < r_from x" using lt a by blast
    thus "r_from x \<noteq> r_from r" by auto
  qed
  show "set (put_range (r_from r) [r] rs) = insert r (set rs)" using ne by (force simp: put_range_def)
  have "filter (\<lambda>x. r_from r < r_from x) rs = filter (\<lambda>x. \<not> r_from x < r_from r) rs"
    by (rule filter_cong) (use ne in force)+
  thus "length (put_range (r_from r) [r] rs) = Suc (length rs)"
    using sum_length_filter_compl [of "\<lambda>x. r_from x < r_from r" rs] by (simp add: put_range_def)
  have s: "sorted_wrt (apart_from K) rs" using c by (simp add: canonical_def)
  have cross: "apart_from K x y" if "x \<in> set rs" "y \<in> set rs" "r_from x < r_from r" "r_from r < r_from y" for x y
  proof -
    have "x \<noteq> y" using that(3,4) by auto
    hence "apart_from K x y \<or> apart_from K y x" by (rule canonical_order [OF c that(1,2)])
    moreover have "\<not> apart_from K y x"
    proof
      assume "apart_from K y x"
      hence "r_to y < r_from x" by (simp add: apart_from_def)
      moreover have "r_from y \<le> r_to y" using o that(2) by blast
      ultimately show False using that(3,4) by simp
    qed
    ultimately show ?thesis by blast
  qed
  have "sorted_wrt (apart_from K) (put_range (r_from r) [r] rs)"
    unfolding put_range_def sorted_wrt_append using lt cross by (auto simp: sorted_wrt_filter [OF s])
  moreover have "\<forall>x\<in>set (put_range (r_from r) [r] rs). r_from x \<le> r_to x" using o r by (auto simp: put_range_def)
  ultimately show "canonical K (put_range (r_from r) [r] rs)" by (simp add: canonical_def)
qed

lemma overlay_put:
  assumes c: "canonical K rs" and r: "r_from r \<le> r_to r" and a: "\<forall>x\<in>set rs. apart_from K x r \<or> apart_from K r x"
  shows "value_at (put_range (r_from r) [r] rs) = overlay r (value_at rs)"
proof (rule value_at_set [OF c put_adds(3) [OF c r a] put_adds(1) [OF c r a]])
  fix b v
  have "\<not> in_range x b" if "x \<in> set rs" "in_range r b" for x
  proof
    assume "in_range x b"
    moreover have "r_to x < r_from r \<or> r_to r < r_from x" using a that(1) by (auto simp: apart_from_def)
    ultimately show False using that(2) unfolding in_range_def by (meson leD le_less_trans order_trans)
  qed
  thus "(\<exists>x\<in>insert r (set rs). in_range x b \<and> r_value x = v) \<longleftrightarrow> overlay r (value_at rs) b = Some v"
    using value_at_iff [OF c, of b v] by (auto simp: overlay_def)
qed

lemma value_at_removed:
  assumes c: "canonical K rs" and p: "p \<in> set rs"
  shows "value_at (put_range (r_from p) [] rs) a = (if in_range p a then None else value_at rs a)"
proof -
  note q = put_removes [OF c p]
  have iff: "value_at (put_range (r_from p) [] rs) a = Some w \<longleftrightarrow> value_at rs a = Some w \<and> \<not> in_range p a" for w
    using value_at_iff [OF c, of a w] value_at_iff [OF q(4), of a w] q(2) canonical_disjoint [OF c _ p, of _ a] by auto
  show ?thesis
  proof (cases "value_at (put_range (r_from p) [] rs) a")
    case None
    thus ?thesis using iff [of "the (value_at rs a)"] by (cases "value_at rs a") auto
  next
    case (Some w)
    thus ?thesis using iff [of w] by simp
  qed
qed

section \<open>Coalescing\<close>

text \<open>A range to be added to a list: the addresses are free; nothing on the left touches it.\<close>

definition addable :: "'k ip_key \<Rightarrow> 'k :: linorder range list \<Rightarrow> 'k range \<Rightarrow> bool" where
  "addable K rs r \<longleftrightarrow> canonical K rs \<and> r_from r \<le> r_to r \<and> vacant r (value_at rs)"

lemma addable_sides: "addable K rs r \<Longrightarrow> x \<in> set rs \<Longrightarrow> r_to x < r_from r \<or> r_to r < r_from x"
  using vacant_iff [of r rs] by (auto simp: addable_def canonical_def)

lemma addable_put:
  assumes a: "addable K rs r" and t: "\<forall>x\<in>set rs. \<not> touching K x r \<and> \<not> touching K r x"
  shows "canonical K (put_range (r_from r) [r] rs)" "value_at (put_range (r_from r) [r] rs) = overlay r (value_at rs)"
    "length (put_range (r_from r) [r] rs) = Suc (length rs)" "\<forall>x\<in>set rs. r_from x \<noteq> r_from r"
proof -
  have c: "canonical K rs" "r_from r \<le> r_to r" using a by (simp_all add: addable_def)
  have ap: "\<forall>x\<in>set rs. apart_from K x r \<or> apart_from K r x" using addable_sides [OF a] t by (auto simp: apart_from_def)
  show "canonical K (put_range (r_from r) [r] rs)" "length (put_range (r_from r) [r] rs) = Suc (length rs)"
    "\<forall>x\<in>set rs. r_from x \<noteq> r_from r" by (rule put_adds [OF c ap])+
  show "value_at (put_range (r_from r) [r] rs) = overlay r (value_at rs)" by (rule overlay_put [OF c ap])
qed

text \<open>Absorbing a range that touches.\<close>

lemma absorb:
  assumes a: "addable K rs r" and p: "p \<in> set rs" and v: "r_value p = r_value r" "r_value r' = r_value r"
    and o: "r_from r' \<le> r_to r'" and u: "\<And>b. in_range r' b \<longleftrightarrow> in_range p b \<or> in_range r b"
  shows "addable K (put_range (r_from p) [] rs) r'"
    "overlay r' (value_at (put_range (r_from p) [] rs)) = overlay r (value_at rs)"
proof -
  let ?rs = "put_range (r_from p) [] rs"
  have c: "canonical K rs" using a by (simp add: addable_def)
  note q = put_removes [OF c p]
  note val = value_at_removed [OF c p]
  have "value_at ?rs b = None" if "in_range r' b" for b
    using that u [of b] a by (auto simp: val addable_def vacant_def)
  thus "addable K ?rs r'" using q(4) o by (simp add: addable_def vacant_def)
  show "overlay r' (value_at ?rs) = overlay r (value_at rs)"
  proof
    fix b
    show "overlay r' (value_at ?rs) b = overlay r (value_at rs) b"
    proof (cases "in_range p b")
      case True
      hence "value_at rs b = Some (r_value r)" using value_at_iff [OF c, of b] p v by blast
      thus ?thesis using True u v by (simp add: overlay_def)
    next
      case False
      hence "value_at ?rs b = value_at rs b" by (simp add: val)
      thus ?thesis using False u v by (simp add: overlay_def)
    qed
  qed
qed

context key_laws
begin

lemma touching_num: "touching K a b \<longleftrightarrow> r_value a = r_value b \<and> num (r_from b) = num (r_to a) + 1"
  by (simp add: touching_def checked_next)

lemma in_range_num: "in_range r a \<longleftrightarrow> num (r_from r) \<le> num a \<and> num a \<le> num (r_to r)"
  by (simp add: in_range_def num_le_iff)

text \<open>The neighbour that \<open>merge_previous\<close> reads is the only one that can touch on the left.\<close>

lemma merge_left:
  assumes a: "addable K rs r" and f: "floor_range (r_from r) rs = Some p" and t: "touching K p r"
  shows "addable K (put_range (r_from p) [] rs) (r \<lparr> r_from := r_from p \<rparr>)"
    "overlay (r \<lparr> r_from := r_from p \<rparr>) (value_at (put_range (r_from p) [] rs)) = overlay r (value_at rs)"
    "\<forall>x\<in>set (put_range (r_from p) [] rs). \<not> touching K x (r \<lparr> r_from := r_from p \<rparr>)"
proof -
  have c: "canonical K rs" and o: "r_from r \<le> r_to r" using a by (simp_all add: addable_def)
  have p: "p \<in> set rs" "r_from p \<le> r_from r" using floor_Some [OF c f] by auto
  have po: "r_from p \<le> r_to p" using c p by (simp add: canonical_def)
  let ?r = "r \<lparr> r_from := r_from p \<rparr>"
  have u: "in_range ?r b \<longleftrightarrow> in_range p b \<or> in_range r b" for b
    using t po o by (auto simp: in_range_num touching_num num_le_iff)
  have v: "r_value p = r_value r" "r_value ?r = r_value r" "r_from ?r \<le> r_to ?r"
    using t p(2) o by (auto simp: touching_num)
  show "addable K (put_range (r_from p) [] rs) ?r" "overlay ?r (value_at (put_range (r_from p) [] rs)) = overlay r (value_at rs)"
    by (rule absorb [OF a p(1) v(1,2,3) u])+
  show "\<forall>x\<in>set (put_range (r_from p) [] rs). \<not> touching K x ?r"
  proof
    fix x assume "x \<in> set (put_range (r_from p) [] rs)"
    hence x: "x \<in> set rs" "x \<noteq> p" using put_removes(2) [OF c p(1)] by auto
    have "apart_from K x p \<or> apart_from K p x" by (rule canonical_order [OF c x(1) p(1) x(2)])
    thus "\<not> touching K x ?r"
    proof
      assume "apart_from K x p"
      thus ?thesis using t by (auto simp: apart_from_def touching_num)
    next
      assume "apart_from K p x"
      moreover have "r_from x \<le> r_to x" using c x(1) by (simp add: canonical_def)
      ultimately show ?thesis using po by (auto simp: apart_from_def touching_num num_mono num_le_iff)
    qed
  qed
qed

lemma floor_touching:
  assumes a: "addable K rs r" and x: "x \<in> set rs" and t: "touching K x r"
  shows "floor_range (r_from r) rs = Some x"
proof -
  have c: "canonical K rs" using a by (simp add: addable_def)
  have xo: "r_from x \<le> r_to x" using c x by (simp add: canonical_def)
  have "r_from x \<le> r_from r" using t xo by (simp add: touching_num num_le_iff)
  then obtain p where f: "floor_range (r_from r) rs = Some p"
    using floor_None [of "r_from r" rs] x by (cases "floor_range (r_from r) rs") (auto simp: not_less)
  note q = floor_Some [OF c f]
  have "x = p \<or> r_to x < r_from p" by (rule q(3) [OF x \<open>r_from x \<le> r_from r\<close>])
  moreover have "\<not> r_to x < r_from p"
  proof
    assume "r_to x < r_from p"
    hence "r_from p = r_from r" using q(2) t by (simp add: touching_num num_mono num_le_iff num_eq_iff [symmetric])
    moreover have "r_from p \<le> r_to p" "r_from r \<le> r_to r" using c q(1) a by (auto simp: canonical_def addable_def)
    ultimately show False using addable_sides [OF a q(1)] by auto
  qed
  ultimately show ?thesis using f by simp
qed

lemma merge_right:
  assumes a: "addable K rs r" and f: "ceil_range (r_from r) rs = Some n" and t: "touching K r n"
    and l: "\<forall>x\<in>set rs. \<not> touching K x r"
  shows "addable K (put_range (r_from n) [] rs) (r \<lparr> r_to := r_to n \<rparr>)"
    "overlay (r \<lparr> r_to := r_to n \<rparr>) (value_at (put_range (r_from n) [] rs)) = overlay r (value_at rs)"
    "\<forall>x\<in>set (put_range (r_from n) [] rs). \<not> touching K x (r \<lparr> r_to := r_to n \<rparr>) \<and> \<not> touching K (r \<lparr> r_to := r_to n \<rparr>) x"
proof -
  have c: "canonical K rs" and o: "r_from r \<le> r_to r" using a by (simp_all add: addable_def)
  have n: "n \<in> set rs" using ceil_Some [OF c f] by auto
  have no: "r_from n \<le> r_to n" using c n by (simp add: canonical_def)
  let ?r = "r \<lparr> r_to := r_to n \<rparr>"
  have u: "in_range ?r b \<longleftrightarrow> in_range n b \<or> in_range r b" for b
    using t no o by (auto simp: in_range_num touching_num num_le_iff)
  have v: "r_value n = r_value r" "r_value ?r = r_value r" "r_from ?r \<le> r_to ?r"
    using t no o by (auto simp: touching_num num_le_iff)
  show "addable K (put_range (r_from n) [] rs) ?r" "overlay ?r (value_at (put_range (r_from n) [] rs)) = overlay r (value_at rs)"
    by (rule absorb [OF a n v(1,2,3) u])+
  show "\<forall>x\<in>set (put_range (r_from n) [] rs). \<not> touching K x ?r \<and> \<not> touching K ?r x"
  proof
    fix x assume "x \<in> set (put_range (r_from n) [] rs)"
    hence x: "x \<in> set rs" "x \<noteq> n" using put_removes(2) [OF c n] by auto
    have "\<not> touching K x ?r" using l x(1) by (auto simp: touching_num)
    moreover have "apart_from K x n \<or> apart_from K n x" by (rule canonical_order [OF c x(1) n x(2)])
    hence "\<not> touching K ?r x"
    proof
      assume "apart_from K n x"
      thus ?thesis using t by (auto simp: apart_from_def touching_num)
    next
      assume "apart_from K x n"
      moreover have "r_from x \<le> r_to x" using c x(1) by (simp add: canonical_def)
      ultimately show ?thesis using no by (auto simp: apart_from_def touching_num num_mono num_le_iff)
    qed
    ultimately show "\<not> touching K x ?r \<and> \<not> touching K ?r x" by blast
  qed
qed

lemma ceil_touching:
  assumes a: "addable K rs r" and x: "x \<in> set rs" and t: "touching K r x"
  shows "ceil_range (r_from r) rs = Some x"
proof -
  have c: "canonical K rs" and o: "r_from r \<le> r_to r" using a by (simp_all add: addable_def)
  have "r_from r \<le> r_from x" using t o by (simp add: touching_num num_le_iff)
  then obtain n where f: "ceil_range (r_from r) rs = Some n"
    using ceil_None [of "r_from r" rs] x by (cases "ceil_range (r_from r) rs") (auto simp: not_less)
  note q = ceil_Some [OF c f]
  have "x = n \<or> r_to n < r_from x" by (rule q(3) [OF x \<open>r_from r \<le> r_from x\<close>])
  moreover have "\<not> r_to n < r_from x"
  proof
    assume "r_to n < r_from x"
    hence "r_to n \<le> r_to r" using t by (simp add: touching_num num_mono num_le_iff)
    moreover have "r_from n \<le> r_to n" using c q(1) by (simp add: canonical_def)
    ultimately show False using addable_sides [OF a q(1)] q(2) by auto
  qed
  ultimately show ?thesis using f by simp
qed

end

section \<open>Clipping\<close>

definition patch :: "'k :: linorder range option \<Rightarrow> ('k \<Rightarrow> 32 word option) \<Rightarrow> 'k \<Rightarrow> 32 word option" where
  "patch r f = (case r of None \<Rightarrow> f | Some r \<Rightarrow> overlay r f)"

definition between :: "'k :: linorder \<Rightarrow> 'k \<Rightarrow> 'k \<Rightarrow> bool" where
  "between from to' a \<longleftrightarrow> from \<le> a \<and> a \<le> to'"

text \<open>
  The state of a replacement of \<open>from..to'\<close> in a map \<open>f\<close> while the ranges in the way are being
  removed: outside the interval the map is that of the list and of the two remainders.
\<close>

definition trimmed :: "'k ip_key \<Rightarrow> 'k :: linorder \<Rightarrow> 'k \<Rightarrow> ('k \<Rightarrow> 32 word option) \<Rightarrow> 'k range list \<Rightarrow> 'k rewrite \<Rightarrow> bool" where
  "trimmed K from to' f rs w \<longleftrightarrow> canonical K rs \<and> (\<forall>x\<in>set rs. r_from x < from \<longrightarrow> r_to x < from)
    \<and> (\<forall>l. rw_left w = Some l \<longrightarrow> r_from l \<le> r_to l \<and> r_to l < from \<and> vacant l (value_at rs))
    \<and> (\<forall>r. rw_right w = Some r \<longrightarrow> r_from r \<le> r_to r \<and> to' < r_from r \<and> vacant r (value_at rs)
        \<and> (\<forall>x\<in>set rs. \<not> between from to' (r_from x)))
    \<and> (\<forall>a. \<not> between from to' a \<longrightarrow> f a = patch (rw_right w) (patch (rw_left w) (value_at rs)) a)
    \<and> (rw_changed w \<or> (\<exists>a. between from to' a \<and> value_at rs a \<noteq> None) \<longleftrightarrow> (\<exists>a. between from to' a \<and> f a \<noteq> None))"

definition pending :: "'k :: linorder \<Rightarrow> 'k \<Rightarrow> 'k range list \<Rightarrow> nat" where
  "pending from to' rs = length (filter (\<lambda>x. between from to' (r_from x)) rs)"

context key_laws
begin

lemma before_num: "checked_previous K k = Some k' \<longleftrightarrow> num k = num k' + 1"
  by (rule checked_previous)

lemma previous_exists: "k' < k \<Longrightarrow> \<exists>p. checked_previous K k = Some p"
  using previous_None [of k] num_mono [of k' k] by (cases "checked_previous K k") auto

lemma next_exists: "k < k' \<Longrightarrow> \<exists>n. checked_next K k = Some n"
  using next_None [of k] num_mono [of k k'] num_less [of k'] by (cases "checked_next K k") auto

text \<open>The part of a range before and after an interval.\<close>

lemma part_before:
  assumes "checked_previous K from = Some before" "r_from old < from" "from \<le> r_to old"
  shows "r_from old \<le> before" "before < from"
    "in_range \<lparr> r_from = r_from old, r_to = before, r_value = v \<rparr> a \<longleftrightarrow> in_range old a \<and> a < from"
  using assms by (auto simp: before_num in_range_num num_mono num_le_iff)

lemma part_after:
  assumes "checked_next K to' = Some after" "to' < r_to old" "r_from old \<le> to'"
  shows "after \<le> r_to old" "to' < after"
    "in_range \<lparr> r_from = after, r_to = r_to old, r_value = v \<rparr> a \<longleftrightarrow> in_range old a \<and> to' < a"
  using assms by (auto simp: checked_next in_range_num num_mono num_le_iff)

lemma trimmed_start:
  assumes c: "canonical K rs" and n: "\<forall>x\<in>set rs. r_from x < from \<longrightarrow> r_to x < from"
  shows "trimmed K from to' (value_at rs) rs \<lparr> rw_left = None, rw_right = None, rw_changed = False \<rparr>"
  using assms by (simp add: trimmed_def patch_def)

text \<open>Removing a range that starts before the interval and reaches into it, or starts in it.\<close>

lemma trimmed_first:
  assumes c: "canonical K rs" and old: "old \<in> set rs" and ov: "r_from old \<le> from" "from \<le> r_to old" and ft: "from \<le> to'"
    and l: "left = (if r_from old < from then map_option (\<lambda>b. \<lparr> r_from = r_from old, r_to = b, r_value = r_value old \<rparr>) (checked_previous K from) else None)"
    and r: "right = (if to' < r_to old then map_option (\<lambda>b. \<lparr> r_from = b, r_to = r_to old, r_value = r_value old \<rparr>) (checked_next K to') else None)"
  shows "trimmed K from to' (value_at rs) (put_range (r_from old) [] rs) \<lparr> rw_left = left, rw_right = right, rw_changed = True \<rparr>"
proof -
  let ?rs = "put_range (r_from old) [] rs"
  note q = put_removes [OF c old] and val = value_at_removed [OF c old]
  have old_val: "value_at rs a = Some (r_value old)" if "in_range old a" for a
    using value_at_iff [OF c] old that by blast
  have out: "r_to x < r_from old \<or> r_to old < r_from x" if "x \<in> set ?rs" for x
    using canonical_order [OF c _ old, of x] that q(2) by (auto simp: apart_from_def)
  have left: "r_from old < from \<Longrightarrow> \<exists>b. checked_previous K from = Some b" by (rule previous_exists)
  have right: "to' < r_to old \<Longrightarrow> \<exists>b. checked_next K to' = Some b" by (rule next_exists)
  have side: "r_to x < from" if "x \<in> set ?rs" "r_from x < from" for x
    using out [OF that(1)] that(2) ov by auto
  have L: "r_from y \<le> r_to y \<and> r_to y < from \<and> (\<forall>a. in_range y a \<longleftrightarrow> in_range old a \<and> a < from) \<and> r_value y = r_value old"
    if "left = Some y" for y
    using that l left part_before [of "from" _ old] ov by (auto split: if_splits)
  have R: "r_from y \<le> r_to y \<and> to' < r_from y \<and> (\<forall>a. in_range y a \<longleftrightarrow> in_range old a \<and> to' < a) \<and> r_value y = r_value old"
    if "right = Some y" for y
    using that r right part_after [of to' _ old] ov ft by (auto split: if_splits)
  have Ln: "left = None \<Longrightarrow> \<not> r_from old < from" and Rn: "right = None \<Longrightarrow> \<not> to' < r_to old"
    using l r left right by (auto split: if_splits)
  have "value_at rs a = patch right (patch left (value_at ?rs)) a" if "\<not> between from to' a" for a
  proof (cases "in_range old a")
    case True
    hence v: "value_at rs a = Some (r_value old)" by (rule old_val)
    show ?thesis
    proof (cases "to' < a")
      case gt: True
      hence "to' < r_to old" using True unfolding in_range_def by (elim conjE) order
      then obtain y where y: "right = Some y" using Rn by blast
      thus ?thesis using R [OF y] True gt v by (simp add: patch_def overlay_def)
    next
      case le: False
      hence lt: "a < from" using that by (auto simp: between_def)
      hence "r_from old < from" using True unfolding in_range_def by (elim conjE) order
      then obtain y where y: "left = Some y" using Ln by blast
      hence "patch left (value_at ?rs) a = Some (r_value old)" using L [OF y] True lt by (simp add: patch_def overlay_def)
      thus ?thesis using R le v by (cases right) (auto simp: patch_def overlay_def)
    qed
  next
    case False
    have "patch left (value_at ?rs) a = value_at rs a" using L False val [of a] by (cases left) (auto simp: patch_def overlay_def)
    thus ?thesis using R False by (cases right) (auto simp: patch_def overlay_def)
  qed
  moreover have "\<not> between from to' (r_from x)" if "right = Some y" "x \<in> set ?rs" for x y
  proof -
    have "to' < r_to old" using that(1) r by (auto split: if_splits)
    moreover have "r_from x \<le> r_to x" using q(4) that(2) by (simp add: canonical_def)
    ultimately have "r_from x < from \<or> to' < r_from x" using out [OF that(2)] ov(1)
      by (elim disjE) (rule disjI1, order, rule disjI2, order)
    thus ?thesis by (auto simp: between_def)
  qed
  moreover have "\<exists>a. between from to' a \<and> value_at rs a \<noteq> None"
    using old_val [of "from"] ov ft by (auto simp: between_def in_range_def)
  ultimately show ?thesis
    using q(4) side L R val by (auto simp: trimmed_def vacant_def)
qed

text \<open>Removing the next range that starts in the interval.\<close>

lemma trimmed_next:
  assumes t: "trimmed K from to' f rs w" and ce: "ceil_range from rs = Some old" and ov: "r_from old \<le> to'"
    and r: "right = (if to' < r_to old then map_option (\<lambda>b. \<lparr> r_from = b, r_to = r_to old, r_value = r_value old \<rparr>) (checked_next K to') else rw_right w)"
  shows "trimmed K from to' f (put_range (r_from old) [] rs) (w \<lparr> rw_changed := True, rw_right := right \<rparr>)"
    "pending from to' rs = Suc (pending from to' (put_range (r_from old) [] rs))"
proof -
  let ?rs = "put_range (r_from old) [] rs" and ?w = "w \<lparr> rw_changed := True, rw_right := right \<rparr>"
  have c: "canonical K rs" using t by (simp add: trimmed_def)
  note ceil = ceil_Some [OF c ce]
  note q = put_removes [OF c ceil(1)] and val = value_at_removed [OF c ceil(1)]
  have bt: "between from to' (r_from old)" using ceil(2) ov by (simp add: between_def)
  have rn: "rw_right w = None" using t bt ceil(1) by (cases "rw_right w") (auto simp: trimmed_def)
  have old_val: "value_at rs a = Some (r_value old)" if "in_range old a" for a
    using value_at_iff [OF c] ceil(1) that by blast
  have R: "r_from y \<le> r_to y \<and> to' < r_from y \<and> (\<forall>a. in_range y a \<longleftrightarrow> in_range old a \<and> to' < a) \<and> r_value y = r_value old"
    if "right = Some y" for y
    using that r rn part_after [of to' _ old] ov by (auto split: if_splits)
  have Rn: "right = None \<Longrightarrow> \<not> to' < r_to old" using r next_exists [of to' "r_to old"] by (auto split: if_splits)
  have far: "\<not> between from to' (r_from x)" if "right = Some y" "x \<in> set ?rs" for x y
  proof -
    have "to' < r_to old" using that(1) r rn by (auto split: if_splits)
    moreover have x: "x \<in> set rs" "x \<noteq> old" using that(2) q(2) by auto
    ultimately show ?thesis using ceil(3) [OF x(1)] x(2) by (auto simp: between_def)
  qed
  have old_vac: "value_at rs a = None" if "rw_left w = Some l" "in_range l a" for l a
    using t that by (auto simp: trimmed_def vacant_def)
  have "f a = patch right (patch (rw_left w) (value_at ?rs)) a" if nb: "\<not> between from to' a" for a
  proof -
    have fa: "f a = patch (rw_left w) (value_at rs) a" using t nb rn by (simp add: trimmed_def patch_def)
    show ?thesis
    proof (cases "in_range old a")
      case True
      hence "from \<le> a" using ceil(2) unfolding in_range_def by (elim conjE) order
      hence gt: "to' < a" using nb by (auto simp: between_def)
      hence "to' < r_to old" using True unfolding in_range_def by (elim conjE) order
      then obtain y where y: "right = Some y" using Rn by blast
      have "f a = Some (r_value old)"
        using fa old_val [OF True] old_vac by (cases "rw_left w") (auto simp: patch_def overlay_def)
      thus ?thesis using R [OF y] True gt y by (simp add: patch_def overlay_def)
    next
      case False
      have "patch (rw_left w) (value_at ?rs) a = patch (rw_left w) (value_at rs) a"
        using False val [of a] by (cases "rw_left w") (auto simp: patch_def overlay_def)
      thus ?thesis using fa R False by (cases right) (auto simp: patch_def overlay_def)
    qed
  qed
  moreover have "\<exists>a. between from to' a \<and> value_at rs a \<noteq> None"
    using old_val [of "r_from old"] c ceil(1) bt by (auto simp: in_range_def canonical_def)
  hence "\<exists>a. between from to' a \<and> f a \<noteq> None" using t by (auto simp: trimmed_def)
  moreover have "vacant l (value_at ?rs)" if "rw_left w = Some l" for l
    using old_vac [OF that] val by (auto simp: vacant_def)
  moreover have "vacant y (value_at ?rs)" if "right = Some y" for y
    using R [OF that] val by (auto simp: vacant_def)
  moreover have "\<forall>x\<in>set ?rs. r_from x < from \<longrightarrow> r_to x < from" using t q(2) by (auto simp: trimmed_def)
  ultimately show "trimmed K from to' f ?rs ?w"
    using t q(4) R far by (auto simp: trimmed_def)
  have "filter (\<lambda>x. between from to' (r_from x)) ?rs = filter (\<lambda>x. x \<noteq> old) (filter (\<lambda>x. between from to' (r_from x)) rs)"
    unfolding q(1) filter_filter by (rule filter_cong) auto
  also have "\<dots> = remove1 old (filter (\<lambda>x. between from to' (r_from x)) rs)"
    using canonical_distinct [OF c] by (simp add: distinct_remove1_removeAll removeAll_filter_not_eq eq_commute)
  finally have fl: "filter (\<lambda>x. between from to' (r_from x)) ?rs = remove1 old (filter (\<lambda>x. between from to' (r_from x)) rs)" .
  have "old \<in> set (filter (\<lambda>x. between from to' (r_from x)) rs)" using bt ceil(1) by simp
  thus "pending from to' rs = Suc (pending from to' ?rs)"
    using length_pos_if_in_set unfolding pending_def fl by (fastforce simp: length_remove1)
qed

lemma trimmed_end:
  assumes t: "trimmed K from to' f rs w" and ce: "\<And>old. ceil_range from rs = Some old \<Longrightarrow> to' < r_from old" and a: "between from to' a"
  shows "value_at rs a = None"
  unfolding value_at_None
proof (rule ballI, rule notI)
  fix x assume x: "x \<in> set rs" and i: "in_range x a"
  have c: "canonical K rs" and n: "\<forall>x\<in>set rs. r_from x < from \<longrightarrow> r_to x < from" using t by (simp_all add: trimmed_def)
  have b: "from \<le> a" "a \<le> to'" "r_from x \<le> a" "a \<le> r_to x" using a i by (simp_all add: between_def in_range_def)
  have "from \<le> r_from x" using n x b by (meson leD le_less_linear le_less_trans)
  moreover from this obtain old where o: "ceil_range from rs = Some old"
    using ceil_None [of "from" rs] x by (cases "ceil_range from rs") (auto simp: not_less)
  ultimately have "x = old \<or> r_to old < r_from x" using ceil_Some(3) [OF c o x] by blast
  moreover have "r_from old \<le> r_to old" using c ceil_Some(1) [OF c o] by (simp add: canonical_def)
  ultimately show False using ce [OF o] b by (elim disjE) (simp, order)
qed

text \<open>An interval with one value throughout lies in one range.\<close>

lemma constant_interval:
  assumes c: "canonical K rs" and ft: "from \<le> to'" and v: "\<And>a. between from to' a \<Longrightarrow> value_at rs a = Some v"
  shows "\<exists>p. floor_range from rs = Some p \<and> to' \<le> r_to p \<and> r_value p = v"
proof -
  have "value_at rs from = Some v" using v ft by (simp add: between_def)
  then obtain p where p: "p \<in> set rs" "in_range p from" "r_value p = v" using value_at_iff [OF c] by blast
  have f: "floor_range from rs = Some p"
  proof -
    obtain q where q: "floor_range from rs = Some q"
      using floor_None [of "from" rs] p(1,2) by (cases "floor_range from rs") (auto simp: in_range_def not_less)
    have "p = q \<or> r_to p < r_from q" using floor_Some(3) [OF c q p(1)] p(2) by (simp add: in_range_def)
    moreover have "\<not> r_to p < r_from q" using floor_Some(2) [OF c q] p(2) by (auto simp: in_range_def)
    ultimately show ?thesis using q by simp
  qed
  moreover have "to' \<le> r_to p"
  proof (rule ccontr)
    assume "\<not> to' \<le> r_to p"
    hence lt: "r_to p < to'" by simp
    obtain k where k: "checked_next K (r_to p) = Some k" using next_exists [OF lt] by blast
    have "between from to' k" using k lt p(2) by (auto simp: checked_next between_def in_range_num num_mono num_le_iff)
    then obtain x where x: "x \<in> set rs" "in_range x k" "r_value x = v" using v value_at_iff [OF c] by blast
    have "x \<noteq> p" using x(2) k by (auto simp: checked_next in_range_num)
    hence "apart_from K p x \<or> apart_from K x p" by (rule canonical_order [OF c p(1) x(1), OF not_sym])
    thus False using x(2,3) p(2,3) k
      by (auto simp: apart_from_def touching_num checked_next in_range_num num_mono num_le_iff)
  qed
  ultimately show ?thesis using p(3) by blast
qed

text \<open>Replacing the inside of one range.\<close>

lemma split_inside:
  assumes c: "canonical K rs" and old: "old \<in> set rs" and ins: "r_from old < from" "from \<le> to'" "to' < r_to old"
    and bf: "checked_previous K from = Some before" and af: "checked_next K to' = Some after"
    and ne: "value \<noteq> Some (r_value old)"
    and new: "new = \<lparr> r_from = r_from old, r_to = before, r_value = r_value old \<rparr>
      # (case value of None \<Rightarrow> [] | Some v \<Rightarrow> [\<lparr> r_from = from, r_to = to', r_value = v \<rparr>])
      @ [\<lparr> r_from = after, r_to = r_to old, r_value = r_value old \<rparr>]"
  shows "canonical K new" "canonical K (put_range (r_from old) new rs)"
    "length (put_range (r_from old) new rs) = length rs + length new - 1"
    "value_at (put_range (r_from old) new rs) = (\<lambda>a. if between from to' a then value else value_at rs a)"
proof -
  obtain as bs where rs: "rs = as @ old # bs" using old by (metis split_list)
  have ab: "put_range (r_from old) [] rs = as @ bs" "put_range (r_from old) new rs = as @ new @ bs"
    using put_split(1) [OF c [unfolded rs], of "[]"] put_split(1) [OF c [unfolded rs], of new] rs by simp_all
  note n = ins [unfolded num_mono num_le_iff] bf [unfolded before_num] af [unfolded checked_next]
  show cn: "canonical K new"
    using n ne new by (cases "value") (auto simp: canonical_def apart_from_def touching_num num_mono num_le_iff)
  have sub: "num (r_from old) \<le> num (r_from y) \<and> num (r_to y) \<le> num (r_to old)
      \<and> (num (r_from y) = num (r_from old) \<longrightarrow> r_value y = r_value old) \<and> (num (r_to y) = num (r_to old) \<longrightarrow> r_value y = r_value old)"
    if "y \<in> set new" for y
    using that n new by (cases "value") auto
  have s: "sorted_wrt (apart_from K) as" "sorted_wrt (apart_from K) bs" "\<forall>x\<in>set as. apart_from K x old" "\<forall>x\<in>set bs. apart_from K old x"
    "\<forall>x\<in>set as. \<forall>y\<in>set bs. apart_from K x y" "\<forall>x\<in>set as \<union> set bs. r_from x \<le> r_to x"
    using c unfolding rs by (auto simp: canonical_def sorted_wrt_append)
  have left: "apart_from K x y" if "x \<in> set as" "y \<in> set new" for x y
  proof -
    have "apart_from K x old" using s(3) that(1) by blast
    thus ?thesis using sub [OF that(2)] by (auto simp: apart_from_def touching_num num_mono)
  qed
  have right: "apart_from K y x" if "x \<in> set bs" "y \<in> set new" for x y
  proof -
    have "apart_from K old x" using s(4) that(1) by blast
    thus ?thesis using sub [OF that(2)] by (auto simp: apart_from_def touching_num num_mono)
  qed
  show c': "canonical K (put_range (r_from old) new rs)"
    using cn s left right unfolding ab(2) by (auto simp: canonical_def sorted_wrt_append)
  show "length (put_range (r_from old) new rs) = length rs + length new - 1" unfolding ab(2) using rs by simp
  have hit: "(\<exists>y\<in>set new. in_range y a \<and> r_value y = v) \<longleftrightarrow> in_range old a \<and> (if between from to' a then value else Some (r_value old)) = Some v" for a v
    using n new by (cases "value") (auto simp: in_range_num between_def num_le_iff)
  have old_val: "in_range old a \<Longrightarrow> value_at rs a = Some (r_value old)" for a using value_at_iff [OF c] old by blast
  have inside: "between from to' a \<Longrightarrow> in_range old a" for a using n by (auto simp: in_range_num between_def num_le_iff)
  show "value_at (put_range (r_from old) new rs) = (\<lambda>a. if between from to' a then value else value_at rs a)"
  proof (rule value_at_set [OF c c'])
    show "set (put_range (r_from old) new rs) = set (as @ bs) \<union> set new" unfolding ab(2) by auto
    fix a v
    have "(\<exists>y\<in>set (as @ bs). in_range y a \<and> r_value y = v) \<longleftrightarrow> \<not> in_range old a \<and> value_at rs a = Some v"
      unfolding value_at_iff [OF put_removes(4) [OF c old], unfolded ab(1), of a v, symmetric] value_at_removed [OF c old, unfolded ab(1)]
      by simp
    thus "(\<exists>y\<in>set (as @ bs) \<union> set new. in_range y a \<and> r_value y = v) \<longleftrightarrow> (if between from to' a then value else value_at rs a) = Some v"
      unfolding bex_Un hit using old_val [of a] inside [of a] by auto
  qed
qed

end

end
