(* ===== verification/SlottedSpec.thy ===== *)
theory SlottedSpec
  imports SlottedCompact
begin

text \<open>
  What the slotted page promises, stated on whole operations: a page that represents a list of
  records still represents the list the operation describes, on every branch, and keeps its
  identity (magic, type, flags, birth transaction, discriminator, level).
\<close>

section \<open>Pages exist for every list that fits\<close>

lemma build_slotted:
  assumes "cs \<noteq> []" "[] \<notin> set cs" "HEADER_SIZE + 2 * length cs + sum_list (map length cs) \<le> PAGE_SIZE"
  shows "\<exists>p. rbind (appender_new ptype born lvl aux) (\<lambda>b. rbind (rfold builder_push b cs) builder_finish) = Inr p
    \<and> slotted p cs \<and> common_valid p \<and> kind_valid p ptype aux \<and> born_txn p = born \<and> level p = lvl"
proof -
  obtain page a where a: "appender_new ptype born lvl aux = Inr (page, a)" "appending (page, a) []"
      "common_valid page" "kind_valid page ptype aux" "born_txn page = born" "level page = lvl"
    using appender_new_ok by blast
  have l: "length page = PAGE_SIZE" "ap_upper a = PAGE_SIZE"
    using a(2) laidD [of page "ap_upper a" "[]"] by (auto simp: appending_def)
  obtain b where b: "rfold builder_push (page, a) cs = Inr b" "appending b cs" "tag_of (fst b) = tag_of page"
    using builder_pushes_ok [OF a(2) assms(2)] assms(3) l by auto
  obtain p where p: "builder_finish b = Inr p" "slotted p cs" "tag_of p = tag_of (fst b)"
    using builder_finish_ok [OF b(2) assms(1)] by blast
  have len: "length p = PAGE_SIZE" using p(2) laidD by (auto simp: slotted_def)
  have i: "ident_of p = ident_of page" "level p = lvl" using p(3) b(3) a(6) by (simp_all add: tag_of_def)
  have "common_valid p" "kind_valid p ptype aux"
    using common_valid_ident [OF len l(1) i(1)] a(3,4) by simp_all
  moreover have "born_txn p = born" using i(1) a(5) by (simp add: ident_of_def)
  ultimately show ?thesis using a(1) b(1) p i(2) by auto
qed

lemma example_page: "\<exists>p. slotted p [[1, 2], [3, 4], [5, 6]] \<and> upper p = 4090"
proof -
  obtain p where p: "slotted p [[1, 2], [3, 4], [5, 6]]"
    using build_slotted [of "[[1, 2], [3, 4], [5, 6]]" 2 7 0 4] by (auto simp: layout_consts)
  hence "laid p (upper p) [[1, 2], [3, 4], [5, 6]]" by (simp add: slotted_def)
  from laidD(2) [OF this] have "upper p + 6 = PAGE_SIZE" by simp
  thus ?thesis using p by (auto simp: PAGE_SIZE_def)
qed

section \<open>Operations\<close>

text \<open>C21. Inserting a record into a page that represents \<open>cs\<close> either leaves what it represents and
  answers \<open>false\<close> (exactly when the record and its slot do not fit), or answers \<open>true\<close> and the
  page represents \<open>cs\<close> with the record at the index; the identity of the page never changes.\<close>

theorem insert_refines_list:
  assumes "slotted p cs" "index \<le> length cs" "c \<noteq> []"
  defines "fits \<equiv> HEADER_SIZE + 2 * length cs + 2 + length c \<le> upper p"
  shows "\<exists>p'. insert_slot p (raw_header p) index c = Inr (p', fits)
    \<and> slotted p' (if fits then insert_at index c cs else cs) \<and> tag_of p' = tag_of p"
proof (cases "insert_fits (raw_header p) (length c)")
  case True
  hence "fits" using insert_fits_slotted [OF assms(1)] fits_def by blast
  thus ?thesis using insert_slot_slotted [OF assms(1-3) True] by metis
next
  case False
  hence "\<not> fits" using insert_fits_slotted [OF assms(1)] fits_def assms(3) by auto
  thus ?thesis using insert_slot_full [OF assms(1-3) False] assms(1) by simp
qed

theorem insert_refines_list_witness:
  "\<exists>p p'. slotted p [[1, 2], [3, 4], [5, 6]] \<and> insert_slot p (raw_header p) 1 [7, 8, 9] = Inr (p', True)
    \<and> slotted p' [[1, 2], [7, 8, 9], [3, 4], [5, 6]]"
proof -
  let ?cs = "[[1, 2], [3, 4], [5, 6]] :: bytes list"
  obtain p where p: "slotted p ?cs" "upper p = 4090" using example_page by blast
  have "insert_at 1 [7, 8, 9] ?cs = [[1, 2], [7, 8, 9], [3, 4], [5, 6]]" by (simp add: insert_at_def)
  moreover have "\<exists>p'. insert_slot p (raw_header p) 1 [7, 8, 9] = Inr (p', True)
      \<and> slotted p' (insert_at 1 [7, 8, 9] ?cs)"
    using insert_refines_list [OF p(1), of 1 "[7, 8, 9]"] p(2) by (simp add: layout_consts) blast
  ultimately show ?thesis using p(1) by auto
qed

text \<open>C22. Replacing a record, by a record of any length, either fits and the page represents the
  list with that entry replaced, or is refused and the page is unchanged; it fits exactly when
  the free area plus the old record can hold the new one.\<close>

theorem replace_refines_list:
  assumes "slotted p cs" "i < length cs" "c \<noteq> []"
  defines "fits \<equiv> HEADER_SIZE + 2 * length cs + length c \<le> length (cs ! i) + upper p"
  shows "\<exists>p'. replace_slot p (raw_header p) i (length (cs ! i)) c = Inr (p', fits)
    \<and> slotted p' (if fits then cs[i := c] else cs) \<and> tag_of p' = tag_of p"
proof -
  have l: "laid p (upper p) cs" using assms by (simp add: slotted_def)
  have f: "replace_fits (raw_header p) (length (cs ! i)) (length c) \<longleftrightarrow> fits"
    using replace_fits_slotted [OF assms(1)] laid_cellD [OF l assms(2)] assms(3)
    by (auto simp: fits_def)
  show ?thesis
  proof (cases fits)
    case True thus ?thesis using replace_slot_slotted [OF assms(1-3)] f by auto
  next
    case False thus ?thesis using replace_slot_full [OF assms(1-3)] f assms(1) by auto
  qed
qed

theorem replace_refines_list_witness:
  "\<exists>p p'. slotted p [[1, 2], [3, 4], [5, 6]]
    \<and> replace_slot p (raw_header p) 2 2 [7, 8, 9, 10] = Inr (p', True)
    \<and> slotted p' [[1, 2], [3, 4], [7, 8, 9, 10]]"
proof -
  let ?cs = "[[1, 2], [3, 4], [5, 6]] :: bytes list"
  obtain p where p: "slotted p ?cs" "upper p = 4090" using example_page by blast
  have eq: "length (?cs ! 2) = 2" "?cs[2 := [7, 8, 9, 10]] = [[1, 2], [3, 4], [7, 8, 9, 10]]" by simp_all
  have "\<exists>p'. replace_slot p (raw_header p) 2 (length (?cs ! 2)) [7, 8, 9, 10] = Inr (p', True)
      \<and> slotted p' (?cs[2 := [7, 8, 9, 10]])"
    using replace_refines_list [OF p(1), of 2 "[7, 8, 9, 10]"] p(2) by (simp add: layout_consts) blast
  thus ?thesis using p(1) unfolding eq by blast
qed

text \<open>C23. Removing one record of a page with more than one compacts the record area and leaves the
  page with the list without that record.\<close>

theorem remove_refines_list:
  assumes "slotted p cs" "i < length cs" "1 < length cs"
  shows "\<exists>p'. remove_slot p (raw_header p) i (length (cs ! i)) = Inr p'
    \<and> slotted p' (remove_at i cs) \<and> tag_of p' = tag_of p \<and> upper p' = upper p + length (cs ! i)"
  by (rule remove_slot_slotted [OF assms]) blast

theorem remove_refines_list_witness:
  "\<exists>p p'. slotted p [[1, 2], [3, 4], [5, 6]]
    \<and> remove_slot p (raw_header p) 0 2 = Inr p' \<and> slotted p' [[3, 4], [5, 6]]"
proof -
  let ?cs = "[[1, 2], [3, 4], [5, 6]] :: bytes list"
  obtain p where p: "slotted p ?cs" "upper p = 4090" using example_page by blast
  have eq: "remove_at 0 ?cs = [[3, 4], [5, 6]]" "length (?cs ! 0) = 2" by (simp_all add: remove_at_def)
  have "\<exists>p'. remove_slot p (raw_header p) 0 (length (?cs ! 0)) = Inr p' \<and> slotted p' (remove_at 0 ?cs)"
    using remove_refines_list [OF p(1), of 0] by auto
  thus ?thesis using p(1) unfolding eq by blast
qed

text \<open>C24. Both truncations, the one for records of one size and the general one, keep exactly the
  first \<open>keep\<close> records, in order, although the records lie in the page in any physical order, and
  return the header of the page they leave.\<close>

theorem truncations_agree_with_take:
  assumes "slotted p cs" "0 < keep" "keep < length cs" "\<forall>c\<in>set cs. length c = w"
  shows "\<exists>p' p''. truncate_fixed p (raw_header p) keep w = Inr (p', raw_header p')
    \<and> truncate_slots p (raw_header p) keep = Inr (p'', raw_header p'')
    \<and> slotted p' (take keep cs) \<and> slotted p'' (take keep cs)
    \<and> tag_of p' = tag_of p \<and> tag_of p'' = tag_of p"
  using truncate_fixed_slotted [OF assms(1,4,2,3)] truncate_slots_slotted [OF assms(1-3)] by blast

theorem truncations_agree_with_take_witness:
  "\<exists>p p' p''. slotted p [[1, 2], [3, 4], [5, 6]]
    \<and> truncate_fixed p (raw_header p) 2 2 = Inr (p', raw_header p')
    \<and> truncate_slots p (raw_header p) 2 = Inr (p'', raw_header p'')
    \<and> slotted p' [[1, 2], [3, 4]] \<and> slotted p'' [[1, 2], [3, 4]]"
proof -
  let ?cs = "[[1, 2], [3, 4], [5, 6]] :: bytes list"
  obtain p where p: "slotted p ?cs" "upper p = 4090" using example_page by blast
  have eq: "take 2 ?cs = [[1, 2], [3, 4]]" by simp
  have "\<forall>c\<in>set ?cs. length c = 2" by simp
  from truncations_agree_with_take [OF p(1) _ _ this, of 2] show ?thesis using p(1) unfolding eq by auto
qed

text \<open>C25. Removing a run of records of one size removes exactly that run.\<close>

theorem remove_range_refines_list:
  assumes "slotted p cs" "\<forall>c\<in>set cs. length c = w"
    "0 < cnt" "start + cnt \<le> length cs" "cnt < length cs"
  shows "\<exists>p'. remove_fixed_range p (raw_header p) start cnt w = Inr (p', raw_header p')
    \<and> slotted p' (take start cs @ drop (start + cnt) cs) \<and> tag_of p' = tag_of p"
  using remove_fixed_range_slotted [OF assms] by (auto simp: remove_range_def)

theorem remove_range_refines_list_witness:
  "\<exists>p p'. slotted p [[1, 2], [3, 4], [5, 6]]
    \<and> remove_fixed_range p (raw_header p) 0 2 2 = Inr (p', raw_header p') \<and> slotted p' [[5, 6]]"
proof -
  let ?cs = "[[1, 2], [3, 4], [5, 6]] :: bytes list"
  obtain p where p: "slotted p ?cs" "upper p = 4090" using example_page by blast
  have eq: "take 0 ?cs @ drop (0 + 2) ?cs = [[5, 6]]" by simp
  have "\<forall>c\<in>set ?cs. length c = 2" by simp
  from remove_range_refines_list [OF p(1) this, of 2 0] show ?thesis using p(1) unfolding eq by auto
qed

text \<open>C26. Appending records to a fresh page and reading it back: the finished page, built with the leaf type at
  level zero and with the branch type above, passes header validation as a page of that tree at its level and at no other, it is
  refused as a page of a tree whose leaf and branch types are exchanged, and cell \<open>i\<close> read with its length is the
  \<open>i\<close>-th record pushed.\<close>

theorem build_then_read:
  assumes "cs \<noteq> []" "[] \<notin> set cs" "HEADER_SIZE + 2 * length cs + sum_list (map length cs) \<le> PAGE_SIZE"
    and "born \<noteq> 0" "born \<le> txn" "branch_type \<noteq> 0" "leaf_type \<noteq> 0" "branch_type \<noteq> leaf_type" "lvl \<le> MAX_TREE_LEVEL"
  shows "\<exists>p. rbind (appender_new (if lvl = 0 then leaf_type else branch_type) born lvl aux) (\<lambda>b. rbind (rfold builder_push b cs) builder_finish) = Inr p
    \<and> parse_tree p txn branch_type leaf_type aux expected_level
        = (if expected_level \<in> {None, Some lvl} then Inr (raw_header p) else Inl (Corrupt ''slotted-page child level is invalid''))
    \<and> parse_tree p txn leaf_type branch_type aux expected_level = Inl (Corrupt ''slotted-page type or discriminator is invalid'')
    \<and> (\<forall>i<length cs. cell p (raw_header p) i (length (cs ! i)) = Inr (cs ! i))"
proof -
  let ?type = "if lvl = 0 then leaf_type else branch_type"
  obtain p where p: "rbind (appender_new ?type born lvl aux) (\<lambda>b. rbind (rfold builder_push b cs) builder_finish) = Inr p"
      "slotted p cs" "common_valid p" "kind_valid p ?type aux" "born_txn p = born" "level p = lvl"
    using build_slotted [OF assms(1-3)] assms(6,7) by metis
  have b: "born_valid p txn" using p(5) assms(4,5) by (simp add: born_valid_def)
  have h: "h_level (raw_header p) = lvl" using p(6) raw_header_slotted [OF p(2)] by simp
  have "parse_tree p txn branch_type leaf_type aux expected_level
      = (if expected_level \<in> {None, Some lvl} then Inr (raw_header p) else Inl (Corrupt ''slotted-page child level is invalid''))"
    using p(3,4) b h assms shape_valid_slotted [OF p(2) assms(1)] raw_header_slotted [OF p(2)]
    by (auto simp: parse_tree_def inspect_tree_header_def tree_kind_valid_at_level_def Let_def not_less split: option.splits)
  moreover have "\<not> tree_kind_valid_at_level p lvl leaf_type branch_type aux"
    using p(4) assms(8) by (auto simp: tree_kind_valid_at_level_def Let_def kind_valid_def)
  hence "parse_tree p txn leaf_type branch_type aux expected_level = Inl (Corrupt ''slotted-page type or discriminator is invalid'')"
    using p(3) b h by (simp add: parse_tree_def inspect_tree_header_def Let_def)
  ultimately show ?thesis using p(1) cell_slotted [OF p(2)] by blast
qed

theorem build_then_read_witness:
  "\<exists>p. rbind (appender_new 3 7 0 4) (\<lambda>b. rbind (rfold builder_push b [[1, 2, 3], [4]]) builder_finish) = Inr p
    \<and> parse_tree p 9 2 3 4 (Some 0) = Inr (raw_header p)
    \<and> cell p (raw_header p) 0 3 = Inr [1, 2, 3] \<and> cell p (raw_header p) 1 1 = Inr [4]"
proof -
  let ?cs = "[[1, 2, 3], [4]] :: bytes list"
  obtain p where p: "rbind (appender_new 3 7 0 4) (\<lambda>b. rbind (rfold builder_push b ?cs) builder_finish) = Inr p"
      "parse_tree p 9 2 3 4 (Some 0) = Inr (raw_header p)"
      "\<forall>i<length ?cs. cell p (raw_header p) i (length (?cs ! i)) = Inr (?cs ! i)"
    using build_then_read [of ?cs 7 9 2 3 0 4 "Some 0"] by (auto simp: layout_consts MAX_TREE_LEVEL_def)
  have "cell p (raw_header p) 0 (length (?cs ! 0)) = Inr (?cs ! 0)"
    "cell p (raw_header p) 1 (length (?cs ! 1)) = Inr (?cs ! 1)"
    using p(3) by (intro p(3) [rule_format]; simp)+
  moreover have "length (?cs ! 0) = 3" "length (?cs ! 1) = 1" "?cs ! 0 = [1, 2, 3]" "?cs ! 1 = [4]" by simp_all
  ultimately show ?thesis using p(1,2) by metis
qed

end
