(* ===== verification/TreeModel.thy ===== *)
theory TreeModel
  imports TreeCursor SlottedSpec
begin

text \<open>
  What a tree page holds. \<open>cell_view\<close> says what the cells of a codec mean, the locale
  \<open>codec_laws\<close> is the contract of a codec with cells of one size, and \<open>tpage\<close> is a valid page
  of a level with its list of cells. The lemmas turn every page operation of
  \<open>fixed_tree/page.rs\<close> and the page edits of \<open>fixed_tree/insert.rs\<close> into list operations.
\<close>

section \<open>Cells\<close>

record ('k, 'l) cell_view =
  enc_key :: "'k \<Rightarrow> bytes"
  key_of :: "bytes \<Rightarrow> 'k"
  leaf_of :: "bytes \<Rightarrow> 'l"
  leaf_ok :: "bytes \<Rightarrow> bool"

definition bcell :: "('k, 'l) cell_view \<Rightarrow> 'k \<Rightarrow> 32 word \<Rightarrow> bytes" where
  "bcell X k child = enc_key X k @ to_le_bytes child"

definition cell_size :: "('k, 'l) codec \<Rightarrow> 16 word \<Rightarrow> nat" where
  "cell_size C lvl = (if lvl = 0 then LEAF_SIZE C else KEY_SIZE C + 4)"

definition tpage :: "('k, 'l) codec \<Rightarrow> 64 word \<Rightarrow> 16 word \<Rightarrow> bytes \<Rightarrow> bytes list \<Rightarrow> bool" where
  "tpage C txn lvl p cs \<longleftrightarrow> slotted p cs \<and> cs \<noteq> [] \<and> common_valid p
    \<and> kind_valid p (tree_page_type C lvl) (CODEC_AUX C) \<and> level p = lvl \<and> lvl \<le> MAX_TREE_LEVEL
    \<and> born_valid p txn \<and> (\<forall>c\<in>set cs. length c = cell_size C lvl)"

text \<open>The keys of the cells of a page, and that they can be read.\<close>

definition cell_key :: "('k, 'l) codec \<Rightarrow> 16 word \<Rightarrow> bytes \<Rightarrow> 'k" where
  "cell_key C lvl c = projr (read_key C c lvl)"

definition readable :: "('k, 'l) codec \<Rightarrow> 16 word \<Rightarrow> bytes list \<Rightarrow> bool" where
  "readable C lvl cs \<longleftrightarrow> (\<forall>c\<in>set cs. read_key C c lvl = Inr (cell_key C lvl c))"

text \<open>The position of a key in a sorted list, and the answer of a page search.\<close>

definition lb :: "'k :: linorder list \<Rightarrow> 'k \<Rightarrow> nat" where
  "lb ks key = length (takeWhile (\<lambda>k. k < key) ks)"

definition hit :: "'k :: linorder list \<Rightarrow> 'k \<Rightarrow> bool" where
  "hit ks key \<longleftrightarrow> lb ks key < length ks \<and> ks ! lb ks key = key"

definition search_result :: "'k :: linorder list \<Rightarrow> 'k \<Rightarrow> bool \<Rightarrow> nat \<times> bool" where
  "search_result ks key insertion =
    (if insertion \<or> hit ks key \<or> lb ks key = 0 then (lb ks key, hit ks key) else (lb ks key - 1, False))"

text \<open>A page of a level can hold \<open>n\<close> cells; the list after an edit and after a replacement.\<close>

definition room_for :: "('k, 'l) codec \<Rightarrow> 16 word \<Rightarrow> nat \<Rightarrow> bool" where
  "room_for C lvl n \<longleftrightarrow> HEADER_SIZE + n * (cell_size C lvl + 2) \<le> PAGE_SIZE"

definition edited :: "edit \<Rightarrow> bytes list \<Rightarrow> bytes list" where
  "edited ed cs = (if ed_replace ed then cs[ed_index ed := ed_cell ed] else insert_at (ed_index ed) (ed_cell ed) cs)"

definition replaced :: "nat \<Rightarrow> bytes list \<Rightarrow> bytes list \<Rightarrow> bytes list" where
  "replaced i cells cs = take i cs @ cells @ drop (Suc i) cs"

section \<open>Binary search\<close>

lemma lb_le: "lb ks key \<le> length ks"
  by (simp add: lb_def length_takeWhile_le)

lemma lb_eqI:
  assumes "low \<le> length ks" "\<forall>i<low. ks ! i < key" "low < length ks \<longrightarrow> key \<le> ks ! low"
  shows "lb ks key = low"
proof -
  have "takeWhile (\<lambda>k. k < key) ks = take low ks"
    using assms by (intro takeWhile_eq_take_P_nth) (auto simp: not_less)
  thus ?thesis using assms(1) by (simp add: lb_def)
qed

lemma lb_less: "i < lb ks key \<Longrightarrow> ks ! i < key"
  unfolding lb_def by (metis nth_mem set_takeWhileD takeWhile_nth)

lemma lb_ge: "sorted_wrt (<) ks \<Longrightarrow> lb ks key \<le> i \<Longrightarrow> i < length ks \<Longrightarrow> key \<le> ks ! i"
proof -
  assume s: "sorted_wrt (<) ks" and i: "lb ks key \<le> i" "i < length ks"
  have "\<not> ks ! lb ks key < key"
    using i nth_length_takeWhile [of "\<lambda>k. k < key" ks] by (simp add: lb_def)
  moreover have "ks ! lb ks key \<le> ks ! i"
    using s i by (cases "lb ks key = i") (auto simp: sorted_wrt_iff_nth_less less_imp_le)
  ultimately show "key \<le> ks ! i" by auto
qed

lemma lower_bound_loop_ok:
  assumes s: "sorted_wrt (<) ks" and pr: "\<And>i. i < length ks \<Longrightarrow> probe i = Inr (ks ! i)"
  shows "low \<le> upp \<Longrightarrow> upp \<le> length ks \<Longrightarrow> \<forall>i<low. ks ! i < key \<Longrightarrow>
      (upp < length ks \<longrightarrow> key \<le> ks ! upp) \<Longrightarrow>
      (\<forall>m c. seen = Some (m, c) \<longrightarrow> m < length ks \<and> c = ks ! m) \<Longrightarrow>
      \<exists>seen'. lower_bound_loop probe key low upp seen = Inr (lb ks key, seen')
        \<and> (\<forall>m c. seen' = Some (m, c) \<longrightarrow> m < length ks \<and> c = ks ! m)"
  using pr
proof (induction probe key low upp seen rule: lower_bound_loop.induct)
  case (1 probe key low upp seen)
  note pr = 1(8)
  show ?case
  proof (cases "low < upp")
    case False
    hence "low = upp" using 1(3) by simp
    hence "lb ks key = low" using 1(3-6) by (intro lb_eqI) auto
    thus ?thesis using False 1(7) by (simp add: lower_bound_loop.simps [of probe key low])
  next
    case True
    define mid where "mid = low + (upp - low) div 2"
    have m: "low \<le> mid" "mid < upp" using True by (auto simp: mid_def)
    have pm: "probe mid = Inr (ks ! mid)" using pr m 1(4) by simp
    have seen: "\<forall>n c. Some (mid, ks ! mid) = Some (n, c) \<longrightarrow> n < length ks \<and> c = ks ! n"
      using m 1(4) by auto
    show ?thesis
    proof (cases "ks ! mid < key")
      case l: True
      have "\<forall>i<mid + 1. ks ! i < key"
      proof (intro allI impI)
        fix i assume "i < mid + 1"
        hence "ks ! i \<le> ks ! mid"
          using s m 1(4) by (cases "i = mid") (auto simp: sorted_wrt_iff_nth_less less_imp_le)
        thus "ks ! i < key" using l by simp
      qed
      with 1(1) [OF True mid_def pm l _ 1(4) _ 1(6) seen pr] m l pm True show ?thesis
        by (subst lower_bound_loop.simps) (simp add: Let_def flip: mid_def)
    next
      case g: False
      with 1(2) [OF True mid_def pm g m(1) _ 1(5) _ seen pr] m 1(4) pm True show ?thesis
        by (subst lower_bound_loop.simps) (simp add: Let_def flip: mid_def)
    qed
  qed
qed

lemma lower_bound_by_ok:
  assumes s: "sorted_wrt (<) ks" and pr: "\<And>i. i < length ks \<Longrightarrow> probe i = Inr (ks ! i)"
    and n: "h_item_count h = length ks"
  shows "lower_bound_by h key insertion probe = Inr (search_result ks key insertion)"
proof -
  obtain seen where l: "lower_bound_loop probe key 0 (h_item_count h) None = Inr (lb ks key, seen)"
      and seen: "\<forall>m c. seen = Some (m, c) \<longrightarrow> m < length ks \<and> c = ks ! m"
    using lower_bound_loop_ok [OF s pr, of 0 "length ks" key None] n by auto
  have e: "(if lb ks key \<ge> h_item_count h then Inr False
      else rbind (case seen of
          Some (index, current) \<Rightarrow> if index = lb ks key then Inr current else probe (lb ks key)
        | None \<Rightarrow> probe (lb ks key)) (\<lambda>current. Inr (current = key))) = Inr (hit ks key)"
    using n pr seen by (auto simp: hit_def split: option.splits)
  show ?thesis
    unfolding lower_bound_by_def l by (simp add: e search_result_def)
qed

section \<open>The codec contract\<close>

locale codec_laws =
  fixes C :: "('k :: linorder, 'l) codec"
    and X :: "('k, 'l) cell_view"
  assumes sizes: "0 < KEY_SIZE C" "KEY_SIZE C \<le> 500" "MAX_BRANCH_SIZE C = KEY_SIZE C + 4"
      "0 < LEAF_SIZE C" "LEAF_SIZE C \<le> 500" "MAX_LEAF_SIZE C = LEAF_SIZE C"
    and fixed: "fixed_cell_size C lvl = Some (cell_size C lvl)"
    and leaf_cell: "leaf_cell C p h i = cell p h i (LEAF_SIZE C)"
    and branch_cell: "branch_cell C p h i = cell p h i (KEY_SIZE C + 4)"
    and length_enc: "length (enc_key X k) = KEY_SIZE C"
    and leaf_length: "leaf_ok X c \<Longrightarrow> length c = LEAF_SIZE C"
    and leaf_key: "leaf_ok X c \<Longrightarrow> read_key C c 0 = Inr (key_of X c)"
    and branch_key: "lvl \<noteq> 0 \<Longrightarrow> read_key C (bcell X k child) lvl = Inr k"
    and write_branch: "\<exists>bs. write_branch C k child (replicate MAX_TREE_CELL 0) = Inr (bs, KEY_SIZE C + 4)
        \<and> take (KEY_SIZE C + 4) bs = bcell X k child"
    and read_child: "read_branch_child C (bcell X k child) = Inr child"
    and leaf_value: "leaf_ok X c \<Longrightarrow> read_leaf C c = Inr (leaf_of X c)"
    and leaf_valid: "leaf_ok X c \<Longrightarrow> validate_leaf C c = Inr ()"
begin

lemma length_bcell [simp]: "length (bcell X k child) = KEY_SIZE C + 4"
  by (simp add: bcell_def length_enc)

lemma cell_size_bounds: "0 < cell_size C lvl" "cell_size C lvl \<le> 504"
  using sizes by (simp_all add: cell_size_def)

lemma branch_buf_ok: "branch_buf C k child = Inr (bcell X k child)"
  using write_branch [of k child] sizes by (auto simp: branch_buf_def)

lemma codec_cell_ok:
  assumes "tpage C txn lvl p cs" "i < length cs"
  shows "codec_cell C p (raw_header p) i = Inr (cs ! i)"
proof -
  have s: "slotted p cs" "length (cs ! i) = cell_size C lvl" "h_level (raw_header p) = lvl"
    using assms raw_header_slotted [of p cs] by (auto simp: tpage_def)
  show ?thesis
    using cell_slotted [OF s(1) assms(2) refl] s
    by (cases "lvl = 0") (simp_all add: codec_cell_def leaf_cell branch_cell cell_size_def)
qed

lemma parse_ok:
  assumes "tpage C txn lvl p cs" "txn \<le> txn'" "e = None \<or> e = Some lvl"
  shows "parse_page C p txn' e = Inr (raw_header p)"
proof -
  have s: "slotted p cs" "cs \<noteq> []" "level p = lvl" "lvl \<le> MAX_TREE_LEVEL" using assms by (auto simp: tpage_def)
  have "born_valid p txn'" using assms(1,2) by (auto simp: tpage_def born_valid_def Let_def)
  thus ?thesis
    using assms raw_header_slotted [OF s(1)] shape_valid_slotted [OF s(1,2)] s
    by (auto simp: tpage_def parse_page_def parse_tree_def inspect_tree_header_def
        tree_kind_valid_at_level_def tree_page_type_def Let_def not_less)
qed

lemma key_at_ok:
  assumes "tpage C txn lvl p cs" "readable C lvl cs" "i < length cs"
  shows "key_at C p (raw_header p) i = Inr (cell_key C lvl (cs ! i))"
  using assms codec_cell_ok [OF assms(1,3)] raw_header_slotted [of p cs]
  by (auto simp: key_at_def readable_def tpage_def)

lemma lower_bound_ok:
  assumes t: "tpage C txn lvl p cs" and r: "readable C lvl cs"
    and s: "sorted_wrt (<) (map (cell_key C lvl) cs)"
  shows "lower_bound C p (raw_header p) key insertion = Inr (search_result (map (cell_key C lvl) cs) key insertion)"
proof -
  have sl: "slotted p cs" "cs \<noteq> []" "\<forall>c\<in>set cs. length c = cell_size C lvl" "level p = lvl"
    using t by (auto simp: tpage_def)
  have h: "h_level (raw_header p) = lvl" "h_item_count (raw_header p) = length cs"
    using raw_header_slotted [OF sl(1)] sl by simp_all
  have len: "length p = PAGE_SIZE" using sl(1) laidD(1) by (auto simp: slotted_def)
  have new: "fixed_search_new p (raw_header p) (cell_size C lvl) =
      Inr \<lparr> fs_page = p, fs_header = raw_header p, fs_cell_len = cell_size C lvl \<rparr>"
    using cell_size_bounds [of lvl] len shape_valid_slotted [OF sl(1,2)]
    by (simp add: fixed_search_new_def PAGE_SIZE_def)
  have "lower_bound_by (raw_header p) key insertion (\<lambda>index.
      rbind (cell_at \<lparr> fs_page = p, fs_header = raw_header p, fs_cell_len = cell_size C lvl \<rparr> index)
        (\<lambda>c. read_key C c lvl)) = Inr (search_result (map (cell_key C lvl) cs) key insertion)"
    using r sl h by (intro lower_bound_by_ok [OF s]) (auto simp: cell_at_slotted readable_def)
  thus ?thesis by (simp add: lower_bound_def fixed h lower_bound_fixed_def new)
qed

lemma branch_child_ok:
  assumes t: "tpage C txn lvl p cs" "lvl \<noteq> 0" and i: "i < length cs" "cs ! i = bcell X k child"
    and b: "2 \<le> child" "ucast child < limit"
  shows "branch_child C p (raw_header p) i limit = Inr child"
proof -
  have "branch_cell C p (raw_header p) i = Inr (bcell X k child)"
    using codec_cell_ok [OF t(1) i(1)] t(2) i(2) raw_header_slotted [of p cs] t(1)
    by (auto simp: codec_cell_def tpage_def)
  thus ?thesis using b by (simp add: branch_child_def require_child_def read_child not_less not_le)
qed

subsection \<open>Capacity\<close>

lemma tpage_upper:
  assumes "tpage C txn lvl p cs"
  shows "upper p + length cs * cell_size C lvl = PAGE_SIZE" "HEADER_SIZE + 2 * length cs \<le> upper p"
proof -
  have l: "laid p (upper p) cs" and w: "\<forall>c\<in>set cs. length c = cell_size C lvl"
    using assms by (auto simp: tpage_def slotted_def)
  show "upper p + length cs * cell_size C lvl = PAGE_SIZE" "HEADER_SIZE + 2 * length cs \<le> upper p"
    using laidD [OF l] fixed_sum [OF w] by simp_all
qed

lemma room_for_length: "tpage C txn lvl p cs \<Longrightarrow> room_for C lvl (length cs)"
  using tpage_upper [of txn lvl p cs] by (simp add: room_for_def algebra_simps)

lemma room_for_more:
  assumes "tpage C txn lvl p cs"
  shows "room_for C lvl (length cs + m) \<longleftrightarrow> HEADER_SIZE + 2 * length cs + m * (cell_size C lvl + 2) \<le> upper p"
  using tpage_upper [OF assms]
  unfolding room_for_def add_mult_distrib add_mult_distrib2 by linarith

lemma room_for_mono: "room_for C lvl n \<Longrightarrow> m \<le> n \<Longrightarrow> room_for C lvl m"
  unfolding room_for_def by (meson add_le_mono le_refl mult_le_mono1 order_trans)

lemma room_for_8: "room_for C lvl 8"
  using cell_size_bounds [of lvl] by (simp add: room_for_def layout_consts)

lemma room_for_half:
  assumes "room_for C lvl n"
  shows "room_for C lvl ((n + 3) div 2)"
proof (cases "n < 4")
  case True
  hence "(n + 3) div 2 \<le> 8" by simp
  thus ?thesis using room_for_mono [OF room_for_8] by blast
next
  case False
  hence "(n + 3) div 2 \<le> n" by simp
  thus ?thesis using room_for_mono [OF assms] by blast
qed

lemma tpage_frame:
  assumes "tpage C txn lvl p cs" "slotted q ds" "tag_of q = tag_of p" "ds \<noteq> []"
    "\<forall>c\<in>set ds. length c = cell_size C lvl"
  shows "tpage C txn lvl q ds" "born_txn q = born_txn p"
proof -
  have len: "length p = PAGE_SIZE" "length q = PAGE_SIZE"
    using assms(1,2) laidD(1) by (auto simp: tpage_def slotted_def)
  have i: "ident_of q = ident_of p" "level q = level p" using assms(3) by (simp_all add: tag_of_def)
  show "born_txn q = born_txn p" using i(1) by (simp add: ident_of_def)
  show "tpage C txn lvl q ds"
    using assms common_valid_ident [OF len(2,1) i(1)] i(2) by (auto simp: tpage_def)
qed

subsection \<open>Whole-page edits\<close>

lemma edit_fits_ok:
  assumes t: "tpage C txn lvl p cs" and c: "length (ed_cell ed) = cell_size C lvl"
    and i: "if ed_replace ed then ed_index ed < length cs else ed_index ed \<le> length cs"
  shows "edit_fits C p (raw_header p) ed = Inr (ed_replace ed \<or> room_for C lvl (length cs + 1))"
proof -
  have s: "slotted p cs" "\<forall>c\<in>set cs. length c = cell_size C lvl" using t by (auto simp: tpage_def)
  note h = raw_header_slotted [OF s(1)] and u = tpage_upper [OF t] and w = cell_size_bounds [of lvl]
  show ?thesis
  proof (cases "ed_replace ed")
    case True
    hence "length (cs ! ed_index ed) = cell_size C lvl" "ed_index ed < length cs" using s i by auto
    thus ?thesis using True codec_cell_ok [OF t] h c w u replace_fits_slotted [OF s(1), of "cell_size C lvl" "cell_size C lvl"]
      by (simp add: edit_fits_def PAGE_SIZE_def)
  next
    case False
    have "insert_fits (raw_header p) (cell_size C lvl) \<longleftrightarrow> room_for C lvl (length cs + 1)"
      using insert_fits_slotted [OF s(1), of "cell_size C lvl"] room_for_more [OF t, of 1] w(1) by auto
    thus ?thesis using False i h c by (simp add: edit_fits_def)
  qed
qed

lemma replacement_fits_ok:
  assumes t: "tpage C txn lvl p cs" and c: "\<forall>c\<in>set cells. length c = cell_size C lvl"
    and n: "cells \<noteq> []" "length cells \<le> 3" and i: "i < length cs"
  shows "replacement_fits C p (raw_header p) \<lparr> rp_index = i, rp_cells = cells \<rparr>
    = Inr (room_for C lvl (length cs + length cells - 1))"
proof -
  have s: "slotted p cs" "length (cs ! i) = cell_size C lvl"
    using t nth_mem [OF i] by (simp_all add: tpage_def)
  note h = raw_header_slotted [OF s(1)] and u = tpage_upper [OF t] and w = cell_size_bounds [of lvl]
  let ?w = "cell_size C lvl"
  have pay: "length cells * ?w \<le> 3 * 504"
    using mult_le_mono [OF n(2) w(2)] by simp
  have fold: "rfold (\<lambda>tot c. ok_or (ArithmeticOverflow ''B+tree replacement size'')
      (usize_checked_add tot (length c))) a ds = Inr (a + length ds * ?w)"
    if "\<forall>c\<in>set ds. length c = ?w" "a + length ds * ?w \<le> 3 * 504" for a ds
    using that
  proof (induction ds arbitrary: a)
    case (Cons d ds)
    have "a + ?w \<le> usize_max" using Cons.prems(2) by (simp add: usize_max_def)
    thus ?case using Cons.IH [of "a + ?w"] Cons.prems by (simp add: usize_checked_add_def add.assoc)
  qed simp
  have "(length cells - 1) * 2 \<le> usize_max" "length cells * ?w + (length cells - 1) * 2 \<le> usize_max"
    "?w + (upper p - (HEADER_SIZE + 2 * length cs)) \<le> usize_max"
    using n pay w u by (auto simp: usize_max_def PAGE_SIZE_def)
  moreover have "length cells * ?w + (length cells - 1) * 2 \<le> ?w + (upper p - (HEADER_SIZE + 2 * length cs))
      \<longleftrightarrow> room_for C lvl (length cs + length cells - 1)"
  proof -
    obtain m where m: "length cells = Suc m" using n(1) by (cases cells) auto
    show ?thesis using room_for_more [OF t, of m] u(2) unfolding m by simp linarith
  qed
  ultimately show ?thesis
    using n i h s codec_cell_ok [OF t i] fold [OF c, of 0] pay
    by (simp add: replacement_fits_def usize_checked_add_def usize_checked_sub_def usize_checked_mul_def
        Suc_le_eq)
qed

lemma fixed_split_ok:
  assumes "2 \<le> n" "room_for C lvl ((n + 1) div 2)"
  shows "fixed_split_index n (cell_size C lvl) = Inr (n div 2)"
proof -
  let ?w = "cell_size C lvl"
  have half: "n - n div 2 = (n + 1) div 2" by presburger
  have le: "n div 2 \<le> (n + 1) div 2" by (rule div_le_mono) simp
  have r: "HEADER_SIZE + ((n + 1) div 2) * (?w + 2) \<le> PAGE_SIZE" "HEADER_SIZE + (n div 2) * (?w + 2) \<le> PAGE_SIZE"
    using assms(2) room_for_mono [OF assms(2) le] by (simp_all add: room_for_def)
  have b: "m * ?w \<le> PAGE_SIZE" "m * 2 \<le> PAGE_SIZE" "m * 2 + HEADER_SIZE + m * ?w \<le> PAGE_SIZE"
    if "HEADER_SIZE + m * (?w + 2) \<le> PAGE_SIZE" for m
    using that by (simp_all add: algebra_simps)
  have ps: "page_size m (m * ?w) = Inr (m * 2 + HEADER_SIZE + m * ?w)"
    if "HEADER_SIZE + m * (?w + 2) \<le> PAGE_SIZE" for m
    using b [OF that] by (simp add: page_size_def usize_checked_mul_def usize_checked_add_def PAGE_SIZE_def usize_max_def)
  have mul: "usize_checked_mul m ?w = Some (m * ?w)"
    if "HEADER_SIZE + m * (?w + 2) \<le> PAGE_SIZE" for m
    using b [OF that] by (simp add: usize_checked_mul_def)
  show ?thesis
    using assms(1) ps [OF r(1)] ps [OF r(2)] mul [OF r(1)] mul [OF r(2)] b [OF r(1)] b [OF r(2)]
    by (simp add: fixed_split_index_def Let_def half not_less)
qed

lemma truncate_ok:
  assumes t: "tpage C txn lvl p cs" and k: "0 < keep" "keep < length cs"
  shows "\<exists>q. truncate_page C p (raw_header p) keep = Inr (q, raw_header q)
    \<and> tpage C txn lvl q (take keep cs) \<and> born_txn q = born_txn p"
proof -
  have s: "slotted p cs" "\<forall>c\<in>set cs. length c = cell_size C lvl" using t by (auto simp: tpage_def)
  obtain q where q: "truncate_fixed p (raw_header p) keep (cell_size C lvl) = Inr (q, raw_header q)"
      "slotted q (take keep cs)" "tag_of q = tag_of p"
    using truncate_fixed_slotted [OF s k] by blast
  have "\<forall>c\<in>set (take keep cs). length c = cell_size C lvl" "take keep cs \<noteq> []"
    using k s(2) by (auto dest: in_set_takeD)
  note f = tpage_frame [OF t q(2,3) this(2,1)]
  have "h_level (raw_header p) = lvl" using raw_header_slotted [OF s(1)] t by (simp add: tpage_def)
  thus ?thesis using q f by (simp add: truncate_page_def fixed)
qed

lemma apply_edit_ok:
  assumes t: "tpage C txn lvl p cs" and c: "length (ed_cell ed) = cell_size C lvl"
    and i: "if ed_replace ed then ed_index ed < length cs else ed_index ed \<le> length cs"
    and fits: "ed_replace ed \<or> room_for C lvl (length cs + 1)"
  shows "\<exists>q. apply_edit C p (raw_header p) ed = Inr q \<and> tpage C txn lvl q (edited ed cs)
    \<and> born_txn q = born_txn p"
proof -
  have s: "slotted p cs" "\<forall>c\<in>set cs. length c = cell_size C lvl" using t by (auto simp: tpage_def)
  note u = tpage_upper [OF t] and w = cell_size_bounds [of lvl]
  have ne: "ed_cell ed \<noteq> []" using c w by auto
  have ef: "edit_fits C p (raw_header p) ed = Inr True" using edit_fits_ok [OF t c i] fits by simp
  show ?thesis
  proof (cases "ed_replace ed")
    case True
    hence j: "ed_index ed < length cs" using i by simp
    have f: "replace_fits (raw_header p) (length (cs ! ed_index ed)) (length (ed_cell ed))"
      using ef True j raw_header_slotted [OF s(1)] codec_cell_ok [OF t j]
      by (simp add: edit_fits_def split: if_splits)
    obtain q where q: "replace_slot p (raw_header p) (ed_index ed) (length (cs ! ed_index ed)) (ed_cell ed) = Inr (q, True)"
        "slotted q (cs[ed_index ed := ed_cell ed])" "tag_of q = tag_of p"
      using replace_slot_slotted [OF s(1) j ne f] by blast
    have "\<forall>d\<in>set (cs[ed_index ed := ed_cell ed]). length d = cell_size C lvl" "cs[ed_index ed := ed_cell ed] \<noteq> []"
      using s(2) c j by (auto dest!: subsetD [OF set_update_subset_insert])
    note f = tpage_frame [OF t q(2,3) this(2,1)]
    show ?thesis using q f True codec_cell_ok [OF t j] by (simp add: apply_edit_def edited_def)
  next
    case False
    hence j: "ed_index ed \<le> length cs" using i by simp
    have f: "insert_fits (raw_header p) (length (ed_cell ed))"
      using ef False j raw_header_slotted [OF s(1)] by (simp add: edit_fits_def split: if_splits)
    obtain q where q: "insert_slot p (raw_header p) (ed_index ed) (ed_cell ed) = Inr (q, True)"
        "slotted q (insert_at (ed_index ed) (ed_cell ed) cs)" "tag_of q = tag_of p"
      by (rule insert_slot_slotted [OF s(1) j ne f]) blast
    have "\<forall>d\<in>set (insert_at (ed_index ed) (ed_cell ed) cs). length d = cell_size C lvl"
        "insert_at (ed_index ed) (ed_cell ed) cs \<noteq> []"
      using s(2) c by (auto simp: set_insert_at) (simp add: insert_at_def)
    note f = tpage_frame [OF t q(2,3) this(2,1)]
    show ?thesis using q f False by (simp add: apply_edit_def edited_def)
  qed
qed

lemma insert_cells_ok:
  "tpage C txn lvl p cs \<Longrightarrow> index \<le> length cs \<Longrightarrow> \<forall>c\<in>set cells. length c = cell_size C lvl \<Longrightarrow>
    room_for C lvl (length cs + length cells) \<Longrightarrow>
    \<exists>q. insert_cells C lvl index cells p = Inr q
      \<and> tpage C txn lvl q (take index cs @ cells @ drop index cs) \<and> born_txn q = born_txn p"
proof (induction cells arbitrary: index p cs)
  case (Cons c cells)
  let ?ed = "\<lparr> ed_index = index, ed_replace = False, ed_cell = c \<rparr>"
  have "room_for C lvl (length cs + 1)" using room_for_mono [OF Cons.prems(4)] by simp
  then obtain q where q: "apply_edit C p (raw_header p) ?ed = Inr q" "tpage C txn lvl q (edited ?ed cs)"
      "born_txn q = born_txn p"
    using apply_edit_ok [OF Cons.prems(1), of ?ed] Cons.prems by auto
  have ins: "insert_slot p (raw_header p) index c = Inr (q, True)"
    using q(1) by (auto simp: apply_edit_def rbind_Inr_iff split: prod.splits if_splits)
  have p: "parse_page C p (- 1) (Some lvl) = Inr (raw_header p)"
    by (rule parse_ok [OF Cons.prems(1)]) simp_all
  obtain r where r: "insert_cells C lvl (index + 1) cells q = Inr r"
      "tpage C txn lvl r (take (index + 1) (edited ?ed cs) @ cells @ drop (index + 1) (edited ?ed cs))"
      "born_txn r = born_txn q"
    using Cons.IH [OF q(2), of "index + 1"] Cons.prems by (auto simp: edited_def)
  have "take (index + 1) (edited ?ed cs) @ cells @ drop (index + 1) (edited ?ed cs) =
      take index cs @ (c # cells) @ drop index cs"
    using Cons.prems(2) by (simp add: edited_def insert_at_def min_def)
  thus ?case using p ins q(3) r by simp
qed simp

lemma apply_cells_ok:
  assumes t: "tpage C txn lvl p cs" and i: "index < length cs"
    and c: "cells \<noteq> []" "\<forall>c\<in>set cells. length c = cell_size C lvl"
    and r: "room_for C lvl (length cs + length cells - 1)"
  shows "\<exists>q. apply_cells C p (raw_header p) index cells = Inr q
    \<and> tpage C txn lvl q (replaced index cells cs) \<and> born_txn q = born_txn p"
proof -
  obtain d ds where cells: "cells = d # ds" using c(1) by (cases cells) auto
  let ?ed = "\<lparr> ed_index = index, ed_replace = True, ed_cell = d \<rparr>"
  obtain q where q: "apply_edit C p (raw_header p) ?ed = Inr q" "tpage C txn lvl q (cs[index := d])"
      "born_txn q = born_txn p"
    using apply_edit_ok [OF t, of ?ed] i c by (auto simp: edited_def cells)
  have rep: "replace_slot p (raw_header p) index (length (cs ! index)) d = Inr (q, True)"
    using q(1) codec_cell_ok [OF t i] by (auto simp: apply_edit_def rbind_Inr_iff split: prod.splits if_splits)
  obtain q' where q': "insert_cells C lvl (index + 1) ds q = Inr q'"
      "tpage C txn lvl q' (take (index + 1) (cs[index := d]) @ ds @ drop (index + 1) (cs[index := d]))"
      "born_txn q' = born_txn q"
    using insert_cells_ok [OF q(2), of "index + 1" ds] i c r by (auto simp: cells)
  have "take (index + 1) (cs[index := d]) @ ds @ drop (index + 1) (cs[index := d]) = replaced index cells cs"
    using i by (simp add: replaced_def cells take_Suc_conv_app_nth)
  moreover have "h_level (raw_header p) = lvl" using raw_header_slotted [of p cs] t by (simp add: tpage_def)
  ultimately show ?thesis
    using codec_cell_ok [OF t i] rep q' q(3) by (simp add: apply_cells_def cells)
qed

subsection \<open>Building the right side of a split\<close>

lemma virtual_cell_ok:
  assumes t: "tpage C txn lvl p cs"
    and i: "if ed_replace ed then ed_index ed < length cs else ed_index ed \<le> length cs"
    and j: "j < length (edited ed cs)"
  shows "virtual_cell C p (raw_header p) ed j = Inr (edited ed cs ! j)"
  using i j codec_cell_ok [OF t]
  by (auto simp: virtual_cell_def edited_def nth_insert_at nth_list_update split: if_splits)

lemma replacement_cell_ok:
  assumes t: "tpage C txn lvl p cs" and i: "i < length cs" and c: "cells \<noteq> []"
    and j: "j < length (replaced i cells cs)"
  shows "replacement_cell C p (raw_header p) \<lparr> rp_index = i, rp_cells = cells \<rparr> j = Inr (replaced i cells cs ! j)"
proof -
  consider "j < i" | "i \<le> j" "j - i < length cells" | "i + length cells \<le> j" by linarith
  thus ?thesis
  proof cases
    case 1
    thus ?thesis using i codec_cell_ok [OF t, of j] by (simp add: replacement_cell_def replaced_def nth_append)
  next
    case 2
    thus ?thesis using i by (simp add: replacement_cell_def replaced_def nth_append)
  next
    case 3
    have "j - length cells + 1 < length cs" using j 3 i by (simp add: replaced_def)
    moreover have "Suc i + (j - i - length cells) = j - length cells + 1" using 3 by simp
    ultimately show ?thesis using 3 i codec_cell_ok [OF t, of "j - length cells + 1"]
      by (simp add: replacement_cell_def replaced_def nth_append)
  qed
qed

lemma append_cells_ok:
  assumes "vs \<noteq> []" and w: "\<forall>c\<in>set vs. length c = cell_size C lvl" and r: "room_for C lvl (length vs)"
    and l: "lvl \<le> MAX_TREE_LEVEL" and b: "born \<noteq> 0" "born \<le> txn"
  shows "\<exists>q. rbind (appender_new (tree_page_type C lvl) born lvl (CODEC_AUX C)) (\<lambda>b.
        rbind (rfold builder_push b vs) builder_finish) = Inr q
    \<and> tpage C txn lvl q vs \<and> born_txn q = born"
proof -
  have "[] \<notin> set vs" using w cell_size_bounds(1) [of lvl] by auto
  moreover have "HEADER_SIZE + 2 * length vs + sum_list (map length vs) \<le> PAGE_SIZE"
    using r fixed_sum [OF w] by (simp add: room_for_def algebra_simps)
  ultimately obtain q where "rbind (appender_new (tree_page_type C lvl) born lvl (CODEC_AUX C)) (\<lambda>b.
        rbind (rfold builder_push b vs) builder_finish) = Inr q" "slotted q vs"
      "common_valid q" "kind_valid q (tree_page_type C lvl) (CODEC_AUX C)" "born_txn q = born" "level q = lvl"
    using build_slotted assms(1) by blast
  thus ?thesis using assms by (auto simp: tpage_def born_valid_def Let_def)
qed

lemma build_cells_ok:
  assumes c: "\<And>j. j < length vs \<Longrightarrow> cell_of j = Inr (vs ! j)" and s: "start < length vs"
    and w: "\<forall>c\<in>set vs. length c = cell_size C lvl" and r: "room_for C lvl (length vs - start)"
    and l: "lvl \<le> MAX_TREE_LEVEL" and b: "born \<noteq> 0" "born \<le> txn"
  shows "\<exists>q. build_cells (tree_page_type C lvl) born lvl (CODEC_AUX C) cell_of [start..<length vs] = Inr q
    \<and> tpage C txn lvl q (drop start vs) \<and> born_txn q = born"
proof -
  have "map (\<lambda>j. vs ! j) [start..<length vs] = drop start vs"
    by (rule nth_equalityI) auto
  moreover have "rfold (\<lambda>b j. rbind (cell_of j) (\<lambda>c. builder_push b c)) b js = rfold builder_push b (map (\<lambda>j. vs ! j) js)"
    if "set js \<subseteq> {..<length vs}" for b js
    using that c by (induction js arbitrary: b) (auto intro: rbind_cong)
  from this [of "[start..<length vs]"] calculation
  have "rfold (\<lambda>b j. rbind (cell_of j) (\<lambda>c. builder_push b c)) b [start..<length vs] = rfold builder_push b (drop start vs)"
    for b by (cases b) (auto simp: subset_iff)
  hence eq: "build_cells (tree_page_type C lvl) born lvl (CODEC_AUX C) cell_of [start..<length vs] =
      rbind (appender_new (tree_page_type C lvl) born lvl (CODEC_AUX C)) (\<lambda>b.
        rbind (rfold builder_push b (drop start vs)) builder_finish)"
    unfolding build_cells_def by (auto intro!: rbind_cong)
  have ws: "\<forall>c\<in>set (drop start vs). length c = cell_size C lvl" using w by (auto dest: in_set_dropD)
  show ?thesis
    using append_cells_ok [OF _ ws _ l b] s r unfolding eq by simp
qed

subsection \<open>The two sides of a split\<close>

lemma edited_sizes:
  assumes "\<forall>c\<in>set cs. length c = w" "length (ed_cell ed) = w"
  shows "\<forall>c\<in>set (edited ed cs). length c = w"
  using assms by (auto simp: edited_def set_insert_at dest!: subsetD [OF set_update_subset_insert])

lemma replaced_sizes:
  assumes "\<forall>c\<in>set cs. length c = w" "\<forall>c\<in>set cells. length c = w"
  shows "\<forall>c\<in>set (replaced i cells cs). length c = w"
  using assms by (auto simp: replaced_def dest: in_set_takeD in_set_dropD)

lemma left_edit_ok:
  assumes t: "tpage C txn lvl p cs" and c: "length (ed_cell ed) = cell_size C lvl"
    and i: "if ed_replace ed then ed_index ed < length cs else ed_index ed \<le> length cs"
    and m: "1 < middle" "middle < length cs"
  shows "\<exists>q. (let edit_in_left = ed_index ed < middle;
          keep = middle - of_bool (edit_in_left \<and> \<not> ed_replace ed)
      in if keep = 0 then bad
         else rbind (truncate_page C p (raw_header p) keep) (\<lambda>(page, left).
           if edit_in_left then apply_edit C page left ed else Inr page)) = Inr q
    \<and> tpage C txn lvl q (take middle (edited ed cs)) \<and> born_txn q = born_txn p"
proof -
  define keep where "keep = middle - of_bool (ed_index ed < middle \<and> \<not> ed_replace ed)"
  have k: "0 < keep" "keep < length cs" using m by (auto simp: keep_def)
  obtain q where q: "truncate_page C p (raw_header p) keep = Inr (q, raw_header q)"
      "tpage C txn lvl q (take keep cs)" "born_txn q = born_txn p"
    using truncate_ok [OF t k] by blast
  show ?thesis
  proof (cases "ed_index ed < middle")
    case True
    have i': "if ed_replace ed then ed_index ed < length (take keep cs) else ed_index ed \<le> length (take keep cs)"
      using True i k m by (auto simp: keep_def)
    have "room_for C lvl (length (take keep cs) + 1)"
      using room_for_mono [OF room_for_length [OF t]] k by simp
    then obtain r where r: "apply_edit C q (raw_header q) ed = Inr r" "tpage C txn lvl r (edited ed (take keep cs))"
        "born_txn r = born_txn q"
      using apply_edit_ok [OF q(2) c i'] by auto
    have "middle - ed_index ed = Suc (middle - Suc 0 - ed_index ed)" using True by simp
    hence "edited ed (take keep cs) = take middle (edited ed cs)"
      using True i m by (auto simp: edited_def keep_def insert_at_def take_update_swap min_def drop_take)
    thus ?thesis unfolding Let_def keep_def [symmetric] using True q r k by simp
  next
    case False
    hence "take keep cs = take middle (edited ed cs)"
      using i m by (auto simp: keep_def edited_def insert_at_def)
    thus ?thesis using False q k by (simp add: Let_def keep_def)
  qed
qed

lemma left_replacement_ok:
  assumes t: "tpage C txn lvl p cs" and i: "i < length cs"
    and c: "cells \<noteq> []" "\<forall>c\<in>set cells. length c = cell_size C lvl" "length cells \<le> 3"
    and m: "3 < middle" "middle + 1 < length cs"
  shows "\<exists>q. (if middle \<le> i then rmap fst (truncate_page C p (raw_header p) middle)
      else if middle < i + length cells then
        rbind (truncate_page C p (raw_header p) (i + 1)) (\<lambda>(page, left).
        apply_cells C page left i (take (middle - i) cells))
      else
        rbind (truncate_page C p (raw_header p) (middle - (length cells - 1))) (\<lambda>(page, left).
        apply_cells C page left i cells)) = Inr q
    \<and> tpage C txn lvl q (take middle (replaced i cells cs)) \<and> born_txn q = born_txn p"
proof -
  consider "middle \<le> i" | "i < middle" "middle < i + length cells" | "i < middle" "i + length cells \<le> middle" by linarith
  thus ?thesis
  proof cases
    case 1
    obtain q where "truncate_page C p (raw_header p) middle = Inr (q, raw_header q)"
        "tpage C txn lvl q (take middle cs)" "born_txn q = born_txn p"
      using truncate_ok [OF t, of middle] m by auto
    thus ?thesis using 1 i by (simp add: replaced_def min_def)
  next
    case 2
    have k: "0 < i + 1" "i + 1 < length cs" using 2 m c by auto
    obtain q where q: "truncate_page C p (raw_header p) (i + 1) = Inr (q, raw_header q)"
        "tpage C txn lvl q (take (i + 1) cs)" "born_txn q = born_txn p"
      using truncate_ok [OF t k] by blast
    have "room_for C lvl (length (take (i + 1) cs) + length (take (middle - i) cells) - 1)"
      using room_for_mono [OF room_for_length [OF t]] k 2 m by simp
    moreover have "take (middle - i) cells \<noteq> []" "\<forall>c\<in>set (take (middle - i) cells). length c = cell_size C lvl"
      using 2 c by (auto dest: in_set_takeD)
    ultimately obtain r where r: "apply_cells C q (raw_header q) i (take (middle - i) cells) = Inr r"
        "tpage C txn lvl r (replaced i (take (middle - i) cells) (take (i + 1) cs))" "born_txn r = born_txn q"
      using apply_cells_ok [OF q(2), of i "take (middle - i) cells"] k by auto
    have "replaced i (take (middle - i) cells) (take (i + 1) cs) = take middle (replaced i cells cs)"
      using 2 i by (simp add: replaced_def min_def)
    thus ?thesis using 2 q r by simp
  next
    case 3
    let ?keep = "middle - (length cells - 1)"
    have k: "0 < ?keep" "?keep < length cs" "i < ?keep" using 3 m c by (auto simp: neq_Nil_conv)
    obtain q where q: "truncate_page C p (raw_header p) ?keep = Inr (q, raw_header q)"
        "tpage C txn lvl q (take ?keep cs)" "born_txn q = born_txn p"
      using truncate_ok [OF t k(1,2)] by blast
    have "room_for C lvl (length (take ?keep cs) + length cells - 1)"
      using room_for_mono [OF room_for_length [OF t]] k m 3 by simp
    then obtain r where r: "apply_cells C q (raw_header q) i cells = Inr r"
        "tpage C txn lvl r (replaced i cells (take ?keep cs))" "born_txn r = born_txn q"
      using apply_cells_ok [OF q(2) _ c(1,2)] k by auto
    have "drop (Suc i) (take ?keep cs) = take (middle - i - length cells) (drop (Suc i) cs)"
      using 3 c by (auto simp: drop_take neq_Nil_conv add.commute)
    hence "replaced i cells (take ?keep cs) = take middle (replaced i cells cs)"
      using 3 i k by (simp add: replaced_def min_def)
    thus ?thesis using 3 q r by simp
  qed
qed

end

end
