(* ===== verification/TreeHeap.thy ===== *)
theory TreeHeap
  imports TreeModel
begin

text \<open>
  The contract of a page store. A \<open>store_view\<close> says what a store state means: the pages it
  owns with their contents, which of them belong to the running transaction (private pages, that
  may be edited in place), and how many pages can still be allocated. The locale
  \<open>store_laws\<close> states what the operations of the \<open>Store\<close> trait promise about it, and the
  lemmas turn each use of a page by \<open>fixed_tree.rs\<close> into an update of the view.
\<close>

section \<open>Pages that differ in the checksum field\<close>

text \<open>A store may keep its own tag in the checksum field while a page is being edited; a
  copied page also gets a new transaction. Neither is part of the contents of a tree page.\<close>

definition same_page :: "bytes \<Rightarrow> bytes \<Rightarrow> bool" where
  "same_page p q \<longleftrightarrow> length p = PAGE_SIZE \<and> length q = PAGE_SIZE
    \<and> (\<forall>i<PAGE_SIZE. i < 28 \<or> 32 \<le> i \<longrightarrow> q ! i = p ! i)"

definition same_contents :: "bytes \<Rightarrow> bytes \<Rightarrow> bool" where
  "same_contents p q \<longleftrightarrow> length p = PAGE_SIZE \<and> length q = PAGE_SIZE
    \<and> (\<forall>i<PAGE_SIZE. i < 8 \<or> (16 \<le> i \<and> i < 28) \<or> 32 \<le> i \<longrightarrow> q ! i = p ! i)"

lemma same_page_refl [simp]: "length p = PAGE_SIZE \<Longrightarrow> same_page p p"
  by (simp add: same_page_def)

lemma same_contents_rd:
  assumes "same_contents p q" "at + n \<le> 8 \<or> (16 \<le> at \<and> at + n \<le> 28)"
  shows "rd q at n = rd p at n"
  using assms by (intro rd_cong) (auto simp: same_contents_def PAGE_SIZE_def)

lemma same_contents_byte:
  "same_contents p q \<Longrightarrow> at < 8 \<Longrightarrow> byte_at q at = byte_at p at"
  by (simp add: same_contents_def byte_at_def PAGE_SIZE_def)

lemma same_contents_header:
  assumes "same_contents p q"
  shows "raw_header q = raw_header p" "level q = level p"
  using same_contents_rd [OF assms]
  by (simp_all add: raw_header_def item_count_def level_def lower_def upper_def u16_at_def header_offsets)

lemma same_contents_slotted: "same_contents p q \<Longrightarrow> slotted p cs \<Longrightarrow> slotted q cs"
  using same_contents_rd [of p q] laid_frame [of p "upper p" cs q]
  by (auto simp: slotted_def same_contents_def item_count_def lower_def upper_def u16_at_def layout_consts)

lemma tpage_same_contents:
  assumes t: "tpage C txn lvl p cs" and s: "same_contents p q" and b: "born_txn q \<noteq> 0" "born_txn q \<le> txn"
  shows "tpage C txn lvl q cs"
proof -
  have "kind_valid q ty aux = kind_valid p ty aux" for ty aux
    using same_contents_byte [OF s] same_contents_rd [OF s] by (simp add: kind_valid_def u32_at_def header_offsets)
  moreover have "common_valid q = common_valid p"
    using s same_contents_byte [OF s] same_contents_rd [OF s]
    by (simp add: common_valid_def has_magic_iff same_contents_def u32_at_def u16_at_def header_offsets)
  ultimately show ?thesis
    using t b same_contents_slotted [OF s] same_contents_header [OF s]
    by (auto simp: tpage_def born_valid_def Let_def)
qed

lemma same_page_contents: "same_page p q \<Longrightarrow> same_contents p q"
  by (simp add: same_page_def same_contents_def)

lemma same_page_born:
  assumes "same_page p q"
  shows "born_txn q = born_txn p"
proof -
  have "rd q 8 8 = rd p 8 8" using assms by (intro rd_cong) (auto simp: same_page_def PAGE_SIZE_def)
  thus ?thesis by (simp add: born_txn_def u64_at_def header_offsets)
qed

lemma tpage_same_page: "tpage C txn lvl p cs \<Longrightarrow> same_page p q \<Longrightarrow> tpage C txn lvl q cs"
  by (rule tpage_same_contents) (auto simp: same_page_contents same_page_born tpage_def born_valid_def Let_def)

lemma tpage_owned: "tpage C txn lvl p cs \<Longrightarrow> length p = PAGE_SIZE \<and> owned_by p (born_txn p)"
  by (simp add: tpage_def common_valid_def owned_by_def)

text \<open>The copy that \<open>copy_for_cow\<close> makes.\<close>

lemma cow_page_ok:
  assumes t: "tpage C txn lvl p cs" and o: "length output = PAGE_SIZE" and x: "txn \<noteq> 0"
  shows "\<exists>q. rbind (write_source output 0 p) (\<lambda>output. rbind (put_u64 output BORN_TXN txn) clear_checksum) = Inr q
    \<and> tpage C txn lvl q cs \<and> born_txn q = txn \<and> raw_header q = raw_header p"
proof -
  let ?q = "wr (wr p BORN_TXN (to_le_bytes txn)) CHECKSUM_OFFSET (to_le_bytes (0 :: 32 word))"
  have len: "length p = PAGE_SIZE" using tpage_owned [OF t] by simp
  have w: "write_source output 0 p = Inr p"
    using len o by (simp add: page_simps wr_def)
  have e: "rbind (write_source output 0 p) (\<lambda>output. rbind (put_u64 output BORN_TXN txn) clear_checksum) = Inr ?q"
    using len by (simp add: w clear_checksum_def page_simps CHECKSUM_OFFSET_def header_offsets PAGE_SIZE_def)
  have s: "same_contents p ?q"
    using len by (auto simp: same_contents_def nth_wr CHECKSUM_OFFSET_def header_offsets PAGE_SIZE_def)
  have b: "born_txn ?q = txn"
    using len by (simp add: born_txn_def byte_simps CHECKSUM_OFFSET_def header_offsets PAGE_SIZE_def)
  show ?thesis
    using e b tpage_same_contents [OF t s] same_contents_header [OF s] x by auto
qed

section \<open>The view of a store\<close>

record heap =
  hp_txn :: "64 word"
  hp_page :: "32 word \<Rightarrow> bytes"
  hp_own :: "32 word set"
  hp_priv :: "32 word set"

record 's store_view =
  heap_of :: "'s \<Rightarrow> heap"
  valid :: "'s \<Rightarrow> bool"
  room :: "'s \<Rightarrow> nat"

text \<open>\<open>grows h h' W N\<close>: only pages of \<open>W\<close> changed, and the private pages \<open>N\<close> are new.\<close>

definition grows :: "heap \<Rightarrow> heap \<Rightarrow> 32 word set \<Rightarrow> 32 word set \<Rightarrow> bool" where
  "grows h h' W N \<longleftrightarrow> hp_txn h' = hp_txn h \<and> N \<inter> hp_own h = {}
    \<and> hp_own h' = hp_own h \<union> N \<and> hp_priv h' = hp_priv h \<union> N
    \<and> (\<forall>n\<in>hp_own h - W. hp_page h' n = hp_page h n)"

text \<open>\<open>shrinks h h' W D\<close>: only pages of \<open>W\<close> changed, and the pages \<open>D\<close> are given back.\<close>

definition shrinks :: "heap \<Rightarrow> heap \<Rightarrow> 32 word set \<Rightarrow> 32 word set \<Rightarrow> bool" where
  "shrinks h h' W D \<longleftrightarrow> hp_txn h' = hp_txn h
    \<and> hp_own h' = hp_own h - D \<and> hp_priv h' = hp_priv h - D
    \<and> (\<forall>n\<in>hp_own h - W - D. hp_page h' n = hp_page h n)"

text \<open>\<open>keeps h h' P\<close>: the pages \<open>P\<close> are still there, unchanged.\<close>

definition keeps :: "heap \<Rightarrow> heap \<Rightarrow> 32 word set \<Rightarrow> bool" where
  "keeps h h' P \<longleftrightarrow> hp_txn h' = hp_txn h
    \<and> (\<forall>n\<in>P \<inter> hp_own h. n \<in> hp_own h' \<and> hp_page h' n = hp_page h n \<and> (n \<in> hp_priv h' \<longleftrightarrow> n \<in> hp_priv h))"

lemma grows_refl [simp]: "grows h h W {}"
  by (simp add: grows_def)

lemma grows_trans:
  assumes g: "grows h h1 W1 N1" "grows h1 h2 W2 N2" and w: "W1 \<subseteq> W" "W2 \<subseteq> W \<union> N1" and n: "N = N1 \<union> N2"
  shows "grows h h2 W N"
proof -
  have "hp_page h2 n = hp_page h n" if "n \<in> hp_own h - W" for n
  proof -
    have "n \<in> hp_own h - W1" "n \<in> hp_own h1 - W2" using that g(1) w by (auto simp: grows_def)
    thus ?thesis using g by (simp add: grows_def)
  qed
  thus ?thesis using g n by (auto simp: grows_def)
qed

lemma grows_mono: "grows h h' V N \<Longrightarrow> V \<subseteq> W \<Longrightarrow> grows h h' W N"
  by (auto simp: grows_def)

lemma grows_keeps: "grows h h' W N \<Longrightarrow> P \<inter> W = {} \<Longrightarrow> keeps h h' P"
  by (auto simp: grows_def keeps_def)

lemma grows_txn: "grows h h' W N \<Longrightarrow> hp_txn h' = hp_txn h"
  by (simp add: grows_def)

lemma grows_own: "grows h h' W N \<Longrightarrow> n \<in> hp_own h \<Longrightarrow> n \<in> hp_own h'"
  by (simp add: grows_def)

lemma grows_priv: "grows h h' W N \<Longrightarrow> n \<in> hp_priv h \<Longrightarrow> n \<in> hp_priv h'"
  by (simp add: grows_def)

lemma shrinks_refl [simp]: "shrinks h h W {}"
  by (simp add: shrinks_def)

lemma shrinks_of_grows: "grows h h' W {} \<Longrightarrow> shrinks h h' W {}"
  by (simp add: grows_def shrinks_def)

lemma shrinks_trans:
  assumes g: "shrinks h h1 W1 D1" "shrinks h1 h2 W2 D2" and w: "W1 \<subseteq> W" "W2 \<subseteq> W" and d: "D = D1 \<union> D2"
  shows "shrinks h h2 W D"
proof -
  have "hp_page h2 n = hp_page h n" if "n \<in> hp_own h - W - D" for n
  proof -
    have "n \<in> hp_own h - W1 - D1" "n \<in> hp_own h1 - W2 - D2" using that g(1) w d by (auto simp: shrinks_def)
    thus ?thesis using g by (simp add: shrinks_def)
  qed
  thus ?thesis using g d by (auto simp: shrinks_def)
qed

lemma shrinks_mono: "shrinks h h' V D \<Longrightarrow> V \<subseteq> W \<Longrightarrow> shrinks h h' W D"
  by (auto simp: shrinks_def)

lemma shrinks_keeps: "shrinks h h' W D \<Longrightarrow> P \<inter> W = {} \<Longrightarrow> P \<inter> D = {} \<Longrightarrow> keeps h h' P"
  by (auto simp: shrinks_def keeps_def)

lemma keeps_trans: "keeps h h1 P \<Longrightarrow> keeps h1 h2 P \<Longrightarrow> keeps h h2 P"
  by (auto simp: keeps_def)

lemma keeps_mono: "keeps h h' P \<Longrightarrow> Q \<subseteq> P \<Longrightarrow> keeps h h' Q"
  by (auto simp: keeps_def)

text \<open>Tree pages of the heap: any page, and a page that may be edited.\<close>

definition live_page :: "('k, 'l) codec \<Rightarrow> heap \<Rightarrow> 16 word \<Rightarrow> 32 word \<Rightarrow> bytes list \<Rightarrow> bool" where
  "live_page C h lvl n cs \<longleftrightarrow> n \<in> hp_own h \<and> tpage C (hp_txn h) lvl (hp_page h n) cs
    \<and> (born_txn (hp_page h n) = hp_txn h \<longleftrightarrow> n \<in> hp_priv h)"

definition priv_page :: "('k, 'l) codec \<Rightarrow> heap \<Rightarrow> 16 word \<Rightarrow> 32 word \<Rightarrow> bytes list \<Rightarrow> bool" where
  "priv_page C h lvl n cs \<longleftrightarrow> live_page C h lvl n cs \<and> n \<in> hp_priv h"

lemma live_page_keeps: "live_page C h lvl n cs \<Longrightarrow> keeps h h' P \<Longrightarrow> n \<in> P \<Longrightarrow> live_page C h' lvl n cs"
  by (auto simp: live_page_def keeps_def)

lemma priv_page_keeps: "priv_page C h lvl n cs \<Longrightarrow> keeps h h' P \<Longrightarrow> n \<in> P \<Longrightarrow> priv_page C h' lvl n cs"
  by (auto simp: priv_page_def live_page_def keeps_def)

definition wrote :: "('k, 'l) codec \<Rightarrow> 's store_view \<Rightarrow> 's \<Rightarrow> 's \<Rightarrow> 16 word \<Rightarrow> 32 word \<Rightarrow> bytes list \<Rightarrow> bool" where
  "wrote C V st st' lvl n cs \<longleftrightarrow> valid V st' \<and> grows (heap_of V st) (heap_of V st') {n} {}
    \<and> room V st' = room V st \<and> priv_page C (heap_of V st') lvl n cs"

definition added :: "('k, 'l) codec \<Rightarrow> 's store_view \<Rightarrow> 's \<Rightarrow> 's \<Rightarrow> 16 word \<Rightarrow> 32 word \<Rightarrow> bytes list \<Rightarrow> bool" where
  "added C V st st' lvl n cs \<longleftrightarrow> valid V st' \<and> grows (heap_of V st) (heap_of V st') {} {n}
    \<and> room V st \<le> Suc (room V st') \<and> priv_page C (heap_of V st') lvl n cs"

definition split_to ::
  "('k, 'l) codec \<Rightarrow> 's store_view \<Rightarrow> 's \<Rightarrow> 's \<Rightarrow> 16 word \<Rightarrow> 32 word \<Rightarrow> 32 word \<Rightarrow> bytes list \<Rightarrow> bool" where
  "split_to C V st st' lvl n m cs \<longleftrightarrow> valid V st' \<and> grows (heap_of V st) (heap_of V st') {n} {m}
    \<and> room V st \<le> Suc (room V st') \<and> 2 \<le> length cs
    \<and> priv_page C (heap_of V st') lvl n (take (length cs div 2) cs)
    \<and> priv_page C (heap_of V st') lvl m (drop (length cs div 2) cs)"

section \<open>The contract\<close>

locale store_laws =
  fixes S :: "('s, 'x) store_ops_scheme"
    and V :: "'s store_view"
  assumes txn: "valid V st \<Longrightarrow> target_txn S st = hp_txn (heap_of V st)"
      "valid V st \<Longrightarrow> hp_txn (heap_of V st) \<noteq> 0"
    and priv_own: "valid V st \<Longrightarrow> hp_priv (heap_of V st) \<subseteq> hp_own (heap_of V st)"
    and own_read: "valid V st \<Longrightarrow> n \<in> hp_own (heap_of V st) \<Longrightarrow> read_page S st n = Inr (hp_page (heap_of V st) n)"
    and own_bounds: "valid V st \<Longrightarrow> n \<in> hp_own (heap_of V st) \<Longrightarrow>
        2 \<le> n \<and> ucast n < page_limit S st \<and> length (hp_page (heap_of V st) n) = PAGE_SIZE"
    and edit: "valid V st \<Longrightarrow> n \<in> hp_priv (heap_of V st) \<Longrightarrow> edit_page S st n = Inr (hp_page (heap_of V st) n)"
    and pair: "valid V st \<Longrightarrow> n \<in> hp_own (heap_of V st) \<Longrightarrow> m \<in> hp_priv (heap_of V st) \<Longrightarrow> n \<noteq> m \<Longrightarrow>
        pair_pages S st n m = Inr (hp_page (heap_of V st) n, hp_page (heap_of V st) m)"
    and put: "valid V st \<Longrightarrow> n \<in> hp_priv (heap_of V st) \<Longrightarrow> length p = PAGE_SIZE \<Longrightarrow>
        owned_by p (hp_txn (heap_of V st)) \<Longrightarrow>
        valid V (put_page S st n p) \<and> grows (heap_of V st) (heap_of V (put_page S st n p)) {n} {}
        \<and> same_page p (hp_page (heap_of V (put_page S st n p)) n) \<and> room V (put_page S st n p) = room V st"
    and alloc: "valid V st \<Longrightarrow>
        rwp (allocate S st) (\<lambda>(st', n). valid V st' \<and> grows (heap_of V st) (heap_of V st') {} {n}
          \<and> room V st \<le> Suc (room V st')) (room V st = 0)"
    and discard: "valid V st \<Longrightarrow> n \<in> hp_priv (heap_of V st) \<Longrightarrow>
        owned_by (hp_page (heap_of V st) n) (hp_txn (heap_of V st)) \<Longrightarrow>
        \<exists>st'. discard_private S st n = Inr st' \<and> valid V st'
          \<and> shrinks (heap_of V st) (heap_of V st') {} {n} \<and> room V st \<le> room V st'"
begin

lemma inspect_own:
  "valid V st \<Longrightarrow> n \<in> hp_own (heap_of V st) \<Longrightarrow> inspect_page S st n f = f (hp_page (heap_of V st) n)"
  by (simp add: inspect_page_def own_read)

lemma put_tpage:
  assumes v: "valid V st" and n: "n \<in> hp_priv (heap_of V st)"
    and q: "tpage C (hp_txn (heap_of V st)) lvl q ds" "born_txn q = hp_txn (heap_of V st)"
  shows "wrote C V st (put_page S st n q) lvl n ds"
    "raw_header (hp_page (heap_of V (put_page S st n q)) n) = raw_header q"
proof -
  have o: "length q = PAGE_SIZE" "owned_by q (hp_txn (heap_of V st))" using tpage_owned [OF q(1)] q(2) by simp_all
  note p = put [OF v n o]
  hence s: "same_page q (hp_page (heap_of V (put_page S st n q)) n)" by simp
  have g: "grows (heap_of V st) (heap_of V (put_page S st n q)) {n} {}" using p by simp
  show "wrote C V st (put_page S st n q) lvl n ds"
    using p n priv_own [OF v] tpage_same_page [OF q(1) s] same_page_born [OF s] q(2) grows_txn [OF g]
      grows_priv [OF g n] grows_own [OF g, of n]
    by (auto simp: wrote_def priv_page_def live_page_def)
  show "raw_header (hp_page (heap_of V (put_page S st n q)) n) = raw_header q"
    using same_contents_header(1) [OF same_page_contents [OF s]] .
qed

lemma update_page_wrote:
  assumes v: "valid V st" and n: "n \<in> hp_priv (heap_of V st)"
    and u: "\<exists>q. upd (hp_page (heap_of V st) n) = Inr q \<and> tpage C (hp_txn (heap_of V st)) lvl q ds
      \<and> born_txn q = hp_txn (heap_of V st)"
  shows "\<exists>st'. update_page S st n upd = Inr st' \<and> wrote C V st st' lvl n ds"
  using u put_tpage(1) [OF v n] by (auto simp: update_page_def edit [OF v n])

lemma copy_page_wrote:
  assumes v: "valid V st" and m: "m \<in> hp_priv (heap_of V st)" and n: "n \<in> hp_own (heap_of V st)" "n \<noteq> m"
    and u: "\<exists>q. f (hp_page (heap_of V st) n) (hp_page (heap_of V st) m) = Inr q
      \<and> tpage C (hp_txn (heap_of V st)) lvl q ds \<and> born_txn q = hp_txn (heap_of V st) \<and> P (raw_header q)"
  shows "\<exists>st'. copy_page S st n m f = Inr st' \<and> wrote C V st st' lvl m ds
    \<and> P (raw_header (hp_page (heap_of V st') m))"
proof -
  obtain q where q: "f (hp_page (heap_of V st) n) (hp_page (heap_of V st) m) = Inr q"
      "tpage C (hp_txn (heap_of V st)) lvl q ds" "born_txn q = hp_txn (heap_of V st)" "P (raw_header q)"
    using u by blast
  show ?thesis
    using q(1,4) put_tpage [OF v m q(2,3)] by (simp add: copy_page_def pair [OF v n(1) m n(2)])
qed

lemma live_page_own: "live_page C (heap_of V st) lvl n cs \<Longrightarrow> n \<in> hp_own (heap_of V st)"
  by (simp add: live_page_def)

lemma added_wrote:
  assumes "valid V st" "valid V st1" "grows (heap_of V st) (heap_of V st1) {} {m}" "room V st \<le> Suc (room V st1)"
    "wrote C V st1 st2 lvl m cs"
  shows "added C V st st2 lvl m cs"
  using assms grows_trans [of "heap_of V st" "heap_of V st1" "{}" "{m}" "heap_of V st2" "{m}" "{}" "{}" "{m}"]
  by (simp add: added_def wrote_def)

text \<open>A new page, written right after its allocation.\<close>

lemma allocate_update:
  assumes v: "valid V st"
    and u: "\<And>st1 out. valid V st1 \<Longrightarrow> hp_txn (heap_of V st1) = hp_txn (heap_of V st) \<Longrightarrow> length out = PAGE_SIZE \<Longrightarrow>
      \<exists>q. upd st1 out = Inr q \<and> tpage C (hp_txn (heap_of V st)) lvl q ds \<and> born_txn q = hp_txn (heap_of V st)"
    and k: "\<And>st' m. added C V st st' lvl m ds \<Longrightarrow> rwp (k m st') Q E" and e: "room V st = 0 \<Longrightarrow> E"
  shows "rwp (rbind (allocate S st) (\<lambda>(st1, m). rbind (update_page S st1 m (upd st1)) (k m))) Q E"
proof (rule rwp_rbindI [OF rwp_mono [OF alloc [OF v]]])
  fix x
  assume "case x of (st', n) \<Rightarrow> valid V st' \<and> grows (heap_of V st) (heap_of V st') {} {n} \<and> room V st \<le> Suc (room V st')"
  then obtain st1 m where x: "x = (st1, m)" and a: "valid V st1" "grows (heap_of V st) (heap_of V st1) {} {m}"
      "room V st \<le> Suc (room V st1)" by auto
  have m: "m \<in> hp_priv (heap_of V st1)" using a(2) by (simp add: grows_def)
  hence "length (hp_page (heap_of V st1) m) = PAGE_SIZE"
    using own_bounds [OF a(1)] priv_own [OF a(1)] by auto
  then obtain st2 where w: "update_page S st1 m (upd st1) = Inr st2" "wrote C V st1 st2 lvl m ds"
    using update_page_wrote [OF a(1) m, of "upd st1" C lvl ds] u [OF a(1), of "hp_page (heap_of V st1) m"]
      grows_txn [OF a(2)] by auto
  show "rwp (case x of (st1, m) \<Rightarrow> rbind (update_page S st1 m (upd st1)) (k m)) Q E"
    using k [OF added_wrote [OF v a w(2)]] w(1) by (simp add: x)
qed (rule e)

lemma allocate_copy:
  assumes v: "valid V st" and n: "n \<in> hp_own (heap_of V st)"
    and u: "\<And>st1 out. valid V st1 \<Longrightarrow> hp_txn (heap_of V st1) = hp_txn (heap_of V st) \<Longrightarrow> length out = PAGE_SIZE \<Longrightarrow>
      \<exists>q. f st1 (hp_page (heap_of V st) n) out = Inr q
      \<and> tpage C (hp_txn (heap_of V st)) lvl q ds \<and> born_txn q = hp_txn (heap_of V st) \<and> P (raw_header q)"
    and k: "\<And>st' m. added C V st st' lvl m ds \<Longrightarrow> P (raw_header (hp_page (heap_of V st') m)) \<Longrightarrow> rwp (k m st') Q E"
    and e: "room V st = 0 \<Longrightarrow> E"
  shows "rwp (rbind (allocate S st) (\<lambda>(st1, m). rbind (copy_page S st1 n m (f st1)) (k m))) Q E"
proof (rule rwp_rbindI [OF rwp_mono [OF alloc [OF v]]])
  fix x
  assume "case x of (st', n) \<Rightarrow> valid V st' \<and> grows (heap_of V st) (heap_of V st') {} {n} \<and> room V st \<le> Suc (room V st')"
  then obtain st1 m where x: "x = (st1, m)" and a: "valid V st1" "grows (heap_of V st) (heap_of V st1) {} {m}"
      "room V st \<le> Suc (room V st1)" by auto
  have m: "m \<in> hp_priv (heap_of V st1)" "n \<noteq> m" "hp_page (heap_of V st1) n = hp_page (heap_of V st) n"
    using a(2) n by (auto simp: grows_def)
  hence "length (hp_page (heap_of V st1) m) = PAGE_SIZE"
    using own_bounds [OF a(1)] priv_own [OF a(1)] by auto
  then obtain st2 where w: "copy_page S st1 n m (f st1) = Inr st2" "wrote C V st1 st2 lvl m ds"
      "P (raw_header (hp_page (heap_of V st2) m))"
    using copy_page_wrote [OF a(1) m(1) grows_own [OF a(2) n] m(2), of "f st1" C lvl ds P]
      u [OF a(1), of "hp_page (heap_of V st1) m"] m(3) grows_txn [OF a(2)] by auto
  show "rwp (case x of (st1, m) \<Rightarrow> rbind (copy_page S st1 n m (f st1)) (k m)) Q E"
    using k [OF added_wrote [OF v a w(2)] w(3)] w(1) by (simp add: x)
qed (rule e)

end

end
