(* ===== verification/TreeSteps.thy ===== *)
theory TreeSteps
  imports TreeHeap
begin

text \<open>
  The steps of the tree algorithms on one page of a store that satisfies \<open>store_laws\<close>: copying
  a committed page, replacing a child, editing or splitting a page, adding a root. Each step is
  an update of the list of cells of its page, and the only error is the allocator's.
\<close>

context codec_laws
begin

lemma live_tpage: "live_page C h lvl n cs \<Longrightarrow> tpage C (hp_txn h) lvl (hp_page h n) cs"
  by (simp add: live_page_def)

lemma priv_live: "priv_page C h lvl n cs \<Longrightarrow> live_page C h lvl n cs"
  by (simp add: priv_page_def)

lemma priv_tpage: "priv_page C h lvl n cs \<Longrightarrow> tpage C (hp_txn h) lvl (hp_page h n) cs"
  by (simp add: priv_page_def live_page_def)

lemma priv_born: "priv_page C h lvl n cs \<Longrightarrow> born_txn (hp_page h n) = hp_txn h"
  by (simp add: priv_page_def live_page_def)

lemma live_header:
  assumes "live_page C h lvl n cs"
  shows "h_item_count (raw_header (hp_page h n)) = length cs" "h_level (raw_header (hp_page h n)) = lvl"
  using live_tpage [OF assms] raw_header_slotted [of "hp_page h n" cs] by (auto simp: tpage_def)

end

locale tree_store = codec_laws C X + store_laws S V
  for C :: "('k :: linorder, 'l) codec"
    and X :: "('k, 'l) cell_view"
    and S :: "('s, 'x) store_ops_scheme"
    and V :: "'s store_view"
begin

lemma live_parse:
  assumes "valid V st" "live_page C (heap_of V st) lvl n cs" "e = None \<or> e = Some lvl"
  shows "parse_page C (hp_page (heap_of V st) n) (target_txn S st) e = Inr (raw_header (hp_page (heap_of V st) n))"
  using parse_ok [OF live_tpage [OF assms(2)] order_refl assms(3)] txn(1) [OF assms(1)] by simp

lemma first_key_ok:
  assumes v: "valid V st" and l: "live_page C (heap_of V st) lvl n cs" and r: "readable C lvl cs"
  shows "first_key C S st n lvl = Inr (cell_key C lvl (hd cs))"
proof -
  have ne: "cs \<noteq> []" using live_tpage [OF l] by (simp add: tpage_def)
  show ?thesis
    using live_parse [OF v l, of "Some lvl"] key_at_ok [OF live_tpage [OF l] r, of 0] ne
    by (simp add: first_key_def inspect_own [OF v live_page_own [OF l]] hd_conv_nth)
qed

lemma touch_ok:
  assumes v: "valid V st" and l: "live_page C (heap_of V st) lvl n cs" and r: "length ret \<le> MAX_PATH"
    and e: "room V st = 0 \<Longrightarrow> E"
    and q: "\<And>st' m. added C V st st' lvl m cs \<Longrightarrow>
      raw_header (hp_page (heap_of V st') m) = raw_header (hp_page (heap_of V st) n) \<Longrightarrow> Q (st', ret @ [n], m)"
  shows "rwp (touch S st n ret) Q E"
  unfolding touch_def copy_for_cow_def Let_def
proof (rule allocate_copy [OF v live_page_own [OF l], where P = "\<lambda>h. h = raw_header (hp_page (heap_of V st) n)"])
  fix st1 and out :: bytes
  assume a: "valid V st1" "hp_txn (heap_of V st1) = hp_txn (heap_of V st)" "length out = PAGE_SIZE"
  show "\<exists>q. rbind (write_source out 0 (hp_page (heap_of V st) n))
      (\<lambda>output. rbind (put_u64 output BORN_TXN (target_txn S st1)) clear_checksum) = Inr q \<and>
      tpage C (hp_txn (heap_of V st)) lvl q cs \<and> born_txn q = hp_txn (heap_of V st)
      \<and> raw_header q = raw_header (hp_page (heap_of V st) n)"
    using cow_page_ok [OF live_tpage [OF l] a(3) txn(2) [OF v]] txn(1) [OF a(1)] a(2) by simp
next
  fix st' m
  assume "added C V st st' lvl m cs" "raw_header (hp_page (heap_of V st') m) = raw_header (hp_page (heap_of V st) n)"
  thus "rwp (rbind (retired_push ret n) (\<lambda>retired. Inr (st', retired, m))) Q E"
    using q r by (simp add: retired_push_def)
qed (rule e)

lemma replace_branch_child_ok:
  assumes v: "valid V st" and p: "priv_page C (heap_of V st) lvl n cs" and l: "lvl \<noteq> 0"
    and i: "i < length cs" "cs ! i = bcell X k c" and c: "c \<in> hp_own (heap_of V st)"
  shows "\<exists>st'. replace_branch_child C S st n i m = Inr st' \<and> wrote C V st st' lvl n (cs[i := bcell X k m])"
proof -
  let ?p = "hp_page (heap_of V st) n"
  have t: "tpage C (hp_txn (heap_of V st)) lvl ?p cs" using priv_tpage [OF p] .
  have s: "slotted ?p cs" "length (cs ! i) = KEY_SIZE C + 4" using t i by (auto simp: tpage_def)
  have cell: "branch_cell C ?p (raw_header ?p) i = Inr (cs ! i)"
    using codec_cell_ok [OF t i(1)] live_header [OF priv_live [OF p]] l by (simp add: codec_cell_def)
  have "key_at C ?p (raw_header ?p) i = Inr k"
    using codec_cell_ok [OF t i(1)] live_header [OF priv_live [OF p]] l i(2) branch_key
    by (simp add: key_at_def)
  moreover have "branch_child C ?p (raw_header ?p) i (page_limit S st) = Inr c"
    using branch_child_ok [OF t l i] own_bounds [OF v c] by simp
  moreover have "\<exists>q. apply_edit C ?p (raw_header ?p) \<lparr> ed_index = i, ed_replace = True, ed_cell = bcell X k m \<rparr> = Inr q
      \<and> tpage C (hp_txn (heap_of V st)) lvl q (cs[i := bcell X k m]) \<and> born_txn q = born_txn ?p"
    using apply_edit_ok [OF t, of "\<lparr> ed_index = i, ed_replace = True, ed_cell = bcell X k m \<rparr>"] i l
    by (simp add: edited_def cell_size_def)
  hence "\<exists>q. rbind (replace_slot ?p (raw_header ?p) i (KEY_SIZE C + 4) (bcell X k m)) (\<lambda>(page, replaced).
      if replaced then Inr page else Inl (Corrupt ''B+tree child replacement no longer fits'')) = Inr q
      \<and> tpage C (hp_txn (heap_of V st)) lvl q (cs[i := bcell X k m]) \<and> born_txn q = hp_txn (heap_of V st)"
    using codec_cell_ok [OF t i(1)] s(2) priv_born [OF p]
    by (auto simp: apply_edit_def rbind_Inr_iff split: prod.splits if_splits)
  ultimately show ?thesis
    using live_parse [OF v priv_live [OF p], of None] cell s(2) p
      update_page_wrote [OF v, of n _ C lvl "cs[i := bcell X k m]"]
    by (simp add: replace_branch_child_def inspect_own [OF v live_page_own [OF priv_live [OF p]]]
        branch_buf_ok priv_page_def)
qed

subsection \<open>Splitting a page in two\<close>

text \<open>The common part of the two splits: the upper half goes to a new page, then the page
  keeps the lower half.\<close>

lemma split_page_ok:
  assumes v: "valid V st" and p: "priv_page C (heap_of V st) lvl n cs"
    and vs: "2 \<le> length vs" "\<forall>c\<in>set vs. length c = cell_size C lvl" "room_for C lvl ((length vs + 1) div 2)"
    and cells: "\<And>j. j < length vs \<Longrightarrow> cell_of (hp_page (heap_of V st) n) j = Inr (vs ! j)"
    and left: "\<And>st2. \<exists>q. upd st2 (hp_page (heap_of V st) n) = Inr q
      \<and> tpage C (hp_txn (heap_of V st)) lvl q (take (length vs div 2) vs) \<and> born_txn q = born_txn (hp_page (heap_of V st) n)"
    and k: "\<And>st' m. split_to C V st st' lvl n m vs \<Longrightarrow> rwp (k m st') Q E" and e: "room V st = 0 \<Longrightarrow> E"
  shows "rwp (rbind (allocate S st) (\<lambda>(st1, m).
      rbind (copy_page S st1 n m (\<lambda>src out. build_cells (tree_page_type C lvl) (born_txn src) lvl (CODEC_AUX C)
        (cell_of src) [length vs div 2..<length vs])) (\<lambda>st2.
      rbind (update_page S st2 n (upd st2)) (k m)))) Q E"
proof (rule allocate_copy [OF v live_page_own [OF priv_live [OF p]], where P = "\<lambda>_. True"])
  let ?mid = "length vs div 2" and ?txn = "hp_txn (heap_of V st)" and ?p = "hp_page (heap_of V st) n"
  have "length vs - ?mid = (length vs + 1) div 2" "?mid < length vs" using vs(1) by presburger+
  thus "\<exists>q. build_cells (tree_page_type C lvl) (born_txn ?p) lvl (CODEC_AUX C) (cell_of ?p) [?mid..<length vs] = Inr q
      \<and> tpage C ?txn lvl q (drop ?mid vs) \<and> born_txn q = ?txn \<and> True"
    using build_cells_ok [of vs "cell_of ?p" ?mid lvl ?txn ?txn] cells vs priv_tpage [OF p] priv_born [OF p] txn(2) [OF v]
    by (auto simp: tpage_def)
  fix st1 m
  assume a: "added C V st st1 lvl m (drop ?mid vs)"
  hence g: "grows (heap_of V st) (heap_of V st1) {} {m}" and v1: "valid V st1" by (auto simp: added_def)
  have n: "n \<in> hp_own (heap_of V st)" "n \<in> hp_priv (heap_of V st1)"
    using p grows_priv [OF g] by (auto simp: priv_page_def live_page_def)
  have m: "m \<noteq> n" using g n by (auto simp: grows_def)
  have same: "hp_page (heap_of V st1) n = ?p" "hp_txn (heap_of V st1) = ?txn" using g n by (auto simp: grows_def)
  obtain st2 where w: "update_page S st1 n (upd st1) = Inr st2" "wrote C V st1 st2 lvl n (take ?mid vs)"
    using update_page_wrote [OF v1 n(2), of "upd st1" C lvl "take ?mid vs"] left [of st1] same priv_born [OF p] by auto
  have "priv_page C (heap_of V st2) lvl m (drop ?mid vs)"
    using a w(2) m grows_keeps [of "heap_of V st1" "heap_of V st2" "{n}" "{}" "{m}"]
    by (auto simp: added_def wrote_def intro: priv_page_keeps)
  hence "split_to C V st st2 lvl n m vs"
    using a w(2) vs(1) grows_trans [OF g, of "heap_of V st2" "{n}" "{}" "{n}" "{m}"]
    by (auto simp: split_to_def added_def wrote_def)
  thus "rwp (rbind (update_page S st1 n (upd st1)) (k m)) Q E" using w(1) k by simp
qed (rule e)

lemma split_to_first:
  assumes s: "split_to C V st st' lvl n m vs" and r: "readable C lvl vs"
  shows "first_key C S st' n lvl = Inr (cell_key C lvl (hd vs))"
    "first_key C S st' m lvl = Inr (cell_key C lvl (vs ! (length vs div 2)))"
proof -
  let ?mid = "length vs div 2"
  have p: "live_page C (heap_of V st') lvl n (take ?mid vs)" "live_page C (heap_of V st') lvl m (drop ?mid vs)"
    and v: "valid V st'" and b: "2 \<le> length vs"
    using s by (auto simp: split_to_def priv_page_def)
  have "readable C lvl (take ?mid vs)" "readable C lvl (drop ?mid vs)"
    using r by (auto simp: readable_def dest: in_set_takeD in_set_dropD)
  note f = first_key_ok [OF v p(1) this(1)] first_key_ok [OF v p(2) this(2)]
  have "hd (take ?mid vs) = hd vs" "hd (drop ?mid vs) = vs ! ?mid"
    using b by (auto simp: hd_drop_conv_nth)
  thus "first_key C S st' n lvl = Inr (cell_key C lvl (hd vs))"
    "first_key C S st' m lvl = Inr (cell_key C lvl (vs ! (length vs div 2)))" using f by simp_all
qed

lemma not_room_for: "\<not> room_for C lvl n \<Longrightarrow> 9 \<le> n"
  using room_for_mono [OF room_for_8, of n] by (cases "n \<le> 8") auto

lemma split_leaf_ok:
  assumes v: "valid V st" and p: "priv_page C (heap_of V st) 0 n cs" and t: "lt_page target = n"
    "lt_header target = raw_header (hp_page (heap_of V st) n)"
    and ed: "\<not> ed_replace ed" "ed_index ed \<le> length cs" "length (ed_cell ed) = LEAF_SIZE C"
    and full: "\<not> room_for C 0 (length cs + 1)" and r: "readable C 0 (edited ed cs)"
    and k: "\<And>st' m. split_to C V st st' 0 n m (edited ed cs) \<Longrightarrow>
      rwp (propagate_split C S st' root (lt_path target) n (cell_key C 0 (hd (edited ed cs))) m
        (cell_key C 0 (edited ed cs ! ((length cs + 1) div 2))) 0) Q E"
    and e: "room V st = 0 \<Longrightarrow> E"
  shows "rwp (split_leaf C S st root target ed) Q E"
proof -
  let ?p = "hp_page (heap_of V st) n" and ?vs = "edited ed cs"
  have tp: "tpage C (hp_txn (heap_of V st)) 0 ?p cs" using priv_tpage [OF p] .
  have big: "8 \<le> length cs" using not_room_for [OF full] by simp
  have len: "length ?vs = length cs + 1" using ed by (simp add: edited_def)
  have sz: "length (ed_cell ed) = cell_size C 0" using ed by (simp add: cell_size_def)
  have vs: "\<forall>c\<in>set ?vs. length c = cell_size C 0"
    using edited_sizes [OF _ sz] tp by (auto simp: tpage_def)
  have half: "room_for C 0 ((length ?vs + 1) div 2)"
    using room_for_mono [OF room_for_half [OF room_for_length [OF tp]]] len by simp
  have i: "if ed_replace ed then ed_index ed < length cs else ed_index ed \<le> length cs" using ed by simp
  have si: "split_index C ?p (raw_header ?p) ed = Inr (length ?vs div 2)"
    using fixed_split_ok [OF _ half] big len ed live_header [OF priv_live [OF p]]
    by (simp add: split_index_def edit_total_def fixed Let_def)
  have left: "\<exists>q. (let edit_in_left = ed_index ed < length ?vs div 2;
          keep = length ?vs div 2 - of_bool (edit_in_left \<and> \<not> ed_replace ed)
      in if keep = 0 then b
         else rbind (truncate_page C ?p (raw_header ?p) keep) (\<lambda>(page, left).
           if edit_in_left then apply_edit C page left ed else Inr page)) = Inr q
    \<and> tpage C (hp_txn (heap_of V st)) 0 q (take (length ?vs div 2) ?vs) \<and> born_txn q = born_txn ?p" for b
    using left_edit_ok [OF tp sz i, of "length ?vs div 2" b] big len by auto
  have k': "rwp (rbind (first_key C S st' n 0) (\<lambda>left_first. rbind (first_key C S st' m 0) (\<lambda>right_first.
      propagate_split C S st' root (lt_path target) n left_first m right_first 0))) Q E"
    if "split_to C V st st' 0 n m ?vs" for st' m
    using split_to_first [OF that r] k [OF that] len by simp
  have "rwp (split_leaf_at C S st root target ed (length ?vs div 2) (length ?vs)) Q E"
    unfolding split_leaf_at_def build_edit_def keep_left_edit_def t live_header(2) [OF priv_live [OF p]]
    using big len
    by (intro split_page_ok [OF v p _ vs half]) (simp, rule virtual_cell_ok [OF tp i], assumption, rule left, erule k', erule e)
  thus ?thesis
    using si len ed by (simp add: split_leaf_def t inspect_own [OF v live_page_own [OF priv_live [OF p]]]
        edit_total_def live_header [OF priv_live [OF p]])
qed

subsection \<open>Replacing a cell by several\<close>

lemma apply_replacement_ok:
  assumes v: "valid V st" and p: "priv_page C (heap_of V st) lvl n cs"
    and i: "i < length cs" and c: "cells \<noteq> []" "length cells \<le> 3" "\<forall>c\<in>set cells. length c = cell_size C lvl"
    and r: "readable C lvl (replaced i cells cs)"
    and fits: "\<And>st'. wrote C V st st' lvl n (replaced i cells cs) \<Longrightarrow> Q (st', None)"
    and split: "\<And>st' m. \<not> room_for C lvl (length cs + length cells - 1) \<Longrightarrow>
      split_to C V st st' lvl n m (replaced i cells cs) \<Longrightarrow>
      Q (st', Some \<lparr> bs_right_page = m,
        bs_right_first = cell_key C lvl (replaced i cells cs ! (length (replaced i cells cs) div 2)),
        bs_left_first = cell_key C lvl (hd (replaced i cells cs)), bs_level = lvl \<rparr>)"
    and e: "\<not> room_for C lvl (length cs + length cells - 1) \<Longrightarrow> room V st = 0 \<Longrightarrow> E"
  shows "rwp (apply_replacement C S st n (raw_header (hp_page (heap_of V st) n)) \<lparr> rp_index = i, rp_cells = cells \<rparr>) Q E"
proof -
  let ?p = "hp_page (heap_of V st) n" and ?vs = "replaced i cells cs"
  have tp: "tpage C (hp_txn (heap_of V st)) lvl ?p cs" using priv_tpage [OF p] .
  have n: "n \<in> hp_priv (heap_of V st)" using p by (simp add: priv_page_def)
  have c3: "\<forall>c\<in>set cells. length c = cell_size C lvl" by (rule c(3))
  have len: "length ?vs = length cs + length cells - 1" using i c(1) by (cases cells) (simp_all add: replaced_def)
  show ?thesis
  proof (cases "room_for C lvl (length cs + length cells - 1)")
    case True
    obtain st' where "update_page S st n (\<lambda>page. apply_cells C page (raw_header ?p) i cells) = Inr st'" "wrote C V st st' lvl n ?vs"
      using update_page_wrote [OF v n, of "\<lambda>page. apply_cells C page (raw_header ?p) i cells" C lvl ?vs]
        apply_cells_ok [OF tp i c(1,3) True] priv_born [OF p] by auto
    thus ?thesis
      using True fits replacement_fits_ok [OF tp c3 c(1,2) i]
      by (simp add: apply_replacement_def inspect_own [OF v live_page_own [OF priv_live [OF p]]])
  next
    case False
    have big: "7 \<le> length cs" "9 \<le> length ?vs" using not_room_for [OF False] c len by simp_all
    have half: "room_for C lvl ((length ?vs + 1) div 2)"
      using room_for_mono [OF room_for_half [OF room_for_length [OF tp]]] len c by simp
    have vs: "\<forall>c\<in>set ?vs. length c = cell_size C lvl"
      using replaced_sizes [OF _ c3] tp by (auto simp: tpage_def)
    have si: "replacement_split_index C ?p (raw_header ?p) \<lparr> rp_index = i, rp_cells = cells \<rparr> = Inr (length ?vs div 2)"
      using fixed_split_ok [OF _ half] big len live_header [OF priv_live [OF p]]
      by (simp add: replacement_split_index_def replacement_total_def fixed Let_def)
    have m: "3 < length ?vs div 2" "length ?vs div 2 + 1 < length cs" using big len c by auto
    have "rwp (split_replacement C S st n (raw_header ?p) \<lparr> rp_index = i, rp_cells = cells \<rparr>) Q E"
      unfolding split_replacement_def build_replacement_def keep_left_replacement_def
        inspect_own [OF v live_page_own [OF priv_live [OF p]]] si rbind.simps live_header [OF priv_live [OF p]]
        replacement_total_def replacement.simps len [symmetric]
    proof (rule split_page_ok [OF v p _ vs half])
      show "2 \<le> length ?vs" using big by simp
      show "replacement_cell C ?p (raw_header ?p) \<lparr> rp_index = i, rp_cells = cells \<rparr> j = Inr (?vs ! j)"
        if "j < length ?vs" for j using replacement_cell_ok [OF tp i c(1) that] .
      show "\<exists>q. (if length ?vs div 2 \<le> i then rmap fst (truncate_page C ?p (raw_header ?p) (length ?vs div 2))
          else if length ?vs div 2 < i + length cells then
            rbind (truncate_page C ?p (raw_header ?p) (i + 1)) (\<lambda>(page, left).
            apply_cells C page left i (take (length ?vs div 2 - i) cells))
          else
            rbind (truncate_page C ?p (raw_header ?p) (length ?vs div 2 - (length cells - 1))) (\<lambda>(page, left).
            apply_cells C page left i cells)) = Inr q
        \<and> tpage C (hp_txn (heap_of V st)) lvl q (take (length ?vs div 2) ?vs) \<and> born_txn q = born_txn ?p" for st2 :: 's
        by (rule left_replacement_ok [OF tp i c(1,3,2) m])
      fix st' m
      assume s: "split_to C V st st' lvl n m ?vs"
      show "rwp (rbind (first_key C S st' m lvl) (\<lambda>right_first. rbind (first_key C S st' n lvl) (\<lambda>left_first.
          Inr (st', Some \<lparr> bs_right_page = m, bs_right_first = right_first, bs_left_first = left_first, bs_level = lvl \<rparr>)))) Q E"
        using split_to_first [OF s r] split [OF False s] by simp
    qed (rule e [OF False])
    thus ?thesis
      using False replacement_fits_ok [OF tp c3 c(1,2) i]
      by (simp add: apply_replacement_def inspect_own [OF v live_page_own [OF priv_live [OF p]]])
  qed
qed

subsection \<open>New pages\<close>

lemma new_leaf_ok:
  assumes v: "valid V st" and c: "length c = LEAF_SIZE C"
    and q: "\<And>st' m. added C V st st' 0 m [c] \<Longrightarrow> Q (st', m)" and e: "room V st = 0 \<Longrightarrow> E"
  shows "rwp (new_leaf C S st c) Q E"
  unfolding new_leaf_def
proof (rule allocate_update [OF v])
  fix st1 and out :: bytes
  assume a: "valid V st1" "hp_txn (heap_of V st1) = hp_txn (heap_of V st)"
  show "\<exists>q. rbind (appender_new (LEAF_TYPE C) (target_txn S st1) 0 (CODEC_AUX C)) (\<lambda>builder.
        rbind (builder_push builder c) builder_finish) = Inr q
      \<and> tpage C (hp_txn (heap_of V st)) 0 q [c] \<and> born_txn q = hp_txn (heap_of V st)"
    using append_cells_ok [of "[c]" 0 "hp_txn (heap_of V st)" "hp_txn (heap_of V st)"] c
      txn(2) [OF v] txn(1) [OF a(1)] a(2) room_for_mono [OF room_for_8, of 1 0]
    by (simp add: tree_page_type_def cell_size_def rbind_assoc)
next
  show "rwp (Inr (st', m)) Q E" if "added C V st st' 0 m [c]" for st' m
    using q [OF that] by simp
qed (rule e)

lemma new_root_ok:
  assumes v: "valid V st" and l: "lvl \<noteq> 0" and le: "\<not> lvl \<le> MAX_TREE_LEVEL \<Longrightarrow> E"
    and q: "\<And>st' n. added C V st st' lvl n [bcell X lk lp, bcell X rk rp] \<Longrightarrow> lvl \<le> MAX_TREE_LEVEL \<Longrightarrow> Q (st', n)"
    and e: "room V st = 0 \<Longrightarrow> E"
  shows "rwp (new_root C S st lp lk rp rk lvl) Q E"
proof (cases "lvl \<le> MAX_TREE_LEVEL")
  case True
  have "rwp (rbind (allocate S st) (\<lambda>(st, page_number).
       rbind (update_page S st page_number (\<lambda>page.
         rbind (appender_new (BRANCH_TYPE C) (target_txn S st) lvl (CODEC_AUX C)) (\<lambda>builder.
         rbind (builder_push builder (bcell X lk lp)) (\<lambda>builder.
         rbind (builder_push builder (bcell X rk rp)) builder_finish)))) (\<lambda>st.
       Inr (st, page_number)))) Q E"
  proof (rule allocate_update [OF v])
    fix st1 and out :: bytes
    assume a: "valid V st1" "hp_txn (heap_of V st1) = hp_txn (heap_of V st)"
    show "\<exists>q. rbind (appender_new (BRANCH_TYPE C) (target_txn S st1) lvl (CODEC_AUX C)) (\<lambda>builder.
         rbind (builder_push builder (bcell X lk lp)) (\<lambda>builder.
         rbind (builder_push builder (bcell X rk rp)) builder_finish)) = Inr q
      \<and> tpage C (hp_txn (heap_of V st)) lvl q [bcell X lk lp, bcell X rk rp] \<and> born_txn q = hp_txn (heap_of V st)"
      using append_cells_ok [of "[bcell X lk lp, bcell X rk rp]" lvl "hp_txn (heap_of V st)" "hp_txn (heap_of V st)"]
        l True txn(2) [OF v] txn(1) [OF a(1)] a(2) room_for_mono [OF room_for_8, of 2 lvl]
      by (simp add: tree_page_type_def cell_size_def rbind_assoc numeral_2_eq_2)
  next
    show "rwp (Inr (st', m)) Q E" if "added C V st st' lvl m [bcell X lk lp, bcell X rk rp]" for st' m
      using q [OF that True] by simp
  qed (rule e)
  thus ?thesis using True leD [OF True] by (simp add: new_root_def branch_buf_ok)
next
  case False
  thus ?thesis using le by (simp add: new_root_def not_less not_le)
qed

subsection \<open>Single-cell edits of a page\<close>

lemma apply_leaf_edit_ok:
  assumes v: "valid V st" and p: "priv_page C (heap_of V st) 0 n cs" and c: "length (ed_cell ed) = LEAF_SIZE C"
    and i: "if ed_replace ed then ed_index ed < length cs else ed_index ed \<le> length cs"
    and fits: "ed_replace ed \<or> room_for C 0 (length cs + 1)"
  shows "\<exists>st'. apply_leaf_edit C S st n (raw_header (hp_page (heap_of V st) n)) ed = Inr st'
    \<and> wrote C V st st' 0 n (edited ed cs)"
  unfolding apply_leaf_edit_def
proof (rule update_page_wrote [OF v])
  show "n \<in> hp_priv (heap_of V st)" using p by (simp add: priv_page_def)
  show "\<exists>q. apply_edit C (hp_page (heap_of V st) n) (raw_header (hp_page (heap_of V st) n)) ed = Inr q
      \<and> tpage C (hp_txn (heap_of V st)) 0 q (edited ed cs) \<and> born_txn q = hp_txn (heap_of V st)"
    using apply_edit_ok [OF priv_tpage [OF p] _ i fits] c priv_born [OF p] by (simp add: cell_size_def)
qed

lemma remove_slot_ok:
  assumes v: "valid V st" and p: "priv_page C (heap_of V st) lvl n cs" and i: "i < length cs" "1 < length cs"
  shows "\<exists>st'. update_page S st n (\<lambda>page. remove_slot_at C page (raw_header (hp_page (heap_of V st) n)) i) = Inr st'
    \<and> wrote C V st st' lvl n (remove_at i cs)"
proof (rule update_page_wrote [OF v])
  let ?p = "hp_page (heap_of V st) n"
  show "n \<in> hp_priv (heap_of V st)" using p by (simp add: priv_page_def)
  have t: "tpage C (hp_txn (heap_of V st)) lvl ?p cs" using priv_tpage [OF p] .
  hence s: "slotted ?p cs" "\<forall>c\<in>set cs. length c = cell_size C lvl" by (auto simp: tpage_def)
  obtain q where q: "remove_slot ?p (raw_header ?p) i (length (cs ! i)) = Inr q" "slotted q (remove_at i cs)"
      "tag_of q = tag_of ?p"
    using remove_slot_slotted [OF s(1) i(1)] i(2) by auto
  have "remove_at i cs \<noteq> []" using length_remove_at [OF i(1)] i(2) by auto
  moreover have "\<forall>c\<in>set (remove_at i cs). length c = cell_size C lvl"
    using s(2) set_remove_at_subset [of i cs] by auto
  ultimately show "\<exists>q. remove_slot_at C ?p (raw_header ?p) i = Inr q
      \<and> tpage C (hp_txn (heap_of V st)) lvl q (remove_at i cs) \<and> born_txn q = hp_txn (heap_of V st)"
    using q tpage_frame [OF t q(2,3)] codec_cell_ok [OF t i(1)] priv_born [OF p] by (simp add: remove_slot_at_def)
qed

lemma discard_ok:
  assumes v: "valid V st" and p: "priv_page C (heap_of V st) lvl n cs"
  shows "\<exists>st'. discard_private S st n = Inr st' \<and> valid V st'
    \<and> shrinks (heap_of V st) (heap_of V st') {} {n} \<and> room V st \<le> room V st'"
proof (rule discard [OF v])
  show "n \<in> hp_priv (heap_of V st)" using p by (simp add: priv_page_def)
  show "owned_by (hp_page (heap_of V st) n) (hp_txn (heap_of V st))"
    using tpage_owned [OF priv_tpage [OF p]] priv_born [OF p] by simp
qed

end

end
