(* ===== verification/TreeShape.thy ===== *)
theory TreeShape
  imports TreeSteps
begin

text \<open>
  Trees in a heap. \<open>ptree\<close> is the shape of a tree with its page numbers, \<open>repr\<close> says that
  the pages of a heap hold it, with every branch key equal to the least key below it, and a
  context (a list of branch frames, innermost first) is the path from the root to a subtree with
  everything beside it.
\<close>

section \<open>Trees\<close>

datatype ptree = PLeaf "32 word" "bytes list" | PNode "32 word" "ptree list"

fun root_page :: "ptree \<Rightarrow> 32 word" where
  "root_page (PLeaf n cs) = n"
| "root_page (PNode n ts) = n"

fun leaves :: "ptree \<Rightarrow> bytes list" where
  "leaves (PLeaf n cs) = cs"
| "leaves (PNode n ts) = concat (map leaves ts)"

fun pages :: "ptree \<Rightarrow> 32 word list" where
  "pages (PLeaf n cs) = [n]"
| "pages (PNode n ts) = n # concat (map pages ts)"

definition min_key :: "('k, 'l) cell_view \<Rightarrow> ptree \<Rightarrow> 'k" where
  "min_key X t = key_of X (hd (leaves t))"

definition child_cell :: "('k, 'l) cell_view \<Rightarrow> ptree \<Rightarrow> bytes" where
  "child_cell X t = bcell X (min_key X t) (root_page t)"

text \<open>The level field of a page at height \<open>l\<close>.\<close>

definition lvl_of :: "nat \<Rightarrow> 16 word" where
  "lvl_of l = of_nat l"

lemma lvl_of_0 [simp]: "lvl_of 0 = 0"
  by (simp add: lvl_of_def)

lemma lvl_of_Suc: "lvl_of l + 1 = lvl_of (Suc l)" "lvl_of (Suc l) - 1 = lvl_of l"
  by (simp_all add: lvl_of_def)

lemma unat_lvl_of: "l \<le> 32 \<Longrightarrow> unat (lvl_of l) = l"
  by (simp add: lvl_of_def unat_of_nat take_bit_eq_mod)

lemma lvl_of_nz: "Suc l \<le> 32 \<Longrightarrow> lvl_of (Suc l) \<noteq> 0"
  using unat_lvl_of [of "Suc l"] by (metis Zero_not_Suc unat_0)

lemma lvl_of_le: "l \<le> 32 \<Longrightarrow> lvl_of l \<le> MAX_TREE_LEVEL \<longleftrightarrow> l \<le> MAX_PATH"
  by (simp add: word_le_nat_alt unat_lvl_of MAX_PATH_def)

fun repr :: "('k :: linorder, 'l) codec \<Rightarrow> ('k, 'l) cell_view \<Rightarrow> heap \<Rightarrow> nat \<Rightarrow> ptree \<Rightarrow> bool" where
  "repr C X h 0 (PLeaf n cs) \<longleftrightarrow> live_page C h 0 n cs \<and> list_all (leaf_ok X) cs"
| "repr C X h (Suc l) (PNode n ts) \<longleftrightarrow> Suc l \<le> MAX_PATH \<and> live_page C h (lvl_of (Suc l)) n (map (child_cell X) ts)
    \<and> list_all (repr C X h l) ts"
| "repr C X h 0 (PNode n ts) \<longleftrightarrow> False"
| "repr C X h (Suc l) (PLeaf n cs) \<longleftrightarrow> False"

definition ordered :: "('k :: linorder, 'l) cell_view \<Rightarrow> bytes list \<Rightarrow> bool" where
  "ordered X cs \<longleftrightarrow> sorted_wrt (<) (map (key_of X) cs)"

lemma root_in_pages [simp]: "root_page t \<in> set (pages t)"
  by (cases t) auto

lemma repr_level: "repr C X h l t \<Longrightarrow> l \<le> MAX_PATH"
  by (cases t; cases l) (auto simp: MAX_PATH_31)

lemma repr_leaves: "repr C X h l t \<Longrightarrow> leaves t \<noteq> []"
proof (induction l arbitrary: t)
  case 0
  thus ?case by (cases t) (auto simp: live_page_def tpage_def)
next
  case (Suc l)
  then obtain n ts where t: "t = PNode n ts" by (cases t) auto
  hence "ts \<noteq> []" "\<forall>t\<in>set ts. leaves t \<noteq> []"
    using Suc by (auto simp: live_page_def tpage_def list_all_iff)
  thus ?case using t by (cases ts) auto
qed

lemma repr_keeps:
  "repr C X h l t \<Longrightarrow> keeps h h' P \<Longrightarrow> set (pages t) \<subseteq> P \<Longrightarrow> repr C X h' l t"
proof (induction l arbitrary: t)
  case 0
  thus ?case by (cases t) (auto intro: live_page_keeps)
next
  case (Suc l)
  then obtain n ts where t: "t = PNode n ts" by (cases t) auto
  have "list_all (repr C X h' l) ts"
    using Suc t by (auto simp: list_all_iff)
  thus ?case using Suc.prems t by (auto intro: live_page_keeps [OF _ Suc.prems(2)])
qed

lemma repr_own: "repr C X h l t \<Longrightarrow> set (pages t) \<subseteq> hp_own h"
proof (induction l arbitrary: t)
  case 0
  thus ?case by (cases t) (auto simp: live_page_def)
next
  case (Suc l)
  then obtain n ts where t: "t = PNode n ts" by (cases t) auto
  show ?case using Suc t by (auto simp: list_all_iff live_page_def)
qed

lemma repr_leaf_ok: "repr C X h l t \<Longrightarrow> c \<in> set (leaves t) \<Longrightarrow> leaf_ok X c"
proof (induction l arbitrary: t)
  case 0
  thus ?case by (cases t) (auto simp: list_all_iff)
next
  case (Suc l)
  then obtain n ts where t: "t = PNode n ts" by (cases t) auto
  show ?case using Suc t by (auto simp: list_all_iff)
qed

section \<open>Contexts\<close>

type_synonym tctx = "(32 word \<times> ptree list \<times> ptree list) list"

fun plug :: "ptree \<Rightarrow> tctx \<Rightarrow> ptree" where
  "plug t [] = t"
| "plug t ((n, ls, rs) # ctx) = plug (PNode n (ls @ t # rs)) ctx"

fun lctx :: "tctx \<Rightarrow> bytes list" where
  "lctx [] = []"
| "lctx ((n, ls, rs) # ctx) = lctx ctx @ concat (map leaves ls)"

fun rctx :: "tctx \<Rightarrow> bytes list" where
  "rctx [] = []"
| "rctx ((n, ls, rs) # ctx) = concat (map leaves rs) @ rctx ctx"

fun cpages :: "tctx \<Rightarrow> 32 word list" where
  "cpages [] = []"
| "cpages ((n, ls, rs) # ctx) = n # concat (map pages ls) @ concat (map pages rs) @ cpages ctx"

fun croot :: "32 word \<Rightarrow> tctx \<Rightarrow> 32 word" where
  "croot c [] = c"
| "croot c ((n, ls, rs) # ctx) = croot n ctx"

definition cframe :: "32 word \<times> ptree list \<times> ptree list \<Rightarrow> frame" where
  "cframe f = (case f of (n, ls, rs) \<Rightarrow>
    \<lparr> fr_page = n, fr_index = length ls, fr_item_count = length ls + Suc (length rs) \<rparr>)"

definition path_of :: "tctx \<Rightarrow> path" where
  "path_of ctx = rev (map cframe ctx)"

text \<open>The pages of the frames hold the cells of their children; \<open>k\<close> and \<open>c\<close> are the key and the
  child in the cell of the hole. Every frame is private.\<close>

fun ctx_ok :: "('k :: linorder, 'l) codec \<Rightarrow> ('k, 'l) cell_view \<Rightarrow> heap \<Rightarrow> nat \<Rightarrow> 'k \<Rightarrow> 32 word \<Rightarrow> tctx \<Rightarrow> bool" where
  "ctx_ok C X h l k c [] \<longleftrightarrow> True"
| "ctx_ok C X h l k c ((n, ls, rs) # ctx) \<longleftrightarrow> Suc l \<le> MAX_PATH
    \<and> priv_page C h (lvl_of (Suc l)) n (map (child_cell X) ls @ bcell X k c # map (child_cell X) rs)
    \<and> list_all (repr C X h l) (ls @ rs)
    \<and> ctx_ok C X h (Suc l) (if ls = [] then k else min_key X (hd ls)) n ctx"

lemma leaves_plug: "leaves (plug t ctx) = lctx ctx @ leaves t @ rctx ctx"
  by (induction t ctx rule: plug.induct) auto

lemma mset_pages_plug: "mset (pages (plug t ctx)) = mset (pages t) + mset (cpages ctx)"
  by (induction t ctx rule: plug.induct) auto

lemma distinct_plug: "distinct (pages (plug t ctx)) \<longleftrightarrow> distinct (pages t @ cpages ctx)"
  using mset_pages_plug [of t ctx] by (metis mset_append mset_eq_imp_distinct_iff)

lemma set_pages_plug: "set (pages (plug t ctx)) = set (pages t) \<union> set (cpages ctx)"
  using mset_pages_plug [of t ctx] by (metis mset_append set_append set_mset_mset)

lemma root_plug: "root_page (plug t ctx) = croot (root_page t) ctx"
  by (induction t ctx rule: plug.induct) auto

lemma ctx_ok_keeps:
  "ctx_ok C X h l k c ctx \<Longrightarrow> keeps h h' P \<Longrightarrow> set (cpages ctx) \<subseteq> P \<Longrightarrow> ctx_ok C X h' l k c ctx"
proof (induction ctx arbitrary: l k c)
  case (Cons f ctx)
  obtain n ls rs where f: "f = (n, ls, rs)" by (cases f)
  have "list_all (repr C X h' l) (ls @ rs)"
    using Cons.prems f by (auto simp: list_all_iff intro!: repr_keeps [OF _ Cons.prems(2)])
  moreover have "ctx_ok C X h' (Suc l) (if ls = [] then k else min_key X (hd ls)) n ctx"
    using Cons f by auto
  ultimately show ?case
    using Cons.prems f by (auto intro: priv_page_keeps [OF _ Cons.prems(2)])
qed simp

lemma min_key_node:
  assumes "\<forall>t\<in>set (t # ts). leaves t \<noteq> []"
  shows "min_key X (PNode n (t # ts)) = min_key X t"
  using assms by (auto simp: min_key_def)

lemma min_key_node_hd: "ts \<noteq> [] \<Longrightarrow> leaves (hd ts) \<noteq> [] \<Longrightarrow> min_key X (PNode n ts) = min_key X (hd ts)"
  by (cases ts) (auto simp: min_key_def)

lemma repr_plug:
  "ctx_ok C X h l (min_key X t) (root_page t) ctx \<Longrightarrow> repr C X h l t \<Longrightarrow> repr C X h (l + length ctx) (plug t ctx)"
proof (induction ctx arbitrary: l t)
  case (Cons f ctx)
  obtain n ls rs where f: "f = (n, ls, rs)" by (cases f)
  let ?t = "PNode n (ls @ t # rs)"
  have r: "repr C X h (Suc l) ?t"
    using Cons.prems f by (auto simp: priv_page_def child_cell_def)
  have "min_key X ?t = (if ls = [] then min_key X t else min_key X (hd ls))"
    using Cons.prems f by (subst min_key_node_hd) (auto simp: list_all_iff hd_append dest: repr_leaves)
  thus ?case using Cons.IH [OF _ r] Cons.prems f by simp
qed simp

lemma ctx_ok_own: "ctx_ok C X h l k c ctx \<Longrightarrow> set (cpages ctx) \<subseteq> hp_own h"
proof (induction ctx arbitrary: l k c)
  case (Cons f ctx)
  obtain n ls rs where f: "f = (n, ls, rs)" by (cases f)
  thus ?case using Cons.prems Cons.IH [of "Suc l"] repr_own [of C X h l]
    by (fastforce simp: priv_page_def live_page_def list_all_iff)
qed simp

lemma croot_cases: "ctx = [] \<and> croot c ctx = c \<or> ctx \<noteq> [] \<and> croot c ctx \<in> fst ` set ctx"
  by (induction c ctx rule: croot.induct) auto

end
