(* ===== verification/TreePath.thy ===== *)
theory TreePath
  imports TreeShape
begin

text \<open>
  The private path (\<open>private_path_select\<close> of \<open>fixed_tree.rs\<close>): starting at the root, every
  page on the way to the leaf of a key is copied unless it is private, the copy replaces it in
  its parent, and the committed pages are collected for retirement. The lemmas show that the
  path ends in the leaf where the key belongs, that the tree keeps its contents, and that only
  the pages of the tree change.
\<close>

section \<open>Searching sorted keys\<close>

lemma search_False:
  assumes s: "sorted_wrt (<) ks" and ne: "ks \<noteq> []" and i: "i = fst (search_result ks key False)"
  shows "i < length ks" "i = 0 \<or> ks ! i \<le> key" "\<And>j. i < j \<Longrightarrow> j < length ks \<Longrightarrow> key < ks ! j"
proof -
  have lt: "ks ! a < ks ! b" if "a < b" "b < length ks" for a b using s that by (simp add: sorted_wrt_iff_nth_less)
  have ge: "key \<le> ks ! j" if "lb ks key \<le> j" "j < length ks" for j using lb_ge [OF s that] .
  have nh: "key < ks ! j" if "\<not> hit ks key" "lb ks key \<le> j" "j < length ks" for j
  proof (cases "j = lb ks key")
    case True
    thus ?thesis using that ge [of j] by (auto simp: hit_def)
  next
    case False
    hence "ks ! lb ks key < ks ! j" using lt that by simp
    thus ?thesis using ge [of "lb ks key"] that by simp
  qed
  show "i < length ks"
    using i ne lb_le [of ks key] by (auto simp: search_result_def hit_def split: if_splits)
  show "i = 0 \<or> ks ! i \<le> key"
    using i lb_less [of "lb ks key - 1" ks key] by (auto simp: search_result_def hit_def split: if_splits)
  show "key < ks ! j" if "i < j" "j < length ks" for j
  proof (cases "hit ks key")
    case True
    thus ?thesis using i that lt [of "lb ks key" j] by (simp add: search_result_def hit_def)
  next
    case False
    have "lb ks key \<le> j" using that(1) i False by (auto simp: search_result_def split: if_splits)
    thus ?thesis using nh [OF False] that by simp
  qed
qed

lemma ordered_append:
  "ordered X (xs @ ys) \<longleftrightarrow> ordered X xs \<and> ordered X ys \<and> (\<forall>x\<in>set xs. \<forall>y\<in>set ys. key_of X x < key_of X y)"
  by (auto simp: ordered_def sorted_wrt_append)

lemma ordered_hd: "ordered X cs \<Longrightarrow> c \<in> set cs \<Longrightarrow> key_of X (hd cs) \<le> key_of X c"
  by (cases cs) (auto simp: ordered_def)

lemma ordered_children:
  assumes "ordered X (concat (map leaves ts))" "\<forall>t\<in>set ts. leaves t \<noteq> []"
  shows "sorted_wrt (<) (map (min_key X) ts)"
  using assms
proof (induction ts)
  case (Cons t ts)
  have "min_key X t < min_key X u" if "u \<in> set ts" for u
  proof -
    have "hd (leaves t) \<in> set (leaves t)" "hd (leaves u) \<in> set (concat (map leaves ts))"
      using Cons.prems(2) that by (auto intro!: bexI [of _ u])
    thus ?thesis using Cons.prems(1) by (auto simp: ordered_append min_key_def)
  qed
  thus ?case using Cons by (simp add: ordered_append)
qed simp

section \<open>Where a key belongs\<close>

definition around :: "('k :: linorder, 'l) cell_view \<Rightarrow> 'k \<Rightarrow> tctx \<Rightarrow> ptree \<Rightarrow> bool" where
  "around X key ctx t \<longleftrightarrow> (lctx ctx = [] \<or> min_key X t \<le> key) \<and> (\<forall>x\<in>set (rctx ctx). key < key_of X x)"

lemma around_child:
  assumes a: "around X key ctx (PNode n ts)" and o: "ordered X (concat (map leaves ts))"
    and ne: "ts \<noteq> []" "\<forall>t\<in>set ts. leaves t \<noteq> []" and i: "i = fst (search_result (map (min_key X) ts) key False)"
  shows "i < length ts" "around X key ((m, take i ts, drop (Suc i) ts) # ctx) (ts ! i)"
proof -
  note s = search_False [OF ordered_children [OF o ne(2)] _ i]
  show l: "i < length ts" using s(1) ne by simp
  have k: "i = 0 \<or> min_key X (ts ! i) \<le> key" using s(2) ne l by simp
  have "lctx ctx @ concat (map leaves (take i ts)) = [] \<or> min_key X (ts ! i) \<le> key"
  proof (cases "i = 0")
    case True
    have "min_key X (ts ! 0) = min_key X (PNode n ts)"
      using ne by (subst min_key_node_hd) (auto simp: hd_conv_nth)
    thus ?thesis using a True by (simp add: around_def)
  qed (use k in auto)
  moreover have "key < key_of X x" if x: "x \<in> set (concat (map leaves (drop (Suc i) ts)))" for x
  proof -
    obtain u where u: "u \<in> set (drop (Suc i) ts)" "x \<in> set (leaves u)" using x by auto
    then obtain j where "j < length ts - Suc i" "u = ts ! (Suc i + j)"
      by (auto simp: in_set_conv_nth [of u])
    hence j: "Suc i + j < length ts" "u = ts ! (Suc i + j)" by simp_all
    have "key < min_key X u" using s(3) [of "Suc i + j"] ne j by simp
    moreover have "ordered X (leaves u)"
      using o j by (metis (no_types, lifting) concat.simps(2) concat_append id_take_nth_drop list.simps(9) map_append ordered_append)
    ultimately show ?thesis using ordered_hd [OF _ u(2)] by (fastforce simp: min_key_def)
  qed
  ultimately show "around X key ((m, take i ts, drop (Suc i) ts) # ctx) (ts ! i)"
    using a by (auto simp: around_def)
qed

section \<open>Copying along the path\<close>

text \<open>A private leaf in its context.\<close>

definition leaf_at ::
  "('k :: linorder, 'l) codec \<Rightarrow> ('k, 'l) cell_view \<Rightarrow> heap \<Rightarrow> tctx \<Rightarrow> 32 word \<Rightarrow> bytes list \<Rightarrow> bool" where
  "leaf_at C X h ctx n cs \<longleftrightarrow> priv_page C h 0 n cs \<and> list_all (leaf_ok X) cs
    \<and> ctx_ok C X h 0 (key_of X (hd cs)) n ctx \<and> distinct (n # cpages ctx)"

fun parent_of :: "tctx \<Rightarrow> (32 word \<times> nat) option" where
  "parent_of [] = None"
| "parent_of ((n, ls, rs) # ctx) = Some (n, length ls)"

text \<open>The end of a path of a key in a tree with pages \<open>P\<close> and leaf cells \<open>xs\<close>: \<open>N\<close> are the new
  pages, \<open>rt\<close> the committed pages they replace, \<open>r\<close> bounds the allocations.\<close>

definition path_end ::
  "('k :: linorder, 'l) codec \<Rightarrow> ('k, 'l) cell_view \<Rightarrow> 's store_view \<Rightarrow> 's \<Rightarrow> 32 word set \<Rightarrow> bytes list \<Rightarrow> 'k \<Rightarrow> nat
    \<Rightarrow> 's \<Rightarrow> tctx \<Rightarrow> 32 word \<Rightarrow> bytes list \<Rightarrow> 32 word set \<Rightarrow> 32 word list \<Rightarrow> bool" where
  "path_end C X V st P xs key r st' ctx n cs N rt \<longleftrightarrow> valid V st' \<and> leaf_at C X (heap_of V st') ctx n cs
    \<and> lctx ctx @ cs @ rctx ctx = xs \<and> around X key ctx (PLeaf n cs) \<and> grows (heap_of V st) (heap_of V st') P N
    \<and> set (n # cpages ctx) = (P - set rt) \<union> N \<and> distinct rt \<and> length rt \<le> r
    \<and> set rt \<subseteq> P \<inter> hp_own (heap_of V st) - hp_priv (heap_of V st) \<and> room V st \<le> room V st' + r"

lemma path_end_trans:
  assumes a: "path_end C X V st1 P1 xs key r st2 ctx n cs N2 rt2"
    and g: "grows (heap_of V st) (heap_of V st1) P N1" and p: "P1 = (P - set rt1) \<union> N1"
    and r: "distinct rt1" "set rt1 \<subseteq> P \<inter> hp_own (heap_of V st) - hp_priv (heap_of V st)" "room V st \<le> Suc (room V st1)"
      "length rt1 \<le> 1"
  shows "path_end C X V st P xs key (Suc r) st2 ctx n cs (N1 \<union> N2) (rt1 @ rt2)"
proof -
  have g2: "grows (heap_of V st1) (heap_of V st2) P1 N2" and q: "set (n # cpages ctx) = (P1 - set rt2) \<union> N2"
    and r2: "distinct rt2" "set rt2 \<subseteq> P1 \<inter> hp_own (heap_of V st1) - hp_priv (heap_of V st1)"
    using a by (simp_all add: path_end_def)
  have g3: "grows (heap_of V st) (heap_of V st2) P (N1 \<union> N2)"
    using grows_trans [OF g g2, of P "N1 \<union> N2"] p by auto
  have "N1 \<inter> set rt2 = {}" "set rt2 \<subseteq> P - set rt1" using r2(2) p g by (auto simp: grows_def)
  moreover have "N2 \<inter> set rt1 = {}" using g g2 r(2) by (auto simp: grows_def)
  ultimately have "set (n # cpages ctx) = (P - set (rt1 @ rt2)) \<union> (N1 \<union> N2)" "distinct (rt1 @ rt2)"
    unfolding q p using r(1) r2(1) by auto
  moreover have "set (rt1 @ rt2) \<subseteq> P \<inter> hp_own (heap_of V st) - hp_priv (heap_of V st)"
    using r(2) r2(2) p g by (auto simp: grows_def)
  ultimately show ?thesis
    using a g3 r(3,4) unfolding path_end_def by simp
qed

lemma frame_pages: "fst ` set ctx \<subseteq> set (cpages ctx)"
  by (induction ctx rule: cpages.induct) auto

context codec_laws
begin

lemma branch_keys:
  assumes "lvl \<noteq> 0"
  shows "readable C lvl (map (child_cell X) ts)" "map (cell_key C lvl) (map (child_cell X) ts) = map (min_key X) ts"
  using branch_key [OF assms] by (auto simp: readable_def cell_key_def child_cell_def)

lemma leaf_keys:
  assumes "list_all (leaf_ok X) cs"
  shows "readable C 0 cs" "map (cell_key C 0) cs = map (key_of X) cs"
  using leaf_key assms by (auto simp: readable_def cell_key_def list_all_iff)

lemma repr_nodeD:
  assumes "repr C X h (Suc l) (PNode n ts)"
  shows "live_page C h (lvl_of (Suc l)) n (map (child_cell X) ts)" "ts \<noteq> []" "\<forall>t\<in>set ts. repr C X h l t"
    "\<forall>t\<in>set ts. leaves t \<noteq> []" "lvl_of (Suc l) \<noteq> 0"
  using assms repr_level [OF assms] lvl_of_nz [of l]
  by (auto simp: live_page_def tpage_def list_all_iff MAX_PATH_31 dest: repr_leaves)

end

context tree_store
begin

lemma inspect_leaf_ok:
  assumes v: "valid V st" and r: "repr C X (heap_of V st) 0 (PLeaf n cs)" and e: "e = None \<or> e = Some 0"
    and f: "select (hp_page (heap_of V st) n) (raw_header (hp_page (heap_of V st) n)) path = Inr a"
  shows "inspect_tree C S st n e key path select =
    Inr (InspectedLeaf (raw_header (hp_page (heap_of V st) n)) (n \<in> hp_priv (heap_of V st)) a)"
proof -
  have l: "live_page C (heap_of V st) 0 n cs" using r by simp
  have "born_txn (hp_page (heap_of V st) n) = target_txn S st \<longleftrightarrow> n \<in> hp_priv (heap_of V st)"
    using l txn(1) [OF v] by (simp add: live_page_def)
  thus ?thesis
    using live_parse [OF v l e] live_header [OF l] f
    by (simp add: inspect_tree_def inspect_own [OF v live_page_own [OF l]])
qed

lemma inspect_branch_ok:
  assumes v: "valid V st" and r: "repr C X (heap_of V st) (Suc l) (PNode n ts)"
    and o: "ordered X (concat (map leaves ts))" and e: "e = None \<or> e = Some (lvl_of (Suc l))"
    and i: "i = fst (search_result (map (min_key X) ts) key False)"
  shows "inspect_tree C S st n e key path select =
    Inr (InspectedBranch (raw_header (hp_page (heap_of V st) n)) (n \<in> hp_priv (heap_of V st)) i (root_page (ts ! i)))"
proof -
  note d = repr_nodeD [OF r]
  let ?p = "hp_page (heap_of V st) n" and ?cs = "map (child_cell X) ts"
  have s: "sorted_wrt (<) (map (cell_key C (lvl_of (Suc l))) ?cs)"
    unfolding branch_keys(2) [OF d(5)] by (rule ordered_children [OF o d(4)])
  have il: "i < length ts" using search_False(1) [OF ordered_children [OF o d(4)] _ i] d(2) by simp
  hence "root_page (ts ! i) \<in> hp_own (heap_of V st)"
    using d(3) repr_own root_in_pages by (meson nth_mem subset_iff)
  hence "branch_child C ?p (raw_header ?p) i (page_limit S st) = Inr (root_page (ts ! i))"
    using branch_child_ok [OF live_tpage [OF d(1)] d(5), of i] il own_bounds [OF v]
    by (simp add: child_cell_def)
  moreover have "lower_bound C ?p (raw_header ?p) key False = Inr (search_result (map (min_key X) ts) key False)"
    using lower_bound_ok [OF live_tpage [OF d(1)] branch_keys(1) [OF d(5)] s] unfolding branch_keys(2) [OF d(5)] .
  moreover have "born_txn ?p = target_txn S st \<longleftrightarrow> n \<in> hp_priv (heap_of V st)"
    using d(1) txn(1) [OF v] by (simp add: live_page_def)
  ultimately show ?thesis
    using live_parse [OF v d(1) e] live_header [OF d(1)] d(5) i
    by (cases "search_result (map (min_key X) ts) key False")
      (simp add: inspect_tree_def inspect_own [OF v live_page_own [OF d(1)]])
qed

lemma activate_page_ok:
  assumes v: "valid V st" and l: "live_page C (heap_of V st) lvl n cs" and c: "ctx_ok C X (heap_of V st) l k n ctx"
    and n: "n \<notin> set (cpages ctx)" "distinct (cpages ctx)" and r: "length ret \<le> MAX_PATH"
    and e: "room V st = 0 \<Longrightarrow> E"
    and q: "\<And>st' N rt m. valid V st' \<Longrightarrow> priv_page C (heap_of V st') lvl m cs \<Longrightarrow>
      raw_header (hp_page (heap_of V st') m) = raw_header (hp_page (heap_of V st) n) \<Longrightarrow>
      ctx_ok C X (heap_of V st') l k m ctx \<Longrightarrow> grows (heap_of V st) (heap_of V st') (set (cpages ctx)) N \<Longrightarrow>
      m = n \<and> N = {} \<and> rt = [] \<or> N = {m} \<and> rt = [n] \<and> n \<notin> hp_priv (heap_of V st) \<Longrightarrow>
      room V st \<le> Suc (room V st') \<Longrightarrow> keeps (heap_of V st) (heap_of V st') (- (fst ` set ctx)) \<Longrightarrow>
      Q (st', croot m ctx, ret @ rt, m)"
  shows "rwp (activate_page C S st (croot n ctx) ret (parent_of ctx) n (n \<in> hp_priv (heap_of V st))) Q E"
proof (cases "n \<in> hp_priv (heap_of V st)")
  case True
  hence "priv_page C (heap_of V st) lvl n cs" using l by (simp add: priv_page_def)
  thus ?thesis using True q [OF v _ refl c, of "{}" "[]"] v by (simp add: activate_page_def keeps_def)
next
  case False
  have "rwp (touch S st n ret) (\<lambda>(st1, ret, m).
      rwp (case parent_of ctx of
         Some (parent_page, parent_index) \<Rightarrow>
           rbind (replace_branch_child C S st1 parent_page parent_index m) (\<lambda>st2.
           Inr (st2, croot n ctx, ret, m))
       | None \<Rightarrow> Inr (st1, m, ret, m)) Q E) E"
  proof (rule touch_ok [OF v l r e])
    fix st1 m
    assume a: "added C V st st1 lvl m cs"
      and h: "raw_header (hp_page (heap_of V st1) m) = raw_header (hp_page (heap_of V st) n)"
    hence v1: "valid V st1" and g: "grows (heap_of V st) (heap_of V st1) {} {m}" and m: "priv_page C (heap_of V st1) lvl m cs"
      and rm: "room V st \<le> Suc (room V st1)" by (auto simp: added_def)
    have fresh: "m \<notin> hp_own (heap_of V st)" using g by (auto simp: grows_def)
    hence mc: "m \<notin> set (cpages ctx)" using ctx_ok_own [OF c] by auto
    have k1: "keeps (heap_of V st) (heap_of V st1) UNIV" using grows_keeps [OF g] by simp
    show "case (st1, ret @ [n], m) of (st1, ret, m) \<Rightarrow>
      rwp (case parent_of ctx of
         Some (parent_page, parent_index) \<Rightarrow>
           rbind (replace_branch_child C S st1 parent_page parent_index m) (\<lambda>st2.
           Inr (st2, croot n ctx, ret, m))
       | None \<Rightarrow> Inr (st1, m, ret, m)) Q E"
    proof (cases ctx)
      case Nil
      thus ?thesis
        using q [OF v1 m h, of "{m}" "[n]"] grows_mono [OF g] rm False keeps_mono [OF k1] by simp
    next
      case (Cons f ctx1)
      obtain p ls rs where f: "f = (p, ls, rs)" by (cases f)
      let ?cs = "map (child_cell X) ls @ bcell X k n # map (child_cell X) rs"
      have c1: "ctx_ok C X (heap_of V st1) l k n ctx" using ctx_ok_keeps [OF c k1] by simp
      hence p: "priv_page C (heap_of V st1) (lvl_of (Suc l)) p ?cs" and lev: "Suc l \<le> MAX_PATH"
        using Cons f by auto
      have pm: "m \<noteq> p" "p \<in> set (cpages ctx)" using mc Cons f by auto
      have no: "n \<in> hp_own (heap_of V st1)" using grows_own [OF g live_page_own [OF l]] .
      obtain st2 where w: "replace_branch_child C S st1 p (length ls) m = Inr st2"
          "wrote C V st1 st2 (lvl_of (Suc l)) p (?cs[length ls := bcell X k m])"
        using replace_branch_child_ok [OF v1 p lvl_of_nz _ _ no, of "length ls" k m] lev by (auto simp: MAX_PATH_31 nth_append)
      hence v2: "valid V st2" and g2: "grows (heap_of V st1) (heap_of V st2) {p} {}"
        and p2: "priv_page C (heap_of V st2) (lvl_of (Suc l)) p (map (child_cell X) ls @ bcell X k m # map (child_cell X) rs)"
        and r2: "room V st2 = room V st1" by (auto simp: wrote_def list_update_append)
      have k2: "keeps (heap_of V st1) (heap_of V st2) (- {p})" using grows_keeps [OF g2] by simp
      have m2: "priv_page C (heap_of V st2) lvl m cs" using priv_page_keeps [OF m k2] pm by simp
      have h2: "raw_header (hp_page (heap_of V st2) m) = raw_header (hp_page (heap_of V st) n)"
        using h k2 pm m by (auto simp: keeps_def priv_page_def live_page_def)
      have "list_all (repr C X (heap_of V st2) l) (ls @ rs)"
        using c1 Cons f n(2) by (auto simp: list_all_iff intro!: repr_keeps [OF _ k2])
      moreover have "ctx_ok C X (heap_of V st2) (Suc l) (if ls = [] then k else min_key X (hd ls)) p ctx1"
        using c1 Cons f n(2) by (auto intro!: ctx_ok_keeps [OF _ k2])
      ultimately have c2: "ctx_ok C X (heap_of V st2) l k m ctx" using p2 lev Cons f by simp
      have g3: "grows (heap_of V st) (heap_of V st2) (set (cpages ctx)) {m}"
        using grows_trans [OF g g2, of "set (cpages ctx)" "{m}"] pm by simp
      have k3: "keeps (heap_of V st) (heap_of V st2) (- (fst ` set ctx))"
        using keeps_trans [OF keeps_mono [OF k1] keeps_mono [OF k2], of "- (fst ` set ctx)"] Cons f by auto
      show ?thesis using q [OF v2 m2 h2 c2 g3 _ _ k3, of "[n]"] w(1) False rm r2 by (simp add: Cons f)
    qed
  qed
  thus ?thesis
    using False by (simp add: activate_page_def rwp_rbind split_def)
qed

lemma path_push_ok:
  "length ctx < MAX_PATH \<Longrightarrow> path_push (path_of ctx) (cframe f) = Inr (path_of (f # ctx))"
  by (simp add: path_push_def path_of_def)

lemma private_path_loop_ok:
  assumes sel: "\<And>h n cs path. live_page C h 0 n cs \<Longrightarrow> list_all (leaf_ok X) cs \<Longrightarrow> ordered X cs \<Longrightarrow>
      select (hp_page h n) (raw_header (hp_page h n)) path = Inr (f cs)"
  shows "valid V st \<Longrightarrow> repr C X (heap_of V st) l t \<Longrightarrow> ctx_ok C X (heap_of V st) l (min_key X t) (root_page t) ctx \<Longrightarrow>
    distinct (pages t @ cpages ctx) \<Longrightarrow> ordered X (leaves (plug t ctx)) \<Longrightarrow> around X key ctx t \<Longrightarrow>
    l + length ctx \<le> MAX_PATH \<Longrightarrow> length ret + l \<le> MAX_PATH \<Longrightarrow> e = None \<or> e = Some (lvl_of l) \<Longrightarrow>
    (\<And>st' ctx' n cs N rt. path_end C X V st (set (pages (plug t ctx))) (leaves (plug t ctx)) key (Suc l) st' ctx' n cs N rt \<Longrightarrow>
      length ctx' = l + length ctx \<Longrightarrow>
      Q (st', croot n ctx', ret @ rt, \<lparr> pl_path = path_of ctx', pl_page = n,
        pl_header = raw_header (hp_page (heap_of V st') n), pl_selection = f cs \<rparr>)) \<Longrightarrow>
    (room V st < Suc l \<Longrightarrow> E) \<Longrightarrow>
    rwp (private_path_loop C S key select st (croot (root_page t) ctx) ret (path_of ctx) (root_page t) e (parent_of ctx)) Q E"
proof (induction l arbitrary: st t ctx ret e)
  case 0
  then obtain n cs where t: "t = PLeaf n cs" by (cases t) auto
  have l: "live_page C (heap_of V st) 0 n cs" "list_all (leaf_ok X) cs" using 0 t by auto
  have "ordered X cs" using 0(5) t by (simp add: leaves_plug ordered_append)
  hence i: "inspect_tree C S st n e key (path_of ctx) select =
      Inr (InspectedLeaf (raw_header (hp_page (heap_of V st) n)) (n \<in> hp_priv (heap_of V st)) (f cs))"
    using inspect_leaf_ok [OF 0(1), of n cs e select "path_of ctx" "f cs" key] 0 t sel [OF l] by simp
  have c: "ctx_ok C X (heap_of V st) 0 (key_of X (hd cs)) n ctx" using 0(3) t by (simp add: min_key_def)
  have "rwp (activate_page C S st (croot n ctx) ret (parent_of ctx) n (n \<in> hp_priv (heap_of V st)))
     (\<lambda>(st, root, retired, active_page). Q (st, root, retired,
         \<lparr> pl_path = path_of ctx, pl_page = active_page, pl_header = raw_header (hp_page (heap_of V st) active_page),
           pl_selection = f cs \<rparr>) \<and> raw_header (hp_page (heap_of V st) active_page) = raw_header (hp_page (heap_of V s0) n)) E"
    if "s0 = st" for s0
    unfolding that
  proof (rule activate_page_ok [OF 0(1) l(1) c])
    show "n \<notin> set (cpages ctx)" "distinct (cpages ctx)" "length ret \<le> MAX_PATH" using 0 t by auto
    show "E" if "room V st = 0" using 0(11) that by simp
    fix st' N rt m
    assume v: "valid V st'" and p: "priv_page C (heap_of V st') 0 m cs"
      and h: "raw_header (hp_page (heap_of V st') m) = raw_header (hp_page (heap_of V st) n)"
      and c': "ctx_ok C X (heap_of V st') 0 (key_of X (hd cs)) m ctx"
      and g: "grows (heap_of V st) (heap_of V st') (set (cpages ctx)) N"
      and cs: "m = n \<and> N = {} \<and> rt = [] \<or> N = {m} \<and> rt = [n] \<and> n \<notin> hp_priv (heap_of V st)"
      and r: "room V st \<le> Suc (room V st')"
    have P: "set (pages (plug t ctx)) = insert n (set (cpages ctx))" using t by (simp add: set_pages_plug)
    have fresh: "m \<notin> set (cpages ctx)"
      using cs g ctx_ok_own [OF c] 0(4) t by (auto simp: grows_def)
    have d: "n \<notin> set (cpages ctx)" "distinct (cpages ctx)" using 0 t by auto
    have la: "leaf_at C X (heap_of V st') ctx m cs" using p l(2) c' fresh d by (simp add: leaf_at_def)
    have ar: "around X key ctx (PLeaf m cs)" using 0(6) t by (simp add: around_def min_key_def)
    have gP: "grows (heap_of V st) (heap_of V st') (set (pages (plug t ctx))) N" using grows_mono [OF g] P by auto
    have no: "n \<in> hp_own (heap_of V st)" using l(1) by (simp add: live_page_def)
    have "set (m # cpages ctx) = (insert n (set (cpages ctx)) - set rt) \<union> N" "distinct rt" "length rt \<le> 1"
        "set rt \<subseteq> insert n (set (cpages ctx)) \<inter> hp_own (heap_of V st) - hp_priv (heap_of V st)"
      using cs d(1) no by auto
    hence pe: "path_end C X V st (set (pages (plug t ctx))) (leaves (plug t ctx)) key (Suc 0) st' ctx m cs N rt"
      using v la ar gP r unfolding path_end_def P by (simp add: leaves_plug t)
    show "case (st', croot m ctx, ret @ rt, m) of (sta, root, retired, active_page) \<Rightarrow> Q (sta, root, retired,
         \<lparr> pl_path = path_of ctx, pl_page = active_page, pl_header = raw_header (hp_page (heap_of V sta) active_page),
           pl_selection = f cs \<rparr>) \<and> raw_header (hp_page (heap_of V sta) active_page) = raw_header (hp_page (heap_of V st) n)"
      using 0(10) [OF pe] h by simp
  qed
  thus ?case
    unfolding private_path_loop.simps [of C S key select st] using t i
    by (cases "activate_page C S st (croot n ctx) ret (parent_of ctx) n (n \<in> hp_priv (heap_of V st))") auto
next
  case (Suc l)
  then obtain n ts where t: "t = PNode n ts" by (cases t) auto
  note d = repr_nodeD [OF Suc.prems(2) [unfolded t]]
  define i where "i = fst (search_result (map (min_key X) ts) key False)"
  have o: "ordered X (concat (map leaves ts))" using Suc.prems(5) t by (simp add: leaves_plug ordered_append)
  note ins = inspect_branch_ok [OF Suc.prems(1) Suc.prems(2) [unfolded t] o Suc.prems(9) i_def, of "path_of ctx" select]
  note ar = around_child [OF Suc.prems(6) [unfolded t] o d(2,4) i_def]
  let ?h = "heap_of V st" and ?t1 = "ts ! i"
  have ts: "ts = take i ts @ ?t1 # drop (Suc i) ts" using id_take_nth_drop [OF ar(1)] .
  have lm: "length ctx < MAX_PATH" using Suc.prems(7) by simp
  have "rwp (activate_page C S st (croot n ctx) ret (parent_of ctx) n (n \<in> hp_priv ?h))
     (\<lambda>(st1, root, retired, active_page).
        rwp (private_path_loop C S key select st1 root retired
          (path_of ((active_page, take i ts, drop (Suc i) ts) # ctx)) (root_page ?t1) (Some (lvl_of l)) (Some (active_page, i))) Q E) E"
  proof (rule activate_page_ok [OF Suc.prems(1) d(1)])
    show "ctx_ok C X ?h (Suc l) (min_key X t) n ctx" using Suc.prems(3) t by simp
    show "n \<notin> set (cpages ctx)" "distinct (cpages ctx)" "length ret \<le> MAX_PATH" using Suc.prems t by auto
    show "E" if "room V st = 0" using Suc.prems(11) that by simp
    fix st1 N rt m
    let ?ctx = "(m, take i ts, drop (Suc i) ts) # ctx" and ?P = "set (pages (plug t ctx))"
    assume v: "valid V st1" and p: "priv_page C (heap_of V st1) (lvl_of (Suc l)) m (map (child_cell X) ts)"
      and c': "ctx_ok C X (heap_of V st1) (Suc l) (min_key X t) m ctx"
      and g: "grows ?h (heap_of V st1) (set (cpages ctx)) N"
      and cs: "m = n \<and> N = {} \<and> rt = [] \<or> N = {m} \<and> rt = [n] \<and> n \<notin> hp_priv ?h"
      and r: "room V st \<le> Suc (room V st1)" and k: "keeps ?h (heap_of V st1) (- (fst ` set ctx))"
    have sub: "set (concat (map pages ts)) \<inter> set (cpages ctx) = {}" using Suc.prems(4) t by auto
    have rep: "repr C X (heap_of V st1) l u" if "u \<in> set ts" for u
      using d(3) that sub frame_pages [of ctx] by (intro repr_keeps [OF _ k]) auto
    have mk: "min_key X t = (if take i ts = [] then min_key X ?t1 else min_key X (hd (take i ts)))"
      using t d(2,4) min_key_node_hd [of ts X n] by (cases i) (auto simp: hd_conv_nth hd_take)
    have c1: "ctx_ok C X (heap_of V st1) l (min_key X ?t1) (root_page ?t1) ?ctx"
      using p c' rep Suc.prems(7) mk ts ar(1)
      by (auto simp: list_all_iff child_cell_def [symmetric] simp flip: map_append list.simps(9)
          dest: in_set_takeD in_set_dropD)
    have fresh: "m \<notin> set (concat (map pages ts)) \<union> set (cpages ctx)"
    proof (cases "m = n")
      case True
      thus ?thesis using Suc.prems(4) t by auto
    next
      case False
      hence "m \<notin> hp_own ?h" using cs g by (auto simp: grows_def)
      thus ?thesis using repr_own [OF Suc.prems(2)] ctx_ok_own [OF Suc.prems(3)] t by auto
    qed
    have mts: "mset (concat (map pages ts)) = mset (pages ?t1) + mset (concat (map pages (take i ts))) + mset (concat (map pages (drop (Suc i) ts)))"
      by (subst ts) simp
    have mp: "mset (pages ?t1 @ cpages ?ctx) = mset (m # concat (map pages ts) @ cpages ctx)"
      using mts by simp
    have dis: "distinct (pages ?t1 @ cpages ?ctx)"
      using mset_eq_imp_distinct_iff [OF mp] fresh Suc.prems(4) t by auto
    have P1: "set (pages (plug ?t1 ?ctx)) = insert m (set (concat (map pages ts)) \<union> set (cpages ctx))"
      using mset_eq_setD [OF mp] unfolding set_pages_plug by auto
    have P: "?P = insert n (set (concat (map pages ts)) \<union> set (cpages ctx))" using t by (simp add: set_pages_plug)
    have lv: "leaves (plug ?t1 ?ctx) = leaves (plug t ctx)"
      using ts unfolding t leaves_plug by (metis (no_types, lifting) leaves_plug plug.simps(2) leaves.simps(2))
    have n0: "n \<notin> set (concat (map pages ts)) \<union> set (cpages ctx)" "n \<in> hp_own ?h"
      using Suc.prems(4) t d(1) by (auto simp: live_page_def)
    have "rwp (private_path_loop C S key select st1 (croot (root_page ?t1) ?ctx) (ret @ rt)
        (path_of ?ctx) (root_page ?t1) (Some (lvl_of l)) (parent_of ?ctx)) Q E"
    proof (rule Suc.IH [OF v _ c1 dis _ ar(2)])
      show "repr C X (heap_of V st1) l ?t1" using rep ar(1) by simp
      show "ordered X (leaves (plug ?t1 ?ctx))" using Suc.prems(5) lv by simp
      show "l + length ?ctx \<le> MAX_PATH" using Suc.prems(7) by simp
      show "length (ret @ rt) + l \<le> MAX_PATH" using Suc.prems(8) cs by auto
      show "Some (lvl_of l) = None \<or> Some (lvl_of l) = Some (lvl_of l)" by simp
      show "E" if "room V st1 < Suc l" using that r Suc.prems(11) by simp
      fix st' ctx' nn cs' N2 rt2
      assume pe: "path_end C X V st1 (set (pages (plug ?t1 ?ctx))) (leaves (plug ?t1 ?ctx)) key (Suc l) st' ctx' nn cs' N2 rt2"
        and len: "length ctx' = l + length ?ctx"
      have pe2: "path_end C X V st ?P (leaves (plug t ctx)) key (Suc (Suc l)) st' ctx' nn cs' (N \<union> N2) (rt @ rt2)"
      proof (rule path_end_trans [OF pe [unfolded lv]])
        show "grows ?h (heap_of V st1) ?P N" using grows_mono [OF g] P by auto
        show "set (pages (plug ?t1 ?ctx)) = ?P - set rt \<union> N" using P1 P cs n0 by auto
        show "distinct rt" "length rt \<le> 1" "set rt \<subseteq> ?P \<inter> hp_own ?h - hp_priv ?h" using cs n0 P by auto
      qed (rule r)
      show "Q (st', croot nn ctx', (ret @ rt) @ rt2, \<lparr> pl_path = path_of ctx', pl_page = nn,
          pl_header = raw_header (hp_page (heap_of V st') nn), pl_selection = f cs' \<rparr>)"
        using Suc.prems(10) [OF pe2] len by simp
    qed
    thus "case (st1, croot m ctx, ret @ rt, m) of (st1, root, retired, active_page) \<Rightarrow>
        rwp (private_path_loop C S key select st1 root retired
          (path_of ((active_page, take i ts, drop (Suc i) ts) # ctx)) (root_page ?t1) (Some (lvl_of l)) (Some (active_page, i))) Q E"
      using ar(1) by simp
  qed
  moreover have "path_push (path_of ctx) \<lparr> fr_page = a, fr_index = i, fr_item_count = length ts \<rparr>
      = Inr (path_of ((a, take i ts, drop (Suc i) ts) # ctx))" for a
  proof -
    have "length (take i ts) + Suc (length (drop (Suc i) ts)) = length ts"
      using ar(1) unfolding length_take length_drop by linarith
    hence "cframe (a, take i ts, drop (Suc i) ts) = \<lparr> fr_page = a, fr_index = i, fr_item_count = length ts \<rparr>"
      using ar(1) by (simp add: cframe_def)
    thus ?thesis using path_push_ok [OF lm] by metis
  qed
  ultimately show ?case
    unfolding private_path_loop.simps [of C S key select st] t root_page.simps using ins live_header [OF d(1)]
    by (cases "activate_page C S st (croot n ctx) ret (parent_of ctx) n (n \<in> hp_priv ?h)") (auto simp: lvl_of_Suc)
qed

lemma key_selector_ok:
  assumes "live_page C h 0 n cs" "list_all (leaf_ok X) cs" "ordered X cs"
  shows "key_selector C key (hp_page h n) (raw_header (hp_page h n)) path
    = Inr (lb (map (key_of X) cs) key, hit (map (key_of X) cs) key)"
proof -
  have "sorted_wrt (<) (map (cell_key C 0) cs)" using assms(3) by (simp add: leaf_keys(2) [OF assms(2)] ordered_def)
  thus ?thesis
    using lower_bound_ok [OF live_tpage [OF assms(1)] leaf_keys(1) [OF assms(2)], of key True]
    by (simp add: key_selector_def leaf_keys(2) [OF assms(2)] search_result_def)
qed

lemma private_path_ok:
  assumes v: "valid V st" and r: "repr C X (heap_of V st) l t" and d: "distinct (pages t)" and o: "ordered X (leaves t)"
    and q: "\<And>st' ctx n cs N rt. path_end C X V st (set (pages t)) (leaves t) key (Suc l) st' ctx n cs N rt \<Longrightarrow>
      length ctx = l \<Longrightarrow>
      Q (st', croot n ctx, ret @ rt, \<lparr> pl_path = path_of ctx, pl_page = n,
        pl_header = raw_header (hp_page (heap_of V st') n),
        pl_selection = (lb (map (key_of X) cs) key, hit (map (key_of X) cs) key) \<rparr>)"
    and e: "room V st < Suc l \<Longrightarrow> E" and ret: "length ret + l \<le> MAX_PATH"
  shows "rwp (private_path C S st (root_page t) key ret) Q E"
proof -
  have "rwp (private_path_loop C S key (key_selector C key) st (croot (root_page t) []) ret (path_of []) (root_page t) None
      (parent_of [])) Q E"
  proof (rule private_path_loop_ok [where f = "\<lambda>cs. (lb (map (key_of X) cs) key, hit (map (key_of X) cs) key)" and l = l])
    fix st' ctx n cs N rt
    assume "path_end C X V st (set (pages (plug t []))) (leaves (plug t [])) key (Suc l) st' ctx n cs N rt"
      "length ctx = l + length ([] :: tctx)"
    thus "Q (st', croot n ctx, ret @ rt, \<lparr> pl_path = path_of ctx, pl_page = n,
        pl_header = raw_header (hp_page (heap_of V st') n),
        pl_selection = (lb (map (key_of X) cs) key, hit (map (key_of X) cs) key) \<rparr>)" using q by simp
  qed (use key_selector_ok v r d o e ret repr_level [OF r] in \<open>auto simp: around_def\<close>)
  thus ?thesis by (simp add: private_path_def private_path_select_def path_of_def)
qed

end

end
