(* ===== verification/TreeUpdate.thy ===== *)
theory TreeUpdate
  imports TreePath
begin

text \<open>
  Changes of a tree (\<open>fixed_tree/insert.rs\<close>, \<open>fixed_tree/delete.rs\<close>). First-key propagation
  restores the branch keys above a changed page, split propagation puts a new right sibling into
  the branches above, up to a new root. Insertion, replacement and deletion then refine the
  corresponding operations on the sorted list of leaf cells.
\<close>

section \<open>Propagation\<close>

lemma mset_pages_halves:
  "mset (pages (PNode n (take i ts)) @ pages (PNode m (drop i ts)) @ ps) = mset (m # n # concat (map pages ts) @ ps)"
proof -
  have "mset (concat (map pages ts)) = mset (concat (map pages (take i ts))) + mset (concat (map pages (drop i ts)))"
    by (metis append_take_drop_id concat_append map_append mset_append)
  thus ?thesis by simp
qed

lemma leaves_halves: "leaves (PNode n (take i ts)) @ leaves (PNode m (drop i ts)) = concat (map leaves ts)"
  by (simp flip: concat_append map_append)

lemma min_key_halves:
  assumes "\<forall>t\<in>set ts. leaves t \<noteq> []" "0 < i" "i < length ts"
  shows "min_key X (PNode n (take i ts)) = min_key X (hd ts)" "min_key X (PNode m (drop i ts)) = min_key X (ts ! i)"
proof -
  have "hd (take i ts) = hd ts" "hd (drop i ts) = ts ! i" "take i ts \<noteq> []" "drop i ts \<noteq> []"
    using assms by (auto simp: hd_drop_conv_nth)
  moreover have "hd ts \<in> set ts" "ts ! i \<in> set ts" using assms by (cases ts; simp)+
  ultimately show "min_key X (PNode n (take i ts)) = min_key X (hd ts)" "min_key X (PNode m (drop i ts)) = min_key X (ts ! i)"
    using assms(1) by (simp_all add: min_key_node_hd)
qed

context tree_store
begin

lemma bcells_readable:
  assumes "lvl \<noteq> 0"
  shows "cell_key C lvl (bcell X k c) = k" "cell_key C lvl (child_cell X t) = min_key X t"
    "readable C lvl (map (child_cell X) ls @ bcell X k c # map (child_cell X) rs)"
    "readable C lvl (map (child_cell X) ts)"
  using branch_key [OF assms] by (auto simp: cell_key_def readable_def child_cell_def)

lemma ctx_ok_ConsD:
  assumes "ctx_ok C X h l k c ((n, ls, rs) # ctx)"
  shows "priv_page C h (lvl_of (Suc l)) n (map (child_cell X) ls @ bcell X k c # map (child_cell X) rs)"
    "lvl_of (Suc l) \<noteq> 0" "list_all (repr C X h l) (ls @ rs)"
    "ctx_ok C X h (Suc l) (if ls = [] then k else min_key X (hd ls)) n ctx" "Suc l \<le> MAX_PATH"
  using assms lvl_of_nz [of l] by (auto simp: MAX_PATH_31)

lemma frame_child_ok:
  assumes v: "valid V st" and c: "ctx_ok C X (heap_of V st) l k c ((n, ls, rs) # ctx)"
    and o: "c \<in> hp_own (heap_of V st)"
  shows "frame_child C S st (cframe (n, ls, rs)) = Inr (raw_header (hp_page (heap_of V st) n), c)"
proof -
  note d = ctx_ok_ConsD [OF c]
  note l = priv_live [OF d(1)]
  have "branch_child C (hp_page (heap_of V st) n) (raw_header (hp_page (heap_of V st) n)) (length ls) (page_limit S st) = Inr c"
    using branch_child_ok [OF live_tpage [OF l] d(2), of "length ls" k c "page_limit S st"] own_bounds [OF v o]
    by (simp add: nth_append)
  thus ?thesis
    using live_parse [OF v l, of None]
    by (simp add: frame_child_def inspect_own [OF v live_page_own [OF l]] cframe_def)
qed

lemma ctx_ok_wrote:
  assumes c: "ctx_ok C X (heap_of V st) l k c ((n, ls, rs) # ctx)" and d: "distinct (cpages ((n, ls, rs) # ctx))"
    and w: "wrote C V st st' (lvl_of (Suc l)) n (map (child_cell X) ls @ bcell X k' c # map (child_cell X) rs)"
  shows "list_all (repr C X (heap_of V st') l) (ls @ rs)"
    "ctx_ok C X (heap_of V st') (Suc l) (if ls = [] then k else min_key X (hd ls)) n ctx"
    "ls \<noteq> [] \<Longrightarrow> ctx_ok C X (heap_of V st') l k' c ((n, ls, rs) # ctx)"
proof -
  note e = ctx_ok_ConsD [OF c]
  have k: "keeps (heap_of V st) (heap_of V st') (- {n})" using w grows_keeps by (auto simp: wrote_def)
  show r: "list_all (repr C X (heap_of V st') l) (ls @ rs)"
    using e(3) d by (auto simp: list_all_iff intro!: repr_keeps [OF _ k])
  show c': "ctx_ok C X (heap_of V st') (Suc l) (if ls = [] then k else min_key X (hd ls)) n ctx"
    by (rule ctx_ok_keeps [OF e(4) k]) (use d in auto)
  show "ctx_ok C X (heap_of V st') l k' c ((n, ls, rs) # ctx)" if "ls \<noteq> []"
    using r c' w e(5) that by (simp add: wrote_def)
qed

lemma path_of_Cons [simp]: "path_of (f # ctx) = path_of ctx @ [cframe f]"
  by (simp add: path_of_def)

lemma length_path_of [simp]: "length (path_of ctx) = length ctx"
  by (simp add: path_of_def)

lemma replace_first_branch_ok:
  assumes v: "valid V st" and c: "ctx_ok C X (heap_of V st) l k c ((n, ls, rs) # ctx)"
    and o: "c \<in> hp_own (heap_of V st)"
  shows "\<exists>st'. replace_first_branch C S st (cframe (n, ls, rs)) k' = Inr (st', None)
    \<and> wrote C V st st' (lvl_of (Suc l)) n (map (child_cell X) ls @ bcell X k' c # map (child_cell X) rs)"
proof -
  note d = ctx_ok_ConsD [OF c]
  let ?cs = "map (child_cell X) ls @ bcell X k c # map (child_cell X) rs"
  have eq: "replaced (length ls) [bcell X k' c] ?cs = map (child_cell X) ls @ bcell X k' c # map (child_cell X) rs"
    by (simp add: replaced_def)
  have "room_for C (lvl_of (Suc l)) (length ?cs + length [bcell X k' c] - 1)"
    using room_for_length [OF priv_tpage [OF d(1)]] by simp
  hence "rwp (apply_replacement C S st n (raw_header (hp_page (heap_of V st) n))
      \<lparr> rp_index = length ls, rp_cells = [bcell X k' c] \<rparr>)
    (\<lambda>(st', split). split = None \<and> wrote C V st st' (lvl_of (Suc l)) n (replaced (length ls) [bcell X k' c] ?cs)) False"
    using d(2) bcells_readable(3) [OF d(2)]
    by (intro apply_replacement_ok [OF v d(1)]) (auto simp: cell_size_def eq)
  thus ?thesis
    unfolding eq by (auto simp: rwp_False replace_first_branch_def frame_child_ok [OF v c o] branch_buf_ok) (simp add: cframe_def)
qed

lemma propagate_first_ok:
  "valid V st \<Longrightarrow> ctx_ok C X (heap_of V st) l k c ctx \<Longrightarrow> c \<in> hp_own (heap_of V st) \<Longrightarrow> distinct (cpages ctx) \<Longrightarrow>
   \<exists>st'. propagate_first_from C S st root (path_of ctx @ rest) (length ctx) k' = Inr (st', root) \<and> valid V st'
     \<and> ctx_ok C X (heap_of V st') l k' c ctx \<and> grows (heap_of V st) (heap_of V st') (fst ` set ctx) {}
     \<and> room V st' = room V st"
proof (induction ctx arbitrary: st l k c rest)
  case Nil
  thus ?case by (simp add: propagate_first_from.simps)
next
  case (Cons f ctx)
  obtain n ls rs where f: "f = (n, ls, rs)" by (cases f)
  note c = Cons.prems(2) [unfolded f] and d = ctx_ok_ConsD [OF Cons.prems(2) [unfolded f]]
  obtain st1 where r: "replace_first_branch C S st (cframe (n, ls, rs)) k' = Inr (st1, None)"
      and w: "wrote C V st st1 (lvl_of (Suc l)) n (map (child_cell X) ls @ bcell X k' c # map (child_cell X) rs)"
    using replace_first_branch_ok [OF Cons.prems(1) c Cons.prems(3)] by blast
  note cw = ctx_ok_wrote [OF c Cons.prems(4) [unfolded f] w]
  have v1: "valid V st1" and g1: "grows (heap_of V st) (heap_of V st1) {n} {}" and rm: "room V st1 = room V st"
    and p1: "priv_page C (heap_of V st1) (lvl_of (Suc l)) n (map (child_cell X) ls @ bcell X k' c # map (child_cell X) rs)"
    using w by (auto simp: wrote_def)
  have nth: "(path_of (f # ctx) @ rest) ! length ctx = cframe (n, ls, rs)" using f by (simp add: nth_append)
  show ?case
  proof (cases "ls = []")
    case False
    have "propagate_first_from C S st root (path_of (f # ctx) @ rest) (length (f # ctx)) k' = Inr (st1, root)"
      using r nth False by (simp add: propagate_first_from.simps cframe_def)
    thus ?thesis using v1 cw(3) [OF False] g1 rm f grows_mono [OF g1, of "fst ` set (f # ctx)"] by auto
  next
    case True
    have no: "n \<in> hp_own (heap_of V st1)" using live_page_own [OF priv_live [OF p1]] .
    obtain st2 where q: "propagate_first_from C S st1 root (path_of ctx @ (cframe f # rest)) (length ctx) k' = Inr (st2, root)"
        "valid V st2" "ctx_ok C X (heap_of V st2) (Suc l) k' n ctx"
        "grows (heap_of V st1) (heap_of V st2) (fst ` set ctx) {}" "room V st2 = room V st1"
      using Cons.IH [OF v1 cw(2) no, of "cframe f # rest"] Cons.prems(4) f by auto
    have k2: "keeps (heap_of V st1) (heap_of V st2) (- set (cpages ctx))"
      by (rule grows_keeps [OF q(4)]) (use frame_pages [of ctx] in auto)
    have "n \<notin> set (cpages ctx)" using Cons.prems(4) f by auto
    hence p2: "priv_page C (heap_of V st2) (lvl_of (Suc l)) n (map (child_cell X) ls @ bcell X k' c # map (child_cell X) rs)"
      using priv_page_keeps [OF p1 k2] by simp
    have "list_all (repr C X (heap_of V st2) l) (ls @ rs)"
      using cw(1) Cons.prems(4) f by (auto simp: list_all_iff intro!: repr_keeps [OF _ k2])
    hence "ctx_ok C X (heap_of V st2) l k' c (f # ctx)" using p2 q(3) d(5) True f by simp
    moreover have "grows (heap_of V st) (heap_of V st2) (fst ` set (f # ctx)) {}"
      using grows_trans [OF g1 q(4), of "fst ` set (f # ctx)" "{}"] f by auto
    moreover have "propagate_first_from C S st root (path_of (f # ctx) @ rest) (length (f # ctx)) k' = Inr (st2, root)"
      using r nth True q(1) by (simp add: propagate_first_from.simps cframe_def)
    ultimately show ?thesis using q rm by auto
  qed
qed

lemma insert_branch_ok:
  assumes v: "valid V st" and c: "ctx_ok C X (heap_of V st) l k (root_page t1) ((n, ls, rs) # ctx)"
    and o: "root_page t1 \<in> hp_own (heap_of V st)"
    and fits: "\<And>st'. wrote C V st st' (lvl_of (Suc l)) n (map (child_cell X) (ls @ t1 # t2 # rs)) \<Longrightarrow> Q (st', None)"
    and split: "\<And>st' m mid. split_to C V st st' (lvl_of (Suc l)) n m (map (child_cell X) (ls @ t1 # t2 # rs)) \<Longrightarrow>
      mid = length (ls @ t1 # t2 # rs) div 2 \<Longrightarrow>
      Q (st', Some \<lparr> bs_right_page = m, bs_right_first = min_key X ((ls @ t1 # t2 # rs) ! mid),
        bs_left_first = min_key X (hd (ls @ t1 # t2 # rs)), bs_level = lvl_of (Suc l) \<rparr>)"
    and e: "room V st = 0 \<Longrightarrow> E"
  shows "rwp (insert_branch C S st (cframe (n, ls, rs)) (min_key X t1) (root_page t2) (min_key X t2)) Q E"
proof -
  note d = ctx_ok_ConsD [OF c]
  let ?cs = "map (child_cell X) ls @ bcell X k (root_page t1) # map (child_cell X) rs" and ?ts = "ls @ t1 # t2 # rs"
  have eq: "replaced (length ls) [child_cell X t1, child_cell X t2] ?cs = map (child_cell X) ?ts"
    by (simp add: replaced_def)
  have "hd (map (child_cell X) ?ts) = child_cell X (hd ?ts)" by (cases ls) simp_all
  moreover have "map (child_cell X) ?ts ! (length ?ts div 2) = child_cell X (?ts ! (length ?ts div 2))"
    by (rule nth_map) simp
  ultimately have "rwp (apply_replacement C S st n (raw_header (hp_page (heap_of V st) n))
      \<lparr> rp_index = length ls, rp_cells = [child_cell X t1, child_cell X t2] \<rparr>) Q E"
    using d(2) e bcells_readable [OF d(2)] fits split [OF _ refl]
    by (intro apply_replacement_ok [OF v d(1)])
      (simp_all only: eq length_map bcells_readable(2,4) [OF d(2)],
       auto simp: cell_size_def child_cell_def)
  thus ?thesis
    using frame_child_ok [OF v c o] by (simp add: insert_branch_def branch_buf_ok child_cell_def cframe_def)
qed

lemma split_to_repr:
  assumes s: "split_to C V st st' (lvl_of (Suc l)) n m (map (child_cell X) ts)" and l: "Suc l \<le> MAX_PATH"
    and r: "list_all (repr C X (heap_of V st) l) ts" and n: "n \<notin> set (concat (map pages ts))"
  shows "repr C X (heap_of V st') (Suc l) (PNode n (take (length ts div 2) ts))"
    "repr C X (heap_of V st') (Suc l) (PNode m (drop (length ts div 2) ts))"
proof -
  have k: "keeps (heap_of V st) (heap_of V st') (- {n})" using s grows_keeps by (auto simp: split_to_def)
  have "\<forall>t\<in>set ts. repr C X (heap_of V st') l t"
    using r n by (auto simp: list_all_iff intro!: repr_keeps [OF _ k])
  thus "repr C X (heap_of V st') (Suc l) (PNode n (take (length ts div 2) ts))"
    "repr C X (heap_of V st') (Suc l) (PNode m (drop (length ts div 2) ts))"
    using s l by (auto simp: split_to_def priv_page_def list_all_iff take_map drop_map dest: in_set_takeD in_set_dropD)
qed

lemma propagate_split_ok:
  "valid V st \<Longrightarrow> ctx_ok C X (heap_of V st) l k (root_page t1) ctx \<Longrightarrow> repr C X (heap_of V st) l t1 \<Longrightarrow>
   repr C X (heap_of V st) l t2 \<Longrightarrow> distinct (pages t1 @ pages t2 @ cpages ctx) \<Longrightarrow> l + length ctx \<le> MAX_PATH \<Longrightarrow>
   (\<And>st' t L N. valid V st' \<Longrightarrow> repr C X (heap_of V st') L t \<Longrightarrow> distinct (pages t) \<Longrightarrow>
      leaves t = lctx ctx @ leaves t1 @ leaves t2 @ rctx ctx \<Longrightarrow> L \<le> Suc (l + length ctx) \<Longrightarrow>
      grows (heap_of V st) (heap_of V st') (fst ` set ctx) N \<Longrightarrow>
      set (pages t) = set (pages t1 @ pages t2 @ cpages ctx) \<union> N \<Longrightarrow>
      room V st \<le> room V st' + Suc (length ctx) \<Longrightarrow> Q (st', root_page t)) \<Longrightarrow>
   (room V st \<le> length ctx \<or> l + length ctx = MAX_PATH \<Longrightarrow> E) \<Longrightarrow>
   rwp (propagate_split_from C S st (croot (root_page t1) ctx) (path_of ctx @ rest) (length ctx)
      (root_page t1) (min_key X t1) (root_page t2) (min_key X t2) (lvl_of l)) Q E"
proof (induction ctx arbitrary: st l k t1 t2 rest)
  case Nil
  have lb: "l \<le> MAX_PATH" using Nil.prems(6) by simp
  have "rwp (new_root C S st (root_page t1) (min_key X t1) (root_page t2) (min_key X t2) (lvl_of (Suc l))) Q E"
  proof (rule new_root_ok [OF Nil.prems(1)])
    show "lvl_of (Suc l) \<noteq> 0" using lb by (intro lvl_of_nz) (simp add: MAX_PATH_31)
    show "E" if "\<not> lvl_of (Suc l) \<le> MAX_TREE_LEVEL"
      using Nil.prems(8) that lb lvl_of_le [of "Suc l"] by (simp add: MAX_PATH_31)
    show "E" if "room V st = 0" using Nil.prems(8) that by simp
    fix st' n
    assume a: "added C V st st' (lvl_of (Suc l)) n
        [bcell X (min_key X t1) (root_page t1), bcell X (min_key X t2) (root_page t2)]" "lvl_of (Suc l) \<le> MAX_TREE_LEVEL"
    have g: "grows (heap_of V st) (heap_of V st') {} {n}" using a(1) by (simp add: added_def)
    have k: "keeps (heap_of V st) (heap_of V st') UNIV" using grows_keeps [OF g] by simp
    let ?t = "PNode n [t1, t2]"
    have "Suc l \<le> MAX_PATH" using a(2) lb lvl_of_le [of "Suc l"] by (simp add: MAX_PATH_31)
    hence r: "repr C X (heap_of V st') (Suc l) ?t"
      using a(1) repr_keeps [OF Nil.prems(3) k] repr_keeps [OF Nil.prems(4) k]
      by (simp add: added_def priv_page_def child_cell_def)
    have "n \<notin> set (pages t1) \<union> set (pages t2)"
      using g repr_own [OF Nil.prems(3)] repr_own [OF Nil.prems(4)] by (auto simp: grows_def)
    hence "distinct (pages ?t)" using Nil.prems(5) by simp
    thus "Q (st', n)"
      using Nil.prems(7) [OF _ r, of "{n}"] a(1) g by (simp add: added_def)
  qed
  thus ?case by (simp add: propagate_split_from.simps lvl_of_Suc)
next
  case (Cons f ctx)
  obtain n ls rs where f: "f = (n, ls, rs)" by (cases f)
  note v = Cons.prems(1) and c = Cons.prems(2) [unfolded f]
  note d = ctx_ok_ConsD [OF c]
  let ?ts = "ls @ t1 # t2 # rs" and ?h = "heap_of V st" and ?path = "path_of ctx @ (cframe f # rest)"
  let ?mid = "length ?ts div 2"
  have nth: "?path ! length ctx = cframe (n, ls, rs)" using f by (simp add: nth_append)
  have all: "list_all (repr C X ?h l) ?ts" using d(3) Cons.prems(3,4) by simp
  have dis: "distinct (n # concat (map pages ?ts) @ cpages ctx)" using Cons.prems(5) f by auto
  have P: "set (pages t1 @ pages t2 @ cpages (f # ctx)) = set (n # concat (map pages ?ts) @ cpages ctx)" using f by auto
  have ne: "\<forall>t\<in>set ?ts. leaves t \<noteq> []" using all by (auto simp: list_all_iff dest: repr_leaves)
  have mk: "min_key X (hd ?ts) = (if ls = [] then min_key X t1 else min_key X (hd ls))" by (cases ls) simp_all
  have "rwp (insert_branch C S st (cframe (n, ls, rs)) (min_key X t1) (root_page t2) (min_key X t2)) (\<lambda>(st, split).
     rwp (case split of None \<Rightarrow>
         if ls = [] then propagate_first_from C S st (croot n ctx) ?path (length ctx) (min_key X t1)
         else Inr (st, croot n ctx)
     | Some split \<Rightarrow>
         propagate_split_from C S st (croot n ctx) ?path (length ctx) n (bs_left_first split)
           (bs_right_page split) (bs_right_first split) (bs_level split)) Q E) E"
  proof (rule insert_branch_ok [OF v c])
    show "root_page t1 \<in> hp_own ?h" using repr_own [OF Cons.prems(3)] by auto
    show "E" if "room V st = 0" using Cons.prems(8) that by simp
  next
    fix st1
    assume w: "wrote C V st st1 (lvl_of (Suc l)) n (map (child_cell X) ?ts)"
    let ?t = "PNode n ?ts"
    have g: "grows ?h (heap_of V st1) {n} {}" and v1: "valid V st1" and rm: "room V st1 = room V st"
      and p: "priv_page C (heap_of V st1) (lvl_of (Suc l)) n (map (child_cell X) ?ts)" using w by (auto simp: wrote_def)
    have k: "keeps ?h (heap_of V st1) (- {n})" using grows_keeps [OF g] by auto
    have "\<forall>t\<in>set ?ts. repr C X (heap_of V st1) l t"
      using all dis by (auto simp: list_all_iff intro!: repr_keeps [OF _ k])
    hence r: "repr C X (heap_of V st1) (Suc l) ?t" using p d(5) by (simp add: priv_page_def list_all_iff)
    have c1: "ctx_ok C X (heap_of V st1) (Suc l) (if ls = [] then k else min_key X (hd ls)) n ctx"
      by (rule ctx_ok_keeps [OF d(4) k]) (use dis in auto)
    have no: "n \<in> hp_own (heap_of V st1)" using live_page_own [OF priv_live [OF p]] .
    have mt: "min_key X ?t = min_key X (hd ?ts)" using min_key_node_hd [of ?ts X n] ne by (auto simp: hd_append)
    have fin: "Q (st2, croot n ctx)" if "valid V st2" "ctx_ok C X (heap_of V st2) (Suc l) (min_key X ?t) n ctx"
      "grows (heap_of V st1) (heap_of V st2) (fst ` set ctx) {}" "room V st2 = room V st1" for st2
    proof -
      have k2: "keeps (heap_of V st1) (heap_of V st2) (- set (cpages ctx))"
        by (rule grows_keeps [OF that(3)]) (use frame_pages [of ctx] in auto)
      have r2: "repr C X (heap_of V st2) (Suc l) ?t" by (rule repr_keeps [OF r k2]) (use dis in auto)
      have "repr C X (heap_of V st2) (Suc l + length ctx) (plug ?t ctx)" using repr_plug [OF _ r2] that(2) by simp
      moreover have "distinct (pages (plug ?t ctx))" using dis by (simp add: distinct_plug)
      moreover have "leaves (plug ?t ctx) = lctx (f # ctx) @ leaves t1 @ leaves t2 @ rctx (f # ctx)"
        using f by (simp add: leaves_plug)
      moreover have "grows ?h (heap_of V st2) (fst ` set (f # ctx)) {}"
        using grows_trans [OF g that(3), of "fst ` set (f # ctx)" "{}"] f by auto
      moreover have "set (pages (plug ?t ctx)) = set (pages t1 @ pages t2 @ cpages (f # ctx)) \<union> {}"
        unfolding P by (auto simp: set_pages_plug)
      ultimately show ?thesis
        using Cons.prems(7) [OF that(1), of "Suc l + length ctx" "plug ?t ctx" "{}"] that(4) rm by (simp add: root_plug)
    qed
    show "case (st1, None) of (st, split) \<Rightarrow> rwp (case split of None \<Rightarrow>
         if ls = [] then propagate_first_from C S st (croot n ctx) ?path (length ctx) (min_key X t1)
         else Inr (st, croot n ctx)
     | Some split \<Rightarrow>
         propagate_split_from C S st (croot n ctx) ?path (length ctx) n (bs_left_first split)
           (bs_right_page split) (bs_right_first split) (bs_level split)) Q E"
    proof (cases "ls = []")
      case True
      obtain st2 where q: "propagate_first_from C S st1 (croot n ctx) ?path (length ctx) (min_key X t1) = Inr (st2, croot n ctx)"
          "valid V st2" "ctx_ok C X (heap_of V st2) (Suc l) (min_key X t1) n ctx"
          "grows (heap_of V st1) (heap_of V st2) (fst ` set ctx) {}" "room V st2 = room V st1"
        using propagate_first_ok [OF v1 c1 no, of "croot n ctx" "cframe f # rest" "min_key X t1"] dis by auto
      have "Q (st2, croot n ctx)" using fin [OF q(2) _ q(4,5)] q(3) mt mk True by simp
      thus ?thesis using q(1) True by simp
    next
      case False
      have "Q (st1, croot n ctx)" using fin [OF v1] c1 mt mk False by simp
      thus ?thesis using False by simp
    qed
  next
    fix st1 m mid
    assume s: "split_to C V st st1 (lvl_of (Suc l)) n m (map (child_cell X) ?ts)" and mid: "mid = length ?ts div 2"
    let ?t1 = "PNode n (take ?mid ?ts)" and ?t2 = "PNode m (drop ?mid ?ts)"
    have g: "grows ?h (heap_of V st1) {n} {m}" and v1: "valid V st1" and rm: "room V st \<le> Suc (room V st1)"
      using s by (auto simp: split_to_def)
    have k: "keeps ?h (heap_of V st1) (- {n})" using grows_keeps [OF g] by auto
    have "n \<notin> set (concat (map pages ?ts))" using dis by simp
    note r = split_to_repr [OF s d(5) all this]
    have c1: "ctx_ok C X (heap_of V st1) (Suc l) (if ls = [] then k else min_key X (hd ls)) (root_page ?t1) ctx"
      unfolding root_page.simps by (rule ctx_ok_keeps [OF d(4) k]) (use dis in auto)
    have "set (pages u) \<subseteq> hp_own ?h" if "u \<in> set ?ts" for u
      using all that repr_own [of C X ?h l u] by (auto simp only: list_all_iff)
    hence own: "set (n # concat (map pages ?ts) @ cpages ctx) \<subseteq> hp_own ?h"
      using ctx_ok_own [OF c] by auto
    have m: "m \<notin> set (n # concat (map pages ?ts) @ cpages ctx)" using g own by (auto simp: grows_def)
    have ms: "mset (pages ?t1 @ pages ?t2 @ cpages ctx) = mset (m # n # concat (map pages ?ts) @ cpages ctx)"
      by (rule mset_pages_halves)
    have dis1: "distinct (pages ?t1 @ pages ?t2 @ cpages ctx)"
      using mset_eq_imp_distinct_iff [OF ms] m dis by simp
    have P1: "set (pages ?t1 @ pages ?t2 @ cpages ctx) = insert m (set (n # concat (map pages ?ts) @ cpages ctx))"
      using mset_eq_setD [OF ms] by simp
    have big: "0 < ?mid" "?mid < length ?ts" by simp_all
    have mks: "min_key X ?t1 = min_key X (hd ?ts)" "min_key X ?t2 = min_key X (?ts ! ?mid)"
      by (rule min_key_halves [OF ne big])+
    have lv: "leaves ?t1 @ leaves ?t2 = concat (map leaves ?ts)"
      by (rule leaves_halves)
    have "rwp (propagate_split_from C S st1 (croot (root_page ?t1) ctx) ?path (length ctx)
        (root_page ?t1) (min_key X ?t1) (root_page ?t2) (min_key X ?t2) (lvl_of (Suc l))) Q E"
    proof (rule Cons.IH [OF v1 c1 r dis1])
      show "Suc l + length ctx \<le> MAX_PATH" using Cons.prems(6) by simp
      show "E" if "room V st1 \<le> length ctx \<or> Suc l + length ctx = MAX_PATH"
        using Cons.prems(8) that rm by auto
      fix st' t L N
      assume a: "valid V st'" "repr C X (heap_of V st') L t" "distinct (pages t)"
        "leaves t = lctx ctx @ leaves ?t1 @ leaves ?t2 @ rctx ctx" "L \<le> Suc (Suc l + length ctx)"
        "grows (heap_of V st1) (heap_of V st') (fst ` set ctx) N"
        "set (pages t) = set (pages ?t1 @ pages ?t2 @ cpages ctx) \<union> N" "room V st1 \<le> room V st' + Suc (length ctx)"
      have "grows ?h (heap_of V st') (fst ` set (f # ctx)) (insert m N)"
        using grows_trans [OF g a(6), of "fst ` set (f # ctx)" "insert m N"] f by auto
      moreover have "leaves t = lctx ctx @ (leaves ?t1 @ leaves ?t2) @ rctx ctx"
        using a(4) by (simp only: append_assoc)
      hence "leaves t = lctx (f # ctx) @ leaves t1 @ leaves t2 @ rctx (f # ctx)"
        unfolding lv by (simp add: f)
      moreover have "set (pages t) = set (pages t1 @ pages t2 @ cpages (f # ctx)) \<union> insert m N"
        using a(7) unfolding P1 P by auto
      ultimately show "Q (st', root_page t)"
        using Cons.prems(7) [OF a(1-3)] a(5,8) rm by simp
    qed
    thus "case (st1, Some \<lparr> bs_right_page = m, bs_right_first = min_key X (?ts ! mid),
        bs_left_first = min_key X (hd ?ts), bs_level = lvl_of (Suc l) \<rparr>) of (st, split) \<Rightarrow> rwp (case split of None \<Rightarrow>
         if ls = [] then propagate_first_from C S st (croot n ctx) ?path (length ctx) (min_key X t1)
         else Inr (st, croot n ctx)
     | Some split \<Rightarrow>
         propagate_split_from C S st (croot n ctx) ?path (length ctx) n (bs_left_first split)
           (bs_right_page split) (bs_right_first split) (bs_level split)) Q E"
      using mks mid by simp
  qed
  moreover have "fr_index (cframe (n, ls, rs)) = length ls" "fr_page (cframe (n, ls, rs)) = n"
    by (simp_all add: cframe_def)
  ultimately show ?case
    using nth unfolding f
    by (cases "insert_branch C S st (cframe (n, ls, rs)) (min_key X t1) (root_page t2) (min_key X t2)")
      (auto simp: propagate_split_from.simps Let_def split: option.splits)
qed

end

end
