(* ===== verification/TreeInsert.thy ===== *)
theory TreeInsert
  imports TreeUpdate
begin

text \<open>
  Insertion and replacement (\<open>fixed_tree/insert.rs\<close>). On the sorted list of leaf cells both put
  cells in the place of the one with a given key, if there is one, and between their neighbours
  otherwise (\<open>put_cells\<close>).
\<close>

section \<open>Lists of leaf cells\<close>

definition put_cells :: "('k :: linorder, 'l) cell_view \<Rightarrow> 'k \<Rightarrow> bytes list \<Rightarrow> bytes list \<Rightarrow> bytes list" where
  "put_cells X key cells xs = filter (\<lambda>x. key_of X x < key) xs @ cells @ filter (\<lambda>x. key < key_of X x) xs"

definition has_key :: "('k, 'l) cell_view \<Rightarrow> 'k \<Rightarrow> bytes list \<Rightarrow> bool" where
  "has_key X key xs \<longleftrightarrow> key \<in> key_of X ` set xs"

lemma lb_Cons: "lb (k # ks) key = (if k < key then Suc (lb ks key) else 0)"
  by (simp add: lb_def)

lemma hit_Cons: "hit (k # ks) key \<longleftrightarrow> (if k < key then hit ks key else k = key)"
  by (auto simp: hit_def lb_Cons)

lemma lb_split:
  assumes "ordered X cs"
  shows "take (lb (map (key_of X) cs) key) cs = filter (\<lambda>x. key_of X x < key) cs"
    "drop (lb (map (key_of X) cs) key + of_bool (hit (map (key_of X) cs) key)) cs = filter (\<lambda>x. key < key_of X x) cs"
    "hit (map (key_of X) cs) key \<longleftrightarrow> has_key X key cs"
proof -
  have "take (lb (map (key_of X) cs) key) cs = filter (\<lambda>x. key_of X x < key) cs
      \<and> drop (lb (map (key_of X) cs) key + of_bool (hit (map (key_of X) cs) key)) cs = filter (\<lambda>x. key < key_of X x) cs
      \<and> (hit (map (key_of X) cs) key \<longleftrightarrow> has_key X key cs)"
    using assms
  proof (induction cs)
    case Nil
    thus ?case by (simp add: lb_def hit_def has_key_def)
  next
    case (Cons c cs)
    have o: "ordered X cs" "\<forall>x\<in>set cs. key_of X c < key_of X x" using Cons.prems by (auto simp: ordered_def)
    show ?case
    proof (cases "key_of X c < key")
      case True
      thus ?thesis using Cons.IH [OF o(1)] by (auto simp: lb_Cons hit_Cons has_key_def)
    next
      case False
      have "\<forall>x\<in>set cs. key < key_of X x" using o(2) False by auto
      hence "filter (\<lambda>x. key_of X x < key) cs = []" "filter (\<lambda>x. key < key_of X x) cs = cs" "key \<notin> key_of X ` set cs"
        by (auto simp: filter_empty_conv filter_id_conv)
      thus ?thesis using False by (auto simp: lb_Cons hit_Cons has_key_def)
    qed
  qed
  thus "take (lb (map (key_of X) cs) key) cs = filter (\<lambda>x. key_of X x < key) cs"
    "drop (lb (map (key_of X) cs) key + of_bool (hit (map (key_of X) cs) key)) cs = filter (\<lambda>x. key < key_of X x) cs"
    "hit (map (key_of X) cs) key \<longleftrightarrow> has_key X key cs" by auto
qed

lemma edited_put:
  assumes o: "ordered X cs"
  shows "edited \<lparr> ed_index = lb (map (key_of X) cs) key, ed_replace = hit (map (key_of X) cs) key, ed_cell = c \<rparr> cs
    = put_cells X key [c] cs"
proof (cases "hit (map (key_of X) cs) key")
  case True
  hence "lb (map (key_of X) cs) key < length cs" by (simp add: hit_def)
  thus ?thesis using True lb_split(1,2) [OF o, of key] by (simp add: edited_def put_cells_def upd_conv_take_nth_drop)
next
  case False
  thus ?thesis using lb_split(1,2) [OF o, of key] by (simp add: edited_def put_cells_def insert_at_def)
qed

lemma replaced_put:
  assumes o: "ordered X cs" and h: "hit (map (key_of X) cs) key"
  shows "replaced (lb (map (key_of X) cs) key) cells cs = put_cells X key cells cs"
  using lb_split(1,2) [OF o, of key] h by (simp add: replaced_def put_cells_def)

lemma around_lctx:
  assumes a: "around X key ctx (PLeaf n cs)" and o: "ordered X (lctx ctx @ cs @ rctx ctx)" and ne: "cs \<noteq> []"
  shows "\<forall>x\<in>set (lctx ctx). key_of X x < key" "\<forall>x\<in>set (rctx ctx). key < key_of X x"
proof -
  show "\<forall>x\<in>set (rctx ctx). key < key_of X x" using a by (simp add: around_def)
  show "\<forall>x\<in>set (lctx ctx). key_of X x < key"
  proof
    fix x assume x: "x \<in> set (lctx ctx)"
    hence "key_of X x < key_of X (hd cs)" using o ne by (auto simp: ordered_append)
    moreover have "key_of X (hd cs) \<le> key" using a x by (auto simp: around_def min_key_def)
    ultimately show "key_of X x < key" by simp
  qed
qed

lemma put_around:
  assumes "\<forall>x\<in>set ls. key_of X x < key" "\<forall>x\<in>set rs. key < key_of X x"
  shows "put_cells X key cells (ls @ cs @ rs) = ls @ put_cells X key cells cs @ rs"
    "has_key X key (ls @ cs @ rs) = has_key X key cs"
proof -
  have "filter (\<lambda>x. key_of X x < key) ls = ls" "filter (\<lambda>x. key < key_of X x) ls = []"
    "filter (\<lambda>x. key_of X x < key) rs = []" "filter (\<lambda>x. key < key_of X x) rs = rs"
    using assms by (auto simp: filter_id_conv filter_empty_conv)
  thus "put_cells X key cells (ls @ cs @ rs) = ls @ put_cells X key cells cs @ rs" by (simp add: put_cells_def)
  show "has_key X key (ls @ cs @ rs) = has_key X key cs" using assms by (auto simp: has_key_def)
qed

text \<open>The cells that replace a key keep its order.\<close>

lemma ordered_put:
  assumes o: "ordered X xs" and c: "ordered X cells" "\<forall>c\<in>set cells. key \<le> key_of X c"
    "\<forall>x\<in>set xs. key < key_of X x \<longrightarrow> (\<forall>c\<in>set cells. key_of X c < key_of X x)"
  shows "ordered X (put_cells X key cells xs)"
proof -
  have f: "ordered X (filter P xs)" for P
    using o by (induction xs) (auto simp: ordered_def)
  show ?thesis
    unfolding put_cells_def ordered_append using f c by (auto intro: order.strict_trans1 order.strict_trans2 less_trans)
qed

section \<open>Trees by their contents\<close>

definition tree_with ::
  "('k :: linorder, 'l) codec \<Rightarrow> ('k, 'l) cell_view \<Rightarrow> 's store_view \<Rightarrow> 's \<Rightarrow> 32 word \<Rightarrow> 32 word set \<Rightarrow> nat
    \<Rightarrow> bytes list \<Rightarrow> bool" where
  "tree_with C X V st root P l xs \<longleftrightarrow> valid V st \<and> (\<exists>t. repr C X (heap_of V st) l t \<and> distinct (pages t)
    \<and> leaves t = xs \<and> set (pages t) = P \<and> root = root_page t)"

text \<open>A finished operation on a tree with pages \<open>P\<close>.\<close>

definition op_end ::
  "('k :: linorder, 'l) codec \<Rightarrow> ('k, 'l) cell_view \<Rightarrow> 's store_view \<Rightarrow> 's \<Rightarrow> 32 word set \<Rightarrow> nat
    \<Rightarrow> 's \<Rightarrow> 32 word \<Rightarrow> nat \<Rightarrow> bytes list \<Rightarrow> 32 word set \<Rightarrow> 32 word list \<Rightarrow> bool" where
  "op_end C X V st P r st' root l xs N rt \<longleftrightarrow> tree_with C X V st' root ((P - set rt) \<union> N) l xs
    \<and> grows (heap_of V st) (heap_of V st') P N \<and> distinct rt \<and> length rt \<le> r
    \<and> set rt \<subseteq> P \<inter> hp_own (heap_of V st) - hp_priv (heap_of V st) \<and> room V st \<le> room V st' + r"

lemma op_end_path:
  assumes p: "path_end C X V st P xs key r1 st1 ctx n cs N1 rt"
    and t: "tree_with C X V st2 root (set (n # cpages ctx) \<union> N2) l ys"
    and g: "grows (heap_of V st1) (heap_of V st2) (set (n # cpages ctx)) N2" and r: "room V st1 \<le> room V st2 + r2"
  shows "op_end C X V st P (r1 + r2) st2 root l ys (N1 \<union> N2) rt"
proof -
  have q: "set (n # cpages ctx) = (P - set rt) \<union> N1" and g1: "grows (heap_of V st) (heap_of V st1) P N1"
    using p by (simp_all add: path_end_def)
  have "grows (heap_of V st) (heap_of V st2) P (N1 \<union> N2)"
    using grows_trans [OF g1 g, of P "N1 \<union> N2"] q by auto
  moreover have "tree_with C X V st2 root ((P - set rt) \<union> (N1 \<union> N2)) l ys" using t unfolding q Un_assoc .
  ultimately show ?thesis using p r by (simp add: op_end_def path_end_def)
qed

context tree_store
begin

lemma plug_leaf:
  assumes "valid V st" "leaf_at C X (heap_of V st) ctx n cs"
  shows "tree_with C X V st (croot n ctx) (set (n # cpages ctx)) (length ctx) (lctx ctx @ cs @ rctx ctx)"
proof -
  let ?t = "PLeaf n cs"
  have d: "ctx_ok C X (heap_of V st) 0 (min_key X ?t) (root_page ?t) ctx" "repr C X (heap_of V st) 0 ?t"
    "distinct (pages ?t @ cpages ctx)"
    using assms(2) by (auto simp: leaf_at_def min_key_def priv_page_def)
  have r: "repr C X (heap_of V st) (length ctx) (plug ?t ctx)" using repr_plug [OF d(1,2)] by simp
  have "set (pages (plug ?t ctx)) = set (n # cpages ctx)" "leaves (plug ?t ctx) = lctx ctx @ cs @ rctx ctx"
    by (simp_all add: set_pages_plug leaves_plug)
  thus ?thesis
    unfolding tree_with_def using assms(1) r d(3) distinct_plug [of ?t ctx] root_plug [of ?t ctx]
    by (intro conjI exI [of _ "plug ?t ctx"]) simp_all
qed

lemma leaf_at_keeps_ctx:
  assumes l: "leaf_at C X h ctx n cs" and k: "keeps h h' (- {n})"
  shows "ctx_ok C X h' 0 (key_of X (hd cs)) n ctx"
proof (rule ctx_ok_keeps [OF _ k])
  show "ctx_ok C X h 0 (key_of X (hd cs)) n ctx" "set (cpages ctx) \<subseteq> - {n}" using l by (auto simp: leaf_at_def)
qed

text \<open>A leaf written in place, with the same first key or followed by first-key propagation.\<close>

lemma wrote_leaf:
  assumes l: "leaf_at C X (heap_of V st) ctx n cs" and w: "wrote C V st st' 0 n vs" and ok: "list_all (leaf_ok X) vs"
    and k: "key_of X (hd vs) = key_of X (hd cs)"
  shows "leaf_at C X (heap_of V st') ctx n vs"
proof -
  have "keeps (heap_of V st) (heap_of V st') (- {n})" using w grows_keeps by (auto simp: wrote_def)
  from leaf_at_keeps_ctx [OF l this] show ?thesis using l w ok k by (simp add: leaf_at_def wrote_def)
qed

lemma wrote_leaf_first:
  assumes l: "leaf_at C X (heap_of V st) ctx n cs" and w: "wrote C V st st1 0 n vs" and ok: "list_all (leaf_ok X) vs"
    and k: "key_of X (hd vs) = k"
  shows "\<exists>st'. propagate_first C S st1 root (path_of ctx) k = Inr (st', root) \<and> valid V st'
    \<and> leaf_at C X (heap_of V st') ctx n vs \<and> grows (heap_of V st) (heap_of V st') (set (n # cpages ctx)) {}
    \<and> room V st' = room V st"
proof -
  have g: "grows (heap_of V st) (heap_of V st1) {n} {}" and v: "valid V st1" and p: "priv_page C (heap_of V st1) 0 n vs"
    and r: "room V st1 = room V st" using w by (auto simp: wrote_def)
  have "keeps (heap_of V st) (heap_of V st1) (- {n})" using grows_keeps [OF g] by auto
  note c = leaf_at_keeps_ctx [OF l this]
  have d: "distinct (n # cpages ctx)" using l by (simp add: leaf_at_def)
  obtain st' where q: "propagate_first_from C S st1 root (path_of ctx @ []) (length ctx) k = Inr (st', root)" "valid V st'"
      "ctx_ok C X (heap_of V st') 0 k n ctx" "grows (heap_of V st1) (heap_of V st') (fst ` set ctx) {}" "room V st' = room V st1"
    using propagate_first_ok [OF v c live_page_own [OF priv_live [OF p]], of root "[]" k] d by auto
  have "keeps (heap_of V st1) (heap_of V st') (- set (cpages ctx))"
    by (rule grows_keeps [OF q(4)]) (use frame_pages [of ctx] in auto)
  hence "priv_page C (heap_of V st') 0 n vs" using priv_page_keeps [OF p] d by auto
  hence "leaf_at C X (heap_of V st') ctx n vs" using q(3) ok k d by (simp add: leaf_at_def)
  moreover have "grows (heap_of V st) (heap_of V st') (set (n # cpages ctx)) {}"
    using grows_trans [OF g q(4), of "set (n # cpages ctx)" "{}"] frame_pages [of ctx] by auto
  ultimately show ?thesis using q r by (simp add: propagate_first_def)
qed

section \<open>Insertion\<close>

lemma split_leaf_propagate:
  assumes l: "leaf_at C X (heap_of V st) ctx n cs" and s: "split_to C V st st1 0 n m vs" and ok: "list_all (leaf_ok X) vs"
    and len: "length ctx \<le> MAX_PATH"
    and q: "\<And>st' root L N. tree_with C X V st' root (set (n # cpages ctx) \<union> N) L (lctx ctx @ vs @ rctx ctx) \<Longrightarrow>
      L \<le> Suc (length ctx) \<Longrightarrow> grows (heap_of V st) (heap_of V st') (set (n # cpages ctx)) N \<Longrightarrow>
      room V st \<le> room V st' + (length ctx + 2) \<Longrightarrow> Q (st', root)"
    and e: "room V st < length ctx + 2 \<or> length ctx = MAX_PATH \<Longrightarrow> E"
  shows "rwp (propagate_split C S st1 (croot n ctx) (path_of ctx) n (cell_key C 0 (hd vs)) m
    (cell_key C 0 (vs ! (length vs div 2))) 0) Q E"
proof -
  let ?mid = "length vs div 2"
  let ?l = "PLeaf n (take ?mid vs)" and ?r = "PLeaf m (drop ?mid vs)"
  have g: "grows (heap_of V st) (heap_of V st1) {n} {m}" and v: "valid V st1" and rm: "room V st \<le> Suc (room V st1)"
    and big: "2 \<le> length vs" and pg: "priv_page C (heap_of V st1) 0 n (take ?mid vs)" "priv_page C (heap_of V st1) 0 m (drop ?mid vs)"
    using s by (auto simp: split_to_def)
  have "keeps (heap_of V st) (heap_of V st1) (- {n})" using grows_keeps [OF g] by auto
  hence c: "ctx_ok C X (heap_of V st1) 0 (key_of X (hd cs)) (root_page ?l) ctx" using leaf_at_keeps_ctx [OF l] by simp
  have r: "repr C X (heap_of V st1) 0 ?l" "repr C X (heap_of V st1) 0 ?r"
    using pg ok by (auto simp: priv_page_def list_all_iff dest: in_set_takeD in_set_dropD)
  have d: "distinct (n # cpages ctx)" and own: "set (n # cpages ctx) \<subseteq> hp_own (heap_of V st)"
    using l ctx_ok_own [of C X "heap_of V st" 0 _ n ctx] by (auto simp: leaf_at_def priv_page_def live_page_def)
  have fresh: "m \<notin> set (n # cpages ctx)" using g own by (auto simp: grows_def)
  have dis: "distinct (pages ?l @ pages ?r @ cpages ctx)" using d fresh by auto
  have ko: "cell_key C 0 c = key_of X c" if "c \<in> set vs" for c
    using leaf_key ok that by (auto simp: cell_key_def list_all_iff)
  have "hd vs \<in> set vs" "vs ! ?mid \<in> set vs" using big by (cases vs; simp)+
  hence ks: "min_key X ?l = cell_key C 0 (hd vs)" "min_key X ?r = cell_key C 0 (vs ! ?mid)"
    using ko big by (auto simp: min_key_def hd_take hd_drop_conv_nth)
  have "rwp (propagate_split_from C S st1 (croot (root_page ?l) ctx) (path_of ctx @ []) (length ctx)
      (root_page ?l) (min_key X ?l) (root_page ?r) (min_key X ?r) (lvl_of 0)) Q E"
  proof (rule propagate_split_ok [OF v c r dis])
    show "0 + length ctx \<le> MAX_PATH" using len by simp
    show "E" if "room V st1 \<le> length ctx \<or> 0 + length ctx = MAX_PATH" using e that rm by auto
    fix st' t L N
    assume a: "valid V st'" "repr C X (heap_of V st') L t" "distinct (pages t)"
      "leaves t = lctx ctx @ leaves ?l @ leaves ?r @ rctx ctx" "L \<le> Suc (0 + length ctx)"
      "grows (heap_of V st1) (heap_of V st') (fst ` set ctx) N"
      "set (pages t) = set (pages ?l @ pages ?r @ cpages ctx) \<union> N" "room V st1 \<le> room V st' + Suc (length ctx)"
    have "leaves t = lctx ctx @ vs @ rctx ctx" using a(4) by simp
    moreover have "set (pages t) = set (n # cpages ctx) \<union> insert m N" using a(7) by auto
    ultimately have t: "tree_with C X V st' (root_page t) (set (n # cpages ctx) \<union> insert m N) L (lctx ctx @ vs @ rctx ctx)"
      using a(1-3) by (auto simp: tree_with_def)
    have "grows (heap_of V st) (heap_of V st') (set (n # cpages ctx)) (insert m N)"
      using grows_trans [OF g a(6), of "set (n # cpages ctx)" "insert m N"] frame_pages [of ctx] by auto
    thus "Q (st', root_page t)" using q [OF t] a(5,8) rm by simp
  qed
  thus ?thesis by (simp add: propagate_split_def ks)
qed

lemma leaf_atD:
  assumes "leaf_at C X h ctx n cs"
  shows "priv_page C h 0 n cs" "list_all (leaf_ok X) cs" "cs \<noteq> []"
  using assms by (auto simp: leaf_at_def priv_page_def live_page_def tpage_def)

lemma put_cells_ok: "list_all (leaf_ok X) cs \<Longrightarrow> list_all (leaf_ok X) cells \<Longrightarrow> list_all (leaf_ok X) (put_cells X key cells cs)"
  by (auto simp: put_cells_def list_all_iff)

lemma hd_put_cells:
  assumes "ordered X cs" "lb (map (key_of X) cs) key \<noteq> 0" "cs \<noteq> []"
  shows "hd (put_cells X key cells cs) = hd cs"
proof -
  have "filter (\<lambda>x. key_of X x < key) cs \<noteq> []" "hd (filter (\<lambda>x. key_of X x < key) cs) = hd cs"
    using lb_split(1) [OF assms(1), of key] assms(2,3) by (metis hd_take neq0_conv take_eq_Nil)+
  thus ?thesis by (simp add: put_cells_def)
qed

lemma put_cells_first: "ordered X cs \<Longrightarrow> lb (map (key_of X) cs) key = 0 \<Longrightarrow> hd (put_cells X key (c # cells) cs) = c"
  using lb_split(1) [of X cs key] by (simp add: put_cells_def)

lemma edit_leaf_ok:
  assumes v: "valid V st" and l: "leaf_at C X (heap_of V st) ctx n cs" and o: "ordered X (lctx ctx @ cs @ rctx ctx)"
    and a: "around X (key_of X c) ctx (PLeaf n cs)" and c: "leaf_ok X c" and len: "length ctx \<le> MAX_PATH"
    and q: "\<And>st' root L N. tree_with C X V st' root (set (n # cpages ctx) \<union> N) L
        (put_cells X (key_of X c) [c] (lctx ctx @ cs @ rctx ctx)) \<Longrightarrow> L \<le> Suc (length ctx) \<Longrightarrow>
      grows (heap_of V st) (heap_of V st') (set (n # cpages ctx)) N \<Longrightarrow> room V st \<le> room V st' + (length ctx + 2) \<Longrightarrow>
      Q (st', root, \<not> has_key X (key_of X c) (lctx ctx @ cs @ rctx ctx))"
    and e: "room V st < length ctx + 2 \<or> length ctx = MAX_PATH \<Longrightarrow> E"
  shows "rwp (edit_leaf C S st (croot n ctx) c \<lparr> lt_path = path_of ctx, lt_page = n,
      lt_header = raw_header (hp_page (heap_of V st) n), lt_index = lb (map (key_of X) cs) (key_of X c),
      lt_exists = hit (map (key_of X) cs) (key_of X c) \<rparr>) Q E"
proof -
  let ?p = "hp_page (heap_of V st) n" and ?i = "lb (map (key_of X) cs) (key_of X c)"
    and ?hit = "hit (map (key_of X) cs) (key_of X c)" and ?vs = "put_cells X (key_of X c) [c] cs"
  let ?ed = "\<lparr> ed_index = ?i, ed_replace = ?hit, ed_cell = c \<rparr>"
  note d = leaf_atD [OF l]
  have oc: "ordered X cs" using o by (simp add: ordered_append)
  have tp: "tpage C (hp_txn (heap_of V st)) 0 ?p cs" using priv_tpage [OF d(1)] .
  have lc: "length c = LEAF_SIZE C" using leaf_length [OF c] .
  have i: "if ?hit then ?i < length cs else ?i \<le> length cs"
    using lb_le [of "map (key_of X) cs" "key_of X c"] by (auto simp: hit_def)
  have ed: "edited ?ed cs = ?vs" by (rule edited_put [OF oc])
  have okv: "list_all (leaf_ok X) ?vs" using put_cells_ok d(2) c by simp
  note ar = around_lctx [OF a o d(3)]
  have put: "put_cells X (key_of X c) [c] (lctx ctx @ cs @ rctx ctx) = lctx ctx @ ?vs @ rctx ctx"
    "has_key X (key_of X c) (lctx ctx @ cs @ rctx ctx) = ?hit"
    using put_around [OF ar] lb_split(3) [OF oc] by simp_all
  have ef: "edit_fits C ?p (raw_header ?p) ?ed = Inr (?hit \<or> room_for C 0 (length cs + 1))"
    using edit_fits_ok [OF tp, of ?ed] lc i by (simp add: cell_size_def)
  show ?thesis
  proof (cases "?hit \<or> room_for C 0 (length cs + 1)")
    case False
    have "rwp (split_leaf C S st (croot n ctx) \<lparr> lt_path = path_of ctx, lt_page = n, lt_header = raw_header ?p,
        lt_index = ?i, lt_exists = ?hit \<rparr> ?ed) (\<lambda>(st', root). Q (st', root, True)) E"
    proof (rule split_leaf_ok [OF v d(1)])
      show "\<not> ed_replace ?ed" "ed_index ?ed \<le> length cs" "length (ed_cell ?ed) = LEAF_SIZE C" using False i lc by simp_all
      show "\<not> room_for C 0 (length cs + 1)" using False by simp
      show "readable C 0 (edited ?ed cs)" unfolding ed by (rule leaf_keys(1) [OF okv])
      show "E" if "room V st = 0" using e that by simp
      fix st1 m
      assume s: "split_to C V st st1 0 n m (edited ?ed cs)"
      have lv: "length ?vs = length cs + 1" using False i by (simp add: edited_def flip: ed)
      have "rwp (propagate_split C S st1 (croot n ctx) (path_of ctx) n (cell_key C 0 (hd ?vs)) m
          (cell_key C 0 (?vs ! (length ?vs div 2))) 0) (\<lambda>(st', root). Q (st', root, True)) E"
        using q [unfolded put] False by (intro split_leaf_propagate [OF l s [unfolded ed] okv len _ e]) auto
      thus "rwp (propagate_split C S st1 (croot n ctx) (lt_path \<lparr> lt_path = path_of ctx, lt_page = n, lt_header = raw_header ?p,
          lt_index = ?i, lt_exists = ?hit \<rparr>) n (cell_key C 0 (hd (edited ?ed cs))) m
          (cell_key C 0 (edited ?ed cs ! ((length cs + 1) div 2))) 0) (\<lambda>(st', root). Q (st', root, True)) E"
        using lv by (simp add: ed)
    qed simp_all
    thus ?thesis
      using ef False by (simp add: edit_leaf_def inspect_own [OF v live_page_own [OF priv_live [OF d(1)]]] rwp_rbind split_def)
  next
    case True
    have "\<exists>st'. apply_leaf_edit C S st n (raw_header ?p) ?ed = Inr st' \<and> wrote C V st st' 0 n (edited ?ed cs)"
      by (rule apply_leaf_edit_ok [OF v d(1)]) (use lc i True in simp_all)
    then obtain st1 where w: "apply_leaf_edit C S st n (raw_header ?p) ?ed = Inr st1" "wrote C V st st1 0 n ?vs"
      unfolding ed by blast
    have fin: "Q (st2, croot n ctx, \<not> ?hit)" if "valid V st2" "leaf_at C X (heap_of V st2) ctx n ?vs"
      "grows (heap_of V st) (heap_of V st2) (set (n # cpages ctx)) {}" "room V st2 = room V st" for st2
      using q [of st2 "croot n ctx" "{}" "length ctx"] plug_leaf [OF that(1,2)] that(3,4) unfolding put by simp
    show ?thesis
    proof (cases "?i = 0")
      case True
      have "key_of X (hd ?vs) = key_of X c" using put_cells_first [OF oc True] by simp
      from wrote_leaf_first [OF l w(2) okv this, of "croot n ctx"] fin
      show ?thesis using ef w(1) \<open>?hit \<or> _\<close> True leaf_key [OF c]
        by (auto simp: edit_leaf_def inspect_own [OF v live_page_own [OF priv_live [OF d(1)]]])
    next
      case False
      have la: "leaf_at C X (heap_of V st1) ctx n ?vs"
        using wrote_leaf [OF l w(2) okv] hd_put_cells [OF oc False d(3)] by simp
      have "Q (st1, croot n ctx, \<not> ?hit)"
        using w(2) grows_mono [of "heap_of V st" "heap_of V st1" "{n}" "{}" "set (n # cpages ctx)"]
        by (intro fin [OF _ la]) (auto simp: wrote_def)
      thus ?thesis using ef w(1) \<open>?hit \<or> _\<close> False
        by (simp add: edit_leaf_def inspect_own [OF v live_page_own [OF priv_live [OF d(1)]]])
    qed
  qed
qed

lemma require_leaf_ok: "leaf_ok X c \<Longrightarrow> require_leaf C c = Inr ()"
  using sizes leaf_length [of c] leaf_valid [of c]
  by (auto simp: require_leaf_def require_codec_def layout_consts MAX_TREE_CELL_def)

lemma tree_root_nz:
  assumes "tree_with C X V st root P l xs"
  shows "root \<noteq> 0"
proof -
  obtain t where t: "valid V st" "repr C X (heap_of V st) l t" "root = root_page t" using assms by (auto simp: tree_with_def)
  hence "2 \<le> root" using own_bounds [OF t(1)] repr_own [OF t(2)] root_in_pages by blast
  thus ?thesis by auto
qed

lemma private_path_tree:
  assumes t: "tree_with C X V st root P l xs" and o: "ordered X xs"
    and q: "\<And>st' ctx n cs N rt. path_end C X V st P xs key (Suc l) st' ctx n cs N rt \<Longrightarrow> length ctx = l \<Longrightarrow>
      l \<le> MAX_PATH \<Longrightarrow> ordered X (lctx ctx @ cs @ rctx ctx) \<Longrightarrow>
      Q (st', croot n ctx, ret @ rt, \<lparr> pl_path = path_of ctx, pl_page = n,
        pl_header = raw_header (hp_page (heap_of V st') n),
        pl_selection = (lb (map (key_of X) cs) key, hit (map (key_of X) cs) key) \<rparr>)"
    and e: "room V st < Suc l \<Longrightarrow> E" and r: "ret = [] \<or> length ret + l \<le> MAX_PATH"
  shows "rwp (private_path C S st root key ret) Q E"
proof -
  obtain t where t: "valid V st" "repr C X (heap_of V st) l t" "distinct (pages t)" "leaves t = xs"
      "set (pages t) = P" "root = root_page t" using t by (auto simp: tree_with_def)
  have o': "ordered X (leaves t)" using o t(4) by simp
  have r': "length ret + l \<le> MAX_PATH" using r repr_level [OF t(2)] by auto
  show ?thesis
    unfolding t(6)
  proof (rule private_path_ok [OF t(1-3) o' _ e r'])
    fix st' ctx n cs N rt
    assume pe: "path_end C X V st (set (pages t)) (leaves t) key (Suc l) st' ctx n cs N rt" and len: "length ctx = l"
    have "ordered X (lctx ctx @ cs @ rctx ctx)" using pe o' by (simp add: path_end_def)
    thus "Q (st', croot n ctx, ret @ rt, \<lparr> pl_path = path_of ctx, pl_page = n, pl_header = raw_header (hp_page (heap_of V st') n),
        pl_selection = (lb (map (key_of X) cs) key, hit (map (key_of X) cs) key) \<rparr>)"
      using q [OF pe [unfolded t(4,5)] len] repr_level [OF t(2)] by blast
  qed
qed

lemma insert_leaf_onto:
  assumes t: "tree_with C X V st root P l xs" and o: "ordered X xs" and c: "leaf_ok X c"
    and q: "\<And>st' root' L N rt. op_end C X V st P (2 * l + 3) st' root' L (put_cells X (key_of X c) [c] xs) N rt \<Longrightarrow>
      L \<le> Suc l \<Longrightarrow> Q (st', root', ret @ rt, \<not> has_key X (key_of X c) xs)"
    and e: "room V st < 2 * l + 3 \<or> l = MAX_PATH \<Longrightarrow> E" and r: "ret = [] \<or> length ret + l \<le> MAX_PATH"
  shows "rwp (insert_leaf C S st root c ret) Q E"
proof -
  have "rwp (private_path C S st root (key_of X c) ret)
    (\<lambda>(st', root, rt, leaf). rwp (edit_leaf C S st' root c (inspect_leaf_target leaf))
       (\<lambda>(st, root, ins). Q (st, root, rt, ins)) E) E"
  proof (rule private_path_tree [OF t o _ _ r])
    show "E" if "room V st < Suc l" using e that by simp
    fix st1 ctx n cs N1 rt
    assume p: "path_end C X V st P xs (key_of X c) (Suc l) st1 ctx n cs N1 rt" and len: "length ctx = l" "l \<le> MAX_PATH"
      and o1: "ordered X (lctx ctx @ cs @ rctx ctx)"
    have v: "valid V st1" and la: "leaf_at C X (heap_of V st1) ctx n cs" and xs: "lctx ctx @ cs @ rctx ctx = xs"
      and a: "around X (key_of X c) ctx (PLeaf n cs)" and rm: "room V st \<le> room V st1 + Suc l"
      using p by (auto simp: path_end_def)
    have "rwp (edit_leaf C S st1 (croot n ctx) c \<lparr> lt_path = path_of ctx, lt_page = n,
      lt_header = raw_header (hp_page (heap_of V st1) n), lt_index = lb (map (key_of X) cs) (key_of X c),
      lt_exists = hit (map (key_of X) cs) (key_of X c) \<rparr>) (\<lambda>(st, root, ins). Q (st, root, ret @ rt, ins)) E"
    proof (rule edit_leaf_ok [OF v la o1 a c])
      show "length ctx \<le> MAX_PATH" using len by simp
      show "E" if "room V st1 < length ctx + 2 \<or> length ctx = MAX_PATH" using e that rm len by auto
      fix st2 root2 L N2
      assume b: "tree_with C X V st2 root2 (set (n # cpages ctx) \<union> N2) L (put_cells X (key_of X c) [c] (lctx ctx @ cs @ rctx ctx))"
        "L \<le> Suc (length ctx)" "grows (heap_of V st1) (heap_of V st2) (set (n # cpages ctx)) N2"
        "room V st1 \<le> room V st2 + (length ctx + 2)"
      have oe: "op_end C X V st P (Suc l + (length ctx + 2)) st2 root2 L (put_cells X (key_of X c) [c] xs) (N1 \<union> N2) rt"
        by (rule op_end_path [OF p b(1) [unfolded xs] b(3,4)])
      have n: "Suc l + (length ctx + 2) = 2 * l + 3" using len by simp
      show "case (st2, root2, \<not> has_key X (key_of X c) (lctx ctx @ cs @ rctx ctx)) of
          (st, root, ins) \<Rightarrow> Q (st, root, ret @ rt, ins)" using q [OF oe [unfolded n]] b(2) len xs by simp
    qed
    thus "case (st1, croot n ctx, ret @ rt, \<lparr> pl_path = path_of ctx, pl_page = n, pl_header = raw_header (hp_page (heap_of V st1) n),
        pl_selection = (lb (map (key_of X) cs) (key_of X c), hit (map (key_of X) cs) (key_of X c)) \<rparr>) of
       (st', root, rt, leaf) \<Rightarrow> rwp (edit_leaf C S st' root c (inspect_leaf_target leaf)) (\<lambda>(st, root, ins). Q (st, root, rt, ins)) E"
      by (simp add: inspect_leaf_target_def)
  qed
  thus ?thesis
    using tree_root_nz [OF t] require_leaf_ok [OF c] leaf_key [OF c]
    by (simp add: insert_leaf_def locate_leaf_def rwp_rbind split_def)
qed

lemmas insert_leaf_ok = insert_leaf_onto [where ret = "[]", simplified append_Nil simp_thms True_implies_equals]

lemma insert_empty_ok:
  assumes v: "valid V st" and c: "leaf_ok X c"
    and q: "\<And>st' root'. op_end C X V st {} 1 st' root' 0 [c] {root'} [] \<Longrightarrow> Q (st', root', ret, True)"
    and e: "room V st = 0 \<Longrightarrow> E"
  shows "rwp (insert_leaf C S st 0 c ret) Q E"
proof -
  have "rwp (new_leaf C S st c) (\<lambda>(st', root'). Q (st', root', ret, True)) E"
  proof (rule new_leaf_ok [OF v leaf_length [OF c] _ e])
    fix st' m
    assume a: "added C V st st' 0 m [c]"
    hence "repr C X (heap_of V st') 0 (PLeaf m [c])" using c by (simp add: added_def priv_page_def)
    hence "tree_with C X V st' m {m} 0 [c]"
      using a unfolding tree_with_def added_def by (intro conjI exI [of _ "PLeaf m [c]"]) simp_all
    hence "op_end C X V st {} 1 st' m 0 [c] {m} []" using a by (simp add: op_end_def added_def)
    thus "case (st', m) of (st', root') \<Rightarrow> Q (st', root', ret, True)" using q by simp
  qed
  thus ?thesis using require_leaf_ok [OF c] by (simp add: insert_leaf_def rwp_rbind split_def)
qed

section \<open>Replacement\<close>

lemma increasing_cells_ok:
  assumes "list_all (leaf_ok X) cells" "ordered X cells" "\<forall>c\<in>set cells. prev = None \<or> (\<exists>p. prev = Some p \<and> p < key_of X c)"
  shows "increasing_cells C prev cells = Inr ()"
  using assms
proof (induction cells arbitrary: prev)
  case (Cons c cells)
  have "\<forall>d\<in>set cells. Some (key_of X c) = None \<or> (\<exists>p. Some (key_of X c) = Some p \<and> p < key_of X d)"
    using Cons.prems(2) by (auto simp: ordered_def)
  thus ?case using Cons require_leaf_ok [of c] leaf_key [of c] by (auto simp: ordered_def)
qed simp

lemma require_replacement_ok:
  assumes "list_all (leaf_ok X) cells" "ordered X cells" "2 \<le> length cells" "length cells \<le> 3" "key_of X (hd cells) = key"
  shows "require_replacement C key cells = Inr ()"
proof -
  obtain c ds where cells: "cells = c # ds" using assms(3) by (cases cells) auto
  have "increasing_cells C None cells = Inr ()" by (rule increasing_cells_ok) (use assms in auto)
  thus ?thesis using assms leaf_key [of c] by (simp add: require_replacement_def cells)
qed

lemma replace_target_ok:
  assumes v: "valid V st" and l: "leaf_at C X (heap_of V st) ctx n cs" and o: "ordered X (lctx ctx @ cs @ rctx ctx)"
    and a: "around X key ctx (PLeaf n cs)" and h: "hit (map (key_of X) cs) key"
    and c: "list_all (leaf_ok X) cells" "cells \<noteq> []" "length cells \<le> 3" "key_of X (hd cells) = key"
    and len: "length ctx \<le> MAX_PATH"
    and q: "\<And>st' root L N. tree_with C X V st' root (set (n # cpages ctx) \<union> N) L
        (put_cells X key cells (lctx ctx @ cs @ rctx ctx)) \<Longrightarrow> L \<le> Suc (length ctx) \<Longrightarrow>
      grows (heap_of V st) (heap_of V st') (set (n # cpages ctx)) N \<Longrightarrow> room V st \<le> room V st' + (length ctx + 2) \<Longrightarrow>
      Q (st', root)"
    and e: "room V st < length ctx + 2 \<or> length ctx = MAX_PATH \<Longrightarrow> E"
  shows "rwp (replace_target C S st (croot n ctx) \<lparr> lt_path = path_of ctx, lt_page = n,
      lt_header = raw_header (hp_page (heap_of V st) n), lt_index = lb (map (key_of X) cs) key,
      lt_exists = True \<rparr> cells) Q E"
proof -
  let ?i = "lb (map (key_of X) cs) key" and ?vs = "put_cells X key cells cs"
  note d = leaf_atD [OF l]
  have oc: "ordered X cs" using o by (simp add: ordered_append)
  have i: "?i < length cs" using h by (simp add: hit_def)
  have rp: "replaced ?i cells cs = ?vs" by (rule replaced_put [OF oc h])
  have okv: "list_all (leaf_ok X) ?vs" using put_cells_ok d(2) c(1) by simp
  note ar = around_lctx [OF a o d(3)]
  have put: "put_cells X key cells (lctx ctx @ cs @ rctx ctx) = lctx ctx @ ?vs @ rctx ctx"
    using put_around(1) [OF ar] .
  have hdk: "key_of X (hd ?vs) = key_of X (hd cs)"
  proof (cases "?i = 0")
    case True
    have "cs ! 0 = hd cs" using d(3) by (simp add: hd_conv_nth)
    hence "key_of X (hd cs) = key" using h True d(3) by (simp add: hit_def)
    moreover obtain x ys where "cells = x # ys" using c(2) by (cases cells) auto
    ultimately show ?thesis using put_cells_first [OF oc True] c(4) by auto
  qed (use hd_put_cells [OF oc _ d(3)] in simp)
  have "rwp (apply_replacement C S st n (raw_header (hp_page (heap_of V st) n)) \<lparr> rp_index = ?i, rp_cells = cells \<rparr>)
    (\<lambda>(st, split). rwp (case split of None \<Rightarrow> Inr (st, croot n ctx) | Some split \<Rightarrow>
       if bs_level split \<noteq> 0 then Inl (Corrupt ''B+tree leaf replacement changed level'')
        else propagate_split C S st (croot n ctx) (path_of ctx) n (bs_left_first split)
          (bs_right_page split) (bs_right_first split) 0) Q E) E"
  proof (rule apply_replacement_ok [OF v d(1) i c(2,3)])
    show "\<forall>c\<in>set cells. length c = cell_size C 0" using c(1) leaf_length by (auto simp: list_all_iff cell_size_def)
    show "readable C 0 (replaced ?i cells cs)" unfolding rp by (rule leaf_keys(1) [OF okv])
    show "E" if "room V st = 0" using e that by simp
    fix st1
    assume w: "wrote C V st st1 0 n (replaced ?i cells cs)"
    have la: "leaf_at C X (heap_of V st1) ctx n ?vs" using wrote_leaf [OF l w [unfolded rp] okv hdk] .
    have g: "grows (heap_of V st) (heap_of V st1) (set (n # cpages ctx)) {}" and v1: "valid V st1"
      and rm: "room V st1 = room V st"
      using w grows_mono [of "heap_of V st" "heap_of V st1" "{n}" "{}" "set (n # cpages ctx)"] by (auto simp: wrote_def)
    have "Q (st1, croot n ctx)"
      using q [of st1 "croot n ctx" "{}" "length ctx"] plug_leaf [OF v1 la] g rm unfolding put by simp
    thus "case (st1, None) of (st, split) \<Rightarrow> rwp (case split of None \<Rightarrow> Inr (st, croot n ctx) | Some split \<Rightarrow>
       if bs_level split \<noteq> 0 then Inl (Corrupt ''B+tree leaf replacement changed level'')
        else propagate_split C S st (croot n ctx) (path_of ctx) n (bs_left_first split)
          (bs_right_page split) (bs_right_first split) 0) Q E" by simp
  next
    fix st1 m
    assume s: "split_to C V st st1 0 n m (replaced ?i cells cs)"
    have "rwp (propagate_split C S st1 (croot n ctx) (path_of ctx) n (cell_key C 0 (hd ?vs)) m
          (cell_key C 0 (?vs ! (length ?vs div 2))) 0) Q E"
      using q [unfolded put] by (intro split_leaf_propagate [OF l s [unfolded rp] okv len _ e]) auto
    thus "case (st1, Some \<lparr> bs_right_page = m,
        bs_right_first = cell_key C 0 (replaced ?i cells cs ! (length (replaced ?i cells cs) div 2)),
        bs_left_first = cell_key C 0 (hd (replaced ?i cells cs)), bs_level = 0 \<rparr>) of
      (st, split) \<Rightarrow> rwp (case split of None \<Rightarrow> Inr (st, croot n ctx) | Some split \<Rightarrow>
       if bs_level split \<noteq> 0 then Inl (Corrupt ''B+tree leaf replacement changed level'')
        else propagate_split C S st (croot n ctx) (path_of ctx) n (bs_left_first split)
          (bs_right_page split) (bs_right_first split) 0) Q E" by (simp add: rp)
  qed
  thus ?thesis unfolding replace_target_def rwp_rbind leaf_target.simps split_def .
qed

lemma replace_leaf_with_ok:
  assumes t: "tree_with C X V st root P l xs" and o: "ordered X xs" and k: "has_key X key xs"
    and c: "list_all (leaf_ok X) cells" "ordered X cells" "2 \<le> length cells" "length cells \<le> 3" "key_of X (hd cells) = key"
    and q: "\<And>st' root' L N rt. op_end C X V st P (2 * l + 3) st' root' L (put_cells X key cells xs) N rt \<Longrightarrow>
      L \<le> Suc l \<Longrightarrow> Q (st', root', rt)"
    and e: "room V st < 2 * l + 3 \<or> l = MAX_PATH \<Longrightarrow> E"
  shows "rwp (replace_leaf_with C S st root key cells []) Q E"
proof -
  have ne: "cells \<noteq> []" using c(3) by auto
  have "rwp (private_path C S st root key [])
    (\<lambda>(st', root, rt, leaf). rwp (let target = inspect_leaf_target leaf in
      if \<not> lt_exists target then Inl (Corrupt ''B+tree replacement key is missing'')
      else rbind (replace_target C S st' root target cells) (\<lambda>(st, root). Inr (st, root, rt))) Q E) E"
  proof (rule private_path_tree [where ret = "[]", simplified append_Nil simp_thms True_implies_equals, OF t o])
    show "E" if "room V st < Suc l" using e that by simp
    fix st1 ctx n cs N1 rt
    assume p: "path_end C X V st P xs key (Suc l) st1 ctx n cs N1 rt" and len: "length ctx = l" "l \<le> MAX_PATH"
      and o1: "ordered X (lctx ctx @ cs @ rctx ctx)"
    have v: "valid V st1" and la: "leaf_at C X (heap_of V st1) ctx n cs" and xs: "lctx ctx @ cs @ rctx ctx = xs"
      and a: "around X key ctx (PLeaf n cs)" and rm: "room V st \<le> room V st1 + Suc l"
      using p by (auto simp: path_end_def)
    have oc: "ordered X cs" using o1 by (simp add: ordered_append)
    have h: "hit (map (key_of X) cs) key"
      using k put_around(2) [OF around_lctx [OF a o1 leaf_atD(3) [OF la]], of cs] unfolding xs lb_split(3) [OF oc] by simp
    have "rwp (replace_target C S st1 (croot n ctx) \<lparr> lt_path = path_of ctx, lt_page = n,
      lt_header = raw_header (hp_page (heap_of V st1) n), lt_index = lb (map (key_of X) cs) key,
      lt_exists = True \<rparr> cells) (\<lambda>(st, root). Q (st, root, rt)) E"
    proof (rule replace_target_ok [OF v la o1 a h c(1) ne c(4,5)])
      show "length ctx \<le> MAX_PATH" using len by simp
      show "E" if "room V st1 < length ctx + 2 \<or> length ctx = MAX_PATH" using e that rm len by auto
      fix st2 root2 L N2
      assume b: "tree_with C X V st2 root2 (set (n # cpages ctx) \<union> N2) L (put_cells X key cells (lctx ctx @ cs @ rctx ctx))"
        "L \<le> Suc (length ctx)" "grows (heap_of V st1) (heap_of V st2) (set (n # cpages ctx)) N2"
        "room V st1 \<le> room V st2 + (length ctx + 2)"
      have oe: "op_end C X V st P (Suc l + (length ctx + 2)) st2 root2 L (put_cells X key cells xs) (N1 \<union> N2) rt"
        by (rule op_end_path [OF p b(1) [unfolded xs] b(3,4)])
      have r: "Suc l + (length ctx + 2) = 2 * l + 3" using len by simp
      show "case (st2, root2) of (st, root) \<Rightarrow> Q (st, root, rt)" using q [OF oe [unfolded r]] b(2) len by simp
    qed
    thus "case (st1, croot n ctx, rt, \<lparr> pl_path = path_of ctx, pl_page = n, pl_header = raw_header (hp_page (heap_of V st1) n),
        pl_selection = (lb (map (key_of X) cs) key, hit (map (key_of X) cs) key) \<rparr>) of
       (st', root, rt, leaf) \<Rightarrow> rwp (let target = inspect_leaf_target leaf in
      if \<not> lt_exists target then Inl (Corrupt ''B+tree replacement key is missing'')
      else rbind (replace_target C S st' root target cells) (\<lambda>(st, root). Inr (st, root, rt))) Q E"
      using h by (simp add: inspect_leaf_target_def rwp_rbind split_def)
  qed
  thus ?thesis
    using require_replacement_ok [OF c] by (simp add: replace_leaf_with_def rwp_rbind split_def)
qed

end

end
