(* ===== verification/TreeDelete.thy ===== *)
theory TreeDelete
  imports TreeInsert
begin

text \<open>
  Deletion (\<open>fixed_tree/delete.rs\<close>): a record is removed from its leaf; a leaf that would be
  empty is given back, with every branch above it that only led to it, and a root with a single
  child left is replaced by that child. Then the retiring operations of \<open>fixed_tree.rs\<close>, and
  the contract of all three operations as a whole.
\<close>

section \<open>Finished operations\<close>

text \<open>A tree that may be empty: root 0 owns no page.\<close>

definition tree_in ::
  "('k :: linorder, 'l) codec \<Rightarrow> ('k, 'l) cell_view \<Rightarrow> 's store_view \<Rightarrow> 's \<Rightarrow> 32 word \<Rightarrow> 32 word set \<Rightarrow> nat
    \<Rightarrow> bytes list \<Rightarrow> bool" where
  "tree_in C X V st root P l xs \<longleftrightarrow> root = 0 \<and> P = {} \<and> l = 0 \<and> xs = [] \<and> valid V st \<or> tree_with C X V st root P l xs"

text \<open>An operation on a tree with pages \<open>P\<close> left a tree with pages \<open>P'\<close> and the pages \<open>rt\<close> to
  retire: every other page is unchanged, and no page is lost or shared.\<close>

definition op_done ::
  "('k :: linorder, 'l) codec \<Rightarrow> ('k, 'l) cell_view \<Rightarrow> 's store_view \<Rightarrow> 's \<Rightarrow> 32 word set \<Rightarrow> nat
    \<Rightarrow> 's \<Rightarrow> 32 word \<Rightarrow> nat \<Rightarrow> bytes list \<Rightarrow> 32 word set \<Rightarrow> 32 word list \<Rightarrow> bool" where
  "op_done C X V st P r st' root l xs P' rt \<longleftrightarrow> tree_in C X V st' root P' l xs
    \<and> keeps (heap_of V st) (heap_of V st') (- P)
    \<and> hp_own (heap_of V st') - set rt - P' = hp_own (heap_of V st) - P \<and> P' \<inter> set rt = {} \<and> distinct rt \<and> length rt \<le> r
    \<and> set rt \<subseteq> hp_own (heap_of V st') - hp_priv (heap_of V st') \<and> room V st \<le> room V st' + r"

lemma op_end_done:
  assumes "op_end C X V st P r st' root l xs N rt"
  shows "op_done C X V st P r st' root l xs ((P - set rt) \<union> N) rt"
proof -
  have t: "tree_with C X V st' root ((P - set rt) \<union> N) l xs" and g: "grows (heap_of V st) (heap_of V st') P N"
    and rt: "distinct rt" "set rt \<subseteq> P \<inter> hp_own (heap_of V st) - hp_priv (heap_of V st)" "room V st \<le> room V st' + r"
      "length rt \<le> r"
    using assms by (simp_all add: op_end_def)
  have "keeps (heap_of V st) (heap_of V st') (- P)" by (rule grows_keeps [OF g]) auto
  moreover have "hp_own (heap_of V st') - set rt - ((P - set rt) \<union> N) = hp_own (heap_of V st) - P"
    "((P - set rt) \<union> N) \<inter> set rt = {}" "set rt \<subseteq> hp_own (heap_of V st') - hp_priv (heap_of V st')"
    using g rt(2) by (auto simp: grows_def)
  ultimately show ?thesis using t rt by (simp add: op_done_def tree_in_def)
qed

lemma keeps_trans_own:
  assumes "keeps h h1 A" "keeps h1 h2 B" "A \<inter> hp_own h \<subseteq> B"
  shows "keeps h h2 A"
proof -
  have "n \<in> hp_own h2 \<and> hp_page h2 n = hp_page h n \<and> (n \<in> hp_priv h2 \<longleftrightarrow> n \<in> hp_priv h)" if "n \<in> A \<inter> hp_own h" for n
  proof -
    have "n \<in> hp_own h1 \<and> hp_page h1 n = hp_page h n \<and> (n \<in> hp_priv h1 \<longleftrightarrow> n \<in> hp_priv h)"
      using assms(1) that by (simp add: keeps_def)
    moreover from this have "n \<in> B \<inter> hp_own h1" using assms(3) that by auto
    hence "n \<in> hp_own h2 \<and> hp_page h2 n = hp_page h1 n \<and> (n \<in> hp_priv h2 \<longleftrightarrow> n \<in> hp_priv h1)"
      using assms(2) by (simp add: keeps_def)
    ultimately show ?thesis by simp
  qed
  thus ?thesis using assms(1,2) by (simp add: keeps_def)
qed

text \<open>Operations in sequence hand their replaced pages on.\<close>

lemma op_done_trans:
  assumes a: "op_done C X V st P r st1 root1 l1 xs1 P1 rt1" and b: "op_done C X V st1 P1 r' st2 root2 l2 xs2 P2 rt2"
  shows "op_done C X V st P (r + r') st2 root2 l2 xs2 P2 (rt1 @ rt2)"
proof -
  have k1: "keeps (heap_of V st) (heap_of V st1) (- P)" and o1: "hp_own (heap_of V st1) - set rt1 - P1 = hp_own (heap_of V st) - P"
    and d1: "P1 \<inter> set rt1 = {}" and n1: "set rt1 \<subseteq> hp_own (heap_of V st1) - hp_priv (heap_of V st1)"
    using a by (auto simp: op_done_def)
  have k2: "keeps (heap_of V st1) (heap_of V st2) (- P1)" and o2: "hp_own (heap_of V st2) - set rt2 - P2 = hp_own (heap_of V st1) - P1"
    using b by (auto simp: op_done_def)
  have s: "set rt1 \<subseteq> hp_own (heap_of V st1) - P1" using d1 n1 by auto
  have "keeps (heap_of V st) (heap_of V st2) (- P)"
    by (rule keeps_trans_own [OF k1 k2]) (use o1 in auto)
  moreover have "hp_own (heap_of V st2) - set (rt1 @ rt2) - P2 = hp_own (heap_of V st) - P" using o1 o2 by auto
  moreover have "set rt1 \<inter> set rt2 = {}" "P2 \<inter> set rt1 = {}" using s unfolding o2 [symmetric] by auto
  moreover have "set rt1 \<subseteq> hp_own (heap_of V st2) - hp_priv (heap_of V st2)"
    using s n1 k2 unfolding keeps_def by auto
  ultimately show ?thesis using a b by (auto simp: op_done_def)
qed

lemma op_done_path:
  assumes p: "path_end C X V st P xs key r st1 ctx n cs N rt"
    and t: "tree_in C X V st2 root (set (n # cpages ctx) - D) l ys"
    and s: "shrinks (heap_of V st1) (heap_of V st2) (set (n # cpages ctx)) D" and D: "D \<subseteq> set (n # cpages ctx)"
    and rm: "room V st1 \<le> room V st2"
  shows "op_done C X V st P r st2 root l ys (set (n # cpages ctx) - D) rt"
proof -
  let ?P = "set (n # cpages ctx)"
  have q: "?P = (P - set rt) \<union> N" and g: "grows (heap_of V st) (heap_of V st1) P N"
    and rt: "distinct rt" "set rt \<subseteq> P \<inter> hp_own (heap_of V st) - hp_priv (heap_of V st)" "room V st \<le> room V st1 + r"
      "length rt \<le> r"
    using p by (simp_all add: path_end_def)
  have k1: "keeps (heap_of V st) (heap_of V st1) (- P)" by (rule grows_keeps [OF g]) auto
  have k2: "keeps (heap_of V st1) (heap_of V st2) (- ?P)" by (rule shrinks_keeps [OF s]) (use D in auto)
  have k: "keeps (heap_of V st) (heap_of V st2) (- P)"
    by (rule keeps_trans_own [OF k1 k2]) (use g rt(2) q in \<open>auto simp: grows_def\<close>)
  have o: "hp_own (heap_of V st2) = hp_own (heap_of V st) \<union> N - D" "hp_priv (heap_of V st2) = hp_priv (heap_of V st) \<union> N - D"
    "N \<inter> hp_own (heap_of V st) = {}" using g s by (auto simp: grows_def shrinks_def)
  have "hp_own (heap_of V st2) - set rt - (?P - D) = hp_own (heap_of V st) - P" "(?P - D) \<inter> set rt = {}"
    "set rt \<subseteq> hp_own (heap_of V st2) - hp_priv (heap_of V st2)"
    using o rt(2) D unfolding q by auto
  thus ?thesis using t k rt rm by (simp add: op_done_def)
qed

section \<open>Removal of an empty child\<close>

context tree_store
begin

lemma remove_hole:
  assumes v: "valid V st" and c: "ctx_ok C X (heap_of V st) l k c ((n, ls, rs) # ctx)" and ne: "ls @ rs \<noteq> []"
    and d: "distinct (cpages ((n, ls, rs) # ctx))"
  shows "\<exists>st'. update_page S st n (\<lambda>page. remove_slot_at C page (raw_header (hp_page (heap_of V st) n)) (length ls)) = Inr st'
    \<and> wrote C V st st' (lvl_of (Suc l)) n (map (child_cell X) (ls @ rs))
    \<and> repr C X (heap_of V st') (Suc l) (PNode n (ls @ rs))
    \<and> ctx_ok C X (heap_of V st') (Suc l) (if ls = [] then k else min_key X (hd ls)) n ctx"
proof -
  note e = ctx_ok_ConsD [OF c]
  have "1 < length (map (child_cell X) ls @ bcell X k c # map (child_cell X) rs)" using ne by auto
  then obtain st' where u: "update_page S st n (\<lambda>page. remove_slot_at C page (raw_header (hp_page (heap_of V st) n)) (length ls)) = Inr st'"
      and w: "wrote C V st st' (lvl_of (Suc l)) n (map (child_cell X) (ls @ rs))"
    using remove_slot_ok [OF v e(1), of "length ls"] by (auto simp: remove_at_def)
  have k: "keeps (heap_of V st) (heap_of V st') (- {n})" using w grows_keeps by (auto simp: wrote_def)
  have "list_all (repr C X (heap_of V st') l) (ls @ rs)"
    using e(3) d by (auto simp: list_all_iff intro!: repr_keeps [OF _ k])
  hence "repr C X (heap_of V st') (Suc l) (PNode n (ls @ rs))" using w e(5) by (simp add: wrote_def priv_page_def)
  moreover have "ctx_ok C X (heap_of V st') (Suc l) (if ls = [] then k else min_key X (hd ls)) n ctx"
    by (rule ctx_ok_keeps [OF e(4) k]) (use d in auto)
  ultimately show ?thesis using u w by blast
qed

text \<open>After the hole of a context is gone, the tree consists of the leaves beside the path.\<close>

definition hole_gone :: "'s \<Rightarrow> nat \<Rightarrow> tctx \<Rightarrow> 's \<Rightarrow> 32 word \<Rightarrow> bool" where
  "hole_gone st l ctx st' root \<longleftrightarrow> valid V st' \<and> room V st \<le> room V st'
    \<and> (\<exists>D. shrinks (heap_of V st) (heap_of V st') (fst ` set ctx) D \<and> D \<subseteq> fst ` set ctx
      \<and> (root = 0 \<and> lctx ctx @ rctx ctx = [] \<and> D = set (cpages ctx)
        \<or> (\<exists>L. tree_with C X V st' root (set (cpages ctx) - D) L (lctx ctx @ rctx ctx) \<and> L \<le> l + length ctx)))"

lemma hole_plug:
  assumes v: "valid V st'" and r: "repr C X (heap_of V st') (Suc l) (PNode n (ls @ rs))"
    and c: "ctx_ok C X (heap_of V st') (Suc l) (min_key X (PNode n (ls @ rs))) n ctx"
    and d: "distinct (cpages ((n, ls, rs) # ctx))" and g: "grows (heap_of V st) (heap_of V st') (fst ` set ((n, ls, rs) # ctx)) {}"
    and rm: "room V st' = room V st"
  shows "hole_gone st l ((n, ls, rs) # ctx) st' (croot n ctx)"
proof -
  let ?t = "PNode n (ls @ rs)"
  have "repr C X (heap_of V st') (Suc l + length ctx) (plug ?t ctx)" using repr_plug [OF _ r] c by simp
  moreover have "distinct (pages (plug ?t ctx))" using d by (simp add: distinct_plug)
  moreover have "leaves (plug ?t ctx) = lctx ((n, ls, rs) # ctx) @ rctx ((n, ls, rs) # ctx)" by (simp add: leaves_plug)
  moreover have "set (pages (plug ?t ctx)) = set (cpages ((n, ls, rs) # ctx)) - {}" by (auto simp: set_pages_plug)
  ultimately have "tree_with C X V st' (croot n ctx) (set (cpages ((n, ls, rs) # ctx)) - {}) (Suc l + length ctx)
      (lctx ((n, ls, rs) # ctx) @ rctx ((n, ls, rs) # ctx))"
    unfolding tree_with_def using v by (intro conjI exI [of _ "plug ?t ctx"]) (simp_all add: root_plug)
  thus ?thesis
    unfolding hole_gone_def using v rm shrinks_of_grows [OF g]
    by (intro conjI exI [of _ "{}"] disjI2 exI [of _ "Suc l + length ctx"]) simp_all
qed

lemma hole_discard:
  assumes v: "valid V st" and c: "ctx_ok C X (heap_of V st) l k c ((n, [], []) # ctx)"
    and d: "distinct (cpages ((n, [], []) # ctx))"
  shows "\<exists>st'. discard_private S st n = Inr st' \<and> valid V st' \<and> shrinks (heap_of V st) (heap_of V st') {} {n}
    \<and> room V st \<le> room V st' \<and> ctx_ok C X (heap_of V st') (Suc l) k n ctx"
proof -
  note e = ctx_ok_ConsD [OF c]
  obtain st' where s: "discard_private S st n = Inr st'" "valid V st'" "shrinks (heap_of V st) (heap_of V st') {} {n}"
      "room V st \<le> room V st'"
    using discard_ok [OF v e(1)] by blast
  have "keeps (heap_of V st) (heap_of V st') (- {n})" by (rule shrinks_keeps [OF s(3)]) auto
  hence "ctx_ok C X (heap_of V st') (Suc l) k n ctx" using ctx_ok_keeps [OF e(4)] d by auto
  thus ?thesis using s by blast
qed

lemma hole_gone_discard:
  assumes h: "hole_gone st1 (Suc l) ctx st2 root" and s: "shrinks (heap_of V st) (heap_of V st1) {} {n}"
    and r: "room V st \<le> room V st1" and n: "n \<notin> set (cpages ctx)"
  shows "hole_gone st l ((n, [], []) # ctx) st2 root"
proof -
  obtain D where D: "shrinks (heap_of V st1) (heap_of V st2) (fst ` set ctx) D" "D \<subseteq> fst ` set ctx"
      and t: "root = 0 \<and> lctx ctx @ rctx ctx = [] \<and> D = set (cpages ctx)
        \<or> (\<exists>L. tree_with C X V st2 root (set (cpages ctx) - D) L (lctx ctx @ rctx ctx) \<and> L \<le> Suc l + length ctx)"
    using h by (auto simp: hole_gone_def)
  have "set (cpages ((n, [], []) # ctx)) - insert n D = set (cpages ctx) - D" using n by auto
  thus ?thesis
    unfolding hole_gone_def using h r t D(2) shrinks_trans [OF s D(1), of "fst ` set ((n, [], []) # ctx)" "insert n D"]
    by (intro conjI exI [of _ "insert n D"]) (auto simp: hole_gone_def)
qed

lemma remove_empty_ok:
  "valid V st \<Longrightarrow> ctx_ok C X (heap_of V st) l k c ctx \<Longrightarrow> distinct (cpages ctx) \<Longrightarrow> ctx \<noteq> [] \<Longrightarrow>
   \<exists>st' root. remove_empty_from C S st (croot c ctx) (path_of ctx @ rest) (length ctx) = Inr (st', root)
     \<and> hole_gone st l ctx st' root"
proof (induction ctx arbitrary: st l k c rest)
  case (Cons f ctx)
  obtain n ls rs where f: "f = (n, ls, rs)" by (cases f)
  note v = Cons.prems(1) and c = Cons.prems(2) [unfolded f] and dis = Cons.prems(3) [unfolded f]
  note e = ctx_ok_ConsD [OF c]
  let ?p = "hp_page (heap_of V st) n"
  have nth: "(path_of (f # ctx) @ rest) ! length ctx = cframe (n, ls, rs)" using f by (simp add: nth_append)
  have fr: "fr_page (cframe (n, ls, rs)) = n" "fr_index (cframe (n, ls, rs)) = length ls" by (simp_all add: cframe_def)
  have ins: "inspect_page S st n (\<lambda>page. parse_page C page (target_txn S st) None) = Inr (raw_header ?p)"
    using live_parse [OF v priv_live [OF e(1)], of None] by (simp add: inspect_own [OF v live_page_own [OF priv_live [OF e(1)]]])
  have cnt: "h_item_count (raw_header ?p) = Suc (length ls + length rs)" "h_level (raw_header ?p) = lvl_of (Suc l)"
    using live_header [OF priv_live [OF e(1)]] by simp_all
  note unf = remove_empty_from.simps(2) [of C S st "croot c (f # ctx)" "path_of (f # ctx) @ rest" "length ctx"]
  have n: "n \<notin> set (cpages ctx)" "distinct (cpages ctx)" using dis by auto
  show ?case
  proof (cases "ls @ rs = []")
    case True
    hence ls: "ls = []" "rs = []" by auto
    obtain st1 where s: "discard_private S st n = Inr st1" "valid V st1" "shrinks (heap_of V st) (heap_of V st1) {} {n}"
        "room V st \<le> room V st1" "ctx_ok C X (heap_of V st1) (Suc l) k n ctx"
      using hole_discard [OF v] c dis unfolding ls by blast
    show ?thesis
    proof (cases "ctx = []")
      case True
      have "hole_gone st l (f # ctx) st1 0"
        unfolding hole_gone_def f ls True using s(2-4) shrinks_mono [OF s(3), of "{n}"]
        by (intro conjI exI [of _ "{n}"] disjI1) simp_all
      thus ?thesis using unf nth fr ins cnt s(1) by (simp add: True ls Let_def)
    next
      case False
      obtain st2 root where q: "remove_empty_from C S st1 (croot n ctx) (path_of ctx @ (cframe f # rest)) (length ctx) = Inr (st2, root)"
          "hole_gone st1 (Suc l) ctx st2 root"
        using Cons.IH [OF s(2,5) n(2) False, of "cframe f # rest"] by blast
      thus ?thesis
        using unf nth fr ins cnt s(1) False hole_gone_discard [OF q(2) s(3,4) n(1)] by (simp add: f ls Let_def)
    qed
  next
    case ne: False
    obtain st1 where u: "update_page S st n (\<lambda>page. remove_slot_at C page (raw_header ?p) (length ls)) = Inr st1"
        and w: "wrote C V st st1 (lvl_of (Suc l)) n (map (child_cell X) (ls @ rs))"
        and r: "repr C X (heap_of V st1) (Suc l) (PNode n (ls @ rs))"
        and c1: "ctx_ok C X (heap_of V st1) (Suc l) (if ls = [] then k else min_key X (hd ls)) n ctx"
      using remove_hole [OF v c ne dis] by blast
    have v1: "valid V st1" and g: "grows (heap_of V st) (heap_of V st1) {n} {}" and rm: "room V st1 = room V st"
      and p: "priv_page C (heap_of V st1) (lvl_of (Suc l)) n (map (child_cell X) (ls @ rs))" using w by (auto simp: wrote_def)
    note l1 = priv_live [OF p] and nd = repr_nodeD [OF r]
    have mk: "min_key X (PNode n (ls @ rs)) = min_key X (hd (ls @ rs))"
      using nd(4) ne by (intro min_key_node_hd) (auto simp: hd_append)
    have many: "\<not> h_item_count (raw_header ?p) = 1" using cnt ne by auto
    have gf: "grows (heap_of V st) (heap_of V st1) (fst ` set (f # ctx)) {}" using grows_mono [OF g] f by auto
    show ?thesis
    proof (cases "ctx = [] \<and> length ls + length rs = 1")
      case True
      then obtain t where t: "ls @ rs = [t]" by (cases ls; cases rs) auto
      have own: "root_page t \<in> hp_own (heap_of V st1)" using nd(3) t repr_own [of C X "heap_of V st1" l t] by auto
      have "branch_child C (hp_page (heap_of V st1) n) (raw_header (hp_page (heap_of V st1) n)) 0 (page_limit S st1) = Inr (root_page t)"
        using branch_child_ok [OF live_tpage [OF l1] e(2), of 0 "min_key X t" "root_page t" "page_limit S st1"]
          own_bounds [OF v1 own] t by (simp add: child_cell_def)
      hence bc: "inspect_page S st1 n (\<lambda>page. rbind (parse_page C page (target_txn S st1) (Some (lvl_of (Suc l)))) (\<lambda>output.
          branch_child C page output 0 (page_limit S st1))) = Inr (root_page t)"
        using live_parse [OF v1 l1, of "Some (lvl_of (Suc l))"] by (simp add: inspect_own [OF v1 live_page_own [OF l1]])
      obtain st2 where s: "discard_private S st1 n = Inr st2" "valid V st2" "shrinks (heap_of V st1) (heap_of V st2) {} {n}"
          "room V st1 \<le> room V st2" using discard_ok [OF v1 p] by blast
      have k2: "keeps (heap_of V st1) (heap_of V st2) (- {n})" by (rule shrinks_keeps [OF s(3)]) auto
      have pg: "set (cpages ((n, ls, rs) # ctx)) = insert n (set (pages t))" "n \<notin> set (pages t)" "distinct (pages t)"
        using dis True t by (cases ls; auto)+
      have "repr C X (heap_of V st2) l t" using nd(3) t pg(2) by (intro repr_keeps [OF _ k2]) auto
      moreover have "lctx (f # ctx) @ rctx (f # ctx) = leaves t" using f True t by (cases ls) auto
      ultimately have "tree_with C X V st2 (root_page t) (set (cpages (f # ctx)) - {n}) l (lctx (f # ctx) @ rctx (f # ctx))"
        using pg s(2) f unfolding tree_with_def by (intro conjI exI [of _ t]) auto
      hence "hole_gone st l (f # ctx) st2 (root_page t)"
        unfolding hole_gone_def
        using s(2,4) rm shrinks_trans [OF shrinks_of_grows [OF gf] s(3), of "fst ` set (f # ctx)" "{n}"] f
        by (intro conjI exI [of _ "{n}"] disjI2 exI [of _ l]) auto
      moreover have "target_txn S st1 = target_txn S st" using txn(1) [OF v] txn(1) [OF v1] grows_txn [OF g] by simp
      ultimately show ?thesis
        using unf nth fr ins many u bc s(1) True cnt by (auto simp: Let_def)
    next
      case False
      hence nc: "\<not> (length ctx = 0 \<and> h_item_count (raw_header ?p) - 1 = 1)" using cnt by auto
      show ?thesis
      proof (cases "ls = []")
        case True
        have fk: "first_key C S st1 n (lvl_of (Suc l)) = Inr (min_key X (hd rs))"
          using first_key_ok [OF v1 l1 bcells_readable(4) [OF e(2)]] bcells_readable(2) [OF e(2)] ne True by (simp add: hd_map)
        obtain st2 where q: "propagate_first_from C S st1 (croot n ctx) (path_of ctx @ (cframe f # rest)) (length ctx) (min_key X (hd rs))
              = Inr (st2, croot n ctx)" "valid V st2" "ctx_ok C X (heap_of V st2) (Suc l) (min_key X (hd rs)) n ctx"
            "grows (heap_of V st1) (heap_of V st2) (fst ` set ctx) {}" "room V st2 = room V st1"
          using propagate_first_ok [OF v1 c1 live_page_own [OF l1] n(2), of "croot n ctx" "cframe f # rest" "min_key X (hd rs)"] by blast
        have "keeps (heap_of V st1) (heap_of V st2) (- set (cpages ctx))"
          by (rule grows_keeps [OF q(4)]) (use frame_pages [of ctx] in auto)
        hence r2: "repr C X (heap_of V st2) (Suc l) (PNode n (ls @ rs))" by (rule repr_keeps [OF r]) (use dis in auto)
        have "grows (heap_of V st) (heap_of V st2) (fst ` set ((n, ls, rs) # ctx)) {}"
          using grows_trans [OF g q(4), of "fst ` set ((n, ls, rs) # ctx)" "{}"] by auto
        from hole_plug [OF q(2) r2 _ dis this] show ?thesis
          using unf nth fr ins many u nc fk q cnt True mk rm by (auto simp: f Let_def)
      next
        case ls: False
        from hole_plug [OF v1 r _ dis gf [unfolded f] rm] show ?thesis
          using unf nth fr ins many u nc c1 mk ls by (auto simp: f Let_def)
      qed
    qed
  qed
qed simp

section \<open>Deletion of a key\<close>

lemma remove_leaf_record_ok:
  assumes v: "valid V st" and l: "leaf_at C X (heap_of V st) ctx n cs" and o: "ordered X cs"
    and h: "hit (map (key_of X) cs) key" and many: "1 < length cs"
  shows "\<exists>st'. remove_leaf_record C S st (croot n ctx) \<lparr> dt_path = path_of ctx, dt_page = n,
      dt_header = raw_header (hp_page (heap_of V st) n), dt_index = lb (map (key_of X) cs) key \<rparr> = Inr (st', croot n ctx)
    \<and> valid V st' \<and> leaf_at C X (heap_of V st') ctx n (put_cells X key [] cs)
    \<and> grows (heap_of V st) (heap_of V st') (set (n # cpages ctx)) {} \<and> room V st' = room V st"
proof -
  let ?i = "lb (map (key_of X) cs) key" and ?vs = "put_cells X key [] cs"
  note d = leaf_atD [OF l]
  have i: "?i < length cs" using h by (simp add: hit_def)
  have vs: "remove_at ?i cs = ?vs" using replaced_put [OF o h, of "[]"] by (simp add: replaced_def remove_at_def)
  have okv: "list_all (leaf_ok X) ?vs" using put_cells_ok d(2) by simp
  obtain st1 where w: "update_page S st n (\<lambda>page. remove_slot_at C page (raw_header (hp_page (heap_of V st) n)) ?i) = Inr st1"
      "wrote C V st st1 0 n ?vs"
    using remove_slot_ok [OF v d(1) i many] unfolding vs by blast
  have v1: "valid V st1" and g: "grows (heap_of V st) (heap_of V st1) {n} {}" and rm: "room V st1 = room V st"
    and p: "priv_page C (heap_of V st1) 0 n ?vs" using w(2) by (auto simp: wrote_def)
  show ?thesis
  proof (cases "?i = 0")
    case True
    have ne: "?vs \<noteq> []" using priv_tpage [OF p] by (simp add: tpage_def)
    have "cell_key C 0 (hd ?vs) = key_of X (hd ?vs)"
      using leaf_key okv ne by (cases ?vs) (auto simp: cell_key_def)
    hence "first_key C S st1 n 0 = Inr (key_of X (hd ?vs))"
      using first_key_ok [OF v1 priv_live [OF p] leaf_keys(1) [OF okv]] by simp
    thus ?thesis using wrote_leaf_first [OF l w(2) okv refl, of "croot n ctx"] w(1) True by (auto simp: remove_leaf_record_def)
  next
    case False
    have "leaf_at C X (heap_of V st1) ctx n ?vs"
      using wrote_leaf [OF l w(2) okv] hd_put_cells [OF o False d(3)] by simp
    thus ?thesis using w(1) False v1 rm grows_mono [OF g] by (auto simp: remove_leaf_record_def)
  qed
qed

lemma delete_target_ok:
  assumes p: "path_end C X V st P xs key r st1 ctx n cs N rt" and o: "ordered X xs" and h: "hit (map (key_of X) cs) key"
  shows "\<exists>st2 root L P'. delete_target C S st1 (croot n ctx) \<lparr> dt_path = path_of ctx, dt_page = n,
      dt_header = raw_header (hp_page (heap_of V st1) n), dt_index = lb (map (key_of X) cs) key \<rparr> = Inr (st2, root)
    \<and> op_done C X V st P r st2 root L (put_cells X key [] xs) P' rt \<and> L \<le> length ctx"
proof -
  have v: "valid V st1" and la: "leaf_at C X (heap_of V st1) ctx n cs" and xs: "lctx ctx @ cs @ rctx ctx = xs"
    and a: "around X key ctx (PLeaf n cs)" using p by (auto simp: path_end_def)
  have o1: "ordered X (lctx ctx @ cs @ rctx ctx)" "ordered X cs" using o xs by (auto simp: ordered_append)
  note d = leaf_atD [OF la]
  have put: "put_cells X key [] xs = lctx ctx @ put_cells X key [] cs @ rctx ctx"
    using put_around(1) [OF around_lctx [OF a o1(1) d(3)], of "[]" cs] unfolding xs .
  have cnt: "h_item_count (raw_header (hp_page (heap_of V st1) n)) = length cs" using live_header [OF priv_live [OF d(1)]] by simp
  show ?thesis
  proof (cases "1 < length cs")
    case True
    obtain st2 where q: "remove_leaf_record C S st1 (croot n ctx) \<lparr> dt_path = path_of ctx, dt_page = n,
        dt_header = raw_header (hp_page (heap_of V st1) n), dt_index = lb (map (key_of X) cs) key \<rparr> = Inr (st2, croot n ctx)"
        "valid V st2" "leaf_at C X (heap_of V st2) ctx n (put_cells X key [] cs)"
        "grows (heap_of V st1) (heap_of V st2) (set (n # cpages ctx)) {}" "room V st2 = room V st1"
      using remove_leaf_record_ok [OF v la o1(2) h True] by blast
    have "op_done C X V st P r st2 (croot n ctx) (length ctx) (put_cells X key [] xs) (set (n # cpages ctx) - {}) rt"
      using plug_leaf [OF q(2,3)] shrinks_of_grows [OF q(4)] q(5) unfolding put
      by (intro op_done_path [OF p]) (auto simp: tree_in_def)
    thus ?thesis using q(1) True cnt by (auto simp: delete_target_def)
  next
    case False
    then obtain c where c: "cs = [c]" using d(3) by (cases cs) auto
    have vs: "put_cells X key [] xs = lctx ctx @ rctx ctx" using h put by (simp add: put_cells_def c hit_def lb_def split: if_splits)
    obtain st2 where s: "discard_private S st1 n = Inr st2" "valid V st2" "shrinks (heap_of V st1) (heap_of V st2) {} {n}"
        "room V st1 \<le> room V st2" using discard_ok [OF v d(1)] by blast
    have dis: "distinct (n # cpages ctx)" and ct: "ctx_ok C X (heap_of V st1) 0 (key_of X (hd cs)) n ctx"
      using la by (auto simp: leaf_at_def)
    have "keeps (heap_of V st1) (heap_of V st2) (- {n})" by (rule shrinks_keeps [OF s(3)]) auto
    hence c2: "ctx_ok C X (heap_of V st2) 0 (key_of X (hd cs)) n ctx" by (rule ctx_ok_keeps [OF ct]) (use dis in auto)
    show ?thesis
    proof (cases "ctx = []")
      case True
      have "op_done C X V st P r st2 0 0 (put_cells X key [] xs) (set (n # cpages ctx) - {n}) rt"
        using s(2,4) shrinks_mono [OF s(3)] vs True by (intro op_done_path [OF p]) (auto simp: tree_in_def)
      moreover have "delete_target C S st1 (croot n ctx) \<lparr> dt_path = path_of ctx, dt_page = n,
          dt_header = raw_header (hp_page (heap_of V st1) n), dt_index = lb (map (key_of X) cs) key \<rparr> = Inr (st2, 0)"
        using s(1) cnt c True by (simp add: delete_target_def remove_empty_child_def path_of_def)
      ultimately show ?thesis by blast
    next
      case False
      obtain st3 root where q: "remove_empty_from C S st2 (croot n ctx) (path_of ctx @ []) (length ctx) = Inr (st3, root)"
          "hole_gone st2 0 ctx st3 root"
        using remove_empty_ok [OF s(2) c2 _ False, of "[]"] dis by auto
      then obtain D where D: "shrinks (heap_of V st2) (heap_of V st3) (fst ` set ctx) D" "D \<subseteq> fst ` set ctx" "room V st2 \<le> room V st3"
          and t: "root = 0 \<and> lctx ctx @ rctx ctx = [] \<and> D = set (cpages ctx)
            \<or> (\<exists>L. tree_with C X V st3 root (set (cpages ctx) - D) L (lctx ctx @ rctx ctx) \<and> L \<le> 0 + length ctx)"
          and v3: "valid V st3" unfolding hole_gone_def by blast
      have sh: "shrinks (heap_of V st1) (heap_of V st3) (set (n # cpages ctx)) (insert n D)"
        using shrinks_trans [OF s(3) D(1), of "set (n # cpages ctx)" "insert n D"] frame_pages [of ctx] by auto
      have pg: "set (n # cpages ctx) - insert n D = set (cpages ctx) - D" using dis by auto
      have "\<exists>L\<le>length ctx. tree_in C X V st3 root (set (n # cpages ctx) - insert n D) L (put_cells X key [] xs)"
        using t v3 unfolding pg vs tree_in_def by auto
      then obtain L where L: "L \<le> length ctx"
          "tree_in C X V st3 root (set (n # cpages ctx) - insert n D) L (put_cells X key [] xs)" by blast
      have "op_done C X V st P r st3 root L (put_cells X key [] xs) (set (n # cpages ctx) - insert n D) rt"
        by (rule op_done_path [OF p L(2) sh]) (use D s(4) frame_pages [of ctx] in auto)
      moreover have "delete_target C S st1 (croot n ctx) \<lparr> dt_path = path_of ctx, dt_page = n,
          dt_header = raw_header (hp_page (heap_of V st1) n), dt_index = lb (map (key_of X) cs) key \<rparr> = Inr (st3, root)"
        using s(1) cnt c False q(1) by (simp add: delete_target_def remove_empty_child_def path_of_def)
      ultimately show ?thesis using L(1) by blast
    qed
  qed
qed

lemma delete_existing_onto:
  assumes t: "tree_with C X V st root P l xs" and o: "ordered X xs" and k: "has_key X key xs"
    and q: "\<And>st' root' L P' rt. op_done C X V st P (Suc l) st' root' L (put_cells X key [] xs) P' rt \<Longrightarrow> L \<le> l \<Longrightarrow>
      Q (st', root', ret @ rt)"
    and e: "room V st < Suc l \<Longrightarrow> E" and r: "ret = [] \<or> length ret + l \<le> MAX_PATH"
  shows "rwp (delete_existing C S st root key ret) Q E"
proof -
  have "rwp (private_path C S st root key ret)
    (\<lambda>(st', root, rt, leaf). rwp (if \<not> snd (pl_selection leaf) then Inl (Corrupt ''B+tree key disappeared during deletion'')
      else rbind (delete_target C S st' root \<lparr> dt_path = pl_path leaf, dt_page = pl_page leaf, dt_header = pl_header leaf,
        dt_index = fst (pl_selection leaf) \<rparr>) (\<lambda>(st, root). Inr (st, root, rt))) Q E) E"
  proof (rule private_path_tree [OF t o _ e r])
    fix st1 ctx n cs N rt
    assume p: "path_end C X V st P xs key (Suc l) st1 ctx n cs N rt" and len: "length ctx = l"
      and o1: "ordered X (lctx ctx @ cs @ rctx ctx)"
    have la: "leaf_at C X (heap_of V st1) ctx n cs" and xs: "lctx ctx @ cs @ rctx ctx = xs"
      and a: "around X key ctx (PLeaf n cs)" using p by (auto simp: path_end_def)
    have "ordered X cs" using o1 by (simp add: ordered_append)
    hence h: "hit (map (key_of X) cs) key"
      using k put_around(2) [OF around_lctx [OF a o1 leaf_atD(3) [OF la]], of cs] lb_split(3) [of X cs key] unfolding xs by simp
    obtain st2 root2 L P' where "delete_target C S st1 (croot n ctx) \<lparr> dt_path = path_of ctx, dt_page = n,
        dt_header = raw_header (hp_page (heap_of V st1) n), dt_index = lb (map (key_of X) cs) key \<rparr> = Inr (st2, root2)"
        "op_done C X V st P (Suc l) st2 root2 L (put_cells X key [] xs) P' rt" "L \<le> length ctx"
      using delete_target_ok [OF p o h] by blast
    thus "case (st1, croot n ctx, ret @ rt, \<lparr> pl_path = path_of ctx, pl_page = n, pl_header = raw_header (hp_page (heap_of V st1) n),
        pl_selection = (lb (map (key_of X) cs) key, hit (map (key_of X) cs) key) \<rparr>) of
       (st', root, rt, leaf) \<Rightarrow> rwp (if \<not> snd (pl_selection leaf) then Inl (Corrupt ''B+tree key disappeared during deletion'')
      else rbind (delete_target C S st' root \<lparr> dt_path = pl_path leaf, dt_page = pl_page leaf, dt_header = pl_header leaf,
        dt_index = fst (pl_selection leaf) \<rparr>) (\<lambda>(st, root). Inr (st, root, rt))) Q E"
      using q h len by simp
  qed
  thus ?thesis
    by (cases "private_path C S st root key ret")
      (auto simp: delete_existing_def locate_existing_def split_def split: if_splits)
qed

lemmas delete_existing_ok = delete_existing_onto [where ret = "[]", simplified append_Nil simp_thms True_implies_equals]


end

end
