(* ===== verification/TreeRead.thy ===== *)
theory TreeRead
  imports TreeDelete
begin

text \<open>
  Reading a tree (\<open>fixed_tree/query.rs\<close>, \<open>fixed_tree/cursor.rs\<close>, \<open>fixed_tree/read.rs\<close>). A page
  source serves a heap when it returns the pages of the heap. The cursor's state is a position
  in the tree: a leaf with its context and an index, which determines what is left to read.
\<close>

section \<open>Page sources\<close>

definition serves :: "page_source \<Rightarrow> heap \<Rightarrow> bool" where
  "serves src h \<longleftrightarrow> selected_txn src = hp_txn h
    \<and> (\<forall>n\<in>hp_own h. view_page src n = Inr (hp_page h n) \<and> 2 \<le> n \<and> ucast n < selected_page_limit src)"

context store_laws
begin

lemma store_serves: "valid V st \<Longrightarrow> serves (store_source S st) (heap_of V st)"
  using txn(1) own_read own_bounds by (simp add: serves_def store_source_def)

end

section \<open>Positions\<close>

fun cpath :: "nat \<Rightarrow> tctx \<Rightarrow> cursor_frame list" where
  "cpath l [] = []"
| "cpath l ((n, ls, rs) # ctx) = cpath (Suc l) ctx @
    [\<lparr> cf_page = n, cf_index = length ls, cf_item_count = length ls + Suc (length rs), cf_level = lvl_of (Suc l) \<rparr>]"

lemma length_cpath [simp]: "length (cpath l ctx) = length ctx"
  by (induction l ctx rule: cpath.induct) auto

lemma repr_plugD: "repr C X h (l + length ctx) (plug t ctx) \<Longrightarrow> repr C X h l t"
proof (induction ctx arbitrary: l t)
  case (Cons f ctx)
  obtain n ls rs where f: "f = (n, ls, rs)" by (cases f)
  have "repr C X h (Suc l) (PNode n (ls @ t # rs))" by (rule Cons.IH) (use Cons.prems f in simp)
  thus ?case by simp
qed simp

definition cur_on :: "cursor \<Rightarrow> page_source \<Rightarrow> direction \<Rightarrow> nat \<Rightarrow> tctx \<Rightarrow> bool" where
  "cur_on self src dir l ctx \<longleftrightarrow> cu_selected_txn self = selected_txn src \<and> cu_page_limit self = selected_page_limit src
    \<and> cu_direction self = dir \<and> cu_path self = cpath l ctx"

definition cur_at :: "cursor \<Rightarrow> page_source \<Rightarrow> heap \<Rightarrow> direction \<Rightarrow> tctx \<Rightarrow> 32 word \<Rightarrow> nat \<Rightarrow> bool" where
  "cur_at self src h dir ctx n i \<longleftrightarrow> cur_on self src dir 0 ctx \<and> cu_leaf self = Some (n, raw_header (hp_page h n))
    \<and> cu_index self = i \<and> \<not> cu_needs_advance self \<and> \<not> cu_finished self"

text \<open>What is left to read at a position, the current cell first.\<close>

definition left_over :: "direction \<Rightarrow> tctx \<Rightarrow> bytes list \<Rightarrow> nat \<Rightarrow> bytes list" where
  "left_over dir ctx cs i = (case dir of Forward \<Rightarrow> drop i cs @ rctx ctx | Backward \<Rightarrow> rev (take (Suc i) cs) @ rev (lctx ctx))"

definition beside :: "direction \<Rightarrow> tctx \<Rightarrow> bytes list" where
  "beside dir ctx = (case dir of Forward \<Rightarrow> rctx ctx | Backward \<Rightarrow> rev (lctx ctx))"

definition oriented :: "direction \<Rightarrow> bytes list \<Rightarrow> bytes list" where
  "oriented dir xs = (case dir of Forward \<Rightarrow> xs | Backward \<Rightarrow> rev xs)"

definition edge_pos :: "direction \<Rightarrow> nat \<Rightarrow> nat" where
  "edge_pos dir n = (case dir of Forward \<Rightarrow> 0 | Backward \<Rightarrow> n - 1)"

text \<open>The position of a cursor, and what it still yields.\<close>

definition placed_at :: "page_source \<Rightarrow> heap \<Rightarrow> direction \<Rightarrow> nat \<Rightarrow> ptree \<Rightarrow> cursor \<Rightarrow> bytes list \<Rightarrow> bool" where
  "placed_at src h dir L T self ys \<longleftrightarrow> (\<exists>ctx n cs i. cur_at self src h dir ctx n i \<and> i < length cs
    \<and> plug (PLeaf n cs) ctx = T \<and> length ctx = L \<and> left_over dir ctx cs i = ys)"

definition yields :: "page_source \<Rightarrow> heap \<Rightarrow> direction \<Rightarrow> nat \<Rightarrow> ptree \<Rightarrow> cursor \<Rightarrow> bytes list \<Rightarrow> bool" where
  "yields src h dir L T self ys \<longleftrightarrow> cu_selected_txn self = selected_txn src \<and> cu_page_limit self = selected_page_limit src
    \<and> (cu_finished self \<and> ys = []
      \<or> \<not> cu_finished self \<and> (\<exists>zs. placed_at src h dir L T (self \<lparr> cu_needs_advance := False \<rparr>) zs
        \<and> ys = (if cu_needs_advance self then tl zs else zs)))"

text \<open>A reader of cells: what an \<open>Item\<close> of the source returns for a cell.\<close>

definition reads :: "('k, 'l) codec \<Rightarrow> ('k, 'l) cell_view \<Rightarrow> 'o item_reader \<Rightarrow> (heap \<Rightarrow> 32 word \<Rightarrow> nat \<Rightarrow> bytes \<Rightarrow> 'o) \<Rightarrow> bool" where
  "reads C X item g \<longleftrightarrow> (\<forall>h n cs i. live_page C h 0 n cs \<longrightarrow> list_all (leaf_ok X) cs \<longrightarrow> i < length cs \<longrightarrow>
    item (hp_page h n) (raw_header (hp_page h n)) n i = Inr (g h n i (cs ! i)))"

definition sibling_ctx :: "direction \<Rightarrow> ptree \<Rightarrow> 32 word \<times> ptree list \<times> ptree list \<Rightarrow> ptree \<times> (32 word \<times> ptree list \<times> ptree list)" where
  "sibling_ctx dir t f = (case f of (n, ls, rs) \<Rightarrow> (case dir of
     Forward \<Rightarrow> (hd rs, (n, ls @ [t], tl rs)) | Backward \<Rightarrow> (last ls, (n, butlast ls, t # rs))))"

lemma left_over_step:
  assumes "i < length cs" "case dir of Forward \<Rightarrow> i + 1 < length cs | Backward \<Rightarrow> i > 0"
  shows "left_over dir ctx cs (step_index dir i) = tl (left_over dir ctx cs i)" "step_index dir i < length cs"
proof -
  have "left_over dir ctx cs (step_index dir i) = tl (left_over dir ctx cs i) \<and> step_index dir i < length cs"
  proof (cases dir)
    case Forward
    thus ?thesis using assms by (simp add: left_over_def step_index_def Cons_nth_drop_Suc [symmetric])
  next
    case Backward
    hence "Suc (i - 1) = i" using assms(2) by simp
    thus ?thesis using assms Backward by (simp add: left_over_def step_index_def take_Suc_conv_app_nth [OF assms(1)])
  qed
  thus "left_over dir ctx cs (step_index dir i) = tl (left_over dir ctx cs i)" "step_index dir i < length cs" by auto
qed

section \<open>Moving\<close>

context codec_laws
begin

lemma serves_parse:
  assumes "serves src h" "live_page C h lvl n cs" "e = None \<or> e = Some lvl"
  shows "view_page src n = Inr (hp_page h n)"
    "parse_page C (hp_page h n) (selected_txn src) e = Inr (raw_header (hp_page h n))"
  using assms parse_ok [OF live_tpage [OF assms(2)] order_refl assms(3)] by (auto simp: serves_def live_page_def)

lemma serves_child:
  assumes s: "serves src h" and r: "repr C X h (Suc l) (PNode n ts)" and i: "i < length ts"
  shows "branch_child C (hp_page h n) (raw_header (hp_page h n)) i (selected_page_limit src) = Inr (root_page (ts ! i))"
proof -
  note d = repr_nodeD [OF r]
  have "root_page (ts ! i) \<in> hp_own h" using d(3) i repr_own root_in_pages by (meson nth_mem subset_iff)
  thus ?thesis
    using branch_child_ok [OF live_tpage [OF d(1)] d(5), of i] i s by (simp add: child_cell_def serves_def)
qed

lemma edge_page_ok:
  assumes s: "serves src h" and c: "cur_on self src dir l0 ctx0"
  shows "repr C X h 0 (PLeaf n cs) \<Longrightarrow> e = None \<or> e = Some 0 \<Longrightarrow>
      edge_page C shared_access src self n e = Inr (raw_header (hp_page h n), None)"
    and "repr C X h (Suc l) (PNode n ts) \<Longrightarrow> e = None \<or> e = Some (lvl_of (Suc l)) \<Longrightarrow>
      edge_page C shared_access src self n e =
        Inr (raw_header (hp_page h n), Some (root_page (ts ! edge_pos dir (length ts))))"
proof -
  assume r: "repr C X h 0 (PLeaf n cs)" and e: "e = None \<or> e = Some 0"
  hence l: "live_page C h 0 n cs" by simp
  show "edge_page C shared_access src self n e = Inr (raw_header (hp_page h n), None)"
    using serves_parse [OF s l e] live_header [OF l] c
    by (simp add: edge_page_def shared_access_def cur_on_def)
next
  assume r: "repr C X h (Suc l) (PNode n ts)" and e: "e = None \<or> e = Some (lvl_of (Suc l))"
  note d = repr_nodeD [OF r]
  have "edge_pos dir (length ts) < length ts" using d(2) by (cases dir) (auto simp: edge_pos_def)
  thus "edge_page C shared_access src self n e =
      Inr (raw_header (hp_page h n), Some (root_page (ts ! edge_pos dir (length ts))))"
    using serves_parse [OF s d(1) e] live_header [OF d(1)] serves_child [OF s r] c d(5)
    by (simp add: edge_page_def shared_access_def cur_on_def edge_index_def edge_pos_def split: direction.splits)
qed

lemma child_ctx:
  assumes "i < length ts"
  shows "plug (ts ! i) ((n, take i ts, drop (Suc i) ts) # ctx) = plug (PNode n ts) ctx"
  using id_take_nth_drop [OF assms] by simp

lemma descend_edge_ok:
  "serves src h \<Longrightarrow> repr C X h (l + length ctx) (plug t ctx) \<Longrightarrow> cur_on self src dir l ctx \<Longrightarrow>
   e = None \<or> e = Some (lvl_of l) \<Longrightarrow> l + length ctx \<le> MAX_PATH \<Longrightarrow>
   \<exists>self' ctx' n cs. descend_edge C shared_access src self (root_page t) e = Inr self'
     \<and> cur_at self' src h dir ctx' n (edge_pos dir (length cs)) \<and> cs \<noteq> []
     \<and> plug (PLeaf n cs) ctx' = plug t ctx \<and> length ctx' = l + length ctx
     \<and> left_over dir ctx' cs (edge_pos dir (length cs)) = oriented dir (leaves t) @ beside dir ctx
     \<and> cu_root self' = cu_root self"
proof (induction l arbitrary: t ctx self e)
  case 0
  have r: "repr C X h 0 t" using repr_plugD [of C X h 0 ctx t] 0(2) by simp
  then obtain n cs where t: "t = PLeaf n cs" by (cases t) auto
  have l: "live_page C h 0 n cs" and ne: "cs \<noteq> []" using r t by (auto simp: live_page_def tpage_def)
  let ?self = "set_leaf self n (raw_header (hp_page h n)) (edge_index dir (raw_header (hp_page h n)))"
  have ei: "edge_index dir (raw_header (hp_page h n)) = edge_pos dir (length cs)"
    using live_header [OF l] by (simp add: edge_index_def edge_pos_def split: direction.splits)
  have "descend_edge C shared_access src self n e = Inr ?self"
    using edge_page_ok(1) [OF 0(1,3), of n cs e] r t 0(3,4) by (subst descend_edge.simps) (simp add: cur_on_def)
  moreover have "cur_at ?self src h dir ctx n (edge_pos dir (length cs))"
    using 0(3) ei by (simp add: cur_at_def cur_on_def set_leaf_def)
  moreover have "left_over dir ctx cs (edge_pos dir (length cs)) = oriented dir (leaves t) @ beside dir ctx"
    using t ne by (auto simp: left_over_def oriented_def beside_def edge_pos_def split: direction.splits)
  ultimately show ?case using t ne by (intro exI [of _ ?self] exI [of _ ctx] exI [of _ n] exI [of _ cs]) (simp add: set_leaf_def)
next
  case (Suc l)
  have r: "repr C X h (Suc l) t" using repr_plugD [of C X h "Suc l" ctx t] Suc.prems(2) by simp
  then obtain n ts where t: "t = PNode n ts" by (cases t) auto
  note d = repr_nodeD [OF r [unfolded t]]
  let ?i = "edge_pos dir (length ts)"
  let ?ctx = "(n, take ?i ts, drop (Suc ?i) ts) # ctx"
  have i: "?i < length ts" using d(2) by (cases dir) (auto simp: edge_pos_def)
  have li: "length (take ?i ts) + Suc (length (drop (Suc ?i) ts)) = length ts"
    using i unfolding length_take length_drop by linarith
  let ?self = "self \<lparr> cu_path := cpath l ?ctx \<rparr>"
  have push: "cursor_push self n (edge_index dir (raw_header (hp_page h n))) (raw_header (hp_page h n)) = Inr ?self"
    using live_header [OF d(1)] Suc.prems(3,5) li i
    by (simp add: cursor_push_def cur_on_def edge_index_def edge_pos_def split: direction.splits)
  have c: "cur_on ?self src dir l ?ctx" using Suc.prems(3) by (simp add: cur_on_def)
  obtain self' ctx' m cs where q: "descend_edge C shared_access src ?self (root_page (ts ! ?i)) (Some (lvl_of l)) = Inr self'"
      "cur_at self' src h dir ctx' m (edge_pos dir (length cs))" "cs \<noteq> []" "plug (PLeaf m cs) ctx' = plug (ts ! ?i) ?ctx"
      "length ctx' = l + length ?ctx"
      "left_over dir ctx' cs (edge_pos dir (length cs)) = oriented dir (leaves (ts ! ?i)) @ beside dir ?ctx"
      "cu_root self' = cu_root ?self"
    using Suc.IH [OF Suc.prems(1) _ c, of "ts ! ?i" "Some (lvl_of l)"] Suc.prems(2,5) child_ctx [OF i] t by auto
  have "oriented dir (leaves (ts ! ?i)) @ beside dir ?ctx = oriented dir (leaves t) @ beside dir ctx"
  proof (cases dir)
    case Forward
    hence "ts = ts ! ?i # drop (Suc ?i) ts" using i by (simp add: edge_pos_def Cons_nth_drop_Suc)
    hence "leaves t = leaves (ts ! ?i) @ concat (map leaves (drop (Suc ?i) ts))" using t by (metis concat.simps(2) leaves.simps(2) list.simps(9))
    thus ?thesis using Forward by (simp add: oriented_def beside_def)
  next
    case Backward
    hence "ts = take ?i ts @ [ts ! ?i]" using i by (simp add: edge_pos_def) (metis One_nat_def Suc_pred take_Suc_conv_app_nth take_all_iff order_refl length_greater_0_conv d(2) diff_Suc_less)
    hence "leaves t = concat (map leaves (take ?i ts)) @ leaves (ts ! ?i)" using t by (metis concat.simps concat_append leaves.simps(2) list.simps(8,9) map_append append_Nil2)
    thus ?thesis using Backward by (simp add: oriented_def beside_def)
  qed
  moreover have "descend_edge C shared_access src self n e = Inr self'"
    using edge_page_ok(2) [OF Suc.prems(1,3) r [unfolded t] Suc.prems(4)] push q(1) live_header [OF d(1)] Suc.prems(3)
    by (subst descend_edge.simps) (simp add: cur_on_def lvl_of_Suc)
  ultimately show ?case
    using q child_ctx [OF i, of n ctx] t by (intro exI [of _ self'] exI [of _ ctx'] exI [of _ m] exI [of _ cs]) simp
qed

lemma placed_edge:
  assumes "cur_at self src h dir ctx n (edge_pos dir (length cs))" "cs \<noteq> []" "plug (PLeaf n cs) ctx = T" "length ctx = L"
    "left_over dir ctx cs (edge_pos dir (length cs)) = ys"
  shows "placed_at src h dir L T self ys"
proof -
  have "edge_pos dir (length cs) < length cs" using assms(2) by (cases dir) (auto simp: edge_pos_def)
  thus ?thesis unfolding placed_at_def using assms by blast
qed

lemma sibling_ctx_ok:
  assumes "case dir of Forward \<Rightarrow> rs \<noteq> [] | Backward \<Rightarrow> ls \<noteq> []" "sibling_ctx dir t (n, ls, rs) = (u, (m, ls', rs'))"
  shows "m = n" "ls' @ u # rs' = ls @ t # rs" "plug u ((m, ls', rs') # ctx) = plug t ((n, ls, rs) # ctx)"
    "length ls' = step_index dir (length ls)" "length ls' + Suc (length rs') = length ls + Suc (length rs)"
    "oriented dir (leaves u) @ beside dir ((m, ls', rs') # ctx) = beside dir ((n, ls, rs) # ctx)"
proof -
  have e: "m = n \<and> ls' @ u # rs' = ls @ t # rs \<and> length ls' = step_index dir (length ls)
      \<and> length ls' + Suc (length rs') = length ls + Suc (length rs)
      \<and> oriented dir (leaves u) @ beside dir ((m, ls', rs') # ctx) = beside dir ((n, ls, rs) # ctx)"
  proof (cases dir)
    case Forward
    thus ?thesis using assms by (cases rs) (auto simp: sibling_ctx_def step_index_def oriented_def beside_def)
  next
    case Backward
    thus ?thesis using assms by (cases ls rule: rev_cases) (auto simp: sibling_ctx_def step_index_def oriented_def beside_def)
  qed
  thus "m = n" "ls' @ u # rs' = ls @ t # rs" "plug u ((m, ls', rs') # ctx) = plug t ((n, ls, rs) # ctx)"
    "length ls' = step_index dir (length ls)" "length ls' + Suc (length rs') = length ls + Suc (length rs)"
    "oriented dir (leaves u) @ beside dir ((m, ls', rs') # ctx) = beside dir ((n, ls, rs) # ctx)" by auto
qed

lemma advance_leaf_from_ok:
  "serves src h \<Longrightarrow> repr C X h (l + length ctx) (plug t ctx) \<Longrightarrow> cur_on self src dir l ctx \<Longrightarrow> l + length ctx \<le> MAX_PATH \<Longrightarrow>
   \<exists>self'. advance_leaf_from C shared_access src self (length ctx) = Inr (src, self') \<and> cu_root self' = cu_root self
     \<and> (beside dir ctx = [] \<and> cu_finished self'
       \<or> placed_at src h dir (l + length ctx) (plug t ctx) self' (beside dir ctx))
     \<and> cu_selected_txn self' = cu_selected_txn self \<and> cu_page_limit self' = cu_page_limit self \<and> cu_direction self' = dir"
proof (induction ctx arbitrary: l t self)
  case Nil
  thus ?case by (simp add: beside_def cur_on_def split: direction.splits)
next
  case (Cons f ctx)
  obtain n ls rs where f: "f = (n, ls, rs)" by (cases f)
  let ?fr = "\<lparr> cf_page = n, cf_index = length ls, cf_item_count = length ls + Suc (length rs), cf_level = lvl_of (Suc l) \<rparr>"
  have path: "cu_path self = cpath (Suc l) ctx @ [?fr]" "cu_direction self = dir" using Cons.prems(3) f by (simp_all add: cur_on_def)
  have fr: "cu_path self ! length ctx = ?fr" "take (length ctx) (cu_path self) = cpath (Suc l) ctx"
    using path by (simp_all add: nth_append)
  have r: "repr C X h (Suc l) (PNode n (ls @ t # rs))"
    using repr_plugD [of C X h "Suc l" ctx "PNode n (ls @ t # rs)"] Cons.prems(2) f by simp
  note d = repr_nodeD [OF r]
  have hs: "has_sibling dir ?fr \<longleftrightarrow> (case dir of Forward \<Rightarrow> rs \<noteq> [] | Backward \<Rightarrow> ls \<noteq> [])"
    by (cases dir) (auto simp: has_sibling_def)
  show ?case
  proof (cases "has_sibling dir ?fr")
    case False
    let ?self = "self \<lparr> cu_path := cpath (Suc l) ctx \<rparr>"
    have c: "cur_on ?self src dir (Suc l) ctx" using Cons.prems(3) by (simp add: cur_on_def)
    have b: "beside dir (f # ctx) = beside dir ctx" using False hs f by (cases dir) (auto simp: beside_def)
    obtain self' where "advance_leaf_from C shared_access src ?self (length ctx) = Inr (src, self')" "cu_root self' = cu_root ?self"
        "beside dir ctx = [] \<and> cu_finished self'
          \<or> placed_at src h dir (Suc l + length ctx) (plug (PNode n (ls @ t # rs)) ctx) self' (beside dir ctx)"
        "cu_selected_txn self' = cu_selected_txn ?self \<and> cu_page_limit self' = cu_page_limit ?self \<and> cu_direction self' = dir"
      using Cons.IH [OF Cons.prems(1) _ c, of "PNode n (ls @ t # rs)"] Cons.prems(2,4) f by auto
    thus ?thesis using False fr path(2) b f by (simp add: shared_access_def)
  next
    case True
    obtain u m ls' rs' where sc: "sibling_ctx dir t (n, ls, rs) = (u, (m, ls', rs'))" by (metis prod_cases4)
    note k = sibling_ctx_ok [OF _ sc] and sib = True [unfolded hs]
    note k = k [OF sib]
    have step: "?fr \<lparr> cf_index := step_index dir (cf_index ?fr) \<rparr> =
        \<lparr> cf_page = m, cf_index = length ls', cf_item_count = length ls' + Suc (length rs'), cf_level = lvl_of (Suc l) \<rparr>"
      using k(1,4,5) by simp
    let ?self = "self \<lparr> cu_path := cpath l ((m, ls', rs') # ctx) \<rparr>"
    have c: "cur_on ?self src dir l ((m, ls', rs') # ctx)" using Cons.prems(3) by (simp add: cur_on_def)
    have u: "(ls @ t # rs) ! length ls' = u" "length ls' < length (ls @ t # rs)"
      by (simp_all flip: k(2))
    have ch: "branch_child C (hp_page h n) (raw_header (hp_page h n)) (length ls') (selected_page_limit src) = Inr (root_page u)"
      using serves_child [OF Cons.prems(1) r u(2)] u(1) by simp
    obtain self' ctx' n' cs where q: "descend_edge C shared_access src ?self (root_page u) (Some (lvl_of l)) = Inr self'"
        "cur_at self' src h dir ctx' n' (edge_pos dir (length cs))" "cs \<noteq> []"
        "plug (PLeaf n' cs) ctx' = plug u ((m, ls', rs') # ctx)" "length ctx' = l + length ((m, ls', rs') # ctx)"
        "left_over dir ctx' cs (edge_pos dir (length cs)) = oriented dir (leaves u) @ beside dir ((m, ls', rs') # ctx)"
        "cu_root self' = cu_root ?self"
      using descend_edge_ok [OF Cons.prems(1) _ c, of u "Some (lvl_of l)"] Cons.prems(2,4) k(3) [of ctx] f by auto
    have pl: "placed_at src h dir (l + length (f # ctx)) (plug t (f # ctx)) self' (beside dir (f # ctx))"
      using placed_edge [OF q(2,3)] q(4-6) k(3,6) [of ctx] f by simp
    have "rbind (ac_view_page shared_access src n) (\<lambda>page.
         rbind (parse_page C page (cu_selected_txn self) (Some (lvl_of (Suc l)))) (\<lambda>hd.
         if h_item_count hd \<noteq> length ls + Suc (length rs)
         then Inl (Corrupt ''B+tree branch changed during traversal'')
         else branch_child C page hd (length ls') (cu_page_limit self))) = Inr (root_page u)"
      using serves_parse [OF Cons.prems(1) d(1), of "Some (lvl_of (Suc l))"] live_header [OF d(1)] ch Cons.prems(3)
      by (simp add: shared_access_def cur_on_def)
    moreover have "step_index dir (length ls) + length rs' = length ls + length rs" using k(4,5) by simp
    ultimately have "advance_leaf_from C shared_access src self (length (f # ctx)) = Inr (src, self')"
      using q(1) True unfolding list.size advance_leaf_from.simps add_Suc_right add_0_right Let_def fr path(2) step
      by (simp add: k lvl_of_Suc cong: if_cong)
    thus ?thesis
      using pl q(2,7) Cons.prems(3) by (simp add: cur_at_def cur_on_def)
  qed
qed

lemma placed_root:
  assumes "repr C X h L T" "plug (PLeaf n cs) ctx = T" "length ctx = L"
  shows "repr C X h 0 (PLeaf n cs)" "repr C X h (0 + length ctx) (plug (PLeaf n cs) ctx)" "0 + length ctx \<le> MAX_PATH"
  using assms repr_plugD [of C X h 0 ctx "PLeaf n cs"] repr_level [OF assms(1)] by auto

lemma placed_flag: "placed_at src h dir L T self ys \<Longrightarrow> self \<lparr> cu_needs_advance := False \<rparr> = self \<and> \<not> cu_finished self"
  by (auto simp: placed_at_def cur_at_def)

lemma placed_yields:
  assumes "placed_at src h dir L T self ys"
  shows "yields src h dir L T self ys"
proof -
  have "self \<lparr> cu_needs_advance := False \<rparr> = self" using placed_flag [OF assms] by blast
  moreover have "cu_selected_txn self = selected_txn src" "cu_page_limit self = selected_page_limit src"
    "\<not> cu_needs_advance self" "\<not> cu_finished self"
    using assms by (auto simp: placed_at_def cur_at_def cur_on_def)
  ultimately show ?thesis unfolding yields_def using assms by metis
qed

lemma advance_leaf_ok:
  assumes s: "serves src h" and r: "repr C X h L T" and c: "cur_on self src dir 0 ctx"
    and t: "plug (PLeaf n cs) ctx = T" "length ctx = L"
  shows "\<exists>self'. advance_leaf C shared_access src self = Inr (src, self')
    \<and> (beside dir ctx = [] \<and> cu_finished self' \<or> placed_at src h dir L T self' (beside dir ctx))
    \<and> cu_selected_txn self' = selected_txn src \<and> cu_page_limit self' = selected_page_limit src
    \<and> cu_direction self' = dir \<and> cu_root self' = cu_root self"
proof -
  note p = placed_root [OF r t]
  have c': "cur_on (self \<lparr> cu_leaf := None \<rparr>) src dir 0 ctx" using c by (simp add: cur_on_def)
  show ?thesis
    using advance_leaf_from_ok [OF s p(2) c' p(3)] c t by (auto simp: advance_leaf_def cur_on_def)
qed

lemma advance_ok:
  assumes s: "serves src h" and r: "repr C X h L T"
    and p: "placed_at src h dir L T (self \<lparr> cu_needs_advance := False \<rparr>) zs" and f: "\<not> cu_finished self"
  shows "\<exists>self'. advance C shared_access src self = Inr (src, self')
    \<and> (tl zs = [] \<and> cu_finished self' \<or> placed_at src h dir L T self' (tl zs))
    \<and> cu_selected_txn self' = selected_txn src \<and> cu_page_limit self' = selected_page_limit src
    \<and> cu_direction self' = dir \<and> cu_root self' = cu_root self"
proof -
  obtain ctx n cs i where q: "cur_at (self \<lparr> cu_needs_advance := False \<rparr>) src h dir ctx n i" "i < length cs"
      "plug (PLeaf n cs) ctx = T" "length ctx = L" "left_over dir ctx cs i = zs" using p by (auto simp: placed_at_def)
  have l: "live_page C h 0 n cs" using placed_root(1) [OF r q(3,4)] by simp
  have leaf: "expect_leaf self = Inr (n, raw_header (hp_page h n))" "cu_index self = i" "cur_on self src dir 0 ctx"
    using q(1) by (auto simp: cur_at_def cur_on_def expect_leaf_def)
  let ?in = "case dir of Forward \<Rightarrow> i + 1 < length cs | Backward \<Rightarrow> i > 0"
  show ?thesis
  proof (cases ?in)
    case True
    let ?self = "self \<lparr> cu_index := step_index dir i, cu_needs_advance := False \<rparr>"
    have "left_over dir ctx cs (step_index dir i) = tl zs" "step_index dir i < length cs"
      using left_over_step(1) [OF q(2) True, of ctx] left_over_step(2) [OF q(2) True] q(5) by simp_all
    moreover have "cur_at ?self src h dir ctx n (step_index dir i)" using q(1) f by (simp add: cur_at_def cur_on_def)
    ultimately have "placed_at src h dir L T ?self (tl zs)" using q(3,4) unfolding placed_at_def by blast
    moreover have "advance C shared_access src self = Inr (src, ?self)"
      using True leaf live_header [OF l] by (cases dir) (simp_all add: advance_def cur_on_def)
    ultimately show ?thesis using leaf(3) by (auto simp: cur_on_def)
  next
    case False
    have b: "beside dir ctx = tl zs"
    proof (cases dir)
      case Forward
      hence "drop i cs = [cs ! i]" using False q(2) by (simp add: Cons_nth_drop_Suc [symmetric])
      thus ?thesis using Forward q(5) by (auto simp: beside_def left_over_def)
    next
      case Backward
      hence "take (Suc i) cs = [cs ! 0]" using False q(2) by (cases cs) auto
      thus ?thesis using Backward q(5) by (auto simp: beside_def left_over_def)
    qed
    have "advance C shared_access src self = advance_leaf C shared_access src self"
      using False leaf live_header [OF l] by (cases dir) (simp_all add: advance_def cur_on_def shared_access_def)
    thus ?thesis using advance_leaf_ok [OF s r leaf(3) q(3,4)] b by simp
  qed
qed

lemma placed_read:
  assumes s: "serves src h" and r: "repr C X h L T" and p: "placed_at src h dir L T self zs" and g: "reads C X item g"
  shows "\<exists>n i. expect_leaf self = Inr (n, raw_header (hp_page h n)) \<and> cu_index self = i \<and> zs \<noteq> []
    \<and> rbind (ac_view_page shared_access src n) (\<lambda>page. item page (raw_header (hp_page h n)) n i) = Inr (g h n i (hd zs))"
proof -
  obtain ctx n cs i where q: "cur_at self src h dir ctx n i" "i < length cs"
      "plug (PLeaf n cs) ctx = T" "length ctx = L" "left_over dir ctx cs i = zs" using p by (auto simp: placed_at_def)
  have l: "live_page C h 0 n cs" "list_all (leaf_ok X) cs" using placed_root(1) [OF r q(3,4)] by simp_all
  have "zs \<noteq> []" "hd zs = cs ! i"
    using q(2,5) by (auto simp: left_over_def hd_drop_conv_nth take_Suc_conv_app_nth split: direction.splits)
  moreover have "item (hp_page h n) (raw_header (hp_page h n)) n i = Inr (g h n i (cs ! i))"
    using g l q(2) by (auto simp: reads_def)
  moreover have "view_page src n = Inr (hp_page h n)" using s l(1) by (auto simp: serves_def live_page_def)
  ultimately show ?thesis using q(1) by (auto simp: cur_at_def expect_leaf_def shared_access_def)
qed

text \<open>Every call of \<open>next\<close> returns the next cell; after the last one it returns \<open>None\<close> forever.\<close>

lemma cursor_next_ok:
  assumes s: "serves src h" and r: "repr C X h L T" and y: "yields src h dir L T self ys" and g: "reads C X item g"
  shows "\<exists>self' n i. cursor_next C src self item = (self', Inr (case ys of [] \<Rightarrow> None | y # _ \<Rightarrow> Some (g h n i y)))
    \<and> yields src h dir L T self' (tl ys)"
proof (cases "cu_finished self")
  case True
  thus ?thesis using y by (simp add: yields_def cursor_next_def next_inner_def require_access_def shared_access_def)
next
  case False
  have ra: "require_access shared_access src self = Inr ()"
    using y by (simp add: yields_def require_access_def shared_access_def)
  obtain zs where z: "placed_at src h dir L T (self \<lparr> cu_needs_advance := False \<rparr>) zs" "ys = (if cu_needs_advance self then tl zs else zs)"
    using y False by (auto simp: yields_def)
  have "\<exists>self1. (if cu_needs_advance self then advance C shared_access src self else Inr (src, self)) = Inr (src, self1)
      \<and> (ys = [] \<and> cu_finished self1 \<or> placed_at src h dir L T self1 ys)
      \<and> cu_selected_txn self1 = selected_txn src \<and> cu_page_limit self1 = selected_page_limit src"
  proof (cases "cu_needs_advance self")
    case True
    thus ?thesis using advance_ok [OF s r z(1) False] z(2) by auto
  next
    case nf: False
    hence eq: "self \<lparr> cu_needs_advance := False \<rparr> = self" by simp
    have "placed_at src h dir L T self ys" using z nf unfolding eq by simp
    thus ?thesis using nf y by (auto simp: yields_def)
  qed
  then obtain self1 where a: "(if cu_needs_advance self then advance C shared_access src self else Inr (src, self)) = Inr (src, self1)"
      "ys = [] \<and> cu_finished self1 \<or> placed_at src h dir L T self1 ys"
      "cu_selected_txn self1 = selected_txn src" "cu_page_limit self1 = selected_page_limit src" by blast
  show ?thesis
  proof (cases "cu_finished self1")
    case True
    hence "ys = []" using a(2) by (auto simp: placed_at_def cur_at_def)
    thus ?thesis using True a ra False by (simp add: cursor_next_def next_inner_def yields_def)
  next
    case nf: False
    hence p: "placed_at src h dir L T self1 ys" using a(2) by auto
    obtain n i where e: "expect_leaf self1 = Inr (n, raw_header (hp_page h n))" "cu_index self1 = i" "ys \<noteq> []"
        "rbind (ac_view_page shared_access src n) (\<lambda>page. item page (raw_header (hp_page h n)) n i) = Inr (g h n i (hd ys))"
      using placed_read [OF s r p g] by blast
    let ?self = "self1 \<lparr> cu_needs_advance := True \<rparr>"
    have "yields src h dir L T ?self (tl ys)"
      using p a nf placed_flag [OF p] by (auto simp: yields_def)
    thus ?thesis using ra False a(1) nf e by (cases ys) (auto simp: cursor_next_def next_inner_def)
  qed
qed

lemma cursor_new_ok:
  assumes s: "serves src h" and r: "repr C X h L T"
  shows "\<exists>self. cursor_new C src (root_page T) dir = Inr self \<and> yields src h dir L T self (oriented dir (leaves T))"
proof -
  have own: "root_page T \<in> hp_own h" using repr_own [OF r] by auto
  hence b: "2 \<le> root_page T" "ucast (root_page T) < selected_page_limit src" using s by (auto simp: serves_def)
  let ?self = "\<lparr> cu_selected_txn = selected_txn src, cu_page_limit = selected_page_limit src, cu_root = root_page T,
       cu_direction = dir, cu_path = [], cu_leaf = None, cu_index = 0, cu_needs_advance = False, cu_finished = False \<rparr>"
  have u: "unpositioned shared_access src (root_page T) dir = Inr ?self"
    using b by (auto simp: unpositioned_def shared_access_def)
  have c: "cur_on ?self src dir L []" by (simp add: cur_on_def)
  obtain self' ctx' n cs where q: "descend_edge C shared_access src ?self (root_page T) None = Inr self'"
      "cur_at self' src h dir ctx' n (edge_pos dir (length cs))" "cs \<noteq> []" "plug (PLeaf n cs) ctx' = plug T []"
      "length ctx' = L + length ([] :: tctx)"
      "left_over dir ctx' cs (edge_pos dir (length cs)) = oriented dir (leaves T) @ beside dir []"
    using descend_edge_ok [OF s _ c, of T None] r repr_level [OF r] by auto
  have p: "placed_at src h dir L T self' (oriented dir (leaves T))"
    using placed_edge [OF q(2,3)] q(4-6) by (auto simp: beside_def split: direction.splits)
  thus ?thesis using placed_yields [OF p] u q(1) by (simp add: cursor_new_def open_cursor_def)
qed

end

end
