(* ===== verification/TreeSeek.thy ===== *)
theory TreeSeek
  imports TreeRead
begin

text \<open>
  Searching a tree by key: the seek of a cursor, the one-shot lookups and the query all end in
  the leaf where the key belongs, and return the greatest cell not above the key, the least cell
  not below it, or what the query's leaf function makes of the position.
\<close>

section \<open>Neighbours of a key\<close>

definition floor_cell :: "('k :: linorder, 'l) cell_view \<Rightarrow> 'k \<Rightarrow> bytes list \<Rightarrow> bytes option" where
  "floor_cell X key xs = (case rev (filter (\<lambda>x. key_of X x \<le> key) xs) of [] \<Rightarrow> None | y # _ \<Rightarrow> Some y)"

definition ceil_cell :: "('k :: linorder, 'l) cell_view \<Rightarrow> 'k \<Rightarrow> bytes list \<Rightarrow> bytes option" where
  "ceil_cell X key xs = (case filter (\<lambda>x. key \<le> key_of X x) xs of [] \<Rightarrow> None | y # _ \<Rightarrow> Some y)"

lemma filter_le_split:
  assumes "ordered X cs"
  shows "filter (\<lambda>x. key_of X x \<le> key) cs = take (lb (map (key_of X) cs) key + of_bool (hit (map (key_of X) cs) key)) cs
    \<and> filter (\<lambda>x. key \<le> key_of X x) cs = drop (lb (map (key_of X) cs) key) cs"
  using assms
proof (induction cs)
  case (Cons c cs)
  have o: "ordered X cs" "\<forall>x\<in>set cs. key_of X c < key_of X x" using Cons.prems by (auto simp: ordered_def)
  show ?case
  proof (cases "key_of X c < key")
    case False
    have "filter (\<lambda>x. key_of X x \<le> key) cs = []" "filter (\<lambda>x. key \<le> key_of X x) cs = cs"
      using o(2) False by (auto simp: filter_empty_conv filter_id_conv)
    thus ?thesis using False by (auto simp: lb_Cons hit_Cons)
  qed (use Cons.IH [OF o(1)] in \<open>simp add: lb_Cons hit_Cons not_le less_imp_le\<close>)
qed simp

lemma floor_around:
  assumes a: "around X key ctx (PLeaf n cs)" and o: "ordered X (lctx ctx @ cs @ rctx ctx)" and ne: "cs \<noteq> []"
  shows "floor_cell X key (lctx ctx @ cs @ rctx ctx) =
    (if hit (map (key_of X) cs) key then Some (cs ! lb (map (key_of X) cs) key)
     else case lb (map (key_of X) cs) key of 0 \<Rightarrow> None | Suc i \<Rightarrow> Some (cs ! i))"
proof -
  let ?lb = "lb (map (key_of X) cs) key" and ?hit = "hit (map (key_of X) cs) key"
  note ar = around_lctx [OF a o ne]
  have oc: "ordered X cs" using o by (simp add: ordered_append)
  have "filter (\<lambda>x. key_of X x \<le> key) (lctx ctx) = lctx ctx" "filter (\<lambda>x. key_of X x \<le> key) (rctx ctx) = []"
    using ar by (auto simp: filter_id_conv filter_empty_conv not_le less_imp_le)
  hence f: "filter (\<lambda>x. key_of X x \<le> key) (lctx ctx @ cs @ rctx ctx) = lctx ctx @ take (?lb + of_bool ?hit) cs"
    by (simp add: filter_le_split [OF oc])
  have le: "?lb \<le> length cs" using lb_le [of "map (key_of X) cs" key] by simp
  show ?thesis
  proof (cases ?hit)
    case True
    hence "?lb < length cs" by (simp add: hit_def)
    thus ?thesis using True unfolding floor_cell_def f by (simp add: take_Suc_conv_app_nth)
  next
    case False
    show ?thesis
    proof (cases ?lb)
      case 0
      have "\<not> key_of X (hd cs) \<le> key"
        using lb_ge [of "map (key_of X) cs" key 0] oc ne 0 False
        by (auto simp: ordered_def hd_conv_nth hit_def)
      hence "lctx ctx = []" using a by (simp add: around_def min_key_def)
      thus ?thesis using 0 False unfolding floor_cell_def f by simp
    next
      case (Suc i)
      thus ?thesis using False le unfolding floor_cell_def f by (simp add: take_Suc_conv_app_nth)
    qed
  qed
qed

lemma ceil_around:
  assumes a: "around X key ctx (PLeaf n cs)" and o: "ordered X (lctx ctx @ cs @ rctx ctx)" and ne: "cs \<noteq> []"
  shows "ceil_cell X key (lctx ctx @ cs @ rctx ctx) =
    (if lb (map (key_of X) cs) key < length cs then Some (cs ! lb (map (key_of X) cs) key)
     else case rctx ctx of [] \<Rightarrow> None | y # _ \<Rightarrow> Some y)"
proof -
  note ar = around_lctx [OF a o ne]
  have oc: "ordered X cs" using o by (simp add: ordered_append)
  have "filter (\<lambda>x. key \<le> key_of X x) (lctx ctx) = []" "filter (\<lambda>x. key \<le> key_of X x) (rctx ctx) = rctx ctx"
    using ar by (auto simp: filter_id_conv filter_empty_conv not_le less_imp_le)
  thus ?thesis
    by (simp add: ceil_cell_def filter_le_split [OF oc] Cons_nth_drop_Suc [symmetric])
qed

section \<open>Seeking\<close>

context codec_laws
begin

lemma serves_search:
  assumes s: "serves src h" and r: "repr C X h (Suc l) (PNode n ts)" and o: "ordered X (concat (map leaves ts))"
  shows "lower_bound C (hp_page h n) (raw_header (hp_page h n)) key ins = Inr (search_result (map (min_key X) ts) key ins)"
proof -
  note d = repr_nodeD [OF r]
  have "sorted_wrt (<) (map (cell_key C (lvl_of (Suc l))) (map (child_cell X) ts))"
    unfolding branch_keys(2) [OF d(5)] by (rule ordered_children [OF o d(4)])
  thus ?thesis
    using lower_bound_ok [OF live_tpage [OF d(1)] branch_keys(1) [OF d(5)]] unfolding branch_keys(2) [OF d(5)] by blast
qed

lemma leaf_search:
  assumes "live_page C h 0 n cs" "list_all (leaf_ok X) cs" "ordered X cs"
  shows "lower_bound C (hp_page h n) (raw_header (hp_page h n)) key True
    = Inr (lb (map (key_of X) cs) key, hit (map (key_of X) cs) key)"
proof -
  have "sorted_wrt (<) (map (cell_key C 0) cs)" using assms(3) by (simp add: leaf_keys(2) [OF assms(2)] ordered_def)
  thus ?thesis
    using lower_bound_ok [OF live_tpage [OF assms(1)] leaf_keys(1) [OF assms(2)], of key True]
    by (simp add: leaf_keys(2) [OF assms(2)] search_result_def)
qed

lemma seek_branch_ok:
  assumes s: "serves src h" and r: "repr C X h (Suc l) (PNode n ts)" and o: "ordered X (concat (map leaves ts))"
    and c: "cur_on self src dir (Suc l) ctx" and e: "e = None \<or> e = Some (lvl_of (Suc l))"
    and i: "i = fst (search_result (map (min_key X) ts) key False)"
  shows "seek_page C shared_access src self key policy item n e =
    (if dir = Backward \<and> key < min_key X (PNode n ts) then Inr SFinished
     else Inr (SBranch (raw_header (hp_page h n)) i (root_page (ts ! i))))"
proof -
  note d = repr_nodeD [OF r]
  let ?ks = "map (min_key X) ts"
  have sk: "sorted_wrt (<) ?ks" by (rule ordered_children [OF o d(4)])
  have il: "i < length ts" using search_False(1) [OF sk _ i] d(2) by simp
  have mk: "min_key X (PNode n ts) = ?ks ! 0"
    using min_key_node_hd [of ts X n] d(2,4) by (simp add: hd_conv_nth)
  have none: "key < ?ks ! 0 \<longleftrightarrow> \<not> hit ?ks key \<and> lb ?ks key = 0"
  proof
    assume k: "key < ?ks ! 0"
    obtain x xs where x: "?ks = x # xs" using d(2) by (cases ts) auto
    show "\<not> hit ?ks key \<and> lb ?ks key = 0" using k unfolding x by (auto simp: hit_Cons lb_Cons)
  next
    assume "\<not> hit ?ks key \<and> lb ?ks key = 0"
    thus "key < ?ks ! 0" using lb_ge [OF sk, of key 0] d(2) by (auto simp: hit_def)
  qed
  have idx: "i = (if hit ?ks key then lb ?ks key else lb ?ks key - 1)" using i by (auto simp: search_result_def)
  have "view_page src n = Inr (hp_page h n)" "parse_page C (hp_page h n) (cu_selected_txn self) e = Inr (raw_header (hp_page h n))"
    using serves_parse [OF s d(1) e] c by (simp_all add: cur_on_def)
  moreover have "lower_bound C (hp_page h n) (raw_header (hp_page h n)) key True = Inr (lb ?ks key, hit ?ks key)"
    using serves_search [OF s r o, of key True] by (simp add: search_result_def)
  moreover have "branch_child C (hp_page h n) (raw_header (hp_page h n)) i (cu_page_limit self) = Inr (root_page (ts ! i))"
    using serves_child [OF s r il] c by (simp add: cur_on_def)
  ultimately show ?thesis
    unfolding mk none idx using live_header [OF d(1)] d(5) c
    by (cases dir; cases "lb ?ks key"; cases "hit ?ks key") (auto simp: seek_page_def shared_access_def cur_on_def usize_checked_sub_def)
qed

lemma seek_descend:
  "serves src h \<Longrightarrow> repr C X h (l + length ctx) (plug t ctx) \<Longrightarrow> ordered X (leaves (plug t ctx)) \<Longrightarrow> around X key ctx t \<Longrightarrow>
   cur_on self src dir l ctx \<Longrightarrow> e = None \<or> e = Some (lvl_of l) \<Longrightarrow> l + length ctx \<le> MAX_PATH \<Longrightarrow>
   (\<exists>self'. dir = Backward \<and> (\<forall>x\<in>set (leaves (plug t ctx)). key < key_of X x)
      \<and> seek_loop C shared_access src self key policy item (root_page t) e = Inr (src, self', None))
   \<or> (\<exists>ctx' n cs self' e'. seek_loop C shared_access src self key policy item (root_page t) e
         = seek_loop C shared_access src self' key policy item n e'
       \<and> cur_on self' src dir 0 ctx' \<and> plug (PLeaf n cs) ctx' = plug t ctx \<and> around X key ctx' (PLeaf n cs)
       \<and> length ctx' = l + length ctx \<and> (e' = None \<or> e' = Some 0))"
proof (induction l arbitrary: t ctx self e)
  case 0
  have r: "repr C X h 0 t" using repr_plugD [of C X h 0 ctx t] 0(2) by simp
  then obtain n cs where t: "t = PLeaf n cs" by (cases t) auto
  show ?case
    using 0 t by (intro disjI2 exI [of _ ctx] exI [of _ n] exI [of _ cs] exI [of _ self] exI [of _ e]) simp
next
  case (Suc l)
  have r: "repr C X h (Suc l) t" using repr_plugD [of C X h "Suc l" ctx t] Suc.prems(2) by simp
  then obtain n ts where t: "t = PNode n ts" by (cases t) auto
  note d = repr_nodeD [OF r [unfolded t]]
  have o: "ordered X (concat (map leaves ts))" using Suc.prems(3) t by (simp add: leaves_plug ordered_append)
  define i where "i = fst (search_result (map (min_key X) ts) key False)"
  note sp = seek_branch_ok [OF Suc.prems(1) r [unfolded t] o Suc.prems(5,6) i_def, of policy item]
  note ar = around_child [OF Suc.prems(4) [unfolded t] o d(2,4) i_def]
  show ?case
  proof (cases "dir = Backward \<and> key < min_key X (PNode n ts)")
    case True
    have "lctx ctx = []" using Suc.prems(4) True t by (auto simp: around_def)
    moreover have "key < key_of X x" if "x \<in> set (leaves t)" for x
      using True that ordered_hd [OF o, of x] t by (auto simp: min_key_def)
    moreover have "\<forall>x\<in>set (rctx ctx). key < key_of X x" using Suc.prems(4) by (simp add: around_def)
    ultimately have "\<forall>x\<in>set (leaves (plug t ctx)). key < key_of X x" by (auto simp: leaves_plug)
    moreover have "seek_loop C shared_access src self key policy item (root_page t) e
        = Inr (src, self \<lparr> cu_finished := True \<rparr>, None)"
      using sp True t by (subst seek_loop.simps) simp
    ultimately show ?thesis using True by blast
  next
    case False
    let ?ctx = "(n, take i ts, drop (Suc i) ts) # ctx"
    let ?self = "self \<lparr> cu_path := cpath l ?ctx \<rparr>"
    have li: "length (take i ts) + Suc (length (drop (Suc i) ts)) = length ts"
      using ar(1) unfolding length_take length_drop by linarith
    have push: "cursor_push self n i (raw_header (hp_page h n)) = Inr ?self"
      using live_header [OF d(1)] Suc.prems(5,7) li ar(1) by (simp add: cursor_push_def cur_on_def)
    have step: "seek_loop C shared_access src self key policy item (root_page t) e
        = seek_loop C shared_access src ?self key policy item (root_page (ts ! i)) (Some (lvl_of l))"
      using sp False t push live_header [OF d(1)] by (subst seek_loop.simps) (auto simp: lvl_of_Suc)
    have c: "cur_on ?self src dir l ?ctx" using Suc.prems(5) by (simp add: cur_on_def)
    have pl: "plug (ts ! i) ?ctx = plug t ctx" using child_ctx [OF ar(1)] t by simp
    have "repr C X h (l + length ?ctx) (plug (ts ! i) ?ctx)" "ordered X (leaves (plug (ts ! i) ?ctx))" "l + length ?ctx \<le> MAX_PATH"
      using Suc.prems(2,3,7) pl by simp_all
    from Suc.IH [OF Suc.prems(1) this(1,2) ar(2) c _ this(3), of "Some (lvl_of l)"]
    show ?thesis unfolding pl step by simp
  qed
qed

lemma lookup_descend:
  assumes s: "serves src h" and r: "repr C X h L T" and o: "ordered X (leaves T)"
  shows "dir = Backward \<and> (\<forall>x\<in>set (leaves T). key < key_of X x) \<and> lookup C src (root_page T) dir key policy item = Inr None
    \<or> (\<exists>ctx n cs self e. lookup C src (root_page T) dir key policy item
          = rbind (seek_loop C shared_access src self key policy item n e) (\<lambda>(_, _, output). Inr output)
        \<and> cur_on self src dir 0 ctx \<and> plug (PLeaf n cs) ctx = T \<and> around X key ctx (PLeaf n cs) \<and> length ctx = L
        \<and> (e = None \<or> e = Some 0))"
proof -
  have own: "root_page T \<in> hp_own h" using repr_own [OF r] by auto
  hence b: "2 \<le> root_page T" "ucast (root_page T) < selected_page_limit src" using s by (auto simp: serves_def)
  let ?self = "\<lparr> cu_selected_txn = selected_txn src, cu_page_limit = selected_page_limit src, cu_root = root_page T,
       cu_direction = dir, cu_path = [], cu_leaf = None, cu_index = 0, cu_needs_advance = False, cu_finished = False \<rparr>"
  have u: "unpositioned shared_access src (root_page T) dir = Inr ?self" "root_page T \<noteq> 0"
    using b by (auto simp: unpositioned_def shared_access_def)
  have l: "lookup C src (root_page T) dir key policy item
      = rbind (seek_loop C shared_access src ?self key policy item (root_page T) None) (\<lambda>(_, _, output). Inr output)"
    using u by (simp add: lookup_def seek_read_inner_def require_access_def shared_access_def)
  have c: "cur_on ?self src dir L []" by (simp add: cur_on_def)
  have "repr C X h (L + length ([] :: tctx)) (plug T [])" "ordered X (leaves (plug T []))" "around X key [] T" "L + length ([] :: tctx) \<le> MAX_PATH"
    using r o repr_level [OF r] by (simp_all add: around_def)
  from seek_descend [OF s this(1-3) c _ this(4), of None policy item]
  show ?thesis unfolding l by fastforce
qed

lemma leaf_of_plug:
  assumes "repr C X h L T" "plug (PLeaf n cs) ctx = T" "length ctx = L" "ordered X (leaves T)"
  shows "live_page C h 0 n cs" "list_all (leaf_ok X) cs" "cs \<noteq> []" "ordered X cs" "leaves T = lctx ctx @ cs @ rctx ctx"
    "ordered X (lctx ctx @ cs @ rctx ctx)" "h_level (raw_header (hp_page h n)) = 0" "h_item_count (raw_header (hp_page h n)) = length cs"
proof -
  have r: "repr C X h 0 (PLeaf n cs)" by (rule placed_root(1) [OF assms(1-3)])
  show l: "live_page C h 0 n cs" and "list_all (leaf_ok X) cs" and "cs \<noteq> []" using r by (auto simp: live_page_def tpage_def)
  show lv: "leaves T = lctx ctx @ cs @ rctx ctx" using assms(2) by (auto simp: leaves_plug)
  show "ordered X (lctx ctx @ cs @ rctx ctx)" "ordered X cs" using assms(4) unfolding lv by (simp_all add: ordered_append)
  show "h_level (raw_header (hp_page h n)) = 0" "h_item_count (raw_header (hp_page h n)) = length cs"
    using live_header [OF l] by simp_all
qed

text \<open>The greatest cell whose key is not above the searched one.\<close>

lemma lookup_previous_ok:
  assumes s: "serves src h" and r: "repr C X h L T" and o: "ordered X (leaves T)" and g: "reads C X item g"
  shows "\<exists>n i. lookup C src (root_page T) Backward key previous_policy item = Inr (map_option (g h n i) (floor_cell X key (leaves T)))"
proof (cases "(\<forall>x\<in>set (leaves T). key < key_of X x) \<and> lookup C src (root_page T) Backward key previous_policy item = Inr None")
  case True
  hence "filter (\<lambda>x. key_of X x \<le> key) (leaves T) = []" by (auto simp: filter_empty_conv)
  thus ?thesis using True by (simp add: floor_cell_def)
next
  case False
  obtain ctx n cs self e where l: "lookup C src (root_page T) Backward key previous_policy item
      = rbind (seek_loop C shared_access src self key previous_policy item n e) (\<lambda>(_, _, output). Inr output)"
    and c: "cur_on self src Backward 0 ctx" and t: "plug (PLeaf n cs) ctx = T" and a: "around X key ctx (PLeaf n cs)"
    and len: "length ctx = L" and e: "e = None \<or> e = Some 0"
    using lookup_descend [OF s r o, of Backward key previous_policy item] False by blast
  note q = leaf_of_plug [OF r t len o]
  let ?b = "lb (map (key_of X) cs) key" and ?x = "hit (map (key_of X) cs) key"
  have pg: "view_page src n = Inr (hp_page h n)" "parse_page C (hp_page h n) (cu_selected_txn self) e = Inr (raw_header (hp_page h n))"
    using serves_parse [OF s q(1) e] c by (simp_all add: cur_on_def)
  have it: "i < length cs \<Longrightarrow> item (hp_page h n) (raw_header (hp_page h n)) n i = Inr (g h n i (cs ! i))" for i
    using g q(1,2) by (auto simp: reads_def)
  have bl: "?b \<le> length cs" "?x \<Longrightarrow> ?b < length cs" using lb_le [of "map (key_of X) cs" key] by (simp_all add: hit_def)
  have sp: "seek_page C shared_access src self key previous_policy item n e =
      (if ?x then Inr (SLeaf (raw_header (hp_page h n)) (Index ?b) (Some (g h n ?b (cs ! ?b))))
       else case ?b of 0 \<Rightarrow> Inr (SLeaf (raw_header (hp_page h n)) Finished None)
         | Suc i \<Rightarrow> Inr (SLeaf (raw_header (hp_page h n)) (Index i) (Some (g h n i (cs ! i)))))"
    using pg leaf_search [OF q(1,2,4), of key] it bl q(7,8)
    by (auto simp: seek_page_def shared_access_def previous_policy_def usize_checked_sub_def split: nat.split)
  have f: "floor_cell X key (leaves T) = (if ?x then Some (cs ! ?b) else case ?b of 0 \<Rightarrow> None | Suc i \<Rightarrow> Some (cs ! i))"
    unfolding q(5) by (rule floor_around [OF a q(6,3)])
  have "lookup C src (root_page T) Backward key previous_policy item =
      Inr (if ?x then Some (g h n ?b (cs ! ?b)) else case ?b of 0 \<Rightarrow> None | Suc i \<Rightarrow> Some (g h n i (cs ! i)))"
    unfolding l by (subst seek_loop.simps) (simp add: sp split: nat.split)
  thus ?thesis unfolding f
    by (intro exI [of _ n] exI [of _ "if ?x then ?b else ?b - 1"]) (simp split: nat.split)
qed

text \<open>The least cell whose key is not below the searched one.\<close>

lemma lookup_next_ok:
  assumes s: "serves src h" and r: "repr C X h L T" and o: "ordered X (leaves T)" and g: "reads C X item g"
  shows "\<exists>n i. lookup C src (root_page T) Forward key current_or_next item = Inr (map_option (g h n i) (ceil_cell X key (leaves T)))"
proof -
  obtain ctx n cs self e where l: "lookup C src (root_page T) Forward key current_or_next item
      = rbind (seek_loop C shared_access src self key current_or_next item n e) (\<lambda>(_, _, output). Inr output)"
    and c: "cur_on self src Forward 0 ctx" and t: "plug (PLeaf n cs) ctx = T" and a: "around X key ctx (PLeaf n cs)"
    and len: "length ctx = L" and e: "e = None \<or> e = Some 0"
    using lookup_descend [OF s r o, of Forward key current_or_next item] by auto
  note q = leaf_of_plug [OF r t len o]
  let ?b = "lb (map (key_of X) cs) key" and ?hd = "raw_header (hp_page h n)"
  have pg: "view_page src n = Inr (hp_page h n)" "parse_page C (hp_page h n) (cu_selected_txn self) e = Inr ?hd"
    using serves_parse [OF s q(1) e] c by (simp_all add: cur_on_def)
  have it: "i < length cs \<Longrightarrow> item (hp_page h n) ?hd n i = Inr (g h n i (cs ! i))" for i
    using g q(1,2) by (auto simp: reads_def)
  have sp: "seek_page C shared_access src self key current_or_next item n e =
      (if ?b < length cs then Inr (SLeaf ?hd (Index ?b) (Some (g h n ?b (cs ! ?b)))) else Inr (SLeaf ?hd NextLeaf None))"
    using pg leaf_search [OF q(1,2,4), of key] it q(7,8)
    by (simp add: seek_page_def shared_access_def current_or_next_def)
  have f: "ceil_cell X key (leaves T) = (if ?b < length cs then Some (cs ! ?b) else case rctx ctx of [] \<Rightarrow> None | y # _ \<Rightarrow> Some y)"
    unfolding q(5) by (rule ceil_around [OF a q(6,3)])
  show ?thesis
  proof (cases "?b < length cs")
    case True
    thus ?thesis unfolding l f by (subst seek_loop.simps) (auto simp: sp)
  next
    case False
    let ?self = "set_leaf self n ?hd (length cs - 1)"
    have c': "cur_on ?self src Forward 0 ctx" using c by (simp add: cur_on_def set_leaf_def)
    obtain self' where v: "advance_leaf C shared_access src ?self = Inr (src, self')"
        "rctx ctx = [] \<and> cu_finished self' \<or> placed_at src h Forward L T self' (rctx ctx)"
      using advance_leaf_ok [OF s r c' t len] by (auto simp: beside_def)
    have rd: "\<exists>m j. read_current shared_access src self' item = Inr (case rctx ctx of [] \<Rightarrow> None | y # _ \<Rightarrow> Some (g h m j y))"
      using v(2)
    proof
      assume p: "placed_at src h Forward L T self' (rctx ctx)"
      obtain m j where "expect_leaf self' = Inr (m, raw_header (hp_page h m))" "cu_index self' = j" "rctx ctx \<noteq> []"
          "rbind (ac_view_page shared_access src m) (\<lambda>page. item page (raw_header (hp_page h m)) m j) = Inr (g h m j (hd (rctx ctx)))"
        using placed_read [OF s r p g] by blast
      thus ?thesis using placed_flag [OF p]
        by (intro exI [of _ m] exI [of _ j]) (cases "rctx ctx"; auto simp: read_current_def rbind_Inr_iff rmap_Inr_iff)
    qed (simp add: read_current_def)
    then obtain m j where "read_current shared_access src self' item = Inr (case rctx ctx of [] \<Rightarrow> None | y # _ \<Rightarrow> Some (g h m j y))" by blast
    thus ?thesis using False v(1) q(8) unfolding l f
      by (subst seek_loop.simps) (auto simp: sp split: list.splits)
  qed
qed

lemma reads_leaf_item: "reads C X (read_leaf_item C) (\<lambda>_ _ _ c. leaf_of X c)"
  unfolding reads_def read_leaf_item_def
proof (intro allI impI)
  fix h n cs i assume a: "live_page C h 0 n cs" "list_all (leaf_ok X) cs" "i < length cs"
  have "leaf_cell C (hp_page h n) (raw_header (hp_page h n)) i = Inr (cs ! i)"
    using codec_cell_ok [OF live_tpage [OF a(1)] a(3)] live_header [OF a(1)] by (simp add: codec_cell_def)
  moreover have "read_leaf C (cs ! i) = Inr (leaf_of X (cs ! i))"
    using a(2,3) leaf_value by (simp add: list_all_length)
  ultimately show "rbind (leaf_cell C (hp_page h n) (raw_header (hp_page h n)) i) (read_leaf C) = Inr (leaf_of X (cs ! i))" by simp
qed

lemma predecessor_ok:
  assumes "serves src h" "repr C X h L T" "ordered X (leaves T)"
  shows "predecessor C src (root_page T) key = Inr (map_option (leaf_of X) (floor_cell X key (leaves T)))"
  using lookup_previous_ok [OF assms reads_leaf_item, of key] by (simp add: predecessor_def)

lemma at_or_after_ok:
  assumes "serves src h" "repr C X h L T" "ordered X (leaves T)"
  shows "at_or_after C src (root_page T) key = Inr (map_option (leaf_of X) (ceil_cell X key (leaves T)))"
  using lookup_next_ok [OF assms reads_leaf_item, of key] by (simp add: at_or_after_def)

section \<open>Queries\<close>

lemma query_loop_ok:
  "serves src h \<Longrightarrow> repr C X h (l + length ctx) (plug t ctx) \<Longrightarrow> ordered X (leaves (plug t ctx)) \<Longrightarrow> around X key ctx t \<Longrightarrow>
   e = None \<or> e = Some (lvl_of l) \<Longrightarrow> l < turns \<Longrightarrow>
   \<exists>ctx' n cs. query_loop C src key leaf turns (root_page t) e
       = leaf (hp_page h n) (raw_header (hp_page h n)) n (lb (map (key_of X) cs) key) (hit (map (key_of X) cs) key)
     \<and> plug (PLeaf n cs) ctx' = plug t ctx \<and> around X key ctx' (PLeaf n cs) \<and> length ctx' = l + length ctx"
proof (induction l arbitrary: t ctx e turns)
  case 0
  then obtain m where m: "turns = Suc m" by (cases turns) auto
  have r: "repr C X h 0 t" using repr_plugD [of C X h 0 ctx t] 0(2) by simp
  then obtain n cs where t: "t = PLeaf n cs" by (cases t) auto
  have l: "live_page C h 0 n cs" "list_all (leaf_ok X) cs" "ordered X cs"
    using r t 0(3) by (auto simp: leaves_plug ordered_append)
  have "query_page C src key leaf n e = rmap QFound (leaf (hp_page h n) (raw_header (hp_page h n)) n (lb (map (key_of X) cs) key) (hit (map (key_of X) cs) key))"
    using serves_parse [OF 0(1) l(1), of e] 0(5) leaf_search [OF l, of key] live_header [OF l(1)] by (simp add: query_page_def)
  hence "query_loop C src key leaf turns n e = leaf (hp_page h n) (raw_header (hp_page h n)) n (lb (map (key_of X) cs) key) (hit (map (key_of X) cs) key)"
    unfolding m by (cases "leaf (hp_page h n) (raw_header (hp_page h n)) n (lb (map (key_of X) cs) key) (hit (map (key_of X) cs) key)") simp_all
  thus ?case using 0(4) t by (intro exI [of _ ctx] exI [of _ n] exI [of _ cs]) simp
next
  case (Suc l)
  then obtain m where m: "turns = Suc m" "l < m" by (cases turns) auto
  have r: "repr C X h (Suc l) t" using repr_plugD [of C X h "Suc l" ctx t] Suc.prems(2) by simp
  then obtain n ts where t: "t = PNode n ts" by (cases t) auto
  note d = repr_nodeD [OF r [unfolded t]]
  have o: "ordered X (concat (map leaves ts))" using Suc.prems(3) t by (simp add: leaves_plug ordered_append)
  define i where "i = fst (search_result (map (min_key X) ts) key False)"
  note ar = around_child [OF Suc.prems(4) [unfolded t] o d(2,4) i_def]
  let ?ctx = "(n, take i ts, drop (Suc i) ts) # ctx"
  have "query_page C src key leaf n e = Inr (QDescend (root_page (ts ! i)) (lvl_of l))"
    using serves_parse [OF Suc.prems(1) d(1) Suc.prems(5)] serves_search [OF Suc.prems(1) r [unfolded t] o, of key False]
      serves_child [OF Suc.prems(1) r [unfolded t] ar(1)] live_header [OF d(1)] d(5) i_def
    by (auto simp: query_page_def lvl_of_Suc split_def)
  hence step: "query_loop C src key leaf turns (root_page t) e = query_loop C src key leaf m (root_page (ts ! i)) (Some (lvl_of l))"
    using t m(1) by simp
  have pl: "plug (ts ! i) ?ctx = plug t ctx" using child_ctx [OF ar(1)] t by simp
  have "repr C X h (l + length ?ctx) (plug (ts ! i) ?ctx)" "ordered X (leaves (plug (ts ! i) ?ctx))"
    using Suc.prems(2,3) pl by simp_all
  from Suc.IH [OF Suc.prems(1) this ar(2) _ m(2), of "Some (lvl_of l)"]
  show ?case unfolding pl step by simp
qed

text \<open>A query runs its leaf function at the position of the key in the leaf where it belongs.\<close>

lemma query_ok:
  assumes s: "serves src h" and r: "repr C X h L T" and o: "ordered X (leaves T)"
  shows "\<exists>ctx n cs. query C src (root_page T) key leaf
       = leaf (hp_page h n) (raw_header (hp_page h n)) n (lb (map (key_of X) cs) key) (hit (map (key_of X) cs) key)
     \<and> plug (PLeaf n cs) ctx = T \<and> around X key ctx (PLeaf n cs) \<and> length ctx = L"
proof -
  have "root_page T \<in> hp_own h" using repr_own [OF r] by auto
  hence "root_page T \<noteq> 0" using s by (auto simp: serves_def)
  moreover have "L < unat MAX_TREE_LEVEL + 1" using repr_level [OF r] by (simp add: MAX_TREE_LEVEL_def MAX_PATH_def)
  ultimately show ?thesis
    using query_loop_ok [of src h L "[]" T key None "unat MAX_TREE_LEVEL + 1" leaf] s r o
    by (auto simp: query_def around_def)
qed

end

end
