(* ===== verification/RangeCells.thy ===== *)
theory RangeCells
  imports RangeTree TreeSeek
begin

text \<open>
  The cells of a range tree. A range record is the cell \<open>range_cell\<close>; encoding and decoding
  (\<open>range_tree.rs\<close>) are inverse on it, and the range codec of either key width keeps the
  contract \<open>codec_laws\<close> of the tree, so that every theorem about trees holds for range trees.
\<close>

section \<open>Cells\<close>

definition range_cell :: "('k \<Rightarrow> bytes) \<Rightarrow> 'k range \<Rightarrow> bytes" where
  "range_cell enc r = enc (r_from r) @ enc (r_to r) @ to_le_bytes (r_value r)"

definition is_ok :: "'a result \<Rightarrow> bool" where
  "is_ok r = (case r of Inl _ \<Rightarrow> False | Inr _ \<Rightarrow> True)"

definition range_cells :: "'k :: linorder ip_key \<Rightarrow> ('k \<Rightarrow> bytes) \<Rightarrow> ('k, 'k range) cell_view" where
  "range_cells K enc = \<lparr> enc_key = enc, key_of = (\<lambda>c. r_from (projr (decode_cell K c))),
     leaf_of = (\<lambda>c. projr (decode_cell K c)), leaf_ok = (\<lambda>c. is_ok (decode_cell K c)) \<rparr>"

lemma range_cells_simps [simp]:
  "enc_key (range_cells K enc) = enc" "key_of (range_cells K enc) c = r_from (projr (decode_cell K c))"
  "leaf_of (range_cells K enc) c = projr (decode_cell K c)" "leaf_ok (range_cells K enc) c = is_ok (decode_cell K c)"
  by (simp_all add: range_cells_def)

lemma range_codec_simps [simp]:
  "KEY_SIZE (range_codec K) = WIDTH K" "LEAF_SIZE (range_codec K) = WIDTH K * 2 + 4"
  "MAX_BRANCH_SIZE (range_codec K) = WIDTH K + 4" "MAX_LEAF_SIZE (range_codec K) = WIDTH K * 2 + 4"
  "read_key (range_codec K) c lvl = read_le K c 0" "read_leaf (range_codec K) = decode_cell K"
  "validate_leaf (range_codec K) = default_validate_leaf (decode_cell K)"
  "fixed_cell_size (range_codec K) = default_fixed_cell_size (WIDTH K) (WIDTH K * 2 + 4) (WIDTH K + 4)"
  "leaf_cell (range_codec K) = default_leaf_cell (WIDTH K * 2 + 4)" "branch_cell (range_codec K) = default_branch_cell (WIDTH K)"
  "write_branch (range_codec K) = default_write_branch (WIDTH K) (write_le K)"
  "read_branch_child (range_codec K) = default_read_branch_child (WIDTH K)"
  by (simp_all add: range_codec_def)

section \<open>Encoding and decoding\<close>

context key_laws
begin

lemma length_range_cell [simp]: "length (range_cell enc r) = WIDTH K * 2 + 4"
  by (simp add: range_cell_def length_enc)

lemma rd_range_cell:
  "rd (range_cell enc r) 0 (WIDTH K) = enc (r_from r)" "rd (range_cell enc r) (WIDTH K) (WIDTH K) = enc (r_to r)"
  "rd (range_cell enc r) (WIDTH K * 2) 4 = to_le_bytes (r_value r)"
  by (simp_all add: range_cell_def rd_def length_enc)

lemma small_cell: "length c \<le> WIDTH K * 2 + 4 \<Longrightarrow> length c \<le> usize_max"
  using width(2) by (simp add: usize_max_def)

lemma decode_fields_cell: "decode_fields K (range_cell enc r) = Inr r"
proof -
  let ?c = "range_cell enc r"
  have s: "length ?c \<le> usize_max" by (rule small_cell) simp
  have "read_le K ?c 0 = Inr (r_from r)" "read_le K ?c (WIDTH K) = Inr (r_to r)"
    by (rule read_le [OF _ s]; simp add: rd_range_cell)+
  moreover have "u32_le ?c (WIDTH K * 2) = Inr (r_value r)"
    using u32_le_in [of "WIDTH K * 2" ?c] s by (simp add: u32_at_def rd_range_cell)
  ultimately show ?thesis by (simp add: decode_fields_def record_size_def)
qed

lemma decode_range_cell: "decode_cell K (range_cell enc r) = (if r_from r \<le> r_to r then Inr r
    else Inl (Corrupt ''selected range has reversed endpoints''))"
  by (auto simp: decode_cell_def decode_fields_cell)

lemma cell_of_bytes:
  assumes "length c = WIDTH K * 2 + 4"
  obtains r where "c = range_cell enc r"
proof -
  obtain f t where f: "enc f = take (WIDTH K) c" and t: "enc t = take (WIDTH K) (drop (WIDTH K) c)"
    using enc_surj [of "take (WIDTH K) c"] enc_surj [of "take (WIDTH K) (drop (WIDTH K) c)"] assms by auto
  let ?v = "from_le_bytes (drop (WIDTH K * 2) c) :: 32 word"
  have v: "to_le_bytes ?v = drop (WIDTH K * 2) c"
    by (rule to_from_le_bytes) (simp_all add: assms)
  have "c = take (WIDTH K) c @ take (WIDTH K) (drop (WIDTH K) c) @ drop (WIDTH K * 2) c"
    by (metis append_take_drop_id drop_drop mult_2_right)
  hence "c = range_cell enc \<lparr> r_from = f, r_to = t, r_value = ?v \<rparr>" unfolding range_cell_def using f t v by simp
  thus ?thesis by (rule that)
qed

text \<open>A cell decodes exactly when it is the cell of a range in order.\<close>

lemma decode_cell_iff: "decode_cell K c = Inr r \<longleftrightarrow> c = range_cell enc r \<and> r_from r \<le> r_to r"
proof
  assume d: "decode_cell K c = Inr r"
  hence "length c = WIDTH K * 2 + 4"
    by (auto simp: decode_cell_def decode_fields_def record_size_def rbind_Inr_iff split: if_splits)
  then obtain r' where c: "c = range_cell enc r'" by (rule cell_of_bytes)
  show "c = range_cell enc r \<and> r_from r \<le> r_to r"
    using d unfolding c decode_range_cell by (auto split: if_splits)
qed (simp add: decode_range_cell)

lemma ok_range_cell: "is_ok (decode_cell K c) \<longleftrightarrow> (\<exists>r. c = range_cell enc r \<and> r_from r \<le> r_to r)"
  using decode_cell_iff [of c] by (cases "decode_cell K c") (auto simp: is_ok_def)

lemma encode_record_ok:
  assumes "r_from r \<le> r_to r" "WIDTH K * 2 + 4 \<le> length out"
  shows "\<exists>bs. encode_record K r out = Inr (bs, WIDTH K * 2 + 4) \<and> take (WIDTH K * 2 + 4) bs = range_cell enc r"
proof -
  let ?o1 = "wr out 0 (enc (r_from r))"
  let ?o2 = "take (WIDTH K) ?o1 @ wr (drop (WIDTH K) ?o1) 0 (enc (r_to r))"
  let ?o3 = "wr ?o2 (WIDTH K * 2) (to_le_bytes (r_value r))"
  have l: "length ?o1 = length out" "length ?o2 = length out" using assms by (simp_all add: length_enc)
  have k: "write_key_at K (r_from r) 0 out = Inr ?o1" "write_key_at K (r_to r) (WIDTH K) ?o1 = Inr ?o2"
    using assms l by (simp_all add: write_key_at_def write_le length_enc)
  have v: "copy_to_slice ?o2 (WIDTH K * 2) (to_le_bytes (r_value r)) = Inr ?o3"
    using assms l by (simp add: copy_to_slice_def)
  have "take (WIDTH K * 2 + 4) ?o3 = range_cell enc r"
    using assms l by (simp add: range_cell_def wr_def length_enc)
  moreover have "encode_record K r out = Inr (?o3, WIDTH K * 2 + 4)"
    using assms k v by (simp add: encode_record_def record_size_def not_less [symmetric])
  ultimately show ?thesis by blast
qed

end

section \<open>The range codec is a tree codec\<close>

sublocale key_laws \<subseteq> rc: codec_laws "range_codec K" "range_cells K enc"
proof
  fix lvl :: "16 word" and p h i k child c
  note w = width
  show "0 < KEY_SIZE (range_codec K)" "KEY_SIZE (range_codec K) \<le> 500"
    "MAX_BRANCH_SIZE (range_codec K) = KEY_SIZE (range_codec K) + 4" "0 < LEAF_SIZE (range_codec K)"
    "LEAF_SIZE (range_codec K) \<le> 500" "MAX_LEAF_SIZE (range_codec K) = LEAF_SIZE (range_codec K)"
    using w by simp_all
  show "fixed_cell_size (range_codec K) lvl = Some (cell_size (range_codec K) lvl)"
    using w by (simp add: default_fixed_cell_size_def cell_size_def)
  show "leaf_cell (range_codec K) p h i = cell p h i (LEAF_SIZE (range_codec K))"
    "branch_cell (range_codec K) p h i = cell p h i (KEY_SIZE (range_codec K) + 4)"
    by (simp_all add: default_leaf_cell_def default_branch_cell_def)
  show "length (enc_key (range_cells K enc) k) = KEY_SIZE (range_codec K)" by (simp add: length_enc)
  have b: "length (bcell (range_cells K enc) k child) = WIDTH K + 4" by (simp add: bcell_def length_enc)
  have s: "length (bcell (range_cells K enc) k child) \<le> usize_max" by (rule small_cell) (simp add: b)
  show "read_key (range_codec K) (bcell (range_cells K enc) k child) lvl = Inr k"
    using read_le [OF _ s, of 0 k] b by (simp add: bcell_def rd_def length_enc)
  show "read_branch_child (range_codec K) (bcell (range_cells K enc) k child) = Inr child"
    using array_in [OF _ s, of "WIDTH K" 4] b
    by (simp add: default_read_branch_child_def bcell_def rd_def length_enc)
  have m: "WIDTH K + 4 \<le> MAX_TREE_CELL" using w by (simp add: MAX_TREE_CELL_def)
  show "\<exists>bs. write_branch (range_codec K) k child (replicate MAX_TREE_CELL 0) = Inr (bs, KEY_SIZE (range_codec K) + 4)
      \<and> take (KEY_SIZE (range_codec K) + 4) bs = bcell (range_cells K enc) k child"
    using m by (simp add: default_write_branch_def Let_def write_le length_enc wr_def bcell_def)
  assume "leaf_ok (range_cells K enc) c"
  then obtain r where r: "c = range_cell enc r" "r_from r \<le> r_to r" by (auto simp: ok_range_cell)
  have d: "decode_cell K c = Inr r" using r by (simp add: decode_range_cell)
  show "length c = LEAF_SIZE (range_codec K)" using r by simp
  show "read_key (range_codec K) c 0 = Inr (key_of (range_cells K enc) c)"
    using read_le [OF _ small_cell, of 0 c "r_from r"] r d by (simp add: rd_range_cell)
  show "read_leaf (range_codec K) c = Inr (leaf_of (range_cells K enc) c)"
    "validate_leaf (range_codec K) c = Inr ()"
    using d by (simp_all add: default_validate_leaf_def)
qed

end
