(* ===== verification/TreeRetire.thy ===== *)
theory TreeRetire
  imports TreeSeek
begin

text \<open>
  Trees in a store that can retire committed pages (\<open>RetiringStore\<close>). The operations of the
  previous theories return the committed pages they replaced; here these are given to the store,
  and insertion, deletion and lookup become operations on the sorted list of cells of a tree.
  No other page of the store changes and no page is lost (\<open>moved\<close>).
\<close>

section \<open>Frames\<close>

definition moved :: "heap \<Rightarrow> heap \<Rightarrow> 32 word set \<Rightarrow> 32 word set \<Rightarrow> bool" where
  "moved h h' P P' \<longleftrightarrow> keeps h h' (- P) \<and> hp_own h' - P' = hp_own h - P"

lemma moved_refl [simp]: "moved h h P P"
  by (simp add: moved_def keeps_def)

lemma moved_trans:
  assumes m: "moved h h1 P P1" "moved h1 h2 P1 P2"
  shows "moved h h2 P P2"
proof -
  have "keeps h h2 (- P)"
    by (rule keeps_trans_own [of h h1 "- P" h2 "- P1"]) (use m in \<open>auto simp: moved_def\<close>)
  thus ?thesis using m by (simp add: moved_def)
qed

lemma moved_grows: "moved h h1 P P1 \<Longrightarrow> grows h1 h2 {} {} \<Longrightarrow> moved h h2 P P1"
  by (auto simp: moved_def grows_def keeps_def)

section \<open>Trees in a store\<close>

context tree_store
begin

lemma tree_in_keeps:
  assumes t: "tree_in C X V st root P l xs" and v: "valid V st'" and k: "keeps (heap_of V st) (heap_of V st') P"
  shows "tree_in C X V st' root P l xs"
  using t v repr_keeps [OF _ k] unfolding tree_in_def tree_with_def by blast

lemma tree_in_level: "tree_in C X V st root P l xs \<Longrightarrow> l \<le> MAX_PATH"
  using repr_level by (auto simp: tree_in_def tree_with_def)

lemma tree_in_cells: "tree_in C X V st root P l xs \<Longrightarrow> list_all (leaf_ok X) xs"
  using repr_leaf_ok by (fastforce simp: tree_in_def tree_with_def list_all_iff)

lemma tree_in_valid: "tree_in C X V st root P l xs \<Longrightarrow> valid V st"
  by (auto simp: tree_in_def tree_with_def)

text \<open>Insertion into a tree that may be empty, after an operation that replaced the pages \<open>ret\<close>.\<close>

lemma insert_in_onto:
  assumes t: "tree_in C X V st root P l xs" and o: "ordered X xs" and c: "leaf_ok X c"
    and q: "\<And>st' root' L P' rt. op_done C X V st P (2 * l + 3) st' root' L (put_cells X (key_of X c) [c] xs) P' rt \<Longrightarrow>
      L \<le> Suc l \<Longrightarrow> Q (st', root', ret @ rt, \<not> has_key X (key_of X c) xs)"
    and e: "room V st < 2 * l + 3 \<or> l = MAX_PATH \<Longrightarrow> E" and r: "ret = [] \<or> length ret + l \<le> MAX_PATH"
  shows "rwp (insert_leaf C S st root c ret) Q E"
proof (cases "root = 0 \<and> P = {} \<and> l = 0 \<and> xs = [] \<and> valid V st")
  case True
  have "rwp (insert_leaf C S st 0 c ret) Q E"
  proof (rule insert_empty_ok [OF _ c])
    fix st' root'
    assume "op_end C X V st {} 1 st' root' 0 [c] {root'} []"
    hence "op_end C X V st P (2 * l + 3) st' root' 0 (put_cells X (key_of X c) [c] xs) {root'} []"
      using True by (auto simp: op_end_def put_cells_def)
    from q [OF op_end_done [OF this]] show "Q (st', root', ret, True)" using True by (simp add: has_key_def)
  qed (use True e in auto)
  thus ?thesis using True by simp
next
  case False
  hence tw: "tree_with C X V st root P l xs" using t by (auto simp: tree_in_def)
  show ?thesis
  proof (rule insert_leaf_onto [OF tw o c _ e r])
    fix st' root' L N rt
    assume "op_end C X V st P (2 * l + 3) st' root' L (put_cells X (key_of X c) [c] xs) N rt" "L \<le> Suc l"
    thus "Q (st', root', ret @ rt, \<not> has_key X (key_of X c) xs)" using q [OF op_end_done] by simp
  qed
qed

lemma delete_in_ok:
  assumes t: "tree_in C X V st root P l xs" and o: "ordered X xs" and k: "has_key X key xs"
    and q: "\<And>st' root' L P' rt. op_done C X V st P (Suc l) st' root' L (put_cells X key [] xs) P' rt \<Longrightarrow> L \<le> l \<Longrightarrow>
      Q (st', root', rt)"
    and e: "room V st < Suc l \<Longrightarrow> E"
  shows "rwp (delete_existing C S st root key []) Q E"
proof -
  have tw: "tree_with C X V st root P l xs" using t k by (auto simp: tree_in_def has_key_def)
  show ?thesis by (rule delete_existing_ok [OF tw o k]) (use q e in auto)
qed

text \<open>Lookups in the store find the neighbours of a key in the list of cells.\<close>

lemma store_predecessor_ok:
  assumes t: "tree_in C X V st root P l xs" and o: "ordered X xs"
  shows "predecessor C (store_source S st) root key = Inr (map_option (leaf_of X) (floor_cell X key xs))"
proof (cases "root = 0 \<and> xs = []")
  case True
  thus ?thesis
    by (simp add: predecessor_def lookup_def unpositioned_def seek_read_inner_def require_access_def shared_access_def floor_cell_def)
next
  case False
  then obtain T where "repr C X (heap_of V st) l T" "leaves T = xs" "root = root_page T"
    using t by (auto simp: tree_in_def tree_with_def)
  thus ?thesis using predecessor_ok [OF store_serves [OF tree_in_valid [OF t]], of l T key] o by simp
qed

lemma store_at_or_after_ok:
  assumes t: "tree_in C X V st root P l xs" and o: "ordered X xs"
  shows "at_or_after C (store_source S st) root key = Inr (map_option (leaf_of X) (ceil_cell X key xs))"
proof (cases "root = 0 \<and> xs = []")
  case True
  thus ?thesis
    by (simp add: at_or_after_def lookup_def unpositioned_def seek_read_inner_def require_access_def shared_access_def ceil_cell_def)
next
  case False
  then obtain T where "repr C X (heap_of V st) l T" "leaves T = xs" "root = root_page T"
    using t by (auto simp: tree_in_def tree_with_def)
  thus ?thesis using at_or_after_ok [OF store_serves [OF tree_in_valid [OF t]], of l T key] o by simp
qed

end

section \<open>The contract\<close>

locale retiring_store = tree_store C X S V
  for C :: "('k :: linorder, 'l) codec" and X :: "('k, 'l) cell_view"
    and S :: "('s, 'x) retiring_ops_scheme" and V :: "'s store_view" +
  fixes cost :: nat
  assumes retire: "valid V st \<Longrightarrow> distinct rt \<Longrightarrow> set rt \<subseteq> hp_own (heap_of V st) - hp_priv (heap_of V st) \<Longrightarrow>
    rwp (retire_pages S st rt) (\<lambda>st'. valid V st' \<and> shrinks (heap_of V st) (heap_of V st') {} (set rt)
      \<and> room V st \<le> room V st' + cost) (room V st < cost)"
begin

text \<open>Retiring the pages an operation replaced ends the operation.\<close>

lemma retire_done:
  assumes d: "op_done C X V st P r st1 root l xs P' rt"
    and q: "\<And>st'. tree_in C X V st' root P' l xs \<Longrightarrow> moved (heap_of V st) (heap_of V st') P P' \<Longrightarrow>
      room V st \<le> room V st' + (r + cost) \<Longrightarrow> Q st'"
    and e: "room V st < r + cost \<Longrightarrow> E"
  shows "rwp (retire_pages S st1 rt) Q E"
proof (rule rwp_mono [OF retire])
  have t: "tree_in C X V st1 root P' l xs" and k: "keeps (heap_of V st) (heap_of V st1) (- P)"
    and o: "hp_own (heap_of V st1) - set rt - P' = hp_own (heap_of V st) - P" and ds: "P' \<inter> set rt = {}"
    and rt: "distinct rt" "set rt \<subseteq> hp_own (heap_of V st1) - hp_priv (heap_of V st1)" and rm: "room V st \<le> room V st1 + r"
    using d by (auto simp: op_done_def)
  show "valid V st1" by (rule tree_in_valid [OF t])
  show "distinct rt" "set rt \<subseteq> hp_own (heap_of V st1) - hp_priv (heap_of V st1)" by (rule rt)+
  show "E" if "room V st1 < cost" using that rm e by simp
  fix st'
  assume a: "valid V st' \<and> shrinks (heap_of V st1) (heap_of V st') {} (set rt) \<and> room V st1 \<le> room V st' + cost"
  hence s: "shrinks (heap_of V st1) (heap_of V st') {} (set rt)" by simp
  have "keeps (heap_of V st1) (heap_of V st') P'" by (rule shrinks_keeps [OF s]) (use ds in auto)
  hence t': "tree_in C X V st' root P' l xs" using tree_in_keeps [OF t] a by blast
  have "keeps (heap_of V st1) (heap_of V st') (- set rt)" by (rule shrinks_keeps [OF s]) auto
  hence "keeps (heap_of V st) (heap_of V st') (- P)"
    by (rule keeps_trans_own [OF k]) (use o in auto)
  moreover have "hp_own (heap_of V st') - P' = hp_own (heap_of V st) - P" using s o by (auto simp: shrinks_def)
  ultimately show "Q st'" using q [OF t'] a rm by (simp add: moved_def)
qed

section \<open>Insertion, deletion and replacement\<close>

lemma insert_retiring_ok:
  assumes t: "tree_in C X V st root P l xs" and o: "ordered X xs" and c: "leaf_ok X c"
    and q: "\<And>st' root' L P'. tree_in C X V st' root' P' L (put_cells X (key_of X c) [c] xs) \<Longrightarrow> L \<le> Suc l \<Longrightarrow>
      moved (heap_of V st) (heap_of V st') P P' \<Longrightarrow> room V st \<le> room V st' + (2 * l + 3 + cost) \<Longrightarrow>
      Q (st', root', \<not> has_key X (key_of X c) xs)"
    and e: "room V st < 2 * l + 3 + cost \<or> l = MAX_PATH \<Longrightarrow> E"
  shows "rwp (insert_retiring C S st root c) Q E"
  unfolding insert_retiring_def rwp_rbind
proof -
  let ?Q = "\<lambda>x. rwp (case x of (st, root, retired, inserted) \<Rightarrow>
      rbind (retire_pages S st retired) (\<lambda>st. Inr (st, root, inserted))) Q E"
  have fin: "?Q (st1, root', rt, \<not> has_key X (key_of X c) xs)"
    if d: "op_done C X V st P r st1 root' L (put_cells X (key_of X c) [c] xs) P' rt" and l: "L \<le> Suc l" and r: "r \<le> 2 * l + 3"
    for st1 root' L P' rt r
    unfolding split rwp_rbind by (rule retire_done [OF d]) (use q l e r in force)+
  show "rwp (insert_leaf C S st root c []) ?Q E"
    by (rule insert_in_onto [OF t o c]) (use fin e in auto)
qed

lemma delete_retiring_ok:
  assumes t: "tree_in C X V st root P l xs" and o: "ordered X xs" and k: "has_key X key xs"
    and q: "\<And>st' root' L P'. tree_in C X V st' root' P' L (put_cells X key [] xs) \<Longrightarrow> L \<le> l \<Longrightarrow>
      moved (heap_of V st) (heap_of V st') P P' \<Longrightarrow> room V st \<le> room V st' + (Suc l + cost) \<Longrightarrow> Q (st', root')"
    and e: "room V st < Suc l + cost \<Longrightarrow> E"
  shows "rwp (delete_retiring C S st root key) Q E"
  unfolding delete_retiring_def rwp_rbind
proof -
  show "rwp (delete_existing C S st root key []) (\<lambda>x. rwp (case x of (st, root, retired) \<Rightarrow>
      rbind (retire_pages S st retired) (\<lambda>st. Inr (st, root))) Q E) E"
  proof (rule delete_in_ok [OF t o k])
    fix st1 root' L P' rt
    assume d: "op_done C X V st P (Suc l) st1 root' L (put_cells X key [] xs) P' rt" and l: "L \<le> l"
    show "rwp (case (st1, root', rt) of (st, root, retired) \<Rightarrow> rbind (retire_pages S st retired) (\<lambda>st. Inr (st, root))) Q E"
      unfolding split rwp_rbind by (rule retire_done [OF d]) (use q l e in force)+
  qed (use e in auto)
qed

lemma replace_retiring_ok:
  assumes t: "tree_in C X V st root P l xs" and o: "ordered X xs" and k: "has_key X key xs"
    and c: "list_all (leaf_ok X) cells" "ordered X cells" "2 \<le> length cells" "length cells \<le> 3" "key_of X (hd cells) = key"
    and q: "\<And>st' root' L P'. tree_in C X V st' root' P' L (put_cells X key cells xs) \<Longrightarrow> L \<le> Suc l \<Longrightarrow>
      moved (heap_of V st) (heap_of V st') P P' \<Longrightarrow> room V st \<le> room V st' + (2 * l + 3 + cost) \<Longrightarrow> Q (st', root')"
    and e: "room V st < 2 * l + 3 + cost \<or> l = MAX_PATH \<Longrightarrow> E"
  shows "rwp (rbind (replace_leaf_with C S st root key cells []) (\<lambda>(st, root, retired).
    rbind (retire_pages S st retired) (\<lambda>st. Inr (st, root)))) Q E"
  unfolding rwp_rbind
proof -
  have tw: "tree_with C X V st root P l xs" using t k by (auto simp: tree_in_def has_key_def)
  show "rwp (replace_leaf_with C S st root key cells []) (\<lambda>x. rwp (case x of (st, root, retired) \<Rightarrow>
      rbind (retire_pages S st retired) (\<lambda>st. Inr (st, root))) Q E) E"
  proof (rule replace_leaf_with_ok [OF tw o k c])
    fix st1 root' L N rt
    assume en: "op_end C X V st P (2 * l + 3) st1 root' L (put_cells X key cells xs) N rt" and l: "L \<le> Suc l"
    show "rwp (case (st1, root', rt) of (st, root, retired) \<Rightarrow> rbind (retire_pages S st retired) (\<lambda>st. Inr (st, root))) Q E"
      unfolding split rwp_rbind by (rule retire_done [OF op_end_done [OF en]]) (use q l e in force)+
  qed (use e in auto)
qed

end

end
