(* ===== verification/RangeSpec.thy ===== *)
theory RangeSpec
  imports RangeList RangeCells TreeRetire
begin

text \<open>
  The range mutation refines updates of a map from addresses to values. A range tree is a tree
  whose cells are the records of a canonical list of ranges; the locale \<open>range_store\<close> is what
  the mutation relies on, and every operation of \<open>range_mutation/assign.rs\<close> is shown to return
  and to change the map as its name says, given enough pages.
\<close>

section \<open>Cells and ranges\<close>

lemma length_leaves_le:
  "\<forall>n cs. live_page C h 0 n cs \<longrightarrow> length cs \<le> b \<Longrightarrow> repr C X h l t \<Longrightarrow> length (leaves t) \<le> b * length (pages t)"
proof (induction l arbitrary: t)
  case 0
  then obtain n cs where t: "t = PLeaf n cs" by (cases t) auto
  have "length cs \<le> b" using 0 t by auto
  thus ?case using t by simp
next
  case (Suc l)
  then obtain n ts where t: "t = PNode n ts" by (cases t) auto
  have "length (leaves u) \<le> b * length (pages u)" if "u \<in> set ts" for u
    using Suc.IH [OF Suc.prems(1), of u] Suc.prems(2) t that by (auto simp: list_all_iff)
  hence "(\<Sum>u\<leftarrow>ts. length (leaves u)) \<le> (\<Sum>u\<leftarrow>ts. b * length (pages u))" by (rule sum_list_mono)
  also have "\<dots> = b * (\<Sum>u\<leftarrow>ts. length (pages u))" by (simp add: sum_list_const_mult)
  finally show ?case using t by (simp add: length_concat comp_def)
qed

context codec_laws
begin

lemma leaf_count: "live_page C h lvl n cs \<Longrightarrow> length cs \<le> 4096"
  using room_for_length [OF live_tpage, of h lvl n cs] by (simp add: room_for_def PAGE_SIZE_def HEADER_SIZE_def)

text \<open>A tree has fewer than \<open>2 ^ 45\<close> cells, so that a 64-bit record count cannot overflow.\<close>

lemma tree_cell_count:
  assumes "tree_in C X V st root P l xs"
  shows "length xs < 2 ^ 45"
proof (cases "xs = []")
  case False
  then obtain t where t: "repr C X (heap_of V st) l t" "distinct (pages t)" "leaves t = xs"
    using assms by (auto simp: tree_in_def tree_with_def)
  have "length (pages t) = card (set (pages t))" using t(2) by (simp add: distinct_card)
  also have "\<dots> \<le> card (UNIV :: 32 word set)" by (rule card_mono) simp_all
  also have "\<dots> = 2 ^ 32" by (simp add: card_word)
  finally have "length (pages t) \<le> 2 ^ 32" .
  hence "4096 * length (pages t) \<le> 4096 * 2 ^ 32" by simp
  moreover have "length xs \<le> 4096 * length (pages t)" using length_leaves_le [OF _ t(1), of 4096] leaf_count t(3) by simp
  ultimately show ?thesis by simp
qed simp

end

context key_laws
begin

lemma key_range_cell: "r_from r \<le> r_to r \<Longrightarrow> r_from (projr (decode_cell K (range_cell enc r))) = r_from r"
  by (simp add: decode_range_cell)

lemma ordered_ranges:
  assumes "canonical K rs"
  shows "ordered (range_cells K enc) (map (range_cell enc) rs)"
proof -
  have "sorted_wrt (\<lambda>a b. r_from a < r_from b) rs"
  proof (rule sorted_wrt_mono_rel [OF _ canonical_less [OF assms]])
    fix x y assume "x \<in> set rs" "y \<in> set rs" "r_to x < r_from y"
    moreover from this have "r_from x \<le> r_to x" using assms by (simp add: canonical_def)
    ultimately show "r_from x < r_from y" by simp
  qed
  hence "sorted_wrt (\<lambda>a b. r_from (projr (decode_cell K (range_cell enc a))) < r_from (projr (decode_cell K (range_cell enc b)))) rs"
    by (rule sorted_wrt_mono_rel [rotated]) (use assms key_range_cell in \<open>auto simp: canonical_def\<close>)
  thus ?thesis by (simp add: ordered_def sorted_wrt_map)
qed

lemma filter_cells:
  assumes "\<forall>r\<in>set rs. r_from r \<le> r_to r"
  shows "filter (\<lambda>x. Q (key_of (range_cells K enc) x)) (map (range_cell enc) rs) = map (range_cell enc) (filter (\<lambda>r. Q (r_from r)) rs)"
  using assms by (induction rs) (auto simp: key_range_cell)

lemma put_ranges:
  assumes "canonical K rs"
  shows "put_cells (range_cells K enc) key (map (range_cell enc) new) (map (range_cell enc) rs) = map (range_cell enc) (put_range key new rs)"
proof -
  have o: "\<forall>r\<in>set rs. r_from r \<le> r_to r" using assms by (simp add: canonical_def)
  show ?thesis
    using filter_cells [OF o, of "\<lambda>k. k < key"] filter_cells [OF o, of "\<lambda>k. key < k"] by (simp add: put_cells_def put_range_def)
qed

lemma has_key_ranges:
  assumes "canonical K rs"
  shows "has_key (range_cells K enc) key (map (range_cell enc) rs) \<longleftrightarrow> (\<exists>r\<in>set rs. r_from r = key)"
proof -
  have "(\<lambda>x. r_from (projr (decode_cell K x))) ` range_cell enc ` set rs = r_from ` set rs"
    unfolding image_image by (rule image_cong) (use assms in \<open>auto simp: canonical_def key_range_cell\<close>)
  thus ?thesis by (auto simp: has_key_def)
qed

lemma floor_ranges:
  assumes "canonical K rs"
  shows "map_option (leaf_of (range_cells K enc)) (floor_cell (range_cells K enc) key (map (range_cell enc) rs)) = floor_range key rs"
proof -
  have o: "\<forall>r\<in>set rs. r_from r \<le> r_to r" using assms by (simp add: canonical_def)
  have "projr (decode_cell K (range_cell enc r)) = r" if "floor_range key rs = Some r" for r
    using floor_Some(1) [OF assms that] o by (simp add: decode_range_cell)
  thus ?thesis
    using filter_cells [OF o, of "\<lambda>k. k \<le> key"]
    by (simp add: floor_cell_def floor_range_def rev_map [symmetric] split: list.splits)
qed

lemma ceil_ranges:
  assumes "canonical K rs"
  shows "map_option (leaf_of (range_cells K enc)) (ceil_cell (range_cells K enc) key (map (range_cell enc) rs)) = ceil_range key rs"
proof -
  have o: "\<forall>r\<in>set rs. r_from r \<le> r_to r" using assms by (simp add: canonical_def)
  have "projr (decode_cell K (range_cell enc r)) = r" if "ceil_range key rs = Some r" for r
    using ceil_Some(1) [OF assms that] o by (simp add: decode_range_cell)
  thus ?thesis
    using filter_cells [OF o, of "\<lambda>k. key \<le> k"]
    by (simp add: ceil_cell_def ceil_range_def split: list.splits)
qed

lemma encoded_range_ok: "r_from r \<le> r_to r \<Longrightarrow> encoded_range K r = Inr (range_cell enc r)"
  using encode_record_ok [of r "replicate MAX_RECORD_SIZE 0"] width(2) by (auto simp: encoded_range_def MAX_RECORD_SIZE_def)

end

section \<open>Range trees in a store\<close>

definition range_tree ::
  "'k :: linorder ip_key \<Rightarrow> ('k \<Rightarrow> bytes) \<Rightarrow> 's store_view \<Rightarrow> 's rtree \<Rightarrow> 32 word set \<Rightarrow> nat \<Rightarrow> 'k range list \<Rightarrow> bool" where
  "range_tree K enc V t P l rs \<longleftrightarrow> canonical K rs \<and> unat (snd (snd t)) = length rs
    \<and> tree_in (range_codec K) (range_cells K enc) V (fst t) (fst (snd t)) P l (map (range_cell enc) rs)"

text \<open>
  Room for \<open>n\<close> more tree operations of which \<open>i\<close> insert. With \<open>E\<close> true nothing is asked of the
  room: the lemmas below then say that an operation fails or does what it should, and with \<open>E\<close>
  false that it succeeds.
\<close>

definition affords :: "'s store_view \<Rightarrow> nat \<Rightarrow> bool \<Rightarrow> nat \<Rightarrow> nat \<Rightarrow> nat \<Rightarrow> 's \<Rightarrow> bool" where
  "affords V cost E i n l st \<longleftrightarrow> E \<or> l + i \<le> MAX_PATH \<and> n * (65 + 3 * cost) \<le> room V st"

text \<open>A state reached from the pages \<open>P0\<close> of the heap \<open>h0\<close>, with what can still be done in it.\<close>

definition reached ::
  "'k :: linorder ip_key \<Rightarrow> ('k \<Rightarrow> bytes) \<Rightarrow> 's store_view \<Rightarrow> nat \<Rightarrow> bool \<Rightarrow> heap \<Rightarrow> 32 word set \<Rightarrow> nat \<Rightarrow> nat \<Rightarrow> 's rtree \<Rightarrow> 'k range list \<Rightarrow> bool" where
  "reached K enc V cost E h0 P0 i n t rs \<longleftrightarrow> (\<exists>P l. range_tree K enc V t P l rs
    \<and> moved h0 (heap_of V (fst t)) P0 P \<and> affords V cost E i n l (fst t))"

lemma reached_canonical: "reached K enc V cost E h0 P0 i n t rs \<Longrightarrow> canonical K rs"
  by (auto simp: reached_def range_tree_def)

lemma reached_mono:
  assumes "reached K enc V cost E h0 P0 i n t rs" "i' \<le> i" "n' \<le> n"
  shows "reached K enc V cost E h0 P0 i' n' t rs"
proof -
  have "n' * (65 + 3 * cost) \<le> n * (65 + 3 * cost)" using assms(3) by (rule mult_le_mono1)
  hence "affords V cost E i n l st \<Longrightarrow> affords V cost E i' n' l st" for l st
    unfolding affords_def using assms(2) by (meson add_left_mono le_trans)
  thus ?thesis using assms(1) unfolding reached_def by blast
qed

locale range_store = key_laws K enc num + retiring_store "range_codec K" "range_cells K enc" S V cost
  for K :: "'k :: linorder ip_key" and enc num
    and S :: "('s, 'x) range_ops_scheme" and V :: "'s store_view" and cost +
  assumes added: "valid V st \<Longrightarrow> rwp (range_record_added S st v) (\<lambda>st'. valid V st'
      \<and> grows (heap_of V st) (heap_of V st') {} {} \<and> room V st \<le> room V st' + cost) (room V st < cost)"
    and removed: "valid V st \<Longrightarrow> rwp (range_record_removed S st v) (\<lambda>st'. valid V st'
      \<and> grows (heap_of V st) (heap_of V st') {} {} \<and> room V st \<le> room V st' + cost) (room V st < cost)"
begin

lemma tree_in_grows:
  assumes "tree_in (range_codec K) (range_cells K enc) V st root P l xs" "valid V st'" "grows (heap_of V st) (heap_of V st') {} {}"
  shows "tree_in (range_codec K) (range_cells K enc) V st' root P l xs"
  by (rule tree_in_keeps [OF assms(1,2) grows_keeps [OF assms(3)]]) simp

section \<open>Single operations\<close>

lemma read_predecessor_ok:
  assumes "reached K enc V cost E h0 P0 i n t rs"
  shows "read_predecessor K S (fst t) (fst (snd t)) key = Inr (floor_range key rs)"
proof -
  obtain P l where "tree_in (range_codec K) (range_cells K enc) V (fst t) (fst (snd t)) P l (map (range_cell enc) rs)" "canonical K rs"
    using assms by (auto simp: reached_def range_tree_def)
  thus ?thesis
    using store_predecessor_ok [OF _ ordered_ranges] floor_ranges by (simp add: read_predecessor_def)
qed

lemma read_at_or_after_ok:
  assumes "reached K enc V cost E h0 P0 i n t rs"
  shows "read_at_or_after K S (fst t) (fst (snd t)) key = Inr (ceil_range key rs)"
proof -
  obtain P l where "tree_in (range_codec K) (range_cells K enc) V (fst t) (fst (snd t)) P l (map (range_cell enc) rs)" "canonical K rs"
    using assms by (auto simp: reached_def range_tree_def)
  thus ?thesis
    using store_at_or_after_ok [OF _ ordered_ranges] ceil_ranges by (simp add: read_at_or_after_def)
qed

lemma range_remove_ok:
  assumes t: "reached K enc V cost E h0 P0 i (Suc n) t rs" and r: "r \<in> set rs"
  shows "rwp (range_remove K S t r) (\<lambda>t'. reached K enc V cost E h0 P0 i n t' (put_range (r_from r) [] rs)) E"
proof -
  obtain st root count where te: "t = (st, root, count)" by (cases t)
  obtain P l where tr: "tree_in (range_codec K) (range_cells K enc) V st root P l (map (range_cell enc) rs)"
    and c: "canonical K rs" "unat count = length rs" and m: "moved h0 (heap_of V st) P0 P" and a: "affords V cost E i (Suc n) l st"
    using t te by (auto simp: reached_def range_tree_def)
  have l: "l \<le> 31" using tree_in_level [OF tr] by (simp add: MAX_PATH_31)
  note q = put_removes [OF c(1) r]
  have sub: "Prelude.checked_sub count 1 = Some (count - 1)" "unat (count - 1) = length (put_range (r_from r) [] rs)"
  proof -
    have "count \<noteq> 0" using c(2) q(3) by auto
    thus "unat (count - 1) = length (put_range (r_from r) [] rs)" using c(2) q(3) by (simp add: unat_minus_one)
    show "Prelude.checked_sub count 1 = Some (count - 1)" using c(2) q(3) by (auto simp: checked_sub_def word_le_nat_alt)
  qed
  show ?thesis unfolding range_remove_def te prod.case rwp_rbind sub ok_or.simps rwp_Inr
  proof (rule delete_retiring_ok [OF tr ordered_ranges [OF c(1)]], unfold prod.case rwp_rbind sub ok_or.simps rwp_Inr)
    show "has_key (range_cells K enc) (r_from r) (map (range_cell enc) rs)" using has_key_ranges [OF c(1)] r by blast
    show "E" if "room V st < Suc l + cost" using that a l by (auto simp: affords_def)
    fix st' root' L P'
    assume d: "tree_in (range_codec K) (range_cells K enc) V st' root' P' L (put_cells (range_cells K enc) (r_from r) [] (map (range_cell enc) rs))"
      "L \<le> l" "moved (heap_of V st) (heap_of V st') P P'" "room V st \<le> room V st' + (Suc l + cost)"
    have tr': "tree_in (range_codec K) (range_cells K enc) V st' root' P' L (map (range_cell enc) (put_range (r_from r) [] rs))"
      using d(1) put_ranges [OF c(1), of "r_from r" "[]"] by simp
    show "rwp (range_record_removed S st' (r_value r))
      (\<lambda>st''. reached K enc V cost E h0 P0 i n (st'', root', count - 1) (put_range (r_from r) [] rs)) E"
    proof (rule rwp_mono [OF removed [OF tree_in_valid [OF tr']]])
      show "E" if "room V st' < cost" using that a l d(4) by (auto simp: affords_def)
      fix st''
      assume e: "valid V st'' \<and> grows (heap_of V st') (heap_of V st'') {} {} \<and> room V st' \<le> room V st'' + cost"
      have "moved h0 (heap_of V st'') P0 P'" using moved_grows [OF moved_trans [OF m d(3)]] e by blast
      moreover have "tree_in (range_codec K) (range_cells K enc) V st'' root' P' L (map (range_cell enc) (put_range (r_from r) [] rs))"
        using tree_in_grows [OF tr'] e by blast
      moreover have "affords V cost E i n L st''" using a l d(2,4) e by (auto simp: affords_def)
      ultimately show "reached K enc V cost E h0 P0 i n (st'', root', count - 1) (put_range (r_from r) [] rs)"
        unfolding reached_def range_tree_def using q(4) sub(2) by auto
    qed
  qed
qed

lemma insert_range_ok:
  assumes t: "reached K enc V cost E h0 P0 (Suc i) (Suc n) t rs" and r: "r_from r \<le> r_to r" "\<forall>x\<in>set rs. r_from x \<noteq> r_from r"
    and p: "canonical K (put_range (r_from r) [r] rs)" "length (put_range (r_from r) [r] rs) = Suc (length rs)"
  shows "rwp (insert_range K S t r) (\<lambda>t'. reached K enc V cost E h0 P0 i n t' (put_range (r_from r) [r] rs)) E"
proof -
  obtain st root count where te: "t = (st, root, count)" by (cases t)
  obtain P l where tr: "tree_in (range_codec K) (range_cells K enc) V st root P l (map (range_cell enc) rs)"
    and c: "canonical K rs" "unat count = length rs" and m: "moved h0 (heap_of V st) P0 P" and a: "affords V cost E (Suc i) (Suc n) l st"
    using t te by (auto simp: reached_def range_tree_def)
  have l: "l \<le> 31" using tree_in_level [OF tr] by (simp add: MAX_PATH_31)
  have k: "key_of (range_cells K enc) (range_cell enc r) = r_from r" "leaf_ok (range_cells K enc) (range_cell enc r)"
    using r(1) by (auto simp: key_range_cell ok_range_cell)
  have nk: "\<not> has_key (range_cells K enc) (r_from r) (map (range_cell enc) rs)" using has_key_ranges [OF c(1)] r(2) by auto
  have cnt: "unat (count + 1) = Suc (length rs)" "Prelude.checked_add count 1 = Some (count + 1)"
    using c(2) rc.tree_cell_count [OF tr] by (simp_all add: unat_word_ariths checked_add_def)
  show ?thesis unfolding insert_range_def te prod.case encoded_range_ok [OF r(1)] rwp_rbind rwp_Inr
  proof (rule insert_retiring_ok [OF tr ordered_ranges [OF c(1)] k(2)], unfold prod.case k(1) eqTrueI [OF nk] if_True rwp_rbind cnt(2) ok_or.simps rwp_Inr)
    show "E" if "room V st < 2 * l + 3 + cost \<or> l = MAX_PATH" using that a l by (auto simp: affords_def)
    fix st' root' L P'
    assume d: "tree_in (range_codec K) (range_cells K enc) V st' root' P' L (put_cells (range_cells K enc) (r_from r) [range_cell enc r] (map (range_cell enc) rs))"
      "L \<le> Suc l" "moved (heap_of V st) (heap_of V st') P P'" "room V st \<le> room V st' + (2 * l + 3 + cost)"
    have tr': "tree_in (range_codec K) (range_cells K enc) V st' root' P' L (map (range_cell enc) (put_range (r_from r) [r] rs))"
      using d(1) put_ranges [OF c(1), of "r_from r" "[r]"] by simp
    show "rwp (range_record_added S st' (r_value r))
      (\<lambda>st''. reached K enc V cost E h0 P0 i n (st'', root', count + 1) (put_range (r_from r) [r] rs)) E"
    proof (rule rwp_mono [OF added [OF tree_in_valid [OF tr']]])
      show "E" if "room V st' < cost" using that a l d(4) by (auto simp: affords_def)
      fix st''
      assume e: "valid V st'' \<and> grows (heap_of V st') (heap_of V st'') {} {} \<and> room V st' \<le> room V st'' + cost"
      have "moved h0 (heap_of V st'') P0 P'" using moved_grows [OF moved_trans [OF m d(3)]] e by blast
      moreover have "tree_in (range_codec K) (range_cells K enc) V st'' root' P' L (map (range_cell enc) (put_range (r_from r) [r] rs))"
        using tree_in_grows [OF tr'] e by blast
      moreover have "affords V cost E i n L st''" using a l d(2,4) e by (auto simp: affords_def)
      ultimately show "reached K enc V cost E h0 P0 i n (st'', root', count + 1) (put_range (r_from r) [r] rs)"
        unfolding reached_def range_tree_def using p cnt(1) by auto
    qed
  qed
qed

section \<open>Coalescing insertion\<close>

lemma merge_previous_ok:
  assumes t: "reached K enc V cost E h0 P0 i (Suc n) t rs" and a: "addable K rs r"
  shows "rwp (merge_previous K S t r) (\<lambda>(t', r'). \<exists>rs'. reached K enc V cost E h0 P0 i n t' rs' \<and> addable K rs' r'
    \<and> overlay r' (value_at rs') = overlay r (value_at rs) \<and> (\<forall>x\<in>set rs'. \<not> touching K x r')) E"
proof (cases "\<exists>p. floor_range (r_from r) rs = Some p \<and> touching K p r")
  case True
  then obtain p where p: "floor_range (r_from r) rs = Some p" "touching K p r" by blast
  have "p \<in> set rs" by (rule floor_Some(1) [OF reached_canonical [OF t] p(1)])
  note rm = range_remove_ok [OF t this]
  have e: "merge_previous K S t r = rbind (range_remove K S t p) (\<lambda>t. Inr (t, r \<lparr> r_from := r_from p \<rparr>))"
    using read_predecessor_ok [OF t, of "r_from r"] p by (cases t) (simp add: merge_previous_def touching_def)
  show ?thesis unfolding e by (rule rwp_rbindI [OF rm]) (use merge_left [OF a p] in auto)
next
  case False
  have "\<forall>x\<in>set rs. \<not> touching K x r" using floor_touching [OF a] False by blast
  moreover have "merge_previous K S t r = Inr (t, r)"
    using read_predecessor_ok [OF t, of "r_from r"] False
    by (cases t; cases "floor_range (r_from r) rs") (auto simp: merge_previous_def touching_def)
  moreover have "reached K enc V cost E h0 P0 i n t rs" by (rule reached_mono [OF t]) simp_all
  ultimately show ?thesis using a by auto
qed

lemma merge_next_ok:
  assumes t: "reached K enc V cost E h0 P0 i (Suc n) t rs" and a: "addable K rs r" and l: "\<forall>x\<in>set rs. \<not> touching K x r"
  shows "rwp (merge_next K S t r) (\<lambda>(t', r'). \<exists>rs'. reached K enc V cost E h0 P0 i n t' rs' \<and> addable K rs' r'
    \<and> overlay r' (value_at rs') = overlay r (value_at rs) \<and> (\<forall>x\<in>set rs'. \<not> touching K x r' \<and> \<not> touching K r' x)) E"
proof (cases "\<exists>p. ceil_range (r_from r) rs = Some p \<and> touching K r p")
  case True
  then obtain p where p: "ceil_range (r_from r) rs = Some p" "touching K r p" by blast
  have "p \<in> set rs" by (rule ceil_Some(1) [OF reached_canonical [OF t] p(1)])
  note rm = range_remove_ok [OF t this]
  have e: "merge_next K S t r = rbind (range_remove K S t p) (\<lambda>t. Inr (t, r \<lparr> r_to := r_to p \<rparr>))"
    using read_at_or_after_ok [OF t, of "r_from r"] p by (cases t) (simp add: merge_next_def touching_def)
  show ?thesis unfolding e by (rule rwp_rbindI [OF rm]) (use merge_right [OF a p l] in auto)
next
  case False
  have "\<forall>x\<in>set rs. \<not> touching K x r \<and> \<not> touching K r x" using ceil_touching [OF a] False l by blast
  moreover have "merge_next K S t r = Inr (t, r)"
    using read_at_or_after_ok [OF t, of "r_from r"] False
    by (cases t; cases "ceil_range (r_from r) rs") (auto simp: merge_next_def touching_def)
  moreover have "reached K enc V cost E h0 P0 i n t rs" by (rule reached_mono [OF t]) simp_all
  ultimately show ?thesis using a by auto
qed

lemma insert_coalesced_ok:
  assumes t: "reached K enc V cost E h0 P0 (Suc i) (n + 3) t rs" and a: "addable K rs r"
  shows "rwp (insert_coalesced K S t r) (\<lambda>t'. \<exists>rs'. reached K enc V cost E h0 P0 i n t' rs' \<and> value_at rs' = overlay r (value_at rs)) E"
  unfolding insert_coalesced_def
proof (rule rwp_rbindI [OF merge_previous_ok [OF _ a]], unfold split_paired_all prod.case)
  show "reached K enc V cost E h0 P0 (Suc i) (Suc (n + 2)) t rs" using t by (simp add: numeral_3_eq_3)
  fix t1 r1
  assume "\<exists>rs'. reached K enc V cost E h0 P0 (Suc i) (n + 2) t1 rs' \<and> addable K rs' r1
      \<and> overlay r1 (value_at rs') = overlay r (value_at rs) \<and> (\<forall>x\<in>set rs'. \<not> touching K x r1)"
  then obtain rs1 where m1: "reached K enc V cost E h0 P0 (Suc i) (Suc (Suc n)) t1 rs1" "addable K rs1 r1"
      "overlay r1 (value_at rs1) = overlay r (value_at rs)" "\<forall>x\<in>set rs1. \<not> touching K x r1" by auto
  show "rwp (rbind (merge_next K S t1 r1) (\<lambda>(t, r). insert_range K S t r))
    (\<lambda>t'. \<exists>rs'. reached K enc V cost E h0 P0 i n t' rs' \<and> value_at rs' = overlay r (value_at rs)) E"
  proof (rule rwp_rbindI [OF merge_next_ok [OF m1(1,2,4)]], unfold split_paired_all prod.case, elim exE conjE)
    fix t2 r2 rs2
    assume m2: "reached K enc V cost E h0 P0 (Suc i) (Suc n) t2 rs2" "addable K rs2 r2"
      "overlay r2 (value_at rs2) = overlay r1 (value_at rs1)" "\<forall>x\<in>set rs2. \<not> touching K x r2 \<and> \<not> touching K r2 x"
    note p = addable_put [OF m2(2,4)]
    have "r_from r2 \<le> r_to r2" using m2(2) by (simp add: addable_def)
    from insert_range_ok [OF m2(1) this p(4,1,3)]
    show "rwp (insert_range K S t2 r2) (\<lambda>t'. \<exists>rs'. reached K enc V cost E h0 P0 i n t' rs' \<and> value_at rs' = overlay r (value_at rs)) E"
      by (rule rwp_mono) (use p(2) m1(3) m2(3) in auto)
  qed
qed

end

end
