(* ===== verification/RangeAssign.thy ===== *)
theory RangeAssign
  imports RangeSpec
begin

text \<open>
  Assigning, clearing and transforming an interval of a range tree: the replacement of
  \<open>range_mutation/assign.rs\<close> returns, updates the map of the tree on the interval and nowhere
  else, keeps the list canonical and the record count exact, and answers whether the map changed.
\<close>

definition assigned :: "'k :: linorder \<Rightarrow> 'k \<Rightarrow> 32 word option \<Rightarrow> ('k \<Rightarrow> 32 word option) \<Rightarrow> 'k \<Rightarrow> 32 word option" where
  "assigned from to' value f = (\<lambda>a. if between from to' a then value else f a)"

lemma assigned_none_differs: "assigned from to' None f \<noteq> f \<longleftrightarrow> (\<exists>a. between from to' a \<and> f a \<noteq> None)"
proof
  assume "assigned from to' None f \<noteq> f"
  then obtain a where "assigned from to' None f a \<noteq> f a" by blast
  thus "\<exists>a. between from to' a \<and> f a \<noteq> None" by (cases "f a") (auto simp: assigned_def split: if_splits)
next
  assume "\<exists>a. between from to' a \<and> f a \<noteq> None"
  then obtain a where "between from to' a" "f a \<noteq> None" by blast
  hence "f a \<noteq> assigned from to' None f a" by (simp add: assigned_def)
  thus "assigned from to' None f \<noteq> f" by metis
qed

context range_store
begin

section \<open>Trimming\<close>

lemma trim_predecessor_ok:
  assumes t: "reached K enc V cost E h0 P0 i (Suc n) t rs" and ft: "from \<le> to'"
  shows "rwp (trim_predecessor K S t (floor_range from rs) from to') (\<lambda>(t', w). \<exists>rs'.
    reached K enc V cost E h0 P0 i n t' rs' \<and> trimmed K from to' (value_at rs) rs' w \<and> pending from to' rs' \<le> pending from to' rs) E"
proof -
  have c: "canonical K rs" by (rule reached_canonical [OF t])
  show ?thesis
  proof (cases "\<exists>old. floor_range from rs = Some old \<and> from \<le> r_to old")
    case True
    then obtain old where f: "floor_range from rs = Some old" and o: "from \<le> r_to old" by blast
    note q = floor_Some [OF c f]
    define left where "left = (if r_from old < from then map_option (\<lambda>b. \<lparr> r_from = r_from old, r_to = b, r_value = r_value old \<rparr>) (checked_previous K from) else None)"
    define right where "right = (if to' < r_to old then map_option (\<lambda>b. \<lparr> r_from = b, r_to = r_to old, r_value = r_value old \<rparr>) (checked_next K to') else None)"
    have tf: "trimmed K from to' (value_at rs) (put_range (r_from old) [] rs) \<lparr> rw_left = left, rw_right = right, rw_changed = True \<rparr>"
      by (rule trimmed_first [OF c q(1,2) o ft left_def right_def])
    have e: "trim_predecessor K S t (floor_range from rs) from to'
        = rbind (range_remove K S t old) (\<lambda>t. Inr (t, \<lparr> rw_left = left, rw_right = right, rw_changed = True \<rparr>))"
      using previous_exists [of "r_from old" "from"] next_exists [of to' "r_to old"] f o
      by (auto simp: trim_predecessor_def Let_def left_def right_def)
    have pd: "pending from to' (put_range (r_from old) [] rs) \<le> pending from to' rs"
      unfolding pending_def put_removes(1) [OF c q(1)] filter_filter by (induction rs) auto
    show ?thesis unfolding e by (rule rwp_rbindI [OF range_remove_ok [OF t q(1)]]) (use tf pd in auto)
  next
    case False
    have "r_to x < from" if x: "x \<in> set rs" "r_from x < from" for x
    proof -
      obtain old where f: "floor_range from rs = Some old"
        using floor_None [of "from" rs] x by (cases "floor_range from rs") auto
      hence "r_to old < from" using False by auto
      moreover have "x = old \<or> r_to x < r_from old" using floor_Some(3) [OF c f x(1)] x(2) by simp
      ultimately show ?thesis using floor_Some(2) [OF c f] by auto
    qed
    hence "trimmed K from to' (value_at rs) rs \<lparr> rw_left = None, rw_right = None, rw_changed = False \<rparr>" by (intro trimmed_start [OF c]) blast
    moreover have "trim_predecessor K S t (floor_range from rs) from to' = Inr (t, \<lparr> rw_left = None, rw_right = None, rw_changed = False \<rparr>)"
      using False by (cases "floor_range from rs") (simp_all add: trim_predecessor_def Let_def)
    moreover have "reached K enc V cost E h0 P0 i n t rs" by (rule reached_mono [OF t]) simp_all
    ultimately show ?thesis by auto
  qed
qed

lemma trim_following_ok:
  "pending from to' rs = k \<Longrightarrow> reached K enc V cost E h0 P0 i (n + k) t rs \<Longrightarrow> trimmed K from to' f rs w \<Longrightarrow>
   runs (trim_following K S t from to' w) (\<lambda>(t', w'). \<exists>rs'. reached K enc V cost E h0 P0 i n t' rs'
     \<and> trimmed K from to' f rs' w' \<and> (\<forall>a. between from to' a \<longrightarrow> value_at rs' a = None)) E"
proof (induction k arbitrary: rs t w)
  case 0
  have c: "canonical K rs" by (rule reached_canonical [OF 0(2)])
  have n: "to' < r_from old" if "ceil_range from rs = Some old" for old
    using ceil_Some(1,2) [OF c that] 0(1) by (auto simp: pending_def filter_empty_conv between_def)
  have "trim_following K S t from to' w = Some (Inr (t, w))"
    using read_at_or_after_ok [OF 0(2), of "from"] n
    by (subst trim_following.simps) (auto split: option.split)
  thus ?case using 0(2,3) trimmed_end [OF 0(3)] n by auto
next
  case (Suc k)
  have c: "canonical K rs" by (rule reached_canonical [OF Suc.prems(2)])
  have "filter (\<lambda>x. between from to' (r_from x)) rs \<noteq> []" using Suc.prems(1) by (auto simp: pending_def)
  hence "\<exists>x\<in>set rs. between from to' (r_from x)" by (simp add: filter_empty_conv)
  then obtain x where x: "x \<in> set rs" "from \<le> r_from x" "r_from x \<le> to'" by (auto simp: between_def)
  then obtain old where ce: "ceil_range from rs = Some old"
    using ceil_None [of "from" rs] by (cases "ceil_range from rs") (auto simp: not_less)
  note q = ceil_Some [OF c ce]
  have oo: "r_from old \<le> r_to old" using c q(1) by (simp add: canonical_def)
  have ov: "r_from old \<le> to'" using q(3) [OF x(1,2)] x(3) oo by (elim disjE) (simp, order)
  define right where "right = (if to' < r_to old then map_option (\<lambda>b. \<lparr> r_from = b, r_to = r_to old, r_value = r_value old \<rparr>) (checked_next K to') else rw_right w)"
  let ?w = "w \<lparr> rw_changed := True, rw_right := right \<rparr>"
  note tn = trimmed_next [OF Suc.prems(3) ce ov right_def]
  have pk: "reached K enc V cost E h0 P0 i (Suc (n + k)) t rs" using Suc.prems(2) by simp
  have e: "trim_following K S t from to' w = step_result (range_remove K S t old) (\<lambda>t'.
      if to' < r_to old then Some (Inr (t', ?w)) else trim_following K S t' from to' ?w)"
    using read_at_or_after_ok [OF Suc.prems(2), of "from"] ce ov next_exists [of to' "r_to old"]
    by (subst trim_following.simps) (auto simp: right_def leD split: sum.splits)
  show ?case unfolding e
  proof (rule runs_step_result [OF range_remove_ok [OF pk q(1)]])
    fix t'
    assume t': "reached K enc V cost E h0 P0 i (n + k) t' (put_range (r_from old) [] rs)"
    show "runs (if to' < r_to old then Some (Inr (t', ?w)) else trim_following K S t' from to' ?w) (\<lambda>(t', w'). \<exists>rs'.
        reached K enc V cost E h0 P0 i n t' rs' \<and> trimmed K from to' f rs' w' \<and> (\<forall>a. between from to' a \<longrightarrow> value_at rs' a = None)) E"
    proof (cases "to' < r_to old")
      case True
      have "to' < r_from y" if "ceil_range from (put_range (r_from old) [] rs) = Some y" for y
      proof -
        have "y \<in> set rs" "y \<noteq> old" "from \<le> r_from y"
          using ceil_Some(1,2) [OF reached_canonical [OF t'] that] put_removes(2) [OF c q(1)] by auto
        thus ?thesis using q(3) True by fastforce
      qed
      hence "\<forall>a. between from to' a \<longrightarrow> value_at (put_range (r_from old) [] rs) a = None" using trimmed_end [OF tn(1)] by blast
      moreover have "reached K enc V cost E h0 P0 i n t' (put_range (r_from old) [] rs)" by (rule reached_mono [OF t']) simp_all
      ultimately show ?thesis using True tn(1) by auto
    next
      case False
      thus ?thesis using Suc.IH [OF _ t' tn(1)] tn(2) Suc.prems(1) by simp
    qed
  qed
qed

section \<open>Writing the replacement\<close>

lemma insert_optional_ok:
  assumes t: "reached K enc V cost E h0 P0 (Suc i) (n + 3) t rs" and a: "\<And>x. r = Some x \<Longrightarrow> addable K rs x"
    and k: "\<And>t' rs'. reached K enc V cost E h0 P0 i n t' rs' \<Longrightarrow> value_at rs' = patch r (value_at rs) \<Longrightarrow> rwp (k t') Q E"
  shows "rwp (rbind (case r of None \<Rightarrow> Inr t | Some x \<Rightarrow> insert_coalesced K S t x) k) Q E"
proof (cases r)
  case None
  have "reached K enc V cost E h0 P0 i n t rs" by (rule reached_mono [OF t]) simp_all
  thus ?thesis using None k by (simp add: patch_def)
next
  case (Some x)
  show ?thesis unfolding Some option.case
    by (rule rwp_rbindI [OF insert_coalesced_ok [OF t a [OF Some]]]) (use Some k in \<open>auto simp: patch_def\<close>)
qed

text \<open>What the three insertions add up to.\<close>

lemma rewritten:
  assumes w: "trimmed K from to' f rs w" and ft: "from \<le> to'" and e: "\<forall>a. between from to' a \<longrightarrow> value_at rs a = None"
    and mid: "mid = map_option (\<lambda>v. \<lparr> r_from = from, r_to = to', r_value = v \<rparr>) value"
  shows "mid = Some m \<Longrightarrow> vacant m (patch (rw_left w) (value_at rs))"
    "rw_right w = Some r \<Longrightarrow> vacant r (patch mid (patch (rw_left w) (value_at rs)))"
    "patch (rw_right w) (patch mid (patch (rw_left w) (value_at rs))) = assigned from to' value f"
proof -
  have left: "\<not> in_range l a" if "rw_left w = Some l" "from \<le> a" for l a
    using w that by (auto simp: trimmed_def in_range_def)
  have right: "\<not> in_range r a" if "rw_right w = Some r" "a \<le> to'" for r a
    using w that by (auto simp: trimmed_def in_range_def)
  have L: "patch (rw_left w) g a = g a" if "from \<le> a" for g a
    using left [OF _ that] by (cases "rw_left w") (auto simp: patch_def overlay_def)
  have R: "patch (rw_right w) g a = g a" if "a \<le> to'" for g a
    using right [OF _ that] by (cases "rw_right w") (auto simp: patch_def overlay_def)
  have M: "patch mid g a = (if between from to' a \<and> value \<noteq> None then value else g a)" for g a
    using mid by (cases "value") (auto simp: patch_def overlay_def in_range_def between_def)
  show "vacant m (patch (rw_left w) (value_at rs))" if "mid = Some m"
    using that mid L e by (auto simp: vacant_def in_range_def between_def)
  show "vacant r (patch mid (patch (rw_left w) (value_at rs)))" if r: "rw_right w = Some r"
    unfolding vacant_def
  proof (intro allI impI)
    fix a assume i: "in_range r a"
    have "to' < r_from r" "vacant r (value_at rs)" using w r by (auto simp: trimmed_def)
    moreover from this(1) have "to' < a" using i unfolding in_range_def by (elim conjE) order
    moreover from this have "from \<le> a" "\<not> between from to' a" using ft by (auto simp: between_def)
    ultimately show "patch mid (patch (rw_left w) (value_at rs)) a = None" using M L i by (simp add: vacant_def)
  qed
  show "patch (rw_right w) (patch mid (patch (rw_left w) (value_at rs))) = assigned from to' value f"
  proof
    fix a
    show "patch (rw_right w) (patch mid (patch (rw_left w) (value_at rs))) a = assigned from to' value f a"
    proof (cases "between from to' a")
      case True
      hence "from \<le> a" "a \<le> to'" by (simp_all add: between_def)
      thus ?thesis using R M L e True by (auto simp: assigned_def)
    next
      case False
      hence "patch (rw_right w) (patch mid (patch (rw_left w) (value_at rs))) a = patch (rw_right w) (patch (rw_left w) (value_at rs)) a"
        using M by (cases "rw_right w") (auto simp: patch_def overlay_def)
      thus ?thesis using w False by (simp add: trimmed_def assigned_def)
    qed
  qed
qed

lemma write_replacement_ok:
  assumes t: "reached K enc V cost E h0 P0 (i + 3) (n + 9) t rs" and w: "trimmed K from to' f rs w" and ft: "from \<le> to'"
    and e: "\<forall>a. between from to' a \<longrightarrow> value_at rs a = None"
  shows "rwp (write_replacement K S t from to' value w) (\<lambda>(t', ch). (ch \<longleftrightarrow> rw_changed w \<or> value \<noteq> None)
    \<and> (\<exists>rs'. reached K enc V cost E h0 P0 i n t' rs' \<and> value_at rs' = assigned from to' value f)) E"
proof -
  define mid where "mid = map_option (\<lambda>v. \<lparr> r_from = from, r_to = to', r_value = v \<rparr>) value"
  note rw = rewritten [OF w ft e mid_def]
  have m: "(case value of None \<Rightarrow> Inr u | Some v \<Rightarrow> insert_coalesced K S u \<lparr> r_from = from, r_to = to', r_value = v \<rparr>)
      = (case mid of None \<Rightarrow> Inr u | Some x \<Rightarrow> insert_coalesced K S u x)" for u
    by (cases "value") (simp_all add: mid_def)
  have mo: "r_from x \<le> r_to x" if "mid = Some x" for x using that ft by (auto simp: mid_def)
  have wo: "r_from x \<le> r_to x" if "rw_left w = Some x \<or> rw_right w = Some x" for x using that w by (auto simp: trimmed_def)
  show ?thesis unfolding write_replacement_def m
  proof (rule insert_optional_ok)
    show "reached K enc V cost E h0 P0 (Suc (i + 2)) ((n + 6) + 3) t rs" using t by (simp add: numeral_eq_Suc)
    show "addable K rs x" if "rw_left w = Some x" for x using that w by (auto simp: trimmed_def addable_def)
    fix t1 rs1
    assume s1: "reached K enc V cost E h0 P0 (i + 2) (n + 6) t1 rs1" "value_at rs1 = patch (rw_left w) (value_at rs)"
    show "rwp (rbind (case mid of None \<Rightarrow> Inr t1 | Some x \<Rightarrow> insert_coalesced K S t1 x) (\<lambda>t.
        rbind (case rw_right w of None \<Rightarrow> Inr t | Some x \<Rightarrow> insert_coalesced K S t x) (\<lambda>t.
        Inr (t, rw_changed w \<or> value \<noteq> None)))) (\<lambda>(t', ch). (ch \<longleftrightarrow> rw_changed w \<or> value \<noteq> None)
      \<and> (\<exists>rs'. reached K enc V cost E h0 P0 i n t' rs' \<and> value_at rs' = assigned from to' value f)) E"
    proof (rule insert_optional_ok)
      show "reached K enc V cost E h0 P0 (Suc (i + 1)) ((n + 3) + 3) t1 rs1" using s1(1) by (simp add: numeral_eq_Suc)
      show "addable K rs1 x" if "mid = Some x" for x
        using rw(1) [OF that] mo [OF that] s1(2) reached_canonical [OF s1(1)] by (simp add: addable_def)
      fix t2 rs2
      assume s2: "reached K enc V cost E h0 P0 (i + 1) (n + 3) t2 rs2" "value_at rs2 = patch mid (value_at rs1)"
      show "rwp (rbind (case rw_right w of None \<Rightarrow> Inr t2 | Some x \<Rightarrow> insert_coalesced K S t2 x) (\<lambda>t.
          Inr (t, rw_changed w \<or> value \<noteq> None))) (\<lambda>(t', ch). (ch \<longleftrightarrow> rw_changed w \<or> value \<noteq> None)
        \<and> (\<exists>rs'. reached K enc V cost E h0 P0 i n t' rs' \<and> value_at rs' = assigned from to' value f)) E"
      proof (rule insert_optional_ok)
        show "reached K enc V cost E h0 P0 (Suc i) (n + 3) t2 rs2" using s2(1) by simp
        show "addable K rs2 x" if "rw_right w = Some x" for x
          using rw(2) [OF that] wo that s1(2) s2(2) reached_canonical [OF s2(1)] by (simp add: addable_def)
        fix t3 rs3
        assume "reached K enc V cost E h0 P0 i n t3 rs3" "value_at rs3 = patch (rw_right w) (value_at rs2)"
        thus "rwp (Inr (t3, rw_changed w \<or> value \<noteq> None)) (\<lambda>(t', ch). (ch \<longleftrightarrow> rw_changed w \<or> value \<noteq> None)
          \<and> (\<exists>rs'. reached K enc V cost E h0 P0 i n t' rs' \<and> value_at rs' = assigned from to' value f)) E"
          using s1(2) s2(2) rw(3) by auto
      qed
    qed
  qed
qed

section \<open>Replacing the inside of a range\<close>

lemma replace_strictly_inside_ok:
  assumes t: "reached K enc V cost E h0 P0 (Suc i) (Suc n) t rs" and old: "old \<in> set rs"
    and ins: "r_from old < from" "from \<le> to'" "to' < r_to old" and ne: "value \<noteq> Some (r_value old)"
  shows "rwp (replace_strictly_inside K S t old \<lparr> ch_from = from, ch_to = to', ch_value = value \<rparr>)
    (\<lambda>(t', ch). ch \<and> (\<exists>rs'. reached K enc V cost E h0 P0 i n t' rs' \<and> value_at rs' = assigned from to' value (value_at rs))) E"
proof -
  obtain st root count where te: "t = (st, root, count)" by (cases t)
  obtain P l where tr: "tree_in (range_codec K) (range_cells K enc) V st root P l (map (range_cell enc) rs)"
    and c: "canonical K rs" "unat count = length rs" and m: "moved h0 (heap_of V st) P0 P" and a: "affords V cost E (Suc i) (Suc n) l st"
    using t te by (auto simp: reached_def range_tree_def)
  have l: "l \<le> 31" using tree_in_level [OF tr] by (simp add: MAX_PATH_31)
  obtain before after where bf: "checked_previous K from = Some before" and af: "checked_next K to' = Some after"
    using previous_exists [OF ins(1)] next_exists [OF ins(3)] by blast
  let ?left = "\<lparr> r_from = r_from old, r_to = before, r_value = r_value old \<rparr>"
  let ?right = "\<lparr> r_from = after, r_to = r_to old, r_value = r_value old \<rparr>"
  let ?mid = "\<lambda>v. \<lparr> r_from = from, r_to = to', r_value = v \<rparr>"
  define new where "new = ?left # (case value of None \<Rightarrow> [] | Some v \<Rightarrow> [?mid v]) @ [?right]"
  note sp = split_inside [OF c(1) old ins bf af ne new_def]
  have ord: "r_from ?left \<le> r_to ?left" "r_from ?right \<le> r_to ?right"
    using part_before(1) [OF bf ins(1)] part_after(1) [OF af ins(3)] ins by simp_all
  let ?cells = "map (range_cell enc) new"
  have mids: "(case value of None \<Rightarrow> Inr None | Some v \<Rightarrow> rmap Some (encoded_range K (?mid v))) = Inr (map_option (\<lambda>v. range_cell enc (?mid v)) value)"
    using ins(2) by (cases "value") (simp_all add: encoded_range_ok)
  have cells: "(case map_option (\<lambda>v. range_cell enc (?mid v)) value of Some m \<Rightarrow> [range_cell enc ?left, m, range_cell enc ?right]
      | None \<Rightarrow> [range_cell enc ?left, range_cell enc ?right]) = ?cells"
    by (cases "value") (simp_all add: new_def)
  define k :: "64 word" where "k = (if map_option (\<lambda>v. range_cell enc (?mid v)) value \<noteq> None then 2 else 1)"
  have k: "unat k = length new - 1" by (cases "value") (simp_all add: k_def new_def)
  have ln: "2 \<le> length new" "length new \<le> 3" by (cases "value"; simp add: new_def)+
  have cnt: "Prelude.checked_add count k = Some (count + k)" "unat (count + k) = length (put_range (r_from old) new rs)"
    using c(2) rc.tree_cell_count [OF tr] k ln sp(3) by (simp_all add: unat_word_ariths checked_add_def)
  let ?Q = "\<lambda>(t', ch). ch \<and> (\<exists>rs'. reached K enc V cost E h0 P0 i n t' rs' \<and> value_at rs' = assigned from to' value (value_at rs))"
  let ?count = "\<lambda>st2 root2. rbind (range_record_added S st2 (case value of Some v \<Rightarrow> v | None \<Rightarrow> r_value old)) (\<lambda>st.
    rbind (if map_option (\<lambda>v. range_cell enc (?mid v)) value \<noteq> None then range_record_added S st (r_value old) else Inr st) (\<lambda>st.
    Inr ((st, root2, count + k), True)))"
  have e: "replace_strictly_inside K S t old \<lparr> ch_from = from, ch_to = to', ch_value = value \<rparr> =
    rbind (rbind (replace_leaf_with (range_codec K) S st root (r_from old) ?cells []) (\<lambda>(st, root, retired).
      rbind (retire_pages S st retired) (\<lambda>st. Inr (st, root)))) (\<lambda>(st, root). ?count st root)"
    unfolding replace_strictly_inside_def te prod.case change.simps bf af ok_or.simps rbind.simps encoded_range_ok [OF ord(1)]
      encoded_range_ok [OF ord(2)] mids cells Let_def k_def [symmetric] cnt(1)
    by (simp add: rbind_assoc split_def)
  show ?thesis unfolding e rwp_rbind [of "rbind _ _"]
  proof (rule replace_retiring_ok [OF tr ordered_ranges [OF c(1)]], unfold prod.case)
    show "has_key (range_cells K enc) (r_from old) (map (range_cell enc) rs)" using has_key_ranges [OF c(1)] old by blast
    show "list_all (leaf_ok (range_cells K enc)) ?cells" using sp(1) by (auto simp: list_all_iff canonical_def ok_range_cell)
    show "ordered (range_cells K enc) ?cells" by (rule ordered_ranges [OF sp(1)])
    show "2 \<le> length ?cells" "length ?cells \<le> 3" using ln by simp_all
    show "key_of (range_cells K enc) (hd ?cells) = r_from old" using ord(1) by (simp add: new_def decode_range_cell)
    show "E" if "room V st < 2 * l + 3 + cost \<or> l = MAX_PATH" using that a l by (auto simp: affords_def)
    fix st2 root2 L P'
    assume d: "tree_in (range_codec K) (range_cells K enc) V st2 root2 P' L (put_cells (range_cells K enc) (r_from old) ?cells (map (range_cell enc) rs))"
      "L \<le> Suc l" "moved (heap_of V st) (heap_of V st2) P P'" "room V st \<le> room V st2 + (2 * l + 3 + cost)"
    have tr2: "tree_in (range_codec K) (range_cells K enc) V st2 root2 P' L (map (range_cell enc) (put_range (r_from old) new rs))"
      using d(1) put_ranges [OF c(1), of "r_from old" new] by simp
    have fin: "rwp (Inr ((st4, root2, count + k), True)) ?Q E"
      if g: "valid V st4" "grows (heap_of V st2) (heap_of V st4) {} {}" "room V st2 \<le> room V st4 + 2 * cost" for st4
    proof -
      have "tree_in (range_codec K) (range_cells K enc) V st4 root2 P' L (map (range_cell enc) (put_range (r_from old) new rs))"
        by (rule tree_in_grows [OF tr2 g(1,2)])
      moreover have "moved h0 (heap_of V st4) P0 P'" by (rule moved_grows [OF moved_trans [OF m d(3)] g(2)])
      moreover have "affords V cost E i n L st4" using a l d(2,4) g(3) by (auto simp: affords_def)
      ultimately have "reached K enc V cost E h0 P0 i n (st4, root2, count + k) (put_range (r_from old) new rs)"
        unfolding reached_def range_tree_def using sp(2) cnt(2) by auto
      moreover have "value_at (put_range (r_from old) new rs) = assigned from to' value (value_at rs)" using sp(4) by (simp add: assigned_def)
      ultimately show ?thesis by auto
    qed
    show "rwp (?count st2 root2) ?Q E"
    proof (rule rwp_rbindI [OF rwp_mono [OF added [OF tree_in_valid [OF tr2]]]])
      show "E" if "room V st2 < cost" using that a l d(4) by (auto simp: affords_def)
      fix st3
      assume g: "valid V st3 \<and> grows (heap_of V st2) (heap_of V st3) {} {} \<and> room V st2 \<le> room V st3 + cost"
      thus "valid V st3 \<and> grows (heap_of V st2) (heap_of V st3) {} {} \<and> room V st2 \<le> room V st3 + cost" .
    next
      fix st3
      assume g: "valid V st3 \<and> grows (heap_of V st2) (heap_of V st3) {} {} \<and> room V st2 \<le> room V st3 + cost"
      show "rwp (rbind (if map_option (\<lambda>v. range_cell enc (?mid v)) value \<noteq> None then range_record_added S st3 (r_value old) else Inr st3) (\<lambda>st.
        Inr ((st, root2, count + k), True))) ?Q E"
      proof (cases "value")
        case None
        thus ?thesis using fin [of st3] g by simp
      next
        case (Some v)
        have "rwp (rbind (range_record_added S st3 (r_value old)) (\<lambda>st. Inr ((st, root2, count + k), True))) ?Q E"
        proof (rule rwp_rbindI [OF rwp_mono [OF added]])
          show "valid V st3" using g by simp
          show "E" if "room V st3 < cost" using that a l d(4) g by (auto simp: affords_def)
          fix st4
          assume "valid V st4 \<and> grows (heap_of V st3) (heap_of V st4) {} {} \<and> room V st3 \<le> room V st4 + cost"
          thus "valid V st4 \<and> grows (heap_of V st3) (heap_of V st4) {} {} \<and> room V st3 \<le> room V st4 + cost" .
        next
          fix st4
          assume h: "valid V st4 \<and> grows (heap_of V st3) (heap_of V st4) {} {} \<and> room V st3 \<le> room V st4 + cost"
          have "grows (heap_of V st2) (heap_of V st4) {} {}" using g h by (auto intro: grows_trans)
          thus "rwp (Inr ((st4, root2, count + k), True)) ?Q E" using fin [of st4] g h by simp
        qed
        thus ?thesis using Some by simp
      qed
    qed
  qed
qed

section \<open>Replacement\<close>

lemma replace_range_ok:
  assumes t: "reached K enc V cost E h0 P0 (i + 3) (n + pending from to' rs + 10) t rs" and ft: "from \<le> to'"
  shows "runs (replace_range K S t \<lparr> ch_from = from, ch_to = to', ch_value = value \<rparr>) (\<lambda>(t', ch). \<exists>rs'.
    reached K enc V cost E h0 P0 i n t' rs' \<and> value_at rs' = assigned from to' value (value_at rs)
    \<and> (ch \<longleftrightarrow> value_at rs' \<noteq> value_at rs)) E"
    (is "runs _ ?Q E")
proof -
  have c: "canonical K rs" by (rule reached_canonical [OF t])
  let ?ch = "\<lparr> ch_from = from, ch_to = to', ch_value = value \<rparr>"
  let ?early = "case (value, floor_range from rs) of (Some new_value, Some old) \<Rightarrow> r_to old \<ge> to' \<and> r_value old = new_value | _ \<Rightarrow> False"
  let ?rest = "step_result (trim_predecessor K S t (floor_range from rs) from to') (\<lambda>(t, rewrite).
      step_run (trim_following K S t from to' rewrite) (\<lambda>(t, rewrite).
      Some (write_replacement K S t from to' value rewrite)))"
  have cover: "value_at rs a = Some (r_value old)" if "floor_range from rs = Some old" "to' \<le> r_to old" "between from to' a" for old a
  proof -
    have "in_range old a" using floor_Some(2) [OF c that(1)] that(2,3) by (auto simp: in_range_def between_def)
    thus ?thesis using value_at_iff [OF c] floor_Some(1) [OF c that(1)] by blast
  qed
  have e: "replace_range K S t ?ch = (if ?early then Some (Inr (t, False))
      else if (\<exists>old. floor_range from rs = Some old \<and> r_from old < from \<and> to' < r_to old)
      then Some (replace_strictly_inside K S t (the (floor_range from rs)) ?ch) else ?rest)"
    using read_predecessor_ok [OF t, of "from"] leD [OF ft]
    by (cases "floor_range from rs") (simp_all add: replace_range_def Let_def)
  show ?thesis
  proof (cases ?early)
    case True
    then obtain old v where o: "floor_range from rs = Some old" "to' \<le> r_to old" "value = Some v" "r_value old = v"
      by (auto split: option.splits prod.splits)
    have "assigned from to' value (value_at rs) = value_at rs" using cover [OF o(1,2)] o(3,4) by (auto simp: assigned_def)
    moreover have "reached K enc V cost E h0 P0 i n t rs" by (rule reached_mono [OF t]) simp_all
    ultimately show ?thesis unfolding e using True by auto
  next
    case ne: False
    show ?thesis
    proof (cases "\<exists>old. floor_range from rs = Some old \<and> r_from old < from \<and> to' < r_to old")
      case True
      then obtain old where o: "floor_range from rs = Some old" "r_from old < from" "to' < r_to old" by blast
      have nv: "value \<noteq> Some (r_value old)" using ne o by auto
      have t': "reached K enc V cost E h0 P0 (Suc i) (Suc n) t rs" by (rule reached_mono [OF t]) simp_all
      have "value_at rs from = Some (r_value old)" using cover [OF o(1), of "from"] o(3) ft by (simp add: between_def)
      hence df: "assigned from to' value (value_at rs) \<noteq> value_at rs"
        using nv ft by (auto simp: assigned_def between_def fun_eq_iff)
      show ?thesis unfolding e using ne True o(1)
        by (simp, intro rwp_mono [OF replace_strictly_inside_ok [OF t' floor_Some(1) [OF c o(1)] o(2) ft o(3) nv]]) (use df in auto)
    next
      case False
      have diff: "rw_changed w \<or> value \<noteq> None \<longleftrightarrow> assigned from to' value (value_at rs) \<noteq> value_at rs"
        if w: "trimmed K from to' (value_at rs) rs' w" "\<forall>a. between from to' a \<longrightarrow> value_at rs' a = None" for rs' w
      proof (cases "value")
        case None
        have "rw_changed w \<longleftrightarrow> (\<exists>a. between from to' a \<and> value_at rs a \<noteq> None)" using w by (auto simp: trimmed_def)
        thus ?thesis using None by (simp add: assigned_none_differs)
      next
        case (Some v)
        have "assigned from to' value (value_at rs) \<noteq> value_at rs"
        proof
          assume eq: "assigned from to' value (value_at rs) = value_at rs"
          have "value_at rs a = Some v" if "between from to' a" for a
            using fun_cong [OF eq, of a] that Some by (simp add: assigned_def)
          then obtain p where "floor_range from rs = Some p" "to' \<le> r_to p" "r_value p = v" using constant_interval [OF c ft, of v] by blast
          thus False using ne Some by simp
        qed
        thus ?thesis using Some by simp
      qed
      have tp: "reached K enc V cost E h0 P0 (i + 3) (Suc (n + pending from to' rs + 9)) t rs" using t by (simp add: numeral_eq_Suc)
      have "runs ?rest ?Q E"
      proof (rule runs_step_result [OF trim_predecessor_ok [OF tp ft]], clarify)
        fix st1 root1 count1 w rs1
        assume s1: "reached K enc V cost E h0 P0 (i + 3) (n + pending from to' rs + 9) (st1, root1, count1) rs1"
          "trimmed K from to' (value_at rs) rs1 w" "pending from to' rs1 \<le> pending from to' rs"
        have s1': "reached K enc V cost E h0 P0 (i + 3) ((n + 9) + pending from to' rs1) (st1, root1, count1) rs1"
          by (rule reached_mono [OF s1(1)]) (use s1(3) in simp_all)
        show "runs (step_run (trim_following K S (st1, root1, count1) from to' w) (\<lambda>(t, rewrite).
            Some (write_replacement K S t from to' value rewrite))) ?Q E"
        proof (rule runs_step_run [OF trim_following_ok [OF refl s1' s1(2)]], clarify)
          fix st2 root2 count2 w2 rs2
            assume s2: "reached K enc V cost E h0 P0 (i + 3) (n + 9) (st2, root2, count2) rs2" "trimmed K from to' (value_at rs) rs2 w2"
            "\<forall>a. between from to' a \<longrightarrow> value_at rs2 a = None"
          show "runs (Some (write_replacement K S (st2, root2, count2) from to' value w2)) ?Q E"
            unfolding runs_Some
            by (rule rwp_mono [OF write_replacement_ok [OF s2(1,2) ft s2(3)]]) (use diff [OF s2(2,3)] in auto)
        qed
      qed
      thus ?thesis unfolding e if_not_P [OF ne] if_not_P [OF False] .
    qed
  qed
qed

end

end
