(* ===== verification/RangeTransform.thy ===== *)
theory RangeTransform
  imports RangeAssign
begin

text \<open>
  Transforming an interval of a range tree: \<open>segment_at\<close> reads the longest interval from the cursor
  on which the map is constant, and the loop of \<open>transform\<close> visits one such interval after
  another, applies the operation to its value and replaces the interval when the value changes.
\<close>

text \<open>A map \<open>f'\<close> that has at every address of the interval a value that the operation may return there, and is unchanged elsewhere.\<close>

definition transforms :: "'k :: linorder \<Rightarrow> 'k \<Rightarrow> (32 word option \<Rightarrow> 32 word option \<Rightarrow> bool) \<Rightarrow>
    ('k \<Rightarrow> 32 word option) \<Rightarrow> ('k \<Rightarrow> 32 word option) \<Rightarrow> bool" where
  "transforms from to' R f f' \<longleftrightarrow> (\<forall>a. if between from to' a then R (f a) (f' a) else f' a = f a)"

text \<open>The addresses of an interval, its first apart, at which the map takes a new value.\<close>

definition breaks :: "'k :: linorder ip_key \<Rightarrow> ('k \<Rightarrow> 32 word option) \<Rightarrow> 'k \<Rightarrow> 'k \<Rightarrow> 'k set" where
  "breaks K f from to' = {a. from < a \<and> a \<le> to' \<and> (\<exists>b. checked_previous K a = Some b \<and> f b \<noteq> f a)}"

definition constant_until :: "'k :: linorder ip_key \<Rightarrow> ('k \<Rightarrow> 32 word option) \<Rightarrow> 'k \<Rightarrow> 'k \<Rightarrow> 'k segment \<Rightarrow> bool" where
  "constant_until K f from to' sg \<longleftrightarrow> from \<le> sg_to sg \<and> sg_to sg \<le> to' \<and> (\<forall>a. between from (sg_to sg) a \<longrightarrow> f a = sg_value sg)
    \<and> (\<forall>a. sg_to sg < to' \<longrightarrow> checked_next K (sg_to sg) = Some a \<longrightarrow> f a \<noteq> sg_value sg)"

text \<open>
  What \<open>transform\<close> relies on of its operation, which may change the store and may fail. The operation has pages of its own, of which \<open>I\<close> says
  what they hold; it touches no other page, uses the room of at most \<open>u\<close> tree operations, and the value it returns is
  related by \<open>R\<close> to the one it is given. \<open>I\<close> depends on these pages only. With \<open>E\<close> true it may fail in a store with room.
\<close>

definition operates :: "('s, 'x) store_view_scheme \<Rightarrow> nat \<Rightarrow> bool \<Rightarrow> ('s \<Rightarrow> 32 word set \<Rightarrow> bool) \<Rightarrow>
    ('s \<Rightarrow> 32 word option \<Rightarrow> ('s \<times> 32 word option) result) \<Rightarrow> (32 word option \<Rightarrow> 32 word option \<Rightarrow> bool) \<Rightarrow> bool" where
  "operates V u E I operation R \<longleftrightarrow>
    (\<forall>st F v. valid V st \<longrightarrow> I st F \<longrightarrow> rwp (operation st v) (\<lambda>(st', v'). R v v' \<and> valid V st'
      \<and> (\<exists>F'. I st' F' \<and> moved (heap_of V st) (heap_of V st') F F') \<and> room V st \<le> room V st' + u * 65) (E \<or> room V st < u * 65))
    \<and> (\<forall>st F. I st F \<longrightarrow> F \<subseteq> hp_own (heap_of V st))
    \<and> (\<forall>st st' F. I st F \<longrightarrow> valid V st' \<longrightarrow> keeps (heap_of V st) (heap_of V st') F \<longrightarrow> I st' F)"

text \<open>A tree with pages \<open>P\<close> beside the pages \<open>F\<close> of the operation, reached from the pages \<open>Q0\<close> of the heap \<open>h0\<close>.\<close>

definition tree_beside ::
  "'k :: linorder ip_key \<Rightarrow> ('k \<Rightarrow> bytes) \<Rightarrow> 's store_view \<Rightarrow> nat \<Rightarrow> ('s \<Rightarrow> 32 word set \<Rightarrow> bool) \<Rightarrow> bool \<Rightarrow> heap \<Rightarrow> 32 word set \<Rightarrow>
    nat \<Rightarrow> nat \<Rightarrow> 's rtree \<Rightarrow> 'k range list \<Rightarrow> bool" where
  "tree_beside K enc V cost I E h0 Q0 i n t rs \<longleftrightarrow> (\<exists>P l F. range_tree K enc V t P l rs \<and> I (fst t) F \<and> F \<inter> P = {}
    \<and> moved h0 (heap_of V (fst t)) Q0 (P \<union> F) \<and> affords V cost E i n l (fst t))"

lemma step_cases:
  "(case r of Inl e \<Rightarrow> Some (Inl e) | Inr x \<Rightarrow> k x) = step_result r k"
  "(case q of None \<Rightarrow> None | Some x \<Rightarrow> step_result x k) = step_run q k"
  "(case n of None \<Rightarrow> Some (Inl e) | Some x \<Rightarrow> k x) = step_result (ok_or e n) k"
  by ((cases r; simp), (cases q; simp), (cases n; simp))

text \<open>An error that the operation does not raise is raised as well when the failing calls of the operation are replaced.\<close>

lemma transform_loop_error:
  fixes K :: "'k :: linorder ip_key" and S :: "('s, 'x) range_ops_scheme"
  assumes o: "\<And>st v. operation st v \<noteq> Inl e" "\<And>st v x. operation st v = Inr x \<Longrightarrow> operation' st v = Inr x"
    and l: "transform_loop K S operation to' t cursor changed = Some (Inl e)"
  shows "transform_loop K S operation' to' t cursor changed = Some (Inl e)"
proof -
  define P where "P = (\<lambda>(K :: 'k ip_key) (S :: ('s, 'x) range_ops_scheme) op to' t cursor changed (r :: error + 's rtree \<times> bool). op = operation \<longrightarrow> r = Inl e \<longrightarrow>
    transform_loop K S operation' to' t cursor changed = Some (Inl e))"
  have "P K S operation to' t cursor changed (Inl e)"
  proof (rule transform_loop.raw_induct [of P, OF _ l])
    fix loop and K :: "'k ip_key" and S :: "('s, 'x) range_ops_scheme" and op to' t cursor changed r
    assume ih: "\<And>K S op to' t cursor changed r. loop K S op to' t cursor changed = Some r \<Longrightarrow> P K S op to' t cursor changed r"
      and b: "(case segment_at K S (fst t) (fst (snd t)) cursor to' of
       Inl e \<Rightarrow> Some (Inl e)
     | Inr segment \<Rightarrow>
         (case op (fst t) (sg_value segment) of
            Inl e \<Rightarrow> Some (Inl e)
          | Inr (st, value) \<Rightarrow>
              (case (if value \<noteq> sg_value segment
                     then step_run (replace_range K S (st, snd t) \<lparr> ch_from = cursor, ch_to = sg_to segment, ch_value = value \<rparr>)
                            (\<lambda>(t, _). Some (Inr (t, True)))
                     else Some (Inr ((st, snd t), changed))) of
                 None \<Rightarrow> None
               | Some (Inl e) \<Rightarrow> Some (Inl e)
               | Some (Inr (t, changed)) \<Rightarrow>
                   if sg_to segment = to' then Some (Inr (t, changed))
                   else
                     (case checked_next K (sg_to segment) of
                        None \<Rightarrow> Some (Inl (ArithmeticOverflow ''membership range cursor''))
                      | Some cursor \<Rightarrow> loop K S op to' t cursor changed)))) = Some r"
    show "P K S op to' t cursor changed r" unfolding P_def
    proof (intro impI)
      assume op: "op = operation" and r: "r = Inl e"
      note b' = b [unfolded op r]
      show "transform_loop K S operation' to' t cursor changed = Some (Inl e)"
      proof (cases "segment_at K S (fst t) (fst (snd t)) cursor to'")
        case (Inl e')
        thus ?thesis using b' by (subst transform_loop.simps) simp
      next
        case (Inr sg)
        note sg = Inr
        show ?thesis
        proof (cases "operation (fst t) (sg_value sg)")
          case (Inl e')
          thus ?thesis using b' sg o(1) by auto
        next
          case (Inr x)
          obtain st v where x: "x = (st, v)" by (cases x)
          define m where "m = (if v \<noteq> sg_value sg
            then step_run (replace_range K S (st, snd t) \<lparr> ch_from = cursor, ch_to = sg_to sg, ch_value = v \<rparr>) (\<lambda>(t, _). Some (Inr (t, True)))
            else Some (Inr ((st, snd t), changed)))"
          let ?next = "\<lambda>f. case m of None \<Rightarrow> None | Some (Inl e) \<Rightarrow> Some (Inl e)
            | Some (Inr (t, changed)) \<Rightarrow> if sg_to sg = to' then Some (Inr (t, changed))
                else (case checked_next K (sg_to sg) of None \<Rightarrow> Some (Inl (ArithmeticOverflow ''membership range cursor'')) | Some cursor \<Rightarrow> f t cursor changed)"
          have n: "?next (loop K S operation to') = Some (Inl e)" using b' unfolding sg Inr x sum.case prod.case m_def [symmetric] .
          have l: "loop K S operation to' t cursor changed = Some (Inl e) \<Longrightarrow> transform_loop K S operation' to' t cursor changed = Some (Inl e)"
            for t cursor changed using ih by (simp add: P_def)
          have "?next (transform_loop K S operation' to') = Some (Inl e)" using n l by (auto split: option.splits sum.splits if_splits)
          moreover have "transform_loop K S operation' to' t cursor changed = ?next (transform_loop K S operation' to')"
            by (subst transform_loop.simps) (unfold sg o(2) [OF Inr] x sum.case prod.case m_def [symmetric], rule refl)
          ultimately show ?thesis by simp
        qed
      qed
    qed
  qed
  thus ?thesis by (simp add: P_def)
qed

context key_laws
begin

lemma finite_breaks: "finite (breaks K f from to')"
proof (rule finite_imageD)
  show "inj_on num (breaks K f from to')" by (rule inj_onI) (simp add: num_eq_iff)
  have "num ` breaks K f from to' \<subseteq> {..num to'}" by (auto simp: breaks_def num_le_iff)
  thus "finite (num ` breaks K f from to')" by (rule finite_subset) simp
qed

lemma breaks_step:
  assumes c: "constant_until K f from to' sg" and n: "checked_next K (sg_to sg) = Some cursor" and l: "sg_to sg \<noteq> to'"
    and g: "\<And>a. between cursor to' a \<Longrightarrow> f' a = f a"
  shows "card (breaks K f' cursor to') < card (breaks K f from to')"
proof -
  have o: "from \<le> sg_to sg" "sg_to sg < to'" using c l by (auto simp: constant_until_def)
  have "f (sg_to sg) = sg_value sg" using c o by (simp add: constant_until_def between_def)
  moreover have "f cursor \<noteq> sg_value sg" using c o n by (simp add: constant_until_def)
  moreover have k: "from < cursor" "cursor \<le> to'" using o n by (auto simp: checked_next num_mono num_le_iff)
  ultimately have i: "cursor \<in> breaks K f from to'" using n by (auto simp: breaks_def next_previous)
  have "a \<in> breaks K f from to'" if a: "a \<in> breaks K f' cursor to'" for a
  proof -
    obtain b where b: "cursor < a" "a \<le> to'" "checked_previous K a = Some b" "f' b \<noteq> f' a" using a by (auto simp: breaks_def)
    have "cursor \<le> b" "b \<le> to'" using b by (auto simp: checked_previous num_mono num_le_iff)
    hence "f b \<noteq> f a" using g [of a] g [of b] b by (simp add: between_def)
    thus ?thesis using b k by (auto simp: breaks_def)
  qed
  moreover have "cursor \<notin> breaks K f' cursor to'" by (simp add: breaks_def)
  ultimately have "breaks K f' cursor to' \<subset> breaks K f from to'" using i by blast
  thus ?thesis by (rule psubset_card_mono [OF finite_breaks])
qed

text \<open>Transforming a first part and then the rest transforms the whole, and the parts do not undo each other.\<close>

lemma transforms_step:
  assumes n: "checked_next K s = Some cursor" and o: "from \<le> s" "s < to'"
    and f: "transforms from s R f f1" "transforms cursor to' R f1 f2"
  shows "transforms from to' R f f2" "f1 \<noteq> f \<or> f2 \<noteq> f1 \<longleftrightarrow> f2 \<noteq> f"
proof -
  have b: "between from to' a \<longleftrightarrow> between from s a \<or> between cursor to' a" "\<not> (between from s a \<and> between cursor to' a)" for a
    using n o by (auto simp: between_def checked_next num_mono num_le_iff)
  have c: "if between from s a then R (f a) (f1 a) else f1 a = f a" "if between cursor to' a then R (f1 a) (f2 a) else f2 a = f1 a" for a
    using f by (auto simp: transforms_def)
  show "transforms from to' R f f2" unfolding transforms_def
  proof
    fix a show "if between from to' a then R (f a) (f2 a) else f2 a = f a" using b [of a] c [of a] by (auto split: if_splits)
  qed
  have "f1 a = f a \<and> f2 a = f1 a \<longleftrightarrow> f2 a = f a" for a using b(2) [of a] c [of a] by (auto split: if_splits)
  thus "f1 \<noteq> f \<or> f2 \<noteq> f1 \<longleftrightarrow> f2 \<noteq> f" by (auto simp: fun_eq_iff)
qed

lemma transforms_constant:
  assumes "constant_until K f from to' sg" "R (sg_value sg) v"
  shows "transforms from (sg_to sg) R f (assigned from (sg_to sg) v f)"
    "v = sg_value sg \<Longrightarrow> transforms from (sg_to sg) R f f"
    "v \<noteq> sg_value sg \<Longrightarrow> assigned from (sg_to sg) v f \<noteq> f"
proof -
  have v: "f a = sg_value sg" if "between from (sg_to sg) a" for a using assms that by (simp add: constant_until_def)
  have b: "between from (sg_to sg) from" using assms by (simp add: constant_until_def between_def)
  show "transforms from (sg_to sg) R f (assigned from (sg_to sg) v f)"
    using v assms(2) by (auto simp: transforms_def assigned_def)
  show "transforms from (sg_to sg) R f f" if "v = sg_value sg" using v that assms(2) by (auto simp: transforms_def)
  show "assigned from (sg_to sg) v f \<noteq> f" if "v \<noteq> sg_value sg"
    using v [OF b] b that by (auto simp: assigned_def dest!: fun_cong [of _ _ "from"])
qed

text \<open>An interval without a break meets at most one range.\<close>

lemma pending_constant:
  assumes c: "canonical K rs" and k: "constant_until K (value_at rs) from to' sg"
  shows "pending from (sg_to sg) rs \<le> 1"
proof -
  let ?m = "filter (\<lambda>x. between from (sg_to sg) (r_from x)) rs"
  have ft: "from \<le> sg_to sg" using k by (simp add: constant_until_def)
  have "\<exists>p. set ?m \<subseteq> {p}"
  proof (cases "sg_value sg")
    case None
    have "\<not> between from (sg_to sg) (r_from x)" if x: "x \<in> set rs" for x
    proof
      assume b: "between from (sg_to sg) (r_from x)"
      hence "value_at rs (r_from x) = None" using k None by (simp add: constant_until_def)
      moreover have "in_range x (r_from x)" using c x by (auto simp: canonical_def in_range_def)
      ultimately show False using x by (auto simp: value_at_None)
    qed
    thus ?thesis by auto
  next
    case (Some v)
    obtain p where p: "floor_range from rs = Some p" "sg_to sg \<le> r_to p"
      using constant_interval [OF c ft, of v] k Some by (auto simp: constant_until_def)
    have "x = p" if x: "x \<in> set rs" "between from (sg_to sg) (r_from x)" for x
    proof (rule canonical_disjoint [OF c x(1) floor_Some(1) [OF c p(1)]])
      show "in_range x (r_from x)" using c x(1) by (auto simp: canonical_def in_range_def)
      show "in_range p (r_from x)" using floor_Some(2) [OF c p(1)] p(2) x(2) by (auto simp: in_range_def between_def)
    qed
    thus ?thesis by auto
  qed
  then obtain p where "set ?m \<subseteq> {p}" by blast
  hence "card (set ?m) \<le> card {p}" by (intro card_mono) simp_all
  moreover have "card (set ?m) = length ?m" by (intro distinct_card distinct_filter canonical_distinct [OF c])
  ultimately show ?thesis by (simp add: pending_def)
qed

lemma segment_covered:
  assumes c: "canonical K rs" and f: "floor_range from rs = Some r" and o: "from \<le> r_to r" "from \<le> to'"
  shows "constant_until K (value_at rs) from to' \<lparr> sg_to = min (r_to r) to', sg_value = Some (r_value r) \<rparr>"
proof -
  note q = floor_Some [OF c f]
  have "value_at rs a = Some (r_value r)" if a: "between from (r_to r) a" for a
  proof -
    have "in_range r a" using q(2) a by (auto simp: in_range_def between_def)
    thus ?thesis using value_at_iff [OF c] q(1) by blast
  qed
  moreover have "value_at rs a \<noteq> Some (r_value r)" if a: "checked_next K (r_to r) = Some a" for a
  proof
    assume "value_at rs a = Some (r_value r)"
    then obtain x where x: "x \<in> set rs" "in_range x a" "r_value x = r_value r" using value_at_iff [OF c] by blast
    have "x \<noteq> r" using x(2) a by (auto simp: in_range_num checked_next)
    hence "apart_from K x r \<or> apart_from K r x" using canonical_order [OF c x(1) q(1)] by blast
    moreover have "\<not> apart_from K x r" using x(2) a c q(1)
      by (auto simp: apart_from_def in_range_num checked_next num_mono canonical_def num_le_iff)
    moreover have "\<not> apart_from K r x"
    proof
      assume ap: "apart_from K r x"
      hence "num (r_from x) = num (r_to r) + 1" using x(2) a by (auto simp: apart_from_def in_range_num checked_next num_mono)
      hence "touching K r x" using x(3) by (simp add: touching_num)
      thus False using ap by (simp add: apart_from_def)
    qed
    ultimately show False by blast
  qed
  ultimately show ?thesis using o by (auto simp: constant_until_def between_def min_def)
qed

lemma segment_gap:
  assumes c: "canonical K rs" and f: "\<And>r. floor_range from rs = Some r \<Longrightarrow> r_to r < from" and ft: "from \<le> to'"
    and e: "\<And>x. ceil_range from rs = Some x \<Longrightarrow> r_from x \<le> to' \<Longrightarrow> checked_previous K (r_from x) = Some e"
    and d: "(\<forall>x. ceil_range from rs = Some x \<longrightarrow> to' < r_from x) \<Longrightarrow> e = to'"
  shows "constant_until K (value_at rs) from to' \<lparr> sg_to = e, sg_value = None \<rparr>"
proof -
  have left: "r_to x < from" if x: "x \<in> set rs" "r_from x \<le> from" for x
  proof (cases "floor_range from rs")
    case None
    thus ?thesis using x by (auto simp: floor_None)
  next
    case (Some r)
    have "r_from r \<le> r_to r" using c floor_Some(1) [OF c Some] by (simp add: canonical_def)
    thus ?thesis using floor_Some(3) [OF c Some x] f [OF Some] by auto
  qed
  have at: "from < r_from x" if "ceil_range from rs = Some x" for x
    using left [of x] ceil_Some(1,2) [OF c that] c by (force simp: canonical_def)
  have none: "value_at rs a = None" if a: "from \<le> a" "\<And>x. ceil_range from rs = Some x \<Longrightarrow> a < r_from x" for a
    unfolding value_at_None
  proof (intro ballI notI)
    fix x
    assume x: "x \<in> set rs" "in_range x a"
    have fx: "from \<le> r_from x" using left [of x] x a(1) by (force simp: in_range_def)
    then obtain y where y: "ceil_range from rs = Some y" using ceil_None [of "from" rs] x(1) by (cases "ceil_range from rs") auto
    have "x = y \<or> r_to y < r_from x" by (rule ceil_Some(3) [OF c y x(1) fx])
    moreover have "r_from y \<le> r_to y" using c ceil_Some(1) [OF c y] by (simp add: canonical_def)
    ultimately show False using a(2) [OF y] x(2) by (auto simp: in_range_def)
  qed
  show ?thesis
  proof (cases "\<exists>x. ceil_range from rs = Some x \<and> r_from x \<le> to'")
    case True
    then obtain x where x: "ceil_range from rs = Some x" "r_from x \<le> to'" by blast
    have p: "num (r_from x) = num e + 1" using e [OF x] by (simp add: checked_previous)
    have "value_at rs a = None" if "between from e a" for a
      using none [of a] that x(1) p by (auto simp: between_def num_le_iff num_mono)
    moreover have "value_at rs (r_from x) \<noteq> None"
      using ceil_Some(1) [OF c x(1)] c by (auto simp: value_at_None canonical_def in_range_def)
    moreover have "a = r_from x" if "checked_next K e = Some a" for a using that p by (simp add: checked_next flip: num_eq_iff)
    ultimately show ?thesis using p at [OF x(1)] x(2) by (auto simp: constant_until_def num_le_iff num_mono)
  next
    case False
    hence "e = to'" using d by (metis not_le)
    moreover have "value_at rs a = None" if "between from to' a" for a
      using none [of a] that False by (force simp: between_def)
    ultimately show ?thesis using ft by (auto simp: constant_until_def)
  qed
qed

end

context range_store
begin

lemma segment_at_ok:
  assumes t: "reached K enc V cost E h0 P0 i n t rs" and ft: "from \<le> to'"
  shows "\<exists>sg. segment_at K S (fst t) (fst (snd t)) from to' = Inr sg \<and> constant_until K (value_at rs) from to' sg"
proof -
  have c: "canonical K rs" by (rule reached_canonical [OF t])
  note reads = read_predecessor_ok [OF t, of "from"] read_at_or_after_ok [OF t, of "from"]
  show ?thesis
  proof (cases "\<exists>r. floor_range from rs = Some r \<and> from \<le> r_to r")
    case True
    then obtain r where r: "floor_range from rs = Some r" "from \<le> r_to r" by blast
    thus ?thesis using segment_covered [OF c r ft] reads by (simp add: segment_at_def)
  next
    case False
    have g: "(case floor_range from rs of Some r \<Rightarrow> if r_to r \<ge> from then Some r else None | None \<Rightarrow> None) = None"
      using False by (auto split: option.split)
    define e where "e = (case ceil_range from rs of Some x \<Rightarrow> if r_from x \<le> to' then the (checked_previous K (r_from x)) else to' | None \<Rightarrow> to')"
    have fl: "r_to r < from" if "floor_range from rs = Some r" for r using False that by auto
    have p: "checked_previous K (r_from x) = Some e" if x: "ceil_range from rs = Some x" "r_from x \<le> to'" for x
    proof -
      have "from \<noteq> r_from x"
      proof
        assume "from = r_from x"
        moreover obtain r where r: "floor_range from rs = Some r" "r_from x \<le> r_from r \<or> r_to x < r_from r"
          using ceil_Some(1) [OF c x(1)] floor_None [of "from" rs] floor_Some(3) [OF c, of "from" _ x] \<open>from = r_from x\<close>
          by (cases "floor_range from rs") auto
        ultimately show False
          using fl [OF r(1)] floor_Some(1,2) [OF c r(1)] ceil_Some(1) [OF c x(1)] c by (force simp: canonical_def)
      qed
      hence "from < r_from x" using ceil_Some(2) [OF c x(1)] by simp
      then obtain q where "checked_previous K (r_from x) = Some q" using previous_exists by blast
      thus ?thesis using x by (simp add: e_def)
    qed
    have "constant_until K (value_at rs) from to' \<lparr> sg_to = e, sg_value = None \<rparr>"
      by (rule segment_gap [OF c fl ft p]) (auto simp: e_def not_le [symmetric] split: option.splits)
    moreover have "segment_at K S (fst t) (fst (snd t)) from to' = Inr \<lparr> sg_to = e, sg_value = None \<rparr>"
    proof (cases "\<exists>x. ceil_range from rs = Some x \<and> r_from x \<le> to'")
      case True
      thus ?thesis using reads g p by (auto simp: segment_at_def)
    next
      case False
      hence "e = to'" by (auto simp: e_def split: option.split)
      thus ?thesis using reads g False by (auto simp: segment_at_def split: option.split)
    qed
    ultimately show ?thesis by blast
  qed
qed

lemma tree_beside_reached: "tree_beside K enc V cost I E h0 Q0 i n t rs \<Longrightarrow> \<exists>P. reached K enc V cost E (heap_of V (fst t)) P i n t rs"
  by (auto simp: tree_beside_def reached_def intro: moved_refl)

lemma affords_mono: "affords V cost E i n l st \<Longrightarrow> i' \<le> i \<Longrightarrow> n' \<le> n \<Longrightarrow> affords V cost E i' n' l st"
  unfolding affords_def using mult_le_mono1 [of n' n "65 + 3 * cost"] by linarith

lemma tree_beside_mono: "tree_beside K enc V cost I E h0 Q0 i n t rs \<Longrightarrow> i' \<le> i \<Longrightarrow> n' \<le> n \<Longrightarrow> tree_beside K enc V cost I E h0 Q0 i' n' t rs"
  unfolding tree_beside_def using affords_mono by blast

lemma moved_beside:
  assumes m: "moved h h' P P'" and f: "F \<subseteq> hp_own h" "F \<inter> P = {}"
  shows "F \<inter> P' = {}" "keeps h h' F" "moved h h' (P \<union> F) (P' \<union> F)"
proof -
  have o: "hp_own h' - P' = hp_own h - P" and k: "keeps h h' (- P)" using m by (simp_all add: moved_def)
  show "F \<inter> P' = {}" using o f by blast
  show "keeps h h' F" by (rule keeps_mono [OF k]) (use f in blast)
  have "keeps h h' (- (P \<union> F))" by (rule keeps_mono [OF k]) blast
  moreover have "hp_own h' - (P' \<union> F) = hp_own h - (P \<union> F)" using o by blast
  ultimately show "moved h h' (P \<union> F) (P' \<union> F)" by (simp add: moved_def)
qed

lemma range_tree_own: "range_tree K enc V t P l rs \<Longrightarrow> P \<subseteq> hp_own (heap_of V (fst t)) \<and> valid V (fst t)"
  by (auto simp: range_tree_def tree_in_def tree_with_def dest: repr_own)

lemma tree_beside_replace:
  assumes op: "operates V u E' I operation R" and b: "tree_beside K enc V cost I E h0 Q0 (i + 3) (n + pending from to' rs + 10) t rs" and ft: "from \<le> to'"
  shows "runs (replace_range K S t \<lparr> ch_from = from, ch_to = to', ch_value = v \<rparr>) (\<lambda>(t', ch). \<exists>rs'.
    tree_beside K enc V cost I E h0 Q0 i n t' rs' \<and> value_at rs' = assigned from to' v (value_at rs)) E"
proof -
  obtain P l F where t: "range_tree K enc V t P l rs" "I (fst t) F" "F \<inter> P = {}" "moved h0 (heap_of V (fst t)) Q0 (P \<union> F)"
      "affords V cost E (i + 3) (n + pending from to' rs + 10) l (fst t)" using b by (auto simp: tree_beside_def)
  have "reached K enc V cost E (heap_of V (fst t)) P (i + 3) (n + pending from to' rs + 10) t rs"
    unfolding reached_def using t(1,5) moved_refl by blast
  note r = replace_range_ok [OF this ft, of v]
  show ?thesis
  proof (rule runs_mono [OF r], clarify)
    fix st' root' count' ch' rs'
    assume a: "reached K enc V cost E (heap_of V (fst t)) P i n (st', root', count') rs'" "value_at rs' = assigned from to' v (value_at rs)"
    obtain P' l' where t': "range_tree K enc V (st', root', count') P' l' rs'" "moved (heap_of V (fst t)) (heap_of V st') P P'"
        "affords V cost E i n l' st'" using a(1) by (auto simp: reached_def)
    note m = moved_beside [OF t'(2) _ t(3)]
    have f: "F \<subseteq> hp_own (heap_of V (fst t))" using op t(2) by (auto simp: operates_def)
    have "I st' F" using op t(2) m(2) [OF f] range_tree_own [OF t'(1)] unfolding operates_def by (metis fst_conv)
    hence "tree_beside K enc V cost I E h0 Q0 i n (st', root', count') rs'"
      using t' m(1) [OF f] moved_trans [OF t(4) m(3) [OF f]] unfolding tree_beside_def by auto
    thus "\<exists>rs'. tree_beside K enc V cost I E h0 Q0 i n (st', root', count') rs' \<and> value_at rs' = assigned from to' v (value_at rs)" using a(2) by blast
  qed simp
qed

lemma tree_beside_operation:
  assumes op: "operates V u E I operation R" and b: "tree_beside K enc V cost I E h0 Q0 i (n + u) t rs"
  shows "rwp (operation (fst t) v) (\<lambda>(st', v'). R v v' \<and> tree_beside K enc V cost I E h0 Q0 i n (st', snd t) rs) E"
proof -
  obtain P l F where t: "range_tree K enc V t P l rs" "I (fst t) F" "F \<inter> P = {}" "moved h0 (heap_of V (fst t)) Q0 (P \<union> F)"
      "affords V cost E i (n + u) l (fst t)" using b by (auto simp: tree_beside_def)
  have p: "P \<subseteq> hp_own (heap_of V (fst t))" "valid V (fst t)" using range_tree_own [OF t(1)] by auto
  let ?Q = "\<lambda>(st', v'). R v v' \<and> valid V st' \<and> (\<exists>F'. I st' F' \<and> moved (heap_of V (fst t)) (heap_of V st') F F') \<and> room V (fst t) \<le> room V st' + u * 65"
  have o: "rwp (operation (fst t) v) ?Q (E \<or> room V (fst t) < u * 65)" 
    by (rule conjunct1 [OF op [unfolded operates_def], rule_format, OF p(2) t(2)])
  have ru: "u * 65 \<le> (n + u) * (65 + 3 * cost)" by (rule mult_le_mono) simp_all
  show ?thesis
  proof (rule rwp_mono [OF o])
    fix x assume "?Q x"
    then obtain st' v' F' where x: "x = (st', v')" "R v v'" "valid V st'" "I st' F'" "moved (heap_of V (fst t)) (heap_of V st') F F'"
      "room V (fst t) \<le> room V st' + u * 65" by (cases x) auto
    note m = moved_beside [OF x(5) p(1)]
    have fp: "P \<inter> F = {}" using t(3) by blast
    have "range_tree K enc V (st', snd t) P l rs"
      using t(1) tree_in_keeps [OF _ x(3) m(2) [OF fp]] by (simp add: range_tree_def)
    moreover have "affords V cost E i n l st'" using t(5) x(6) by (auto simp: affords_def algebra_simps)
    moreover have "moved h0 (heap_of V st') Q0 (P \<union> F')"
      using moved_trans [OF t(4), of "heap_of V st'" "P \<union> F'"] m(3) [OF fp] by (simp add: Un_commute)
    ultimately have "tree_beside K enc V cost I E h0 Q0 i n (st', snd t) rs" unfolding tree_beside_def using x(4) m(1) [OF fp] by auto
    thus "case x of (st', v') \<Rightarrow> R v v' \<and> tree_beside K enc V cost I E h0 Q0 i n (st', snd t) rs" using x(1,2) by simp
  qed (use t(5) ru in \<open>auto simp: affords_def\<close>)
qed

lemma transform_loop_unfold:
  "transform_loop K S operation to' t cursor changed =
    step_result (segment_at K S (fst t) (fst (snd t)) cursor to') (\<lambda>segment.
    step_result (operation (fst t) (sg_value segment)) (\<lambda>(st, value).
    step_run (if value \<noteq> sg_value segment
              then step_run (replace_range K S (st, snd t) \<lparr> ch_from = cursor, ch_to = sg_to segment, ch_value = value \<rparr>)
                     (\<lambda>(t, _). Some (Inr (t, True)))
              else Some (Inr ((st, snd t), changed))) (\<lambda>(t, changed).
    if sg_to segment = to' then Some (Inr (t, changed))
    else step_result (ok_or (ArithmeticOverflow ''membership range cursor'') (checked_next K (sg_to segment))) (\<lambda>cursor.
      transform_loop K S operation to' t cursor changed))))"
  by (subst transform_loop.simps) (unfold step_cases, rule refl)

lemma transform_loop_ok:
  assumes op: "operates V u E I operation R"
  shows "card (breaks K (value_at rs) cursor to') = k \<Longrightarrow> cursor \<le> to' \<Longrightarrow>
    tree_beside K enc V cost I E h0 Q0 (i + 3 * Suc k) (n + (u + 11) * Suc k) t rs \<Longrightarrow>
    runs (transform_loop K S operation to' t cursor changed) (\<lambda>(t', ch). \<exists>rs'. tree_beside K enc V cost I E h0 Q0 i n t' rs'
      \<and> transforms cursor to' R (value_at rs) (value_at rs') \<and> (ch \<longleftrightarrow> changed \<or> value_at rs' \<noteq> value_at rs)) E"
proof (induction k arbitrary: cursor t rs changed rule: less_induct)
  case (less k)
  let ?Q = "\<lambda>(t', ch). \<exists>rs'. tree_beside K enc V cost I E h0 Q0 i n t' rs'
      \<and> transforms cursor to' R (value_at rs) (value_at rs') \<and> (ch \<longleftrightarrow> changed \<or> value_at rs' \<noteq> value_at rs)"
  obtain P where re: "reached K enc V cost E (heap_of V (fst t)) P (i + 3 * Suc k) (n + (u + 11) * Suc k) t rs" using tree_beside_reached [OF less(4)] by blast
  have c: "canonical K rs" by (rule reached_canonical [OF re])
  obtain sg where sg: "segment_at K S (fst t) (fst (snd t)) cursor to' = Inr sg" and cu: "constant_until K (value_at rs) cursor to' sg"
    using segment_at_ok [OF re less(3)] by blast
  have so: "cursor \<le> sg_to sg" "sg_to sg \<le> to'" using cu by (simp_all add: constant_until_def)
  let ?i = "i + 3 * k" and ?n = "n + (u + 11) * k"
  let ?mid = "\<lambda>(t1, ch1). \<exists>rs1. tree_beside K enc V cost I E h0 Q0 ?i ?n t1 rs1
    \<and> transforms cursor (sg_to sg) R (value_at rs) (value_at rs1) \<and> (ch1 \<longleftrightarrow> changed \<or> value_at rs1 \<noteq> value_at rs)"
  have step: "runs (if value \<noteq> sg_value sg
      then step_run (replace_range K S (st, snd t) \<lparr> ch_from = cursor, ch_to = sg_to sg, ch_value = value \<rparr>) (\<lambda>(t, _). Some (Inr (t, True)))
      else Some (Inr ((st, snd t), changed))) ?mid E"
    if v: "R (sg_value sg) value" and u: "tree_beside K enc V cost I E h0 Q0 (?i + 3) (?n + 11) (st, snd t) rs" for st "value"
  proof (cases "value = sg_value sg")
    case True
    thus ?thesis using tree_beside_mono [OF u, of ?i ?n] transforms_constant(2) [where R = R, OF cu v] by auto
  next
    case False
    have u': "tree_beside K enc V cost I E h0 Q0 (?i + 3) (?n + pending cursor (sg_to sg) rs + 10) (st, snd t) rs"
      by (rule tree_beside_mono [OF u]) (use pending_constant [OF c cu] in simp_all)
    show ?thesis unfolding if_P [OF False]
    proof (rule runs_step_run [OF tree_beside_replace [OF op u' so(1), of "value"]], clarify)
      fix st' root' count' ch' rs'
      assume f: "tree_beside K enc V cost I E h0 Q0 ?i ?n (st', root', count') rs'" "value_at rs' = assigned cursor (sg_to sg) value (value_at rs)"
      have "?mid ((st', root', count'), True)" using f transforms_constant(1,3) [where R = R, OF cu v] False by (auto intro!: exI [of _ rs'])
      thus "runs (Some (Inr ((st', root', count'), True))) ?mid E" by simp
    qed
  qed
  have rest: "runs (if sg_to sg = to' then Some (Inr (t1, ch1))
      else step_result (ok_or (ArithmeticOverflow ''membership range cursor'') (checked_next K (sg_to sg))) (\<lambda>cursor.
        transform_loop K S operation to' t1 cursor ch1)) ?Q E"
    if m: "tree_beside K enc V cost I E h0 Q0 ?i ?n t1 rs1"
      "transforms cursor (sg_to sg) R (value_at rs) (value_at rs1)" "ch1 \<longleftrightarrow> changed \<or> value_at rs1 \<noteq> value_at rs" for t1 ch1 rs1
  proof (cases "sg_to sg = to'")
    case True
    thus ?thesis using tree_beside_mono [OF m(1), of i n] m(2,3) by auto
  next
    case False
    hence lt: "sg_to sg < to'" using so(2) by simp
    then obtain nx where nx: "checked_next K (sg_to sg) = Some nx" using next_exists by blast
    have le: "nx \<le> to'" using nx lt by (auto simp: checked_next num_mono num_le_iff)
    have "value_at rs1 a = value_at rs a" if "between nx to' a" for a
    proof -
      have "\<not> between cursor (sg_to sg) a" using that nx by (auto simp: between_def checked_next num_le_iff)
      thus ?thesis using m(2) by (auto simp: transforms_def)
    qed
    hence d: "card (breaks K (value_at rs1) nx to') < k"
      using breaks_step [OF cu nx False, of "value_at rs1"] less(2) by simp
    have r: "tree_beside K enc V cost I E h0 Q0 (i + 3 * Suc (card (breaks K (value_at rs1) nx to'))) (n + (u + 11) * Suc (card (breaks K (value_at rs1) nx to'))) t1 rs1"
      by (rule tree_beside_mono [OF m(1)]) (use d in simp, intro add_left_mono mult_le_mono2, use d in simp)
    have "runs (transform_loop K S operation to' t1 nx ch1) ?Q E"
    proof (rule runs_mono [OF less(1) [OF d refl le r]])
      fix x
      assume "case x of (t', ch) \<Rightarrow> \<exists>rs'. tree_beside K enc V cost I E h0 Q0 i n t' rs' \<and> transforms nx to' R (value_at rs1) (value_at rs')
        \<and> (ch \<longleftrightarrow> ch1 \<or> value_at rs' \<noteq> value_at rs1)"
      then obtain t' ch' rs' where xe: "x = (t', ch')" and f: "tree_beside K enc V cost I E h0 Q0 i n t' rs'"
        "transforms nx to' R (value_at rs1) (value_at rs')" "ch' \<longleftrightarrow> ch1 \<or> value_at rs' \<noteq> value_at rs1" by (cases x) blast
      note ts = transforms_step [OF nx so(1) lt m(2) f(2)]
      show "?Q x" unfolding xe prod.case using f(1,3) m(3) ts by blast
    qed simp
    thus ?thesis using False nx by simp
  qed
  have b: "tree_beside K enc V cost I E h0 Q0 (?i + 3) (?n + 11 + u) t rs" by (rule tree_beside_mono [OF less(4)]) simp_all
  show ?case
    unfolding transform_loop_unfold [of operation to' t] sg step_result.simps
  proof (rule runs_step_result [OF tree_beside_operation [OF op b, of "sg_value sg"]])
    fix x
    assume x: "case x of (st, value) \<Rightarrow> R (sg_value sg) value \<and> tree_beside K enc V cost I E h0 Q0 (?i + 3) (?n + 11) (st, snd t) rs"
    obtain st "value" where xe: "x = (st, value)" by (cases x)
    show "runs (case x of (st, value) \<Rightarrow> step_run (if value \<noteq> sg_value sg
        then step_run (replace_range K S (st, snd t) \<lparr> ch_from = cursor, ch_to = sg_to sg, ch_value = value \<rparr>) (\<lambda>(t, _). Some (Inr (t, True)))
        else Some (Inr ((st, snd t), changed))) (\<lambda>(t, changed). if sg_to sg = to' then Some (Inr (t, changed))
        else step_result (ok_or (ArithmeticOverflow ''membership range cursor'') (checked_next K (sg_to sg))) (\<lambda>cursor.
          transform_loop K S operation to' t cursor changed))) ?Q E"
      unfolding xe prod.case
      by (rule runs_step_run [OF step]) (use x xe in simp, use x xe in simp, clarify, rule rest, assumption, assumption, rule refl)
  qed
qed

theorem transform_ok:
  assumes op: "operates V u E I operation R" and ft: "from \<le> to'"
    and t: "tree_beside K enc V cost I E h0 Q0 (i + 3 * Suc (card (breaks K (value_at rs) from to'))) (n + (u + 11) * Suc (card (breaks K (value_at rs) from to'))) t rs"
  shows "runs (transform K S t from to' operation) (\<lambda>(t', ch). \<exists>rs'. tree_beside K enc V cost I E h0 Q0 i n t' rs'
      \<and> transforms from to' R (value_at rs) (value_at rs') \<and> (ch \<longleftrightarrow> value_at rs' \<noteq> value_at rs)) E"
  using transform_loop_ok [OF op refl ft t, of False] ft by (simp add: transform_def leD)

end

end
