(* ===== verification/RangeLookup.thy ===== *)
theory RangeLookup
  imports RangeTransform
begin

text \<open>
  Reading a range tree: the lookup of \<open>range_tree.rs\<close> answers the value that the map of the tree
  gives to the address, and a cursor over the tree returns every range once, in the order of its
  direction, and then none.
\<close>

section \<open>Canonical form\<close>

text \<open>A map has one canonical list of ranges: the records of a tree are determined by its map.\<close>

context key_laws
begin

lemma canonical_cover:
  assumes c: "canonical K rs" "canonical K rs'" "value_at rs = value_at rs'" and x: "x \<in> set rs"
  shows "\<exists>p\<in>set rs'. r_from p \<le> r_from x \<and> r_to x \<le> r_to p \<and> r_value p = r_value x"
proof -
  have o: "r_from x \<le> r_to x" using c(1) x by (simp add: canonical_def)
  have "value_at rs' a = Some (r_value x)" if a: "between (r_from x) (r_to x) a" for a
  proof -
    have "in_range x a" using a by (simp add: between_def in_range_def)
    hence "value_at rs a = Some (r_value x)" using value_at_iff [OF c(1)] x by blast
    thus ?thesis using c(3) by simp
  qed
  then obtain p where "floor_range (r_from x) rs' = Some p" "r_to x \<le> r_to p" "r_value p = r_value x"
    using constant_interval [OF c(2) o] by blast
  thus ?thesis using floor_Some(1,2) [OF c(2)] by blast
qed

lemma canonical_subset:
  assumes c: "canonical K rs" "canonical K rs'" "value_at rs = value_at rs'"
  shows "set rs \<subseteq> set rs'"
proof
  fix x assume x: "x \<in> set rs"
  obtain p where p: "p \<in> set rs'" "r_from p \<le> r_from x" "r_to x \<le> r_to p" "r_value p = r_value x"
    using canonical_cover [OF c x] by blast
  obtain q where q: "q \<in> set rs" "r_from q \<le> r_from p" "r_to p \<le> r_to q"
    using canonical_cover [OF c(2,1) c(3) [symmetric] p(1)] by blast
  have "r_from x \<le> r_to x" using c(1) x by (simp add: canonical_def)
  moreover have "r_from q \<le> r_from x" "r_from x \<le> r_to q" using q(2,3) p(2,3) calculation by order+
  ultimately have "q = x" using canonical_disjoint [OF c(1) q(1) x, of "r_from x"] by (simp add: in_range_def)
  hence "p = x" using q p by (auto intro: range.equality)
  thus "x \<in> set rs'" using p(1) by simp
qed

lemma canonical_sorted: "canonical K rs \<Longrightarrow> sorted (map r_from rs) \<and> distinct (map r_from rs)"
proof -
  assume c: "canonical K rs"
  have "sorted_wrt (\<lambda>a b. r_from a < r_from b) rs"
    by (rule sorted_wrt_mono_rel [OF _ canonical_less [OF c]]) (use c in \<open>force simp: canonical_def\<close>)
  hence "sorted_wrt (<) (map r_from rs)" by (simp add: sorted_wrt_map)
  thus ?thesis by (simp add: strict_sorted_iff)
qed

lemma canonical_unique:
  assumes c: "canonical K rs" "canonical K rs'" "value_at rs = value_at rs'"
  shows "rs = rs'"
proof -
  have s: "set rs = set rs'" using canonical_subset [OF c] canonical_subset [OF c(2,1) c(3) [symmetric]] by blast
  hence "map r_from rs = map r_from rs'"
    using canonical_sorted [OF c(1)] canonical_sorted [OF c(2)] by (intro sorted_distinct_set_unique) auto
  thus ?thesis by (rule map_inj_on) (use s canonical_from [OF c(1)] in \<open>auto intro!: inj_onI\<close>)
qed

end

section \<open>Lookup\<close>

lemma value_at_floor:
  assumes c: "canonical K rs"
  shows "value_at rs a = (case floor_range a rs of Some r \<Rightarrow> if r_to r < a then None else Some (r_value r) | None \<Rightarrow> None)"
proof (cases "value_at rs a")
  case None
  have "r_to r < a" if "floor_range a rs = Some r" for r
    using None floor_Some(1,2) [OF c that] by (auto simp: value_at_None in_range_def)
  thus ?thesis using None by (auto split: option.split)
next
  case (Some v)
  then obtain x where x: "x \<in> set rs" "in_range x a" "r_value x = v" using value_at_iff [OF c] by blast
  obtain r where r: "floor_range a rs = Some r"
    using floor_None [of a rs] x(1,2) by (cases "floor_range a rs") (auto simp: in_range_def not_less)
  have "x = r" using floor_Some(3) [OF c r x(1)] floor_Some(2) [OF c r] x(2) by (auto simp: in_range_def)
  thus ?thesis using Some r x(2,3) by (auto simp: in_range_def)
qed

lemma leaf_record_item: "read_leaf_item (range_codec K) page h n i = leaf_record K page h i"
  by (simp add: leaf_record_def read_leaf_item_def range_codec_def default_leaf_cell_def record_size_def)

context codec_laws
begin

text \<open>A query that reads the floor of its key in the leaf reads the floor of the tree.\<close>

lemma query_floor:
  assumes s: "serves src h" and r: "repr C X h L T" and o: "ordered X (leaves T)" and g: "reads C X item (\<lambda>_ _ _. g)"
  shows "query C src (root_page T) key (\<lambda>page hd n position exact.
      case (if exact then Some position else usize_checked_sub position 1) of
        None \<Rightarrow> Inr None | Some index \<Rightarrow> rbind (item page hd n index) k)
    = (case floor_cell X key (leaves T) of None \<Rightarrow> Inr None | Some c \<Rightarrow> k (g c))"
proof -
  let ?leaf = "\<lambda>page hd n position exact. case (if exact then Some position else usize_checked_sub position 1) of
        None \<Rightarrow> Inr None | Some index \<Rightarrow> rbind (item page hd n index) k"
  obtain ctx n cs where q: "query C src (root_page T) key ?leaf
       = ?leaf (hp_page h n) (raw_header (hp_page h n)) n (lb (map (key_of X) cs) key) (hit (map (key_of X) cs) key)"
     and p: "plug (PLeaf n cs) ctx = T" "around X key ctx (PLeaf n cs)" "length ctx = L"
    using query_ok [OF s r o, of key ?leaf] by blast
  let ?lb = "lb (map (key_of X) cs) key" and ?hit = "hit (map (key_of X) cs) key"
  note l = leaf_of_plug [OF r p(1,3) o]
  have le: "lb (map (key_of X) cs) key \<le> length cs" using lb_le [of "map (key_of X) cs" key] by simp
  have it: "item (hp_page h n) (raw_header (hp_page h n)) n i = Inr (g (cs ! i))" if "i < length cs" for i
    using g l(1,2) that by (simp add: reads_def)
  show ?thesis unfolding q l(5) floor_around [OF p(2) l(6,3)]
  proof (cases "hit (map (key_of X) cs) key")
    case True
    thus "?leaf (hp_page h n) (raw_header (hp_page h n)) n ?lb ?hit = (case if ?hit then Some (cs ! ?lb)
        else case ?lb of 0 \<Rightarrow> None | Suc i \<Rightarrow> Some (cs ! i) of None \<Rightarrow> Inr None | Some c \<Rightarrow> k (g c))"
      using it [of ?lb] by (simp add: hit_def)
  next
    case False
    thus "?leaf (hp_page h n) (raw_header (hp_page h n)) n ?lb ?hit = (case if ?hit then Some (cs ! ?lb)
        else case ?lb of 0 \<Rightarrow> None | Suc i \<Rightarrow> Some (cs ! i) of None \<Rightarrow> Inr None | Some c \<Rightarrow> k (g c))"
      using it [of "?lb - 1"] le by (cases ?lb) (simp_all add: usize_checked_sub_def)
  qed
qed

end

context range_store
begin

lemma range_lookup_ok:
  assumes t: "range_tree K enc V t P l rs"
  shows "range_lookup K (store_source S (fst t)) (FAMILY K) (fst (snd t)) a = Inr (value_at rs a)"
proof -
  obtain st root records where te: "t = (st, root, records)" by (cases t)
  have tr: "tree_in (range_codec K) (range_cells K enc) V st root P l (map (range_cell enc) rs)" and c: "canonical K rs"
    using t te by (auto simp: range_tree_def)
  note sv = store_serves [OF tree_in_valid [OF tr]]
  have e: "range_lookup_leaf K a = (\<lambda>page hd n position exact. case (if exact then Some position else usize_checked_sub position 1) of
        None \<Rightarrow> Inr None | Some index \<Rightarrow> rbind (read_leaf_item (range_codec K) page hd n index)
          (\<lambda>r. Inr (if a > r_to r then None else Some (r_value r))))"
    by (intro ext) (simp add: range_lookup_leaf_def leaf_record_item split: option.split)
  show ?thesis
  proof (cases "root = 0 \<and> rs = []")
    case True
    thus ?thesis by (simp add: te range_lookup_def query_def value_at_def)
  next
    case False
    then obtain T where T: "repr (range_codec K) (range_cells K enc) (heap_of V st) l T" "leaves T = map (range_cell enc) rs" "root = root_page T"
      using tr by (auto simp: tree_in_def tree_with_def)
    have f: "map_option (leaf_of (range_cells K enc)) (floor_cell (range_cells K enc) a (leaves T)) = floor_range a rs"
      using floor_ranges [OF c] T(2) by simp
    note q = rc.query_floor [OF sv T(1) ordered_ranges [OF c, folded T(2)] rc.reads_leaf_item,
        where key = a and k = "\<lambda>r. Inr (if a > r_to r then None else Some (r_value r))"]
    have "(case floor_cell (range_cells K enc) a (leaves T) of None \<Rightarrow> Inr None
        | Some c \<Rightarrow> Inr (if a > r_to (leaf_of (range_cells K enc) c) then None else Some (r_value (leaf_of (range_cells K enc) c))))
        = (Inr (value_at rs a) :: 32 word option result)"
      unfolding value_at_floor [OF c] f [symmetric] by (simp split: option.split)
    thus ?thesis unfolding te fst_conv snd_conv range_lookup_def e T(3) q by simp
  qed
qed

end

section \<open>Scanning\<close>

text \<open>The items that a cursor returns until it is exhausted, in at most \<open>k\<close> calls.\<close>

fun drain :: "('k :: linorder, 'l) codec \<Rightarrow> page_source \<Rightarrow> 'o item_reader \<Rightarrow> nat \<Rightarrow> cursor \<Rightarrow> 'o list option" where
  "drain C src item 0 self = None"
| "drain C src item (Suc k) self =
    (case cursor_next C src self item of
       (self', Inr None) \<Rightarrow> Some []
     | (self', Inr (Some x)) \<Rightarrow> map_option (Cons x) (drain C src item k self')
     | _ \<Rightarrow> None)"

context codec_laws
begin

lemma drain_ok:
  assumes s: "serves src h" and r: "repr C X h L T" and g: "reads C X item (\<lambda>_ _ _. g)"
  shows "yields src h dir L T self ys \<Longrightarrow> drain C src item (Suc (length ys)) self = Some (map g ys)"
proof (induction ys arbitrary: self)
  case Nil
  thus ?case using cursor_next_ok [OF s r Nil g] by auto
next
  case (Cons y ys)
  obtain self' where n: "cursor_next C src self item = (self', Inr (Some (g y)))" "yields src h dir L T self' ys"
    using cursor_next_ok [OF s r Cons(2) g] by auto
  show ?case using n Cons(1) [OF n(2)] by simp
qed

end

context range_store
begin

lemma range_scan_ok:
  assumes t: "range_tree K enc V t P l rs" and ne: "rs \<noteq> []"
  shows "\<exists>self. cursor_new (range_codec K) (store_source S (fst t)) (fst (snd t)) dir = Inr self
    \<and> drain (range_codec K) (store_source S (fst t)) (read_leaf_item (range_codec K)) (Suc (length rs)) self = Some (case dir of Forward \<Rightarrow> rs | Backward \<Rightarrow> rev rs)"
proof -
  have tr: "tree_in (range_codec K) (range_cells K enc) V (fst t) (fst (snd t)) P l (map (range_cell enc) rs)" and c: "canonical K rs"
    using t by (auto simp: range_tree_def)
  note sv = store_serves [OF tree_in_valid [OF tr]]
  obtain T where T: "repr (range_codec K) (range_cells K enc) (heap_of V (fst t)) l T" "leaves T = map (range_cell enc) rs"
      "fst (snd t) = root_page T"
    using tr ne by (auto simp: tree_in_def tree_with_def)
  obtain self where n: "cursor_new (range_codec K) (store_source S (fst t)) (root_page T) dir = Inr self"
    "yields (store_source S (fst t)) (heap_of V (fst t)) dir l T self (oriented dir (leaves T))"
    using rc.cursor_new_ok [OF sv T(1)] by blast
  have m: "map (leaf_of (range_cells K enc)) (oriented dir (leaves T)) = (case dir of Forward \<Rightarrow> rs | Backward \<Rightarrow> rev rs)"
    using c unfolding T(2) by (cases dir) (auto simp: oriented_def canonical_def decode_range_cell simp flip: rev_map intro!: map_idI)
  have k: "length (oriented dir (leaves T)) = length rs" using T(2) by (cases dir) (simp_all add: oriented_def)
  show ?thesis unfolding T(3) using n(1) rc.drain_ok [OF sv T(1) rc.reads_leaf_item n(2), unfolded m k] by blast
qed

end

end
