(* ===== verification/PageMapping.thy ===== *)
theory PageMapping
  imports MappedBytes
begin

text \<open>
  Checked access to a mapped file (\<open>mapping.rs\<close>): the bounds of a page and of a byte range, the
  read and write views of a page, and the pair of views for a copy. The map is the bytes of the
  file that are mapped; a write view is its current contents, and \<open>map_put_page\<close> stores what was
  written through it. Opening, resizing and flushing the file are operating system calls and are
  not modelled.
\<close>

section \<open>The mapping\<close>

datatype map_access = ReadOnly | ReadWrite

record mapping =
  mp_map :: "bytes option"
  mp_len :: nat
  mp_access :: map_access
  mp_unreadable :: "32 word list option"

definition map_unmap :: "mapping \<Rightarrow> mapping" where
  "map_unmap m = m \<lparr> mp_map := None, mp_len := 0 \<rparr>"

definition map_base :: "mapping \<Rightarrow> bytes result" where
  "map_base m = ok_or (WrongState ''file mapping is unavailable'') (mp_map m)"

definition map_require_write :: "mapping \<Rightarrow> unit result" where
  "map_require_write m = require (WrongMode ''file mapping is read-only'') (mp_access m = ReadWrite)"

fun strictly_sorted :: "32 word list \<Rightarrow> bool" where
  "strictly_sorted (x # y # zs) \<longleftrightarrow> \<not> x \<ge> y \<and> strictly_sorted (y # zs)"
| "strictly_sorted _ \<longleftrightarrow> True"

definition set_unreadable_pages :: "mapping \<Rightarrow> 32 word list \<Rightarrow> mapping result" where
  "set_unreadable_pages m pages =
    (if \<not> strictly_sorted pages
     then Inl (InvalidArgument ''unreadable mapped pages must be sorted and unique'')
     else Inr (m \<lparr> mp_unreadable := (if pages = [] then None else Some pages) \<rparr>))"

section \<open>Bounds\<close>

definition page_offset :: "32 word \<Rightarrow> 64 word \<Rightarrow> nat \<Rightarrow> nat result" where
  "page_offset page_number page_limit map_len =
    (if ucast page_number \<ge> page_limit then Inl (Corrupt ''page number is outside mapped bounds'')
     else
       rbind (ok_or (ArithmeticOverflow ''mapped page offset'') (usize_checked_mul (unat page_number) PAGE_SIZE)) (\<lambda>offset.
       rbind (checked_subrange offset PAGE_SIZE map_len) (\<lambda>_.
       Inr offset)))"

text \<open>\<open>usize\<close> has 64 bits, so the conversions of a \<open>u64\<close> cannot fail.\<close>

definition checked_range :: "64 word \<Rightarrow> nat \<Rightarrow> nat \<Rightarrow> (nat \<times> nat) result" where
  "checked_range offset len extent =
    rbind (checked_subrange (unat offset) len extent) (\<lambda>_. Inr (unat offset, len))"

section \<open>Views\<close>

definition map_page :: "mapping \<Rightarrow> 32 word \<Rightarrow> 64 word \<Rightarrow> bytes result" where
  "map_page m page_number page_limit =
    (if (case mp_unreadable m of None \<Rightarrow> False | Some pages \<Rightarrow> page_number \<in> set pages)
     then Inl (Io ''EIO'')
     else
       rbind (page_offset page_number page_limit (mp_len m)) (\<lambda>offset.
       rbind (map_base m) (\<lambda>base.
       Inr (rd base offset PAGE_SIZE))))"

definition map_bytes :: "mapping \<Rightarrow> 64 word \<Rightarrow> nat \<Rightarrow> bytes result" where
  "map_bytes m offset len =
    rbind (checked_range offset len (mp_len m)) (\<lambda>(offset, len).
    rbind (map_base m) (\<lambda>base.
    Inr (rd base offset len)))"

definition map_bytes_mut :: "mapping \<Rightarrow> 64 word \<Rightarrow> nat \<Rightarrow> bytes result" where
  "map_bytes_mut m offset len =
    rbind (map_require_write m) (\<lambda>_.
    rbind (checked_range offset len (mp_len m)) (\<lambda>(offset, len).
    rbind (map_base m) (\<lambda>base.
    Inr (rd base offset len))))"

definition map_page_mut :: "mapping \<Rightarrow> 32 word \<Rightarrow> 64 word \<Rightarrow> bytes result" where
  "map_page_mut m page_number page_limit =
    rbind (map_require_write m) (\<lambda>_.
    rbind (page_offset page_number page_limit (mp_len m)) (\<lambda>offset.
    rbind (map_base m) (\<lambda>base.
    Inr (rd base offset PAGE_SIZE))))"

definition map_page_pair :: "mapping \<Rightarrow> 32 word \<Rightarrow> 32 word \<Rightarrow> 64 word \<Rightarrow> (bytes \<times> bytes) result" where
  "map_page_pair m source destination page_limit =
    rbind (map_require_write m) (\<lambda>_.
    if source = destination then Inl (InvalidArgument ''mapped source and destination pages must differ'')
    else
      rbind (page_offset source page_limit (mp_len m)) (\<lambda>source_offset.
      rbind (page_offset destination page_limit (mp_len m)) (\<lambda>destination_offset.
      rbind (map_base m) (\<lambda>base.
      Inr (rd base source_offset PAGE_SIZE, rd base destination_offset PAGE_SIZE)))))"

text \<open>What was written through the write view of a page.\<close>

definition map_put_page :: "mapping \<Rightarrow> 32 word \<Rightarrow> bytes \<Rightarrow> mapping" where
  "map_put_page m page_number page =
    m \<lparr> mp_map := map_option (\<lambda>base. wr base (unat page_number * PAGE_SIZE) page) (mp_map m) \<rparr>"

section \<open>Pages of a live map\<close>

text \<open>A map whose bytes are there, and the contents of a page of it.\<close>

definition live_map :: "mapping \<Rightarrow> bool" where
  "live_map m \<longleftrightarrow> (\<exists>base. mp_map m = Some base \<and> length base = mp_len m) \<and> mp_len m \<le> usize_max"

definition page_in :: "mapping \<Rightarrow> 64 word \<Rightarrow> 32 word \<Rightarrow> bool" where
  "page_in m page_limit n \<longleftrightarrow> ucast n < page_limit \<and> unat page_limit * PAGE_SIZE \<le> mp_len m"

definition page_bytes :: "mapping \<Rightarrow> 32 word \<Rightarrow> bytes" where
  "page_bytes m n = rd (the (mp_map m)) (unat n * PAGE_SIZE) PAGE_SIZE"

lemma strictly_sorted_iff: "strictly_sorted xs \<longleftrightarrow> sorted_wrt (<) xs"
proof (induction xs rule: strictly_sorted.induct)
  case (1 x y zs)
  show ?case using 1 by (auto simp: not_le intro: order.strict_trans)
qed auto

lemma unat_ucast_u32 [simp]: "unat (ucast (n :: 32 word) :: 64 word) = unat n"
  using unat_word_less [of n] by (simp add: unat_ucast)

lemma page_in_end:
  assumes "page_in m page_limit n"
  shows "unat n * PAGE_SIZE + PAGE_SIZE \<le> mp_len m"
proof -
  have "unat n < unat page_limit"
    using assms by (simp add: page_in_def word_less_nat_alt)
  hence "Suc (unat n) * PAGE_SIZE \<le> unat page_limit * PAGE_SIZE" by (intro mult_le_mono1) simp
  thus ?thesis using assms by (simp add: page_in_def)
qed

lemma page_offset_in:
  assumes "live_map m" "page_in m page_limit n"
  shows "page_offset n page_limit (mp_len m) = Inr (unat n * PAGE_SIZE)"
  using assms page_in_end [OF assms(2)]
  by (simp add: page_offset_def live_map_def page_in_def not_le checked_subrange_def usize_checked_mul_def usize_checked_add_def)

text \<open>A page number at or past the limit is refused, whatever the map.\<close>

lemma page_offset_out: "ucast n \<ge> page_limit \<Longrightarrow> page_offset n page_limit len = Inl (Corrupt ''page number is outside mapped bounds'')"
  by (simp add: page_offset_def)

lemma map_page_in:
  assumes "live_map m" "page_in m page_limit n" "mp_unreadable m = None"
  shows "map_page m n page_limit = Inr (page_bytes m n)"
  using assms page_offset_in [OF assms(1,2)] by (auto simp: map_page_def map_base_def live_map_def page_bytes_def)

lemma map_page_mut_in:
  assumes "live_map m" "page_in m page_limit n" "mp_access m = ReadWrite"
  shows "map_page_mut m n page_limit = Inr (page_bytes m n)"
  using assms page_offset_in [OF assms(1,2)]
  by (auto simp: map_page_mut_def map_require_write_def map_base_def live_map_def page_bytes_def)

lemma map_page_pair_in:
  assumes "live_map m" "page_in m page_limit n" "page_in m page_limit k" "mp_access m = ReadWrite" "n \<noteq> k"
  shows "map_page_pair m n k page_limit = Inr (page_bytes m n, page_bytes m k)"
  using assms page_offset_in [OF assms(1,2)] page_offset_in [OF assms(1,3)]
  by (auto simp: map_page_pair_def map_require_write_def map_base_def live_map_def page_bytes_def)

lemma length_page_bytes: "live_map m \<Longrightarrow> page_in m page_limit n \<Longrightarrow> length (page_bytes m n) = PAGE_SIZE"
  using page_in_end [of m page_limit n] by (auto simp: page_bytes_def live_map_def)

lemma map_put_page_fields [simp]:
  "mp_len (map_put_page m n p) = mp_len m" "mp_access (map_put_page m n p) = mp_access m"
  "mp_unreadable (map_put_page m n p) = mp_unreadable m" "page_in (map_put_page m n p) = page_in m"
  by (simp_all add: map_put_page_def page_in_def fun_eq_iff)

lemma live_map_put:
  assumes "live_map m" "page_in m page_limit n" "length p = PAGE_SIZE"
  shows "live_map (map_put_page m n p)"
  using assms page_in_end [OF assms(2)] by (auto simp: live_map_def map_put_page_def)

lemma page_bytes_put:
  assumes "live_map m" "page_in m page_limit n" "page_in m page_limit k" "length p = PAGE_SIZE"
  shows "page_bytes (map_put_page m n p) k = (if k = n then p else page_bytes m k)"
proof -
  obtain base where b: "mp_map m = Some base" "length base = mp_len m" using assms(1) by (auto simp: live_map_def)
  note e = page_in_end [OF assms(2)] page_in_end [OF assms(3)]
  show ?thesis
  proof (cases "k = n")
    case True
    thus ?thesis using b e assms(4) by (simp add: page_bytes_def map_put_page_def rd_wr_same)
  next
    case False
    hence "unat k \<noteq> unat n" by (simp add: word_unat_eq_iff)
    hence "unat k * PAGE_SIZE + PAGE_SIZE \<le> unat n * PAGE_SIZE \<or> unat n * PAGE_SIZE + PAGE_SIZE \<le> unat k * PAGE_SIZE"
      by (cases "unat k < unat n") (auto simp: PAGE_SIZE_def)
    thus ?thesis using False b e assms(4) by (simp add: page_bytes_def map_put_page_def rd_wr_disjoint)
  qed
qed

end
