(* ===== verification/Workspace.thy ===== *)
theory Workspace
  imports PageMapping TreeStore
begin

text \<open>
  The mapped workspace of an immutable build (\<open>immutable_output/unordered/workspace.rs\<close>): a page
  store over a private file with a bump allocator and a list of free pages threaded through the
  pages themselves, as a value of the store interface of the tree.
\<close>

section \<open>State and operations\<close>

definition FREE_MAGIC :: "32 word" where "FREE_MAGIC = 0x57465245"
definition FREE_NEXT :: nat where "FREE_NEXT = 4"
definition FREE_TXN :: nat where "FREE_TXN = 8"

record workspace =
  ws_mapping :: mapping
  ws_first :: "64 word"
  ws_limit :: "64 word"
  ws_next :: "64 word"
  ws_free :: "32 word"
  ws_txn :: "64 word"

definition workspace_new :: "mapping \<Rightarrow> 64 word \<Rightarrow> 64 word \<Rightarrow> 64 word \<Rightarrow> workspace result" where
  "workspace_new m first limit txn =
    (if first > limit \<or> checked_mul limit (of_nat PAGE_SIZE) \<noteq> Some (of_nat (mp_len m))
     then Inl (InvalidArgument ''immutable construction workspace is invalid'')
     else Inr \<lparr> ws_mapping = m, ws_first = first, ws_limit = limit, ws_next = first, ws_free = 0, ws_txn = txn \<rparr>)"

definition page_count :: "workspace \<Rightarrow> 64 word" where
  "page_count self = ws_next self"

definition require_allocated :: "workspace \<Rightarrow> 32 word \<Rightarrow> unit result" where
  "require_allocated self page =
    (if ucast page < ws_first self \<or> ucast page \<ge> ws_next self
     then Inl (Corrupt ''immutable workspace page is outside its allocation'')
     else Inr ())"

definition pop_free :: "workspace \<Rightarrow> (workspace \<times> 32 word) result" where
  "pop_free self =
    (let page = ws_free self in
     rbind (require_allocated self page) (\<lambda>_.
     rbind (map_page (ws_mapping self) page (ws_next self)) (\<lambda>next.
     rbind (u32_le next 0) (\<lambda>magic.
     rbind (u64_le next FREE_TXN) (\<lambda>txn.
     if magic \<noteq> FREE_MAGIC \<or> txn \<noteq> ws_txn self
     then Inl (Corrupt ''immutable workspace free link is invalid'')
     else
       rbind (u32_le next FREE_NEXT) (\<lambda>following.
       if following \<noteq> 0 \<and> (following = page \<or> ucast following < ws_first self \<or> ucast following \<ge> ws_next self)
       then Inl (Corrupt ''immutable workspace free link is invalid'')
       else Inr (self \<lparr> ws_free := following \<rparr>, page)))))))"

definition workspace_allocate :: "workspace \<Rightarrow> (workspace \<times> 32 word) result" where
  "workspace_allocate self =
    (if ws_free self \<noteq> 0 then pop_free self
     else if ws_next self = ws_limit self
     then Inl (BudgetExceeded ''immutable construction workspace pages'')
     else if unat (ws_next self) \<ge> 2 ^ 32 then Inl PageSpaceExhausted
     else Inr (self \<lparr> ws_next := ws_next self + 1 \<rparr>, ucast (ws_next self)))"

definition workspace_inspect :: "workspace \<Rightarrow> 32 word \<Rightarrow> bytes result" where
  "workspace_inspect self page =
    rbind (require_allocated self page) (\<lambda>_. map_page (ws_mapping self) page (ws_next self))"

definition workspace_update :: "workspace \<Rightarrow> 32 word \<Rightarrow> bytes result" where
  "workspace_update self page =
    rbind (require_allocated self page) (\<lambda>_. map_page_mut (ws_mapping self) page (ws_next self))"

definition workspace_copy :: "workspace \<Rightarrow> 32 word \<Rightarrow> 32 word \<Rightarrow> (bytes \<times> bytes) result" where
  "workspace_copy self source destination =
    rbind (require_allocated self source) (\<lambda>_.
    rbind (require_allocated self destination) (\<lambda>_.
    map_page_pair (ws_mapping self) source destination (ws_next self)))"

definition workspace_put :: "workspace \<Rightarrow> 32 word \<Rightarrow> bytes \<Rightarrow> workspace" where
  "workspace_put self page contents =
    self \<lparr> ws_mapping := map_put_page (ws_mapping self) page contents \<rparr>"

definition workspace_discard :: "workspace \<Rightarrow> 32 word \<Rightarrow> workspace result" where
  "workspace_discard self page =
    rbind (require_allocated self page) (\<lambda>_.
    if page = ws_free self then Inl (Corrupt ''immutable workspace page was discarded twice'')
    else
      rbind (map_page_mut (ws_mapping self) page (ws_next self)) (\<lambda>target.
      if \<not> owned_by target (ws_txn self) then Inl (Corrupt ''immutable workspace discarded a foreign page'')
      else
        rbind (put_u32 target 0 FREE_MAGIC) (\<lambda>target.
        rbind (put_u32 target FREE_NEXT (ws_free self)) (\<lambda>target.
        rbind (put_u64 target FREE_TXN (ws_txn self)) (\<lambda>target.
        Inr ((workspace_put self page target) \<lparr> ws_free := page \<rparr>))))))"

definition workspace_retire :: "workspace \<Rightarrow> 32 word list \<Rightarrow> workspace result" where
  "workspace_retire self pages = rfold workspace_discard self pages"

definition workspace_ops :: "workspace range_ops" where
  "workspace_ops = \<lparr>
     target_txn = ws_txn,
     page_limit = ws_next,
     read_page = workspace_inspect,
     allocate = workspace_allocate,
     edit_page = workspace_update,
     pair_pages = workspace_copy,
     put_page = workspace_put,
     discard_private = workspace_discard,
     retire_pages = workspace_retire,
     range_record_added = (\<lambda>self value. Inr self),
     range_record_removed = (\<lambda>self value. Inr self) \<rparr>"

end
