(* ===== verification/WorkspaceStore.thy ===== *)
theory WorkspaceStore
  imports Workspace TreeRetire
begin

text \<open>
  The workspace as a tree store: what its pages and its free list are, that every operation keeps
  them consistent (no page is handed out twice, none is lost), and the interpretation of the
  store contracts on it.
\<close>

section \<open>What a workspace holds\<close>

abbreviation ws_page :: "workspace \<Rightarrow> 32 word \<Rightarrow> bytes" where
  "ws_page ws n \<equiv> page_bytes (ws_mapping ws) n"

definition allocated :: "workspace \<Rightarrow> 32 word \<Rightarrow> bool" where
  "allocated ws n \<longleftrightarrow> ws_first ws \<le> ucast n \<and> ucast n < ws_next ws"

text \<open>The free pages, in the order of their links.\<close>

fun free_chain :: "nat \<Rightarrow> workspace \<Rightarrow> 32 word \<Rightarrow> 32 word list" where
  "free_chain 0 ws n = []"
| "free_chain (Suc k) ws n = (if n = 0 then [] else n # free_chain k ws (u32_at (ws_page ws n) FREE_NEXT))"

definition free_pages :: "workspace \<Rightarrow> 32 word list" where
  "free_pages ws = free_chain (unat (ws_next ws)) ws (ws_free ws)"

fun linked :: "workspace \<Rightarrow> 32 word \<Rightarrow> 32 word list \<Rightarrow> bool" where
  "linked ws n [] \<longleftrightarrow> n = 0"
| "linked ws n (x # xs) \<longleftrightarrow> n = x \<and> x \<noteq> 0 \<and> allocated ws x \<and> u32_at (ws_page ws x) 0 = FREE_MAGIC
     \<and> u64_at (ws_page ws x) FREE_TXN = ws_txn ws \<and> linked ws (u32_at (ws_page ws x) FREE_NEXT) xs"

definition ws_ok :: "workspace \<Rightarrow> bool" where
  "ws_ok ws \<longleftrightarrow> live_map (ws_mapping ws) \<and> mp_access (ws_mapping ws) = ReadWrite \<and> mp_unreadable (ws_mapping ws) = None
    \<and> unat (ws_limit ws) * PAGE_SIZE = mp_len (ws_mapping ws) \<and> ws_txn ws \<noteq> 0
    \<and> 2 \<le> ws_first ws \<and> ws_first ws \<le> ws_next ws \<and> ws_next ws \<le> ws_limit ws \<and> unat (ws_next ws) \<le> 2 ^ 32
    \<and> linked ws (ws_free ws) (free_pages ws) \<and> distinct (free_pages ws)"

definition ws_heap :: "workspace \<Rightarrow> heap" where
  "ws_heap ws = \<lparr> hp_txn = ws_txn ws, hp_page = ws_page ws,
     hp_own = {n. allocated ws n} - set (free_pages ws), hp_priv = {n. allocated ws n} - set (free_pages ws) \<rparr>"

definition ws_room :: "workspace \<Rightarrow> nat" where
  "ws_room ws = min (unat (ws_limit ws)) (2 ^ 32) - unat (ws_next ws) + length (free_pages ws)"

definition workspace_view :: "workspace store_view" where
  "workspace_view = \<lparr> heap_of = ws_heap, valid = ws_ok, room = ws_room \<rparr>"

lemma workspace_view_simps [simp]:
  "heap_of workspace_view = ws_heap" "valid workspace_view = ws_ok" "room workspace_view = ws_room"
  by (simp_all add: workspace_view_def)

lemma ws_heap_simps [simp]:
  "hp_txn (ws_heap ws) = ws_txn ws" "hp_page (ws_heap ws) = ws_page ws"
  "hp_own (ws_heap ws) = {n. allocated ws n} - set (free_pages ws)"
  "hp_priv (ws_heap ws) = {n. allocated ws n} - set (free_pages ws)"
  by (simp_all add: ws_heap_def)

section \<open>The free list\<close>

lemma free_chain_linked: "linked ws n fl \<Longrightarrow> length fl \<le> k \<Longrightarrow> free_chain k ws n = fl"
proof (induction fl arbitrary: n k)
  case Nil
  thus ?case by (cases k) auto
next
  case (Cons x xs)
  then obtain j where "k = Suc j" by (cases k) auto
  thus ?case using Cons by auto
qed

lemma linked_allocated: "linked ws n fl \<Longrightarrow> x \<in> set fl \<Longrightarrow> allocated ws x"
  by (induction fl arbitrary: n) auto

lemma linked_cong:
  assumes "linked ws n fl" "\<And>x. x \<in> set fl \<Longrightarrow> allocated ws' x \<and> ws_page ws' x = ws_page ws x" "ws_txn ws' = ws_txn ws"
  shows "linked ws' n fl"
  using assms by (induction fl arbitrary: n) auto

lemma allocated_unat: "allocated ws n \<Longrightarrow> unat n \<in> {unat (ws_first ws)..<unat (ws_next ws)}"
  by (simp add: allocated_def word_le_nat_alt word_less_nat_alt)

lemma chain_length:
  assumes "linked ws n fl" "distinct fl"
  shows "length fl \<le> unat (ws_next ws)"
proof -
  have "unat ` set fl \<subseteq> {..<unat (ws_next ws)}" using linked_allocated [OF assms(1)] allocated_unat by fastforce
  hence "card (unat ` set fl) \<le> unat (ws_next ws)" using card_mono [of "{..<unat (ws_next ws)}" "unat ` set fl"] by simp
  moreover have "card (unat ` set fl) = length fl"
    using assms(2) by (simp add: card_image distinct_card inj_on_def word_unat_eq_iff)
  ultimately show ?thesis by simp
qed

text \<open>The free pages of a workspace are determined by any well-linked list of them.\<close>

lemma free_pages_eq: "linked ws (ws_free ws) fl \<Longrightarrow> distinct fl \<Longrightarrow> free_pages ws = fl"
  using chain_length free_chain_linked by (simp add: free_pages_def)

lemma ws_okI:
  assumes "live_map (ws_mapping ws)" "mp_access (ws_mapping ws) = ReadWrite" "mp_unreadable (ws_mapping ws) = None"
    "unat (ws_limit ws) * PAGE_SIZE = mp_len (ws_mapping ws)" "ws_txn ws \<noteq> 0"
    "2 \<le> ws_first ws" "ws_first ws \<le> ws_next ws" "ws_next ws \<le> ws_limit ws" "unat (ws_next ws) \<le> 2 ^ 32"
    "linked ws (ws_free ws) fl" "distinct fl"
  shows "ws_ok ws"
  using assms free_pages_eq [OF assms(10,11)] by (simp add: ws_ok_def)

section \<open>Pages of a workspace\<close>

lemma ws_page_in: "ws_ok ws \<Longrightarrow> allocated ws n \<Longrightarrow> page_in (ws_mapping ws) (ws_next ws) n"
proof -
  assume a: "ws_ok ws" "allocated ws n"
  have l: "unat (ws_limit ws) * PAGE_SIZE = mp_len (ws_mapping ws)" "ws_next ws \<le> ws_limit ws" using a(1) by (simp_all add: ws_ok_def)
  have "unat (ws_next ws) * PAGE_SIZE \<le> mp_len (ws_mapping ws)"
    unfolding l(1) [symmetric] by (intro mult_le_mono1) (use l(2) in \<open>simp add: word_le_nat_alt\<close>)
  thus ?thesis using a by (simp add: page_in_def allocated_def)
qed

lemma require_allocated_iff: "require_allocated ws n = Inr u \<longleftrightarrow> allocated ws n"
  by (auto simp: require_allocated_def allocated_def not_le not_less)

lemma require_allocated_ok: "allocated ws n \<Longrightarrow> require_allocated ws n = Inr ()"
  by (simp add: require_allocated_iff)

lemma ws_live: "ws_ok ws \<Longrightarrow> live_map (ws_mapping ws) \<and> mp_access (ws_mapping ws) = ReadWrite \<and> mp_unreadable (ws_mapping ws) = None"
  by (simp add: ws_ok_def)

lemma length_ws_page: "ws_ok ws \<Longrightarrow> allocated ws n \<Longrightarrow> length (ws_page ws n) = PAGE_SIZE"
  using length_page_bytes ws_page_in ws_live by blast

lemma workspace_reads:
  assumes "ws_ok ws" "allocated ws n"
  shows "workspace_inspect ws n = Inr (ws_page ws n)" "workspace_update ws n = Inr (ws_page ws n)"
  using map_page_in [OF _ ws_page_in [OF assms]] map_page_mut_in [OF _ ws_page_in [OF assms]] ws_live [OF assms(1)]
    require_allocated_ok [OF assms(2)]
  by (simp_all add: workspace_inspect_def workspace_update_def)

lemma workspace_put_fields [simp]:
  "ws_first (workspace_put ws n p) = ws_first ws" "ws_limit (workspace_put ws n p) = ws_limit ws"
  "ws_next (workspace_put ws n p) = ws_next ws" "ws_free (workspace_put ws n p) = ws_free ws"
  "ws_txn (workspace_put ws n p) = ws_txn ws" "allocated (workspace_put ws n p) = allocated ws"
  by (simp_all add: workspace_put_def allocated_def fun_eq_iff)

lemma ws_page_put:
  assumes "ws_ok ws" "allocated ws n" "allocated ws k" "length p = PAGE_SIZE"
  shows "ws_page (workspace_put ws n p) k = (if k = n then p else ws_page ws k)"
  using page_bytes_put [OF _ ws_page_in ws_page_in] assms ws_live [OF assms(1)] by (simp add: workspace_put_def)

lemma workspace_put_live:
  assumes "ws_ok ws" "allocated ws n" "length p = PAGE_SIZE"
  shows "live_map (ws_mapping (workspace_put ws n p))" "mp_access (ws_mapping (workspace_put ws n p)) = ReadWrite"
    "mp_unreadable (ws_mapping (workspace_put ws n p)) = None" "mp_len (ws_mapping (workspace_put ws n p)) = mp_len (ws_mapping ws)"
  using live_map_put [OF _ ws_page_in [OF assms(1,2)] assms(3)] ws_live [OF assms(1)] by (simp_all add: workspace_put_def)

lemma workspace_put_ok:
  assumes w: "ws_ok ws" and n: "allocated ws n" "n \<notin> set (free_pages ws)" and p: "length p = PAGE_SIZE"
  shows "ws_ok (workspace_put ws n p)" "free_pages (workspace_put ws n p) = free_pages ws"
proof -
  let ?w = "workspace_put ws n p"
  have l: "linked ws (ws_free ws) (free_pages ws)" and d: "distinct (free_pages ws)" using w by (simp_all add: ws_ok_def)
  have l': "linked ?w (ws_free ?w) (free_pages ws)"
    by (rule linked_cong [of ws]) (use l linked_allocated [OF l] ws_page_put [OF w n(1) _ p] n(2) in auto)
  show f: "free_pages ?w = free_pages ws" by (rule free_pages_eq [OF l' d])
  show "ws_ok ?w"
    by (rule ws_okI [OF workspace_put_live(1-3) [OF w n(1) p] _ _ _ _ _ _ l' d])
      (use w workspace_put_live(4) [OF w n(1) p] in \<open>auto simp: ws_ok_def\<close>)
qed

section \<open>Allocation\<close>

lemma pop_free_ok:
  assumes w: "ws_ok ws" and f: "free_pages ws = x # fl"
  shows "pop_free ws = Inr (ws \<lparr> ws_free := u32_at (ws_page ws x) FREE_NEXT \<rparr>, x)"
    "ws_ok (ws \<lparr> ws_free := u32_at (ws_page ws x) FREE_NEXT \<rparr>)"
    "free_pages (ws \<lparr> ws_free := u32_at (ws_page ws x) FREE_NEXT \<rparr>) = fl"
proof -
  let ?w = "ws \<lparr> ws_free := u32_at (ws_page ws x) FREE_NEXT \<rparr>"
  have l: "linked ws (ws_free ws) (x # fl)" and d: "distinct (x # fl)" using w f by (simp_all add: ws_ok_def)
  have x: "ws_free ws = x" "allocated ws x" "x \<noteq> 0" using l by auto
  have pg: "map_page (ws_mapping ws) x (ws_next ws) = Inr (ws_page ws x)"
    using map_page_in [OF _ ws_page_in [OF w x(2)]] ws_live [OF w] by simp
  have rest: "linked ws (u32_at (ws_page ws x) FREE_NEXT) fl" using l by simp
  have fol: "u32_at (ws_page ws x) FREE_NEXT = 0 \<or> u32_at (ws_page ws x) FREE_NEXT \<noteq> x \<and> allocated ws (u32_at (ws_page ws x) FREE_NEXT)"
    using rest d by (cases fl) auto
  have len: "length (ws_page ws x) = PAGE_SIZE" by (rule length_ws_page [OF w x(2)])
  show "pop_free ws = Inr (?w, x)"
    using pg l len fol require_allocated_ok [OF x(2)] x
    by (auto simp: pop_free_def Let_def page_simps PAGE_SIZE_def usize_max_def FREE_NEXT_def FREE_TXN_def allocated_def not_le not_less)
  have a: "allocated ?w = allocated ws" by (simp add: allocated_def fun_eq_iff)
  have l': "linked ?w (ws_free ?w) fl"
    by (rule linked_cong [of ws]) (use rest linked_allocated [OF rest] a in auto)
  show "free_pages ?w = fl" by (rule free_pages_eq [OF l']) (use d in simp)
  show "ws_ok ?w" by (rule ws_okI [OF _ _ _ _ _ _ _ _ _ l']) (use w d in \<open>auto simp: ws_ok_def\<close>)
qed

lemma workspace_allocate_ok:
  assumes w: "ws_ok ws"
  shows "rwp (workspace_allocate ws) (\<lambda>(ws', n). ws_ok ws' \<and> grows (ws_heap ws) (ws_heap ws') {} {n}
    \<and> ws_room ws = Suc (ws_room ws')) (ws_room ws = 0)"
proof (cases "free_pages ws")
  case (Cons x fl)
  note p = pop_free_ok [OF w Cons]
  let ?w = "ws \<lparr> ws_free := u32_at (ws_page ws x) FREE_NEXT \<rparr>"
  have l: "linked ws (ws_free ws) (x # fl)" "distinct (x # fl)" using w Cons by (simp_all add: ws_ok_def)
  have "allocated ?w = allocated ws" by (simp add: allocated_def fun_eq_iff)
  hence "grows (ws_heap ws) (ws_heap ?w) {} {x}" "ws_room ws = Suc (ws_room ?w)"
    using l p(3) Cons linked_allocated [OF l(1)] by (auto simp: grows_def ws_room_def)
  thus ?thesis using p(1,2) l(1) by (simp add: workspace_allocate_def)
next
  case Nil
  have f: "ws_free ws = 0" using w Nil by (simp add: ws_ok_def)
  show ?thesis
  proof (cases "ws_next ws = ws_limit ws \<or> 2 ^ 32 \<le> unat (ws_next ws)")
    case True
    hence "ws_room ws = 0" using Nil by (auto simp: ws_room_def)
    thus ?thesis using True f by (auto simp: workspace_allocate_def)
  next
    case False
    let ?w = "ws \<lparr> ws_next := ws_next ws + 1 \<rparr>" and ?n = "ucast (ws_next ws) :: 32 word"
    have o: "ws_next ws < ws_limit ws" "unat (ws_next ws) < 2 ^ 32" using w False by (auto simp: ws_ok_def)
    have un: "unat (ws_next ws + 1) = Suc (unat (ws_next ws))"
      using o(2) by (simp add: unat_word_ariths)
    have nn: "unat ?n = unat (ws_next ws)" using o(2) by (simp add: unat_ucast)
    have al: "allocated ?w k \<longleftrightarrow> allocated ws k \<or> k = ?n" for k
      using w nn un by (auto simp: allocated_def word_less_nat_alt word_le_nat_alt ws_ok_def word_unat_eq_iff)
    have new: "\<not> allocated ws ?n" using nn by (simp add: allocated_def word_less_nat_alt)
    have lk: "linked ?w (ws_free ?w) []" using f by simp
    have fp: "free_pages ?w = []" by (rule free_pages_eq [OF lk]) simp
    have "ws_ok ?w"
      by (rule ws_okI [OF _ _ _ _ _ _ _ _ _ lk]) (use w o un in \<open>auto simp: ws_ok_def word_le_nat_alt word_less_nat_alt\<close>)
    moreover have "grows (ws_heap ws) (ws_heap ?w) {} {?n}" using al new fp Nil by (auto simp: grows_def)
    moreover have "ws_room ws = Suc (ws_room ?w)" using fp Nil un o by (simp add: ws_room_def word_less_nat_alt)
    ultimately show ?thesis using f False by (simp add: workspace_allocate_def)
  qed
qed

section \<open>Giving pages back\<close>

lemma workspace_discard_links:
  assumes w: "ws_ok ws" and n: "allocated ws n" "n \<notin> set (free_pages ws)" and o: "owned_by (ws_page ws n) (ws_txn ws)"
  shows "\<exists>ws'. workspace_discard ws n = Inr ws' \<and> ws_ok ws' \<and> shrinks (ws_heap ws) (ws_heap ws') {} {n}
    \<and> free_pages ws' = n # free_pages ws \<and> ws_free ws' = n \<and> allocated ws' = allocated ws \<and> ws_room ws' = Suc (ws_room ws)"
proof -
  let ?p1 = "wr (ws_page ws n) 0 (to_le_bytes FREE_MAGIC)"
  let ?p2 = "wr ?p1 FREE_NEXT (to_le_bytes (ws_free ws))"
  let ?p3 = "wr ?p2 FREE_TXN (to_le_bytes (ws_txn ws))"
  let ?w = "(workspace_put ws n ?p3) \<lparr> ws_free := n \<rparr>"
  have l: "linked ws (ws_free ws) (free_pages ws)" "distinct (free_pages ws)" using w by (simp_all add: ws_ok_def)
  have len: "length (ws_page ws n) = PAGE_SIZE" by (rule length_ws_page [OF w n(1)])
  have len3: "length ?p3 = PAGE_SIZE" using len by (simp add: PAGE_SIZE_def FREE_NEXT_def FREE_TXN_def)
  have n0: "n \<noteq> 0" "n \<noteq> ws_free ws"
  proof -
    show "n \<noteq> 0" using w n(1) by (auto simp: ws_ok_def allocated_def word_le_nat_alt)
    thus "n \<noteq> ws_free ws" using l(1) n(2) by (cases "free_pages ws") auto
  qed
  have d: "workspace_discard ws n = Inr ?w"
    using require_allocated_ok [OF n(1)] map_page_mut_in [OF _ ws_page_in [OF w n(1)]] ws_live [OF w] n0 o len
    by (simp add: workspace_discard_def page_simps PAGE_SIZE_def FREE_NEXT_def FREE_TXN_def)
  have al: "allocated ?w = allocated ws" by (simp add: allocated_def fun_eq_iff)
  have pg: "ws_page ?w k = (if k = n then ?p3 else ws_page ws k)" if "allocated ws k" for k
    using ws_page_put [OF w n(1) that len3] by simp
  have f: "u32_at ?p3 0 = FREE_MAGIC" "u32_at ?p3 FREE_NEXT = ws_free ws" "u64_at ?p3 FREE_TXN = ws_txn ws"
    using len by (simp_all add: byte_simps u32_at_def u64_at_def PAGE_SIZE_def FREE_NEXT_def FREE_TXN_def)
  have "linked ?w (ws_free ws) (free_pages ws)"
    by (rule linked_cong [of ws]) (use l linked_allocated [OF l(1)] pg al n(2) in auto)
  hence l': "linked ?w (ws_free ?w) (n # free_pages ws)" using n0 n(1) al pg [OF n(1)] f by simp
  have d': "distinct (n # free_pages ws)" using l(2) n(2) by simp
  have fp: "free_pages ?w = n # free_pages ws" by (rule free_pages_eq [OF l' d'])
  have "ws_ok ?w"
    by (rule ws_okI [OF _ _ _ _ _ _ _ _ _ l' d']) (use w workspace_put_live [OF w n(1) len3] in \<open>auto simp: ws_ok_def\<close>)
  moreover have "shrinks (ws_heap ws) (ws_heap ?w) {} {n}" using pg fp al by (auto simp: shrinks_def)
  moreover have "ws_room ?w = Suc (ws_room ws)" using fp by (simp add: ws_room_def)
  ultimately show ?thesis using d fp al by auto
qed

lemma workspace_discard_ok:
  assumes "ws_ok ws" "allocated ws n" "n \<notin> set (free_pages ws)" "owned_by (ws_page ws n) (ws_txn ws)"
  shows "\<exists>ws'. workspace_discard ws n = Inr ws' \<and> ws_ok ws' \<and> shrinks (ws_heap ws) (ws_heap ws') {} {n} \<and> ws_room ws \<le> ws_room ws'"
  using workspace_discard_links [OF assms] by fastforce

section \<open>The store contracts\<close>

lemma workspace_ops_simps [simp]:
  "target_txn workspace_ops = ws_txn" "page_limit workspace_ops = ws_next" "read_page workspace_ops = workspace_inspect"
  "allocate workspace_ops = workspace_allocate" "edit_page workspace_ops = workspace_update" "pair_pages workspace_ops = workspace_copy"
  "put_page workspace_ops = workspace_put" "discard_private workspace_ops = workspace_discard"
  "retire_pages workspace_ops = workspace_retire"
  "range_record_added workspace_ops = (\<lambda>self value. Inr self)" "range_record_removed workspace_ops = (\<lambda>self value. Inr self)"
  by (simp_all add: workspace_ops_def)

interpretation ws: store_laws workspace_ops workspace_view
proof
  fix st :: workspace and n m :: "32 word" and p :: bytes
  assume "valid workspace_view st"
  hence v: "ws_ok st" by simp
  show "target_txn workspace_ops st = hp_txn (heap_of workspace_view st)" "hp_txn (heap_of workspace_view st) \<noteq> 0"
    "hp_priv (heap_of workspace_view st) \<subseteq> hp_own (heap_of workspace_view st)"
    using v by (simp_all add: ws_ok_def)
  show "rwp (allocate workspace_ops st) (\<lambda>(st', n). valid workspace_view st'
      \<and> grows (heap_of workspace_view st) (heap_of workspace_view st') {} {n}
      \<and> room workspace_view st \<le> Suc (room workspace_view st')) (room workspace_view st = 0)"
    using workspace_allocate_ok [OF v] by (auto elim!: rwp_mono)
  show "pair_pages workspace_ops st n m = Inr (hp_page (heap_of workspace_view st) n, hp_page (heap_of workspace_view st) m)"
    if "n \<in> hp_own (heap_of workspace_view st)" "m \<in> hp_priv (heap_of workspace_view st)" "n \<noteq> m"
    using that map_page_pair_in [OF _ ws_page_in [OF v, of n] ws_page_in [OF v, of m]] ws_live [OF v]
      require_allocated_ok [of st n] require_allocated_ok [of st m]
    by (simp add: workspace_copy_def)
  show "\<exists>st'. discard_private workspace_ops st n = Inr st' \<and> valid workspace_view st'
      \<and> shrinks (heap_of workspace_view st) (heap_of workspace_view st') {} {n} \<and> room workspace_view st \<le> room workspace_view st'"
    if "n \<in> hp_priv (heap_of workspace_view st)" "owned_by (hp_page (heap_of workspace_view st) n) (hp_txn (heap_of workspace_view st))"
    using workspace_discard_ok [OF v, of n] that by simp
  show "read_page workspace_ops st n = Inr (hp_page (heap_of workspace_view st) n)"
    "2 \<le> n \<and> ucast n < page_limit workspace_ops st \<and> length (hp_page (heap_of workspace_view st) n) = PAGE_SIZE"
    if "n \<in> hp_own (heap_of workspace_view st)"
    using that workspace_reads(1) [OF v, of n] length_ws_page [OF v, of n] v
    by (auto simp: ws_ok_def allocated_def word_le_nat_alt)
  assume "n \<in> hp_priv (heap_of workspace_view st)"
  hence n: "allocated st n" "n \<notin> set (free_pages st)" by auto
  show "edit_page workspace_ops st n = Inr (hp_page (heap_of workspace_view st) n)"
    using workspace_reads(2) [OF v n(1)] by simp
  assume p: "length p = PAGE_SIZE"
  have "grows (ws_heap st) (ws_heap (workspace_put st n p)) {n} {}"
    using workspace_put_ok(2) [OF v n p] ws_page_put [OF v n(1) _ p] by (auto simp: grows_def)
  thus "valid workspace_view (put_page workspace_ops st n p)
      \<and> grows (heap_of workspace_view st) (heap_of workspace_view (put_page workspace_ops st n p)) {n} {}
      \<and> same_page p (hp_page (heap_of workspace_view (put_page workspace_ops st n p)) n)
      \<and> room workspace_view (put_page workspace_ops st n p) = room workspace_view st"
    using workspace_put_ok [OF v n p] ws_page_put [OF v n(1) n(1) p] p by (simp add: ws_room_def)
qed

section \<open>A new workspace\<close>

lemma workspace_new_ok:
  assumes m: "live_map m" "mp_access m = ReadWrite" "mp_unreadable m = None"
    and f: "2 \<le> first" "unat first \<le> 2 ^ 32" "txn \<noteq> 0" and w: "workspace_new m first limit txn = Inr ws"
  shows "ws_ok ws \<and> ws_room ws = min (unat limit) (2 ^ 32) - unat first \<and> hp_own (ws_heap ws) = {}"
proof -
  have b: "first \<le> limit" "unat limit * PAGE_SIZE < 2 ^ 64" "of_nat (mp_len m) = (limit * of_nat PAGE_SIZE :: 64 word)"
    and we: "ws = \<lparr> ws_mapping = m, ws_first = first, ws_limit = limit, ws_next = first, ws_free = 0, ws_txn = txn \<rparr>"
    using w by (auto simp: workspace_new_def checked_mul_def PAGE_SIZE_def not_less split: if_splits)
  have "mp_len m < 2 ^ 64" using m(1) by (simp add: live_map_def usize_max_def)
  hence "unat (of_nat (mp_len m) :: 64 word) = mp_len m" by (simp add: unat_of_nat)
  moreover have "unat (limit * of_nat PAGE_SIZE :: 64 word) = unat limit * PAGE_SIZE"
    using b(2) by (simp add: unat_word_ariths PAGE_SIZE_def)
  ultimately have len: "unat limit * PAGE_SIZE = mp_len m" using b(3) by simp
  have fr: "free_pages ws = []" by (rule free_pages_eq) (simp_all add: we)
  have "ws_ok ws" by (rule ws_okI [where fl = "[]"]) (use m f b(1) len in \<open>simp_all add: we\<close>)
  moreover have "\<not> allocated ws n" for n by (auto simp: allocated_def we)
  ultimately show ?thesis using fr by (auto simp: ws_room_def we)
qed

text \<open>A workspace of 2046 free pages.\<close>

definition sample_mapping :: mapping where
  "sample_mapping = \<lparr> mp_map = Some (replicate (2048 * PAGE_SIZE) 0), mp_len = 2048 * PAGE_SIZE,
     mp_access = ReadWrite, mp_unreadable = None \<rparr>"

definition sample_workspace :: workspace where
  "sample_workspace = \<lparr> ws_mapping = sample_mapping, ws_first = 2, ws_limit = 2048, ws_next = 2, ws_free = 0, ws_txn = 1 \<rparr>"

lemma sample_new: "workspace_new sample_mapping 2 2048 1 = Inr sample_workspace"
  by (simp add: workspace_new_def sample_workspace_def sample_mapping_def checked_mul_def PAGE_SIZE_def)

lemma sample_ok: "ws_ok sample_workspace" "ws_room sample_workspace = 2046"
  using workspace_new_ok [OF _ _ _ _ _ _ sample_new]
  by (simp_all add: sample_mapping_def live_map_def PAGE_SIZE_def usize_max_def)

end
