(* ===== verification/WorkspaceRanges.thy ===== *)
theory WorkspaceRanges
  imports RangeLookup WorkspaceStore
begin

text \<open>
  Range trees in a workspace: the contracts of the tree, of retirement and of the range store are
  discharged for the workspace and both address families, and with them every range operation
  runs on the workspace as a map update.
\<close>

section \<open>Interpretations\<close>

lemma workspace_range_laws:
  assumes v: "valid workspace_view st"
  shows "set rt \<subseteq> hp_own (heap_of workspace_view st) - hp_priv (heap_of workspace_view st) \<Longrightarrow>
      rwp (retire_pages workspace_ops st rt) (\<lambda>st'. valid workspace_view st'
        \<and> shrinks (heap_of workspace_view st) (heap_of workspace_view st') {} (set rt)
        \<and> room workspace_view st \<le> room workspace_view st' + 0) (room workspace_view st < 0)"
    "rwp (range_record_added workspace_ops st val) (\<lambda>st'. valid workspace_view st'
        \<and> grows (heap_of workspace_view st) (heap_of workspace_view st') {} {}
        \<and> room workspace_view st \<le> room workspace_view st' + 0) (room workspace_view st < 0)"
    "rwp (range_record_removed workspace_ops st val) (\<lambda>st'. valid workspace_view st'
        \<and> grows (heap_of workspace_view st) (heap_of workspace_view st') {} {}
        \<and> room workspace_view st \<le> room workspace_view st' + 0) (room workspace_view st < 0)"
proof -
  assume "set rt \<subseteq> hp_own (heap_of workspace_view st) - hp_priv (heap_of workspace_view st)"
  hence "rt = []" by auto
  thus "rwp (retire_pages workspace_ops st rt) (\<lambda>st'. valid workspace_view st'
        \<and> shrinks (heap_of workspace_view st) (heap_of workspace_view st') {} (set rt)
        \<and> room workspace_view st \<le> room workspace_view st' + 0) (room workspace_view st < 0)"
    using v by (simp add: workspace_retire_def)
qed (use v in simp_all)

interpretation w4: range_store ipv4_key to_le_bytes unat workspace_ops workspace_view 0
  by unfold_locales (erule workspace_range_laws; assumption)+

interpretation w6: range_store ipv6_key ipv6_enc ipv6_num workspace_ops workspace_view 0
  by unfold_locales (erule workspace_range_laws; assumption)+

section \<open>An empty range tree\<close>

lemma empty_range_tree: "ws_ok ws \<Longrightarrow> range_tree K enc workspace_view (ws, 0, 0) {} 0 []"
  by (simp add: range_tree_def tree_in_def canonical_def)

lemma start_reached:
  assumes "range_tree K enc V t P l rs" "l + i \<le> MAX_PATH" "n * 65 \<le> room V (fst t)"
  shows "reached K enc V 0 False (heap_of V (fst t)) P i n t rs"
  using assms by (auto simp: reached_def affords_def intro!: exI [of _ P])

lemma start_attempt: "range_tree K enc V t P l rs \<Longrightarrow> reached K enc V cost True (heap_of V (fst t)) P i n t rs"
  by (auto simp: reached_def affords_def intro!: exI [of _ P])

section \<open>Assignment\<close>

text \<open>C1. Assigning a value to an interval of an IPv4 range tree in a workspace with room for it returns, stores the
  map that has the value on the interval and is unchanged elsewhere, keeps the tree well formed, canonical and
  exactly counted, neither loses nor touches a page of another owner, and answers whether the map changed.\<close>

theorem assign_updates_map:
  assumes "range_tree ipv4_key to_le_bytes workspace_view t P l rs" "from \<le> to'" "l + 3 \<le> MAX_PATH"
    "(pending from to' rs + 10) * 65 \<le> ws_room (fst t)"
  shows "\<exists>t' ch P' l' rs'. assign ipv4_key workspace_ops t from to' v = Some (Inr (t', ch))
    \<and> range_tree ipv4_key to_le_bytes workspace_view t' P' l' rs' \<and> moved (ws_heap (fst t)) (ws_heap (fst t')) P P'
    \<and> value_at rs' = assigned from to' (Some v) (value_at rs) \<and> (ch \<longleftrightarrow> value_at rs' \<noteq> value_at rs)"
  using w4.replace_range_ok [OF start_reached [OF assms(1), of "0 + 3" "0 + pending from to' rs + 10"] assms(2), of "Some v"] assms(3,4)
  unfolding runs_False assign_def reached_def by fastforce

theorem assign_updates_map_witness:
  "\<exists>t' ch P' l' rs'. assign ipv4_key workspace_ops (sample_workspace, 0, 0) 10 20 7 = Some (Inr (t', ch))
    \<and> range_tree ipv4_key to_le_bytes workspace_view t' P' l' rs' \<and> moved (ws_heap sample_workspace) (ws_heap (fst t')) {} P'
    \<and> value_at rs' = assigned 10 20 (Some 7) (value_at []) \<and> (ch \<longleftrightarrow> value_at rs' \<noteq> value_at [])"
  using assign_updates_map [OF empty_range_tree [OF sample_ok(1)], of 10 20 7] sample_ok
  by (simp add: MAX_PATH_31 pending_def)

text \<open>C2. Clearing an interval of an IPv6 range tree removes it from the map and nothing else, and answers whether
  an address lost its value.\<close>

theorem clear_removes_interval:
  assumes "range_tree ipv6_key ipv6_enc workspace_view t P l rs" "from \<le> to'" "l + 3 \<le> MAX_PATH"
    "(pending from to' rs + 10) * 65 \<le> ws_room (fst t)"
  shows "\<exists>t' ch P' l' rs'. clear ipv6_key workspace_ops t from to' = Some (Inr (t', ch))
    \<and> range_tree ipv6_key ipv6_enc workspace_view t' P' l' rs' \<and> moved (ws_heap (fst t)) (ws_heap (fst t')) P P'
    \<and> value_at rs' = (\<lambda>a. if between from to' a then None else value_at rs a)
    \<and> (ch \<longleftrightarrow> (\<exists>a. between from to' a \<and> value_at rs a \<noteq> None))"
  using w6.replace_range_ok [OF start_reached [OF assms(1), of "0 + 3" "0 + pending from to' rs + 10"] assms(2), of None] assms(3,4)
  unfolding runs_False clear_def reached_def assigned_none_differs [symmetric] unfolding assigned_def by fastforce

theorem clear_removes_interval_witness:
  "\<exists>t' ch P' l' rs'. clear ipv6_key workspace_ops (sample_workspace, 0, 0) (Ipv6Key 1 2) (Ipv6Key 3 0) = Some (Inr (t', ch))
    \<and> range_tree ipv6_key ipv6_enc workspace_view t' P' l' rs' \<and> \<not> ch"
  using clear_removes_interval [OF empty_range_tree [OF sample_ok(1)], of "Ipv6Key 1 2" "Ipv6Key 3 0"] sample_ok
  by (simp add: MAX_PATH_31 pending_def less_eq_ipv6_def value_at_def) blast

section \<open>Transformation\<close>

lemma operates_always:
  assumes "operates V u True I operation R"
  shows "operates V u False I (\<lambda>st v. case operation st v of Inr x \<Rightarrow> Inr x | Inl _ \<Rightarrow> Inr (st, v)) (\<lambda>_ _. True)"
  unfolding operates_def
proof (intro conjI allI impI)
  fix st F v assume v: "valid V st" "I st F"
  have o: "rwp (operation st v) (\<lambda>(st', v'). R v v' \<and> valid V st' \<and> (\<exists>F'. I st' F' \<and> moved (heap_of V st) (heap_of V st') F F')
      \<and> room V st \<le> room V st' + u * 65) (True \<or> room V st < u * 65)"
    by (rule conjunct1 [OF assms [unfolded operates_def], rule_format, OF v])
  show "rwp (case operation st v of Inr x \<Rightarrow> Inr x | Inl _ \<Rightarrow> Inr (st, v)) (\<lambda>(st', v'). True \<and> valid V st'
      \<and> (\<exists>F'. I st' F' \<and> moved (heap_of V st) (heap_of V st') F F') \<and> room V st \<le> room V st' + u * 65) (False \<or> room V st < u * 65)"
  proof (cases "operation st v")
    case (Inl e)
    show ?thesis unfolding Inl using v moved_refl by (auto intro!: exI [of _ F])
  next
    case (Inr x)
    thus ?thesis using o by (cases x) simp
  qed
qed (use assms in \<open>auto simp: operates_def\<close>)

text \<open>C3. Transforming an interval with an operation that may change the store, but no page of the tree, and may fail: the call returns, and
  unless it reports an error every address of the interval has a value that the operation returned for its old one, every other
  address is unchanged, the tree is well formed, canonical and exactly counted, the operation's pages hold what it keeps in them, no page
  of a third party is lost or touched, and the answer says whether the map changed. When the path limit of 31 levels leaves three levels and the
  workspace leaves room for each maximal run of equal values in the interval, an error is one that the operation raised.\<close>

theorem transform_applies_operation:
  assumes "range_tree ipv4_key to_le_bytes workspace_view t P l rs" "from \<le> to'"
    "operates workspace_view u True I operation R" "I (fst t) F" "F \<inter> P = {}"
  shows "\<exists>r. transform ipv4_key workspace_ops t from to' operation = Some r \<and> (\<forall>t' ch. r = Inr (t', ch) \<longrightarrow>
    (\<exists>P' l' rs' F'. range_tree ipv4_key to_le_bytes workspace_view t' P' l' rs' \<and> I (fst t') F' \<and> F' \<inter> P' = {}
      \<and> moved (ws_heap (fst t)) (ws_heap (fst t')) (P \<union> F) (P' \<union> F')
      \<and> transforms from to' R (value_at rs) (value_at rs') \<and> (ch \<longleftrightarrow> value_at rs' \<noteq> value_at rs)))
    \<and> (let k = Suc (card (breaks ipv4_key (value_at rs) from to')) in l + 3 * k \<le> MAX_PATH \<longrightarrow> (u + 11) * k * 65 \<le> ws_room (fst t) \<longrightarrow>
        (\<forall>e. r = Inl e \<longrightarrow> (\<exists>st v. operation st v = Inl e)))"
proof -
  let ?k = "Suc (card (breaks ipv4_key (value_at rs) from to'))"
  let ?b = "\<lambda>E. tree_beside ipv4_key to_le_bytes workspace_view 0 I E (ws_heap (fst t)) (P \<union> F)"
  have b: "?b E (0 + 3 * ?k) (0 + (u + 11) * ?k) t rs"
    if "E \<or> l + 3 * ?k \<le> MAX_PATH \<and> (u + 11) * ?k * 65 \<le> ws_room (fst t)" for E
    unfolding tree_beside_def affords_def using assms(1,4,5) that moved_refl by fastforce
  obtain r where r: "transform ipv4_key workspace_ops t from to' operation = Some r"
    "rwp r (\<lambda>(t', ch). \<exists>rs'. ?b True 0 0 t' rs' \<and> transforms from to' R (value_at rs) (value_at rs') \<and> (ch \<longleftrightarrow> value_at rs' \<noteq> value_at rs)) True"
    using w4.transform_ok [OF assms(3,2) b] unfolding runs_def by (auto split: option.splits)
  have "\<exists>st v. operation st v = Inl e" if c: "l + 3 * ?k \<le> MAX_PATH" "(u + 11) * ?k * 65 \<le> ws_room (fst t)" "r = Inl e" for e
  proof (rule ccontr)
    assume n: "\<nexists>st v. operation st v = Inl e"
    let ?op = "\<lambda>st v. case operation st v of Inr x \<Rightarrow> Inr x | Inl _ \<Rightarrow> Inr (st, v)"
    have "transform_loop ipv4_key workspace_ops operation to' t from False = Some (Inl e)" using r(1) c(3) assms(2) by (simp add: transform_def leD)
    hence "transform_loop ipv4_key workspace_ops ?op to' t from False = Some (Inl e)"
      by (rule transform_loop_error [rotated 2]) (use n in auto)
    hence "transform ipv4_key workspace_ops t from to' ?op = Some (Inl e)" using assms(2) by (simp add: transform_def leD)
    thus False using w4.transform_ok [OF operates_always [OF assms(3)] assms(2) b] c(1,2) by (simp add: runs_False)
  qed
  moreover have "\<exists>P' l' rs' F'. range_tree ipv4_key to_le_bytes workspace_view t' P' l' rs' \<and> I (fst t') F' \<and> F' \<inter> P' = {}
      \<and> moved (ws_heap (fst t)) (ws_heap (fst t')) (P \<union> F) (P' \<union> F')
      \<and> transforms from to' R (value_at rs) (value_at rs') \<and> (ch \<longleftrightarrow> value_at rs' \<noteq> value_at rs)" if "r = Inr (t', ch)" for t' ch
    using r(2) [unfolded that rwp_def] by (simp add: tree_beside_def) metis
  ultimately show ?thesis unfolding Let_def using r(1) by blast
qed

text \<open>An operation that allocates a page and returns its number, and refuses the value 9.\<close>

definition example_operation :: "workspace value_operation" where
  "example_operation st v = (if v = Some 9 then Inl (Corrupt ''refused'') else rmap (\<lambda>(st, n). (st, Some n)) (allocate workspace_ops st))"

lemma example_operates:
  "operates workspace_view 1 True (\<lambda>st F. F \<subseteq> hp_own (ws_heap st)) example_operation (\<lambda>_ v. v \<noteq> None)"
  unfolding operates_def
proof (intro conjI allI impI)
  fix st F v assume st: "valid workspace_view st" "F \<subseteq> hp_own (ws_heap st)"
  have "rwp (allocate workspace_ops st) (\<lambda>(st', n). valid workspace_view st'
      \<and> grows (heap_of workspace_view st) (heap_of workspace_view st') {} {n} \<and> room workspace_view st \<le> Suc (room workspace_view st')) (room workspace_view st = 0)"
    by (rule ws.alloc [OF st(1)])
  hence a: "ws_ok st' \<and> grows (ws_heap st) (ws_heap st') {} {n} \<and> ws_room st \<le> Suc (ws_room st')" if "allocate workspace_ops st = Inr (st', n)" for st' n
    using that by simp
  have m: "insert n F \<subseteq> hp_own h' \<and> moved (ws_heap st) h' F (insert n F)" if g: "grows (ws_heap st) h' {} {n}" for h' n
  proof -
    have "hp_own h' = hp_own (ws_heap st) \<union> {n}" "n \<notin> hp_own (ws_heap st)" using g by (auto simp: grows_def)
    thus ?thesis using st(2) grows_keeps [OF g, of "- F"] by (auto simp: moved_def simp del: ws_heap_simps)
  qed
  show "rwp (example_operation st v) (\<lambda>(st', v'). v' \<noteq> None \<and> valid workspace_view st'
      \<and> (\<exists>F'. F' \<subseteq> hp_own (ws_heap st') \<and> moved (heap_of workspace_view st) (heap_of workspace_view st') F F')
      \<and> room workspace_view st \<le> room workspace_view st' + 1 * 65) (True \<or> room workspace_view st < 1 * 65)"
  proof (cases "example_operation st v")
    case (Inr x)
    then obtain st' n where x: "x = (st', Some n)" "allocate workspace_ops st = Inr (st', n)"
      by (auto simp: example_operation_def result_simps simp del: workspace_ops_simps split: if_splits)
    show ?thesis unfolding Inr x(1) using a [OF x(2)] m [of "ws_heap st'" n] by (auto intro!: exI [of _ "insert n F"] simp del: ws_heap_simps)
  qed simp
qed (auto simp: keeps_def simp del: ws_heap_simps)

theorem transform_applies_operation_witness:
  "\<exists>r. transform ipv4_key workspace_ops (sample_workspace, 0, 0) 10 20 example_operation = Some r
    \<and> (\<forall>t' ch. r = Inr (t', ch) \<longrightarrow> ch) \<and> (\<forall>e. r = Inl e \<longrightarrow> (\<exists>st v. example_operation st v = Inl e))"
proof -
  have b: "breaks ipv4_key (value_at []) 10 20 = {}" by (simp add: breaks_def value_at_def)
  have d: "value_at rs' \<noteq> value_at []" if "transforms (10 :: ipv4) 20 (\<lambda>_ v. v \<noteq> None) (value_at []) (value_at rs')" for rs'
  proof -
    have "between 10 20 (10 :: ipv4)" by (simp add: between_def)
    hence "value_at rs' (10 :: ipv4) \<noteq> None" using that unfolding transforms_def by metis
    thus ?thesis by (auto simp: value_at_def dest!: fun_cong [of _ _ 10])
  qed
  show ?thesis
    using transform_applies_operation [OF empty_range_tree [OF sample_ok(1)] _ example_operates, of 10 20 "{}"] sample_ok(2) b d
    by (fastforce simp: MAX_PATH_31 Let_def)
qed

section \<open>Reading back\<close>

text \<open>C4. After an assignment a lookup answers the assigned value inside the interval and the old value of the map
  outside it.\<close>

theorem lookup_after_assign:
  assumes "range_tree ipv4_key to_le_bytes workspace_view t P l rs" "from \<le> to'" "l + 3 \<le> MAX_PATH"
    "(pending from to' rs + 10) * 65 \<le> ws_room (fst t)"
  shows "\<exists>st root count ch. assign ipv4_key workspace_ops t from to' v = Some (Inr ((st, root, count), ch))
    \<and> (\<forall>a. range_lookup ipv4_key (store_source workspace_ops st) Ipv4 root a
        = Inr (if between from to' a then Some v else value_at rs a))"
proof -
  obtain st root cnt ch P' l' rs' where
    a: "assign ipv4_key workspace_ops t from to' v = Some (Inr ((st, root, cnt), ch))"
    and r: "range_tree ipv4_key to_le_bytes workspace_view (st, root, cnt) P' l' rs'"
      "value_at rs' = assigned from to' (Some v) (value_at rs)"
    using w4.replace_range_ok [OF start_reached [OF assms(1), of "0 + 3" "0 + pending from to' rs + 10"] assms(2), of "Some v"] assms(3,4)
    unfolding runs_False assign_def reached_def by fastforce
  have "FAMILY ipv4_key = Ipv4" by (simp add: ipv4_key_def)
  thus ?thesis using a w4.range_lookup_ok [OF r(1)] r(2) by (auto simp: assigned_def)
qed

theorem lookup_after_assign_witness:
  "\<exists>st root count ch. assign ipv4_key workspace_ops (sample_workspace, 0, 0) 10 20 7 = Some (Inr ((st, root, count), ch))
    \<and> range_lookup ipv4_key (store_source workspace_ops st) Ipv4 root 20 = Inr (Some 7)
    \<and> range_lookup ipv4_key (store_source workspace_ops st) Ipv4 root 21 = Inr None"
  using lookup_after_assign [OF empty_range_tree [OF sample_ok(1)], of 10 20 7] sample_ok
  by (fastforce simp: MAX_PATH_31 pending_def between_def value_at_def)

text \<open>C5. A cursor opened after an assignment ends, having returned every record once in the order of its direction,
  and the records are the canonical list of the new map: sorted, disjoint, with no two adjacent records of one value.\<close>

theorem scan_after_assign:
  assumes "range_tree ipv6_key ipv6_enc workspace_view t P l rs" "from \<le> to'" "l + 3 \<le> MAX_PATH"
    "(pending from to' rs + 10) * 65 \<le> ws_room (fst t)"
  shows "\<exists>st root count ch rs'. assign ipv6_key workspace_ops t from to' v = Some (Inr ((st, root, count), ch))
    \<and> canonical ipv6_key rs' \<and> value_at rs' = assigned from to' (Some v) (value_at rs) \<and> unat count = length rs'
    \<and> (\<forall>dir. \<exists>self. cursor_new (range_codec ipv6_key) (store_source workspace_ops st) root dir = Inr self
      \<and> drain (range_codec ipv6_key) (store_source workspace_ops st) (read_leaf_item (range_codec ipv6_key)) (Suc (length rs')) self
        = Some (case dir of Forward \<Rightarrow> rs' | Backward \<Rightarrow> rev rs'))"
proof -
  obtain st root cnt ch P' l' rs' where
    a: "assign ipv6_key workspace_ops t from to' v = Some (Inr ((st, root, cnt), ch))"
    and r: "range_tree ipv6_key ipv6_enc workspace_view (st, root, cnt) P' l' rs'"
      "value_at rs' = assigned from to' (Some v) (value_at rs)"
    using w6.replace_range_ok [OF start_reached [OF assms(1), of "0 + 3" "0 + pending from to' rs + 10"] assms(2), of "Some v"] assms(3,4)
    unfolding runs_False assign_def reached_def by fastforce
  have "value_at rs' from = Some v" using assms(2) by (simp add: r(2) assigned_def between_def)
  hence "rs' \<noteq> []" by (auto simp: value_at_def)
  thus ?thesis using a r w6.range_scan_ok [OF r(1)] by (fastforce simp: range_tree_def)
qed

theorem scan_after_assign_witness:
  "\<exists>st root count ch rs'. assign ipv6_key workspace_ops (sample_workspace, 0, 0) (Ipv6Key 1 2) (Ipv6Key 3 0) 9 = Some (Inr ((st, root, count), ch))
    \<and> value_at rs' (Ipv6Key 2 5) = Some 9
    \<and> (\<exists>self. cursor_new (range_codec ipv6_key) (store_source workspace_ops st) root Backward = Inr self
      \<and> drain (range_codec ipv6_key) (store_source workspace_ops st) (read_leaf_item (range_codec ipv6_key)) (Suc (length rs')) self = Some (rev rs'))"
proof -
  have b: "between (Ipv6Key 1 2) (Ipv6Key 3 0) (Ipv6Key 2 5)" by (simp add: between_def less_eq_ipv6_def)
  have o: "Ipv6Key 1 2 \<le> Ipv6Key 3 0" by (simp add: less_eq_ipv6_def)
  obtain st root cnt ch rs' where
    a: "assign ipv6_key workspace_ops (sample_workspace, 0, 0) (Ipv6Key 1 2) (Ipv6Key 3 0) 9 = Some (Inr ((st, root, cnt), ch))"
    and v: "value_at rs' = assigned (Ipv6Key 1 2) (Ipv6Key 3 0) (Some 9) (value_at [])"
    and d: "\<forall>dir. \<exists>self. cursor_new (range_codec ipv6_key) (store_source workspace_ops st) root dir = Inr self
      \<and> drain (range_codec ipv6_key) (store_source workspace_ops st) (read_leaf_item (range_codec ipv6_key)) (Suc (length rs')) self
        = Some (case dir of Forward \<Rightarrow> rs' | Backward \<Rightarrow> rev rs')"
    using scan_after_assign [OF empty_range_tree [OF sample_ok(1)] o, of 9] sample_ok by (auto simp: MAX_PATH_31 pending_def)
  have "value_at rs' (Ipv6Key 2 5) = Some 9" using b by (simp add: v assigned_def)
  thus ?thesis using a d [THEN spec, of Backward, unfolded direction.case] by blast
qed

text \<open>C6. The records of a tree are determined by its map: two trees of one map, whatever operations built them, in
  whatever workspace, hold the same records in the same order.\<close>

theorem records_determined_by_map:
  assumes "range_tree ipv6_key ipv6_enc workspace_view t P l rs" "range_tree ipv6_key ipv6_enc workspace_view t' P' l' rs'"
    "\<forall>a. range_lookup ipv6_key (store_source workspace_ops (fst t)) Ipv6 (fst (snd t)) a
       = range_lookup ipv6_key (store_source workspace_ops (fst t')) Ipv6 (fst (snd t')) a"
  shows "rs = rs' \<and> snd (snd t) = snd (snd t')"
proof -
  have "FAMILY ipv6_key = Ipv6" by (simp add: ipv6_key_def)
  hence "value_at rs = value_at rs'"
    using assms(3) w6.range_lookup_ok [OF assms(1)] w6.range_lookup_ok [OF assms(2)] by (auto simp: fun_eq_iff)
  hence "rs = rs'" using k6.canonical_unique assms(1,2) by (auto simp: range_tree_def)
  thus ?thesis using assms(1,2) by (auto simp: range_tree_def word_unat_eq_iff)
qed

lemma two_assignments:
  "\<exists>t1 ch1 t2 ch2 P l rs. assign ipv6_key workspace_ops (sample_workspace, 0, 0) (Ipv6Key 0 5) (Ipv6Key 0 10) 7 = Some (Inr (t1, ch1))
    \<and> assign ipv6_key workspace_ops t1 (Ipv6Key 0 11) (Ipv6Key 1 0) 7 = Some (Inr (t2, ch2))
    \<and> range_tree ipv6_key ipv6_enc workspace_view t2 P l rs
    \<and> value_at rs = assigned (Ipv6Key 0 5) (Ipv6Key 1 0) (Some 7) (value_at [])"
proof -
  let ?r = "\<lparr> r_from = Ipv6Key 0 5, r_to = Ipv6Key 0 10, r_value = 7 \<rparr>"
  have o: "Ipv6Key 0 5 \<le> Ipv6Key 0 10" "Ipv6Key 0 11 \<le> Ipv6Key 1 0" by (simp_all add: less_eq_ipv6_def)
  have s: "reached ipv6_key ipv6_enc workspace_view 0 False (ws_heap sample_workspace) {} (3 + 3) (0 + 10 + pending (Ipv6Key 0 5) (Ipv6Key 0 10) [] + 10)
      (sample_workspace, 0, 0) []"
    using start_reached [OF empty_range_tree [OF sample_ok(1)], of "3 + 3" "0 + 10 + pending (Ipv6Key 0 5) (Ipv6Key 0 10) [] + 10"] sample_ok(2)
    by (simp add: MAX_PATH_31 pending_def)
  obtain t1 ch1 rs1 where a1: "assign ipv6_key workspace_ops (sample_workspace, 0, 0) (Ipv6Key 0 5) (Ipv6Key 0 10) 7 = Some (Inr (t1, ch1))"
    and r1: "reached ipv6_key ipv6_enc workspace_view 0 False (ws_heap sample_workspace) {} 3 (0 + 10) t1 rs1"
      "value_at rs1 = assigned (Ipv6Key 0 5) (Ipv6Key 0 10) (Some 7) (value_at [])"
    using w6.replace_range_ok [OF s o(1), of "Some 7"] unfolding runs_False assign_def by auto
  have "canonical ipv6_key [?r]" using o(1) by (simp add: canonical_def)
  moreover have "value_at [?r] = assigned (Ipv6Key 0 5) (Ipv6Key 0 10) (Some 7) (value_at [])"
    by (auto simp: value_at_def assigned_def in_range_def between_def fun_eq_iff)
  ultimately have e: "rs1 = [?r]" using k6.canonical_unique [OF reached_canonical [OF r1(1)]] r1(2) by simp
  have p: "pending (Ipv6Key 0 11) (Ipv6Key 1 0) rs1 = 0" by (simp add: e pending_def between_def less_eq_ipv6_def)
  obtain t2 ch2 rs2 where a2: "assign ipv6_key workspace_ops t1 (Ipv6Key 0 11) (Ipv6Key 1 0) 7 = Some (Inr (t2, ch2))"
    and r2: "reached ipv6_key ipv6_enc workspace_view 0 False (ws_heap sample_workspace) {} 0 0 t2 rs2"
      "value_at rs2 = assigned (Ipv6Key 0 11) (Ipv6Key 1 0) (Some 7) (value_at rs1)"
    using w6.replace_range_ok [OF _ o(2), of False "ws_heap sample_workspace" "{}" 0 0 rs1 t1 "Some 7"] r1(1) p
    unfolding runs_False assign_def by auto
  have "between (Ipv6Key 0 5) (Ipv6Key 1 0) x \<longleftrightarrow> between (Ipv6Key 0 5) (Ipv6Key 0 10) x \<or> between (Ipv6Key 0 11) (Ipv6Key 1 0) x" for x
    by (auto simp: between_def less_eq_ipv6_def word_less_nat_alt word_le_nat_alt word_unat_eq_iff)
  hence "value_at rs2 = assigned (Ipv6Key 0 5) (Ipv6Key 1 0) (Some 7) (value_at [])"
    by (auto simp: r1(2) r2(2) assigned_def)
  moreover obtain P l where "range_tree ipv6_key ipv6_enc workspace_view t2 P l rs2" using r2(1) by (auto simp: reached_def)
  ultimately show ?thesis using a1 a2 by blast
qed

theorem records_determined_by_map_witness:
  "\<exists>t1 ch1 t2 ch2 t3 ch3 P l P' l' rs. assign ipv6_key workspace_ops (sample_workspace, 0, 0) (Ipv6Key 0 5) (Ipv6Key 0 10) 7 = Some (Inr (t1, ch1))
    \<and> assign ipv6_key workspace_ops t1 (Ipv6Key 0 11) (Ipv6Key 1 0) 7 = Some (Inr (t2, ch2))
    \<and> assign ipv6_key workspace_ops (sample_workspace, 0, 0) (Ipv6Key 0 5) (Ipv6Key 1 0) 7 = Some (Inr (t3, ch3))
    \<and> range_tree ipv6_key ipv6_enc workspace_view t2 P l rs \<and> range_tree ipv6_key ipv6_enc workspace_view t3 P' l' rs \<and> snd (snd t2) = snd (snd t3)"
proof -
  obtain t1 ch1 t2 ch2 P l rs where a: "assign ipv6_key workspace_ops (sample_workspace, 0, 0) (Ipv6Key 0 5) (Ipv6Key 0 10) 7 = Some (Inr (t1, ch1))"
    "assign ipv6_key workspace_ops t1 (Ipv6Key 0 11) (Ipv6Key 1 0) 7 = Some (Inr (t2, ch2))"
    and r: "range_tree ipv6_key ipv6_enc workspace_view t2 P l rs" "value_at rs = assigned (Ipv6Key 0 5) (Ipv6Key 1 0) (Some 7) (value_at [])"
    using two_assignments by blast
  have o: "Ipv6Key 0 5 \<le> Ipv6Key 1 0" by (simp add: less_eq_ipv6_def)
  have "reached ipv6_key ipv6_enc workspace_view 0 False (ws_heap sample_workspace) {} (0 + 3) (0 + pending (Ipv6Key 0 5) (Ipv6Key 1 0) [] + 10)
      (sample_workspace, 0, 0) []"
    using start_reached [OF empty_range_tree [OF sample_ok(1)], of "0 + 3" "0 + pending (Ipv6Key 0 5) (Ipv6Key 1 0) [] + 10"] sample_ok(2)
    by (simp add: MAX_PATH_31 pending_def)
  from w6.replace_range_ok [OF this o, of "Some 7"] obtain t3 ch3 P' l' rs' where
    a3: "assign ipv6_key workspace_ops (sample_workspace, 0, 0) (Ipv6Key 0 5) (Ipv6Key 1 0) 7 = Some (Inr (t3, ch3))"
    and r3: "range_tree ipv6_key ipv6_enc workspace_view t3 P' l' rs'" "value_at rs' = assigned (Ipv6Key 0 5) (Ipv6Key 1 0) (Some 7) (value_at [])"
    unfolding runs_False assign_def reached_def by fastforce
  have "\<forall>a. range_lookup ipv6_key (store_source workspace_ops (fst t2)) Ipv6 (fst (snd t2)) a
       = range_lookup ipv6_key (store_source workspace_ops (fst t3)) Ipv6 (fst (snd t3)) a"
    using w6.range_lookup_ok [OF r(1)] w6.range_lookup_ok [OF r3(1)] r(2) r3(2) by (simp add: ipv6_key_def)
  thus ?thesis using records_determined_by_map [OF r(1) r3(1)] a a3 r(1) r3(1) by blast
qed

section \<open>Trees of records\<close>

text \<open>C7. Inserting a record into a tree of IPv6 records adds it at its place in the order or replaces the
  record of its key, and answers whether the key is new; the tree keeps its level or grows by one.\<close>

theorem insert_refines_records:
  assumes "tree_in (range_codec ipv6_key) (range_cells ipv6_key ipv6_enc) workspace_view ws root P l xs"
    "ordered (range_cells ipv6_key ipv6_enc) xs" "is_ok (decode_cell ipv6_key c)" "key = r_from (projr (decode_cell ipv6_key c))"
    "2 * l + 3 \<le> ws_room ws" "l < MAX_PATH"
  shows "\<exists>ws' root' P' l'. insert_retiring (range_codec ipv6_key) workspace_ops ws root c
      = Inr (ws', root', \<not> has_key (range_cells ipv6_key ipv6_enc) key xs)
    \<and> tree_in (range_codec ipv6_key) (range_cells ipv6_key ipv6_enc) workspace_view ws' root' P' l'
        (put_cells (range_cells ipv6_key ipv6_enc) key [c] xs)
    \<and> l' \<le> Suc l \<and> moved (ws_heap ws) (ws_heap ws') P P'"
proof -
  let ?Q = "\<lambda>(ws', root', new). new = (\<not> has_key (range_cells ipv6_key ipv6_enc) key xs)
    \<and> (\<exists>P' l'. tree_in (range_codec ipv6_key) (range_cells ipv6_key ipv6_enc) workspace_view ws' root' P' l'
        (put_cells (range_cells ipv6_key ipv6_enc) key [c] xs) \<and> l' \<le> Suc l \<and> moved (ws_heap ws) (ws_heap ws') P P')"
  have "rwp (insert_retiring (range_codec ipv6_key) workspace_ops ws root c) ?Q False"
    by (rule w6.insert_retiring_ok [OF assms(1,2)]) (use assms(3-6) in auto)
  thus ?thesis by (auto simp: rwp_False)
qed

abbreviation sample_range :: "ipv6 range" where
  "sample_range \<equiv> \<lparr> r_from = Ipv6Key 0 5, r_to = Ipv6Key 1 10, r_value = 7 \<rparr>"

abbreviation sample_cell :: bytes where
  "sample_cell \<equiv> range_cell ipv6_enc sample_range"

lemma sample_decodes: "decode_cell ipv6_key sample_cell = Inr sample_range"
  by (simp add: k6.decode_cell_iff less_eq_ipv6_def)

lemma sample_empty: "tree_in (range_codec ipv6_key) (range_cells ipv6_key ipv6_enc) workspace_view sample_workspace 0 {} 0 []"
  using sample_ok by (simp add: tree_in_def)

theorem insert_refines_records_witness:
  "\<exists>ws' root' P' l'. insert_retiring (range_codec ipv6_key) workspace_ops sample_workspace 0 sample_cell = Inr (ws', root', True)
    \<and> tree_in (range_codec ipv6_key) (range_cells ipv6_key ipv6_enc) workspace_view ws' root' P' l' [sample_cell]"
  using insert_refines_records [OF sample_empty, of sample_cell "Ipv6Key 0 5"] sample_ok(2)
  by (auto simp: sample_decodes is_ok_def MAX_PATH_31 put_cells_def has_key_def ordered_def)

text \<open>C8. Deleting a key of a tree of IPv6 records removes its record and no other, returns the pages that become
  empty to the workspace, and leaves the empty tree when the last record goes.\<close>

theorem delete_refines_records:
  assumes "tree_in (range_codec ipv6_key) (range_cells ipv6_key ipv6_enc) workspace_view ws root P l xs"
    "ordered (range_cells ipv6_key ipv6_enc) xs" "has_key (range_cells ipv6_key ipv6_enc) key xs" "l < ws_room ws"
  shows "\<exists>ws' root' P' l'. delete_retiring (range_codec ipv6_key) workspace_ops ws root key = Inr (ws', root')
    \<and> tree_in (range_codec ipv6_key) (range_cells ipv6_key ipv6_enc) workspace_view ws' root' P' l'
        (put_cells (range_cells ipv6_key ipv6_enc) key [] xs)
    \<and> l' \<le> l \<and> moved (ws_heap ws) (ws_heap ws') P P'"
proof -
  let ?Q = "\<lambda>(ws', root'). \<exists>P' l'. tree_in (range_codec ipv6_key) (range_cells ipv6_key ipv6_enc) workspace_view ws' root' P' l'
        (put_cells (range_cells ipv6_key ipv6_enc) key [] xs) \<and> l' \<le> l \<and> moved (ws_heap ws) (ws_heap ws') P P'"
  have "rwp (delete_retiring (range_codec ipv6_key) workspace_ops ws root key) ?Q False"
    by (rule w6.delete_retiring_ok [OF assms(1-3)]) (use assms(4) in auto)
  thus ?thesis by (auto simp: rwp_False)
qed

lemma sample_inserted:
  "\<exists>ws root P l. insert_retiring (range_codec ipv6_key) workspace_ops sample_workspace 0 sample_cell = Inr (ws, root, True)
    \<and> tree_in (range_codec ipv6_key) (range_cells ipv6_key ipv6_enc) workspace_view ws root P l [sample_cell]
    \<and> l \<le> 1 \<and> 2000 \<le> ws_room ws"
proof -
  let ?Q = "\<lambda>(ws, root, new). new \<and> (\<exists>P l. tree_in (range_codec ipv6_key) (range_cells ipv6_key ipv6_enc) workspace_view ws root P l [sample_cell]
    \<and> l \<le> 1 \<and> 2000 \<le> ws_room ws)"
  have "rwp (insert_retiring (range_codec ipv6_key) workspace_ops sample_workspace 0 sample_cell) ?Q False"
    by (rule w6.insert_retiring_ok [OF sample_empty])
      (use sample_ok(2) in \<open>auto simp: sample_decodes is_ok_def MAX_PATH_31 put_cells_def has_key_def ordered_def\<close>)
  thus ?thesis unfolding rwp_False by (clarsimp, blast)
qed

theorem delete_refines_records_witness:
  "\<exists>ws root ws'. insert_retiring (range_codec ipv6_key) workspace_ops sample_workspace 0 sample_cell = Inr (ws, root, True)
    \<and> delete_retiring (range_codec ipv6_key) workspace_ops ws root (Ipv6Key 0 5) = Inr (ws', 0)"
proof -
  obtain ws root P l where i: "insert_retiring (range_codec ipv6_key) workspace_ops sample_workspace 0 sample_cell = Inr (ws, root, True)"
    "tree_in (range_codec ipv6_key) (range_cells ipv6_key ipv6_enc) workspace_view ws root P l [sample_cell]" "l \<le> 1" "2000 \<le> ws_room ws"
    using sample_inserted by blast
  have d: "ordered (range_cells ipv6_key ipv6_enc) [sample_cell]" "has_key (range_cells ipv6_key ipv6_enc) (Ipv6Key 0 5) [sample_cell]" "l < ws_room ws"
    using i(3,4) by (simp_all add: ordered_def has_key_def sample_decodes)
  have p: "put_cells (range_cells ipv6_key ipv6_enc) (Ipv6Key 0 5) [] [sample_cell] = []" by (simp add: put_cells_def sample_decodes)
  obtain ws' root' P' l' where "delete_retiring (range_codec ipv6_key) workspace_ops ws root (Ipv6Key 0 5) = Inr (ws', root')"
    "tree_in (range_codec ipv6_key) (range_cells ipv6_key ipv6_enc) workspace_view ws' root' P' l' []"
    using delete_refines_records [OF i(2) d] unfolding p by blast
  moreover from this(2) have "root' = 0"
    by (auto simp: tree_in_def tree_with_def dest: repr_leaves)
  ultimately show ?thesis using i(1) by blast
qed

section \<open>Allocation\<close>

lemma allocate_exhausted:
  assumes "ws_ok ws" "ws_room ws = 0"
  shows "workspace_allocate ws = Inl (if ws_next ws = ws_limit ws then BudgetExceeded ''immutable construction workspace pages'' else PageSpaceExhausted)"
proof -
  have f: "free_pages ws = []" "min (unat (ws_limit ws)) (2 ^ 32) \<le> unat (ws_next ws)" using assms(2) by (simp_all add: ws_room_def)
  hence z: "ws_free ws = 0" using assms(1) by (simp add: ws_ok_def)
  have "unat (ws_next ws) \<le> unat (ws_limit ws)" using assms(1) by (simp add: ws_ok_def word_le_nat_alt)
  hence "ws_next ws = ws_limit ws \<or> 2 ^ 32 \<le> unat (ws_next ws)" using f(2) by (auto simp: word_unat_eq_iff min_def split: if_splits)
  thus ?thesis using z by (auto simp: workspace_allocate_def)
qed

text \<open>C9. The allocator of the workspace hands out a page that no one holds, keeps every held page and its bytes,
  succeeds as long as a page is free or unused, and reports the exhausted limit otherwise.\<close>

theorem allocate_fresh_or_exhausted:
  assumes "ws_ok ws"
  shows "if ws_room ws = 0
    then workspace_allocate ws = Inl (if ws_next ws = ws_limit ws then BudgetExceeded ''immutable construction workspace pages'' else PageSpaceExhausted)
    else \<exists>ws' n. workspace_allocate ws = Inr (ws', n) \<and> ws_ok ws' \<and> n \<notin> hp_own (ws_heap ws)
      \<and> hp_own (ws_heap ws') = insert n (hp_own (ws_heap ws)) \<and> ws_room ws = Suc (ws_room ws')
      \<and> (\<forall>m\<in>hp_own (ws_heap ws). ws_page ws' m = ws_page ws m)"
proof (cases "ws_room ws = 0")
  case True
  thus ?thesis using allocate_exhausted [OF assms True] by simp
next
  case False
  then obtain ws' n where a: "workspace_allocate ws = Inr (ws', n)" "ws_ok ws'" "grows (ws_heap ws) (ws_heap ws') {} {n}" "ws_room ws = Suc (ws_room ws')"
    using workspace_allocate_ok [OF assms] by (auto simp: rwp_def split: sum.splits)
  thus ?thesis using False a by (auto simp: grows_def)
qed

theorem allocate_fresh_or_exhausted_witness:
  "\<exists>ws' n. workspace_allocate sample_workspace = Inr (ws', n) \<and> ws_ok ws' \<and> ws_room ws' = 2045"
  using allocate_fresh_or_exhausted [OF sample_ok(1)] sample_ok(2) by auto

text \<open>C10. A page given back leaves the held pages, cannot be given back again while it heads the free list, and is
  the next one that the allocator hands out; no page is lost.\<close>

theorem discard_recycles_page:
  assumes "ws_ok ws" "n \<in> hp_own (ws_heap ws)" "owned_by (ws_page ws n) (ws_txn ws)"
  shows "\<exists>ws' ws''. workspace_discard ws n = Inr ws' \<and> ws_ok ws' \<and> hp_own (ws_heap ws') = hp_own (ws_heap ws) - {n}
    \<and> ws_room ws' = Suc (ws_room ws)
    \<and> workspace_discard ws' n = Inl (Corrupt ''immutable workspace page was discarded twice'')
    \<and> workspace_allocate ws' = Inr (ws'', n) \<and> ws_ok ws'' \<and> hp_own (ws_heap ws'') = hp_own (ws_heap ws)"
proof -
  obtain ws' where d: "workspace_discard ws n = Inr ws'" "ws_ok ws'" "shrinks (ws_heap ws) (ws_heap ws') {} {n}"
      "free_pages ws' = n # free_pages ws" "ws_free ws' = n" "allocated ws' = allocated ws" "ws_room ws' = Suc (ws_room ws)"
    using workspace_discard_links [OF assms(1) _ _ assms(3)] assms(2) by auto
  have n: "allocated ws' n" "n \<noteq> 0" using d(2,4,6) assms(2) by (auto simp: ws_ok_def)
  have "workspace_discard ws' n = Inl (Corrupt ''immutable workspace page was discarded twice'')"
    using require_allocated_ok [OF n(1)] d(5) by (simp add: workspace_discard_def)
  moreover have "hp_own (ws_heap ws') = hp_own (ws_heap ws) - {n}" using d(3) by (simp add: shrinks_def)
  moreover have a: "workspace_allocate ws' = Inr (ws' \<lparr> ws_free := u32_at (ws_page ws' n) FREE_NEXT \<rparr>, n)"
    "ws_ok (ws' \<lparr> ws_free := u32_at (ws_page ws' n) FREE_NEXT \<rparr>)"
    "free_pages (ws' \<lparr> ws_free := u32_at (ws_page ws' n) FREE_NEXT \<rparr>) = free_pages ws"
    using pop_free_ok [OF d(2,4)] d(5) n(2) by (simp_all add: workspace_allocate_def)
  moreover have "allocated (ws' \<lparr> ws_free := u32_at (ws_page ws' n) FREE_NEXT \<rparr>) = allocated ws"
    unfolding d(6) [symmetric] by (simp add: allocated_def fun_eq_iff)
  hence "hp_own (ws_heap (ws' \<lparr> ws_free := u32_at (ws_page ws' n) FREE_NEXT \<rparr>)) = hp_own (ws_heap ws)" using a(3) by simp
  ultimately show ?thesis using d(1,2,7) by blast
qed

lemma sample_held:
  "\<exists>ws. ws_ok ws \<and> 2 \<in> hp_own (ws_heap ws) \<and> owned_by (ws_page ws 2) (ws_txn ws)"
proof -
  obtain ws n where a: "workspace_allocate sample_workspace = Inr (ws, n)" "ws_ok ws" "grows (ws_heap sample_workspace) (ws_heap ws) {} {n}"
    using workspace_allocate_ok [OF sample_ok(1)] sample_ok(2) by (auto simp: rwp_def split: sum.splits)
  have n: "n = 2" "ws_txn ws = 1" using a(1) by (auto simp: workspace_allocate_def sample_workspace_def)
  hence h: "allocated ws 2" "2 \<notin> set (free_pages ws)" using a(3) by (auto simp: grows_def)
  obtain p where p: "initialize \<lparr> f_page_type = 2, f_born_txn = 1, f_item_count = 0, f_level = 0, f_lower = 0, f_upper = 0, f_aux = 0 \<rparr> = Inr p"
    by (simp add: initialize_eq)
  have l: "length p = PAGE_SIZE" "owned_by p 1" using initialize_fields(1) [OF p] initialize_valid(4) [OF p] by simp_all
  have al: "allocated (workspace_put ws 2 p) = allocated ws" by (simp add: allocated_def fun_eq_iff)
  show ?thesis
    using workspace_put_ok [OF a(2) h l(1)] ws_page_put [OF a(2) h(1) h(1) l(1)] h n(2) l(2) al
    by (intro exI [of _ "workspace_put ws 2 p"]) simp
qed

theorem discard_recycles_page_witness:
  "\<exists>ws ws' ws''. workspace_discard ws 2 = Inr ws' \<and> workspace_allocate ws' = Inr (ws'', 2) \<and> hp_own (ws_heap ws'') = hp_own (ws_heap ws)"
  using sample_held discard_recycles_page by blast

text \<open>C11. A new workspace over a writable mapping of exactly its pages is well formed, holds no page, and has room for
  every page from its first one to its limit; a limit that is not the size of the mapping, or below the first page, is refused.\<close>

theorem workspace_new_empty:
  assumes "live_map m" "mp_access m = ReadWrite" "mp_unreadable m = None" "2 \<le> first" "unat first \<le> 2 ^ 32" "txn \<noteq> 0"
  shows "if first \<le> limit \<and> unat limit * PAGE_SIZE = mp_len m
    then \<exists>ws. workspace_new m first limit txn = Inr ws \<and> ws_ok ws \<and> hp_own (ws_heap ws) = {}
      \<and> ws_room ws = min (unat limit) (2 ^ 32) - unat first
    else workspace_new m first limit txn = Inl (InvalidArgument ''immutable construction workspace is invalid'')"
proof -
  have u: "mp_len m < 2 ^ 64" using assms(1) by (simp add: live_map_def usize_max_def)
  have "checked_mul limit (of_nat PAGE_SIZE) = Some (of_nat (mp_len m)) \<longleftrightarrow> unat limit * PAGE_SIZE = mp_len m"
  proof (cases "unat limit * PAGE_SIZE < 2 ^ 64")
    case True
    have "unat (limit * of_nat PAGE_SIZE :: 64 word) = unat limit * PAGE_SIZE" "unat (of_nat (mp_len m) :: 64 word) = mp_len m"
      using True u by (simp_all add: unat_word_ariths PAGE_SIZE_def unat_of_nat)
    thus ?thesis using True by (auto simp: checked_mul_def word_unat_eq_iff PAGE_SIZE_def)
  next
    case False
    thus ?thesis using u by (simp add: checked_mul_def PAGE_SIZE_def)
  qed
  hence "workspace_new m first limit txn = (if first \<le> limit \<and> unat limit * PAGE_SIZE = mp_len m
      then Inr \<lparr> ws_mapping = m, ws_first = first, ws_limit = limit, ws_next = first, ws_free = 0, ws_txn = txn \<rparr>
      else Inl (InvalidArgument ''immutable construction workspace is invalid''))"
    by (auto simp: workspace_new_def not_less not_le)
  thus ?thesis using workspace_new_ok [OF assms] by (auto split: if_splits)
qed

theorem workspace_new_empty_witness:
  "\<exists>ws. workspace_new sample_mapping 2 2048 1 = Inr ws \<and> ws_ok ws \<and> hp_own (ws_heap ws) = {} \<and> ws_room ws = 2046"
  using workspace_new_empty [of sample_mapping 2 1 2048]
  by (auto simp: sample_mapping_def live_map_def PAGE_SIZE_def usize_max_def)

section \<open>Records\<close>

text \<open>C12. A record cell decodes to a range exactly when it is the encoding of that range and the range is not
  reversed; every other byte string, of whatever length, is refused, and every range that is not reversed encodes.\<close>

theorem record_codec_exact:
  "(decode_cell ipv4_key c = Inr r \<longleftrightarrow> c = to_le_bytes (r_from r) @ to_le_bytes (r_to r) @ to_le_bytes (r_value r) \<and> r_from r \<le> r_to r)
   \<and> (r_from r \<le> r_to r \<longrightarrow> 12 \<le> length out \<longrightarrow>
        (\<exists>bs. encode_record ipv4_key r out = Inr (bs, 12) \<and> decode_cell ipv4_key (take 12 bs) = Inr r))"
proof -
  have w: "WIDTH ipv4_key = 4" by (simp add: ipv4_key_def)
  have "\<exists>bs. encode_record ipv4_key r out = Inr (bs, 12) \<and> decode_cell ipv4_key (take 12 bs) = Inr r"
    if "r_from r \<le> r_to r" "12 \<le> length out"
    using k4.encode_record_ok [of r out] that by (auto simp: w k4.decode_cell_iff)
  thus ?thesis by (auto simp: k4.decode_cell_iff range_cell_def)
qed

theorem record_codec_exact_witness:
  "\<exists>bs. encode_record ipv4_key \<lparr> r_from = 10, r_to = 20, r_value = 7 \<rparr> (replicate 36 0) = Inr (bs, 12)
    \<and> decode_cell ipv4_key (take 12 bs) = Inr \<lparr> r_from = 10, r_to = 20, r_value = 7 \<rparr>"
  using record_codec_exact [of "[]" "\<lparr> r_from = 10, r_to = 20, r_value = 7 \<rparr>" "replicate 36 0"] by simp

end
