(* ===== verification/Crc32c.thy ===== *)
theory Crc32c
  imports Prelude
begin

unbundle bit_operations_syntax

text \<open>
  CRC-32C as its definition gives it, and the CRC instructions of the processors: the reference
  that the routines of \<open>checksum.rs\<close> are compared with. CRC-32C divides the bits of the
  message, the least significant bit of every byte first, by the polynomial 0x1EDC6F41 in a register that starts
  and ends complemented and is read in reverse. The instructions of SSE4.2 and of the CRC extension of
  Armv8 are given by their manuals: the operands are reflected, aligned, added without carries and
  divided by the polynomial with its leading bit, 0x11EDC6F41.
\<close>

section \<open>The definition of CRC-32C\<close>

definition CASTAGNOLI :: "32 word" where "CASTAGNOLI = 0x1EDC6F41"

definition divide_step :: "32 word \<Rightarrow> bool \<Rightarrow> 32 word" where
  "divide_step r b = push_bit 1 r XOR (if bit r 31 \<noteq> b then CASTAGNOLI else 0)"

definition message_bits :: "bytes \<Rightarrow> bool list" where
  "message_bits bs = concat (map (\<lambda>byte. map (bit byte) [0..<8]) bs)"

definition crc32c :: "32 word \<Rightarrow> bytes \<Rightarrow> 32 word" where
  "crc32c crc bs = NOT (word_reverse (foldl divide_step (word_reverse (NOT crc)) (message_bits bs)))"

section \<open>The instructions\<close>

fun mod2 :: "nat \<Rightarrow> 96 word \<Rightarrow> 96 word" where
  "mod2 0 x = x"
| "mod2 (Suc n) x = mod2 n (if bit x (n + 32) then x XOR push_bit n 0x11EDC6F41 else x)"

definition crc32_instruction :: "32 word \<Rightarrow> 'w::len word \<Rightarrow> 32 word" where
  "crc32_instruction acc value =
    word_reverse (ucast (mod2 LENGTH('w) (push_bit 32 (ucast (word_reverse value)) XOR push_bit LENGTH('w) (ucast (word_reverse acc)))))"

definition mm_crc32_u8 :: "32 word \<Rightarrow> 8 word \<Rightarrow> 32 word" where
  "mm_crc32_u8 crc v = crc32_instruction crc v"

definition mm_crc32_u64 :: "64 word \<Rightarrow> 64 word \<Rightarrow> 64 word" where
  "mm_crc32_u64 crc v = ucast (crc32_instruction (ucast crc) v)"

definition arm_crc32cb :: "32 word \<Rightarrow> 8 word \<Rightarrow> 32 word" where
  "arm_crc32cb crc data = crc32_instruction crc data"

definition arm_crc32cd :: "32 word \<Rightarrow> 64 word \<Rightarrow> 32 word" where
  "arm_crc32cd crc data = crc32_instruction crc data"

section \<open>An instruction divides the bits of its operand\<close>

lemma bit_polynomial: "bit (0x11EDC6F41 :: 96 word) j \<longleftrightarrow> j = 32 \<or> bit CASTAGNOLI j"
proof -
  have "(0x11EDC6F41 :: 96 word) = push_bit 32 1 XOR ucast CASTAGNOLI" by (simp add: CASTAGNOLI_def)
  hence "bit (0x11EDC6F41 :: 96 word) j \<longleftrightarrow> bit (push_bit 32 1 XOR ucast CASTAGNOLI :: 96 word) j" by metis
  also have "\<dots> \<longleftrightarrow> j = 32 \<or> bit CASTAGNOLI j"
    unfolding bit_xor_iff bit_push_bit_iff bit_unsigned_iff by (auto simp: bit_1_iff dest: bit_imp_le_length)
  finally show ?thesis .
qed

lemma divide_once:
  fixes r :: "32 word" and v :: "96 word"
  assumes n: "Suc n \<le> 64" and v: "\<And>i. bit v i \<Longrightarrow> i < Suc n"
  defines "x \<equiv> push_bit 32 v XOR push_bit (Suc n) (ucast r)"
  shows "bit x (n + 32) \<longleftrightarrow> bit r 31 \<noteq> bit v n"
    "(if bit x (n + 32) then x XOR push_bit n 0x11EDC6F41 else x) = push_bit 32 (unset_bit n v) XOR push_bit n (ucast (divide_step r (bit v n)))"
proof -
  show b: "bit x (n + 32) \<longleftrightarrow> bit r 31 \<noteq> bit v n" using n unfolding x_def bit_xor_iff bit_push_bit_iff bit_unsigned_iff by auto
  show "(if bit x (n + 32) then x XOR push_bit n 0x11EDC6F41 else x) = push_bit 32 (unset_bit n v) XOR push_bit n (ucast (divide_step r (bit v n)))"
    (is "?l = ?r")
  proof (rule bit_word_eqI)
    fix i assume i: "i < LENGTH(96)"
    have e: "bit ?l i \<longleftrightarrow> bit x i \<noteq> ((bit r 31 \<noteq> bit v n) \<and> n \<le> i \<and> bit (0x11EDC6F41 :: 96 word) (i - n))"
      using i by (simp add: b bit_xor_iff bit_push_bit_iff del: push_bit_numeral)
    have x: "bit x i \<longleftrightarrow> (32 \<le> i \<and> bit v (i - 32)) \<noteq> (Suc n \<le> i \<and> bit r (i - Suc n))"
      using i unfolding x_def bit_xor_iff bit_push_bit_iff bit_unsigned_iff by (auto dest: bit_imp_le_length)
    have r: "bit ?r i \<longleftrightarrow> (32 \<le> i \<and> i - 32 \<noteq> n \<and> bit v (i - 32)) \<noteq> (n \<le> i \<and> bit (divide_step r (bit v n)) (i - n))"
      using i unfolding bit_xor_iff bit_push_bit_iff bit_unsigned_iff bit_unset_bit_iff by (auto dest: bit_imp_le_length)
    have d: "bit (divide_step r (bit v n)) j \<longleftrightarrow> j < 32 \<and> ((0 < j \<and> bit r (j - 1)) \<noteq> ((bit r 31 \<noteq> bit v n) \<and> bit CASTAGNOLI j))" for j
      unfolding divide_step_def bit_xor_iff bit_push_bit_iff by (auto dest: bit_imp_le_length)
    consider "i < n" | "i = n" | "n < i" "i < n + 32" | "i = n + 32" | "n + 32 < i" by linarith
    thus "bit ?l i \<longleftrightarrow> bit ?r i"
    proof cases
      case 3
      hence "i - Suc n = i - n - 1" "i - n \<noteq> 32" "0 < i - n" "i - n < 32" "i - 32 \<noteq> n \<or> i < 32" by auto
      thus ?thesis unfolding e x r d bit_polynomial using 3 by auto
    next
      case 5
      have "\<not> bit v (i - 32)" using v [of "i - 32"] 5 by auto
      moreover have "\<not> bit r (i - Suc n)" "\<not> bit CASTAGNOLI (i - n)" using 5 by (auto dest: bit_imp_le_length)
      ultimately show ?thesis unfolding e x r d bit_polynomial using 5 by auto
    qed (unfold e x r d bit_polynomial, auto dest: bit_imp_le_length)
  qed
qed

lemma mod2_divides:
  assumes "n \<le> 64" "\<And>i. bit v i \<Longrightarrow> i < n"
  shows "mod2 n (push_bit 32 v XOR push_bit n (ucast r)) = ucast (foldl divide_step r (map (bit v) (rev [0..<n])))"
  using assms
proof (induction n arbitrary: r v)
  case 0
  have "v = 0" using 0(2) by (auto intro!: bit_word_eqI)
  thus ?case by simp
next
  case (Suc n)
  have u: "i < n" if "bit (unset_bit n v) i" for i
    using that Suc.prems(2) [of i] by (auto simp: bit_unset_bit_iff)
  have m: "map (bit (unset_bit n v)) (rev [0..<n]) = map (bit v) (rev [0..<n])"
    by (auto simp: bit_unset_bit_iff)
  have "mod2 (Suc n) (push_bit 32 v XOR push_bit (Suc n) (ucast r))
      = mod2 n (push_bit 32 (unset_bit n v) XOR push_bit n (ucast (divide_step r (bit v n))))"
    by (simp only: mod2.simps divide_once(2) [OF Suc.prems])
  thus ?case using Suc.IH [of "unset_bit n v" "divide_step r (bit v n)"] Suc.prems(1) u m by simp
qed

lemma instruction_divides:
  fixes v :: "'w::len word"
  assumes "LENGTH('w) \<le> 64"
  shows "crc32_instruction acc v = word_reverse (foldl divide_step (word_reverse acc) (map (bit v) [0..<LENGTH('w)]))"
proof -
  let ?v = "ucast (word_reverse v) :: 96 word"
  have b: "bit ?v i \<longleftrightarrow> i < LENGTH('w) \<and> bit v (LENGTH('w) - Suc i)" for i
    using assms by (auto simp: bit_unsigned_iff bit_word_reverse_iff)
  have m: "map (bit ?v) (rev [0..<LENGTH('w)]) = map (bit v) [0..<LENGTH('w)]"
    by (rule nth_equalityI) (simp_all add: b rev_nth Suc_diff_Suc)
  have "mod2 LENGTH('w) (push_bit 32 ?v XOR push_bit LENGTH('w) (ucast (word_reverse acc)))
      = ucast (foldl divide_step (word_reverse acc) (map (bit v) [0..<LENGTH('w)]))"
    using mod2_divides [OF assms, of ?v "word_reverse acc"] b m by auto
  moreover have "ucast (ucast w :: 96 word) = w" for w :: "32 word"
    by (rule bit_word_eqI) (simp add: bit_unsigned_iff)
  ultimately show ?thesis by (simp add: crc32_instruction_def)
qed

section \<open>The bits of a little-endian word\<close>

lemma bit_le_nat_Cons: "bit (le_nat (b # bs)) i \<longleftrightarrow> (if i < 8 then bit b i else bit (le_nat bs) (i - 8))"
proof -
  have u: "unat b < 256" by (rule unat_byte)
  have "take_bit 8 (le_nat (b # bs)) = unat b" "drop_bit 8 (le_nat (b # bs)) = le_nat bs"
    using u by (simp_all add: take_bit_eq_mod drop_bit_eq_div)
  moreover have "bit (le_nat (b # bs)) i \<longleftrightarrow> (if i < 8 then bit (take_bit 8 (le_nat (b # bs))) i else bit (drop_bit 8 (le_nat (b # bs))) (i - 8))"
    unfolding bit_take_bit_iff bit_drop_bit_eq by auto
  ultimately show ?thesis by (simp add: bit_unsigned_iff)
qed

lemma le_nat_bits: "map (bit (le_nat bs)) [0..<8 * length bs] = message_bits bs"
proof (induction bs)
  case (Cons b bs)
  have s: "[0..<8 * length (b # bs)] = [0..<8] @ map ((+) 8) [0..<8 * length bs]"
    by (rule nth_equalityI) (auto simp: nth_append)
  have "map (bit (le_nat (b # bs))) [0..<8] = map (bit b) [0..<8]"
    "map (bit (le_nat (b # bs))) (map ((+) 8) [0..<8 * length bs]) = map (bit (le_nat bs)) [0..<8 * length bs]"
    by (auto simp: bit_le_nat_Cons simp del: le_nat.simps)
  thus ?case unfolding s map_append using Cons by (simp add: message_bits_def)
qed (simp add: message_bits_def)

lemma word_bits:
  assumes "length bs = 8"
  shows "map (bit (from_le_bytes bs :: 64 word)) [0..<64] = message_bits bs"
proof -
  have "map (bit (from_le_bytes bs :: 64 word)) [0..<64] = map (bit (le_nat bs)) [0..<8 * length bs]"
    using assms by (intro map_cong) (auto simp: from_le_bytes_def bit_simps)
  thus ?thesis by (simp add: le_nat_bits)
qed

text \<open>Reading the register in reverse, an instruction continues the division of the message.\<close>

definition reflected :: "32 word \<Rightarrow> bytes \<Rightarrow> 32 word" where
  "reflected s bs = word_reverse (foldl divide_step (word_reverse s) (message_bits bs))"

lemma reflected_append: "reflected s (xs @ ys) = reflected (reflected s xs) ys"
  by (simp add: reflected_def message_bits_def)

lemma reflected_Nil [simp]: "reflected s [] = s"
  by (simp add: reflected_def message_bits_def)

lemma crc32c_reflected: "crc32c crc bs = NOT (reflected (NOT crc) bs)"
  by (simp add: crc32c_def reflected_def)

lemma instruction_byte: "crc32_instruction s (b :: 8 word) = reflected s [b]"
  by (simp add: instruction_divides reflected_def message_bits_def)

lemma instruction_word: "length bs = 8 \<Longrightarrow> crc32_instruction s (from_le_bytes bs :: 64 word) = reflected s bs"
  using instruction_divides [of s "from_le_bytes bs :: 64 word"] word_bits [of bs] by (simp add: reflected_def)

lemma instructions_fold: "foldl crc32_instruction s bs = reflected s bs"
proof (induction bs arbitrary: s)
  case (Cons b bs)
  show ?case using Cons reflected_append [of s "[b]" bs] by (simp add: instruction_byte)
qed simp

end
