(* ===== verification/Checksum.thy ===== *)
theory Checksum
  imports TreeStore Crc32c
begin

unbundle bit_operations_syntax

text \<open>
  Checksums (\<open>checksum.rs\<close>) and the checksum of a page (\<open>page_checksum.rs\<close>): the table, the byte loop,
  the loops over the CRC instructions of x86-64 and AArch64, the choice between them, the routines that
  read a field as zero, and the seal of a page. What the code runs on is a parameter: the processor
  with what the run-time detection reports of it, and the routine of the \<open>crc32c\<close> crate, of which
  the code relies on the documented meaning, that it continues the CRC-32C of what was read before.
\<close>

section \<open>The table and the loops\<close>

definition POLYNOMIAL :: "32 word" where "POLYNOMIAL = 0x82F63B78"

definition crc_bit :: "32 word \<Rightarrow> 32 word" where
  "crc_bit crc = drop_bit 1 crc XOR (POLYNOMIAL AND (0 - (crc AND 1)))"

fun crc_bits :: "nat \<Rightarrow> 32 word \<Rightarrow> 32 word" where
  "crc_bits 0 crc = crc"
| "crc_bits (Suc n) crc = crc_bits n (crc_bit crc)"

definition crc_table :: "32 word list" where
  "crc_table = map (\<lambda>index. crc_bits 8 (of_nat index)) [0..<256]"

definition table_step :: "32 word \<Rightarrow> 8 word \<Rightarrow> 32 word" where
  "table_step state byte = crc_table ! unat ((state XOR ucast byte) AND 0xFF) XOR drop_bit 8 state"

definition crc32c_pointer_table :: "32 word \<Rightarrow> bytes \<Rightarrow> 32 word" where
  "crc32c_pointer_table crc bs = NOT (foldl table_step (NOT crc) bs)"

text \<open>Eight bytes at a time while there are eight, then byte by byte.\<close>

function crc32c_words_x86_64 :: "64 word \<Rightarrow> bytes \<Rightarrow> 64 word \<times> bytes" where
  "crc32c_words_x86_64 state bs =
    (if length bs \<ge> 8 then crc32c_words_x86_64 (mm_crc32_u64 state (from_le_bytes (take 8 bs))) (drop 8 bs)
     else (state, bs))"
  by pat_completeness auto
termination by (relation "measure (length \<circ> snd)") auto

definition crc32c_pointer_x86_64 :: "32 word \<Rightarrow> bytes \<Rightarrow> 32 word" where
  "crc32c_pointer_x86_64 crc bs =
    (let (state, bs) = crc32c_words_x86_64 (ucast (NOT crc)) bs;
         crc = NOT (ucast state)
     in if bs = [] then crc
        else
          (let state = foldl (\<lambda>state byte. ucast (mm_crc32_u8 (ucast state) byte)) (ucast (NOT crc) :: 64 word) bs
           in NOT (ucast state)))"

function crc32c_words_aarch64 :: "32 word \<Rightarrow> bytes \<Rightarrow> 32 word \<times> bytes" where
  "crc32c_words_aarch64 state bs =
    (if length bs \<ge> 8 then crc32c_words_aarch64 (arm_crc32cd state (from_le_bytes (take 8 bs))) (drop 8 bs)
     else (state, bs))"
  by pat_completeness auto
termination by (relation "measure (length \<circ> snd)") auto

definition crc32c_pointer_aarch64 :: "32 word \<Rightarrow> bytes \<Rightarrow> 32 word" where
  "crc32c_pointer_aarch64 crc bs =
    (let (state, bs) = crc32c_words_aarch64 (NOT crc) bs;
         crc = NOT state
     in if bs = [] then crc else NOT (foldl arm_crc32cb (NOT crc) bs))"

declare crc32c_words_x86_64.simps [simp del] crc32c_words_aarch64.simps [simp del]

text \<open>The targets of the build, little-endian x86-64 and AArch64 with the features that are detected at run time.\<close>

datatype cpu = X86_64 (sse4_2: bool) | Aarch64 (crc_feature: bool) | Other_cpu

record platform =
  pf_cpu :: cpu
  pf_crc32c_append :: "32 word \<Rightarrow> bytes \<Rightarrow> 32 word"

definition crc32c_pointer_append :: "cpu \<Rightarrow> 32 word \<Rightarrow> bytes \<Rightarrow> 32 word" where
  "crc32c_pointer_append target crc bs =
    (case target of
       X86_64 True \<Rightarrow> crc32c_pointer_x86_64 crc bs
     | Aarch64 True \<Rightarrow> crc32c_pointer_aarch64 crc bs
     | _ \<Rightarrow> crc32c_pointer_table crc bs)"

section \<open>Checksums that read a field as zero\<close>

text \<open>\<open>ZEROES\<close> has 64 bytes; the loop feeds it as often as it fits. The routines on slices and on pointers
  have the same loop over their own routine \<open>app\<close>.\<close>

fun append_zeroes :: "(32 word \<Rightarrow> bytes \<Rightarrow> 32 word) \<Rightarrow> 32 word \<Rightarrow> nat \<Rightarrow> 32 word" where
  "append_zeroes app crc remaining =
    (if remaining \<ge> 64 then append_zeroes app (app crc (replicate 64 0)) (remaining - 64)
     else if remaining \<noteq> 0 then app crc (replicate remaining 0)
     else crc)"

declare append_zeroes.simps [simp del]

definition crc32c_with_zeroed :: "platform \<Rightarrow> bytes \<Rightarrow> nat \<Rightarrow> nat \<Rightarrow> 32 word option" where
  "crc32c_with_zeroed plat bs zero_at zero_len =
    (case usize_checked_add zero_at zero_len of
       None \<Rightarrow> None
     | Some zero_end \<Rightarrow>
         if zero_end > length bs then None
         else
           (let crc = pf_crc32c_append plat 0 (take zero_at bs);
                crc = append_zeroes (pf_crc32c_append plat) crc zero_len
            in Some (pf_crc32c_append plat crc (drop zero_end bs))))"

definition crc32c_pointer_with_zeroed :: "platform \<Rightarrow> bytes \<Rightarrow> nat \<Rightarrow> nat \<Rightarrow> 32 word" where
  "crc32c_pointer_with_zeroed plat bs zero_at zero_len =
    (let zero_end = zero_at + zero_len;
         crc = crc32c_pointer_append (pf_cpu plat) 0 (take zero_at bs);
         crc = append_zeroes (crc32c_pointer_append (pf_cpu plat)) crc zero_len
     in crc32c_pointer_append (pf_cpu plat) crc (take (length bs - zero_end) (drop zero_end bs)))"

text \<open>A source that is not contiguous is read byte by byte.\<close>

definition zeroed_byte :: "bytes \<Rightarrow> nat \<Rightarrow> nat \<Rightarrow> nat \<Rightarrow> 8 word" where
  "zeroed_byte bs zero_at zero_end index = (if zero_at \<le> index \<and> index < zero_end then 0 else bs ! index)"

definition crc32c_source_with_zeroed :: "platform \<Rightarrow> bool \<Rightarrow> bytes \<Rightarrow> nat \<Rightarrow> nat \<Rightarrow> 32 word option" where
  "crc32c_source_with_zeroed plat contiguous bs zero_at zero_len =
    (case usize_checked_add zero_at zero_len of
       None \<Rightarrow> None
     | Some zero_end \<Rightarrow>
         if zero_end > length bs then None
         else if contiguous then Some (crc32c_pointer_with_zeroed plat bs zero_at zero_len)
         else Some (NOT (foldl (\<lambda>crc index. table_step crc (zeroed_byte bs zero_at zero_end index))
                          (- 1) [0..<length bs])))"

definition crc32c_page_mut_with_zeroed :: "platform \<Rightarrow> bytes \<Rightarrow> nat \<Rightarrow> nat \<Rightarrow> 32 word option" where
  "crc32c_page_mut_with_zeroed plat page zero_at zero_len = crc32c_with_zeroed plat page zero_at zero_len"

section \<open>The checksum of a page\<close>

definition CHECKSUM_LENGTH :: nat where "CHECKSUM_LENGTH = 4"

definition checksum_valid :: "platform \<Rightarrow> bool \<Rightarrow> bytes \<Rightarrow> bool" where
  "checksum_valid plat contiguous page \<longleftrightarrow>
    crc32c_source_with_zeroed plat contiguous page CHECKSUM_OFFSET CHECKSUM_LENGTH = Some (u32_at page CHECKSUM_OFFSET)"

definition seal_mapped :: "platform \<Rightarrow> bytes \<Rightarrow> bytes result" where
  "seal_mapped plat page =
    rbind (clear_checksum page) (\<lambda>page.
    rbind (ok_or (Corrupt ''page checksum field is invalid'')
            (crc32c_page_mut_with_zeroed plat page CHECKSUM_OFFSET CHECKSUM_LENGTH)) (\<lambda>checksum.
    put_u32 page CHECKSUM_OFFSET checksum))"

section \<open>One byte of the loop is eight steps of the register\<close>

lemma odd_and_one: "x AND 1 = of_bool (odd (x :: 32 word))"
  by (simp add: and_one_eq mod2_eq_if)

lemma crc_bit_alt: "crc_bit x = drop_bit 1 x XOR (if odd x then POLYNOMIAL else 0)"
  by (simp add: crc_bit_def odd_and_one)

lemma odd_xor: "odd (x XOR y) \<longleftrightarrow> odd x \<noteq> odd (y :: 32 word)"
  by (simp add: even_xor_iff)

lemma crc_bit_xor: "crc_bit (x XOR y) = crc_bit x XOR crc_bit y"
  by (auto simp: crc_bit_alt odd_xor drop_bit_xor xor.assoc xor.left_commute)

lemma crc_bits_xor: "crc_bits n (x XOR y) = crc_bits n x XOR crc_bits n y"
  by (induction n arbitrary: x y) (simp_all add: crc_bit_xor)

lemma crc_bits_shift: "take_bit n x = 0 \<Longrightarrow> crc_bits n x = drop_bit n x"
proof (induction n arbitrary: x)
  case (Suc n)
  have "even x" using Suc.prems by (metis bit_0 bit_take_bit_iff zero_less_Suc bit_0_eq bot_apply bot_bool_def)
  moreover have "take_bit n (drop_bit 1 x) = 0"
    using Suc.prems by (simp add: take_bit_drop_bit)
  ultimately show ?case using Suc.IH [of "drop_bit 1 x"] by (simp add: crc_bit_alt drop_bit_drop_bit)
qed simp

lemma table_step_bits: "table_step state byte = crc_bits 8 (state XOR ucast byte)"
proof -
  define x where "x = state XOR (ucast byte :: 32 word)"
  let ?x = x
  have m: "?x AND 0xFF = take_bit 8 ?x" by (simp add: take_bit_eq_mask mask_eq_exp_minus_1)
  have u: "unat (take_bit 8 ?x) < 256"
    using take_bit_nat_less_exp [of 8 "unat ?x"] by (simp add: unsigned_take_bit_eq)
  have t: "crc_table ! unat (?x AND 0xFF) = crc_bits 8 (take_bit 8 ?x)"
    using u by (simp add: crc_table_def m)
  have s: "?x = take_bit 8 ?x XOR (?x AND NOT (mask 8))"
    by (rule bit_eqI) (auto simp: bit_simps)
  have z: "take_bit 8 (?x AND NOT (mask 8)) = 0" by (rule bit_eqI) (auto simp: bit_simps)
  have d: "drop_bit 8 (?x AND NOT (mask 8)) = drop_bit 8 state"
    by (rule bit_eqI) (auto simp: bit_simps x_def dest: bit_imp_le_length)
  have "crc_bits 8 ?x = crc_bits 8 (take_bit 8 ?x) XOR drop_bit 8 state"
    by (subst s) (simp only: crc_bits_xor crc_bits_shift [OF z] d)
  thus ?thesis using t by (simp add: table_step_def x_def)
qed

section \<open>The register never forgets\<close>

lemma xor_right_cancel: "x XOR z = y XOR z \<longleftrightarrow> x = (y :: 32 word)"
proof
  assume "x XOR z = y XOR z"
  hence "(x XOR z) XOR z = (y XOR z) XOR z" by simp
  thus "x = y" by (simp add: xor.assoc)
qed simp

lemma crc_bit_inj: "crc_bit x = crc_bit y \<longleftrightarrow> x = y"
proof
  assume e: "crc_bit x = crc_bit y"
  have p: "bit POLYNOMIAL 31" by (simp add: POLYNOMIAL_def)
  have "\<not> bit (drop_bit 1 z) 31" for z :: "32 word" using bit_imp_le_length [of z 32] by (auto simp: bit_drop_bit_eq)
  hence top: "bit (crc_bit z) 31 \<longleftrightarrow> odd z" for z
    using p by (simp add: crc_bit_alt bit_xor_iff del: drop_bit_Suc)
  have o: "odd x \<longleftrightarrow> odd y" using e top [of x] top [of y] by simp
  hence d: "drop_bit 1 x = drop_bit 1 y" using e by (auto simp: crc_bit_alt xor_right_cancel)
  show "x = y"
  proof (rule bit_word_eqI)
    fix n show "bit x n \<longleftrightarrow> bit y n"
      using o arg_cong [OF d, of "\<lambda>z. bit z (n - 1)"] by (cases n) (simp_all add: bit_0 bit_simps)
  qed
qed simp

lemma crc_bits_inj: "crc_bits n x = crc_bits n y \<longleftrightarrow> x = y"
  by (induction n arbitrary: x y) (simp_all add: crc_bit_inj)

lemma ucast_byte_inj: "(ucast b :: 32 word) = ucast b' \<longleftrightarrow> b = (b' :: 8 word)"
  using unat_byte [of b] unat_byte [of b'] by (simp add: word_unat_eq_iff unat_ucast)

lemma table_step_state: "table_step s b = table_step s' b \<longleftrightarrow> s = s'"
  by (simp add: table_step_bits crc_bits_inj xor_right_cancel)

lemma table_step_byte: "table_step s b = table_step s b' \<longleftrightarrow> b = b'"
  by (simp add: table_step_bits crc_bits_inj xor.commute [of s] xor_right_cancel ucast_byte_inj)

lemma run_state: "foldl table_step s bs = foldl table_step s' bs \<longleftrightarrow> s = s'"
  by (induction bs arbitrary: s s') (simp_all add: table_step_state)

text \<open>Two inputs that differ in one byte have different checksums.\<close>

lemma crc_one_byte:
  assumes "i < length bs" "bs ! i \<noteq> b"
  shows "crc32c_pointer_table crc (bs[i := b]) \<noteq> crc32c_pointer_table crc bs"
proof -
  let ?s = "foldl table_step (NOT crc) (take i bs)"
  have "foldl table_step (NOT crc) (bs[i := b]) = foldl table_step (table_step ?s b) (drop (Suc i) bs)"
    using assms(1) by (simp add: upd_conv_take_nth_drop)
  moreover have "foldl table_step (NOT crc) bs = foldl table_step (table_step ?s (bs ! i)) (drop (Suc i) bs)"
    using foldl_append [of table_step "NOT crc" "take i bs" "bs ! i # drop (Suc i) bs"] assms(1)
    by (simp flip: id_take_nth_drop)
  ultimately have "foldl table_step (NOT crc) (bs[i := b]) \<noteq> foldl table_step (NOT crc) bs"
    using assms(2) by (simp add: run_state table_step_byte)
  thus ?thesis by (simp add: crc32c_pointer_table_def)
qed

section \<open>The optimised routines agree\<close>

lemma crc_bit_divides: "word_reverse (divide_step (word_reverse s) b) = crc_bit (s XOR of_bool b)"
proof (rule bit_word_eqI)
  fix n assume n: "n < LENGTH(32)"
  have p: "bit CASTAGNOLI (31 - n) \<longleftrightarrow> bit POLYNOMIAL n"
  proof -
    have "word_reverse CASTAGNOLI = POLYNOMIAL" by (simp add: CASTAGNOLI_def POLYNOMIAL_def word_reverse_def upt_rec numeral_nat)
    thus ?thesis using n bit_word_reverse_iff [of CASTAGNOLI n] by simp
  qed
  have o: "odd (s XOR of_bool b) \<longleftrightarrow> bit s 0 \<noteq> b" by (simp add: odd_xor bit_0)
  have "bit (word_reverse (divide_step (word_reverse s) b)) n \<longleftrightarrow> (n < 31 \<and> bit s (Suc n)) \<noteq> ((bit s 0 \<noteq> b) \<and> bit POLYNOMIAL n)"
    using n p unfolding divide_step_def bit_word_reverse_iff bit_xor_iff bit_push_bit_iff
    by (auto simp: bit_word_reverse_iff Suc_diff_Suc)
  moreover have "bit (crc_bit (s XOR of_bool b)) n \<longleftrightarrow> (n < 31 \<and> bit s (Suc n)) \<noteq> ((bit s 0 \<noteq> b) \<and> bit POLYNOMIAL n)"
    using n unfolding crc_bit_alt o bit_xor_iff bit_drop_bit_eq by (auto simp: bit_xor_iff bit_of_bool_iff dest: bit_imp_le_length)
  ultimately show "bit (word_reverse (divide_step (word_reverse s) b)) n \<longleftrightarrow> bit (crc_bit (s XOR of_bool b)) n" by simp
qed

lemma crc_bits_divides:
  "take_bit n v = v \<Longrightarrow> word_reverse (foldl divide_step (word_reverse s) (map (bit v) [0..<n])) = crc_bits n (s XOR v)"
proof (induction n arbitrary: s v)
  case (Suc n)
  have d: "take_bit n (drop_bit 1 v) = drop_bit 1 v"
    using Suc.prems by (metis One_nat_def add.commute plus_1_eq_Suc take_bit_drop_bit)
  have e: "v = of_bool (bit v 0) XOR (v XOR of_bool (bit v 0))" by (simp add: xor.left_commute)
  have o: "even (v XOR of_bool (bit v 0))" by (simp add: even_xor_iff bit_0)
  have c: "crc_bit (v XOR of_bool (bit v 0)) = drop_bit 1 v"
    unfolding crc_bit_alt using o by (simp add: drop_bit_xor)
  have "crc_bit (s XOR v) = crc_bit (s XOR of_bool (bit v 0)) XOR crc_bit (v XOR of_bool (bit v 0))"
    by (simp only: crc_bit_xor [symmetric] xor.assoc e [symmetric])
  hence s: "crc_bit (s XOR v) = crc_bit (s XOR of_bool (bit v 0)) XOR drop_bit 1 v" by (simp only: c)
  have m: "map (bit v) [0..<Suc n] = bit v 0 # map (bit (drop_bit 1 v)) [0..<n]"
    by (simp add: upt_conv_Cons map_Suc_upt [symmetric] bit_drop_bit_eq del: upt_Suc)
  have "word_reverse (foldl divide_step (divide_step (word_reverse s) (bit v 0)) (map (bit (drop_bit 1 v)) [0..<n]))
      = crc_bits n (crc_bit (s XOR of_bool (bit v 0)) XOR drop_bit 1 v)"
    using Suc.IH [OF d, of "crc_bit (s XOR of_bool (bit v 0))"] by (simp flip: crc_bit_divides)
  thus ?case by (simp only: m foldl_Cons crc_bits.simps s)
qed simp

lemma table_step_reflected: "table_step s b = reflected s [b]"
proof -
  have t: "take_bit 8 (ucast b :: 32 word) = ucast b" by (rule bit_word_eqI) (auto simp: bit_simps dest: bit_imp_le_length)
  have m: "map (bit (ucast b :: 32 word)) [0..<8] = map (bit b) [0..<8]" by (auto simp: bit_simps)
  show ?thesis using crc_bits_divides [OF t, of s, unfolded m] by (simp add: table_step_bits reflected_def message_bits_def)
qed

lemma table_run_reflected: "foldl table_step s bs = reflected s bs"
proof (induction bs arbitrary: s)
  case (Cons b bs)
  show ?case using Cons reflected_append [of s "[b]" bs] by (simp add: table_step_reflected)
qed simp

lemma pointer_table_eq: "crc32c_pointer_table crc bs = crc32c crc bs"
  by (simp add: crc32c_pointer_table_def table_run_reflected crc32c_reflected)

lemma ucast_state [simp]: "ucast (ucast w :: 64 word) = (w :: 32 word)"
  by (rule bit_word_eqI) (simp add: bit_unsigned_iff)

lemma words_x86_64: "\<exists>state rest. crc32c_words_x86_64 (ucast s) bs = (ucast state, rest) \<and> reflected state rest = reflected s bs"
proof (induction "length bs" arbitrary: s bs rule: less_induct)
  case less
  show ?case
  proof (cases "length bs \<ge> 8")
    case True
    have r: "reflected (reflected s (take 8 bs)) (drop 8 bs) = reflected s bs" by (simp flip: reflected_append)
    have m: "mm_crc32_u64 (ucast s) (from_le_bytes (take 8 bs)) = ucast (reflected s (take 8 bs))"
      using True by (simp add: mm_crc32_u64_def instruction_word)
    show ?thesis using less [of "drop 8 bs" "reflected s (take 8 bs)"] True
      by (subst crc32c_words_x86_64.simps) (simp add: m r)
  next
    case False
    thus ?thesis by (subst crc32c_words_x86_64.simps) auto
  qed
qed

lemma pointer_x86_64_eq: "crc32c_pointer_x86_64 crc bs = crc32c crc bs"
proof -
  obtain state rest where w: "crc32c_words_x86_64 (ucast (NOT crc)) bs = (ucast state, rest)" "reflected state rest = reflected (NOT crc) bs"
    using words_x86_64 by blast
  have f: "foldl (\<lambda>state byte. ucast (mm_crc32_u8 (ucast state) byte)) (ucast s :: 64 word) xs = ucast (foldl crc32_instruction s xs)" for s xs
    by (induction xs arbitrary: s) (simp_all add: mm_crc32_u8_def)
  show ?thesis using w(2) by (auto simp: crc32c_pointer_x86_64_def w(1) Let_def f instructions_fold crc32c_reflected)
qed

lemma words_aarch64: "\<exists>state rest. crc32c_words_aarch64 s bs = (state, rest) \<and> reflected state rest = reflected s bs"
proof (induction "length bs" arbitrary: s bs rule: less_induct)
  case less
  show ?case
  proof (cases "length bs \<ge> 8")
    case True
    have r: "reflected (reflected s (take 8 bs)) (drop 8 bs) = reflected s bs" by (simp flip: reflected_append)
    show ?thesis using less [of "drop 8 bs" "reflected s (take 8 bs)"] True
      by (subst crc32c_words_aarch64.simps) (simp add: arm_crc32cd_def instruction_word r)
  next
    case False
    thus ?thesis by (subst crc32c_words_aarch64.simps) auto
  qed
qed

lemma pointer_aarch64_eq: "crc32c_pointer_aarch64 crc bs = crc32c crc bs"
proof -
  obtain state rest where w: "crc32c_words_aarch64 (NOT crc) bs = (state, rest)" "reflected state rest = reflected (NOT crc) bs"
    using words_aarch64 by blast
  have f: "foldl arm_crc32cb s xs = foldl crc32_instruction s xs" for s xs
    by (induction xs arbitrary: s) (simp_all add: arm_crc32cb_def)
  show ?thesis using w(2) by (auto simp: crc32c_pointer_aarch64_def w(1) Let_def f instructions_fold crc32c_reflected)
qed

lemma pointer_append_eq: "crc32c_pointer_append target = crc32c"
  by (auto simp: crc32c_pointer_append_def pointer_x86_64_eq pointer_aarch64_eq pointer_table_eq fun_eq_iff split: cpu.splits bool.splits)

lemma crc32c_one_byte: "i < length bs \<Longrightarrow> bs ! i \<noteq> b \<Longrightarrow> crc32c crc (bs[i := b]) \<noteq> crc32c crc bs"
  using crc_one_byte by (simp add: pointer_table_eq)

text \<open>What the code relies on of the \<open>crc32c\<close> crate.\<close>

definition castagnoli :: "platform \<Rightarrow> bool" where
  "castagnoli plat \<longleftrightarrow> (\<forall>crc bs. pf_crc32c_append plat crc bs = crc32c crc bs)"

definition zeroed :: "bytes \<Rightarrow> nat \<Rightarrow> nat \<Rightarrow> bytes" where
  "zeroed bs zero_at zero_len = take zero_at bs @ replicate zero_len 0 @ drop (zero_at + zero_len) bs"

lemma crc32c_append: "crc32c (crc32c crc xs) ys = crc32c crc (xs @ ys)"
  by (simp add: crc32c_reflected reflected_append)

lemma crc32c_Nil [simp]: "crc32c crc [] = crc"
  by (simp add: crc32c_reflected)

lemma append_zeroes_eq: "append_zeroes crc32c crc n = crc32c crc (replicate n 0)"
proof (induction n arbitrary: crc rule: less_induct)
  case (less n)
  have r: "replicate 64 0 @ replicate (n - 64) 0 = (replicate n 0 :: bytes)" if "64 \<le> n"
    using that by (simp flip: replicate_add)
  show ?case using less [of "n - 64"] r
    by (subst append_zeroes.simps) (auto simp: crc32c_append)
qed

lemma with_zeroed_eq:
  assumes "castagnoli plat" "zero_at + zero_len \<le> length bs" "length bs \<le> usize_max"
  shows "crc32c_with_zeroed plat bs zero_at zero_len = Some (crc32c 0 (zeroed bs zero_at zero_len))"
    "crc32c_pointer_with_zeroed plat bs zero_at zero_len = crc32c 0 (zeroed bs zero_at zero_len)"
proof -
  have "pf_crc32c_append plat = crc32c" using assms(1) by (simp add: castagnoli_def fun_eq_iff)
  thus "crc32c_with_zeroed plat bs zero_at zero_len = Some (crc32c 0 (zeroed bs zero_at zero_len))"
    "crc32c_pointer_with_zeroed plat bs zero_at zero_len = crc32c 0 (zeroed bs zero_at zero_len)"
    using assms(2,3)
    by (simp_all add: crc32c_with_zeroed_def crc32c_pointer_with_zeroed_def pointer_append_eq usize_checked_add_def Let_def append_zeroes_eq crc32c_append zeroed_def)
qed

lemma source_with_zeroed_eq:
  assumes "castagnoli plat" "zero_at + zero_len \<le> length bs" "length bs \<le> usize_max"
  shows "crc32c_source_with_zeroed plat contiguous bs zero_at zero_len = Some (crc32c 0 (zeroed bs zero_at zero_len))"
proof -
  have "map (zeroed_byte bs zero_at (zero_at + zero_len)) [0..<length bs] = zeroed bs zero_at zero_len"
    using assms(2) by (intro nth_equalityI) (auto simp: zeroed_def zeroed_byte_def nth_append min_def)
  hence "foldl (\<lambda>crc index. table_step crc (zeroed_byte bs zero_at (zero_at + zero_len) index)) s [0..<length bs]
      = foldl table_step s (zeroed bs zero_at zero_len)" for s
    by (metis foldl_map)
  thus ?thesis using assms with_zeroed_eq(2) [OF assms]
    by (simp add: crc32c_source_with_zeroed_def usize_checked_add_def crc32c_reflected table_run_reflected)
qed

section \<open>A checksum field inside a page\<close>

definition field_valid :: "nat \<Rightarrow> bytes \<Rightarrow> bool" where
  "field_valid at page \<longleftrightarrow> crc32c 0 (zeroed page at 4) = u32_at page at"

lemma zeroed_wr: "length bs = n \<Longrightarrow> at + n \<le> length p \<Longrightarrow> zeroed (wr p at bs) at n = zeroed p at n"
  by (simp add: zeroed_def wr_def)

lemma length_zeroed [simp]: "at + n \<le> length p \<Longrightarrow> length (zeroed p at n) = length p"
  by (simp add: zeroed_def)

lemma nth_zeroed:
  "at + n \<le> length p \<Longrightarrow> j < length p \<Longrightarrow> zeroed p at n ! j = (if at \<le> j \<and> j < at + n then 0 else p ! j)"
  by (auto simp: zeroed_def nth_append min_def)

lemma field_valid_put:
  assumes "at + 4 \<le> length p" "crc32c 0 (zeroed p at 4) = crc"
  shows "field_valid at (wr p at (to_le_bytes crc))"
  using assms by (simp add: field_valid_def zeroed_wr byte_simps)

lemma field_one_byte:
  assumes v: "field_valid at p" and at: "at + 4 \<le> length p" and i: "i < length p" "p ! i \<noteq> b"
  shows "\<not> field_valid at (p[i := b])"
proof (cases "at \<le> i \<and> i < at + 4")
  case True
  have "zeroed (p[i := b]) at 4 = zeroed p at 4" using True by (simp add: zeroed_def)
  moreover have "u32_at (p[i := b]) at \<noteq> u32_at p at"
  proof
    assume "u32_at (p[i := b]) at = u32_at p at"
    hence "to_le_bytes (from_le_bytes (rd (p[i := b]) at 4) :: 32 word) = to_le_bytes (from_le_bytes (rd p at 4) :: 32 word)"
      by (simp add: u32_at_def)
    hence "rd (p[i := b]) at 4 = rd p at 4" using at by (simp add: to_from_le_bytes)
    moreover have "rd (p[i := b]) at 4 ! (i - at) = b" "rd p at 4 ! (i - at) = p ! i"
      using True at i nth_rd [of at 4 "p[i := b]" "i - at"] nth_rd [of at 4 p "i - at"] by auto
    ultimately show False using i(2) by simp
  qed
  ultimately show ?thesis using v by (simp add: field_valid_def)
next
  case False
  have "zeroed (p[i := b]) at 4 = (zeroed p at 4)[i := b]" "zeroed p at 4 ! i = p ! i" "length (zeroed p at 4) = length p"
    using False at i by (auto simp: nth_zeroed nth_list_update intro!: nth_equalityI)
  moreover have "rd (p[i := b]) at 4 = rd p at 4"
    using False at by (intro nth_equalityI) (auto simp: nth_rd nth_list_update)
  hence "u32_at (p[i := b]) at = u32_at p at" by (simp add: u32_at_def)
  ultimately show ?thesis using v crc32c_one_byte [of i "zeroed p at 4" b 0] i by (simp add: field_valid_def)
qed

lemma checksum_valid_field:
  assumes "castagnoli plat" "length p = PAGE_SIZE"
  shows "checksum_valid plat contiguous p \<longleftrightarrow> field_valid CHECKSUM_OFFSET p"
  using source_with_zeroed_eq [OF assms(1), of CHECKSUM_OFFSET CHECKSUM_LENGTH p] assms(2)
  by (simp add: checksum_valid_def field_valid_def CHECKSUM_OFFSET_def CHECKSUM_LENGTH_def PAGE_SIZE_def usize_max_def)

lemma seal_mapped_eq:
  assumes "castagnoli plat" "length p = PAGE_SIZE"
  shows "seal_mapped plat p = Inr (wr p CHECKSUM_OFFSET (to_le_bytes (crc32c 0 (zeroed p CHECKSUM_OFFSET 4))))"
proof -
  let ?q = "wr p CHECKSUM_OFFSET (to_le_bytes (0 :: 32 word))"
  have c: "clear_checksum p = Inr ?q" by (simp add: clear_checksum_def page_simps CHECKSUM_OFFSET_def PAGE_SIZE_def)
  have l: "length ?q = PAGE_SIZE" using assms(2) by (simp add: CHECKSUM_OFFSET_def PAGE_SIZE_def)
  have z: "zeroed ?q CHECKSUM_OFFSET 4 = zeroed p CHECKSUM_OFFSET 4"
    using assms(2) by (intro zeroed_wr) (simp_all add: CHECKSUM_OFFSET_def PAGE_SIZE_def)
  have "crc32c_page_mut_with_zeroed plat ?q CHECKSUM_OFFSET CHECKSUM_LENGTH = Some (crc32c 0 (zeroed p CHECKSUM_OFFSET 4))"
    using with_zeroed_eq(1) [OF assms(1), of CHECKSUM_OFFSET 4 ?q] l z
    by (simp add: crc32c_page_mut_with_zeroed_def CHECKSUM_LENGTH_def CHECKSUM_OFFSET_def PAGE_SIZE_def usize_max_def)
  thus ?thesis using assms(2)
    by (simp add: seal_mapped_def c page_simps CHECKSUM_OFFSET_def PAGE_SIZE_def wr_wr_same)
qed

section \<open>Properties\<close>

text \<open>A platform of the examples: no CRC instructions, and a crate that computes what it documents.\<close>

definition table_platform :: platform where
  "table_platform = \<lparr> pf_cpu = Other_cpu, pf_crc32c_append = crc32c \<rparr>"

text \<open>C33. Every checksum routine computes CRC-32C: on any processor, with or without its CRC instructions, the pointer
  routine, and the byte loop over a source that is not contiguous, and the routines on a slice and on a mutable page, return the
  CRC-32C of the bytes with the field read as zero, for every position and length of a field that lies
  inside the bytes, and no checksum for any other field.\<close>

theorem checksum_paths_agree:
  assumes "\<forall>crc bs. pf_crc32c_append plat crc bs = crc32c crc bs" "length bs \<le> usize_max"
  shows "crc32c_source_with_zeroed plat contiguous bs zero_at zero_len
      = (if zero_at + zero_len \<le> length bs then Some (crc32c 0 (zeroed bs zero_at zero_len)) else None)
    \<and> crc32c_with_zeroed plat bs zero_at zero_len = crc32c_source_with_zeroed plat contiguous bs zero_at zero_len
    \<and> crc32c_page_mut_with_zeroed plat bs zero_at zero_len = crc32c_source_with_zeroed plat contiguous bs zero_at zero_len
    \<and> crc32c_pointer_append (pf_cpu plat) crc bs = crc32c crc bs"
proof (cases "zero_at + zero_len \<le> length bs")
  case True
  have c: "castagnoli plat" using assms(1) by (simp add: castagnoli_def)
  show ?thesis using source_with_zeroed_eq [OF c True assms(2)] with_zeroed_eq(1) [OF c True assms(2)] True
    by (simp add: crc32c_page_mut_with_zeroed_def pointer_append_eq)
next
  case False
  thus ?thesis
    by (simp add: crc32c_page_mut_with_zeroed_def crc32c_source_with_zeroed_def crc32c_with_zeroed_def usize_checked_add_def pointer_append_eq)
qed

theorem checksum_paths_agree_witness:
  "crc32c_source_with_zeroed \<lparr> pf_cpu = X86_64 True, pf_crc32c_append = crc32c \<rparr> True (replicate 200 7) 10 130
     = Some (crc32c 0 (replicate 10 7 @ replicate 130 0 @ replicate 60 7))"
  using checksum_paths_agree [of "\<lparr> pf_cpu = X86_64 True, pf_crc32c_append = crc32c \<rparr>" "replicate 200 7" True 10 130]
  by (simp add: usize_max_def zeroed_def)

text \<open>C13. Sealing a page changes only its checksum field and makes the page valid, and no change of a single byte of a
  sealed page, in the field or elsewhere, leaves it valid.\<close>

theorem seal_detects_byte_change:
  assumes "\<forall>crc bs. pf_crc32c_append plat crc bs = crc32c crc bs" "length page = PAGE_SIZE"
  shows "\<exists>sealed. seal_mapped plat page = Inr sealed \<and> length sealed = PAGE_SIZE \<and> checksum_valid plat contiguous sealed
    \<and> (\<forall>i<PAGE_SIZE. i < 28 \<or> 32 \<le> i \<longrightarrow> sealed ! i = page ! i)
    \<and> (\<forall>i<PAGE_SIZE. \<forall>b. sealed ! i \<noteq> b \<longrightarrow> \<not> checksum_valid plat contiguous (sealed[i := b]))"
proof -
  have c: "castagnoli plat" using assms(1) by (simp add: castagnoli_def)
  let ?s = "wr page CHECKSUM_OFFSET (to_le_bytes (crc32c 0 (zeroed page CHECKSUM_OFFSET 4)))"
  have l: "length ?s = PAGE_SIZE" using assms(2) by (simp add: CHECKSUM_OFFSET_def PAGE_SIZE_def)
  have v: "field_valid CHECKSUM_OFFSET ?s"
    by (rule field_valid_put) (use assms(2) in \<open>simp_all add: CHECKSUM_OFFSET_def PAGE_SIZE_def\<close>)
  have "\<not> field_valid CHECKSUM_OFFSET (?s[i := b])" if "i < PAGE_SIZE" "?s ! i \<noteq> b" for i b
    by (rule field_one_byte [OF v]) (use l that in \<open>simp_all add: CHECKSUM_OFFSET_def PAGE_SIZE_def\<close>)
  moreover have "?s ! i = page ! i" if "i < PAGE_SIZE" "i < 28 \<or> 32 \<le> i" for i
    using that assms(2) by (auto simp: nth_wr CHECKSUM_OFFSET_def PAGE_SIZE_def)
  ultimately show ?thesis using seal_mapped_eq [OF c assms(2)] l v checksum_valid_field [OF c] by auto
qed

theorem seal_detects_byte_change_witness:
  "\<exists>sealed. seal_mapped table_platform (replicate PAGE_SIZE 3) = Inr sealed \<and> checksum_valid table_platform False sealed
    \<and> \<not> checksum_valid table_platform False (sealed[100 := 4])"
proof -
  obtain sealed where s: "seal_mapped table_platform (replicate PAGE_SIZE 3) = Inr sealed" "checksum_valid table_platform False sealed"
    "\<forall>i<PAGE_SIZE. i < 28 \<or> 32 \<le> i \<longrightarrow> sealed ! i = replicate PAGE_SIZE 3 ! i"
    "\<forall>i<PAGE_SIZE. \<forall>b. sealed ! i \<noteq> b \<longrightarrow> \<not> checksum_valid table_platform False (sealed[i := b])"
    using seal_detects_byte_change [of table_platform "replicate PAGE_SIZE 3" False] by (auto simp: table_platform_def)
  have "sealed ! 100 = 3" using s(3) by (simp add: PAGE_SIZE_def)
  hence "\<not> checksum_valid table_platform False (sealed[100 := 4])" using s(4) by (simp add: PAGE_SIZE_def)
  thus ?thesis using s(1,2) by blast
qed

end
