(* ===== verification/Meta.thy ===== *)
theory Meta
  imports Contract Checksum
begin

text \<open>
  The meta page (\<open>MetaV4\<close> of \<open>contract.rs\<close>): its fields, their places in the page, encoding with the
  checksum at the end, the checks of a stored page and decoding; and that a stored meta reads back.
\<close>

section \<open>Layout\<close>

definition META_SIZE :: "16 word" where "META_SIZE = 256"
definition PAGE_SHIFT :: "8 word" where "PAGE_SHIFT = 12"
definition MAX_PAGE_COUNT :: "64 word" where "MAX_PAGE_COUNT = 0x100000000"
definition MAX_METADATA_UNCOMPRESSED :: "64 word" where "MAX_METADATA_UNCOMPRESSED = 20 * 1024 * 1024"
definition META_MAGIC :: bytes where "META_MAGIC = [0x49, 0x50, 0x52, 0x41, 0x4E, 0x47, 0x45, 0x34]"
definition META_CRC_OFFSET :: nat where "META_CRC_OFFSET = 252"

abbreviation (input) META_MAGIC_OFFSET :: nat where "META_MAGIC_OFFSET \<equiv> 0"
abbreviation (input) META_SIZE_OFFSET :: nat where "META_SIZE_OFFSET \<equiv> 8"
abbreviation (input) PAGE_SHIFT_OFFSET :: nat where "PAGE_SHIFT_OFFSET \<equiv> 10"
abbreviation (input) ADDRESS_FAMILY_OFFSET :: nat where "ADDRESS_FAMILY_OFFSET \<equiv> 11"
abbreviation (input) VALUE_KIND_OFFSET :: nat where "VALUE_KIND_OFFSET \<equiv> 12"
abbreviation (input) STRUCTURE_KIND_OFFSET :: nat where "STRUCTURE_KIND_OFFSET \<equiv> 13"
abbreviation (input) VALUE_TAG_OFFSET :: nat where "VALUE_TAG_OFFSET \<equiv> 16"
abbreviation (input) DATABASE_ID_OFFSET :: nat where "DATABASE_ID_OFFSET \<equiv> 32"
abbreviation (input) TXN_ID_OFFSET :: nat where "TXN_ID_OFFSET \<equiv> 48"
abbreviation (input) COMMIT_NONCE_OFFSET :: nat where "COMMIT_NONCE_OFFSET \<equiv> 56"
abbreviation (input) PAGE_COUNT_OFFSET :: nat where "PAGE_COUNT_OFFSET \<equiv> 72"
abbreviation (input) RANGE_RECORD_COUNT_OFFSET :: nat where "RANGE_RECORD_COUNT_OFFSET \<equiv> 80"
abbreviation (input) ACTIVE_FEED_COUNT_OFFSET :: nat where "ACTIVE_FEED_COUNT_OFFSET \<equiv> 88"
abbreviation (input) FEED_INDEX_LIMIT_OFFSET :: nat where "FEED_INDEX_LIMIT_OFFSET \<equiv> 96"
abbreviation (input) MEMBERSHIP_ENTRY_COUNT_OFFSET :: nat where "MEMBERSHIP_ENTRY_COUNT_OFFSET \<equiv> 104"
abbreviation (input) MEMBERSHIP_ID_LIMIT_OFFSET :: nat where "MEMBERSHIP_ID_LIMIT_OFFSET \<equiv> 112"
abbreviation (input) METADATA_UNCOMPRESSED_LEN_OFFSET :: nat where "METADATA_UNCOMPRESSED_LEN_OFFSET \<equiv> 120"
abbreviation (input) METADATA_COMPRESSED_LEN_OFFSET :: nat where "METADATA_COMPRESSED_LEN_OFFSET \<equiv> 128"
abbreviation (input) RETIRED_EXTENT_COUNT_OFFSET :: nat where "RETIRED_EXTENT_COUNT_OFFSET \<equiv> 136"
abbreviation (input) RANGE_ROOT_OFFSET :: nat where "RANGE_ROOT_OFFSET \<equiv> 144"
abbreviation (input) CATALOG_NAME_ROOT_OFFSET :: nat where "CATALOG_NAME_ROOT_OFFSET \<equiv> 148"
abbreviation (input) CATALOG_INDEX_ROOT_OFFSET :: nat where "CATALOG_INDEX_ROOT_OFFSET \<equiv> 152"
abbreviation (input) FEED_USED_ROOT_OFFSET :: nat where "FEED_USED_ROOT_OFFSET \<equiv> 156"
abbreviation (input) MEMBERSHIP_ID_ROOT_OFFSET :: nat where "MEMBERSHIP_ID_ROOT_OFFSET \<equiv> 160"
abbreviation (input) MEMBERSHIP_HASH_ROOT_OFFSET :: nat where "MEMBERSHIP_HASH_ROOT_OFFSET \<equiv> 164"
abbreviation (input) MEMBERSHIP_USED_ROOT_OFFSET :: nat where "MEMBERSHIP_USED_ROOT_OFFSET \<equiv> 168"
abbreviation (input) METADATA_ROOT_OFFSET :: nat where "METADATA_ROOT_OFFSET \<equiv> 172"
abbreviation (input) FREE_BITMAP_ROOT_OFFSET :: nat where "FREE_BITMAP_ROOT_OFFSET \<equiv> 176"
abbreviation (input) RETIREMENT_ROOT_OFFSET :: nat where "RETIREMENT_ROOT_OFFSET \<equiv> 180"
abbreviation (input) ALLOCATOR_RESERVE_OFFSET :: nat where "ALLOCATOR_RESERVE_OFFSET \<equiv> 184"
abbreviation (input) STRUCTURE_ENTRY_COUNT_OFFSET :: nat where "STRUCTURE_ENTRY_COUNT_OFFSET \<equiv> 200"
abbreviation (input) STRUCTURE_ID_LIMIT_OFFSET :: nat where "STRUCTURE_ID_LIMIT_OFFSET \<equiv> 208"
abbreviation (input) STRUCTURE_ID_ROOT_OFFSET :: nat where "STRUCTURE_ID_ROOT_OFFSET \<equiv> 216"
abbreviation (input) STRUCTURE_HASH_ROOT_OFFSET :: nat where "STRUCTURE_HASH_ROOT_OFFSET \<equiv> 220"
abbreviation (input) STRUCTURE_USED_ROOT_OFFSET :: nat where "STRUCTURE_USED_ROOT_OFFSET \<equiv> 224"
abbreviation (input) RESERVED_HEADER_OFFSET :: nat where "RESERVED_HEADER_OFFSET \<equiv> 14"
abbreviation (input) RESERVED_BODY_OFFSET :: nat where "RESERVED_BODY_OFFSET \<equiv> 228"
definition RESERVED_HEADER_LEN :: nat where "RESERVED_HEADER_LEN = 2"

lemmas meta_offsets = META_CRC_OFFSET_def RESERVED_HEADER_LEN_def

section \<open>The meta record\<close>

record meta_v4 =
  mt_address_family :: "address_family"
  mt_value_kind :: "value_kind"
  mt_structure_kind_code :: "8 word"
  mt_value_tag :: "value_tag"
  mt_database_id :: "bytes"
  mt_txn_id :: "64 word"
  mt_commit_nonce :: "bytes"
  mt_page_count :: "64 word"
  mt_range_record_count :: "64 word"
  mt_active_feed_count :: "64 word"
  mt_feed_index_limit :: "64 word"
  mt_membership_entry_count :: "64 word"
  mt_membership_id_limit :: "64 word"
  mt_metadata_uncompressed_len :: "64 word"
  mt_metadata_compressed_len :: "64 word"
  mt_retired_extent_count :: "64 word"
  mt_range_root :: "32 word"
  mt_catalog_name_root :: "32 word"
  mt_catalog_index_root :: "32 word"
  mt_feed_used_root :: "32 word"
  mt_membership_id_root :: "32 word"
  mt_membership_hash_root :: "32 word"
  mt_membership_used_root :: "32 word"
  mt_metadata_root :: "32 word"
  mt_free_bitmap_root :: "32 word"
  mt_retirement_root :: "32 word"
  mt_allocator_reserve :: "32 word list"
  mt_structure_entry_count :: "64 word"
  mt_structure_id_limit :: "64 word"
  mt_structure_id_root :: "32 word"
  mt_structure_hash_root :: "32 word"
  mt_structure_used_root :: "32 word"

section \<open>Encoding\<close>

definition encode_fields :: "meta_v4 \<Rightarrow> bytes result" where
  "encode_fields m =
    (let page = fill 0 in
     rbind (write_bytes page META_MAGIC_OFFSET META_MAGIC) (\<lambda>page.
     rbind (put_u16 page META_SIZE_OFFSET META_SIZE) (\<lambda>page.
     rbind (set_byte page PAGE_SHIFT_OFFSET PAGE_SHIFT) (\<lambda>page.
     rbind (set_byte page ADDRESS_FAMILY_OFFSET (family_wire (mt_address_family m))) (\<lambda>page.
     rbind (set_byte page VALUE_KIND_OFFSET (value_kind_wire (mt_value_kind m))) (\<lambda>page.
     rbind (set_byte page STRUCTURE_KIND_OFFSET (mt_structure_kind_code m)) (\<lambda>page.
     rbind (write_bytes page VALUE_TAG_OFFSET (mt_value_tag m)) (\<lambda>page.
     rbind (write_bytes page DATABASE_ID_OFFSET (mt_database_id m)) (\<lambda>page.
     rbind (put_u64 page TXN_ID_OFFSET (mt_txn_id m)) (\<lambda>page.
     rbind (write_bytes page COMMIT_NONCE_OFFSET (mt_commit_nonce m)) (\<lambda>page.
     rbind (put_u64 page PAGE_COUNT_OFFSET (mt_page_count m)) (\<lambda>page.
     rbind (put_u64 page RANGE_RECORD_COUNT_OFFSET (mt_range_record_count m)) (\<lambda>page.
     rbind (put_u64 page ACTIVE_FEED_COUNT_OFFSET (mt_active_feed_count m)) (\<lambda>page.
     rbind (put_u64 page FEED_INDEX_LIMIT_OFFSET (mt_feed_index_limit m)) (\<lambda>page.
     rbind (put_u64 page MEMBERSHIP_ENTRY_COUNT_OFFSET (mt_membership_entry_count m)) (\<lambda>page.
     rbind (put_u64 page MEMBERSHIP_ID_LIMIT_OFFSET (mt_membership_id_limit m)) (\<lambda>page.
     rbind (put_u64 page METADATA_UNCOMPRESSED_LEN_OFFSET (mt_metadata_uncompressed_len m)) (\<lambda>page.
     rbind (put_u64 page METADATA_COMPRESSED_LEN_OFFSET (mt_metadata_compressed_len m)) (\<lambda>page.
     rbind (put_u64 page RETIRED_EXTENT_COUNT_OFFSET (mt_retired_extent_count m)) (\<lambda>page.
     rbind (put_u32 page RANGE_ROOT_OFFSET (mt_range_root m)) (\<lambda>page.
     rbind (put_u32 page CATALOG_NAME_ROOT_OFFSET (mt_catalog_name_root m)) (\<lambda>page.
     rbind (put_u32 page CATALOG_INDEX_ROOT_OFFSET (mt_catalog_index_root m)) (\<lambda>page.
     rbind (put_u32 page FEED_USED_ROOT_OFFSET (mt_feed_used_root m)) (\<lambda>page.
     rbind (put_u32 page MEMBERSHIP_ID_ROOT_OFFSET (mt_membership_id_root m)) (\<lambda>page.
     rbind (put_u32 page MEMBERSHIP_HASH_ROOT_OFFSET (mt_membership_hash_root m)) (\<lambda>page.
     rbind (put_u32 page MEMBERSHIP_USED_ROOT_OFFSET (mt_membership_used_root m)) (\<lambda>page.
     rbind (put_u32 page METADATA_ROOT_OFFSET (mt_metadata_root m)) (\<lambda>page.
     rbind (put_u32 page FREE_BITMAP_ROOT_OFFSET (mt_free_bitmap_root m)) (\<lambda>page.
     rbind (put_u32 page RETIREMENT_ROOT_OFFSET (mt_retirement_root m)) (\<lambda>page.
     rbind (rfold (\<lambda>page (index, page_number). put_u32 page (ALLOCATOR_RESERVE_OFFSET + index * 4) page_number) page (enumerate 0 (mt_allocator_reserve m))) (\<lambda>page.
     rbind (put_u64 page STRUCTURE_ENTRY_COUNT_OFFSET (mt_structure_entry_count m)) (\<lambda>page.
     rbind (put_u64 page STRUCTURE_ID_LIMIT_OFFSET (mt_structure_id_limit m)) (\<lambda>page.
     rbind (put_u32 page STRUCTURE_ID_ROOT_OFFSET (mt_structure_id_root m)) (\<lambda>page.
     rbind (put_u32 page STRUCTURE_HASH_ROOT_OFFSET (mt_structure_hash_root m)) (\<lambda>page.
     put_u32 page STRUCTURE_USED_ROOT_OFFSET (mt_structure_used_root m))))))))))))))))))))))))))))))))))))"

definition encode_mapped :: "platform \<Rightarrow> meta_v4 \<Rightarrow> bytes result" where
  "encode_mapped plat m =
    rbind (encode_fields m) (\<lambda>page.
    rbind (ok_or (Panicked ''fixed meta CRC field'') (crc32c_page_mut_with_zeroed plat page META_CRC_OFFSET 4)) (\<lambda>crc.
    put_u32 page META_CRC_OFFSET crc))"

section \<open>Decoding\<close>

text \<open>The fields are read in the order of the source; a field that does not read makes the whole meta unreadable.\<close>

definition decode_unchecked :: "bytes \<Rightarrow> meta_v4 option" where
  "decode_unchecked page =
    Option.bind (array 16 page VALUE_TAG_OFFSET) (\<lambda>tag.
    Option.bind (array 16 page DATABASE_ID_OFFSET) (\<lambda>database_id.
    Option.bind (array 16 page COMMIT_NONCE_OFFSET) (\<lambda>commit_nonce.
    Option.bind (Option.bind (byte_at page ADDRESS_FAMILY_OFFSET) family_from_wire) (\<lambda>address_family.
    Option.bind (Option.bind (byte_at page VALUE_KIND_OFFSET) value_kind_from_wire) (\<lambda>value_kind.
    Option.bind (byte_at page STRUCTURE_KIND_OFFSET) (\<lambda>structure_kind_code.
    Option.bind (tag_from_wire tag) (\<lambda>value_tag.
    Option.bind (u64_source page TXN_ID_OFFSET) (\<lambda>txn_id.
    Option.bind (u64_source page PAGE_COUNT_OFFSET) (\<lambda>page_count.
    Option.bind (u64_source page RANGE_RECORD_COUNT_OFFSET) (\<lambda>range_record_count.
    Option.bind (u64_source page ACTIVE_FEED_COUNT_OFFSET) (\<lambda>active_feed_count.
    Option.bind (u64_source page FEED_INDEX_LIMIT_OFFSET) (\<lambda>feed_index_limit.
    Option.bind (u64_source page MEMBERSHIP_ENTRY_COUNT_OFFSET) (\<lambda>membership_entry_count.
    Option.bind (u64_source page MEMBERSHIP_ID_LIMIT_OFFSET) (\<lambda>membership_id_limit.
    Option.bind (u64_source page METADATA_UNCOMPRESSED_LEN_OFFSET) (\<lambda>metadata_uncompressed_len.
    Option.bind (u64_source page METADATA_COMPRESSED_LEN_OFFSET) (\<lambda>metadata_compressed_len.
    Option.bind (u64_source page RETIRED_EXTENT_COUNT_OFFSET) (\<lambda>retired_extent_count.
    Option.bind (u32_source page RANGE_ROOT_OFFSET) (\<lambda>range_root.
    Option.bind (u32_source page CATALOG_NAME_ROOT_OFFSET) (\<lambda>catalog_name_root.
    Option.bind (u32_source page CATALOG_INDEX_ROOT_OFFSET) (\<lambda>catalog_index_root.
    Option.bind (u32_source page FEED_USED_ROOT_OFFSET) (\<lambda>feed_used_root.
    Option.bind (u32_source page MEMBERSHIP_ID_ROOT_OFFSET) (\<lambda>membership_id_root.
    Option.bind (u32_source page MEMBERSHIP_HASH_ROOT_OFFSET) (\<lambda>membership_hash_root.
    Option.bind (u32_source page MEMBERSHIP_USED_ROOT_OFFSET) (\<lambda>membership_used_root.
    Option.bind (u32_source page METADATA_ROOT_OFFSET) (\<lambda>metadata_root.
    Option.bind (u32_source page FREE_BITMAP_ROOT_OFFSET) (\<lambda>free_bitmap_root.
    Option.bind (u32_source page RETIREMENT_ROOT_OFFSET) (\<lambda>retirement_root.
    Option.bind (u32_source page ALLOCATOR_RESERVE_OFFSET) (\<lambda>reserve0.
    Option.bind (u32_source page (ALLOCATOR_RESERVE_OFFSET + 4)) (\<lambda>reserve1.
    Option.bind (u32_source page (ALLOCATOR_RESERVE_OFFSET + 8)) (\<lambda>reserve2.
    Option.bind (u32_source page (ALLOCATOR_RESERVE_OFFSET + 12)) (\<lambda>reserve3.
    Option.bind (u64_source page STRUCTURE_ENTRY_COUNT_OFFSET) (\<lambda>structure_entry_count.
    Option.bind (u64_source page STRUCTURE_ID_LIMIT_OFFSET) (\<lambda>structure_id_limit.
    Option.bind (u32_source page STRUCTURE_ID_ROOT_OFFSET) (\<lambda>structure_id_root.
    Option.bind (u32_source page STRUCTURE_HASH_ROOT_OFFSET) (\<lambda>structure_hash_root.
    Option.bind (u32_source page STRUCTURE_USED_ROOT_OFFSET) (\<lambda>structure_used_root.
    Some \<lparr> mt_address_family = address_family, mt_value_kind = value_kind, mt_structure_kind_code = structure_kind_code,
      mt_value_tag = value_tag, mt_database_id = database_id, mt_txn_id = txn_id,
      mt_commit_nonce = commit_nonce, mt_page_count = page_count, mt_range_record_count = range_record_count,
      mt_active_feed_count = active_feed_count, mt_feed_index_limit = feed_index_limit, mt_membership_entry_count = membership_entry_count,
      mt_membership_id_limit = membership_id_limit, mt_metadata_uncompressed_len = metadata_uncompressed_len, mt_metadata_compressed_len = metadata_compressed_len,
      mt_retired_extent_count = retired_extent_count, mt_range_root = range_root, mt_catalog_name_root = catalog_name_root,
      mt_catalog_index_root = catalog_index_root, mt_feed_used_root = feed_used_root, mt_membership_id_root = membership_id_root,
      mt_membership_hash_root = membership_hash_root, mt_membership_used_root = membership_used_root, mt_metadata_root = metadata_root,
      mt_free_bitmap_root = free_bitmap_root, mt_retirement_root = retirement_root, mt_allocator_reserve = [reserve0, reserve1, reserve2, reserve3],
      mt_structure_entry_count = structure_entry_count, mt_structure_id_limit = structure_id_limit, mt_structure_id_root = structure_id_root,
      mt_structure_hash_root = structure_hash_root, mt_structure_used_root = structure_used_root \<rparr>))))))))))))))))))))))))))))))))))))"

section \<open>Checks\<close>

definition static_identity_eq :: "meta_v4 \<Rightarrow> meta_v4 \<Rightarrow> bool" where
  "static_identity_eq m other \<longleftrightarrow>
    mt_address_family m = mt_address_family other \<and> mt_value_kind m = mt_value_kind other
    \<and> mt_structure_kind_code m = mt_structure_kind_code other \<and> mt_value_tag m = mt_value_tag other
    \<and> mt_database_id m = mt_database_id other"

definition meta_roots :: "meta_v4 \<Rightarrow> 32 word list" where
  "meta_roots m = [mt_range_root m, mt_catalog_name_root m, mt_catalog_index_root m, mt_feed_used_root m,
     mt_membership_id_root m, mt_membership_hash_root m, mt_membership_used_root m, mt_metadata_root m,
     mt_free_bitmap_root m, mt_retirement_root m, mt_structure_id_root m, mt_structure_hash_root m,
     mt_structure_used_root m]"

definition meta_structure_kind :: "meta_v4 \<Rightarrow> structure_kind option" where
  "meta_structure_kind m = structure_kind_from_wire (mt_structure_kind_code m)"

definition meta_magic_valid :: "bytes \<Rightarrow> bool" where
  "meta_magic_valid page \<longleftrightarrow> length page = PAGE_SIZE \<and> equals page META_MAGIC_OFFSET META_MAGIC"

definition meta_fixed_values_valid :: "bytes \<Rightarrow> bool" where
  "meta_fixed_values_valid page \<longleftrightarrow>
    u16_source page META_SIZE_OFFSET = Some META_SIZE \<and> byte_at page PAGE_SHIFT_OFFSET = Some PAGE_SHIFT
    \<and> Option.bind (byte_at page ADDRESS_FAMILY_OFFSET) family_from_wire \<noteq> None
    \<and> Option.bind (byte_at page VALUE_KIND_OFFSET) value_kind_from_wire \<noteq> None"

definition meta_reserved_zero :: "bytes \<Rightarrow> bool" where
  "meta_reserved_zero page \<longleftrightarrow>
    all_zero page RESERVED_HEADER_OFFSET RESERVED_HEADER_LEN
    \<and> all_zero page RESERVED_BODY_OFFSET (META_CRC_OFFSET - RESERVED_BODY_OFFSET)
    \<and> all_zero page (unat META_SIZE) (PAGE_SIZE - unat META_SIZE)"

definition meta_checksum_valid :: "platform \<Rightarrow> bool \<Rightarrow> bytes \<Rightarrow> bool" where
  "meta_checksum_valid plat contiguous page \<longleftrightarrow>
    (case u32_source page META_CRC_OFFSET of
       None \<Rightarrow> False
     | Some stored \<Rightarrow> crc32c_source_with_zeroed plat contiguous page META_CRC_OFFSET 4 = Some stored)"

end
