(* ===== verification/Bootstrap.thy ===== *)
theory Bootstrap
  imports Meta
begin

unbundle bit_operations_syntax

text \<open>
  Classification and selection of the two meta pages (\<open>bootstrap.rs\<close> and
  \<open>bootstrap/recovery_meta.rs\<close>): which page is readable, which is valid for the file, and which
  of two valid pages is the current generation. A page that cannot be read is the empty byte list.
\<close>

section \<open>Results\<close>

datatype open_mode = ImmutableReader | LiveReader | Writer

datatype meta_selection = ProvenCurrent | SoleMeta0 | SoleMeta1

record bootstrap =
  bs_meta :: meta_v4
  bs_selection :: meta_selection
  bs_selected_meta_page :: "8 word"
  bs_committed_bytes :: "64 word"
  bs_physical_bytes :: "64 word"

datatype commit_attempt_resolution = Committed | NotCommitted | SupersededUnknown

section \<open>A readable meta page\<close>

definition require_identity_header :: "bytes \<Rightarrow> meta_problem + unit" where
  "require_identity_header page =
    (if \<not> meta_magic_valid page then Inl Magic
     else if \<not> meta_fixed_values_valid page then Inl FixedValue
     else Inr ())"

definition require_identity_body :: "platform \<Rightarrow> bool \<Rightarrow> bytes \<Rightarrow> meta_problem + unit" where
  "require_identity_body plat contiguous page =
    (if \<not> meta_reserved_zero page then Inl Reserved
     else if \<not> meta_checksum_valid plat contiguous page then Inl Checksum
     else Inr ())"

definition identity_readable :: "platform \<Rightarrow> bool \<Rightarrow> bytes \<Rightarrow> meta_problem + meta_v4" where
  "identity_readable plat contiguous page =
    rbind (require_identity_header page) (\<lambda>_.
    rbind (require_identity_body plat contiguous page) (\<lambda>_.
    rbind (ok_or Tag (decode_unchecked page)) (\<lambda>m.
    if mt_database_id m = replicate 16 0 then Inl DatabaseId
    else Inr m)))"

section \<open>A meta that is valid for the file\<close>

definition validate_commit_identity :: "meta_v4 \<Rightarrow> meta_problem + unit" where
  "validate_commit_identity m =
    (if mt_txn_id m = 0 then Inl Transaction
     else if mt_commit_nonce m = replicate 16 0 then Inl CommitNonce
     else Inr ())"

definition validate_declared_page_count :: "meta_v4 \<Rightarrow> meta_problem + unit" where
  "validate_declared_page_count m =
    (if \<not> (2 \<le> mt_page_count m \<and> mt_page_count m \<le> MAX_PAGE_COUNT) then Inl PageCount else Inr ())"

definition validate_generation :: "meta_v4 \<Rightarrow> 64 word \<Rightarrow> meta_problem + unit" where
  "validate_generation m physical_bytes =
    rbind (validate_commit_identity m) (\<lambda>_.
    rbind (validate_declared_page_count m) (\<lambda>_.
    rbind (ok_or PageCount (checked_mul (mt_page_count m) (of_nat PAGE_SIZE))) (\<lambda>committed_bytes.
    if physical_bytes < committed_bytes then Inl PhysicalLength else Inr ())))"

fun reserve_problem :: "meta_v4 \<Rightarrow> 32 word list \<Rightarrow> 32 word list \<Rightarrow> bool" where
  "reserve_problem m seen [] \<longleftrightarrow> False"
| "reserve_problem m seen (page_number # rest) \<longleftrightarrow>
    (if page_number = 0 then reserve_problem m (seen @ [page_number]) rest
     else if page_number < 2 \<or> ucast page_number \<ge> mt_page_count m
       \<or> page_number \<in> set (meta_roots m) \<or> page_number \<in> set seen then True
     else reserve_problem m (seen @ [page_number]) rest)"

definition validate_allocator_reserve :: "meta_v4 \<Rightarrow> meta_problem + unit" where
  "validate_allocator_reserve m =
    (if reserve_problem m [] (mt_allocator_reserve m) then Inl AllocatorReserve else Inr ())"

definition validate_roots :: "meta_v4 \<Rightarrow> meta_problem + unit" where
  "validate_roots m =
    (if \<exists>root\<in>set (meta_roots m). root \<noteq> 0 \<and> (root < 2 \<or> ucast root \<ge> mt_page_count m) then Inl RootBounds
     else validate_allocator_reserve m)"

definition leaf_capacity :: "address_family \<Rightarrow> 64 word" where
  "leaf_capacity family = (case family of
     Ipv4 \<Rightarrow> of_nat ((PAGE_SIZE - 32) div (12 + 2))
   | Ipv6 \<Rightarrow> of_nat ((PAGE_SIZE - 32) div (36 + 2)))"

definition validate_range_count :: "meta_v4 \<Rightarrow> meta_problem + unit" where
  "validate_range_count m =
    (if (mt_range_record_count m = 0) \<noteq> (mt_range_root m = 0) then Inl CountInvariant
     else
       rbind (ok_or CountInvariant (checked_mul (mt_page_count m - 2) (leaf_capacity (mt_address_family m)))) (\<lambda>maximum_range_records.
       if mt_range_record_count m > maximum_range_records then Inl CountInvariant else Inr ()))"

definition validate_retirement_count :: "meta_v4 \<Rightarrow> meta_problem + unit" where
  "validate_retirement_count m =
    rbind (ok_or RetirementInvariant (checked_mul (mt_page_count m - 2) (of_nat ((PAGE_SIZE - 32) div (16 + 2))))) (\<lambda>maximum_retired_extents.
    if mt_retired_extent_count m > maximum_retired_extents
      \<or> (mt_retired_extent_count m = 0) \<noteq> (mt_retirement_root m = 0) then Inl RetirementInvariant
    else Inr ())"

definition metadata_lengths_valid :: "meta_v4 \<Rightarrow> meta_problem + bool" where
  "metadata_lengths_valid m =
    rbind (ok_or MetadataInvariant (checked_add (mt_metadata_uncompressed_len m) 65534)) (\<lambda>rounded.
    let blocks = max 1 (rounded div 65535) in
    rbind (ok_or MetadataInvariant (checked_mul 5 blocks)) (\<lambda>framing.
    rbind (ok_or MetadataInvariant
            (Option.bind (checked_add (mt_metadata_uncompressed_len m) framing) (\<lambda>v. checked_add v 6))) (\<lambda>maximum_zlib_bytes.
    rbind (ok_or MetadataInvariant (checked_mul (mt_page_count m - 2) 4048)) (\<lambda>maximum_compressed_bytes.
    Inr (mt_metadata_compressed_len m \<noteq> 0 \<and> mt_metadata_compressed_len m \<le> maximum_compressed_bytes
      \<and> mt_metadata_compressed_len m \<le> maximum_zlib_bytes
      \<and> mt_metadata_uncompressed_len m \<le> MAX_METADATA_UNCOMPRESSED)))))"

definition validate_metadata :: "meta_v4 \<Rightarrow> meta_problem + unit" where
  "validate_metadata m =
    (if mt_metadata_root m = 0
     then (if mt_metadata_uncompressed_len m \<noteq> 0 \<or> mt_metadata_compressed_len m \<noteq> 0
           then Inl MetadataInvariant else Inr ())
     else
       rbind (metadata_lengths_valid m) (\<lambda>lengths_valid.
       if \<not> lengths_valid then Inl MetadataInvariant else Inr ()))"

section \<open>The kinds of database\<close>

definition validate_direct :: "meta_v4 \<Rightarrow> meta_problem + unit" where
  "validate_direct m =
    (if mt_structure_kind_code m \<noteq> 0 \<or> mt_active_feed_count m \<noteq> 0 \<or> mt_feed_index_limit m \<noteq> 0
       \<or> mt_membership_entry_count m \<noteq> 0 \<or> mt_membership_id_limit m \<noteq> 0
       \<or> mt_catalog_name_root m \<noteq> 0 \<or> mt_catalog_index_root m \<noteq> 0 \<or> mt_feed_used_root m \<noteq> 0
       \<or> mt_membership_id_root m \<noteq> 0 \<or> mt_membership_hash_root m \<noteq> 0 \<or> mt_membership_used_root m \<noteq> 0
       \<or> mt_structure_entry_count m \<noteq> 0 \<or> mt_structure_id_limit m \<noteq> 0
       \<or> mt_structure_id_root m \<noteq> 0 \<or> mt_structure_hash_root m \<noteq> 0 \<or> mt_structure_used_root m \<noteq> 0
     then Inl KindInvariant else Inr ())"

definition validate_no_structures :: "meta_v4 \<Rightarrow> meta_problem + unit" where
  "validate_no_structures m =
    (if mt_structure_kind_code m \<noteq> 0 \<or> mt_structure_entry_count m \<noteq> 0 \<or> mt_structure_id_limit m \<noteq> 0
       \<or> mt_structure_id_root m \<noteq> 0 \<or> mt_structure_hash_root m \<noteq> 0 \<or> mt_structure_used_root m \<noteq> 0
     then Inl KindInvariant else Inr ())"

definition validate_membership_limits :: "meta_v4 \<Rightarrow> meta_problem + unit" where
  "validate_membership_limits m =
    (if mt_feed_index_limit m > MAX_PAGE_COUNT \<or> mt_active_feed_count m > mt_feed_index_limit m
       \<or> mt_membership_entry_count m > 0xFFFFFFFF
       \<or> \<not> (1 \<le> mt_membership_id_limit m \<and> mt_membership_id_limit m \<le> MAX_PAGE_COUNT)
       \<or> mt_membership_entry_count m \<ge> mt_membership_id_limit m
       \<or> mt_membership_entry_count m > mt_range_record_count m
     then Inl CountInvariant else Inr ())"

definition validate_membership_presence :: "meta_v4 \<Rightarrow> meta_problem + unit" where
  "validate_membership_presence m =
    (if mt_active_feed_count m = 0 \<and> (mt_membership_entry_count m \<noteq> 0 \<or> mt_range_record_count m \<noteq> 0)
     then Inl CountInvariant
     else if mt_membership_entry_count m = 0 \<and> mt_range_record_count m \<noteq> 0 then Inl CountInvariant
     else Inr ())"

definition validate_membership_counts :: "meta_v4 \<Rightarrow> meta_problem + unit" where
  "validate_membership_counts m =
    rbind (validate_membership_limits m) (\<lambda>_. validate_membership_presence m)"

definition validate_catalog_roots :: "meta_v4 \<Rightarrow> meta_problem + unit" where
  "validate_catalog_roots m =
    (if mt_active_feed_count m = 0
     then (if mt_catalog_name_root m \<noteq> 0 \<or> mt_catalog_index_root m \<noteq> 0 \<or> mt_feed_used_root m \<noteq> 0
           then Inl KindInvariant else Inr ())
     else if mt_catalog_name_root m = 0 \<or> mt_catalog_index_root m = 0 \<or> mt_feed_used_root m = 0
     then Inl KindInvariant
     else Inr ())"

definition validate_membership_roots :: "meta_v4 \<Rightarrow> meta_problem + unit" where
  "validate_membership_roots m =
    (if mt_membership_entry_count m = 0
     then (if mt_membership_id_root m \<noteq> 0 \<or> mt_membership_hash_root m \<noteq> 0 \<or> mt_membership_used_root m \<noteq> 0
             \<or> mt_membership_id_limit m \<noteq> 1
           then Inl KindInvariant else Inr ())
     else if mt_membership_id_root m = 0 \<or> mt_membership_hash_root m = 0 \<or> mt_membership_used_root m = 0
     then Inl KindInvariant
     else Inr ())"

definition validate_membership :: "meta_v4 \<Rightarrow> meta_problem + unit" where
  "validate_membership m =
    rbind (validate_no_structures m) (\<lambda>_.
    rbind (validate_membership_counts m) (\<lambda>_.
    rbind (validate_catalog_roots m) (\<lambda>_.
    validate_membership_roots m)))"

definition validate_structured_counts :: "meta_v4 \<Rightarrow> meta_problem + unit" where
  "validate_structured_counts m =
    (if mt_feed_index_limit m > MAX_PAGE_COUNT \<or> mt_active_feed_count m > mt_feed_index_limit m
       \<or> mt_membership_entry_count m > 0xFFFFFFFF
       \<or> \<not> (1 \<le> mt_membership_id_limit m \<and> mt_membership_id_limit m \<le> MAX_PAGE_COUNT)
       \<or> mt_membership_entry_count m \<ge> mt_membership_id_limit m
       \<or> mt_structure_entry_count m > 0xFFFFFFFF
       \<or> \<not> (1 \<le> mt_structure_id_limit m \<and> mt_structure_id_limit m \<le> MAX_PAGE_COUNT)
       \<or> mt_structure_entry_count m \<ge> mt_structure_id_limit m
       \<or> mt_structure_entry_count m > mt_range_record_count m
       \<or> mt_membership_entry_count m > mt_structure_entry_count m
       \<or> mt_active_feed_count m = 0 \<and> mt_membership_entry_count m \<noteq> 0
       \<or> mt_structure_entry_count m = 0 \<and> mt_range_record_count m \<noteq> 0
     then Inl CountInvariant else Inr ())"

definition validate_structure_roots :: "meta_v4 \<Rightarrow> meta_problem + unit" where
  "validate_structure_roots m =
    (if mt_structure_entry_count m = 0
     then (if mt_structure_id_root m \<noteq> 0 \<or> mt_structure_hash_root m \<noteq> 0 \<or> mt_structure_used_root m \<noteq> 0
             \<or> mt_structure_id_limit m \<noteq> 1
           then Inl KindInvariant else Inr ())
     else if mt_structure_id_root m = 0 \<or> mt_structure_hash_root m = 0 \<or> mt_structure_used_root m = 0
     then Inl KindInvariant
     else Inr ())"

definition validate_structured :: "meta_v4 \<Rightarrow> meta_problem + unit" where
  "validate_structured m =
    (if mt_structure_kind_code m = 0 then Inl KindInvariant
     else
       rbind (validate_structured_counts m) (\<lambda>_.
       rbind (validate_catalog_roots m) (\<lambda>_.
       rbind (validate_membership_roots m) (\<lambda>_.
       validate_structure_roots m))))"

definition validate_kind :: "meta_v4 \<Rightarrow> meta_problem + unit" where
  "validate_kind m = (case mt_value_kind m of
     VDirect \<Rightarrow> validate_direct m
   | VMembership \<Rightarrow> validate_membership m
   | VStructured \<Rightarrow> validate_structured m)"

definition bootstrap_valid :: "meta_v4 \<Rightarrow> 64 word \<Rightarrow> meta_problem + meta_v4" where
  "bootstrap_valid m physical_bytes =
    rbind (validate_generation m physical_bytes) (\<lambda>_.
    rbind (validate_roots m) (\<lambda>_.
    rbind (validate_range_count m) (\<lambda>_.
    rbind (validate_retirement_count m) (\<lambda>_.
    rbind (validate_metadata m) (\<lambda>_.
    rbind (validate_kind m) (\<lambda>_.
    Inr m))))))"

section \<open>Selection\<close>

definition require_geometry :: "64 word \<Rightarrow> bootstrap_error + unit" where
  "require_geometry physical_bytes =
    (if physical_bytes < of_nat (2 * PAGE_SIZE) then Inl FileTooShort
     else if physical_bytes mod of_nat PAGE_SIZE \<noteq> 0 then Inl FileUnaligned
     else Inr ())"

definition geometry_valid :: "64 word \<Rightarrow> bool" where
  "geometry_valid physical_bytes = (case require_geometry physical_bytes of Inr _ \<Rightarrow> True | Inl _ \<Rightarrow> False)"

definition require_same_identity :: "meta_problem + meta_v4 \<Rightarrow> meta_problem + meta_v4 \<Rightarrow> bootstrap_error + unit" where
  "require_same_identity left right =
    (case (left, right) of
       (Inr l, Inr r) \<Rightarrow> if \<not> static_identity_eq l r then Inl StaticIdentityMismatch else Inr ()
     | _ \<Rightarrow> Inr ())"

definition select_pair :: "bytes \<Rightarrow> bytes \<Rightarrow> meta_v4 \<Rightarrow> meta_v4 \<Rightarrow> bootstrap_error + (meta_v4 \<times> meta_selection \<times> 8 word)" where
  "select_pair page0 page1 m0 m1 =
    (if mt_txn_id m0 = mt_txn_id m1
     then (if \<not> same page0 page1 0 (unat META_SIZE) then Inl EqualTransactionDisagreement
           else Inr (m0, ProvenCurrent, ucast (mt_txn_id m0 AND 1)))
     else
       (let (lower, higher, higher_page) =
              (if mt_txn_id m0 < mt_txn_id m1 then (m0, m1, 1) else (m1, m0, 0 :: 8 word))
        in if mt_txn_id higher - mt_txn_id lower \<noteq> 1 then Inl TransactionGap
           else if ucast (mt_txn_id higher AND 1) \<noteq> higher_page then Inl PhysicalParity
           else Inr (higher, ProvenCurrent, higher_page)))"

definition select_candidates ::
  "bytes \<Rightarrow> bytes \<Rightarrow> meta_problem + meta_v4 \<Rightarrow> meta_problem + meta_v4 \<Rightarrow> bootstrap_error + (meta_v4 \<times> meta_selection \<times> 8 word)" where
  "select_candidates page0 page1 candidate0 candidate1 =
    (case (candidate0, candidate1) of
       (Inl p0, Inl p1) \<Rightarrow> Inl (NoBootstrapMeta p0 p1)
     | (Inr m, Inl _) \<Rightarrow> Inr (m, SoleMeta0, 0)
     | (Inl _, Inr m) \<Rightarrow> Inr (m, SoleMeta1, 1)
     | (Inr m0, Inr m1) \<Rightarrow> select_pair page0 page1 m0 m1)"

definition finish_open ::
  "meta_v4 \<Rightarrow> meta_selection \<Rightarrow> 8 word \<Rightarrow> 64 word \<Rightarrow> open_mode \<Rightarrow> bootstrap_error + bootstrap" where
  "finish_open m selection selected_meta_page physical_bytes mode =
    (if meta_structure_kind m = None then Inl (B_UnsupportedStructure (mt_structure_kind_code m))
     else if mode \<noteq> ImmutableReader \<and> selection \<noteq> ProvenCurrent then Inl CurrentGenerationUnprovable
     else
       rbind (ok_or HostAddressability (checked_mul (mt_page_count m) (of_nat PAGE_SIZE))) (\<lambda>committed_bytes.
       if mode = ImmutableReader \<and> committed_bytes \<noteq> physical_bytes then Inl ImmutableLengthMismatch
       else Inr \<lparr> bs_meta = m, bs_selection = selection, bs_selected_meta_page = selected_meta_page,
              bs_committed_bytes = committed_bytes, bs_physical_bytes = physical_bytes \<rparr>))"

definition meta_candidate :: "platform \<Rightarrow> bool \<Rightarrow> 64 word \<Rightarrow> bytes \<Rightarrow> meta_problem + meta_v4" where
  "meta_candidate plat contiguous physical_bytes page =
    rbind (identity_readable plat contiguous page) (\<lambda>m. bootstrap_valid m physical_bytes)"

definition open_meta_pages ::
  "platform \<Rightarrow> bool \<Rightarrow> bytes \<Rightarrow> bytes \<Rightarrow> 64 word \<Rightarrow> open_mode \<Rightarrow> bootstrap_error + bootstrap" where
  "open_meta_pages plat contiguous page0 page1 physical_bytes mode =
    rbind (require_geometry physical_bytes) (\<lambda>_.
    rbind (require_same_identity (identity_readable plat contiguous page0) (identity_readable plat contiguous page1)) (\<lambda>_.
    rbind (select_candidates page0 page1 (meta_candidate plat contiguous physical_bytes page0)
             (meta_candidate plat contiguous physical_bytes page1)) (\<lambda>(m, selection, selected_meta_page).
    finish_open m selection selected_meta_page physical_bytes mode)))"

definition database_id_from_meta_pages :: "platform \<Rightarrow> bool \<Rightarrow> bytes \<Rightarrow> bytes \<Rightarrow> bootstrap_error + bytes" where
  "database_id_from_meta_pages plat contiguous page0 page1 =
    (let id0 = identity_readable plat contiguous page0; id1 = identity_readable plat contiguous page1 in
     rbind (require_same_identity id0 id1) (\<lambda>_.
     case (id0, id1) of
       (Inr m, _) \<Rightarrow> Inr (mt_database_id m)
     | (_, Inr m) \<Rightarrow> Inr (mt_database_id m)
     | (Inl p0, Inl p1) \<Rightarrow> Inl (NoBootstrapMeta p0 p1)))"

definition resolve_commit_attempt ::
  "platform \<Rightarrow> bool \<Rightarrow> bytes \<Rightarrow> bytes \<Rightarrow> 64 word \<Rightarrow> bytes \<Rightarrow> 64 word \<Rightarrow> bytes \<Rightarrow> bootstrap_error + commit_attempt_resolution" where
  "resolve_commit_attempt plat contiguous page0 page1 physical_bytes database_id transaction_id commit_nonce =
    rbind (open_meta_pages plat contiguous page0 page1 physical_bytes Writer) (\<lambda>selected.
    if mt_database_id (bs_meta selected) \<noteq> database_id then Inl StaticIdentityMismatch
    else
      (case (meta_candidate plat contiguous physical_bytes page0, meta_candidate plat contiguous physical_bytes page1) of
         (Inr m0, Inr m1) \<Rightarrow>
           if \<exists>m\<in>set [m0, m1]. mt_txn_id m = transaction_id \<and> mt_commit_nonce m = commit_nonce then Inr Committed
           else if (\<exists>m\<in>set [m0, m1]. mt_txn_id m = transaction_id \<and> mt_commit_nonce m \<noteq> commit_nonce)
             \<or> mt_txn_id (bs_meta selected) < transaction_id then Inr NotCommitted
           else if mt_txn_id (bs_meta selected) > transaction_id then Inr SupersededUnknown
           else Inl CurrentGenerationUnprovable
       | _ \<Rightarrow> Inl CurrentGenerationUnprovable))"

section \<open>Recovery\<close>

record recovery_meta_state =
  rm_order :: "meta_problem + meta_v4"
  rm_recovery :: "meta_problem + meta_v4"

definition recovery_valid :: "meta_v4 \<Rightarrow> meta_problem + meta_v4" where
  "recovery_valid m =
    rbind (validate_declared_page_count m) (\<lambda>_.
    rbind (validate_roots m) (\<lambda>_.
    rbind (validate_range_count m) (\<lambda>_.
    rbind (validate_retirement_count m) (\<lambda>_.
    rbind (validate_metadata m) (\<lambda>_.
    rbind (validate_kind m) (\<lambda>_.
    Inr m))))))"

definition classify_recovery_meta :: "platform \<Rightarrow> bool \<Rightarrow> bytes \<Rightarrow> recovery_meta_state" where
  "classify_recovery_meta plat contiguous page =
    (let order = rbind (identity_readable plat contiguous page) (\<lambda>m.
                 rbind (validate_commit_identity m) (\<lambda>_. Inr m))
     in \<lparr> rm_order = order, rm_recovery = rbind order recovery_valid \<rparr>)"

end
