(* ===== verification/MappedFile.thy ===== *)
theory MappedFile
  imports PageMapping
begin

text \<open>
  Mapping, resizing and flushing a file (\<open>mapping.rs\<close>). The operating system is a parameter: a
  value of \<open>os_file\<close> holds its replies about one file at one moment, and the replies of
  \<open>set_len\<close>, \<open>msync\<close> and \<open>fsync\<close> are arguments of the operations that make those calls. An
  operation that fails still leaves the mapping in the state the source leaves it in, so the
  operations that change the mapping return it beside their result.
\<close>

section \<open>Replies of the operating system\<close>

record os_file =
  of_regular :: "bool result"
  of_len :: "64 word result"
  of_map :: "nat \<Rightarrow> bytes result"

text \<open>\<open>Mapped_view\<close> is the reply of Windows when another mapped view prevents the truncation
  (\<open>mapped_view_prevents_shrink\<close>).\<close>

datatype set_len_reply = Set_len_ok | Mapped_view string | Set_len_failed string

section \<open>Establishing a mapping\<close>

text \<open>\<open>checked_len\<close> cannot fail: \<open>usize\<close> has 64 bits.\<close>

definition require_file_extent :: "os_file \<Rightarrow> nat \<Rightarrow> unit result" where
  "require_file_extent file len =
    rbind (of_len file) (\<lambda>physical.
    if physical < of_nat len then Inl (Corrupt ''mapping exceeds the file extent'') else Inr ())"

definition map_nonempty :: "os_file \<Rightarrow> nat \<Rightarrow> bytes option result" where
  "map_nonempty file len = (if len = 0 then Inr None else rmap Some (of_map file len))"

definition mapping_new :: "os_file \<Rightarrow> 64 word \<Rightarrow> map_access \<Rightarrow> mapping result" where
  "mapping_new file len acc =
    rbind (require_file_extent file (unat len)) (\<lambda>_.
    rbind (map_nonempty file (unat len)) (\<lambda>base.
    Inr \<lparr> mp_map = base, mp_len = unat len, mp_access = acc, mp_unreadable = None \<rparr>))"

definition replace_map :: "mapping \<Rightarrow> os_file \<Rightarrow> nat \<Rightarrow> mapping \<times> unit result" where
  "replace_map self file len =
    (case map_nonempty file len of
       Inr base \<Rightarrow> (self \<lparr> mp_map := base, mp_len := len \<rparr>, Inr ())
     | Inl problem \<Rightarrow> (self \<lparr> mp_len := 0 \<rparr>, Inl problem))"

definition remap :: "mapping \<Rightarrow> os_file \<Rightarrow> 64 word \<Rightarrow> mapping \<times> unit result" where
  "remap self file len =
    (case require_file_extent file (unat len) of
       Inl problem \<Rightarrow> (self, Inl problem)
     | Inr _ \<Rightarrow> replace_map (self \<lparr> mp_map := None \<rparr>) file (unat len))"

section \<open>Resizing\<close>

text \<open>\<open>file\<close> is the file before the call of \<open>set_len\<close> and \<open>file'\<close> the file after it.\<close>

definition resize :: "mapping \<Rightarrow> set_len_reply \<Rightarrow> os_file \<Rightarrow> 64 word \<Rightarrow> mapping \<times> unit result" where
  "resize self reply file' len =
    (case map_require_write self of
       Inl problem \<Rightarrow> (self, Inl problem)
     | Inr _ \<Rightarrow>
         let self = self \<lparr> mp_map := None \<rparr> in
         (case reply of
            Set_len_ok \<Rightarrow> replace_map self file' (unat len)
          | Mapped_view reason \<Rightarrow> (self, Inl (Io reason))
          | Set_len_failed reason \<Rightarrow> (self, Inl (Io reason))))"

definition shrink_file_or_retain :: "os_file \<Rightarrow> set_len_reply \<Rightarrow> 64 word \<Rightarrow> 64 word result" where
  "shrink_file_or_retain file reply len =
    rbind (of_len file) (\<lambda>physical_len.
    if physical_len < len then Inl (Corrupt ''main file is shorter than its committed generation'')
    else if physical_len = len then Inr len
    else
      (case reply of
         Set_len_ok \<Rightarrow> Inr len
       | Mapped_view _ \<Rightarrow> Inr physical_len
       | Set_len_failed reason \<Rightarrow> Inl (Io reason)))"

definition shrink_and_replace :: "mapping \<Rightarrow> os_file \<Rightarrow> set_len_reply \<Rightarrow> os_file \<Rightarrow> 64 word \<Rightarrow> mapping \<times> 64 word result" where
  "shrink_and_replace self file reply file' len =
    (let (self', replaced) = replace_map (self \<lparr> mp_map := None \<rparr>) file' (unat len) in
     (case shrink_file_or_retain file reply len of
        Inr physical_len \<Rightarrow> (self', rmap (\<lambda>_. physical_len) replaced)
      | Inl cause \<Rightarrow> (self', Inl (combine_errors cause replaced))))"

definition shrink_or_retain :: "mapping \<Rightarrow> os_file \<Rightarrow> set_len_reply \<Rightarrow> os_file \<Rightarrow> 64 word \<Rightarrow> mapping \<times> 64 word result" where
  "shrink_or_retain self file reply file' len =
    (case map_require_write self of
       Inl problem \<Rightarrow> (self, Inl problem)
     | Inr _ \<Rightarrow>
         if mp_len self = unat len
         then (case of_len file of
                 Inl problem \<Rightarrow> (self, Inl problem)
               | Inr physical \<Rightarrow>
                   if physical = len then (self, Inr len) else shrink_and_replace self file reply file' len)
         else shrink_and_replace self file reply file' len)"

section \<open>Flushing\<close>

text \<open>What was done to the file: a page was written through the mapping, the file was found or left with a
  length, the bytes from an offset were flushed, and the file was synchronised. An operation whose call the operating system grants
  returns the call with its arguments.\<close>

datatype file_event = Wrote nat bytes | Sized nat | Flushed nat nat | Synced

definition flush_range :: "mapping \<Rightarrow> unit result \<Rightarrow> 64 word \<Rightarrow> 64 word \<Rightarrow> file_event result" where
  "flush_range self reply offset len =
    rbind (checked_range offset (unat len) (mp_len self)) (\<lambda>(offset, len).
    rbind (map_base self) (\<lambda>_.
    rbind reply (\<lambda>_. Inr (Flushed offset len))))"

definition flush_page :: "mapping \<Rightarrow> unit result \<Rightarrow> 32 word \<Rightarrow> 64 word \<Rightarrow> file_event result" where
  "flush_page self reply page_number page_limit =
    rbind (page_offset page_number page_limit (mp_len self)) (\<lambda>offset.
    rbind (map_base self) (\<lambda>_.
    rbind reply (\<lambda>_. Inr (Flushed offset PAGE_SIZE))))"

definition sync_file :: "unit result \<Rightarrow> file_event result" where
  "sync_file reply = rbind reply (\<lambda>_. Inr Synced)"

section \<open>What a resize keeps\<close>

text \<open>The contract of the operating system that the code relies on: a mapping of a prefix of the
  file shows the bytes of that prefix, and truncation keeps what is below the new length.\<close>

definition shows_file :: "os_file \<Rightarrow> bytes \<Rightarrow> bool" where
  "shows_file file contents \<longleftrightarrow>
    (\<forall>len. len \<le> length contents \<longrightarrow> (\<forall>base. of_map file len = Inr base \<longrightarrow> base = take len contents))"

lemma replace_map_shows:
  assumes "shows_file file contents" "len \<le> length contents" "0 < len" "replace_map self file len = (self', Inr ())"
  shows "mp_map self' = Some (take len contents)" "mp_len self' = len" "mp_access self' = mp_access self"
    "mp_unreadable self' = mp_unreadable self"
  using assms by (auto simp: replace_map_def map_nonempty_def shows_file_def result_simps split: sum.splits)

text \<open>A mapping that was shrunk shows the same bytes below its new length.\<close>

lemma shrink_or_retain_keeps:
  assumes s: "shrink_or_retain self file reply file' len = (self', Inr physical_len)"
    and m: "mp_map self = Some base" "length base = mp_len self" "mp_access self = ReadWrite"
    and f: "shows_file file' contents" "take (unat len) contents = take (unat len) base" "unat len \<le> length contents"
      "unat len \<le> mp_len self" "0 < len"
  shows "mp_map self' = Some (take (unat len) base)" "mp_len self' = unat len" "mp_access self' = ReadWrite"
    "mp_unreadable self' = mp_unreadable self" "len \<le> physical_len"
proof -
  have n: "0 < unat len" using f(5) by (simp add: word_less_nat_alt)
  have "mp_map self' = Some (take (unat len) base) \<and> mp_len self' = unat len \<and> mp_access self' = ReadWrite
    \<and> mp_unreadable self' = mp_unreadable self \<and> len \<le> physical_len"
  proof (cases "self' = self \<and> mp_len self = unat len \<and> physical_len = len")
    case True
    thus ?thesis using m by simp
  next
    case False
    have h: "shrink_and_replace self file reply file' len = (self', Inr physical_len)"
      using s False m(3) by (auto simp: shrink_or_retain_def map_require_write_def split: if_splits sum.splits)
    obtain r where r: "replace_map (self \<lparr> mp_map := None \<rparr>) file' (unat len) = (self', r)"
      "shrink_file_or_retain file reply len = Inr physical_len" "r = Inr ()"
      using h by (auto simp: shrink_and_replace_def Let_def result_simps split: prod.splits sum.splits)
    have "len \<le> physical_len" using r(2)
      by (auto simp: shrink_file_or_retain_def result_simps split: if_splits set_len_reply.splits)
    thus ?thesis using replace_map_shows [OF f(1) f(3) n r(1) [unfolded r(3)]] f(2) m(3) by simp
  qed
  thus "mp_map self' = Some (take (unat len) base)" "mp_len self' = unat len" "mp_access self' = ReadWrite"
    "mp_unreadable self' = mp_unreadable self" "len \<le> physical_len" by simp_all
qed

lemma shrink_or_retain_length:
  assumes "shrink_or_retain self file reply file' len = (self', Inr physical_len)"
  shows "physical_len = len \<or> of_len file = Inr physical_len"
  using assms
  by (auto simp: shrink_or_retain_def shrink_and_replace_def shrink_file_or_retain_def Let_def result_simps
      split: sum.splits if_splits prod.splits set_len_reply.splits)

end
