(* ===== verification/DatabaseFile.thy ===== *)
theory DatabaseFile
  imports Bootstrap MappedFile
begin

text \<open>
  Database files (\<open>database_file.rs\<close>): the meta of an empty database, writing an empty file, mapping a
  file for reading or writing at the generation that \<open>bootstrap.rs\<close> selects. The replies of the
  operating system are arguments, as in \<open>MappedFile\<close>.
\<close>

section \<open>Empty databases\<close>

record empty_spec =
  es_address_family :: address_family
  es_value_kind :: value_kind
  es_structure_kind :: structure_kind
  es_value_tag :: value_tag
  es_database_id :: bytes
  es_transaction_id :: "64 word"
  es_commit_nonce :: bytes
  es_feed_index_limit :: "64 word"

definition empty_live ::
  "address_family \<Rightarrow> value_kind \<Rightarrow> structure_kind \<Rightarrow> value_tag \<Rightarrow> bytes \<Rightarrow> bytes \<Rightarrow> empty_spec" where
  "empty_live address_family value_kind structure_kind value_tag database_id commit_nonce =
    \<lparr> es_address_family = address_family, es_value_kind = value_kind, es_structure_kind = structure_kind,
      es_value_tag = value_tag, es_database_id = database_id, es_transaction_id = 1,
      es_commit_nonce = commit_nonce, es_feed_index_limit = 0 \<rparr>"

definition empty_meta :: "empty_spec \<Rightarrow> meta_v4" where
  "empty_meta spec = \<lparr>
     mt_address_family = es_address_family spec, mt_value_kind = es_value_kind spec,
     mt_structure_kind_code = structure_kind_wire (es_structure_kind spec), mt_value_tag = es_value_tag spec,
     mt_database_id = es_database_id spec, mt_txn_id = es_transaction_id spec, mt_commit_nonce = es_commit_nonce spec,
     mt_page_count = 2, mt_range_record_count = 0, mt_active_feed_count = 0,
     mt_feed_index_limit = es_feed_index_limit spec, mt_membership_entry_count = 0,
     mt_membership_id_limit = of_bool (es_value_kind spec = VMembership \<or> es_value_kind spec = VStructured),
     mt_metadata_uncompressed_len = 0, mt_metadata_compressed_len = 0, mt_retired_extent_count = 0,
     mt_range_root = 0, mt_catalog_name_root = 0, mt_catalog_index_root = 0, mt_feed_used_root = 0,
     mt_membership_id_root = 0, mt_membership_hash_root = 0, mt_membership_used_root = 0, mt_metadata_root = 0,
     mt_free_bitmap_root = 0, mt_retirement_root = 0, mt_allocator_reserve = [0, 0, 0, 0],
     mt_structure_entry_count = 0, mt_structure_id_limit = of_bool (es_value_kind spec = VStructured),
     mt_structure_id_root = 0, mt_structure_hash_root = 0, mt_structure_used_root = 0 \<rparr>"

text \<open>The arguments are the reply of \<open>set_len\<close>, the file after it, and the replies of the flush and of
  \<open>sync_all\<close>. The result is the mapping that was written.\<close>

definition write_empty ::
  "platform \<Rightarrow> unit result \<Rightarrow> os_file \<Rightarrow> unit result \<Rightarrow> unit result \<Rightarrow> empty_spec \<Rightarrow> mapping result" where
  "write_empty plat set_len file flushed synced spec =
    rbind set_len (\<lambda>_.
    rbind (mapping_new file (of_nat (2 * PAGE_SIZE)) ReadWrite) (\<lambda>m.
    let meta = empty_meta spec in
    rbind (map_page_mut m 0 2) (\<lambda>_.
    rbind (encode_mapped plat meta) (\<lambda>page.
    let m = map_put_page m 0 page in
    rbind (map_page_mut m 1 2) (\<lambda>_.
    rbind (encode_mapped plat meta) (\<lambda>page.
    let m = map_put_page m 1 page in
    rbind (flush_range m flushed 0 (of_nat (2 * PAGE_SIZE))) (\<lambda>_.
    rbind synced (\<lambda>_.
    Inr m))))))))"

section \<open>Opening\<close>

definition bootstrap_mapping :: "platform \<Rightarrow> bool \<Rightarrow> mapping \<Rightarrow> 64 word \<Rightarrow> open_mode \<Rightarrow> bootstrap result" where
  "bootstrap_mapping plat contiguous m physical_bytes mode =
    rbind (map_page m 0 2) (\<lambda>page0.
    rbind (map_page m 1 2) (\<lambda>page1.
    map_err error_of_format (open_meta_pages plat contiguous page0 page1 physical_bytes mode)))"

definition require_regular_file :: "os_file \<Rightarrow> unit result" where
  "require_regular_file file =
    rbind (of_regular file) (\<lambda>regular.
    if \<not> regular then Inl (InvalidArgument ''database path is not a regular file'') else Inr ())"

definition bootstrap_file :: "platform \<Rightarrow> bool \<Rightarrow> os_file \<Rightarrow> open_mode \<Rightarrow> bootstrap result" where
  "bootstrap_file plat contiguous file mode =
    rbind (require_regular_file file) (\<lambda>_.
    rbind (of_len file) (\<lambda>physical_bytes.
    rbind (map_err error_of_format (require_geometry physical_bytes)) (\<lambda>_.
    rbind (mapping_new file (of_nat (2 * PAGE_SIZE)) ReadOnly) (\<lambda>m.
    bootstrap_mapping plat contiguous m physical_bytes mode))))"

definition is_exact_empty :: "platform \<Rightarrow> bool \<Rightarrow> os_file \<Rightarrow> empty_spec \<Rightarrow> bool result" where
  "is_exact_empty plat contiguous file spec =
    rbind (bootstrap_file plat contiguous file Writer) (\<lambda>opened.
    Inr (bs_physical_bytes opened = bs_committed_bytes opened \<and> bs_meta opened = empty_meta spec))"

text \<open>\<open>map_reader\<close> and \<open>map_writer\<close> differ in the access and the mode.\<close>

definition map_database :: "platform \<Rightarrow> bool \<Rightarrow> os_file \<Rightarrow> map_access \<Rightarrow> open_mode \<Rightarrow> (mapping \<times> bootstrap) result" where
  "map_database plat contiguous file acc mode =
    rbind (require_regular_file file) (\<lambda>_.
    rbind (of_len file) (\<lambda>physical_bytes.
    rbind (map_err error_of_format (require_geometry physical_bytes)) (\<lambda>_.
    rbind (mapping_new file (of_nat (2 * PAGE_SIZE)) acc) (\<lambda>m.
    rbind (bootstrap_mapping plat contiguous m physical_bytes mode) (\<lambda>b.
    let (m, remapped) = remap m file (bs_committed_bytes b) in
    rbind remapped (\<lambda>_. Inr (m, b)))))))"

definition map_reader :: "platform \<Rightarrow> bool \<Rightarrow> os_file \<Rightarrow> open_mode \<Rightarrow> (mapping \<times> bootstrap) result" where
  "map_reader plat contiguous file mode = map_database plat contiguous file ReadOnly mode"

definition map_writer :: "platform \<Rightarrow> bool \<Rightarrow> os_file \<Rightarrow> (mapping \<times> bootstrap) result" where
  "map_writer plat contiguous file = map_database plat contiguous file ReadWrite Writer"

end
