(* ===== verification/Publication.thy ===== *)
theory Publication
  imports DatabaseFile
begin

text \<open>
  The writer of a live database (\<open>writer_core.rs\<close>, \<open>writer_core/publication.rs\<close>,
  \<open>writer_core/open.rs\<close>, \<open>writer_core/close.rs\<close>) and the draft of a transaction (\<open>draft_store.rs\<close>): starting a
  transaction, publishing it in the meta page that does not hold the current generation, discarding
  it, and closing. The replies of the operating system and of the cancellation token are
  arguments. \<open>publish\<close> also returns the file operations it performed, in their order.
\<close>

section \<open>Drafts\<close>

definition PENDING_SLOTS :: nat where "PENDING_SLOTS = 2"

record pending_delta =
  pd_id :: "32 word"
  pd_change :: "64 word"

type_synonym pending = "pending_delta option list"

definition pending_new :: pending where
  "pending_new = replicate PENDING_SLOTS None"

datatype workflow_state = WorkflowNone | WorkflowInput | WorkflowPrepared

record draft =
  dr_base :: meta_v4
  dr_meta :: meta_v4
  dr_private_head :: "32 word"
  dr_dirty_head :: "32 word"
  dr_allocator_retired :: retired
  dr_private_pages :: "64 word"
  dr_growth_pages :: "64 word"
  dr_changed :: bool
  dr_metadata_staged :: bool
  dr_range_tree_private :: bool
  dr_base_range_tree_retired :: bool
  dr_membership_delta_root :: "32 word"
  dr_membership_delta_pending :: pending
  dr_structure_delta_root :: "32 word"
  dr_structure_delta_pending :: pending
  dr_workflow_range_root :: "32 word"
  dr_workflow_range_count :: "64 word"
  dr_workflow :: workflow_state
  dr_operation_abandoned :: bool

definition draft_new :: "meta_v4 \<Rightarrow> bytes \<Rightarrow> draft result" where
  "draft_new base nonce =
    rbind (ok_or (ArithmeticOverflow ''transaction ID'') (checked_add (mt_txn_id base) 1)) (\<lambda>txn_id.
    Inr \<lparr> dr_base = base, dr_meta = base \<lparr> mt_txn_id := txn_id, mt_commit_nonce := nonce \<rparr>,
      dr_private_head = 0, dr_dirty_head = 0, dr_allocator_retired = [], dr_private_pages = 0, dr_growth_pages = 0,
      dr_changed = False, dr_metadata_staged = False, dr_range_tree_private = (mt_range_root base = 0),
      dr_base_range_tree_retired = False, dr_membership_delta_root = 0, dr_membership_delta_pending = pending_new,
      dr_structure_delta_root = 0, dr_structure_delta_pending = pending_new, dr_workflow_range_root = 0,
      dr_workflow_range_count = 0, dr_workflow = WorkflowNone, dr_operation_abandoned = False \<rparr>)"

definition begin_workflow :: "draft \<Rightarrow> draft result" where
  "begin_workflow self =
    (if dr_workflow self \<noteq> WorkflowNone then Inl (WrongState ''another exact workflow is active'')
     else Inr (self \<lparr> dr_workflow := WorkflowInput \<rparr>))"

definition draft_begin_range_workflow :: "draft \<Rightarrow> draft result" where
  "draft_begin_range_workflow self =
    rbind (begin_workflow self) (\<lambda>self.
    Inr (self \<lparr> dr_meta := (dr_meta self) \<lparr> mt_range_root := 0, mt_range_record_count := 0 \<rparr>,
      dr_range_tree_private := True \<rparr>))"

definition finish_workflow :: "draft \<Rightarrow> draft" where
  "finish_workflow self = self \<lparr> dr_workflow := WorkflowPrepared, dr_changed := True \<rparr>"

section \<open>The writer\<close>

record page_budget =
  max_heap_bytes :: "64 word"
  max_private_pages :: "64 word"
  max_growth_pages :: "64 word"

record writer_core =
  wc_mapping :: mapping
  wc_base :: bootstrap
  wc_budget :: page_budget
  wc_draft :: "draft option"
  wc_unproved_tail_end :: "64 word option"

definition writer_new :: "mapping \<Rightarrow> bootstrap \<Rightarrow> page_budget \<Rightarrow> writer_core" where
  "writer_new m base budget = \<lparr> wc_mapping = m, wc_base = base, wc_budget = budget, wc_draft = None, wc_unproved_tail_end = None \<rparr>"

definition writer_open :: "platform \<Rightarrow> bool \<Rightarrow> os_file \<Rightarrow> page_budget \<Rightarrow> writer_core result" where
  "writer_open plat contiguous file budget =
    rbind (map_writer plat contiguous file) (\<lambda>(m, base). Inr (writer_new m base budget))"

definition current_meta :: "writer_core \<Rightarrow> meta_v4" where
  "current_meta self = (case wc_draft self of Some draft \<Rightarrow> dr_meta draft | None \<Rightarrow> bs_meta (wc_base self))"

text \<open>\<open>nonce\<close> is the reply of the random number generator.\<close>

definition begin_transaction :: "bytes result \<Rightarrow> writer_core \<Rightarrow> (writer_core \<times> bytes) result" where
  "begin_transaction nonce self =
    (if wc_draft self \<noteq> None then Inl (WrongState ''a writer transaction is already pending'')
     else
       rbind nonce (\<lambda>nonce.
       rbind (draft_new (bs_meta (wc_base self)) nonce) (\<lambda>draft.
       Inr (self \<lparr> wc_draft := Some draft \<rparr>, nonce))))"

definition begin_range_workflow :: "bytes result \<Rightarrow> writer_core \<Rightarrow> writer_core \<times> unit result" where
  "begin_range_workflow nonce self =
    (case begin_transaction nonce self of
       Inl problem \<Rightarrow> (self, Inl problem)
     | Inr (self, _) \<Rightarrow>
         (case wc_draft self of
            None \<Rightarrow> (self, Inl (Panicked ''transaction was just created''))
          | Some draft \<Rightarrow>
              (case draft_begin_range_workflow draft of
                 Inl problem \<Rightarrow> (self \<lparr> wc_draft := None \<rparr>, Inl problem)
               | Inr draft \<Rightarrow> (self \<lparr> wc_draft := Some draft \<rparr>, Inr ()))))"

section \<open>Publication\<close>

record commit_attempt_id =
  ca_database_id :: bytes
  ca_transaction_id :: "64 word"
  ca_commit_nonce :: bytes

definition commit_attempt :: "writer_core \<Rightarrow> commit_attempt_id result" where
  "commit_attempt self =
    (if (case wc_draft self of None \<Rightarrow> False | Some draft \<Rightarrow> dr_workflow draft = WorkflowInput)
     then Inl (WrongState ''workflow input is not finished'')
     else
       (case wc_draft self of
          None \<Rightarrow> Inl NoPendingTransaction
        | Some draft \<Rightarrow>
            if \<not> dr_changed draft then Inl NoPendingTransaction
            else Inr \<lparr> ca_database_id = mt_database_id (dr_meta draft), ca_transaction_id = mt_txn_id (dr_meta draft),
                   ca_commit_nonce = mt_commit_nonce (dr_meta draft) \<rparr>))"

definition require_draft_length :: "os_file \<Rightarrow> writer_core \<Rightarrow> unit result" where
  "require_draft_length file self =
    rbind (ok_or NoPendingTransaction (wc_draft self)) (\<lambda>draft.
    rbind (ok_or (ArithmeticOverflow ''committed file length'') (checked_mul (mt_page_count (dr_meta draft)) (of_nat PAGE_SIZE))) (\<lambda>expected.
    rbind (of_len file) (\<lambda>physical.
    if physical < expected \<or> of_nat (mp_len (wc_mapping self)) < expected
    then Inl (Corrupt ''draft file length is inconsistent'') else Inr ())))"

datatype publish_outcome = BeforePublication error | OutcomeUnknown error | Published

text \<open>The replies to the calls of one publication, in the order of the calls.\<close>

record publish_io =
  pi_cancelled0 :: "unit result"
  pi_file :: os_file
  pi_set_len :: set_len_reply
  pi_file_after :: os_file
  pi_flush_data :: "unit result"
  pi_sync_data :: "unit result"
  pi_cancelled1 :: "unit result"
  pi_flush_meta :: "unit result"
  pi_sync_meta :: "unit result"

definition outcome_unknown :: "writer_core \<Rightarrow> error \<Rightarrow> writer_core \<times> publish_outcome" where
  "outcome_unknown self problem =
    (self \<lparr> wc_draft := None, wc_unproved_tail_end := None \<rparr>, OutcomeUnknown problem)"

definition publish_meta ::
  "platform \<Rightarrow> publish_io \<Rightarrow> writer_core \<Rightarrow> meta_v4 \<Rightarrow> 64 word \<Rightarrow> 64 word \<Rightarrow> writer_core \<times> publish_outcome \<times> file_event list" where
  "publish_meta plat io self meta committed_bytes physical_bytes =
    (let target_page = 1 - bs_selected_meta_page (wc_base self);
         encoded = rbind (map_page_mut (wc_mapping self) (ucast target_page) (mt_page_count meta)) (\<lambda>_. encode_mapped plat meta)
     in (case encoded of
           Inl problem \<Rightarrow> (let (self, outcome) = outcome_unknown self problem in (self, outcome, []))
         | Inr page \<Rightarrow>
             let self = self \<lparr> wc_mapping := map_put_page (wc_mapping self) (ucast target_page) page \<rparr>;
                 wrote = [Wrote (unat target_page) page]
             in (case flush_page (wc_mapping self) (pi_flush_meta io) (ucast target_page) (mt_page_count meta) of
                   Inl problem \<Rightarrow> (let (self, outcome) = outcome_unknown self problem in (self, outcome, wrote))
                 | Inr flush \<Rightarrow>
                     let flushed = wrote @ [flush]
                     in (case sync_file (pi_sync_meta io) of
                           Inl problem \<Rightarrow> (let (self, outcome) = outcome_unknown self problem in (self, outcome, flushed))
                         | Inr sync \<Rightarrow>
                             (self \<lparr> wc_base := \<lparr> bs_meta = meta, bs_selection = ProvenCurrent, bs_selected_meta_page = target_page,
                                bs_committed_bytes = committed_bytes, bs_physical_bytes = physical_bytes \<rparr>,
                                wc_draft := None, wc_unproved_tail_end := None \<rparr>, Published, flushed @ [sync])))))"

definition publish :: "platform \<Rightarrow> publish_io \<Rightarrow> writer_core \<Rightarrow> (writer_core \<times> publish_outcome \<times> file_event list) result" where
  "publish plat io self =
    (case pi_cancelled0 io of
       Inl problem \<Rightarrow> Inr (self, BeforePublication problem, [])
     | Inr _ \<Rightarrow>
         rbind (ok_or (Panicked ''publication requires a draft'') (wc_draft self)) (\<lambda>draft.
         let meta = dr_meta draft;
             committed_bytes = mt_page_count meta * of_nat PAGE_SIZE;
             (m, shrunk) = shrink_or_retain (wc_mapping self) (pi_file io) (pi_set_len io) (pi_file_after io) committed_bytes;
             self = self \<lparr> wc_mapping := m \<rparr>;
             data_offset = of_nat (2 * PAGE_SIZE)
         in (case shrunk of
               Inl problem \<Rightarrow> Inr (self, BeforePublication problem, [])
             | Inr physical_bytes \<Rightarrow>
                 let sized = [Sized (unat physical_bytes)]
                 in (case (if committed_bytes > data_offset
                           then rmap (\<lambda>flush. [flush]) (flush_range m (pi_flush_data io) data_offset (committed_bytes - data_offset))
                           else Inr []) of
                    Inl problem \<Rightarrow> Inr (self, BeforePublication problem, sized)
                  | Inr flush \<Rightarrow>
                      let flushed = sized @ flush
                      in (case sync_file (pi_sync_data io) of
                            Inl problem \<Rightarrow> Inr (self, BeforePublication problem, flushed)
                          | Inr sync \<Rightarrow>
                              (case pi_cancelled1 io of
                                 Inl problem \<Rightarrow> Inr (self, BeforePublication problem, flushed @ [sync])
                               | Inr _ \<Rightarrow>
                                   let (self, outcome, events) = publish_meta plat io self meta committed_bytes physical_bytes
                                   in Inr (self, outcome, flushed @ [sync] @ events)))))))"

section \<open>Discarding and closing\<close>

text \<open>\<open>file\<close> is the file before the truncation, \<open>reply\<close> the reply of \<open>set_len\<close>, \<open>file'\<close> the file after it, and
  \<open>synced\<close> the reply of \<open>sync_file\<close>.\<close>

definition require_unchanged_base :: "platform \<Rightarrow> bool \<Rightarrow> os_file \<Rightarrow> writer_core \<Rightarrow> unit result" where
  "require_unchanged_base plat contiguous file self =
    rbind (of_len file) (\<lambda>physical_bytes.
    rbind (bootstrap_mapping plat contiguous (wc_mapping self) physical_bytes Writer) (\<lambda>selected.
    if bs_meta selected \<noteq> bs_meta (wc_base self) then Inl (WrongMode ''committed generation changed under the writer'')
    else Inr ()))"

text \<open>\<open>trim_unpublished_tail\<close> is \<open>trim_to\<close> at the committed length of the base, except that \<open>trim_to\<close> also
  synchronises a file it did not have to truncate when there is a draft.\<close>

definition trim_tail :: "os_file \<Rightarrow> set_len_reply \<Rightarrow> os_file \<Rightarrow> unit result \<Rightarrow> bool \<Rightarrow> writer_core \<Rightarrow> 64 word \<Rightarrow> writer_core \<times> 64 word result" where
  "trim_tail file reply file' synced sync_equal self committed_bytes =
    (case of_len file of
       Inl problem \<Rightarrow> (self, Inl problem)
     | Inr len \<Rightarrow>
         if len < committed_bytes then (self, Inl (Corrupt ''main file is shorter than its committed generation''))
         else if len > committed_bytes
         then
           (let self = self \<lparr> wc_unproved_tail_end := Some len \<rparr>;
                (m, shrunk) = shrink_or_retain (wc_mapping self) file reply file' committed_bytes
            in (self \<lparr> wc_mapping := m \<rparr>,
                rbind shrunk (\<lambda>physical_bytes. rbind synced (\<lambda>_. Inr physical_bytes))))
         else
           (let (m, remapped) = (if of_nat (mp_len (wc_mapping self)) \<noteq> committed_bytes
                                 then remap (wc_mapping self) file committed_bytes else (wc_mapping self, Inr ()))
            in (self \<lparr> wc_mapping := m \<rparr>,
                rbind remapped (\<lambda>_. rbind (if sync_equal then synced else Inr ()) (\<lambda>_. Inr len)))))"

definition trim_unpublished_tail :: "os_file \<Rightarrow> set_len_reply \<Rightarrow> os_file \<Rightarrow> unit result \<Rightarrow> writer_core \<Rightarrow> writer_core \<times> 64 word result" where
  "trim_unpublished_tail file reply file' synced self =
    trim_tail file reply file' synced False self (bs_committed_bytes (wc_base self))"

definition verify_discard_result :: "platform \<Rightarrow> bool \<Rightarrow> os_file \<Rightarrow> writer_core \<Rightarrow> 64 word \<Rightarrow> unit result" where
  "verify_discard_result plat contiguous file self physical_bytes =
    rbind (require_unchanged_base plat contiguous file self) (\<lambda>_.
    if physical_bytes < bs_committed_bytes (wc_base self) \<or> physical_bytes mod of_nat PAGE_SIZE \<noteq> 0
    then Inl (Corrupt ''unpublished tail cleanup left inconsistent geometry'')
    else
      rbind (of_len file) (\<lambda>len.
      if len \<noteq> physical_bytes \<or> of_nat (mp_len (wc_mapping self)) \<noteq> bs_committed_bytes (wc_base self)
      then Inl (Corrupt ''unpublished tail cleanup left inconsistent geometry'')
      else Inr ()))"

definition settle :: "writer_core \<Rightarrow> 64 word \<Rightarrow> writer_core" where
  "settle self physical_bytes =
    self \<lparr> wc_base := (wc_base self) \<lparr> bs_physical_bytes := physical_bytes \<rparr>, wc_draft := None, wc_unproved_tail_end := None \<rparr>"

definition discard_unpublished ::
  "platform \<Rightarrow> bool \<Rightarrow> os_file \<Rightarrow> set_len_reply \<Rightarrow> os_file \<Rightarrow> unit result \<Rightarrow> writer_core \<Rightarrow> writer_core \<times> unit result" where
  "discard_unpublished plat contiguous file reply file' synced self =
    (case require_unchanged_base plat contiguous file self of
       Inl problem \<Rightarrow> (self, Inl problem)
     | Inr _ \<Rightarrow>
         (case trim_unpublished_tail file reply file' synced self of
            (self, Inl problem) \<Rightarrow> (self, Inl problem)
          | (self, Inr physical_bytes) \<Rightarrow>
              (case verify_discard_result plat contiguous file' self physical_bytes of
                 Inl problem \<Rightarrow> (self, Inl problem)
               | Inr _ \<Rightarrow> (settle self physical_bytes, Inr ()))))"

definition prepare_close :: "platform \<Rightarrow> bool \<Rightarrow> os_file \<Rightarrow> writer_core \<Rightarrow> bootstrap result" where
  "prepare_close plat contiguous file self =
    rbind (of_len file) (\<lambda>physical_bytes.
    rbind (bootstrap_mapping plat contiguous (wc_mapping self) physical_bytes Writer) (\<lambda>selected.
    if mt_database_id (bs_meta selected) \<noteq> mt_database_id (bs_meta (wc_base self)) then Inl (WrongMode ''live database identity changed'')
    else if wc_draft self \<noteq> None \<and> bs_meta selected \<noteq> bs_meta (wc_base self)
    then Inl (WrongMode ''committed generation changed before abort cleanup'')
    else Inr selected))"

definition finish_close ::
  "platform \<Rightarrow> bool \<Rightarrow> os_file \<Rightarrow> set_len_reply \<Rightarrow> os_file \<Rightarrow> unit result \<Rightarrow> bootstrap \<Rightarrow> writer_core \<Rightarrow> writer_core \<times> unit result" where
  "finish_close plat contiguous file reply file' synced plan self =
    (case trim_tail file reply file' synced (wc_draft self \<noteq> None) self (bs_committed_bytes plan) of
       (self, Inl problem) \<Rightarrow> (self, Inl problem)
     | (self, Inr physical_bytes) \<Rightarrow>
         (case (if wc_draft self \<noteq> None then verify_discard_result plat contiguous file' self physical_bytes
                else rbind (of_len file') (\<lambda>len.
                  if len \<noteq> physical_bytes then Inl (Corrupt ''writer close changed the retained physical length'') else Inr ())) of
            Inl problem \<Rightarrow> (self, Inl problem)
          | Inr _ \<Rightarrow> (settle self physical_bytes, Inr ())))"

definition trim_committed_tail :: "os_file \<Rightarrow> set_len_reply \<Rightarrow> os_file \<Rightarrow> unit result \<Rightarrow> writer_core \<Rightarrow> writer_core \<times> unit result" where
  "trim_committed_tail file reply file' synced self =
    (if bs_physical_bytes (wc_base self) \<noteq> bs_committed_bytes (wc_base self)
     then
       (let (m, shrunk) = shrink_or_retain (wc_mapping self) file reply file' (bs_committed_bytes (wc_base self));
            self = self \<lparr> wc_mapping := m \<rparr>
        in (case shrunk of
              Inl problem \<Rightarrow> (self, Inl problem)
            | Inr physical_bytes \<Rightarrow> (self \<lparr> wc_base := (wc_base self) \<lparr> bs_physical_bytes := physical_bytes \<rparr> \<rparr>, synced)))
     else (self, Inr ()))"

end
