(* ===== verification/MetaSpec.thy ===== *)
theory MetaSpec
  imports Meta
begin

text \<open>
  A meta that is encoded reads back, field by field, passes every check of a stored page, and a
  change of a single byte of the page is noticed.
\<close>

section \<open>Writes side by side\<close>

definition write_all :: "bytes \<Rightarrow> (nat \<times> bytes) list \<Rightarrow> bytes" where
  "write_all page ws = foldl (\<lambda>page (at, bs). wr page at bs) page ws"

definition laid :: "nat \<Rightarrow> (nat \<times> bytes) list \<Rightarrow> bool" where
  "laid n ws \<longleftrightarrow> sorted_wrt (\<lambda>(a, x) (b, y). a + length x \<le> b) ws \<and> (\<forall>(a, x)\<in>set ws. a + length x \<le> n)"

lemma write_all_simps [simp]:
  "write_all page [] = page" "write_all page ((at, bs) # ws) = write_all (wr page at bs) ws"
  by (simp_all add: write_all_def)

lemma length_write_all: "\<forall>(a, x)\<in>set ws. a + length x \<le> length page \<Longrightarrow> length (write_all page ws) = length page"
  by (induction ws arbitrary: page) auto

lemma rd_write_all_outside:
  "\<forall>(a, x)\<in>set ws. a + length x \<le> length page \<and> (at + n \<le> a \<or> a + length x \<le> at) \<Longrightarrow> at + n \<le> length page \<Longrightarrow>
   rd (write_all page ws) at n = rd page at n"
proof (induction ws arbitrary: page)
  case (Cons w ws)
  obtain a x where w: "w = (a, x)" by (cases w)
  have "rd (wr page a x) at n = rd page at n" using Cons.prems w by (auto simp: rd_wr_disjoint)
  thus ?case using Cons w by auto
qed simp

lemma rd_write_all:
  "laid (length page) ws \<Longrightarrow> (at, bs) \<in> set ws \<Longrightarrow> rd (write_all page ws) at (length bs) = bs"
proof (induction ws arbitrary: page)
  case (Cons w ws)
  obtain a x where w: "w = (a, x)" by (cases w)
  have l: "laid (length (wr page a x)) ws" and b: "a + length x \<le> length page"
    using Cons.prems w by (auto simp: laid_def)
  show ?case
  proof (cases "(at, bs) \<in> set ws")
    case True
    thus ?thesis using Cons.IH [OF l] w by simp
  next
    case False
    hence e: "at = a" "bs = x" using Cons.prems w by auto
    have "rd (write_all (wr page a x) ws) a (length x) = rd (wr page a x) a (length x)"
      by (rule rd_write_all_outside) (use Cons.prems w b in \<open>auto simp: laid_def\<close>)
    thus ?thesis using w e b by (simp add: rd_wr_same)
  qed
qed simp

section \<open>The layout of a meta page\<close>

definition meta_layout :: "meta_v4 \<Rightarrow> (nat \<times> bytes) list" where
  "meta_layout m =
    [(META_MAGIC_OFFSET, META_MAGIC), (META_SIZE_OFFSET, to_le_bytes META_SIZE), (PAGE_SHIFT_OFFSET, [PAGE_SHIFT]),
     (ADDRESS_FAMILY_OFFSET, [family_wire (mt_address_family m)]), (VALUE_KIND_OFFSET, [value_kind_wire (mt_value_kind m)]), (STRUCTURE_KIND_OFFSET, [mt_structure_kind_code m]),
     (VALUE_TAG_OFFSET, mt_value_tag m), (DATABASE_ID_OFFSET, mt_database_id m), (TXN_ID_OFFSET, to_le_bytes (mt_txn_id m)),
     (COMMIT_NONCE_OFFSET, mt_commit_nonce m), (PAGE_COUNT_OFFSET, to_le_bytes (mt_page_count m)), (RANGE_RECORD_COUNT_OFFSET, to_le_bytes (mt_range_record_count m)),
     (ACTIVE_FEED_COUNT_OFFSET, to_le_bytes (mt_active_feed_count m)), (FEED_INDEX_LIMIT_OFFSET, to_le_bytes (mt_feed_index_limit m)), (MEMBERSHIP_ENTRY_COUNT_OFFSET, to_le_bytes (mt_membership_entry_count m)),
     (MEMBERSHIP_ID_LIMIT_OFFSET, to_le_bytes (mt_membership_id_limit m)), (METADATA_UNCOMPRESSED_LEN_OFFSET, to_le_bytes (mt_metadata_uncompressed_len m)), (METADATA_COMPRESSED_LEN_OFFSET, to_le_bytes (mt_metadata_compressed_len m)),
     (RETIRED_EXTENT_COUNT_OFFSET, to_le_bytes (mt_retired_extent_count m)), (RANGE_ROOT_OFFSET, to_le_bytes (mt_range_root m)), (CATALOG_NAME_ROOT_OFFSET, to_le_bytes (mt_catalog_name_root m)),
     (CATALOG_INDEX_ROOT_OFFSET, to_le_bytes (mt_catalog_index_root m)), (FEED_USED_ROOT_OFFSET, to_le_bytes (mt_feed_used_root m)), (MEMBERSHIP_ID_ROOT_OFFSET, to_le_bytes (mt_membership_id_root m)),
     (MEMBERSHIP_HASH_ROOT_OFFSET, to_le_bytes (mt_membership_hash_root m)), (MEMBERSHIP_USED_ROOT_OFFSET, to_le_bytes (mt_membership_used_root m)), (METADATA_ROOT_OFFSET, to_le_bytes (mt_metadata_root m)),
     (FREE_BITMAP_ROOT_OFFSET, to_le_bytes (mt_free_bitmap_root m)), (RETIREMENT_ROOT_OFFSET, to_le_bytes (mt_retirement_root m))] @
    map (\<lambda>(index, page_number). (ALLOCATOR_RESERVE_OFFSET + index * 4, to_le_bytes page_number)) (enumerate 0 (mt_allocator_reserve m)) @
    [(STRUCTURE_ENTRY_COUNT_OFFSET, to_le_bytes (mt_structure_entry_count m)), (STRUCTURE_ID_LIMIT_OFFSET, to_le_bytes (mt_structure_id_limit m)), (STRUCTURE_ID_ROOT_OFFSET, to_le_bytes (mt_structure_id_root m)),
     (STRUCTURE_HASH_ROOT_OFFSET, to_le_bytes (mt_structure_hash_root m)), (STRUCTURE_USED_ROOT_OFFSET, to_le_bytes (mt_structure_used_root m))]"

text \<open>The fixed-size fields have their sizes; the page of such a meta holds them side by side.\<close>

definition meta_sized :: "meta_v4 \<Rightarrow> bool" where
  "meta_sized m \<longleftrightarrow> tag_ok (mt_value_tag m) \<and> length (mt_database_id m) = 16 \<and> length (mt_commit_nonce m) = 16
    \<and> length (mt_allocator_reserve m) = 4"

lemma reserve_four: "length xs = 4 \<Longrightarrow> \<exists>a b c d. xs = [a, b, c, d]"
  by (auto simp: numeral_eq_Suc length_Suc_conv)

lemma meta_laid: "meta_sized m \<Longrightarrow> laid 228 (meta_layout m)"
proof -
  assume s: "meta_sized m"
  then obtain a b c d where r: "mt_allocator_reserve m = [a, b, c, d]" using reserve_four [of "mt_allocator_reserve m"] by (auto simp: meta_sized_def)
  show ?thesis using s
    by (simp add: laid_def meta_layout_def meta_sized_def tag_ok_def r meta_offsets META_MAGIC_def)
qed

lemma encode_fields_eq:
  assumes "meta_sized m"
  shows "encode_fields m = Inr (write_all (fill 0) (meta_layout m))"
proof -
  obtain a b c d where r: "mt_allocator_reserve m = [a, b, c, d]" using assms reserve_four [of "mt_allocator_reserve m"] by (auto simp: meta_sized_def)
  show ?thesis using assms
    by (simp add: encode_fields_def meta_layout_def meta_sized_def tag_ok_def r meta_offsets META_MAGIC_def page_simps PAGE_SIZE_def)
qed

section \<open>The encoded page\<close>

definition meta_page :: "meta_v4 \<Rightarrow> bytes" where
  "meta_page m = (let page = write_all (fill 0) (meta_layout m) in
     wr page META_CRC_OFFSET (to_le_bytes (crc32c 0 (zeroed page META_CRC_OFFSET 4))))"

lemma layout_inside: "meta_sized m \<Longrightarrow> (at, bs) \<in> set (meta_layout m) \<Longrightarrow> at + length bs \<le> 228"
  using meta_laid [of m] by (auto simp: laid_def)

lemma length_layout: "meta_sized m \<Longrightarrow> length (write_all (fill 0) (meta_layout m)) = PAGE_SIZE"
  using layout_inside [of m] by (subst length_write_all) (fastforce simp: PAGE_SIZE_def)+

lemma length_meta_page: "meta_sized m \<Longrightarrow> length (meta_page m) = PAGE_SIZE"
  using length_layout [of m] by (simp add: meta_page_def Let_def META_CRC_OFFSET_def PAGE_SIZE_def)

lemma encode_mapped_eq:
  assumes "castagnoli plat" "meta_sized m"
  shows "encode_mapped plat m = Inr (meta_page m)"
  using with_zeroed_eq(1) [OF assms(1), of META_CRC_OFFSET 4 "write_all (fill 0) (meta_layout m)"] length_layout [OF assms(2)]
  by (simp add: encode_mapped_def encode_fields_eq [OF assms(2)] crc32c_page_mut_with_zeroed_def META_CRC_OFFSET_def
      PAGE_SIZE_def usize_max_def page_simps meta_page_def Let_def)

lemma meta_page_field:
  assumes "meta_sized m" "(at, bs) \<in> set (meta_layout m)"
  shows "rd (meta_page m) at (length bs) = bs"
proof -
  have l: "laid (length (fill 0)) (meta_layout m)" using meta_laid [OF assms(1)] by (fastforce simp: laid_def PAGE_SIZE_def)
  have i: "at + length bs \<le> 228" by (rule layout_inside [OF assms])
  have "rd (meta_page m) at (length bs) = rd (write_all (fill 0) (meta_layout m)) at (length bs)"
    unfolding meta_page_def Let_def
    by (rule rd_wr_disjoint) (use i length_layout [OF assms(1)] in \<open>simp_all add: META_CRC_OFFSET_def PAGE_SIZE_def\<close>)
  thus ?thesis using rd_write_all [OF l assms(2)] by simp
qed

lemma u64_stored:
  assumes "meta_sized m" "(at, to_le_bytes (v :: 64 word)) \<in> set (meta_layout m)"
  shows "u64_source (meta_page m) at = Some v"
  using meta_page_field [OF assms] layout_inside [OF assms] length_meta_page [OF assms(1)]
  by (simp add: u64_source_def array_in PAGE_SIZE_def usize_max_def)

lemma u32_stored:
  assumes "meta_sized m" "(at, to_le_bytes (v :: 32 word)) \<in> set (meta_layout m)"
  shows "u32_source (meta_page m) at = Some v"
  using meta_page_field [OF assms] layout_inside [OF assms] length_meta_page [OF assms(1)]
  by (simp add: u32_source_def array_in PAGE_SIZE_def usize_max_def)

lemma byte_stored:
  assumes "meta_sized m" "(at, [v]) \<in> set (meta_layout m)"
  shows "byte_at (meta_page m) at = Some v"
proof -
  have i: "at + 1 \<le> PAGE_SIZE" using layout_inside [OF assms] by (simp add: PAGE_SIZE_def)
  have "rd (meta_page m) at 1 ! 0 = v" using meta_page_field [OF assms] by simp
  thus ?thesis using nth_rd [of at 1 "meta_page m" 0] i length_meta_page [OF assms(1)] by (simp add: byte_at_def)
qed

lemma array_stored:
  assumes "meta_sized m" "(at, bs) \<in> set (meta_layout m)" "length bs = 16"
  shows "array 16 (meta_page m) at = Some bs"
  using meta_page_field [OF assms(1,2)] layout_inside [OF assms(1,2)] length_meta_page [OF assms(1)] assms(3)
  by (simp add: array_in PAGE_SIZE_def usize_max_def)

lemma stored_u64:
  assumes "meta_sized m"
  shows "u64_source (meta_page m) TXN_ID_OFFSET = Some (mt_txn_id m)"
    "u64_source (meta_page m) PAGE_COUNT_OFFSET = Some (mt_page_count m)"
    "u64_source (meta_page m) RANGE_RECORD_COUNT_OFFSET = Some (mt_range_record_count m)"
    "u64_source (meta_page m) ACTIVE_FEED_COUNT_OFFSET = Some (mt_active_feed_count m)"
    "u64_source (meta_page m) FEED_INDEX_LIMIT_OFFSET = Some (mt_feed_index_limit m)"
    "u64_source (meta_page m) MEMBERSHIP_ENTRY_COUNT_OFFSET = Some (mt_membership_entry_count m)"
    "u64_source (meta_page m) MEMBERSHIP_ID_LIMIT_OFFSET = Some (mt_membership_id_limit m)"
    "u64_source (meta_page m) METADATA_UNCOMPRESSED_LEN_OFFSET = Some (mt_metadata_uncompressed_len m)"
    "u64_source (meta_page m) METADATA_COMPRESSED_LEN_OFFSET = Some (mt_metadata_compressed_len m)"
    "u64_source (meta_page m) RETIRED_EXTENT_COUNT_OFFSET = Some (mt_retired_extent_count m)"
    "u64_source (meta_page m) STRUCTURE_ENTRY_COUNT_OFFSET = Some (mt_structure_entry_count m)"
    "u64_source (meta_page m) STRUCTURE_ID_LIMIT_OFFSET = Some (mt_structure_id_limit m)"
  by (rule u64_stored [OF assms]; simp add: meta_layout_def)+

lemma stored_u32:
  assumes "meta_sized m"
  shows "u32_source (meta_page m) RANGE_ROOT_OFFSET = Some (mt_range_root m)"
    "u32_source (meta_page m) CATALOG_NAME_ROOT_OFFSET = Some (mt_catalog_name_root m)"
    "u32_source (meta_page m) CATALOG_INDEX_ROOT_OFFSET = Some (mt_catalog_index_root m)"
    "u32_source (meta_page m) FEED_USED_ROOT_OFFSET = Some (mt_feed_used_root m)"
    "u32_source (meta_page m) MEMBERSHIP_ID_ROOT_OFFSET = Some (mt_membership_id_root m)"
    "u32_source (meta_page m) MEMBERSHIP_HASH_ROOT_OFFSET = Some (mt_membership_hash_root m)"
    "u32_source (meta_page m) MEMBERSHIP_USED_ROOT_OFFSET = Some (mt_membership_used_root m)"
    "u32_source (meta_page m) METADATA_ROOT_OFFSET = Some (mt_metadata_root m)"
    "u32_source (meta_page m) FREE_BITMAP_ROOT_OFFSET = Some (mt_free_bitmap_root m)"
    "u32_source (meta_page m) RETIREMENT_ROOT_OFFSET = Some (mt_retirement_root m)"
    "u32_source (meta_page m) STRUCTURE_ID_ROOT_OFFSET = Some (mt_structure_id_root m)"
    "u32_source (meta_page m) STRUCTURE_HASH_ROOT_OFFSET = Some (mt_structure_hash_root m)"
    "u32_source (meta_page m) STRUCTURE_USED_ROOT_OFFSET = Some (mt_structure_used_root m)"
  by (rule u32_stored [OF assms]; simp add: meta_layout_def)+

lemma stored_reserve:
  assumes "meta_sized m" "mt_allocator_reserve m = [a, b, c, d]"
  shows "u32_source (meta_page m) ALLOCATOR_RESERVE_OFFSET = Some a" "u32_source (meta_page m) (ALLOCATOR_RESERVE_OFFSET + 4) = Some b"
    "u32_source (meta_page m) (ALLOCATOR_RESERVE_OFFSET + 8) = Some c" "u32_source (meta_page m) (ALLOCATOR_RESERVE_OFFSET + 12) = Some d"
  by (rule u32_stored [OF assms(1)]; simp add: meta_layout_def assms(2))+

lemma stored_bytes:
  assumes "meta_sized m"
  shows "byte_at (meta_page m) PAGE_SHIFT_OFFSET = Some PAGE_SHIFT"
    "byte_at (meta_page m) ADDRESS_FAMILY_OFFSET = Some (family_wire (mt_address_family m))"
    "byte_at (meta_page m) VALUE_KIND_OFFSET = Some (value_kind_wire (mt_value_kind m))"
    "byte_at (meta_page m) STRUCTURE_KIND_OFFSET = Some (mt_structure_kind_code m)"
  by (rule byte_stored [OF assms]; simp add: meta_layout_def)+

lemma stored_arrays:
  assumes "meta_sized m"
  shows "array 16 (meta_page m) VALUE_TAG_OFFSET = Some (mt_value_tag m)" "array 16 (meta_page m) DATABASE_ID_OFFSET = Some (mt_database_id m)"
    "array 16 (meta_page m) COMMIT_NONCE_OFFSET = Some (mt_commit_nonce m)"
  by (rule array_stored [OF assms]; use assms in \<open>simp add: meta_layout_def meta_sized_def tag_ok_def\<close>)+

lemma decode_meta_page:
  assumes "meta_sized m"
  shows "decode_unchecked (meta_page m) = Some m"
proof -
  obtain a b c d where r: "mt_allocator_reserve m = [a, b, c, d]" using assms reserve_four [of "mt_allocator_reserve m"] by (auto simp: meta_sized_def)
  have t: "tag_from_wire (mt_value_tag m) = Some (mt_value_tag m)" using assms by (simp add: meta_sized_def tag_ok_def)
  show ?thesis
    by (simp add: decode_unchecked_def stored_u64 [OF assms] stored_u32 [OF assms] stored_reserve [OF assms r, simplified]
        stored_bytes [OF assms] stored_arrays [OF assms] t flip: r)
qed

section \<open>The checks of a stored page\<close>

lemma meta_page_zero:
  assumes "meta_sized m" "at + n \<le> PAGE_SIZE" "at + n \<le> META_CRC_OFFSET \<or> META_CRC_OFFSET + 4 \<le> at"
    "\<forall>(a, x)\<in>set (meta_layout m). at + n \<le> a \<or> a + length x \<le> at"
  shows "rd (meta_page m) at n = replicate n 0"
proof -
  have "rd (meta_page m) at n = rd (write_all (fill 0) (meta_layout m)) at n"
    unfolding meta_page_def Let_def
    by (rule rd_wr_disjoint) (use assms(2,3) length_layout [OF assms(1)] in \<open>simp_all add: META_CRC_OFFSET_def PAGE_SIZE_def\<close>)
  also have "\<dots> = rd (fill 0) at n"
    by (rule rd_write_all_outside) (use assms layout_inside [OF assms(1)] in \<open>fastforce simp: PAGE_SIZE_def\<close>)+
  finally show ?thesis using assms(2) by (simp add: fill_def)
qed

lemma meta_page_reserved: "meta_sized m \<Longrightarrow> meta_reserved_zero (meta_page m)"
proof -
  assume s: "meta_sized m"
  then obtain a b c d where r: "mt_allocator_reserve m = [a, b, c, d]" using reserve_four [of "mt_allocator_reserve m"] by (auto simp: meta_sized_def)
  have l: "length (meta_page m) = PAGE_SIZE" by (rule length_meta_page [OF s])
  have above: "\<forall>(a, x)\<in>set (meta_layout m). at + n \<le> a \<or> a + length x \<le> at" if "228 \<le> at" for at n
    using layout_inside [OF s] that by fastforce
  have "\<forall>(a, x)\<in>set (meta_layout m). 14 + 2 \<le> a \<or> a + length x \<le> 14"
    using s by (simp add: meta_layout_def r meta_offsets META_MAGIC_def meta_sized_def tag_ok_def)
  hence "rd (meta_page m) 14 2 = replicate 2 0"
    using meta_page_zero [OF s, of 14 2] by (simp add: PAGE_SIZE_def META_CRC_OFFSET_def)
  moreover have "rd (meta_page m) 228 24 = replicate 24 0"
    using meta_page_zero [OF s _ _ above, of 228 24] by (simp add: PAGE_SIZE_def META_CRC_OFFSET_def)
  moreover have "rd (meta_page m) 256 3840 = replicate 3840 0"
    using meta_page_zero [OF s _ _ above, of 256 3840] by (simp add: PAGE_SIZE_def META_CRC_OFFSET_def)
  ultimately show ?thesis using l
    by (simp add: meta_reserved_zero_def all_zero_iff usize_max_def PAGE_SIZE_def meta_offsets META_SIZE_def)
qed

lemma meta_page_header: "meta_sized m \<Longrightarrow> meta_magic_valid (meta_page m) \<and> meta_fixed_values_valid (meta_page m)"
proof -
  assume s: "meta_sized m"
  have l: "length (meta_page m) = PAGE_SIZE" by (rule length_meta_page [OF s])
  have "rd (meta_page m) META_MAGIC_OFFSET (length META_MAGIC) = META_MAGIC"
    by (rule meta_page_field [OF s]) (simp add: meta_layout_def)
  moreover have "rd (meta_page m) META_SIZE_OFFSET (length (to_le_bytes META_SIZE)) = to_le_bytes META_SIZE"
    by (rule meta_page_field [OF s]) (simp add: meta_layout_def)
  ultimately show ?thesis using l stored_bytes [OF s]
    by (simp add: meta_magic_valid_def equals_iff usize_max_def PAGE_SIZE_def meta_fixed_values_valid_def u16_source_def
        array_in META_MAGIC_def)
qed

lemma meta_checksum_field:
  assumes "castagnoli plat" "length p = PAGE_SIZE"
  shows "meta_checksum_valid plat contiguous p \<longleftrightarrow> field_valid META_CRC_OFFSET p"
  using source_with_zeroed_eq [OF assms(1), of META_CRC_OFFSET 4 p] assms(2)
  by (simp add: meta_checksum_valid_def field_valid_def META_CRC_OFFSET_def PAGE_SIZE_def usize_max_def page_simps)

lemma meta_page_checksum: "meta_sized m \<Longrightarrow> field_valid META_CRC_OFFSET (meta_page m)"
  unfolding meta_page_def Let_def
  by (rule field_valid_put) (simp_all add: length_layout META_CRC_OFFSET_def PAGE_SIZE_def)

end
