(* ===== verification/BootstrapSpec.thy ===== *)
theory BootstrapSpec
  imports Bootstrap MetaSpec
begin

unbundle bit_operations_syntax

text \<open>
  Generations of a database file: a history of commits writes each new meta over the older of the
  two meta pages, and opening the file finds the newest one, whatever an interrupted commit left in
  the page it was writing.
\<close>

section \<open>Valid metas\<close>

definition meta_ok :: "meta_v4 \<Rightarrow> 64 word \<Rightarrow> bool" where
  "meta_ok m physical_bytes \<longleftrightarrow> meta_sized m \<and> mt_database_id m \<noteq> replicate 16 0 \<and> meta_structure_kind m \<noteq> None
    \<and> bootstrap_valid m physical_bytes = Inr m"

lemma bootstrap_valid_same: "bootstrap_valid m bytes_len = Inr m' \<Longrightarrow> m' = m"
  by (auto simp: bootstrap_valid_def result_simps)

lemma valid_generation:
  assumes "bootstrap_valid m bytes_len = Inr m'"
  shows "mt_txn_id m \<noteq> 0" "2 \<le> mt_page_count m" "mt_page_count m \<le> MAX_PAGE_COUNT"
    "checked_mul (mt_page_count m) (of_nat PAGE_SIZE) = Some (mt_page_count m * of_nat PAGE_SIZE)"
    "mt_page_count m * of_nat PAGE_SIZE \<le> bytes_len"
  using assms
  by (auto simp: bootstrap_valid_def validate_generation_def validate_commit_identity_def validate_declared_page_count_def
      checked_mul_def result_simps split: if_splits)

text \<open>A meta valid at one length of the file is valid at every length that holds its pages.\<close>

lemma meta_ok_at:
  assumes "meta_ok m bytes_len" "mt_page_count m * of_nat PAGE_SIZE \<le> bytes_len'"
  shows "meta_ok m bytes_len'"
proof -
  have v: "bootstrap_valid m bytes_len = Inr m" using assms(1) by (simp add: meta_ok_def)
  have "\<not> bytes_len' < mt_page_count m * of_nat PAGE_SIZE" using assms(2) by simp
  hence "bootstrap_valid m bytes_len' = Inr m" using v valid_generation(4) [OF v]
    by (auto simp: bootstrap_valid_def validate_generation_def result_simps)
  thus ?thesis using assms(1) by (simp add: meta_ok_def)
qed

lemma committed_unat:
  assumes "meta_ok m bytes_len"
  shows "unat (mt_page_count m * of_nat PAGE_SIZE) = unat (mt_page_count m) * PAGE_SIZE" "2 \<le> unat (mt_page_count m)"
    "unat (mt_page_count m) \<le> 2 ^ 32"
proof -
  have v: "2 \<le> mt_page_count m" "mt_page_count m \<le> MAX_PAGE_COUNT" using assms valid_generation(2,3) by (auto simp: meta_ok_def)
  show u: "unat (mt_page_count m) \<le> 2 ^ 32" using v(2) by (simp add: word_le_nat_alt MAX_PAGE_COUNT_def)
  show "unat (mt_page_count m * of_nat PAGE_SIZE) = unat (mt_page_count m) * PAGE_SIZE"
    using u by (simp add: unat_word_ariths unat_of_nat PAGE_SIZE_def)
  show "2 \<le> unat (mt_page_count m)" using v(1) by (simp add: word_le_nat_alt)
qed

lemma meta_ok_below:
  assumes "meta_ok m bytes_len" "meta_ok m' bytes_len'" "mt_page_count m \<le> mt_page_count m'"
  shows "meta_ok m bytes_len'"
proof (rule meta_ok_at [OF assms(1)])
  have "mt_page_count m * of_nat PAGE_SIZE \<le> mt_page_count m' * of_nat PAGE_SIZE"
    using assms(3) committed_unat(1) [OF assms(1)] committed_unat(1) [OF assms(2)] by (simp add: word_le_nat_alt)
  thus "mt_page_count m * of_nat PAGE_SIZE \<le> bytes_len'" using assms(2) valid_generation(5) by (fastforce simp: meta_ok_def)
qed

lemma identity_meta_page:
  assumes "castagnoli plat" "meta_sized m" "mt_database_id m \<noteq> replicate 16 0"
  shows "identity_readable plat contiguous (meta_page m) = Inr m"
  using meta_page_header [OF assms(2)] meta_page_reserved [OF assms(2)] meta_page_checksum [OF assms(2)]
    meta_checksum_field [OF assms(1) length_meta_page [OF assms(2)]] decode_meta_page [OF assms(2)] assms(3)
  by (simp add: identity_readable_def require_identity_header_def require_identity_body_def)

lemma candidate_meta_page:
  "castagnoli plat \<Longrightarrow> meta_ok m bytes_len \<Longrightarrow> meta_candidate plat contiguous bytes_len (meta_page m) = Inr m"
  by (simp add: meta_candidate_def meta_ok_def identity_meta_page)

text \<open>A readable page is determined by its first 256 bytes.\<close>

lemma readable_page:
  assumes "identity_readable plat contiguous p = Inr m"
  shows "length p = PAGE_SIZE" "p = rd p 0 256 @ replicate (PAGE_SIZE - 256) 0"
proof -
  have r: "meta_magic_valid p" "meta_reserved_zero p"
    using assms by (auto simp: identity_readable_def require_identity_header_def require_identity_body_def result_simps split: if_splits)
  show l: "length p = PAGE_SIZE" using r(1) by (simp add: meta_magic_valid_def)
  have "rd p 256 (PAGE_SIZE - 256) = replicate (PAGE_SIZE - 256) 0"
    using r(2) l by (simp add: meta_reserved_zero_def all_zero_iff usize_max_def PAGE_SIZE_def META_SIZE_def)
  thus "p = rd p 0 256 @ replicate (PAGE_SIZE - 256) 0"
    using l by (metis append_take_drop_id drop_0 length_drop rd_def take_all order_refl)
qed

lemma readable_same:
  assumes "identity_readable plat contiguous p = Inr m" "identity_readable plat contiguous q = Inr m'" "same p q 0 (unat META_SIZE)"
  shows "p = q"
  using readable_page [OF assms(1)] readable_page [OF assms(2)] assms(3)
  by (simp add: same_iff usize_max_def PAGE_SIZE_def META_SIZE_def)

text \<open>Any single byte of a meta page that changes makes the page unreadable.\<close>

lemma changed_byte_unreadable:
  assumes "castagnoli plat" "meta_sized m" "i < PAGE_SIZE" "meta_page m ! i \<noteq> b"
  shows "\<exists>problem. identity_readable plat contiguous ((meta_page m)[i := b]) = Inl problem"
proof -
  have "\<not> field_valid META_CRC_OFFSET ((meta_page m)[i := b])"
    by (rule field_one_byte [OF meta_page_checksum [OF assms(2)]])
      (use assms(3,4) length_meta_page [OF assms(2)] in \<open>simp_all add: META_CRC_OFFSET_def PAGE_SIZE_def\<close>)
  hence "\<not> meta_checksum_valid plat contiguous ((meta_page m)[i := b])"
    using meta_checksum_field [OF assms(1)] length_meta_page [OF assms(2)] by simp
  thus ?thesis
    by (simp add: identity_readable_def require_identity_header_def require_identity_body_def)
qed

section \<open>Selection\<close>

lemma select_pair_cases:
  assumes "select_pair p0 p1 m0 m1 = Inr (m, selection, slot)"
  shows "selection = ProvenCurrent \<and> (mt_txn_id m0 = mt_txn_id m1 \<and> same p0 p1 0 (unat META_SIZE) \<and> m = m0
    \<or> m = m0 \<and> mt_txn_id m0 = mt_txn_id m1 + 1 \<or> m = m1 \<and> mt_txn_id m1 = mt_txn_id m0 + 1)"
  using assms by (auto simp: select_pair_def Let_def algebra_simps split: if_splits)

lemma finish_open_meta: "finish_open m selection slot bytes_len mode = Inr b \<Longrightarrow> bs_meta b = m \<and> bs_selection b = selection \<and> bs_selected_meta_page b = slot"
  by (auto simp: finish_open_def result_simps split: if_splits)

definition meta_slot :: "meta_v4 \<Rightarrow> 8 word" where
  "meta_slot m = ucast (mt_txn_id m AND 1)"

definition slot_page :: "8 word \<Rightarrow> bytes \<times> bytes \<Rightarrow> bytes" where
  "slot_page k p = (if k = 0 then fst p else snd p)"

definition with_slot :: "8 word \<Rightarrow> bytes \<Rightarrow> bytes \<times> bytes \<Rightarrow> bytes \<times> bytes" where
  "with_slot k page p = (if k = 0 then (page, snd p) else (fst p, page))"

lemma meta_slot_odd: "meta_slot m = (if odd (mt_txn_id m) then 1 else 0)"
  by (simp add: meta_slot_def and_one_eq mod2_eq_if)

lemma meta_slot_next: "mt_txn_id m' = mt_txn_id m + 1 \<Longrightarrow> meta_slot m' = 1 - meta_slot m"
  by (simp add: meta_slot_odd)

lemma slot_page_with [simp]:
  "slot_page k (with_slot k page p) = page" "slot_page (1 - meta_slot m) (with_slot (meta_slot m) page p) = slot_page (1 - meta_slot m) p"
  "slot_page (meta_slot m) (with_slot (1 - meta_slot m) page p) = slot_page (meta_slot m) p"
  by (simp_all add: slot_page_def with_slot_def meta_slot_odd)

section \<open>Histories\<close>

inductive generations :: "meta_v4 list \<Rightarrow> 64 word \<Rightarrow> bytes \<times> bytes \<Rightarrow> bool" where
  created: "meta_ok m bytes_len \<Longrightarrow> generations [m] bytes_len (meta_page m, meta_page m)"
| published: "generations (m # ms) bytes_len p \<Longrightarrow> mt_page_count m \<le> mt_page_count m' \<Longrightarrow> meta_ok m' bytes_len' \<Longrightarrow> mt_txn_id m' = mt_txn_id m + 1 \<Longrightarrow>
    static_identity_eq m m' \<Longrightarrow> generations (m' # m # ms) bytes_len' (with_slot (meta_slot m') (meta_page m') p)"

inductive_cases generations_ConsE: "generations (m # ms) bytes_len p"

lemma generations_newest:
  "generations ms bytes_len p \<Longrightarrow> ms = m # ms' \<Longrightarrow> meta_ok m bytes_len \<and> slot_page (meta_slot m) p = meta_page m
    \<and> (case ms' of [] \<Rightarrow> slot_page (1 - meta_slot m) p = meta_page m
       | m1 # _ \<Rightarrow> meta_ok m1 bytes_len \<and> mt_txn_id m = mt_txn_id m1 + 1 \<and> static_identity_eq m1 m \<and> slot_page (1 - meta_slot m) p = meta_page m1)"
proof (induction arbitrary: m ms' rule: generations.induct)
  case (created m0 bytes_len)
  thus ?case by (simp add: slot_page_def)
next
  case (published m0 ms bytes_len p m1 bytes_len')
  note ih = published.IH [OF refl]
  have e: "m = m1" "ms' = m0 # ms" using published.prems by auto
  have s: "meta_slot m1 = 1 - meta_slot m0" by (rule meta_slot_next [OF published.hyps(4)])
  have "slot_page (1 - meta_slot m1) (with_slot (meta_slot m1) (meta_page m1) p) = meta_page m0" using ih by (simp add: s)
  thus ?case using ih published.hyps meta_ok_below e by auto
qed

section \<open>Opening\<close>

abbreviation open_pages :: "platform \<Rightarrow> bool \<Rightarrow> bytes \<times> bytes \<Rightarrow> 64 word \<Rightarrow> open_mode \<Rightarrow> bootstrap_error + bootstrap" where
  "open_pages plat contiguous p \<equiv> open_meta_pages plat contiguous (fst p) (snd p)"

lemma open_selects:
  assumes "open_pages plat contiguous p bytes_len mode = Inr b"
  shows "\<exists>selection slot. select_candidates (fst p) (snd p) (meta_candidate plat contiguous bytes_len (fst p))
      (meta_candidate plat contiguous bytes_len (snd p)) = Inr (bs_meta b, selection, slot)
    \<and> bs_selection b = selection \<and> bs_selected_meta_page b = slot
    \<and> require_same_identity (identity_readable plat contiguous (fst p)) (identity_readable plat contiguous (snd p)) = Inr ()"
  using assms by (auto simp: open_meta_pages_def result_simps dest!: finish_open_meta)

lemma candidate_identity: "meta_candidate plat contiguous bytes_len page = Inr m \<Longrightarrow> identity_readable plat contiguous page = Inr m"
  by (auto simp: meta_candidate_def result_simps dest: bootstrap_valid_same)

text \<open>Whatever one page holds, if the other holds a valid meta then a file that opens does so at that meta or at a
  valid meta of the page that comes right after it.\<close>

lemma open_beside:
  assumes c: "castagnoli plat" and m: "meta_ok m bytes_len" and s: "slot_page k p = meta_page m" and k: "k = 0 \<or> k = 1"
    and o: "open_pages plat contiguous p bytes_len mode = Inr b" and q: "q = slot_page (1 - k) p"
  shows "bs_meta b = m \<or> meta_candidate plat contiguous bytes_len q = Inr (bs_meta b) \<and> mt_txn_id (bs_meta b) = mt_txn_id m + 1
    \<and> static_identity_eq m (bs_meta b)"
proof -
  have cm: "meta_candidate plat contiguous bytes_len (meta_page m) = Inr m" by (rule candidate_meta_page [OF c m])
  note im = candidate_identity [OF cm]
  obtain selection slot where sel: "select_candidates (fst p) (snd p) (meta_candidate plat contiguous bytes_len (fst p))
      (meta_candidate plat contiguous bytes_len (snd p)) = Inr (bs_meta b, selection, slot)"
    and id: "require_same_identity (identity_readable plat contiguous (fst p)) (identity_readable plat contiguous (snd p)) = Inr ()"
    using open_selects [OF o] by blast
  show ?thesis
  proof (cases "meta_candidate plat contiguous bytes_len q")
    case (Inl e)
    thus ?thesis using sel cm s k q by (auto simp: slot_page_def select_candidates_def split: if_splits)
  next
    case (Inr mq)
    note iq = candidate_identity [OF Inr]
    have eq: "mq = m" if "same (meta_page m) q 0 (unat META_SIZE) \<or> same q (meta_page m) 0 (unat META_SIZE)"
      using that readable_same [OF im iq] readable_same [OF iq im] im iq by auto
    show ?thesis
    proof (cases "k = 0")
      case True
      hence p: "fst p = meta_page m" "snd p = q" using s q by (simp_all add: slot_page_def)
      have "static_identity_eq m mq" using id p im iq by (auto simp: require_same_identity_def split: if_splits)
      thus ?thesis using select_pair_cases [of "meta_page m" q m mq "bs_meta b" selection slot] sel p cm Inr eq
        by (auto simp: select_candidates_def)
    next
      case False
      hence p: "snd p = meta_page m" "fst p = q" using s q k by (simp_all add: slot_page_def)
      have "static_identity_eq mq m" using id p im iq by (auto simp: require_same_identity_def split: if_splits)
      hence "static_identity_eq m mq" by (auto simp: static_identity_eq_def)
      thus ?thesis using select_pair_cases [of q "meta_page m" mq m "bs_meta b" selection slot] sel p cm Inr eq
        by (auto simp: select_candidates_def)
    qed
  qed
qed

text \<open>After any history of commits the pages hold the newest generation and the one before it, and opening finds the newest.\<close>

lemma next_txn_less: "t' = t + 1 \<Longrightarrow> t' \<noteq> 0 \<Longrightarrow> t < t'" for t t' :: "64 word"
  using unatSuc [of t] by (simp add: word_less_nat_alt add.commute)

lemma select_next:
  assumes "mt_txn_id m = mt_txn_id m1 + 1" "mt_txn_id m \<noteq> 0"
  shows "select_pair page0 page1 m1 m = (if meta_slot m = 1 then Inr (m, ProvenCurrent, meta_slot m) else Inl PhysicalParity)"
    "select_pair page0 page1 m m1 = (if meta_slot m = 0 then Inr (m, ProvenCurrent, meta_slot m) else Inl PhysicalParity)"
proof -
  have l: "mt_txn_id m1 < mt_txn_id m" by (rule next_txn_less [OF assms])
  show "select_pair page0 page1 m1 m = (if meta_slot m = 1 then Inr (m, ProvenCurrent, meta_slot m) else Inl PhysicalParity)"
    "select_pair page0 page1 m m1 = (if meta_slot m = 0 then Inr (m, ProvenCurrent, meta_slot m) else Inl PhysicalParity)"
    using l assms(1) by (auto simp: select_pair_def meta_slot_def)
qed

lemma select_same: "select_pair (meta_page m) (meta_page m) m m = Inr (m, ProvenCurrent, meta_slot m)"
  if "meta_sized m"
  using length_meta_page [OF that] by (simp add: select_pair_def meta_slot_def same_iff usize_max_def META_SIZE_def PAGE_SIZE_def)

lemma finish_current:
  assumes "meta_ok m bytes_len" "mode = ImmutableReader \<longrightarrow> mt_page_count m * of_nat PAGE_SIZE = bytes_len"
  shows "finish_open m ProvenCurrent slot bytes_len mode = Inr \<lparr> bs_meta = m, bs_selection = ProvenCurrent,
    bs_selected_meta_page = slot, bs_committed_bytes = mt_page_count m * of_nat PAGE_SIZE, bs_physical_bytes = bytes_len \<rparr>"
  using assms valid_generation(4) [of m bytes_len m] by (auto simp: finish_open_def meta_ok_def)

lemma open_newest:
  assumes c: "castagnoli plat" and g: "generations (m # ms) bytes_len p" and l: "geometry_valid bytes_len"
    and mode: "mode = ImmutableReader \<longrightarrow> mt_page_count m * of_nat PAGE_SIZE = bytes_len"
  shows "open_pages plat contiguous p bytes_len mode = Inr \<lparr> bs_meta = m, bs_selection = ProvenCurrent,
    bs_selected_meta_page = meta_slot m, bs_committed_bytes = mt_page_count m * of_nat PAGE_SIZE, bs_physical_bytes = bytes_len \<rparr>"
proof -
  note n = generations_newest [OF g refl]
  have ok: "meta_ok m bytes_len" and s: "slot_page (meta_slot m) p = meta_page m" using n by auto
  note cm = candidate_meta_page [OF c ok] and fin = finish_current [OF ok mode]
  have geo: "require_geometry bytes_len = Inr ()" using l by (auto simp: geometry_valid_def split: sum.splits)
  show ?thesis
  proof (cases ms)
    case Nil
    hence "fst p = meta_page m" "snd p = meta_page m" using n by (auto simp: slot_page_def meta_slot_odd split: if_splits)
    thus ?thesis using fin cm candidate_identity [OF cm] geo select_same [of m] ok
      by (simp add: open_meta_pages_def require_same_identity_def static_identity_eq_def select_candidates_def meta_ok_def)
  next
    case (Cons m1 ms')
    have ok1: "meta_ok m1 bytes_len" and t: "mt_txn_id m = mt_txn_id m1 + 1" and i: "static_identity_eq m1 m"
      and s1: "slot_page (1 - meta_slot m) p = meta_page m1" using n Cons by auto
    note cm1 = candidate_meta_page [OF c ok1]
    have i': "static_identity_eq m m1" using i by (auto simp: static_identity_eq_def)
    have t0: "mt_txn_id m \<noteq> 0" using ok valid_generation(1) by (auto simp: meta_ok_def)
    show ?thesis using fin cm cm1 candidate_identity [OF cm] candidate_identity [OF cm1] geo s s1 i i' select_next [OF t t0]
      by (cases "odd (mt_txn_id m)") (simp_all add: open_meta_pages_def require_same_identity_def select_candidates_def slot_page_def meta_slot_odd)
  qed
qed

text \<open>Transaction numbers only grow along a history.\<close>

lemma generations_ok: "generations ms bytes_len p \<Longrightarrow> m \<in> set ms \<Longrightarrow> mt_txn_id m \<noteq> 0"
  by (induction rule: generations.induct) (auto simp: meta_ok_def dest: valid_generation(1))

lemma generations_older:
  "generations ms bytes_len p \<Longrightarrow> ms = m # ms' \<Longrightarrow> m' \<in> set ms' \<Longrightarrow> mt_txn_id m' < mt_txn_id m"
proof (induction arbitrary: m ms' rule: generations.induct)
  case (published m0 ms bytes_len p m1 bytes_len')
  have "mt_txn_id m1 \<noteq> 0" using published.hyps(3) valid_generation(1) by (auto simp: meta_ok_def)
  hence l: "mt_txn_id m0 < mt_txn_id m1" by (rule next_txn_less [OF published.hyps(4)])
  show ?case
  proof (cases "m' = m0")
    case False
    hence "mt_txn_id m' < mt_txn_id m0" using published.prems published.IH [OF refl] by auto
    thus ?thesis using l published.prems by auto
  qed (use l published.prems in auto)
qed auto

lemma generations_distinct: "generations ms bytes_len p \<Longrightarrow> distinct (map mt_txn_id ms)"
proof (induction rule: generations.induct)
  case (published m ms bytes_len p m' bytes_len')
  have "generations (m' # m # ms) bytes_len' (with_slot (meta_slot m') (meta_page m') p)"
    using published.hyps by (intro generations.published)
  hence "mt_txn_id m0 < mt_txn_id m'" if "m0 \<in> set (m # ms)" for m0 using generations_older that by blast
  thus ?case using published.IH by fastforce
qed simp

text \<open>A history does not depend on the length of the file, as long as the file holds the newest generation.\<close>

lemma generations_at:
  assumes "generations (m # ms) bytes_len p" "mt_page_count m * of_nat PAGE_SIZE \<le> bytes_len'"
  shows "generations (m # ms) bytes_len' p"
  using assms(1)
proof (cases rule: generations.cases)
  case created
  thus ?thesis using meta_ok_at [OF _ assms(2)] generations.created by auto
next
  case (published m0 ms' bytes_len0 p0)
  thus ?thesis using meta_ok_at [OF _ assms(2)] generations.published by auto
qed

end
