(* ===== verification/PublicationSpec.thy ===== *)
theory PublicationSpec
  imports Publication BootstrapSpec
begin

text \<open>
  Commits are atomic and durable: a publication that reports success leaves a file that opens at the
  new generation, one that reports failure before its meta write leaves the old one, and a crash at
  any point leaves a file that opens, if it opens, at the old generation or at the new one with all
  its pages. A commit whose outcome is unknown is resolved by its transaction and nonce.
\<close>

section \<open>The meta pages of a mapping\<close>

definition meta_pages :: "mapping \<Rightarrow> bytes \<times> bytes" where
  "meta_pages m = (page_bytes m 0, page_bytes m 1)"

definition writer_ok :: "meta_v4 list \<Rightarrow> 64 word \<Rightarrow> writer_core \<Rightarrow> bool" where
  "writer_ok ms bytes_len self \<longleftrightarrow>
    live_map (wc_mapping self) \<and> mp_access (wc_mapping self) = ReadWrite \<and> mp_unreadable (wc_mapping self) = None
    \<and> 2 * PAGE_SIZE \<le> mp_len (wc_mapping self) \<and> generations ms bytes_len (meta_pages (wc_mapping self)) \<and> geometry_valid bytes_len
    \<and> bs_meta (wc_base self) = hd ms \<and> bs_selected_meta_page (wc_base self) = meta_slot (hd ms)"

lemma slot_values: "meta_slot m = 0 \<or> meta_slot m = 1"
  by (simp add: meta_slot_odd)

lemma slot_numbers:
  "unat (1 - meta_slot m) = (if odd (mt_txn_id m) then 0 else 1)"
  "unat (ucast (1 - meta_slot m) :: 32 word) = unat (1 - meta_slot m)"
  by (simp_all add: meta_slot_odd)

lemma bootstrap_mapping_pages:
  assumes "live_map m" "mp_unreadable m = None" "2 * PAGE_SIZE \<le> mp_len m"
  shows "bootstrap_mapping plat contiguous m bytes_len mode = map_err error_of_format (open_pages plat contiguous (meta_pages m) bytes_len mode)"
proof -
  have "page_in m 2 0" "page_in m 2 1" using assms(3) by (simp_all add: page_in_def)
  thus ?thesis using assms(1,2) by (simp add: bootstrap_mapping_def map_page_in meta_pages_def)
qed

lemma writer_ok_opens:
  assumes "castagnoli plat" "writer_ok (m # ms) bytes_len self"
  shows "bootstrap_mapping plat contiguous (wc_mapping self) bytes_len Writer = Inr \<lparr> bs_meta = m, bs_selection = ProvenCurrent,
    bs_selected_meta_page = meta_slot m, bs_committed_bytes = mt_page_count m * of_nat PAGE_SIZE, bs_physical_bytes = bytes_len \<rparr>"
  using assms(2) open_newest [OF assms(1), of m ms bytes_len "meta_pages (wc_mapping self)" Writer]
  by (simp add: bootstrap_mapping_pages writer_ok_def)

section \<open>A publication step by step\<close>

text \<open>What a publication relies on: a draft of the next transaction that fits the mapping, whose meta is
  valid at any length the file may get, and an operating system that keeps the file below a truncation.\<close>

definition publish_ready :: "publish_io \<Rightarrow> meta_v4 \<Rightarrow> meta_v4 \<Rightarrow> writer_core \<Rightarrow> bool" where
  "publish_ready io m m' self \<longleftrightarrow>
    map_option dr_meta (wc_draft self) = Some m' \<and> mt_txn_id m' = mt_txn_id m + 1 \<and> static_identity_eq m m'
    \<and> meta_ok m' (mt_page_count m' * of_nat PAGE_SIZE) \<and> mt_page_count m \<le> mt_page_count m'
    \<and> unat (mt_page_count m') * PAGE_SIZE \<le> mp_len (wc_mapping self)
    \<and> (\<exists>contents. shows_file (pi_file_after io) contents \<and> unat (mt_page_count m') * PAGE_SIZE \<le> length contents
         \<and> take (unat (mt_page_count m') * PAGE_SIZE) contents = take (unat (mt_page_count m') * PAGE_SIZE) (the (mp_map (wc_mapping self))))
    \<and> (\<forall>len. of_len (pi_file io) = Inr len \<longrightarrow> geometry_valid len)"

lemma page_bytes_prefix:
  assumes "mp_map m = Some base" "mp_map m' = Some (take len base)" "unat n * PAGE_SIZE + PAGE_SIZE \<le> len"
  shows "page_bytes m' n = page_bytes m n"
  using assms by (simp add: page_bytes_def rd_def take_drop)


lemma geometry_committed:
  assumes "meta_ok m bytes_len"
  shows "geometry_valid (mt_page_count m * of_nat PAGE_SIZE)"
proof -
  note u = committed_unat [OF assms]
  have "unat (mt_page_count m * of_nat PAGE_SIZE mod of_nat PAGE_SIZE) = 0"
    using u(1) by (simp add: unat_mod_distrib unat_of_nat PAGE_SIZE_def)
  hence "mt_page_count m * of_nat PAGE_SIZE mod of_nat PAGE_SIZE = 0" by (simp only: unat_eq_zero)
  moreover have "of_nat (2 * PAGE_SIZE) \<le> mt_page_count m * of_nat PAGE_SIZE"
    using u by (simp add: word_le_nat_alt unat_of_nat PAGE_SIZE_def)
  ultimately show ?thesis by (simp add: geometry_valid_def require_geometry_def not_less)
qed

lemma publish_shrunk:
  assumes w: "writer_ok (m # ms) bytes_len self" and r: "publish_ready io m m' self"
    and s: "shrink_or_retain (wc_mapping self) (pi_file io) (pi_set_len io) (pi_file_after io) (mt_page_count m' * of_nat PAGE_SIZE) = (m1, Inr physical_bytes)"
  shows "live_map m1" "mp_access m1 = ReadWrite" "mp_unreadable m1 = None" "mp_len m1 = unat (mt_page_count m') * PAGE_SIZE"
    "unat n < unat (mt_page_count m') \<Longrightarrow> page_bytes m1 n = page_bytes (wc_mapping self) n"
    "meta_ok m' physical_bytes" "geometry_valid physical_bytes"
proof -
  have ok: "meta_ok m' (mt_page_count m' * of_nat PAGE_SIZE)" using r by (simp add: publish_ready_def)
  note u = committed_unat [OF ok]
  obtain base where b: "mp_map (wc_mapping self) = Some base" "length base = mp_len (wc_mapping self)" "mp_len (wc_mapping self) \<le> usize_max"
    using w by (auto simp: writer_ok_def live_map_def)
  have a: "mp_access (wc_mapping self) = ReadWrite" "mp_unreadable (wc_mapping self) = None" using w by (auto simp: writer_ok_def)
  obtain contents where c: "shows_file (pi_file_after io) contents" "unat (mt_page_count m') * PAGE_SIZE \<le> length contents"
    "take (unat (mt_page_count m') * PAGE_SIZE) contents = take (unat (mt_page_count m') * PAGE_SIZE) base"
    and l: "unat (mt_page_count m') * PAGE_SIZE \<le> mp_len (wc_mapping self)"
    using r b by (auto simp: publish_ready_def)
  have p: "0 < mt_page_count m' * of_nat PAGE_SIZE" using u by (simp add: word_less_nat_alt PAGE_SIZE_def)
  note k = shrink_or_retain_keeps [OF s b(1,2) a(1) c(1), unfolded u, OF c(3,2) l p]
  show "live_map m1" using k(1,2) b l by (simp add: live_map_def)
  show "mp_access m1 = ReadWrite" "mp_unreadable m1 = None" "mp_len m1 = unat (mt_page_count m') * PAGE_SIZE" using k a by simp_all
  show "meta_ok m' physical_bytes" by (rule meta_ok_at [OF ok k(5)])
  show "geometry_valid physical_bytes"
    using shrink_or_retain_length [OF s] geometry_committed [OF ok] r by (auto simp: publish_ready_def)
  show "page_bytes m1 n = page_bytes (wc_mapping self) n" if "unat n < unat (mt_page_count m')"
  proof (rule page_bytes_prefix [OF b(1) k(1)])
    have "Suc (unat n) * PAGE_SIZE \<le> unat (mt_page_count m') * PAGE_SIZE" using that by (intro mult_le_mono1) simp
    thus "unat n * PAGE_SIZE + PAGE_SIZE \<le> unat (mt_page_count m') * PAGE_SIZE" by simp
  qed
qed

text \<open>The file operations of a complete publication: those that make the data pages and the length of the
  file durable, then those of the meta page. Every publication performs a prefix of them.\<close>

definition data_flush :: "meta_v4 \<Rightarrow> file_event list" where
  "data_flush m' = (if 2 < unat (mt_page_count m')
     then [Flushed (2 * PAGE_SIZE) (unat (mt_page_count m') * PAGE_SIZE - 2 * PAGE_SIZE)] else [])"

definition data_events :: "meta_v4 \<Rightarrow> 64 word \<Rightarrow> file_event list" where
  "data_events m' physical_bytes = Sized (unat physical_bytes) # data_flush m' @ [Synced]"

definition meta_events :: "meta_v4 \<Rightarrow> meta_v4 \<Rightarrow> file_event list" where
  "meta_events m m' = [Wrote (unat (1 - meta_slot m)) (meta_page m'), Flushed (unat (1 - meta_slot m) * PAGE_SIZE) PAGE_SIZE, Synced]"

definition published_base :: "meta_v4 \<Rightarrow> 64 word \<Rightarrow> bootstrap" where
  "published_base m physical_bytes = \<lparr> bs_meta = m, bs_selection = ProvenCurrent, bs_selected_meta_page = meta_slot m,
     bs_committed_bytes = mt_page_count m * of_nat PAGE_SIZE, bs_physical_bytes = physical_bytes \<rparr>"

lemma put_meta:
  assumes m1: "live_map m1" "2 \<le> unat limit" "mp_len m1 = unat limit * PAGE_SIZE" and m': "meta_sized m'"
    and p: "meta_pages m1 = p"
  shows "page_in m1 limit (ucast (1 - meta_slot m))" "live_map (map_put_page m1 (ucast (1 - meta_slot m)) (meta_page m'))"
    "meta_pages (map_put_page m1 (ucast (1 - meta_slot m)) (meta_page m')) = with_slot (1 - meta_slot m) (meta_page m') p"
proof -
  have "0 < limit" "1 < limit" using m1(2) by (simp_all add: word_less_nat_alt)
  hence i: "page_in m1 limit 0" "page_in m1 limit 1" using m1(3) by (simp_all add: page_in_def)
  have s: "(ucast (1 - meta_slot m) :: 32 word) = (if odd (mt_txn_id m) then 0 else 1)" by (simp add: meta_slot_odd)
  thus t: "page_in m1 limit (ucast (1 - meta_slot m))" using i by simp
  show "live_map (map_put_page m1 (ucast (1 - meta_slot m)) (meta_page m'))"
    by (rule live_map_put [OF m1(1) t length_meta_page [OF m']])
  show "meta_pages (map_put_page m1 (ucast (1 - meta_slot m)) (meta_page m')) = with_slot (1 - meta_slot m) (meta_page m') p"
    using page_bytes_put [OF m1(1) t i(1) length_meta_page [OF m']] page_bytes_put [OF m1(1) t i(2) length_meta_page [OF m']] p
    by (auto simp: meta_pages_def s with_slot_def meta_slot_odd)
qed

lemma publish_meta_eq:
  assumes c: "castagnoli plat" and m1: "live_map (wc_mapping self)" "mp_access (wc_mapping self) = ReadWrite" "2 \<le> unat (mt_page_count m')"
      "mp_len (wc_mapping self) = unat (mt_page_count m') * PAGE_SIZE"
    and m': "meta_sized m'" and b: "bs_selected_meta_page (wc_base self) = meta_slot m"
  shows "publish_meta plat io self m' committed_bytes physical_bytes =
    (let self' = self \<lparr> wc_mapping := map_put_page (wc_mapping self) (ucast (1 - meta_slot m)) (meta_page m'), wc_draft := None, wc_unproved_tail_end := None \<rparr> in
     case pi_flush_meta io of
       Inl problem \<Rightarrow> (self', OutcomeUnknown problem, take 1 (meta_events m m'))
     | Inr _ \<Rightarrow>
         (case pi_sync_meta io of
            Inl problem \<Rightarrow> (self', OutcomeUnknown problem, take 2 (meta_events m m'))
          | Inr _ \<Rightarrow> (self' \<lparr> wc_base := \<lparr> bs_meta = m', bs_selection = ProvenCurrent, bs_selected_meta_page = 1 - meta_slot m,
              bs_committed_bytes = committed_bytes, bs_physical_bytes = physical_bytes \<rparr> \<rparr>, Published, meta_events m m')))"
proof -
  note t = put_meta [OF m1(1) m1(3,4) m' refl, of m]
  have e: "rbind (map_page_mut (wc_mapping self) (ucast (1 - meta_slot m)) (mt_page_count m')) (\<lambda>_. encode_mapped plat m') = Inr (meta_page m')"
    using map_page_mut_in [OF m1(1) t(1) m1(2)] encode_mapped_eq [OF c m'] by simp
  have f: "flush_page (map_put_page (wc_mapping self) (ucast (1 - meta_slot m)) (meta_page m')) reply (ucast (1 - meta_slot m)) (mt_page_count m')
      = rbind reply (\<lambda>_. Inr (Flushed (unat (1 - meta_slot m) * PAGE_SIZE) PAGE_SIZE))" for reply
    using page_offset_in [OF t(2), of "mt_page_count m'" "ucast (1 - meta_slot m)"] t(1,2)
    by (auto simp: flush_page_def map_base_def live_map_def slot_numbers)
  show ?thesis
    by (auto simp: publish_meta_def Let_def b e f sync_file_def outcome_unknown_def meta_events_def split: sum.splits)
qed

text \<open>The writer after a publication whose calls all succeeded.\<close>

definition after_publish :: "writer_core \<Rightarrow> mapping \<Rightarrow> meta_v4 \<Rightarrow> meta_v4 \<Rightarrow> writer_core" where
  "after_publish self m1 m m' =
    self \<lparr> wc_mapping := map_put_page m1 (ucast (1 - meta_slot m)) (meta_page m'), wc_draft := None, wc_unproved_tail_end := None \<rparr>"

lemma published_writer_ok:
  assumes w: "writer_ok (m # ms) bytes_len self" and r: "publish_ready io m m' self"
    and s: "shrink_or_retain (wc_mapping self) (pi_file io) (pi_set_len io) (pi_file_after io) (mt_page_count m' * of_nat PAGE_SIZE) = (m1, Inr physical_bytes)"
  shows "writer_ok (m' # m # ms) physical_bytes (after_publish self m1 m m' \<lparr> wc_base := published_base m' physical_bytes \<rparr>)"
proof -
  note k = publish_shrunk [OF w r s]
  note u = committed_unat [OF k(6)]
  have m': "meta_sized m'" using k(6) by (simp add: meta_ok_def)
  have p: "meta_pages m1 = meta_pages (wc_mapping self)" using k(5) [of 0] k(5) [of 1] u(2) by (simp add: meta_pages_def)
  note t = put_meta [OF k(1) u(2) k(4) m' p, of m]
  have n: "mt_txn_id m' = mt_txn_id m + 1" "static_identity_eq m m'" "mt_page_count m \<le> mt_page_count m'"
    using r by (simp_all add: publish_ready_def)
  have "generations (m' # m # ms) physical_bytes (with_slot (meta_slot m') (meta_page m') (meta_pages (wc_mapping self)))"
    using w n k(6) by (intro published) (auto simp: writer_ok_def)
  hence "generations (m' # m # ms) physical_bytes (meta_pages (map_put_page m1 (ucast (1 - meta_slot m)) (meta_page m')))"
    using t(3) meta_slot_next [OF n(1)] by simp
  thus ?thesis using t(2) k(2,3,4,7) u(2)
    by (simp add: writer_ok_def after_publish_def published_base_def)
qed

lemma flush_data_eq:
  assumes ok: "meta_ok m' (mt_page_count m' * of_nat PAGE_SIZE)" and m1: "live_map m1" "mp_len m1 = unat (mt_page_count m') * PAGE_SIZE"
  shows "(if mt_page_count m' * of_nat PAGE_SIZE > of_nat (2 * PAGE_SIZE)
      then rmap (\<lambda>flush. [flush]) (flush_range m1 reply (of_nat (2 * PAGE_SIZE)) (mt_page_count m' * of_nat PAGE_SIZE - of_nat (2 * PAGE_SIZE)))
      else Inr []) = rbind (if 2 < unat (mt_page_count m') then reply else Inr ()) (\<lambda>_. Inr (data_flush m'))"
proof -
  note u = committed_unat [OF ok]
  have two: "unat (of_nat (2 * PAGE_SIZE) :: 64 word) = 2 * PAGE_SIZE" by (simp add: PAGE_SIZE_def)
  have le: "of_nat (2 * PAGE_SIZE) \<le> mt_page_count m' * of_nat PAGE_SIZE" unfolding word_le_nat_alt two u(1) using u(2) by simp
  have l: "of_nat (2 * PAGE_SIZE) < mt_page_count m' * of_nat PAGE_SIZE \<longleftrightarrow> 2 < unat (mt_page_count m')"
    unfolding word_less_nat_alt two u(1) by (simp add: PAGE_SIZE_def)
  have sub: "unat (mt_page_count m' * of_nat PAGE_SIZE - of_nat (2 * PAGE_SIZE)) = unat (mt_page_count m') * PAGE_SIZE - 2 * PAGE_SIZE"
    unfolding unat_sub [OF le] two u(1) by (rule refl)
  have "2 * PAGE_SIZE \<le> unat (mt_page_count m') * PAGE_SIZE" using u(2) by simp
  hence "checked_range (of_nat (2 * PAGE_SIZE)) (unat (mt_page_count m' * of_nat PAGE_SIZE - of_nat (2 * PAGE_SIZE))) (mp_len m1)
      = Inr (2 * PAGE_SIZE, unat (mt_page_count m') * PAGE_SIZE - 2 * PAGE_SIZE)"
    unfolding checked_range_def sub two using m1 by (auto simp: checked_subrange_def usize_checked_add_def live_map_def)
  hence "flush_range m1 reply (of_nat (2 * PAGE_SIZE)) (mt_page_count m' * of_nat PAGE_SIZE - of_nat (2 * PAGE_SIZE))
      = rbind reply (\<lambda>_. Inr (Flushed (2 * PAGE_SIZE) (unat (mt_page_count m') * PAGE_SIZE - 2 * PAGE_SIZE)))"
    using m1(1) by (auto simp: flush_range_def map_base_def live_map_def)
  thus ?thesis unfolding l by (cases reply) (auto simp: data_flush_def result_simps)
qed

lemma publish_eq:
  assumes d: "wc_draft self = Some d" "dr_meta d = m'" and c0: "pi_cancelled0 io = Inr ()"
    and s: "shrink_or_retain (wc_mapping self) (pi_file io) (pi_set_len io) (pi_file_after io) (mt_page_count m' * of_nat PAGE_SIZE) = (m1, Inr physical_bytes)"
    and ok: "meta_ok m' (mt_page_count m' * of_nat PAGE_SIZE)" and m1: "live_map m1" "mp_len m1 = unat (mt_page_count m') * PAGE_SIZE"
  shows "publish plat io self =
    (case (if 2 < unat (mt_page_count m') then pi_flush_data io else Inr ()) of
       Inl problem \<Rightarrow> Inr (self \<lparr> wc_mapping := m1 \<rparr>, BeforePublication problem, [Sized (unat physical_bytes)])
     | Inr _ \<Rightarrow> (case pi_sync_data io of
         Inl problem \<Rightarrow> Inr (self \<lparr> wc_mapping := m1 \<rparr>, BeforePublication problem, Sized (unat physical_bytes) # data_flush m')
       | Inr _ \<Rightarrow> (case pi_cancelled1 io of
           Inl problem \<Rightarrow> Inr (self \<lparr> wc_mapping := m1 \<rparr>, BeforePublication problem, data_events m' physical_bytes)
         | Inr _ \<Rightarrow> (let (self', outcome, events) = publish_meta plat io (self \<lparr> wc_mapping := m1 \<rparr>) m' (mt_page_count m' * of_nat PAGE_SIZE) physical_bytes
             in Inr (self', outcome, data_events m' physical_bytes @ events)))))"
  unfolding publish_def c0 d(1) Let_def ok_or.simps rbind.simps sum.case d(2) s prod.case flush_data_eq [OF ok m1]
  by (cases "if 2 < unat (mt_page_count m') then pi_flush_data io else Inr ()"; cases "pi_sync_data io"; cases "pi_cancelled1 io")
    (simp_all add: sync_file_def data_events_def del: of_nat_mult)

text \<open>What every outcome says about the state of the writer and about the operations performed.\<close>

definition outcome_ok :: "meta_v4 list \<Rightarrow> meta_v4 \<Rightarrow> meta_v4 \<Rightarrow> writer_core \<Rightarrow> writer_core \<times> publish_outcome \<times> file_event list \<Rightarrow> bool" where
  "outcome_ok ms m m' self = (\<lambda>(self', outcome, events).
    \<exists>physical_bytes. mt_page_count m' * of_nat PAGE_SIZE \<le> physical_bytes \<and>
    (case outcome of
      BeforePublication _ \<Rightarrow> (\<exists>j. events = take j (data_events m' physical_bytes)) \<and> wc_base self' = wc_base self \<and> wc_draft self' = wc_draft self
    | OutcomeUnknown _ \<Rightarrow> (\<exists>j. events = data_events m' physical_bytes @ take j (meta_events m m')) \<and> wc_base self' = wc_base self \<and> wc_draft self' = None
    | Published \<Rightarrow> events = data_events m' physical_bytes @ meta_events m m' \<and> wc_draft self' = None
        \<and> wc_base self' = published_base m' physical_bytes \<and> writer_ok (m' # m # ms) physical_bytes self'))"

lemma outcome_before:
  "mt_page_count m' * of_nat PAGE_SIZE \<le> physical_bytes \<Longrightarrow>
    outcome_ok ms m m' self (self \<lparr> wc_mapping := m1 \<rparr>, BeforePublication problem, take j (data_events m' physical_bytes))"
  by (auto simp: outcome_ok_def)

lemma outcome_before_cases:
  assumes "mt_page_count m' * of_nat PAGE_SIZE \<le> physical_bytes"
  shows "outcome_ok ms m m' self (self \<lparr> wc_mapping := m1 \<rparr>, BeforePublication problem, [])"
    "outcome_ok ms m m' self (self \<lparr> wc_mapping := m1 \<rparr>, BeforePublication problem, [Sized (unat physical_bytes)])"
    "outcome_ok ms m m' self (self \<lparr> wc_mapping := m1 \<rparr>, BeforePublication problem, Sized (unat physical_bytes) # data_flush m')"
    "outcome_ok ms m m' self (self \<lparr> wc_mapping := m1 \<rparr>, BeforePublication problem, data_events m' physical_bytes)"
  using outcome_before [OF assms, of ms m self m1 problem 0] outcome_before [OF assms, of ms m self m1 problem 1]
    outcome_before [OF assms, of ms m self m1 problem "Suc (length (data_flush m'))"]
    outcome_before [OF assms, of ms m self m1 problem "length (data_events m' physical_bytes)"]
  by (simp_all add: data_events_def)

lemma publish_meta_outcome:
  assumes c: "castagnoli plat" and w: "writer_ok (m # ms) bytes_len self" and r: "publish_ready io m m' self"
    and s: "shrink_or_retain (wc_mapping self) (pi_file io) (pi_set_len io) (pi_file_after io) (mt_page_count m' * of_nat PAGE_SIZE) = (m1, Inr physical_bytes)"
    and e: "publish_meta plat io (self \<lparr> wc_mapping := m1 \<rparr>) m' (mt_page_count m' * of_nat PAGE_SIZE) physical_bytes = (self', outcome, events)"
  shows "outcome_ok ms m m' self (self', outcome, data_events m' physical_bytes @ events)"
proof -
  note k = publish_shrunk [OF w r s]
  note u = committed_unat [OF k(6)]
  have m': "meta_sized m'" using k(6) by (simp add: meta_ok_def)
  have b: "bs_selected_meta_page (wc_base (self \<lparr> wc_mapping := m1 \<rparr>)) = meta_slot m" using w by (simp add: writer_ok_def)
  have sl: "1 - meta_slot m = meta_slot m'" using r meta_slot_next [of m' m] by (simp add: publish_ready_def)
  note eq = publish_meta_eq [OF c _ _ u(2) _ m' b, of io "mt_page_count m' * of_nat PAGE_SIZE" physical_bytes, simplified, OF k(1,2,4)]
  have l: "mt_page_count m' * of_nat PAGE_SIZE \<le> physical_bytes" using k(6) valid_generation(5) by (auto simp: meta_ok_def)
  show ?thesis
  proof (cases "pi_flush_meta io"; cases "pi_sync_meta io")
    fix u0 u1 assume "pi_flush_meta io = Inr u0" "pi_sync_meta io = Inr u1"
    thus ?thesis using e eq published_writer_ok [OF w r s] l
      by (auto simp: outcome_ok_def Let_def sl published_base_def after_publish_def)
  qed (use e eq l in \<open>auto simp: outcome_ok_def Let_def intro!: exI [of _ physical_bytes]\<close>)
qed

lemma publish_outcome_ok:
  assumes c: "castagnoli plat" and w: "writer_ok (m # ms) bytes_len self" and r: "publish_ready io m m' self"
  shows "\<exists>out. publish plat io self = Inr out \<and> outcome_ok ms m m' self out"
proof -
  obtain d where d: "wc_draft self = Some d" "dr_meta d = m'" using r by (auto simp: publish_ready_def)
  obtain m1 shrunk where s: "shrink_or_retain (wc_mapping self) (pi_file io) (pi_set_len io) (pi_file_after io) (mt_page_count m' * of_nat PAGE_SIZE) = (m1, shrunk)"
    by (cases "shrink_or_retain (wc_mapping self) (pi_file io) (pi_set_len io) (pi_file_after io) (mt_page_count m' * of_nat PAGE_SIZE)")
  have ok: "meta_ok m' (mt_page_count m' * of_nat PAGE_SIZE)" using r by (simp add: publish_ready_def)
  show ?thesis
  proof (cases "pi_cancelled0 io")
    case (Inl problem)
    thus ?thesis using outcome_before_cases(1) [of m' _ ms m self "wc_mapping self" problem, OF order.refl] by (simp add: publish_def)
  next
    case (Inr u0)
    hence c0: "pi_cancelled0 io = Inr ()" by simp
    show ?thesis
    proof (cases shrunk)
      case (Inl problem)
      thus ?thesis using outcome_before_cases(1) [of m' _ ms m self m1 problem, OF order.refl] c0 by (simp add: publish_def d s)
    next
      case (Inr physical_bytes)
      note s' = s [unfolded Inr]
      note k = publish_shrunk [OF w r s']
      have l: "mt_page_count m' * of_nat PAGE_SIZE \<le> physical_bytes" using k(6) valid_generation(5) by (auto simp: meta_ok_def)
      show ?thesis
        unfolding publish_eq [OF d c0 s' ok k(1,4), of plat]
        using publish_meta_outcome [OF c w r s'] outcome_before_cases(2-4) [OF l]
        by (auto split: sum.splits prod.splits simp del: of_nat_mult)
    qed
  qed
qed

section \<open>Crashes\<close>

text \<open>
  The file as the operating system keeps it: the contents seen through the mapping, the contents on
  the device, the pages whose contents on the device are not determined, the pages flushed since
  the last synchronisation, the length of the file, and the length that the file on the device is known to have at least. Flushing
  reaches the pages that lie inside the flushed bytes. A synchronisation makes the flushed pages and the length durable. After a crash a page
  that was written and not made durable has any contents, whole or torn; every other page has its
  contents on the device; and the file has any length that is not below the durable one, so that growth that was not
  synchronised may be lost.
\<close>

record disk =
  dk_memory :: "nat \<Rightarrow> bytes"
  dk_durable :: "nat \<Rightarrow> bytes"
  dk_dirty :: "nat set"
  dk_flushed :: "nat set"
  dk_length :: nat
  dk_kept :: nat

definition pages_within :: "nat \<Rightarrow> nat \<Rightarrow> nat set" where
  "pages_within offset len = {n. offset \<le> n * PAGE_SIZE \<and> Suc n * PAGE_SIZE \<le> offset + len}"

fun disk_step :: "file_event \<Rightarrow> disk \<Rightarrow> disk" where
  "disk_step (Wrote n page) d = d \<lparr> dk_memory := (dk_memory d)(n := page), dk_dirty := insert n (dk_dirty d), dk_flushed := dk_flushed d - {n} \<rparr>"
| "disk_step (Sized len) d = d \<lparr> dk_length := len \<rparr>"
| "disk_step (Flushed offset len) d = d \<lparr> dk_flushed := dk_flushed d \<union> pages_within offset len \<rparr>"
| "disk_step Synced d = d \<lparr> dk_durable := (\<lambda>n. if n \<in> dk_flushed d then dk_memory d n else dk_durable d n),
    dk_dirty := dk_dirty d - dk_flushed d, dk_flushed := {}, dk_kept := dk_length d \<rparr>"

definition crash_image :: "disk \<Rightarrow> (nat \<Rightarrow> bytes) \<Rightarrow> nat \<Rightarrow> bool" where
  "crash_image d img len \<longleftrightarrow> (\<forall>n. n \<notin> dk_dirty d \<longrightarrow> img n = dk_durable d n) \<and> dk_kept d \<le> len"

text \<open>A meta page that was being written holds its old contents, its new ones, or a mixture that its checksum exposes.\<close>

definition torn_detected :: "platform \<Rightarrow> bool \<Rightarrow> disk \<Rightarrow> (nat \<Rightarrow> bytes) \<Rightarrow> bool" where
  "torn_detected plat contiguous d img \<longleftrightarrow>
    (\<forall>n<2. img n = dk_durable d n \<or> img n = dk_memory d n \<or> (\<exists>problem. identity_readable plat contiguous (img n) = Inl problem))"

text \<open>Before a publication only data pages have been written since the last one, and the device holds the file of the old generation.\<close>

definition disk_ready :: "disk \<Rightarrow> meta_v4 \<Rightarrow> bytes \<times> bytes \<Rightarrow> bool" where
  "disk_ready d m p \<longleftrightarrow> (\<forall>n. n \<notin> dk_dirty d \<longrightarrow> dk_durable d n = dk_memory d n) \<and> dk_dirty d \<subseteq> {2..} \<and> dk_flushed d = {}
    \<and> dk_memory d 0 = fst p \<and> dk_memory d 1 = snd p \<and> unat (mt_page_count m) * PAGE_SIZE \<le> dk_kept d"

lemma pages_within_data: "2 \<le> k \<Longrightarrow> n \<in> pages_within (2 * PAGE_SIZE) (k * PAGE_SIZE - 2 * PAGE_SIZE) \<longleftrightarrow> 2 \<le> n \<and> n < k"
proof -
  assume "2 \<le> k"
  hence "2 * PAGE_SIZE + (k * PAGE_SIZE - 2 * PAGE_SIZE) = k * PAGE_SIZE" by (simp add: mult_le_mono1)
  thus ?thesis unfolding pages_within_def mem_Collect_eq by (simp only: mult_le_cancel2 Suc_le_eq) (simp add: PAGE_SIZE_def)
qed

lemma pages_within_page: "pages_within (k * PAGE_SIZE) PAGE_SIZE = {k}"
proof -
  have "k * PAGE_SIZE + PAGE_SIZE = Suc k * PAGE_SIZE" by simp
  thus ?thesis unfolding pages_within_def by (simp only: mult_le_cancel2 Suc_le_mono) (auto simp: PAGE_SIZE_def)
qed

text \<open>The operations on the data pages write nothing and only make more of the file durable.\<close>

definition data_synced :: "nat \<Rightarrow> disk \<Rightarrow> disk \<Rightarrow> bool" where
  "data_synced len d d' \<longleftrightarrow> dk_memory d' = dk_memory d \<and> dk_dirty d' \<subseteq> dk_dirty d \<and> (\<forall>n. n \<notin> dk_dirty d' \<longrightarrow> dk_durable d' n = dk_memory d n)
    \<and> len \<le> dk_kept d'"

lemma data_synced_prefix:
  assumes d: "disk_ready d m p" and l: "unat (mt_page_count m) * PAGE_SIZE \<le> unat physical_bytes"
  shows "data_synced (unat (mt_page_count m) * PAGE_SIZE) d (fold disk_step (take j (data_events m' physical_bytes)) d)"
proof -
  have c: "take j (data_events m' physical_bytes) \<in> {[], [Sized (unat physical_bytes)], Sized (unat physical_bytes) # data_flush m', data_events m' physical_bytes}"
    by (cases "2 < unat (mt_page_count m')"; cases j rule: nat.exhaust)
      (auto simp: data_events_def data_flush_def take_Cons split: nat.splits)
  show ?thesis using c d l
    by (cases "2 < unat (mt_page_count m')") (auto simp: data_synced_def data_events_def data_flush_def disk_ready_def)
qed

lemma data_synced_all:
  fixes physical_bytes :: "64 word"
  assumes d: "disk_ready d m p" and n: "2 \<le> unat (mt_page_count m')"
  defines "d' \<equiv> fold disk_step (data_events m' physical_bytes) d"
  shows "dk_flushed d' = {}" "dk_kept d' = unat physical_bytes" "dk_dirty d' \<inter> {2..<unat (mt_page_count m')} = {}"
proof -
  show "dk_flushed d' = {}" "dk_kept d' = unat physical_bytes" by (simp_all add: d'_def data_events_def data_flush_def)
  show "dk_dirty d' \<inter> {2..<unat (mt_page_count m')} = {}"
  proof (cases "2 < unat (mt_page_count m')")
    case True
    hence "dk_dirty d' = dk_dirty d - pages_within (2 * PAGE_SIZE) (unat (mt_page_count m') * PAGE_SIZE - 2 * PAGE_SIZE)"
      using d by (simp add: d'_def data_events_def data_flush_def disk_ready_def)
    moreover have "{2..<unat (mt_page_count m')} \<subseteq> pages_within (2 * PAGE_SIZE) (unat (mt_page_count m') * PAGE_SIZE - 2 * PAGE_SIZE)"
      using pages_within_data [OF n] by (simp add: subset_iff)
    ultimately show ?thesis by blast
  qed simp
qed

lemma crash_before_meta:
  assumes "disk_ready d m p" "unat (mt_page_count m) * PAGE_SIZE \<le> unat physical_bytes"
    "crash_image (fold disk_step (take j (data_events m' physical_bytes)) d) img len"
  shows "img 0 = fst p" "img 1 = snd p" "n \<notin> dk_dirty d \<Longrightarrow> img n = dk_memory d n" "unat (mt_page_count m) * PAGE_SIZE \<le> len"
proof -
  have i: "n \<notin> dk_dirty d \<Longrightarrow> img n = dk_memory d n" for n
    using data_synced_prefix [OF assms(1,2), of j m'] assms(3) by (auto simp: data_synced_def crash_image_def)
  show "n \<notin> dk_dirty d \<Longrightarrow> img n = dk_memory d n" by (rule i)
  have "0 \<notin> dk_dirty d" "1 \<notin> dk_dirty d" using assms(1) by (auto simp: disk_ready_def)
  thus "img 0 = fst p" "img 1 = snd p" using i [of 0] i [of 1] assms(1) by (simp_all add: disk_ready_def)
  show "unat (mt_page_count m) * PAGE_SIZE \<le> len"
    using data_synced_prefix [OF assms(1,2), of j m'] assms(3) by (auto simp: data_synced_def crash_image_def)
qed

text \<open>The operations on the meta page write the page of the other slot and nothing else.\<close>

lemma meta_steps:
  fixes D :: disk and m m' :: meta_v4
  assumes a: "dk_flushed D = {}"
  defines "E j \<equiv> fold disk_step (take (Suc j) (meta_events m m')) D"
  shows "dk_dirty (E j) \<subseteq> insert (unat (1 - meta_slot m)) (dk_dirty D)"
    "n \<noteq> unat (1 - meta_slot m) \<Longrightarrow> dk_durable (E j) n = dk_durable D n"
    "dk_memory (E j) (unat (1 - meta_slot m)) = meta_page m'"
    "dk_kept D = dk_length D \<Longrightarrow> dk_kept (E j) = dk_length D"
    "2 \<le> j \<Longrightarrow> unat (1 - meta_slot m) \<notin> dk_dirty (E j) \<and> dk_durable (E j) (unat (1 - meta_slot m)) = meta_page m'"
    "j < 2 \<Longrightarrow> dk_durable (E j) (unat (1 - meta_slot m)) = dk_durable D (unat (1 - meta_slot m))"
proof -
  define t where "t = unat (1 - meta_slot m)"
  define M where "M = (dk_memory D)(t := meta_page m')"
  have ev: "meta_events m m' = [Wrote t (meta_page m'), Flushed (t * PAGE_SIZE) PAGE_SIZE, Synced]" by (simp add: meta_events_def t_def)
  have e0: "E 0 = D \<lparr> dk_memory := M, dk_dirty := insert t (dk_dirty D), dk_flushed := {} \<rparr>"
    by (simp add: E_def ev a M_def)
  have e1: "E 1 = D \<lparr> dk_memory := M, dk_dirty := insert t (dk_dirty D), dk_flushed := {t} \<rparr>"
    by (simp add: E_def ev a M_def pages_within_page)
  have e2: "E j = D \<lparr> dk_memory := M, dk_durable := (\<lambda>n. if n = t then M n else dk_durable D n),
      dk_dirty := dk_dirty D - {t}, dk_flushed := {}, dk_kept := dk_length D \<rparr>" if "2 \<le> j" for j
  proof -
    have "take (Suc j) (meta_events m m') = meta_events m m'" using that by (simp add: meta_events_def)
    thus ?thesis by (simp add: E_def ev a M_def pages_within_page cong: if_cong)
  qed
  have M: "M t = meta_page m'" by (simp add: M_def)
  consider "j = 0" | "j = 1" | "2 \<le> j" by linarith
  note c = this
  show "dk_dirty (E j) \<subseteq> insert (unat (1 - meta_slot m)) (dk_dirty D)"
    using c by cases (auto simp: e0 e1 [simplified] e2 t_def)
  show "n \<noteq> unat (1 - meta_slot m) \<Longrightarrow> dk_durable (E j) n = dk_durable D n"
    using c by cases (simp_all add: e0 e1 [simplified] e2 t_def)
  show "dk_memory (E j) (unat (1 - meta_slot m)) = meta_page m'"
    using c M by cases (simp_all add: e0 e1 [simplified] e2 t_def)
  show "dk_kept D = dk_length D \<Longrightarrow> dk_kept (E j) = dk_length D"
    using c by cases (simp_all add: e0 e1 [simplified] e2)
  show "2 \<le> j \<Longrightarrow> unat (1 - meta_slot m) \<notin> dk_dirty (E j) \<and> dk_durable (E j) (unat (1 - meta_slot m)) = meta_page m'"
    using M by (simp add: e2 t_def)
  show "j < 2 \<Longrightarrow> dk_durable (E j) (unat (1 - meta_slot m)) = dk_durable D (unat (1 - meta_slot m))"
    using c by cases (simp_all add: e0 e1 [simplified])
qed

lemma crash_after_meta:
  assumes d: "disk_ready d m p" and l: "unat (mt_page_count m) * PAGE_SIZE \<le> unat physical_bytes" and n: "2 \<le> unat (mt_page_count m')"
    and i: "crash_image (fold disk_step (data_events m' physical_bytes @ take (Suc j) (meta_events m m')) d) img len"
  shows "slot_page (meta_slot m) (img 0, img 1) = slot_page (meta_slot m) p"
    "2 \<le> n' \<Longrightarrow> n' < unat (mt_page_count m') \<Longrightarrow> img n' = dk_memory d n'"
    "2 \<le> n' \<Longrightarrow> n' \<notin> dk_dirty d \<Longrightarrow> img n' = dk_memory d n'"
    "unat physical_bytes \<le> len"
    "2 \<le> j \<Longrightarrow> slot_page (1 - meta_slot m) (img 0, img 1) = meta_page m'"
    "torn_detected plat contiguous (fold disk_step (data_events m' physical_bytes @ take (Suc j) (meta_events m m')) d) img \<Longrightarrow>
      slot_page (1 - meta_slot m) (img 0, img 1) \<in> {meta_page m', slot_page (1 - meta_slot m) p}
      \<or> (\<exists>problem. identity_readable plat contiguous (slot_page (1 - meta_slot m) (img 0, img 1)) = Inl problem)"
proof -
  define D where "D = fold disk_step (data_events m' physical_bytes) d"
  define E where "E = fold disk_step (take (Suc j) (meta_events m m')) D"
  define t where "t = unat (1 - meta_slot m)"
  have t: "t = (if odd (mt_txn_id m) then 0 else 1)" by (simp add: t_def slot_numbers)
  have s: "data_synced (unat (mt_page_count m) * PAGE_SIZE) d D"
    using data_synced_prefix [OF d l, of "length (data_events m' physical_bytes)" m'] by (simp add: D_def)
  note a = data_synced_all [OF d n, of physical_bytes, folded D_def]
  have ln: "dk_length D = unat physical_bytes" by (simp add: D_def data_events_def data_flush_def)
  note e = meta_steps [OF a(1), where m = m and m' = m' and j = j, folded E_def t_def]
  have i': "\<And>n. n \<notin> dk_dirty E \<Longrightarrow> img n = dk_durable E n" "dk_kept E \<le> len" using i by (auto simp: crash_image_def E_def D_def)
  have k: "img n' = dk_memory d n'" if "n' \<noteq> t" "n' \<notin> dk_dirty d \<or> 2 \<le> n' \<and> n' < unat (mt_page_count m')" for n'
  proof -
    have nd: "n' \<notin> dk_dirty D" using that(2) s a(3) by (auto simp: data_synced_def)
    hence "n' \<notin> dk_dirty E" using e(1) that(1) by blast
    hence "img n' = dk_durable D n'" using i'(1) e(2) [of n'] that(1) by simp
    thus ?thesis using nd s by (simp add: data_synced_def)
  qed
  have nd: "0 \<notin> dk_dirty d" "1 \<notin> dk_dirty d" "t \<notin> dk_dirty d" using d t by (auto simp: disk_ready_def)
  show "unat physical_bytes \<le> len" using e(4) a(2) ln i'(2) by simp
  show "2 \<le> n' \<Longrightarrow> n' \<notin> dk_dirty d \<Longrightarrow> img n' = dk_memory d n'" using k [of n'] t by (auto split: if_splits)
  show "2 \<le> n' \<Longrightarrow> n' < unat (mt_page_count m') \<Longrightarrow> img n' = dk_memory d n'" using k [of n'] t by (auto split: if_splits)
  show "slot_page (meta_slot m) (img 0, img 1) = slot_page (meta_slot m) p"
    using k [of 0] k [of 1] nd d t by (auto simp: slot_page_def meta_slot_odd disk_ready_def)
  have it: "slot_page (1 - meta_slot m) (img 0, img 1) = img t" using t by (auto simp: slot_page_def meta_slot_odd)
  show "slot_page (1 - meta_slot m) (img 0, img 1) = meta_page m'" if "2 \<le> j"
    unfolding it using e(5) [OF that] i'(1) [of t] by simp
  have "dk_durable D t = slot_page (1 - meta_slot m) p"
    using s nd(3) d t by (auto simp: data_synced_def slot_page_def meta_slot_odd disk_ready_def)
  hence dt: "dk_durable E t \<in> {meta_page m', slot_page (1 - meta_slot m) p}" using e(5,6) by (cases "2 \<le> j") auto
  have t2: "t < 2" by (simp add: t)
  assume "torn_detected plat contiguous (fold disk_step (data_events m' physical_bytes @ take (Suc j) (meta_events m m')) d) img"
  hence "img t = dk_durable E t \<or> img t = dk_memory E t \<or> (\<exists>problem. identity_readable plat contiguous (img t) = Inl problem)"
    using t2 unfolding torn_detected_def fold_append o_apply D_def [symmetric] E_def [symmetric] by blast
  thus "slot_page (1 - meta_slot m) (img 0, img 1) \<in> {meta_page m', slot_page (1 - meta_slot m) p}
      \<or> (\<exists>problem. identity_readable plat contiguous (slot_page (1 - meta_slot m) (img 0, img 1)) = Inl problem)"
    unfolding it using dt e(3) by auto
qed

lemma open_unchanged:
  assumes c: "castagnoli plat" and g: "generations (m # ms) bytes_len p" and ok: "meta_ok m bytes_len'"
    and o: "open_pages plat contiguous p bytes_len' mode = Inr b"
  shows "bs_meta b = m"
proof (rule ccontr)
  assume n: "bs_meta b \<noteq> m"
  note h = generations_newest [OF g refl]
  have b: "meta_candidate plat contiguous bytes_len' (slot_page (1 - meta_slot m) p) = Inr (bs_meta b)" "mt_txn_id (bs_meta b) = mt_txn_id m + 1"
    using open_beside [OF c ok _ slot_values o refl] h n by auto
  show False
  proof (cases ms)
    case Nil
    hence "bs_meta b = m" using candidate_identity [OF b(1)] identity_meta_page [OF c, of m contiguous] h ok by (simp add: meta_ok_def)
    thus False using n by simp
  next
    case (Cons m1 ms')
    hence m1: "mt_txn_id m = mt_txn_id m1 + 1" "slot_page (1 - meta_slot m) p = meta_page m1" "meta_ok m1 bytes_len" using h by auto
    hence "bs_meta b = m1" using candidate_identity [OF b(1)] identity_meta_page [OF c, of m1 contiguous] by (simp add: meta_ok_def)
    thus False using b(2) m1(1) by simp
  qed
qed

lemma crash_opens:
  assumes c: "castagnoli plat" and g: "generations (m # ms) bytes_len p" and ok: "meta_ok m bytes_len'" and ok': "meta_ok m' bytes_len''"
    and s: "slot_page (meta_slot m) (img 0, img 1) = slot_page (meta_slot m) p"
    and q: "slot_page (1 - meta_slot m) (img 0, img 1) \<in> {meta_page m', slot_page (1 - meta_slot m) p}
      \<or> (\<exists>problem. identity_readable plat contiguous (slot_page (1 - meta_slot m) (img 0, img 1)) = Inl problem)"
    and o: "open_meta_pages plat contiguous (img 0) (img 1) bytes_len' mode = Inr b"
  shows "bs_meta b = m \<or> bs_meta b = m'"
proof (cases "(img 0, img 1) = p")
  case True
  have "open_pages plat contiguous p bytes_len' mode = Inr b" using o by (simp flip: True)
  thus ?thesis using open_unchanged [OF c g ok] by blast
next
  case False
  have "slot_page (1 - meta_slot m) (img 0, img 1) \<noteq> slot_page (1 - meta_slot m) p"
    using False s by (auto simp: slot_page_def meta_slot_odd prod_eq_iff split: if_splits)
  hence q': "slot_page (1 - meta_slot m) (img 0, img 1) = meta_page m'
      \<or> (\<exists>problem. identity_readable plat contiguous (slot_page (1 - meta_slot m) (img 0, img 1)) = Inl problem)" using q by blast
  have "slot_page (meta_slot m) (img 0, img 1) = meta_page m" using s generations_newest [OF g refl] by simp
  hence "bs_meta b = m \<or> meta_candidate plat contiguous bytes_len' (slot_page (1 - meta_slot m) (img 0, img 1)) = Inr (bs_meta b)"
    using open_beside [where p = "(img 0, img 1)" and k = "meta_slot m", OF c ok _ slot_values _ refl] o by auto
  thus ?thesis using q' identity_meta_page [OF c, of m' contiguous] ok' by (auto dest!: candidate_identity simp: meta_ok_def)
qed

text \<open>The operations performed before a crash are operations on the data pages, or all of these and some on the meta page.\<close>

lemma crash_points:
  assumes "outcome_ok ms m m' self (self', outcome, events)"
  obtains physical_bytes where "mt_page_count m' * of_nat PAGE_SIZE \<le> physical_bytes"
    "(\<exists>j. take k events = take j (data_events m' physical_bytes))
      \<or> (\<exists>j. take k events = data_events m' physical_bytes @ take (Suc j) (meta_events m m'))"
    "outcome = Published \<Longrightarrow> events = data_events m' physical_bytes @ meta_events m m'"
proof -
  let ?before = "\<lambda>physical_bytes. \<exists>j. events = take j (data_events m' physical_bytes)"
  let ?after = "\<lambda>physical_bytes. \<exists>j. events = data_events m' physical_bytes @ take j (meta_events m m')"
  let ?all = "\<lambda>physical_bytes. events = data_events m' physical_bytes @ meta_events m m'"
  obtain physical_bytes where l: "mt_page_count m' * of_nat PAGE_SIZE \<le> physical_bytes"
    and x: "case outcome of BeforePublication _ \<Rightarrow> ?before physical_bytes | OutcomeUnknown _ \<Rightarrow> ?after physical_bytes | Published \<Rightarrow> ?all physical_bytes"
    using assms unfolding outcome_ok_def by (cases outcome) (simp_all, blast+)
  have "?after physical_bytes" if "?all physical_bytes"
    using that by (intro exI [of _ "length (meta_events m m')"]) simp
  hence e: "?before physical_bytes \<or> ?after physical_bytes" and o: "outcome = Published \<Longrightarrow> ?all physical_bytes" using x by (cases outcome, simp_all)
  let ?d = "data_events m' physical_bytes"
  have "(\<exists>j. take k events = take j ?d) \<or> (\<exists>j. take k events = ?d @ take (Suc j) (meta_events m m'))"
    using e
  proof (elim disjE exE)
    fix j assume "events = take j ?d"
    hence "take k events = take (min k j) ?d" by simp
    thus ?thesis by blast
  next
    fix j assume j: "events = ?d @ take j (meta_events m m')"
    show ?thesis
    proof (cases "min (k - length ?d) j")
      case 0
      hence "take k events = take k ?d" using j by (auto simp: min_def split: if_splits)
      thus ?thesis by blast
    next
      case (Suc i)
      hence "length ?d \<le> k" by linarith
      hence "take k events = ?d @ take (Suc i) (meta_events m m')" unfolding j take_append take_take Suc by simp
      thus ?thesis by blast
    qed
  qed
  thus thesis using that l o by blast
qed

section \<open>Resolving a commit\<close>

lemma resolve_history:
  assumes c: "castagnoli plat" and g: "generations (m # ms) bytes_len p" and l: "geometry_valid bytes_len"
  shows "resolve_commit_attempt plat contiguous (fst p) (snd p) bytes_len (mt_database_id m) txn nonce =
    (if \<exists>m'\<in>set (take 2 (m # ms)). mt_txn_id m' = txn \<and> mt_commit_nonce m' = nonce then Inr Committed
     else if (\<exists>m'\<in>set (take 2 (m # ms)). mt_txn_id m' = txn) \<or> mt_txn_id m < txn then Inr NotCommitted
     else Inr SupersededUnknown)"
proof -
  note h = generations_newest [OF g refl]
  have o: "open_pages plat contiguous p bytes_len Writer = Inr \<lparr> bs_meta = m, bs_selection = ProvenCurrent,
    bs_selected_meta_page = meta_slot m, bs_committed_bytes = mt_page_count m * of_nat PAGE_SIZE, bs_physical_bytes = bytes_len \<rparr>"
    by (rule open_newest [OF c g l]) simp
  obtain m0 m1 where cand: "meta_candidate plat contiguous bytes_len (fst p) = Inr m0" "meta_candidate plat contiguous bytes_len (snd p) = Inr m1"
    and s: "{m0, m1} = set (take 2 (m # ms))"
  proof (cases ms)
    case Nil
    hence "fst p = meta_page m" "snd p = meta_page m" using h by (auto simp: slot_page_def meta_slot_odd split: if_splits)
    thus ?thesis using candidate_meta_page [OF c, of m bytes_len contiguous] h Nil by (intro that [of m m]) simp_all
  next
    case (Cons a as)
    hence "fst p = meta_page a \<and> snd p = meta_page m \<or> fst p = meta_page m \<and> snd p = meta_page a"
      using h by (auto simp: slot_page_def meta_slot_odd split: if_splits)
    thus ?thesis using candidate_meta_page [OF c, of m bytes_len contiguous] candidate_meta_page [OF c, of a bytes_len contiguous] h Cons
      by (auto intro: that [of m a] that [of a m] simp: insert_commute)
  qed
  have m: "m \<in> {m0, m1}" using s by (cases ms) auto
  have ex: "(\<exists>x\<in>set [m0, m1]. P x) \<longleftrightarrow> (\<exists>x\<in>set (take 2 (m # ms)). P x)" for P using s by auto
  have "mt_txn_id m > txn" if "\<not> (\<exists>x\<in>set (take 2 (m # ms)). mt_txn_id x = txn)" "\<not> mt_txn_id m < txn"
    using that m s by (metis linorder_neqE)
  thus ?thesis unfolding resolve_commit_attempt_def using o cand by (auto simp: ex simp del: take_Suc_Cons set_simps)
qed

section \<open>Empty databases\<close>

definition spec_ok :: "empty_spec \<Rightarrow> bool" where
  "spec_ok spec \<longleftrightarrow> tag_ok (es_value_tag spec) \<and> length (es_database_id spec) = 16 \<and> es_database_id spec \<noteq> replicate 16 0
    \<and> length (es_commit_nonce spec) = 16 \<and> es_commit_nonce spec \<noteq> replicate 16 0 \<and> es_transaction_id spec \<noteq> 0
    \<and> (es_structure_kind spec = SNone \<longleftrightarrow> es_value_kind spec \<noteq> VStructured)
    \<and> es_feed_index_limit spec \<le> (if es_value_kind spec = VDirect then 0 else MAX_PAGE_COUNT)"

lemma empty_meta_ok:
  assumes "spec_ok spec"
  shows "meta_ok (empty_meta spec) (of_nat (2 * PAGE_SIZE))"
proof -
  have "bootstrap_valid (empty_meta spec) (of_nat (2 * PAGE_SIZE)) = Inr (empty_meta spec)"
    using assms
    by (cases "es_value_kind spec"; cases "es_structure_kind spec"; cases "es_address_family spec")
      (simp_all add: spec_ok_def bootstrap_valid_def empty_meta_def validate_generation_def validate_commit_identity_def
        validate_declared_page_count_def validate_roots_def validate_allocator_reserve_def meta_roots_def validate_range_count_def
        leaf_capacity_def validate_retirement_count_def validate_metadata_def validate_kind_def validate_direct_def
        validate_membership_def validate_structured_def validate_no_structures_def validate_membership_counts_def
        validate_membership_limits_def validate_membership_presence_def validate_catalog_roots_def validate_membership_roots_def
        validate_structured_counts_def validate_structure_roots_def checked_mul_def MAX_PAGE_COUNT_def PAGE_SIZE_def not_less)
  thus ?thesis using assms
    by (simp add: meta_ok_def meta_sized_def spec_ok_def empty_meta_def meta_structure_kind_def)
qed

lemma two_pages:
  assumes "length page0 = PAGE_SIZE" "length page1 = PAGE_SIZE" "mp_map m = Some (page0 @ page1)" "mp_len m = 2 * PAGE_SIZE"
  shows "live_map m" "meta_pages m = (page0, page1)"
  using assms by (simp_all add: live_map_def meta_pages_def page_bytes_def rd_def usize_max_def PAGE_SIZE_def)

lemma mapping_new_two:
  assumes "of_len file = Inr (of_nat (2 * PAGE_SIZE))" "of_map file (2 * PAGE_SIZE) = Inr base"
  shows "mapping_new file (of_nat (2 * PAGE_SIZE)) acc = Inr \<lparr> mp_map = Some base, mp_len = 2 * PAGE_SIZE, mp_access = acc, mp_unreadable = None \<rparr>"
  using assms by (simp add: mapping_new_def require_file_extent_def map_nonempty_def PAGE_SIZE_def)

lemma write_empty_eq:
  assumes c: "castagnoli plat" and s: "spec_ok spec" and f: "of_len file = Inr (of_nat (2 * PAGE_SIZE))"
    "of_map file (2 * PAGE_SIZE) = Inr base" "length base = 2 * PAGE_SIZE"
  shows "write_empty plat (Inr ()) file (Inr ()) (Inr ()) spec = Inr \<lparr> mp_map = Some (meta_page (empty_meta spec) @ meta_page (empty_meta spec)),
    mp_len = 2 * PAGE_SIZE, mp_access = ReadWrite, mp_unreadable = None \<rparr>"
proof -
  let ?m = "\<lambda>bs. \<lparr> mp_map = Some bs, mp_len = 2 * PAGE_SIZE, mp_access = ReadWrite, mp_unreadable = None \<rparr>"
  let ?p = "meta_page (empty_meta spec)"
  have sized: "meta_sized (empty_meta spec)" using empty_meta_ok [OF s] by (simp add: meta_ok_def)
  note e = encode_mapped_eq [OF c sized] and l = length_meta_page [OF sized]
  have i: "page_in (?m bs) 2 0" "page_in (?m bs) 2 1" for bs by (simp_all add: page_in_def)
  have live: "live_map (?m bs)" if "length bs = 2 * PAGE_SIZE" for bs using that by (simp add: live_map_def usize_max_def PAGE_SIZE_def)
  have w: "map_put_page (?m base) 0 ?p = ?m (?p @ drop PAGE_SIZE base)" "map_put_page (?m (?p @ drop PAGE_SIZE base)) 1 ?p = ?m (?p @ ?p)"
    using l f(3) by (simp_all add: map_put_page_def wr_def PAGE_SIZE_def)
  have len: "length (?p @ drop PAGE_SIZE base) = 2 * PAGE_SIZE" "length (?p @ ?p) = 2 * PAGE_SIZE" using l f(3) by simp_all
  have fl: "flush_range (?m (?p @ ?p)) (Inr ()) 0 (of_nat (2 * PAGE_SIZE)) = Inr (Flushed 0 (2 * PAGE_SIZE))"
    by (simp add: flush_range_def map_base_def checked_range_def checked_subrange_def usize_checked_add_def usize_max_def PAGE_SIZE_def)
  show ?thesis
    using map_page_mut_in [OF live [OF f(3)] i(1)] map_page_mut_in [OF live [OF len(1)] i(2)]
    by (simp add: write_empty_def mapping_new_two [OF f(1,2)] Let_def e w fl del: of_nat_mult)
qed

lemma map_writer_two:
  assumes c: "castagnoli plat" and g: "generations (m # ms) (of_nat (2 * PAGE_SIZE)) (page0, page1)" and n: "mt_page_count m = 2"
    and len: "length page0 = PAGE_SIZE" "length page1 = PAGE_SIZE"
    and f: "of_regular file = Inr True" "of_len file = Inr (of_nat (2 * PAGE_SIZE))" "of_map file (2 * PAGE_SIZE) = Inr (page0 @ page1)"
  shows "bootstrap_file plat contiguous file Writer = Inr (published_base m (of_nat (2 * PAGE_SIZE)))"
    "map_writer plat contiguous file = Inr (\<lparr> mp_map = Some (page0 @ page1), mp_len = 2 * PAGE_SIZE, mp_access = ReadWrite, mp_unreadable = None \<rparr>,
      published_base m (of_nat (2 * PAGE_SIZE)))"
proof -
  have geo: "geometry_valid (of_nat (2 * PAGE_SIZE))" "require_geometry (of_nat (2 * PAGE_SIZE)) = Inr ()"
    by (simp_all add: geometry_valid_def require_geometry_def PAGE_SIZE_def)
  let ?m = "\<lambda>acc. \<lparr> mp_map = Some (page0 @ page1), mp_len = 2 * PAGE_SIZE, mp_access = acc, mp_unreadable = None \<rparr>"
  have t: "live_map (?m acc)" "meta_pages (?m acc) = (page0, page1)" for acc using two_pages [OF len, of "?m acc"] by simp_all
  have b: "bootstrap_mapping plat contiguous (?m acc) (of_nat (2 * PAGE_SIZE)) Writer = Inr (published_base m (of_nat (2 * PAGE_SIZE)))" for acc
    using open_newest [OF c g geo(1), of Writer contiguous] bootstrap_mapping_pages [OF t(1)] t(2)
    by (simp add: published_base_def del: of_nat_mult)
  show "bootstrap_file plat contiguous file Writer = Inr (published_base m (of_nat (2 * PAGE_SIZE)))"
    by (simp add: bootstrap_file_def require_regular_file_def f geo mapping_new_two [OF f(2,3)] b del: of_nat_mult)
  have r: "remap (?m ReadWrite) file (2 * of_nat PAGE_SIZE) = (?m ReadWrite, Inr ())"
    using f by (simp add: remap_def require_file_extent_def replace_map_def map_nonempty_def PAGE_SIZE_def)
  show "map_writer plat contiguous file = Inr (?m ReadWrite, published_base m (of_nat (2 * PAGE_SIZE)))"
    by (simp add: map_writer_def map_database_def require_regular_file_def f geo mapping_new_two [OF f(2,3)] b
        published_base_def n r del: of_nat_mult)
qed

section \<open>Success\<close>

definition all_granted :: "publish_io \<Rightarrow> bool" where
  "all_granted io \<longleftrightarrow> pi_cancelled0 io = Inr () \<and> pi_flush_data io = Inr () \<and> pi_sync_data io = Inr () \<and> pi_cancelled1 io = Inr ()
    \<and> pi_flush_meta io = Inr () \<and> pi_sync_meta io = Inr ()"

lemma publish_granted:
  assumes c: "castagnoli plat" and w: "writer_ok (m # ms) bytes_len self" and r: "publish_ready io m m' self"
    and s: "shrink_or_retain (wc_mapping self) (pi_file io) (pi_set_len io) (pi_file_after io) (mt_page_count m' * of_nat PAGE_SIZE) = (m1, Inr physical_bytes)"
    and a: "all_granted io" and p: "publish plat io self = Inr (self', outcome, events)"
  shows "outcome = Published"
proof -
  obtain d where d: "wc_draft self = Some d" "dr_meta d = m'" using r by (auto simp: publish_ready_def)
  note k = publish_shrunk [OF w r s]
  note u = committed_unat [OF k(6)]
  have m': "meta_sized m'" using k(6) by (simp add: meta_ok_def)
  have b: "bs_selected_meta_page (wc_base (self \<lparr> wc_mapping := m1 \<rparr>)) = meta_slot m" using w by (simp add: writer_ok_def)
  note eq = publish_meta_eq [OF c _ _ u(2) _ m' b, of io "mt_page_count m' * of_nat PAGE_SIZE" physical_bytes, simplified, OF k(1,2,4)]
  have ok: "meta_ok m' (mt_page_count m' * of_nat PAGE_SIZE)" using r by (simp add: publish_ready_def)
  show ?thesis using p a publish_eq [OF d _ s ok k(1,4), of plat] eq
    by (auto simp: all_granted_def Let_def split: if_splits simp del: of_nat_mult)
qed

section \<open>Properties\<close>

text \<open>A database of the examples below and its next generation.\<close>

definition example_spec :: empty_spec where
  "example_spec = empty_live Ipv4 VDirect SNone (replicate 16 0) (replicate 16 1) (replicate 16 2)"

definition example_next :: meta_v4 where
  "example_next = empty_meta example_spec \<lparr> mt_txn_id := 2, mt_commit_nonce := replicate 16 3 \<rparr>"

definition example_pages :: bytes where
  "example_pages = meta_page (empty_meta example_spec) @ meta_page (empty_meta example_spec)"

definition example_file :: os_file where
  "example_file = \<lparr> of_regular = Inr True, of_len = Inr (of_nat (2 * PAGE_SIZE)), of_map = (\<lambda>n. Inr (take n example_pages)) \<rparr>"

definition example_writer :: writer_core where
  "example_writer = writer_new \<lparr> mp_map = Some example_pages, mp_len = 2 * PAGE_SIZE, mp_access = ReadWrite, mp_unreadable = None \<rparr>
     (published_base (empty_meta example_spec) (of_nat (2 * PAGE_SIZE))) \<lparr> max_heap_bytes = 0, max_private_pages = 0, max_growth_pages = 0 \<rparr>"

definition example_pending :: writer_core where
  "example_pending = (case begin_transaction (Inr (replicate 16 3)) example_writer of Inr (self, _) \<Rightarrow> self | Inl _ \<Rightarrow> example_writer)"

definition example_io :: publish_io where
  "example_io = \<lparr> pi_cancelled0 = Inr (), pi_file = example_file, pi_set_len = Set_len_ok, pi_file_after = example_file,
     pi_flush_data = Inr (), pi_sync_data = Inr (), pi_cancelled1 = Inr (), pi_flush_meta = Inr (), pi_sync_meta = Inr () \<rparr>"

definition example_disk :: disk where
  "example_disk = \<lparr> dk_memory = (\<lambda>n. meta_page (empty_meta example_spec)), dk_durable = (\<lambda>n. meta_page (empty_meta example_spec)),
     dk_dirty = {}, dk_flushed = {}, dk_length = 2 * PAGE_SIZE, dk_kept = 2 * PAGE_SIZE \<rparr>"

lemma table_castagnoli: "\<forall>crc bs. pf_crc32c_append table_platform crc bs = crc32c crc bs" "castagnoli table_platform"
  by (simp_all add: castagnoli_def table_platform_def)

lemma example_spec_ok: "spec_ok example_spec"
  by (simp add: spec_ok_def example_spec_def empty_live_def tag_ok_def tag_from_wire_def) code_simp

lemma example_ok:
  "meta_ok (empty_meta example_spec) (of_nat (2 * PAGE_SIZE))" "mt_page_count (empty_meta example_spec) = 2"
  "meta_slot (empty_meta example_spec) = 1" "mt_txn_id (empty_meta example_spec) = 1"
  by (rule empty_meta_ok [OF example_spec_ok]) (simp_all add: empty_meta_def meta_slot_odd example_spec_def empty_live_def)

lemma example_generations: "generations [empty_meta example_spec] (of_nat (2 * PAGE_SIZE)) (meta_page (empty_meta example_spec), meta_page (empty_meta example_spec))"
  by (rule created [OF example_ok(1)])

lemma example_pending_ready:
  "writer_ok [empty_meta example_spec] (of_nat (2 * PAGE_SIZE)) example_pending"
  "publish_ready example_io (empty_meta example_spec) example_next example_pending"
  "meta_pages (wc_mapping example_pending) = (meta_page (empty_meta example_spec), meta_page (empty_meta example_spec))"
  "wc_mapping example_pending = \<lparr> mp_map = Some example_pages, mp_len = 2 * PAGE_SIZE, mp_access = ReadWrite, mp_unreadable = None \<rparr>"
proof -
  have sized: "meta_sized (empty_meta example_spec)" using example_ok(1) by (simp add: meta_ok_def)
  note len = length_meta_page [OF sized]
  obtain d where d: "example_pending = example_writer \<lparr> wc_draft := Some d \<rparr>" "dr_meta d = example_next"
    by (simp add: example_pending_def begin_transaction_def example_writer_def writer_new_def draft_new_def published_base_def
        checked_add_def example_ok(4) example_next_def)
  show m: "wc_mapping example_pending = \<lparr> mp_map = Some example_pages, mp_len = 2 * PAGE_SIZE, mp_access = ReadWrite, mp_unreadable = None \<rparr>"
    by (simp add: d example_writer_def writer_new_def)
  have t: "live_map (wc_mapping example_pending)" "meta_pages (wc_mapping example_pending) = (meta_page (empty_meta example_spec), meta_page (empty_meta example_spec))"
    using two_pages [OF len len, of "wc_mapping example_pending"] by (simp_all add: m example_pages_def)
  thus "meta_pages (wc_mapping example_pending) = (meta_page (empty_meta example_spec), meta_page (empty_meta example_spec))" by simp
  have geo: "geometry_valid (of_nat (2 * PAGE_SIZE))" by (simp add: geometry_valid_def require_geometry_def PAGE_SIZE_def)
  have base: "wc_base example_pending = published_base (empty_meta example_spec) (of_nat (2 * PAGE_SIZE))"
    by (simp add: d example_writer_def writer_new_def del: of_nat_mult)
  show "writer_ok [empty_meta example_spec] (of_nat (2 * PAGE_SIZE)) example_pending"
    using t example_generations geo by (simp add: writer_ok_def m base published_base_def del: of_nat_mult)
  have v: "bootstrap_valid (empty_meta example_spec) (of_nat (2 * PAGE_SIZE)) = Inr (empty_meta example_spec)"
    using example_ok(1) by (simp add: meta_ok_def)
  have ok: "meta_ok example_next (of_nat (2 * PAGE_SIZE))"
    using empty_meta_ok [of "example_spec \<lparr> es_transaction_id := 2, es_commit_nonce := replicate 16 3 \<rparr>"] example_spec_ok
    by (simp add: spec_ok_def example_next_def empty_meta_def)
  have n: "mt_page_count example_next = 2" "mt_txn_id example_next = mt_txn_id (empty_meta example_spec) + 1"
    "static_identity_eq (empty_meta example_spec) example_next"
    by (simp_all add: example_next_def example_ok static_identity_eq_def)
  have f: "shows_file example_file example_pages" "length example_pages = 2 * PAGE_SIZE"
    using len by (simp_all add: shows_file_def example_file_def example_pages_def)
  have "map_option dr_meta (wc_draft example_pending) = Some example_next" by (simp add: d)
  moreover have "\<exists>contents. shows_file example_file contents \<and> 2 * PAGE_SIZE \<le> length contents
      \<and> take (2 * PAGE_SIZE) contents = take (2 * PAGE_SIZE) example_pages" using f by (intro exI [of _ example_pages]) simp
  ultimately show "publish_ready example_io (empty_meta example_spec) example_next example_pending"
    using n ok example_ok(2) geo unfolding publish_ready_def m
    by (simp add: n(1) example_io_def example_file_def)
qed

lemma example_shrink:
  "shrink_or_retain (wc_mapping example_pending) (pi_file example_io) (pi_set_len example_io) (pi_file_after example_io) (mt_page_count example_next * of_nat PAGE_SIZE)
    = (wc_mapping example_pending, Inr (of_nat (2 * PAGE_SIZE)))"
  by (simp add: shrink_or_retain_def map_require_write_def example_pending_ready(4) example_io_def example_file_def example_next_def
      example_ok(2) PAGE_SIZE_def)

text \<open>C17. A meta page written by \<open>encode_mapped\<close> reads back as the meta that was written, and changing any
  single byte of the page makes it unreadable, so that a damaged page is never taken for a generation.\<close>

theorem meta_page_detects_change:
  assumes "\<forall>crc bs. pf_crc32c_append plat crc bs = crc32c crc bs" "meta_sized m" "mt_database_id m \<noteq> replicate 16 0"
  shows "\<exists>page. encode_mapped plat m = Inr page \<and> length page = PAGE_SIZE \<and> identity_readable plat contiguous page = Inr m
    \<and> (\<forall>i<PAGE_SIZE. \<forall>b. page ! i \<noteq> b \<longrightarrow> (\<exists>problem. identity_readable plat contiguous (page[i := b]) = Inl problem))"
proof -
  have c: "castagnoli plat" using assms(1) by (simp add: castagnoli_def)
  show ?thesis using encode_mapped_eq [OF c assms(2)] length_meta_page [OF assms(2)] identity_meta_page [OF c assms(2,3)]
      changed_byte_unreadable [OF c assms(2)] by blast
qed

theorem meta_page_detects_change_witness:
  "\<exists>page. encode_mapped table_platform (empty_meta example_spec) = Inr page
    \<and> (\<exists>problem. identity_readable table_platform True (page[100 := page ! 100 + 1]) = Inl problem)"
proof -
  have s: "meta_sized (empty_meta example_spec)" "mt_database_id (empty_meta example_spec) \<noteq> replicate 16 0"
    using example_ok(1) by (simp_all add: meta_ok_def)
  obtain page where p: "encode_mapped table_platform (empty_meta example_spec) = Inr page"
    "\<And>i b. i < PAGE_SIZE \<Longrightarrow> page ! i \<noteq> b \<Longrightarrow> \<exists>problem. identity_readable table_platform True (page[i := b]) = Inl problem"
    using meta_page_detects_change [OF table_castagnoli(1) s, of True] by blast
  thus ?thesis using p(2) [of 100 "page ! 100 + 1"] by (auto simp: PAGE_SIZE_def)
qed

text \<open>C18. Writing an empty database succeeds when the operating system grants its calls, for every valid
  specification of either family and every kind; the file is then recognised as exactly that empty
  database, and mapping it for writing selects its meta as the proven current generation.\<close>

theorem empty_database_opens:
  assumes "\<forall>crc bs. pf_crc32c_append plat crc bs = crc32c crc bs" "spec_ok spec"
    "of_len file = Inr (of_nat (2 * PAGE_SIZE))" "of_map file (2 * PAGE_SIZE) = Inr base" "length base = 2 * PAGE_SIZE"
  shows "\<exists>m contents. write_empty plat (Inr ()) file (Inr ()) (Inr ()) spec = Inr m \<and> mp_map m = Some contents
    \<and> is_exact_empty plat contiguous \<lparr> of_regular = Inr True, of_len = Inr (of_nat (2 * PAGE_SIZE)), of_map = (\<lambda>n. Inr (take n contents)) \<rparr> spec = Inr True
    \<and> map_writer plat contiguous \<lparr> of_regular = Inr True, of_len = Inr (of_nat (2 * PAGE_SIZE)), of_map = (\<lambda>n. Inr (take n contents)) \<rparr>
        = Inr (m, \<lparr> bs_meta = empty_meta spec, bs_selection = ProvenCurrent, bs_selected_meta_page = ucast (es_transaction_id spec AND 1),
            bs_committed_bytes = of_nat (2 * PAGE_SIZE), bs_physical_bytes = of_nat (2 * PAGE_SIZE) \<rparr>)"
proof -
  have c: "castagnoli plat" using assms(1) by (simp add: castagnoli_def)
  note ok = empty_meta_ok [OF assms(2)]
  have sized: "meta_sized (empty_meta spec)" using ok by (simp add: meta_ok_def)
  note len = length_meta_page [OF sized]
  have n: "mt_page_count (empty_meta spec) = 2" "meta_slot (empty_meta spec) = ucast (es_transaction_id spec AND 1)"
    by (simp_all add: empty_meta_def meta_slot_def)
  let ?f = "\<lparr> of_regular = Inr True, of_len = Inr (of_nat (2 * PAGE_SIZE)), of_map = (\<lambda>n. Inr (take n (meta_page (empty_meta spec) @ meta_page (empty_meta spec)))) \<rparr>"
  note w = map_writer_two [OF c created [OF ok] n(1) len len, of ?f contiguous]
  show ?thesis
    using write_empty_eq [OF c assms(2-5)] w len
    by (simp add: is_exact_empty_def published_base_def n)
qed

theorem empty_database_opens_witness:
  "is_exact_empty table_platform True \<lparr> of_regular = Inr True, of_len = Inr (of_nat (2 * PAGE_SIZE)), of_map = (\<lambda>n. Inr (take n example_pages)) \<rparr> example_spec = Inr True"
proof -
  have l: "length example_pages = 2 * PAGE_SIZE" using length_meta_page example_ok(1) by (simp add: example_pages_def meta_ok_def)
  note e = empty_database_opens [OF table_castagnoli(1) example_spec_ok, of example_file example_pages True]
  have w: "write_empty table_platform (Inr ()) example_file (Inr ()) (Inr ()) example_spec = Inr \<lparr> mp_map = Some example_pages,
    mp_len = 2 * PAGE_SIZE, mp_access = ReadWrite, mp_unreadable = None \<rparr>"
    using write_empty_eq [OF table_castagnoli(2) example_spec_ok, of example_file example_pages] l by (simp add: example_file_def example_pages_def)
  show ?thesis using e w l by (auto simp: example_file_def)
qed

text \<open>C15. A publication returns in every case, and its outcome is right whatever the operating system and the
  cancellation token reply: before publication no meta page was written and the draft is kept; when
  the outcome is unknown the draft is gone and the writer still holds the old generation; when it
  reports success the other meta page was selected, and opening the mapping finds exactly the
  generation the writer now holds. When every call is granted the outcome is success.\<close>

theorem publish_outcome_correct:
  assumes "\<forall>crc bs. pf_crc32c_append plat crc bs = crc32c crc bs" "writer_ok (m # ms) bytes_len self" "publish_ready io m m' self"
  shows "\<exists>self' outcome events. publish plat io self = Inr (self', outcome, events)
    \<and> (case outcome of
         BeforePublication _ \<Rightarrow> wc_base self' = wc_base self \<and> wc_draft self' = wc_draft self \<and> (\<forall>n page. Wrote n page \<notin> set events)
       | OutcomeUnknown _ \<Rightarrow> wc_base self' = wc_base self \<and> wc_draft self' = None
       | Published \<Rightarrow> wc_draft self' = None \<and> bs_meta (wc_base self') = m' \<and> bs_selected_meta_page (wc_base self') = 1 - bs_selected_meta_page (wc_base self)
           \<and> bootstrap_mapping plat contiguous (wc_mapping self') (bs_physical_bytes (wc_base self')) Writer = Inr (wc_base self'))
    \<and> (all_granted io \<and> (\<exists>m1 len. shrink_or_retain (wc_mapping self) (pi_file io) (pi_set_len io) (pi_file_after io) (mt_page_count m' * of_nat PAGE_SIZE) = (m1, Inr len))
         \<longrightarrow> outcome = Published)"
proof -
  have c: "castagnoli plat" using assms(1) by (simp add: castagnoli_def)
  obtain self' outcome events where p: "publish plat io self = Inr (self', outcome, events)" "outcome_ok ms m m' self (self', outcome, events)"
    using publish_outcome_ok [OF c assms(2,3)] by (metis prod_cases3)
  have g: "outcome = Published" if "all_granted io"
    "\<exists>m1 len. shrink_or_retain (wc_mapping self) (pi_file io) (pi_set_len io) (pi_file_after io) (mt_page_count m' * of_nat PAGE_SIZE) = (m1, Inr len)"
    using publish_granted [OF c assms(2,3) _ that(1) p(1)] that(2) by blast
  have sl: "bs_selected_meta_page (wc_base self) = meta_slot m" "1 - meta_slot m = meta_slot m'"
    using assms(2,3) meta_slot_next [of m' m] by (simp_all add: writer_ok_def publish_ready_def)
  have nw: "Wrote n page \<notin> set (take j (data_events m' physical_bytes))" for j n page physical_bytes
    by (auto dest!: in_set_takeD simp: data_events_def data_flush_def split: if_splits)
  have "wc_base self' = published_base m' len \<Longrightarrow> writer_ok (m' # m # ms) len self' \<Longrightarrow>
      bootstrap_mapping plat contiguous (wc_mapping self') (bs_physical_bytes (wc_base self')) Writer = Inr (wc_base self')" for len
    using writer_ok_opens [OF c, of m' "m # ms" len self' contiguous] by (simp add: published_base_def)
  hence "case outcome of
         BeforePublication _ \<Rightarrow> wc_base self' = wc_base self \<and> wc_draft self' = wc_draft self \<and> (\<forall>n page. Wrote n page \<notin> set events)
       | OutcomeUnknown _ \<Rightarrow> wc_base self' = wc_base self \<and> wc_draft self' = None
       | Published \<Rightarrow> wc_draft self' = None \<and> bs_meta (wc_base self') = m' \<and> bs_selected_meta_page (wc_base self') = 1 - bs_selected_meta_page (wc_base self)
           \<and> bootstrap_mapping plat contiguous (wc_mapping self') (bs_physical_bytes (wc_base self')) Writer = Inr (wc_base self')"
    using p(2) nw sl by (auto simp: outcome_ok_def published_base_def split: publish_outcome.splits)
  thus ?thesis using p(1) g by blast
qed

theorem publish_outcome_correct_witness:
  "\<exists>self' events. publish table_platform example_io example_pending = Inr (self', Published, events)
    \<and> bootstrap_mapping table_platform True (wc_mapping self') (bs_physical_bytes (wc_base self')) Writer = Inr (wc_base self')
    \<and> bs_meta (wc_base self') = example_next"
proof -
  have g: "all_granted example_io" by (simp add: all_granted_def example_io_def)
  show ?thesis
    using publish_outcome_correct [OF table_castagnoli(1) example_pending_ready(1,2), of True] example_shrink g by auto
qed

text \<open>C14. Commits are atomic and durable. After a crash at any point of a publication, whatever the pages being
  written then hold and whatever unsynchronised growth of the file is lost, a file that opens does so at the old generation, with every page
  that the transaction did not write, or at exactly the generation being committed, in a file that has its length and with every one of its data pages on the device.
  A crash before the meta page is written always opens at the old generation; after a publication that
  reported success the file always opens at the new one. A meta page torn by the crash is taken to be exposed by its checksum.\<close>

theorem commit_survives_crash:
  assumes "\<forall>crc bs. pf_crc32c_append plat crc bs = crc32c crc bs" "writer_ok (m # ms) bytes_len self" "publish_ready io m m' self"
    "publish plat io self = Inr (self', outcome, events)" "disk_ready d m (meta_pages (wc_mapping self))"
    "crash_image (fold disk_step (take k events) d) img (unat bytes_len')" "torn_detected plat contiguous (fold disk_step (take k events) d) img"
    "geometry_valid bytes_len'"
  shows "(case open_meta_pages plat contiguous (img 0) (img 1) bytes_len' mode of
      Inl _ \<Rightarrow> True
    | Inr b \<Rightarrow> bs_meta b = m \<and> (\<forall>n\<in>{2..} - dk_dirty d. img n = dk_memory d n)
        \<or> bs_meta b = m' \<and> unat (mt_page_count m') * PAGE_SIZE \<le> unat bytes_len' \<and> (\<forall>n\<in>{2..<unat (mt_page_count m')}. img n = dk_memory d n))
    \<and> ((\<forall>n page. Wrote n page \<notin> set (take k events)) \<longrightarrow> rmap bs_meta (open_meta_pages plat contiguous (img 0) (img 1) bytes_len' Writer) = Inr m)
    \<and> (outcome = Published \<and> length events \<le> k \<longrightarrow> rmap bs_meta (open_meta_pages plat contiguous (img 0) (img 1) bytes_len' Writer) = Inr m')"
proof -
  have c: "castagnoli plat" using assms(1) by (simp add: castagnoli_def)
  let ?p = "meta_pages (wc_mapping self)"
  have g: "generations (m # ms) bytes_len ?p" using assms(2) by (simp add: writer_ok_def)
  have ok': "meta_ok m' (mt_page_count m' * of_nat PAGE_SIZE)" and r: "mt_page_count m \<le> mt_page_count m'" "mt_txn_id m' = mt_txn_id m + 1" "static_identity_eq m m'"
    using assms(3) by (simp_all add: publish_ready_def)
  note u' = committed_unat [OF ok']
  have ok0: "meta_ok m bytes_len" using generations_newest [OF g refl] by blast
  note u = committed_unat [OF ok0]
  have "outcome_ok ms m m' self (self', outcome, events)" using publish_outcome_ok [OF c assms(2,3)] assms(4) by auto
  then obtain physical_bytes where ph: "mt_page_count m' * of_nat PAGE_SIZE \<le> physical_bytes"
    and pts: "(\<exists>j. take k events = take j (data_events m' physical_bytes)) \<or> (\<exists>j. take k events = data_events m' physical_bytes @ take (Suc j) (meta_events m m'))"
    and pub: "outcome = Published \<Longrightarrow> events = data_events m' physical_bytes @ meta_events m m'"
    using crash_points [where k = k] by metis
  have pl: "unat (mt_page_count m') * PAGE_SIZE \<le> unat physical_bytes" using ph unfolding word_le_nat_alt u'(1) .
  have ml: "unat (mt_page_count m) * PAGE_SIZE \<le> unat (mt_page_count m') * PAGE_SIZE" using r(1) by (simp add: word_le_nat_alt)
  note l = order_trans [OF ml pl]
  have ok_at: "meta_ok m bytes_len' \<and> generations (m # ms) bytes_len' ?p" if "unat (mt_page_count m) * PAGE_SIZE \<le> unat bytes_len'"
  proof -
    have "mt_page_count m * of_nat PAGE_SIZE \<le> bytes_len'" using that unfolding word_le_nat_alt u(1) .
    thus ?thesis using generations_at [OF g] generations_newest [of "m # ms" bytes_len' ?p m ms] by blast
  qed
  from pts show ?thesis
  proof (elim disjE exE)
    fix j assume j: "take k events = take j (data_events m' physical_bytes)"
    note b = crash_before_meta [OF assms(5) l assms(6) [unfolded j]]
    have k: "\<not> (outcome = Published \<and> length events \<le> k)"
    proof
      assume "outcome = Published \<and> length events \<le> k"
      hence "length (data_events m' physical_bytes @ meta_events m m') \<le> length (data_events m' physical_bytes)"
        using pub j by (metis length_take min.cobounded1 take_all)
      thus False by (simp add: meta_events_def)
    qed
    note ok = ok_at [OF b(4)]
    have "bs_meta b = m" if "open_meta_pages plat contiguous (img 0) (img 1) bytes_len' mode = Inr b" for b
      using open_unchanged [OF c g, of bytes_len' contiguous mode] ok that unfolding b(1,2) by blast
    moreover have "rmap bs_meta (open_meta_pages plat contiguous (img 0) (img 1) bytes_len' Writer) = Inr m"
      using open_newest [OF c _ assms(8), of m ms ?p Writer contiguous] ok unfolding b(1,2) by simp
    ultimately show ?thesis using k b(3) by (auto split: sum.splits)
  next
    fix j assume j: "take k events = data_events m' physical_bytes @ take (Suc j) (meta_events m m')"
    note a = crash_after_meta [OF assms(5) l u'(2) assms(6) [unfolded j]]
    have len: "unat (mt_page_count m') * PAGE_SIZE \<le> unat bytes_len'" using a(4) pl by simp
    note ok = ok_at [OF order_trans [OF ml len]]
    have w: "Wrote (unat (1 - meta_slot m)) (meta_page m') \<in> set (take k events)" unfolding j by (simp add: meta_events_def)
    have "rmap bs_meta (open_meta_pages plat contiguous (img 0) (img 1) bytes_len' Writer) = Inr m'" if "outcome = Published" "length events \<le> k"
    proof -
      have "take (Suc j) (meta_events m m') = meta_events m m'" using pub j that by simp
      hence "2 \<le> j" by (cases "j < 2") (auto simp: meta_events_def dest!: arg_cong [of _ _ length])
      hence i: "with_slot (1 - meta_slot m) (meta_page m') ?p = (img 0, img 1)"
        using a(1,5) by (auto simp: slot_page_def with_slot_def meta_slot_odd prod_eq_iff split: if_splits)
      have "mt_page_count m' * of_nat PAGE_SIZE \<le> bytes_len'" using len unfolding word_le_nat_alt u'(1) .
      hence "generations (m' # m # ms) bytes_len' (with_slot (1 - meta_slot m) (meta_page m') ?p)"
        using published [OF _ r(1) meta_ok_at [OF ok'] r(2,3)] ok meta_slot_next [OF r(2)] by metis
      thus ?thesis using open_newest [OF c _ assms(8), of m' "m # ms" "(img 0, img 1)" Writer contiguous] unfolding i by simp
    qed
    moreover have "bs_meta b = m \<or> bs_meta b = m'" if "open_meta_pages plat contiguous (img 0) (img 1) bytes_len' mode = Inr b" for b
      by (rule crash_opens [where img = img, OF c g _ ok' a(1) a(6) [OF assms(7) [unfolded j]] that]) (use ok in blast)
    ultimately show ?thesis using w a(2,3) len by (auto split: sum.splits)
  qed
qed

theorem commit_survives_crash_witness:
  "\<exists>self' events. publish table_platform example_io example_pending = Inr (self', Published, events)
    \<and> rmap bs_meta (open_meta_pages table_platform True (meta_page example_next) (meta_page (empty_meta example_spec)) (bs_physical_bytes (wc_base self')) Writer) = Inr example_next"
proof -
  have d: "disk_ready example_disk (empty_meta example_spec) (meta_pages (wc_mapping example_pending))"
    by (simp add: disk_ready_def example_disk_def example_pending_ready(3) example_ok(2))
  obtain out where o: "publish table_platform example_io example_pending = Inr out" "outcome_ok [] (empty_meta example_spec) example_next example_pending out"
    using publish_outcome_ok [OF table_castagnoli(2) example_pending_ready(1,2)] by blast
  obtain self' outcome events where p: "publish table_platform example_io example_pending = Inr (self', outcome, events)" using o(1) by (cases out) auto
  have gr: "outcome = Published"
    by (rule publish_granted [OF table_castagnoli(2) example_pending_ready(1,2) example_shrink _ p]) (simp add: all_granted_def example_io_def)
  have n: "unat (mt_page_count example_next) = 2" by (simp add: example_next_def example_ok(2))
  obtain physical_bytes where ev: "events = data_events example_next physical_bytes @ meta_events (empty_meta example_spec) example_next"
    "wc_base self' = published_base example_next physical_bytes" "geometry_valid physical_bytes"
    using o p gr by (auto simp: outcome_ok_def writer_ok_def)
  have s: "bs_physical_bytes (wc_base self') = physical_bytes" by (simp add: ev(2) published_base_def)
  let ?e = "\<lambda>D. fold disk_step (take (length events) events) D"
  have f: "?e example_disk = example_disk \<lparr> dk_memory := (dk_memory example_disk)(0 := meta_page example_next),
      dk_durable := (dk_durable example_disk)(0 := meta_page example_next), dk_length := unat physical_bytes, dk_kept := unat physical_bytes \<rparr>"
    by (simp add: ev(1) data_events_def data_flush_def n meta_events_def example_disk_def example_ok(3) pages_within_page [of 0, simplified] fun_eq_iff)
  let ?img = "\<lambda>n. if n = (0 :: nat) then meta_page example_next else meta_page (empty_meta example_spec)"
  have i: "crash_image (?e example_disk) ?img (unat physical_bytes)" "torn_detected table_platform True (?e example_disk) ?img"
    unfolding f by (simp_all add: crash_image_def torn_detected_def example_disk_def)
  show ?thesis
    using commit_survives_crash [OF table_castagnoli(1) example_pending_ready(1,2) p d i ev(3), of Writer] p gr by (simp add: s)
qed

text \<open>C16. Resolving a commit of unknown outcome is sound for the whole history of the database: it never
  fails on a file with a proven current generation, reports a commit only if the history has it,
  reports a failed commit only if no generation of the history has that transaction and nonce, and leaves
  it open only for transactions older than both meta pages; another database's attempt is refused.\<close>

theorem commit_resolution_sound:
  assumes "\<forall>crc bs. pf_crc32c_append plat crc bs = crc32c crc bs" "generations (m # ms) bytes_len p" "geometry_valid bytes_len"
  shows "(\<exists>r. resolve_commit_attempt plat contiguous (fst p) (snd p) bytes_len (mt_database_id m) txn nonce = Inr r
    \<and> (case r of
         Committed \<Rightarrow> \<exists>m'\<in>set (m # ms). mt_txn_id m' = txn \<and> mt_commit_nonce m' = nonce
       | NotCommitted \<Rightarrow> \<not> (\<exists>m'\<in>set (m # ms). mt_txn_id m' = txn \<and> mt_commit_nonce m' = nonce)
       | SupersededUnknown \<Rightarrow> txn < mt_txn_id m \<and> txn \<notin> mt_txn_id ` set (take 2 (m # ms))))
    \<and> (other \<noteq> mt_database_id m \<longrightarrow> resolve_commit_attempt plat contiguous (fst p) (snd p) bytes_len other txn nonce = Inl StaticIdentityMismatch)"
proof -
  have c: "castagnoli plat" using assms(1) by (simp add: castagnoli_def)
  note e = resolve_history [OF c assms(2,3), of contiguous txn nonce]
  have sub: "set (take 2 (m # ms)) \<subseteq> set (m # ms)" by (rule set_take_subset)
  have inj: "inj_on mt_txn_id (set (m # ms))" using generations_distinct [OF assms(2)] unfolding distinct_map by blast
  have old: "mt_txn_id m' \<le> mt_txn_id m" if "m' \<in> set (m # ms)" for m'
    using that generations_older [OF assms(2) refl, of m'] by auto
  have nc: "\<not> (\<exists>m'\<in>set (m # ms). mt_txn_id m' = txn \<and> mt_commit_nonce m' = nonce)"
    if "\<not> (\<exists>m'\<in>set (take 2 (m # ms)). mt_txn_id m' = txn \<and> mt_commit_nonce m' = nonce)"
      "(\<exists>m'\<in>set (take 2 (m # ms)). mt_txn_id m' = txn) \<or> mt_txn_id m < txn"
    using that sub inj old unfolding inj_on_def by (metis leD subset_iff)
  have su: "txn < mt_txn_id m" if "\<not> ((\<exists>m'\<in>set (take 2 (m # ms)). mt_txn_id m' = txn) \<or> mt_txn_id m < txn)"
  proof -
    have "m \<in> set (take 2 (m # ms))" by (simp add: numeral_2_eq_2)
    thus ?thesis using that by (metis linorder_neqE)
  qed
  have other: "other \<noteq> mt_database_id m \<longrightarrow> resolve_commit_attempt plat contiguous (fst p) (snd p) bytes_len other txn nonce = Inl StaticIdentityMismatch"
    using open_newest [OF c assms(2,3), of Writer contiguous] by (simp add: resolve_commit_attempt_def)
  consider (a) "\<exists>m'\<in>set (take 2 (m # ms)). mt_txn_id m' = txn \<and> mt_commit_nonce m' = nonce"
    | (b) "\<not> (\<exists>m'\<in>set (take 2 (m # ms)). mt_txn_id m' = txn \<and> mt_commit_nonce m' = nonce)"
      "(\<exists>m'\<in>set (take 2 (m # ms)). mt_txn_id m' = txn) \<or> mt_txn_id m < txn"
    | (s) "\<not> ((\<exists>m'\<in>set (take 2 (m # ms)). mt_txn_id m' = txn) \<or> mt_txn_id m < txn)" by blast
  thus ?thesis
  proof cases
    case a
    hence "\<exists>m'\<in>set (m # ms). mt_txn_id m' = txn \<and> mt_commit_nonce m' = nonce" using sub by blast
    thus ?thesis using e other unfolding if_P [OF a] by (intro conjI exI [of _ Committed]) (simp_all del: take_Suc_Cons)
  next
    case b
    show ?thesis using e other nc [OF b] unfolding if_not_P [OF b(1)] if_P [OF b(2)]
      by (intro conjI exI [of _ NotCommitted]) (simp_all del: take_Suc_Cons)
  next
    case s
    hence n: "\<not> (\<exists>m'\<in>set (take 2 (m # ms)). mt_txn_id m' = txn \<and> mt_commit_nonce m' = nonce)" "txn \<notin> mt_txn_id ` set (take 2 (m # ms))" by blast+
    show ?thesis using e other su [OF s] n(2) unfolding if_not_P [OF n(1)] if_not_P [OF s]
      by (intro conjI exI [of _ SupersededUnknown]) (simp_all del: take_Suc_Cons)
  qed
qed

theorem commit_resolution_sound_witness:
  "resolve_commit_attempt table_platform True (meta_page (empty_meta example_spec)) (meta_page (empty_meta example_spec))
    (of_nat (2 * PAGE_SIZE)) (replicate 16 1) 7 (replicate 16 9) = Inr NotCommitted"
proof -
  have geo: "geometry_valid (of_nat (2 * PAGE_SIZE))" by (simp add: geometry_valid_def require_geometry_def PAGE_SIZE_def)
  have i: "mt_database_id (empty_meta example_spec) = replicate 16 1" "mt_commit_nonce (empty_meta example_spec) = replicate 16 2"
    by (simp_all add: empty_meta_def example_spec_def empty_live_def)
  obtain r where r: "resolve_commit_attempt table_platform True (meta_page (empty_meta example_spec)) (meta_page (empty_meta example_spec))
      (of_nat (2 * PAGE_SIZE)) (replicate 16 1) 7 (replicate 16 9) = Inr r"
    "case r of
       Committed \<Rightarrow> \<exists>m'\<in>set [empty_meta example_spec]. mt_txn_id m' = 7 \<and> mt_commit_nonce m' = replicate 16 9
     | NotCommitted \<Rightarrow> True
     | SupersededUnknown \<Rightarrow> 7 < mt_txn_id (empty_meta example_spec)"
    using commit_resolution_sound [OF table_castagnoli(1) example_generations geo, of True 7 "replicate 16 9" "replicate 16 1"]
    unfolding i fst_conv snd_conv by (fastforce split: commit_attempt_resolution.splits)
  thus ?thesis by (cases r) (simp_all add: example_ok(4))
qed

end
