(* ===== verification/Retirement.thy ===== *)
theory Retirement
  imports TreeCursor Key
begin

text \<open>
  The retirement tree (\<open>retirement.rs\<close>): the pages that a commit removed from its generation, kept
  as extents ordered by the transaction that retired them and by page, and the choice of the
  transactions whose pages can be used again. \<open>store\<close>, \<open>&mut root\<close>, \<open>&mut extent_count\<close> and
  \<open>&mut retired\<close> are arguments and results of every operation. The \<open>checkpoint\<close> closure of a
  long-running call is a parameter: a function of its own state, which may fail.
\<close>

section \<open>Keys and extents\<close>

definition RETIREMENT_BRANCH :: "8 word" where "RETIREMENT_BRANCH = 16"
definition RETIREMENT_LEAF :: "8 word" where "RETIREMENT_LEAF = 17"

abbreviation (input) RETIREMENT_KEY_SIZE :: nat where "RETIREMENT_KEY_SIZE \<equiv> 12"
abbreviation (input) RETIREMENT_CELL_SIZE :: nat where "RETIREMENT_CELL_SIZE \<equiv> 16"
abbreviation (input) RETIREMENT_TXN_OFFSET :: nat where "RETIREMENT_TXN_OFFSET \<equiv> 0"
abbreviation (input) RETIREMENT_FIRST_OFFSET :: nat where "RETIREMENT_FIRST_OFFSET \<equiv> 8"
abbreviation (input) RETIREMENT_COUNT_OFFSET :: nat where "RETIREMENT_COUNT_OFFSET \<equiv> 12"

datatype retirement_key = RetirementKey (rk_txn: "64 word") (rk_first: "32 word")

instantiation retirement_key :: linorder
begin

definition less_eq_retirement_key :: "retirement_key \<Rightarrow> retirement_key \<Rightarrow> bool" where
  "less_eq_retirement_key x y \<longleftrightarrow> rk_txn x < rk_txn y \<or> rk_txn x = rk_txn y \<and> rk_first x \<le> rk_first y"

definition less_retirement_key :: "retirement_key \<Rightarrow> retirement_key \<Rightarrow> bool" where
  "less_retirement_key x y \<longleftrightarrow> rk_txn x < rk_txn y \<or> rk_txn x = rk_txn y \<and> rk_first x < rk_first y"

instance
proof
  fix x y z :: retirement_key
  show "(x < y) = (x \<le> y \<and> \<not> y \<le> x)" by (auto simp: less_eq_retirement_key_def less_retirement_key_def)
  show "x \<le> x" by (simp add: less_eq_retirement_key_def)
  show "x \<le> y \<Longrightarrow> y \<le> z \<Longrightarrow> x \<le> z" by (auto simp: less_eq_retirement_key_def)
  show "x \<le> y \<Longrightarrow> y \<le> x \<Longrightarrow> x = y" by (cases x; cases y) (auto simp: less_eq_retirement_key_def)
  show "x \<le> y \<or> y \<le> x" by (auto simp: less_eq_retirement_key_def)
qed

end

record extent =
  ex_key :: retirement_key
  ex_count :: "32 word"

text \<open>\<open>Extent::pages\<close>: the half-open range of page numbers of an extent.\<close>

definition extent_pages :: "extent \<Rightarrow> 64 word \<times> 64 word" where
  "extent_pages self =
    (ucast (rk_first (ex_key self)), ucast (rk_first (ex_key self)) + ucast (ex_count self))"

record reclamation =
  rc_transactions :: "64 word"
  rc_pages :: "64 word"
  rc_through_txn :: "64 word"

datatype neighbors =
    Neither
  | PreviousOnly extent
  | NextOnly extent
  | BothNeighbors extent extent

record retirement_group =
  rg_txn :: "64 word"
  rg_pages :: "64 word"
  rg_next :: "extent option"

section \<open>The codec\<close>

definition retirement_decode_key_raw :: "bytes \<Rightarrow> retirement_key option result" where
  "retirement_decode_key_raw c =
    (if RETIREMENT_KEY_SIZE \<le> length c then
       rbind (u64_le c RETIREMENT_TXN_OFFSET) (\<lambda>txn.
       rbind (u32_le c RETIREMENT_FIRST_OFFSET) (\<lambda>first.
       Inr (Some (RetirementKey txn first))))
     else Inr None)"

definition retirement_decode_raw :: "bytes \<Rightarrow> extent option result" where
  "retirement_decode_raw c =
    (if length c \<noteq> RETIREMENT_CELL_SIZE then Inr None
     else
       rbind (retirement_decode_key_raw c) (\<lambda>key.
       case key of
         None \<Rightarrow> Inr None
       | Some key \<Rightarrow>
           rbind (u32_le c RETIREMENT_COUNT_OFFSET) (\<lambda>count.
           Inr (Some \<lparr> ex_key = key, ex_count = count \<rparr>))))"

definition retirement_decode_key :: "bytes \<Rightarrow> retirement_key result" where
  "retirement_decode_key c =
    rbind (retirement_decode_key_raw c) (ok_or (Corrupt ''retirement key is truncated''))"

definition retirement_decode_slice :: "bytes \<Rightarrow> extent result" where
  "retirement_decode_slice c =
    rbind (retirement_decode_raw c) (ok_or (Corrupt ''retirement leaf has the wrong record size''))"

definition retirement_read_leaf :: "bytes \<Rightarrow> extent result" where
  "retirement_read_leaf c =
    rbind (retirement_decode_slice c) (\<lambda>extent.
    if rk_txn (ex_key extent) \<le> 1 \<or> rk_first (ex_key extent) < 2 \<or> ex_count extent = 0
    then Inl (Corrupt ''retirement extent has invalid fields'')
    else
      (let end = (ucast (rk_first (ex_key extent)) + ucast (ex_count extent) :: 64 word) in
       if end > push_bit 32 1 then Inl (Corrupt ''retirement extent endpoint overflow'') else Inr extent))"

definition retirement_encode_key :: "retirement_key \<Rightarrow> bytes \<Rightarrow> bytes result" where
  "retirement_encode_key key output =
    rbind (copy_to_slice output RETIREMENT_TXN_OFFSET (to_le_bytes (rk_txn key))) (\<lambda>output.
    copy_to_slice output RETIREMENT_FIRST_OFFSET (to_le_bytes (rk_first key)))"

definition encoded_extent :: "extent \<Rightarrow> bytes result" where
  "encoded_extent extent =
    rbind (retirement_encode_key (ex_key extent) (replicate RETIREMENT_CELL_SIZE 0)) (\<lambda>bytes.
    copy_to_slice bytes RETIREMENT_COUNT_OFFSET (to_le_bytes (ex_count extent)))"

definition retirement_codec :: "(retirement_key, extent) codec" where
  "retirement_codec = \<lparr>
     BRANCH_TYPE = RETIREMENT_BRANCH,
     LEAF_TYPE = RETIREMENT_LEAF,
     CODEC_AUX = 0,
     KEY_SIZE = RETIREMENT_KEY_SIZE,
     LEAF_SIZE = RETIREMENT_CELL_SIZE,
     MAX_BRANCH_SIZE = RETIREMENT_KEY_SIZE + 4,
     MAX_LEAF_SIZE = RETIREMENT_CELL_SIZE,
     read_key = (\<lambda>c _. retirement_decode_key c),
     read_leaf = retirement_read_leaf,
     write_key = retirement_encode_key,
     validate_leaf = default_validate_leaf retirement_read_leaf,
     fixed_cell_size = default_fixed_cell_size RETIREMENT_KEY_SIZE RETIREMENT_CELL_SIZE (RETIREMENT_KEY_SIZE + 4),
     leaf_cell = default_leaf_cell RETIREMENT_CELL_SIZE,
     branch_cell = default_branch_cell RETIREMENT_KEY_SIZE,
     write_branch = default_write_branch RETIREMENT_KEY_SIZE retirement_encode_key,
     read_branch_child = default_read_branch_child RETIREMENT_KEY_SIZE \<rparr>"

section \<open>The tree of extents\<close>

definition retirement_predecessor ::
  "('s, 'x) store_ops_scheme \<Rightarrow> 's \<Rightarrow> 32 word \<Rightarrow> retirement_key \<Rightarrow> extent option result" where
  "retirement_predecessor S st root key = predecessor retirement_codec (store_source S st) root key"

definition retirement_at_or_after ::
  "('s, 'x) store_ops_scheme \<Rightarrow> 's \<Rightarrow> 32 word \<Rightarrow> retirement_key \<Rightarrow> extent option result" where
  "retirement_at_or_after S st root key = at_or_after retirement_codec (store_source S st) root key"

definition retirement_first :: "('s, 'x) store_ops_scheme \<Rightarrow> 's \<Rightarrow> 32 word \<Rightarrow> extent option result" where
  "retirement_first S st root = retirement_at_or_after S st root (RetirementKey 0 0)"

definition retirement_after :: "('s, 'x) store_ops_scheme \<Rightarrow> 's \<Rightarrow> 32 word \<Rightarrow> extent \<Rightarrow> extent option result" where
  "retirement_after S st root extent =
    (case Prelude.checked_add (rk_first (ex_key extent)) 1 of
       Some first \<Rightarrow> retirement_at_or_after S st root (RetirementKey (rk_txn (ex_key extent)) first)
     | None \<Rightarrow>
         (case Prelude.checked_add (rk_txn (ex_key extent)) 1 of
            Some txn \<Rightarrow> retirement_at_or_after S st root (RetirementKey txn 0)
          | None \<Rightarrow> Inr None))"

text \<open>The state that the mutating operations thread: store, root, extent count, retired pages.\<close>

type_synonym 's retirement = "'s \<times> 32 word \<times> 64 word \<times> retired"

definition retirement_insert :: "('s, 'x) store_ops_scheme \<Rightarrow> 's retirement \<Rightarrow> extent \<Rightarrow> 's retirement result" where
  "retirement_insert S t extent = (case t of (st, root, extent_count, retired) \<Rightarrow>
    rbind (encoded_extent extent) (\<lambda>bytes.
    rbind (insert_leaf retirement_codec S st root bytes retired) (\<lambda>(st, root, retired, inserted).
    if inserted then
      rbind (ok_or (ArithmeticOverflow ''retirement extent count'') (Prelude.checked_add extent_count 1)) (\<lambda>extent_count.
      Inr (st, root, extent_count, retired))
    else Inr (st, root, extent_count, retired))))"

definition retirement_remove :: "('s, 'x) store_ops_scheme \<Rightarrow> 's retirement \<Rightarrow> retirement_key \<Rightarrow> 's retirement result" where
  "retirement_remove S t key = (case t of (st, root, extent_count, retired) \<Rightarrow>
    rbind (delete_existing retirement_codec S st root key []) (\<lambda>(st, root, removed).
    rbind (retired_extend retired removed) (\<lambda>retired.
    rbind (ok_or (ArithmeticOverflow ''retirement extent count'') (Prelude.checked_sub extent_count 1)) (\<lambda>extent_count.
    Inr (st, root, extent_count, retired)))))"

definition remove_extent ::
  "('s, 'x) store_ops_scheme \<Rightarrow> 's \<Rightarrow> 32 word \<Rightarrow> 64 word \<Rightarrow> extent \<Rightarrow> 's retirement result" where
  "remove_extent S st root extent_count extent = retirement_remove S (st, root, extent_count, []) (ex_key extent)"

section \<open>Retiring a page\<close>

definition retirement_grow :: "32 word \<Rightarrow> 32 word \<Rightarrow> 32 word result" where
  "retirement_grow self by' =
    ok_or (ArithmeticOverflow ''retirement extent length'') (Prelude.checked_add self by')"

definition classify_neighbors :: "retirement_key \<Rightarrow> extent option \<Rightarrow> extent option \<Rightarrow> neighbors result" where
  "classify_neighbors key previous next =
    (if (case next of None \<Rightarrow> False | Some extent \<Rightarrow> ex_key extent = key)
        \<or> (case previous of None \<Rightarrow> False | Some extent \<Rightarrow>
             rk_txn (ex_key extent) = rk_txn key \<and> ucast (rk_first key) < snd (extent_pages extent))
     then Inl (Corrupt ''page is already retired'')
     else
       (let joins_previous = (case previous of None \<Rightarrow> False | Some extent \<Rightarrow>
              rk_txn (ex_key extent) = rk_txn key \<and> snd (extent_pages extent) = ucast (rk_first key));
            joins_next = (case next of None \<Rightarrow> False | Some extent \<Rightarrow>
              rk_txn (ex_key extent) = rk_txn key
              \<and> Prelude.checked_add (rk_first key) 1 = Some (rk_first (ex_key extent))) in
        case (previous, next, joins_previous, joins_next) of
          (_, _, False, False) \<Rightarrow> Inr Neither
        | (Some previous, _, True, False) \<Rightarrow> Inr (PreviousOnly previous)
        | (_, Some next, False, True) \<Rightarrow> Inr (NextOnly next)
        | (Some previous, Some next, True, True) \<Rightarrow> Inr (BothNeighbors previous next)
        | _ \<Rightarrow> Inl (Corrupt ''retirement neighbor classification failed'')))"

definition insert_single :: "('s, 'x) store_ops_scheme \<Rightarrow> 's retirement \<Rightarrow> retirement_key \<Rightarrow> 's retirement result" where
  "insert_single S t key = retirement_insert S t \<lparr> ex_key = key, ex_count = 1 \<rparr>"

definition extend_previous :: "('s, 'x) store_ops_scheme \<Rightarrow> 's retirement \<Rightarrow> extent \<Rightarrow> 's retirement result" where
  "extend_previous S t previous =
    rbind (retirement_grow (ex_count previous) 1) (\<lambda>count.
    retirement_insert S t \<lparr> ex_key = ex_key previous, ex_count = count \<rparr>)"

definition extend_next ::
  "('s, 'x) store_ops_scheme \<Rightarrow> 's retirement \<Rightarrow> retirement_key \<Rightarrow> extent \<Rightarrow> 's retirement result" where
  "extend_next S t key next =
    rbind (retirement_remove S t (ex_key next)) (\<lambda>t.
    rbind (retirement_grow (ex_count next) 1) (\<lambda>count.
    retirement_insert S t \<lparr> ex_key = key, ex_count = count \<rparr>))"

definition bridge :: "('s, 'x) store_ops_scheme \<Rightarrow> 's retirement \<Rightarrow> extent \<Rightarrow> extent \<Rightarrow> 's retirement result" where
  "bridge S t previous next =
    rbind (retirement_remove S t (ex_key previous)) (\<lambda>t.
    rbind (retirement_remove S t (ex_key next)) (\<lambda>t.
    rbind (retirement_grow (ex_count previous) 1) (\<lambda>count.
    rbind (retirement_grow count (ex_count next)) (\<lambda>count.
    retirement_insert S t \<lparr> ex_key = ex_key previous, ex_count = count \<rparr>))))"

definition apply_page ::
  "('s, 'x) store_ops_scheme \<Rightarrow> 's \<Rightarrow> 32 word \<Rightarrow> 64 word \<Rightarrow> retirement_key \<Rightarrow> neighbors \<Rightarrow> 's retirement result" where
  "apply_page S st root extent_count key neighbors =
    (let t = (st, root, extent_count, []) in
     case neighbors of
       Neither \<Rightarrow> insert_single S t key
     | PreviousOnly previous \<Rightarrow> extend_previous S t previous
     | NextOnly next \<Rightarrow> extend_next S t key next
     | BothNeighbors previous next \<Rightarrow> bridge S t previous next)"

definition add_page ::
  "('s, 'x) store_ops_scheme \<Rightarrow> 's \<Rightarrow> 32 word \<Rightarrow> 64 word \<Rightarrow> 64 word \<Rightarrow> 32 word \<Rightarrow> 's retirement result" where
  "add_page S st root extent_count txn page_number =
    (if txn \<le> 1 then Inl (InvalidArgument ''retirement transaction must be above creation'')
     else if page_number < 2 then Inl (Corrupt ''a meta page cannot be retired'')
     else
       (let key = RetirementKey txn page_number in
        rbind (retirement_predecessor S st root key) (\<lambda>previous.
        rbind (retirement_at_or_after S st root key) (\<lambda>next.
        rbind (classify_neighbors key previous next) (\<lambda>neighbors.
        apply_page S st root extent_count key neighbors)))))"

section \<open>Choosing the transactions to reclaim\<close>

type_synonym 'c checkpoint = "'c \<Rightarrow> 'c result"

definition validate_selected :: "('s, 'x) store_ops_scheme \<Rightarrow> 's \<Rightarrow> extent \<Rightarrow> 64 word \<Rightarrow> unit result" where
  "validate_selected S st extent selected_txn' =
    (if rk_txn (ex_key extent) > selected_txn' \<or> snd (extent_pages extent) > page_limit S st
     then Inl (Corrupt ''retirement extent exceeds the selected generation'')
     else Inr ())"

partial_function (option) scan_group_loop ::
  "('s, 'x) store_ops_scheme \<Rightarrow> 's \<Rightarrow> 32 word \<Rightarrow> 64 word \<Rightarrow> 'c checkpoint \<Rightarrow> 64 word \<Rightarrow> 'c \<Rightarrow> extent \<Rightarrow> 64 word
    \<Rightarrow> ('c \<times> 64 word \<times> extent option) run" where
  "scan_group_loop S st root selected_txn' checkpoint txn c extent pages =
    step_result (checkpoint c) (\<lambda>c.
    step_result (validate_selected S st extent selected_txn') (\<lambda>_.
    step_result (ok_or (ArithmeticOverflow ''reclaimed page count'')
      (Prelude.checked_add pages (ucast (ex_count extent)))) (\<lambda>pages.
    step_result (retirement_after S st root extent) (\<lambda>next.
    case next of
      None \<Rightarrow> Some (Inr (c, pages, None))
    | Some candidate \<Rightarrow>
        if rk_txn (ex_key candidate) \<noteq> txn then Some (Inr (c, pages, Some candidate))
        else if ucast (rk_first (ex_key candidate)) \<le> snd (extent_pages extent)
        then Some (Inl (Corrupt ''retirement extents overlap or are not coalesced''))
        else scan_group_loop S st root selected_txn' checkpoint txn c candidate pages))))"

definition scan_group ::
  "('s, 'x) store_ops_scheme \<Rightarrow> 's \<Rightarrow> 32 word \<Rightarrow> extent \<Rightarrow> 64 word \<Rightarrow> 'c checkpoint \<Rightarrow> 'c
    \<Rightarrow> ('c \<times> 64 word \<times> extent option) run" where
  "scan_group S st root first_extent selected_txn' checkpoint c =
    scan_group_loop S st root selected_txn' checkpoint (rk_txn (ex_key first_extent)) c first_extent 0"

definition reader_safe :: "64 word option \<Rightarrow> 64 word \<Rightarrow> bool" where
  "reader_safe oldest_reader retired_by_txn =
    (case oldest_reader of Some reader \<Rightarrow> reader \<ge> retired_by_txn | None \<Rightarrow> True)"

definition safe_group ::
  "('s, 'x) store_ops_scheme \<Rightarrow> 's \<Rightarrow> 32 word \<Rightarrow> extent \<Rightarrow> 64 word \<Rightarrow> 64 word option \<Rightarrow> 'c checkpoint \<Rightarrow> 'c
    \<Rightarrow> ('c \<times> retirement_group option) run" where
  "safe_group S st root extent selected_txn' oldest_reader checkpoint c =
    step_result (validate_selected S st extent selected_txn') (\<lambda>_.
    if \<not> reader_safe oldest_reader (rk_txn (ex_key extent)) then Some (Inr (c, None))
    else
      step_run (scan_group S st root extent selected_txn' checkpoint c) (\<lambda>(c, pages, next).
      Some (Inr (c, Some \<lparr> rg_txn = rk_txn (ex_key extent), rg_pages = pages, rg_next = next \<rparr>))))"

definition require_first_group_fit :: "reclamation \<Rightarrow> 64 word \<Rightarrow> 64 word \<Rightarrow> unit result" where
  "require_first_group_fit selected group_pages max_pages =
    (if rc_transactions selected = 0 \<and> group_pages > max_pages then Inl (WorkLimitTooSmall group_pages) else Inr ())"

definition require_work_limits :: "64 word \<Rightarrow> 64 word \<Rightarrow> unit result" where
  "require_work_limits max_transactions max_pages =
    (if max_transactions = 0 \<or> max_pages = 0
     then Inl (InvalidArgument ''reclamation work limits must be nonzero'') else Inr ())"

text \<open>\<open>append_group\<close> returns the selection and whether the group was taken.\<close>

definition append_group :: "reclamation \<Rightarrow> 64 word \<Rightarrow> 64 word \<Rightarrow> 64 word \<Rightarrow> (reclamation \<times> bool) result" where
  "append_group selected txn group_pages max_pages =
    rbind (ok_or (ArithmeticOverflow ''reclaimed page count'')
      (Prelude.checked_add (rc_pages selected) group_pages)) (\<lambda>total.
    if total > max_pages then Inr (selected, False)
    else Inr (\<lparr> rc_transactions = rc_transactions selected + 1, rc_pages = total, rc_through_txn = txn \<rparr>, True))"

partial_function (option) select_loop ::
  "('s, 'x) store_ops_scheme \<Rightarrow> 's \<Rightarrow> 32 word \<Rightarrow> 64 word \<Rightarrow> 64 word option \<Rightarrow> 64 word \<Rightarrow> 64 word \<Rightarrow> 'c checkpoint
    \<Rightarrow> 'c \<Rightarrow> extent option \<Rightarrow> reclamation \<Rightarrow> reclamation run" where
  "select_loop S st root selected_txn' oldest_reader max_transactions max_pages checkpoint c next selected =
    (if rc_transactions selected < max_transactions then
       step_result (checkpoint c) (\<lambda>c.
       case next of
         None \<Rightarrow> Some (Inr selected)
       | Some extent \<Rightarrow>
           step_run (safe_group S st root extent selected_txn' oldest_reader checkpoint c) (\<lambda>(c, found).
           case found of
             None \<Rightarrow> Some (Inr selected)
           | Some g \<Rightarrow>
               step_result (require_first_group_fit selected (rg_pages g) max_pages) (\<lambda>_.
               step_result (append_group selected (rg_txn g) (rg_pages g) max_pages) (\<lambda>(selected, taken).
               if \<not> taken then Some (Inr selected)
               else select_loop S st root selected_txn' oldest_reader max_transactions max_pages checkpoint c
                 (rg_next g) selected))))
     else Some (Inr selected))"

definition select_reclamation_with_checkpoint ::
  "('s, 'x) store_ops_scheme \<Rightarrow> 's \<Rightarrow> 32 word \<Rightarrow> 64 word \<Rightarrow> 64 word option \<Rightarrow> 64 word \<Rightarrow> 64 word \<Rightarrow> 'c checkpoint
    \<Rightarrow> 'c \<Rightarrow> reclamation option run" where
  "select_reclamation_with_checkpoint S st root selected_txn' oldest_reader max_transactions max_pages checkpoint c =
    step_result (require_work_limits max_transactions max_pages) (\<lambda>_.
    step_result (retirement_first S st root) (\<lambda>next.
    step_run (select_loop S st root selected_txn' oldest_reader max_transactions max_pages checkpoint c next
        \<lparr> rc_transactions = 0, rc_pages = 0, rc_through_txn = 0 \<rparr>) (\<lambda>selected.
    Some (Inr (if rc_transactions selected \<noteq> 0 then Some selected else None)))))"

end
