(* ===== verification/RetirementCells.thy ===== *)
theory RetirementCells
  imports Retirement WorkspaceStore TreeRetire
begin

text \<open>
  The cells of the retirement tree: encoding and decoding of extents (\<open>retirement.rs\<close>) are
  inverse, and the retirement codec keeps the contract \<open>codec_laws\<close> of the tree. A store that
  keeps the tree contract is a \<open>retirement_store\<close>; the workspace is one.
\<close>

section \<open>Cells\<close>

definition key_bytes :: "retirement_key \<Rightarrow> bytes" where
  "key_bytes key = to_le_bytes (rk_txn key) @ to_le_bytes (rk_first key)"

definition extent_cell :: "extent \<Rightarrow> bytes" where
  "extent_cell e = key_bytes (ex_key e) @ to_le_bytes (ex_count e)"

text \<open>The page numbers of an extent, and the fields that a leaf accepts.\<close>

definition ex_first :: "extent \<Rightarrow> nat" where "ex_first e = unat (rk_first (ex_key e))"
definition ex_stop :: "extent \<Rightarrow> nat" where "ex_stop e = ex_first e + unat (ex_count e)"
abbreviation ex_txn :: "extent \<Rightarrow> 64 word" where "ex_txn e \<equiv> rk_txn (ex_key e)"

definition extent_ok :: "extent \<Rightarrow> bool" where
  "extent_ok e \<longleftrightarrow> 1 < ex_txn e \<and> 2 \<le> ex_first e \<and> ex_first e < ex_stop e \<and> ex_stop e \<le> 2 ^ 32"

definition retirement_cells :: "(retirement_key, extent) cell_view" where
  "retirement_cells = \<lparr> enc_key = key_bytes, key_of = (\<lambda>c. ex_key (projr (retirement_read_leaf c))),
     leaf_of = (\<lambda>c. projr (retirement_read_leaf c)), leaf_ok = (\<lambda>c. \<not> isl (retirement_read_leaf c)) \<rparr>"

lemma retirement_cells_simps [simp]:
  "enc_key retirement_cells = key_bytes" "key_of retirement_cells c = ex_key (projr (retirement_read_leaf c))"
  "leaf_of retirement_cells c = projr (retirement_read_leaf c)" "leaf_ok retirement_cells c = (\<not> isl (retirement_read_leaf c))"
  by (simp_all add: retirement_cells_def)

lemma retirement_codec_simps [simp]:
  "KEY_SIZE retirement_codec = 12" "LEAF_SIZE retirement_codec = 16"
  "MAX_BRANCH_SIZE retirement_codec = 16" "MAX_LEAF_SIZE retirement_codec = 16"
  "read_key retirement_codec c lvl = retirement_decode_key c" "read_leaf retirement_codec = retirement_read_leaf"
  "validate_leaf retirement_codec = default_validate_leaf retirement_read_leaf"
  "fixed_cell_size retirement_codec = default_fixed_cell_size 12 16 16"
  "leaf_cell retirement_codec = default_leaf_cell 16" "branch_cell retirement_codec = default_branch_cell 12"
  "write_branch retirement_codec = default_write_branch 12 retirement_encode_key"
  "read_branch_child retirement_codec = default_read_branch_child 12"
  by (simp_all add: retirement_codec_def)

lemma length_key_bytes [simp]: "length (key_bytes k) = 12"
  by (simp add: key_bytes_def)

lemma length_extent_cell [simp]: "length (extent_cell e) = 16"
  by (simp add: extent_cell_def)

lemma unat_sum_of_u32:
  fixes x y :: "32 word"
  shows "unat (ucast x + ucast y :: 64 word) = unat x + unat y"
proof -
  have "unat x < 2 ^ 32" "unat y < 2 ^ 32" using unat_word_less [of x] unat_word_less [of y] by simp_all
  thus ?thesis by (simp add: unat_word_ariths unat_ucast)
qed

lemma extent_end [simp]: "unat (snd (extent_pages e)) = ex_stop e"
  by (simp add: extent_pages_def unat_sum_of_u32 ex_stop_def ex_first_def)

lemma unat_u32_u64 [simp]: "unat (ucast (x :: 32 word) :: 64 word) = unat x"
  using unat_word_less [of x] by (simp add: unat_ucast)

section \<open>Encoding and decoding\<close>

lemma key_fields:
  assumes "12 \<le> length c" "length c \<le> usize_max" "take 12 c = key_bytes k"
  shows "retirement_decode_key_raw c = Inr (Some k)"
proof -
  have "c = key_bytes k @ drop 12 c" using assms(3) by (metis append_take_drop_id)
  then obtain r where r: "c = key_bytes k @ r" by blast
  have "u64_at c 0 = rk_txn k" "u32_at c 8 = rk_first k"
    by (simp_all add: r u64_at_def u32_at_def rd_def key_bytes_def)
  thus ?thesis using assms by (simp add: retirement_decode_key_raw_def u64_le_in u32_le_in)
qed

lemma small_usize: "n \<le> 16 \<Longrightarrow> n \<le> usize_max"
  by (simp add: usize_max_def)

lemma decode_raw_cell: "retirement_decode_raw (extent_cell e) = Inr (Some e)"
proof -
  have k: "retirement_decode_key_raw (extent_cell e) = Inr (Some (ex_key e))"
    by (rule key_fields) (simp_all add: small_usize, simp add: extent_cell_def)
  have "u32_at (extent_cell e) 12 = ex_count e" by (simp add: u32_at_def rd_def extent_cell_def)
  thus ?thesis using k by (simp add: retirement_decode_raw_def u32_le_in small_usize)
qed

lemma extent_ok_iff: "extent_ok e \<longleftrightarrow> \<not> (ex_txn e \<le> 1 \<or> rk_first (ex_key e) < 2 \<or> ex_count e = 0)
    \<and> \<not> push_bit 32 1 < snd (extent_pages e)"
proof -
  have "unat (push_bit 32 1 :: 64 word) = 2 ^ 32" by (simp add: push_bit_eq_mult)
  hence "push_bit 32 1 < snd (extent_pages e) \<longleftrightarrow> 2 ^ 32 < ex_stop e"
    using extent_end [of e] by (simp add: word_less_nat_alt)
  thus ?thesis
    by (auto simp: extent_ok_def ex_first_def ex_stop_def word_less_nat_alt word_le_nat_alt not_less not_le unat_gt_0)
qed

lemma read_leaf_cell: "extent_ok e \<Longrightarrow> retirement_read_leaf (extent_cell e) = Inr e"
  unfolding extent_ok_iff
  by (simp add: retirement_read_leaf_def retirement_decode_slice_def decode_raw_cell extent_pages_def Let_def)

lemma extent_of_bytes:
  assumes "length c = 16"
  obtains e where "c = extent_cell e"
proof -
  let ?e = "\<lparr> ex_key = RetirementKey (from_le_bytes (take 8 c)) (from_le_bytes (take 4 (drop 8 c))),
    ex_count = from_le_bytes (drop 12 c) \<rparr>"
  have "to_le_bytes (from_le_bytes (take 8 c) :: 64 word) = take 8 c"
    "to_le_bytes (from_le_bytes (take 4 (drop 8 c)) :: 32 word) = take 4 (drop 8 c)"
    "to_le_bytes (from_le_bytes (drop 12 c) :: 32 word) = drop 12 c"
    by (rule to_from_le_bytes; simp add: assms)+
  moreover have "c = (take 8 c @ take 4 (drop 8 c)) @ drop 12 c"
    using append_take_drop_id [of 8 c] append_take_drop_id [of 4 "drop 8 c"] by simp
  ultimately have "c = extent_cell ?e" by (simp add: extent_cell_def key_bytes_def)
  thus ?thesis by (rule that)
qed

text \<open>A leaf decodes exactly when it is the cell of an extent with valid fields.\<close>

lemma read_leaf_iff: "retirement_read_leaf c = Inr e \<longleftrightarrow> c = extent_cell e \<and> extent_ok e"
proof
  assume d: "retirement_read_leaf c = Inr e"
  hence "length c = 16"
    by (auto simp: retirement_read_leaf_def retirement_decode_slice_def retirement_decode_raw_def result_simps split: if_splits)
  then obtain e' where c: "c = extent_cell e'" by (rule extent_of_bytes)
  have "e' = e" "extent_ok e'"
    using d unfolding c extent_ok_iff
    by (auto simp: retirement_read_leaf_def retirement_decode_slice_def decode_raw_cell extent_pages_def Let_def split: if_splits)
  thus "c = extent_cell e \<and> extent_ok e" using c by simp
qed (simp add: read_leaf_cell)

lemma ok_extent_cell: "\<not> isl (retirement_read_leaf c) \<longleftrightarrow> (\<exists>e. c = extent_cell e \<and> extent_ok e)"
  using read_leaf_iff [of c] by (cases "retirement_read_leaf c") auto

lemma encode_key_ok: "12 \<le> length out \<Longrightarrow> retirement_encode_key k out = Inr (key_bytes k @ drop 12 out)"
  by (simp add: retirement_encode_key_def copy_to_slice_def wr_def key_bytes_def)

lemma encoded_extent_ok: "encoded_extent e = Inr (extent_cell e)"
  by (simp add: encoded_extent_def encode_key_ok copy_to_slice_def wr_def extent_cell_def)

section \<open>The retirement codec is a tree codec\<close>

interpretation rtc: codec_laws retirement_codec retirement_cells
proof
  fix lvl :: "16 word" and p h i k child c
  show "0 < KEY_SIZE retirement_codec" "KEY_SIZE retirement_codec \<le> 500"
    "MAX_BRANCH_SIZE retirement_codec = KEY_SIZE retirement_codec + 4" "0 < LEAF_SIZE retirement_codec"
    "LEAF_SIZE retirement_codec \<le> 500" "MAX_LEAF_SIZE retirement_codec = LEAF_SIZE retirement_codec"
    by simp_all
  show "fixed_cell_size retirement_codec lvl = Some (cell_size retirement_codec lvl)"
    by (simp add: default_fixed_cell_size_def cell_size_def)
  show "leaf_cell retirement_codec p h i = cell p h i (LEAF_SIZE retirement_codec)"
    "branch_cell retirement_codec p h i = cell p h i (KEY_SIZE retirement_codec + 4)"
    by (simp_all add: default_leaf_cell_def default_branch_cell_def)
  show "length (enc_key retirement_cells k) = KEY_SIZE retirement_codec" by simp
  have b: "length (bcell retirement_cells k child) = 16" by (simp add: bcell_def)
  show "read_key retirement_codec (bcell retirement_cells k child) lvl = Inr k"
    using key_fields [of "bcell retirement_cells k child" k] b
    by (simp add: retirement_decode_key_def small_usize bcell_def)
  show "read_branch_child retirement_codec (bcell retirement_cells k child) = Inr child"
    using array_in [of 12 4 "bcell retirement_cells k child"] b
    by (simp add: default_read_branch_child_def bcell_def rd_def small_usize)
  show "\<exists>bs. write_branch retirement_codec k child (replicate MAX_TREE_CELL 0) = Inr (bs, KEY_SIZE retirement_codec + 4)
      \<and> take (KEY_SIZE retirement_codec + 4) bs = bcell retirement_cells k child"
    by (simp add: default_write_branch_def Let_def encode_key_ok MAX_TREE_CELL_def bcell_def wr_def)
  assume "leaf_ok retirement_cells c"
  then obtain e where e: "c = extent_cell e" "extent_ok e" by (auto simp: ok_extent_cell)
  show "length c = LEAF_SIZE retirement_codec" using e by simp
  have "retirement_decode_key_raw c = Inr (Some (ex_key e))"
    by (rule key_fields) (simp_all add: e small_usize, simp add: extent_cell_def)
  thus "read_key retirement_codec c 0 = Inr (key_of retirement_cells c)"
    using e by (simp add: retirement_decode_key_def read_leaf_cell)
  show "read_leaf retirement_codec c = Inr (leaf_of retirement_cells c)" "validate_leaf retirement_codec c = Inr ()"
    using e by (simp_all add: default_validate_leaf_def read_leaf_cell)
qed

locale retirement_store = tree_store retirement_codec retirement_cells S V
  for S :: "('s, 'x) store_ops_scheme" and V :: "'s store_view"

interpretation rws: retirement_store workspace_ops workspace_view
  by unfold_locales

end
