(* ===== verification/RetirementSpec.thy ===== *)
theory RetirementSpec
  imports RetirementCells
begin

text \<open>
  What the retirement tree promises. A list of extents stands for the set of its retired pages,
  each with the transaction that retired it; retiring a page (\<open>add_page\<close>) adds it to that set and
  keeps the extents sorted, valid and coalesced. The choice of transactions to reclaim
  (\<open>select_reclamation\<close>) returns, and takes exactly the oldest transactions that no reader
  can still need, as far as the work limits allow.
\<close>

section \<open>Lists of extents\<close>

definition retired_in :: "extent set \<Rightarrow> (64 word \<times> 32 word) set" where
  "retired_in A = {(t, p). \<exists>e\<in>A. t = ex_txn e \<and> ex_first e \<le> unat p \<and> unat p < ex_stop e}"

definition apart :: "extent set \<Rightarrow> bool" where
  "apart A \<longleftrightarrow> (\<forall>a\<in>A. \<forall>b\<in>A. a \<noteq> b \<and> ex_txn a = ex_txn b \<longrightarrow> ex_stop a < ex_first b \<or> ex_stop b < ex_first a)"

definition coalesced :: "extent list \<Rightarrow> bool" where
  "coalesced es \<longleftrightarrow> list_all extent_ok es \<and> sorted_wrt (<) (map ex_key es) \<and> apart (set es)"

definition put_extents :: "retirement_key \<Rightarrow> extent list \<Rightarrow> extent list \<Rightarrow> extent list" where
  "put_extents key new es = filter (\<lambda>e. ex_key e < key) es @ new @ filter (\<lambda>e. key < ex_key e) es"

definition floor_extent :: "retirement_key \<Rightarrow> extent list \<Rightarrow> extent option" where
  "floor_extent key es = (case rev (filter (\<lambda>e. ex_key e \<le> key) es) of [] \<Rightarrow> None | e # _ \<Rightarrow> Some e)"

definition ceil_extent :: "retirement_key \<Rightarrow> extent list \<Rightarrow> extent option" where
  "ceil_extent key es = (case filter (\<lambda>e. key \<le> ex_key e) es of [] \<Rightarrow> None | e # _ \<Rightarrow> Some e)"

lemma key_le_iff: "k \<le> k' \<longleftrightarrow> rk_txn k < rk_txn k' \<or> rk_txn k = rk_txn k' \<and> unat (rk_first k) \<le> unat (rk_first k')"
  by (simp add: less_eq_retirement_key_def word_le_nat_alt)

lemma coalescedD:
  assumes "coalesced es"
  shows "list_all extent_ok es" "sorted_wrt (<) (map ex_key es)" "apart (set es)" "e \<in> set es \<Longrightarrow> extent_ok e"
  using assms by (auto simp: coalesced_def list_all_iff)

lemma set_put_extents: "set (put_extents key new es) = {e \<in> set es. ex_key e \<noteq> key} \<union> set new"
  by (auto simp: put_extents_def)

lemma sorted_put:
  assumes "sorted_wrt (<) (map ex_key es)" "new = [] \<or> new = [e] \<and> ex_key e = key"
  shows "sorted_wrt (<) (map ex_key (put_extents key new es))"
proof -
  have "sorted_wrt (<) (map ex_key (filter Q es))" for Q
    using assms(1) by (simp add: sorted_wrt_map sorted_wrt_filter)
  thus ?thesis using assms(2) by (auto simp: put_extents_def sorted_wrt_append)
qed

lemma length_put_extents:
  assumes "sorted_wrt (<) (map ex_key es)"
  shows "length (put_extents key new es) + of_bool (key \<in> ex_key ` set es) = length es + length new"
  using assms
proof (induction es)
  case (Cons e es)
  have "filter (\<lambda>x. ex_key x < ex_key e) es = []" using Cons.prems by (auto simp: filter_empty_conv)
  moreover have "filter (\<lambda>x. ex_key e < ex_key x) es = es" using Cons.prems by auto
  ultimately have "ex_key e = key \<Longrightarrow> length (put_extents key new es) = length es + length new"
    by (auto simp: put_extents_def)
  moreover have "ex_key e = key \<Longrightarrow> key \<notin> ex_key ` set es" using Cons.prems by auto
  moreover have "ex_key e \<noteq> key \<Longrightarrow> length (put_extents key new (e # es)) = Suc (length (put_extents key new es))"
    by (auto simp: put_extents_def)
  ultimately show ?case
    using Cons by (cases "ex_key e = key") (auto simp: put_extents_def)
qed (simp add: put_extents_def)

lemma floor_extentD:
  assumes "sorted_wrt (<) (map ex_key es)"
  shows "floor_extent key es = None \<Longrightarrow> e \<in> set es \<Longrightarrow> \<not> ex_key e \<le> key"
    and "floor_extent key es = Some f \<Longrightarrow> f \<in> set es \<and> ex_key f \<le> key"
    and "floor_extent key es = Some f \<Longrightarrow> e \<in> set es \<Longrightarrow> ex_key e \<le> key \<Longrightarrow> ex_key e \<le> ex_key f"
proof -
  let ?fs = "filter (\<lambda>e. ex_key e \<le> key) es"
  show "floor_extent key es = None \<Longrightarrow> e \<in> set es \<Longrightarrow> \<not> ex_key e \<le> key"
    by (auto simp: floor_extent_def filter_empty_conv split: list.splits)
  have f: "\<exists>r. ?fs = r @ [f]" if "floor_extent key es = Some f"
    using that by (cases ?fs rule: rev_cases) (simp_all add: floor_extent_def)
  show "f \<in> set es \<and> ex_key f \<le> key" if a: "floor_extent key es = Some f"
  proof -
    obtain r where "?fs = r @ [f]" using f a by blast
    hence "f \<in> set ?fs" by simp
    thus ?thesis by simp
  qed
  have s: "sorted_wrt (<) (map ex_key ?fs)" using assms by (simp add: sorted_wrt_map sorted_wrt_filter)
  show "ex_key e \<le> ex_key f" if a: "floor_extent key es = Some f" "e \<in> set es" "ex_key e \<le> key"
  proof -
    obtain r where r: "?fs = r @ [f]" using f a(1) by blast
    have "e \<in> set ?fs" using a(2,3) by simp
    thus ?thesis using s unfolding r by (auto simp: sorted_wrt_append)
  qed
qed

lemma ceil_extentD:
  assumes "sorted_wrt (<) (map ex_key es)"
  shows "ceil_extent key es = None \<Longrightarrow> e \<in> set es \<Longrightarrow> \<not> key \<le> ex_key e"
    and "ceil_extent key es = Some n \<Longrightarrow> n \<in> set es \<and> key \<le> ex_key n"
    and "ceil_extent key es = Some n \<Longrightarrow> e \<in> set es \<Longrightarrow> key \<le> ex_key e \<Longrightarrow> ex_key n \<le> ex_key e"
proof -
  let ?ns = "filter (\<lambda>e. key \<le> ex_key e) es"
  show "ceil_extent key es = None \<Longrightarrow> e \<in> set es \<Longrightarrow> \<not> key \<le> ex_key e"
    by (auto simp: ceil_extent_def filter_empty_conv split: list.splits)
  have n: "\<exists>r. ?ns = n # r" if "ceil_extent key es = Some n"
    using that by (auto simp: ceil_extent_def split: list.splits)
  show "n \<in> set es \<and> key \<le> ex_key n" if a: "ceil_extent key es = Some n"
  proof -
    obtain r where "?ns = n # r" using n a by blast
    hence "n \<in> set ?ns" by simp
    thus ?thesis by simp
  qed
  have s: "sorted_wrt (<) (map ex_key ?ns)" using assms by (simp add: sorted_wrt_map sorted_wrt_filter)
  show "ex_key n \<le> ex_key e" if a: "ceil_extent key es = Some n" "e \<in> set es" "key \<le> ex_key e"
  proof -
    obtain r where r: "?ns = n # r" using n a(1) by blast
    have "e \<in> set ?ns" using a(2,3) by simp
    thus ?thesis using s unfolding r by auto
  qed
qed

section \<open>The neighbours of a page\<close>

text \<open>An extent that starts at or before a page, and the one that is found for it.\<close>

lemma apartD: "apart A \<Longrightarrow> a \<in> A \<Longrightarrow> b \<in> A \<Longrightarrow> ex_txn a = ex_txn b \<Longrightarrow> ex_first a \<le> ex_first b \<Longrightarrow>
    ex_first b < ex_stop b \<Longrightarrow> a = b \<or> ex_stop a < ex_first b"
  by (fastforce simp: apart_def)

lemma key_order:
  assumes "ex_key a \<le> RetirementKey t p"
  shows "ex_txn a = t \<Longrightarrow> ex_first a \<le> unat p" and "ex_key b \<le> ex_key a \<Longrightarrow> ex_txn b = t \<Longrightarrow> ex_txn a = t \<and> ex_first b \<le> ex_first a"
  using assms by (auto simp: key_le_iff ex_first_def)

lemma floor_neighbour:
  assumes c: "coalesced es" and a: "a \<in> set es" "ex_txn a = t" "ex_first a \<le> unat p"
  obtains f where "floor_extent (RetirementKey t p) es = Some f" "ex_txn f = t" "ex_first f \<le> unat p"
    "a = f \<or> ex_stop a < ex_first f"
proof -
  note d = coalescedD [OF c]
  have k: "ex_key a \<le> RetirementKey t p" using a(2,3) by (simp add: key_le_iff ex_first_def)
  obtain f where f: "floor_extent (RetirementKey t p) es = Some f"
    using floor_extentD(1) [OF d(2) _ a(1)] k by (cases "floor_extent (RetirementKey t p) es") auto
  note fk = floor_extentD(2) [OF d(2) f] floor_extentD(3) [OF d(2) f a(1) k]
  have t: "ex_txn f = t" "ex_first a \<le> ex_first f" using key_order(2) [of f t p a] fk a(2) by simp_all
  moreover have "ex_first f \<le> unat p" using key_order(1) [of f t p] fk t by simp
  moreover have "a = f \<or> ex_stop a < ex_first f"
    using apartD [OF d(3) a(1), of f] fk t a(2) d(4) [of f] by (simp add: extent_ok_def)
  ultimately show ?thesis using that f by blast
qed

lemma ceil_neighbour:
  assumes c: "coalesced es" and a: "a \<in> set es" "ex_txn a = t" "unat p \<le> ex_first a"
  obtains n where "ceil_extent (RetirementKey t p) es = Some n" "ex_txn n = t" "unat p \<le> ex_first n"
    "a = n \<or> ex_stop n < ex_first a"
proof -
  note d = coalescedD [OF c]
  have k: "RetirementKey t p \<le> ex_key a" using a(2,3) by (simp add: key_le_iff ex_first_def)
  obtain n where n: "ceil_extent (RetirementKey t p) es = Some n"
    using ceil_extentD(1) [OF d(2) _ a(1)] k by (cases "ceil_extent (RetirementKey t p) es") auto
  note nk = ceil_extentD(2) [OF d(2) n] ceil_extentD(3) [OF d(2) n a(1) k]
  have t: "ex_txn n = t" "unat p \<le> ex_first n" "ex_first n \<le> ex_first a"
    using nk a(2) by (auto simp: key_le_iff ex_first_def)
  moreover have "a = n \<or> ex_stop n < ex_first a"
    using apartD [OF d(3) _ a(1), of n] nk t a d(4) [of a] by (auto simp: extent_ok_def)
  ultimately show ?thesis using that n by blast
qed

text \<open>The extents of the transaction lie before the previous or behind the next neighbour.\<close>

lemma around_page:
  assumes c: "coalesced es" and n: "(t, p) \<notin> retired_in (set es)" and a: "a \<in> set es" "ex_txn a = t"
  shows "(\<exists>f. floor_extent (RetirementKey t p) es = Some f \<and> ex_txn f = t \<and> ex_stop f \<le> unat p
      \<and> (a = f \<or> ex_stop a < ex_first f))
    \<or> (\<exists>g. ceil_extent (RetirementKey t p) es = Some g \<and> ex_txn g = t \<and> unat p < ex_first g
      \<and> (a = g \<or> ex_stop g < ex_first a))"
proof (cases "ex_first a \<le> unat p")
  case True
  obtain f where f: "floor_extent (RetirementKey t p) es = Some f" "ex_txn f = t" "ex_first f \<le> unat p"
      "a = f \<or> ex_stop a < ex_first f" using floor_neighbour [OF c a True] .
  have "f \<in> set es" using floor_extentD(2) [OF coalescedD(2) [OF c] f(1)] by simp
  hence "ex_stop f \<le> unat p" using n f(2,3) by (force simp: retired_in_def not_less)
  thus ?thesis using f by blast
next
  case False
  hence le: "unat p \<le> ex_first a" by simp
  obtain g where g: "ceil_extent (RetirementKey t p) es = Some g" "ex_txn g = t" "unat p \<le> ex_first g"
      "a = g \<or> ex_stop g < ex_first a" using ceil_neighbour [OF c a le] .
  have s: "g \<in> set es" using ceil_extentD(2) [OF coalescedD(2) [OF c] g(1)] by simp
  hence "ex_first g < ex_stop g" using coalescedD(4) [OF c] by (simp add: extent_ok_def)
  hence "ex_first g \<noteq> unat p" using n g(2) s by (force simp: retired_in_def)
  thus ?thesis using g by force
qed

lemma classify_retired:
  assumes c: "coalesced es"
  shows "(case ceil_extent (RetirementKey t p) es of None \<Rightarrow> False | Some n \<Rightarrow> ex_key n = RetirementKey t p)
      \<or> (case floor_extent (RetirementKey t p) es of None \<Rightarrow> False | Some f \<Rightarrow> ex_txn f = t \<and> unat p < ex_stop f)
    \<longleftrightarrow> (t, p) \<in> retired_in (set es)" (is "?n \<or> ?f \<longleftrightarrow> ?r")
proof
  note d = coalescedD [OF c]
  assume "?n \<or> ?f"
  thus ?r
  proof
    assume ?n
    then obtain n where n: "ceil_extent (RetirementKey t p) es = Some n" "ex_key n = RetirementKey t p"
      by (auto split: option.splits)
    have "n \<in> set es" using ceil_extentD(2) [OF d(2) n(1)] by simp
    moreover have "ex_first n < ex_stop n" using d(4) calculation by (simp add: extent_ok_def)
    ultimately show ?r using n(2) by (force simp: retired_in_def ex_first_def)
  next
    assume ?f
    then obtain f where f: "floor_extent (RetirementKey t p) es = Some f" "ex_txn f = t" "unat p < ex_stop f"
      by (auto split: option.splits)
    have "f \<in> set es" "ex_first f \<le> unat p"
      using floor_extentD(2) [OF d(2) f(1)] key_order(1) [of f t p] f(2) by simp_all
    thus ?r using f by (force simp: retired_in_def)
  qed
next
  assume ?r
  then obtain a where a: "a \<in> set es" "ex_txn a = t" "ex_first a \<le> unat p" "unat p < ex_stop a"
    by (auto simp: retired_in_def)
  obtain f where "floor_extent (RetirementKey t p) es = Some f" "ex_txn f = t" "a = f \<or> ex_stop a < ex_first f" "ex_first f \<le> unat p"
    using floor_neighbour [OF c a(1-3)] .
  thus "?n \<or> ?f" using a(4) by auto
qed

section \<open>Adding a page to the extents\<close>

fun absorbed :: "neighbors \<Rightarrow> extent set" where
  "absorbed Neither = {}"
| "absorbed (PreviousOnly f) = {f}"
| "absorbed (NextOnly n) = {n}"
| "absorbed (BothNeighbors f n) = {f, n}"

fun span :: "nat \<Rightarrow> neighbors \<Rightarrow> nat \<times> nat" where
  "span p Neither = (p, Suc p)"
| "span p (PreviousOnly f) = (ex_first f, Suc p)"
| "span p (NextOnly n) = (p, ex_stop n)"
| "span p (BothNeighbors f n) = (ex_first f, ex_stop n)"

fun joins :: "nat \<Rightarrow> neighbors \<Rightarrow> bool" where
  "joins p Neither \<longleftrightarrow> True"
| "joins p (PreviousOnly f) \<longleftrightarrow> ex_stop f = p"
| "joins p (NextOnly n) \<longleftrightarrow> ex_first n = Suc p"
| "joins p (BothNeighbors f n) \<longleftrightarrow> ex_stop f = p \<and> ex_first n = Suc p"

text \<open>The neighbours of a page that its new extent absorbs; no other extent touches the new one.\<close>

definition fits :: "extent set \<Rightarrow> 64 word \<Rightarrow> nat \<Rightarrow> neighbors \<Rightarrow> bool" where
  "fits A t p nb \<longleftrightarrow> absorbed nb \<subseteq> {a \<in> A. ex_txn a = t} \<and> joins p nb
    \<and> (\<forall>a\<in>A - absorbed nb. ex_txn a = t \<longrightarrow> ex_stop a < fst (span p nb) \<or> snd (span p nb) < ex_first a)"

lemma fits_absorb:
  assumes f: "fits A t (unat p) nb" and a: "apart A" "\<forall>a\<in>A. extent_ok a"
    and e: "ex_txn e = t" "(ex_first e, ex_stop e) = span (unat p) nb"
  shows "apart (A - absorbed nb \<union> {e})" "retired_in (A - absorbed nb \<union> {e}) = insert (t, p) (retired_in A)"
proof -
  have o: "\<forall>a\<in>A - absorbed nb. ex_txn a = t \<longrightarrow> ex_stop a < ex_first e \<or> ex_stop e < ex_first a"
    using f e(2) [symmetric] by (simp add: fits_def)
  show "apart (A - absorbed nb \<union> {e})"
    unfolding apart_def
  proof (intro ballI impI, elim conjE)
    fix b d assume b: "b \<in> A - absorbed nb \<union> {e}" "d \<in> A - absorbed nb \<union> {e}" "b \<noteq> d" "ex_txn b = ex_txn d"
    show "ex_stop b < ex_first d \<or> ex_stop d < ex_first b"
      using a(1) b o e(1) by (cases "b = e"; cases "d = e") (auto simp: apart_def)
  qed
  have s: "absorbed nb \<subseteq> A" "\<forall>a\<in>absorbed nb. ex_txn a = t \<and> ex_first a < ex_stop a"
    using f a(2) by (auto simp: fits_def extent_ok_def)
  have j: "joins (unat p) nb" using f by (simp add: fits_def)
  have "ex_first e \<le> unat q \<and> unat q < ex_stop e \<longleftrightarrow> q = p \<or> (\<exists>a\<in>absorbed nb. ex_first a \<le> unat q \<and> unat q < ex_stop a)" for q
    using j s(2) e(2) unfolding word_unat_eq_iff [of q] by (cases nb) auto
  hence x: "retired_in {e} = insert (t, p) (retired_in (absorbed nb))"
    using s(2) e(1) by (auto simp: retired_in_def)
  have u: "retired_in (B \<union> C) = retired_in B \<union> retired_in C" for B C by (auto simp: retired_in_def)
  have "A = (A - absorbed nb) \<union> absorbed nb" using s(1) by blast
  hence "retired_in A = retired_in (A - absorbed nb) \<union> retired_in (absorbed nb)" by (metis u)
  thus "retired_in (A - absorbed nb \<union> {e}) = insert (t, p) (retired_in A)" unfolding u x by blast
qed

lemma joins_next_iff:
  "Prelude.checked_add p 1 = Some (rk_first (ex_key n)) \<longleftrightarrow> ex_first n = Suc (unat (p :: 32 word))"
  by (simp add: checked_add_Some_iff ex_first_def)

lemma page_below: "ucast (p :: 32 word) < snd (extent_pages e) \<longleftrightarrow> unat p < ex_stop e"
  by (simp add: word_less_nat_alt)

lemma page_behind: "snd (extent_pages e) = ucast (p :: 32 word) \<longleftrightarrow> ex_stop e = unat p"
  by (metis extent_end unat_u32_u64 word_unat_eq_iff)

definition joins_previous :: "64 word \<Rightarrow> nat \<Rightarrow> extent option \<Rightarrow> bool" where
  "joins_previous t p previous \<longleftrightarrow> (\<exists>f. previous = Some f \<and> ex_txn f = t \<and> ex_stop f = p)"

definition joins_next :: "64 word \<Rightarrow> nat \<Rightarrow> extent option \<Rightarrow> bool" where
  "joins_next t p next \<longleftrightarrow> (\<exists>g. next = Some g \<and> ex_txn g = t \<and> ex_first g = Suc p)"

lemma classify_neighbors_cases:
  "classify_neighbors (RetirementKey t p) previous next =
    (if (case next of None \<Rightarrow> False | Some n \<Rightarrow> ex_key n = RetirementKey t p)
        \<or> (case previous of None \<Rightarrow> False | Some f \<Rightarrow> ex_txn f = t \<and> unat p < ex_stop f)
     then Inl (Corrupt ''page is already retired'')
     else Inr (if joins_previous t (unat p) previous then
                 if joins_next t (unat p) next then BothNeighbors (the previous) (the next) else PreviousOnly (the previous)
               else if joins_next t (unat p) next then NextOnly (the next) else Neither))"
  by (cases previous; cases "next")
    (simp_all add: classify_neighbors_def joins_previous_def joins_next_def joins_next_iff page_below page_behind Let_def
      split: bool.splits)

lemma fits_neighbours:
  assumes c: "coalesced es" and n: "(t, p) \<notin> retired_in (set es)"
    and f: "f = floor_extent (RetirementKey t p) es" and g: "g = ceil_extent (RetirementKey t p) es"
  shows "fits (set es) t (unat p) (if joins_previous t (unat p) f then
      if joins_next t (unat p) g then BothNeighbors (the f) (the g) else PreviousOnly (the f)
    else if joins_next t (unat p) g then NextOnly (the g) else Neither)" (is "fits _ _ _ ?nb")
proof -
  note d = coalescedD [OF c]
  have sf: "x \<in> set es" if "f = Some x" for x using floor_extentD(2) [OF d(2)] that f by metis
  have sg: "x \<in> set es" if "g = Some x" for x using ceil_extentD(2) [OF d(2)] that g by metis
  have ok: "ex_first a < ex_stop a" if "a \<in> set es" for a using d(4) that by (simp add: extent_ok_def)
  have j: "absorbed ?nb \<subseteq> {a \<in> set es. ex_txn a = t}" "joins (unat p) ?nb"
    using sf sg by (auto simp: joins_previous_def joins_next_def)
  have "ex_stop a < fst (span (unat p) ?nb) \<or> snd (span (unat p) ?nb) < ex_first a"
    if a: "a \<in> set es" "a \<notin> absorbed ?nb" "ex_txn a = t" for a
  proof -
    from around_page [OF c n a(1,3)] show ?thesis
    proof
      assume "\<exists>f. floor_extent (RetirementKey t p) es = Some f \<and> ex_txn f = t \<and> ex_stop f \<le> unat p \<and> (a = f \<or> ex_stop a < ex_first f)"
      then obtain x where x: "floor_extent (RetirementKey t p) es = Some x" "ex_txn x = t" "ex_stop x \<le> unat p" "a = x \<or> ex_stop a < ex_first x"
        by blast
      have fx: "f = Some x" "joins_previous t (unat p) f \<longleftrightarrow> ex_stop x = unat p" "ex_first x < ex_stop x"
        using x f ok sf by (auto simp: joins_previous_def)
      have "ex_stop a < fst (span (unat p) ?nb)"
        using a(2) fx x(3,4) by (cases "joins_previous t (unat p) f"; cases "joins_next t (unat p) g") auto
      thus ?thesis ..
    next
      assume "\<exists>g. ceil_extent (RetirementKey t p) es = Some g \<and> ex_txn g = t \<and> unat p < ex_first g \<and> (a = g \<or> ex_stop g < ex_first a)"
      then obtain x where x: "ceil_extent (RetirementKey t p) es = Some x" "ex_txn x = t" "unat p < ex_first x" "a = x \<or> ex_stop x < ex_first a"
        by blast
      have gx: "g = Some x" "joins_next t (unat p) g \<longleftrightarrow> ex_first x = Suc (unat p)" "ex_first x < ex_stop x"
        using x g ok sg by (auto simp: joins_next_def)
      have "snd (span (unat p) ?nb) < ex_first a"
        using a(2) gx x(3,4) by (cases "joins_previous t (unat p) f"; cases "joins_next t (unat p) g") auto
      thus ?thesis ..
    qed
  qed
  thus ?thesis using j unfolding fits_def by blast
qed

lemma classify_fits:
  assumes c: "coalesced es"
  shows "(t, p) \<in> retired_in (set es) \<Longrightarrow>
      classify_neighbors (RetirementKey t p) (floor_extent (RetirementKey t p) es) (ceil_extent (RetirementKey t p) es)
        = Inl (Corrupt ''page is already retired'')"
    and "(t, p) \<notin> retired_in (set es) \<Longrightarrow>
      \<exists>nb. classify_neighbors (RetirementKey t p) (floor_extent (RetirementKey t p) es) (ceil_extent (RetirementKey t p) es) = Inr nb
        \<and> fits (set es) t (unat p) nb"
  unfolding classify_neighbors_cases classify_retired [OF c] using fits_neighbours [OF c _ refl refl] by auto

text \<open>The extent that takes the place of the absorbed ones.\<close>

fun new_extent :: "retirement_key \<Rightarrow> neighbors \<Rightarrow> extent" where
  "new_extent key Neither = \<lparr> ex_key = key, ex_count = 1 \<rparr>"
| "new_extent key (PreviousOnly f) = \<lparr> ex_key = ex_key f, ex_count = ex_count f + 1 \<rparr>"
| "new_extent key (NextOnly n) = \<lparr> ex_key = key, ex_count = ex_count n + 1 \<rparr>"
| "new_extent key (BothNeighbors f n) = \<lparr> ex_key = ex_key f, ex_count = ex_count f + 1 + ex_count n \<rparr>"

lemma grow_ok:
  assumes "unat x + unat y < 2 ^ 32"
  shows "retirement_grow x y = Inr (x + y)" "unat (x + y) = unat x + unat y"
  using assms by (simp_all add: retirement_grow_def Prelude.checked_add_def unat_word_ariths)

lemma new_extent_ok:
  assumes c: "coalesced es" and f: "fits (set es) t (unat p) nb" and tp: "1 < t" "2 \<le> p"
  shows "extent_ok (new_extent (RetirementKey t p) nb)" "ex_txn (new_extent (RetirementKey t p) nb) = t"
    "(ex_first (new_extent (RetirementKey t p) nb), ex_stop (new_extent (RetirementKey t p) nb)) = span (unat p) nb"
    "nb = PreviousOnly g \<Longrightarrow> retirement_grow (ex_count g) 1 = Inr (ex_count g + 1)"
    "nb = NextOnly g \<Longrightarrow> retirement_grow (ex_count g) 1 = Inr (ex_count g + 1)"
    "nb = BothNeighbors g h \<Longrightarrow> retirement_grow (ex_count g) 1 = Inr (ex_count g + 1)
      \<and> retirement_grow (ex_count g + 1) (ex_count h) = Inr (ex_count g + 1 + ex_count h)"
proof -
  have p: "2 \<le> unat p" "unat p < 2 ^ 32" using tp(2) unat_word_less [of p] by (simp_all add: word_le_nat_alt)
  have ab: "extent_ok a \<and> ex_txn a = t" if "a \<in> absorbed nb" for a
    using f that coalescedD(4) [OF c] by (auto simp: fits_def)
  have j: "joins (unat p) nb" using f by (simp add: fits_def)
  have b: "unat (ex_count a) + ex_first a = ex_stop a" for a by (simp add: ex_stop_def)
  have gp: "retirement_grow (ex_count g) 1 = Inr (ex_count g + 1) \<and> unat (ex_count g + 1) = Suc (unat (ex_count g))"
    if "nb = PreviousOnly g \<or> (\<exists>h. nb = BothNeighbors g h)" for g
  proof -
    have "unat (ex_count g) + 1 < 2 ^ 32" using that ab [of g] j b [of g] p by (auto simp: extent_ok_def)
    thus ?thesis using grow_ok [of "ex_count g" 1] by simp
  qed
  have gn: "retirement_grow (ex_count g) 1 = Inr (ex_count g + 1) \<and> unat (ex_count g + 1) = Suc (unat (ex_count g))"
    if "nb = NextOnly g" for g
  proof -
    have "unat (ex_count g) + 1 < 2 ^ 32" using that ab [of g] j b [of g] p by (auto simp: extent_ok_def)
    thus ?thesis using grow_ok [of "ex_count g" 1] by simp
  qed
  have gb: "retirement_grow (ex_count g + 1) (ex_count h) = Inr (ex_count g + 1 + ex_count h)
      \<and> unat (ex_count g + 1 + ex_count h) = Suc (unat (ex_count g)) + unat (ex_count h)"
    if "nb = BothNeighbors g h" for g h
  proof -
    have "unat (ex_count g + 1) + unat (ex_count h) < 2 ^ 32"
      using gp [of g] that ab [of g] ab [of h] j b [of g] b [of h] p by (auto simp: extent_ok_def)
    thus ?thesis using grow_ok [of "ex_count g + 1" "ex_count h"] gp [of g] that by auto
  qed
  show sp: "(ex_first (new_extent (RetirementKey t p) nb), ex_stop (new_extent (RetirementKey t p) nb)) = span (unat p) nb"
    using j gp gn gb by (cases nb) (auto simp: ex_stop_def ex_first_def)
  show tx: "ex_txn (new_extent (RetirementKey t p) nb) = t" using ab by (cases nb) auto
  have "2 \<le> fst (span (unat p) nb) \<and> fst (span (unat p) nb) < snd (span (unat p) nb) \<and> snd (span (unat p) nb) \<le> 2 ^ 32"
  proof -
    have "\<forall>a\<in>absorbed nb. 2 \<le> ex_first a \<and> ex_first a < ex_stop a \<and> ex_stop a \<le> 2 ^ 32" using ab by (simp add: extent_ok_def)
    thus ?thesis using j p by (cases nb) auto
  qed
  thus "extent_ok (new_extent (RetirementKey t p) nb)" using sp [symmetric] tx tp(1) by (simp add: extent_ok_def)
  show "nb = PreviousOnly g \<Longrightarrow> retirement_grow (ex_count g) 1 = Inr (ex_count g + 1)"
    "nb = NextOnly g \<Longrightarrow> retirement_grow (ex_count g) 1 = Inr (ex_count g + 1)"
    "nb = BothNeighbors g h \<Longrightarrow> retirement_grow (ex_count g) 1 = Inr (ex_count g + 1)
      \<and> retirement_grow (ex_count g + 1) (ex_count h) = Inr (ex_count g + 1 + ex_count h)"
    using gp gn gb by auto
qed

section \<open>Extents in a tree\<close>

lemma extent_keys [simp]: "extent_ok e \<Longrightarrow> key_of retirement_cells (extent_cell e) = ex_key e"
  "extent_ok e \<Longrightarrow> leaf_of retirement_cells (extent_cell e) = e" "extent_ok e \<Longrightarrow> leaf_ok retirement_cells (extent_cell e)"
  by (simp_all add: read_leaf_cell)

lemma filter_extents:
  assumes "list_all extent_ok es"
  shows "filter (\<lambda>c. Q (key_of retirement_cells c)) (map extent_cell es) = map extent_cell (filter (\<lambda>e. Q (ex_key e)) es)"
  using assms by (induction es) (simp_all del: retirement_cells_simps)

lemma ordered_extents:
  assumes "list_all extent_ok es"
  shows "ordered retirement_cells (map extent_cell es) \<longleftrightarrow> sorted_wrt (<) (map ex_key es)"
proof -
  have "map (key_of retirement_cells) (map extent_cell es) = map ex_key es"
    using assms by (simp add: list_all_iff del: retirement_cells_simps)
  thus ?thesis unfolding ordered_def by metis
qed

lemma put_extent_cells:
  assumes "list_all extent_ok es"
  shows "put_cells retirement_cells key (map extent_cell new) (map extent_cell es) = map extent_cell (put_extents key new es)"
  using filter_extents [OF assms, of "\<lambda>k. k < key"] filter_extents [OF assms, of "\<lambda>k. key < k"]
  by (simp add: put_cells_def put_extents_def del: retirement_cells_simps)

lemma has_key_extents:
  assumes "list_all extent_ok es"
  shows "has_key retirement_cells key (map extent_cell es) \<longleftrightarrow> key \<in> ex_key ` set es"
proof -
  have "key_of retirement_cells ` set (map extent_cell es) = ex_key ` set es"
    using assms by (auto simp: list_all_iff image_iff simp del: retirement_cells_simps)
  thus ?thesis unfolding has_key_def by metis
qed

lemma floor_cell_extent:
  assumes "list_all extent_ok es"
  shows "map_option (leaf_of retirement_cells) (floor_cell retirement_cells key (map extent_cell es)) = floor_extent key es"
proof -
  have "list_all extent_ok (filter (\<lambda>e. ex_key e \<le> key) es)" using assms by (simp add: list_all_iff)
  thus ?thesis
    using filter_extents [OF assms, of "\<lambda>k. k \<le> key"] unfolding floor_cell_def floor_extent_def
    by (cases "filter (\<lambda>e. ex_key e \<le> key) es" rule: rev_cases) (simp_all del: retirement_cells_simps)
qed

lemma ceil_cell_extent:
  assumes "list_all extent_ok es"
  shows "map_option (leaf_of retirement_cells) (ceil_cell retirement_cells key (map extent_cell es)) = ceil_extent key es"
proof -
  have "list_all extent_ok (filter (\<lambda>e. key \<le> ex_key e) es)" using assms by (simp add: list_all_iff)
  thus ?thesis
    using filter_extents [OF assms, of "\<lambda>k. key \<le> k"] unfolding ceil_cell_def ceil_extent_def
    by (cases "filter (\<lambda>e. key \<le> ex_key e) es") (simp_all del: retirement_cells_simps)
qed

text \<open>The tree reached from a store \<open>st\<close> and its pages \<open>P\<close> with at most \<open>r\<close> new pages.\<close>

abbreviation retirement_in :: "'s store_view \<Rightarrow> 's \<Rightarrow> 32 word \<Rightarrow> 32 word set \<Rightarrow> nat \<Rightarrow> extent list \<Rightarrow> bool" where
  "retirement_in V st root P l es \<equiv> tree_in retirement_codec retirement_cells V st root P l (map extent_cell es)"

definition retirement_at :: "'s store_view \<Rightarrow> 's \<Rightarrow> 32 word set \<Rightarrow> nat \<Rightarrow> 's retirement \<Rightarrow> nat \<Rightarrow> extent list \<Rightarrow> bool" where
  "retirement_at V st P r t l es \<longleftrightarrow> (case t of (st', root, extent_count, retired) \<Rightarrow>
    unat extent_count = length es \<and> list_all extent_ok es \<and> sorted_wrt (<) (map ex_key es)
    \<and> (\<exists>P'. op_done retirement_codec retirement_cells V st P r st' root l (map extent_cell es) P' retired))"

lemma op_done_mono: "op_done C X V st P r st' root l xs P' rt \<Longrightarrow> r \<le> r' \<Longrightarrow> op_done C X V st P r' st' root l xs P' rt"
  by (auto simp: op_done_def)

lemma retired_extend_ok: "length ret + length rt \<le> MAX_PATH + 1 \<Longrightarrow> retired_extend ret rt = Inr (ret @ rt)"
  unfolding retired_extend_def
proof (induction rt arbitrary: ret)
  case (Cons n rt)
  have "retired_push ret n = Inr (ret @ [n])" using Cons.prems by (simp add: retired_push_def)
  thus ?case using Cons by simp
qed simp

context retirement_store
begin

lemma retirement_insert_ok:
  assumes t: "retirement_at V st P r t l es" and e: "extent_ok e" and n: "length es < 2 ^ 64 - 1" and m: "r + l \<le> MAX_PATH"
  shows "rwp (retirement_insert S t e)
    (\<lambda>t'. \<exists>L. retirement_at V st P (r + (2 * l + 3)) t' L (put_extents (ex_key e) [e] es))
    (room V st < r + (2 * l + 3) \<or> l = MAX_PATH)" (is "rwp _ ?Q ?E")
proof -
  obtain st1 root cnt ret where t': "t = (st1, root, cnt, ret)" by (cases t)
  obtain P1 where d: "op_done retirement_codec retirement_cells V st P r st1 root l (map extent_cell es) P1 ret"
    and c: "unat cnt = length es" "list_all extent_ok es" "sorted_wrt (<) (map ex_key es)"
    using t t' by (auto simp: retirement_at_def)
  have tr: "retirement_in V st1 root P1 l es" and rm: "room V st \<le> room V st1 + r" and rl: "length ret \<le> r"
    using d by (auto simp: op_done_def)
  note put = put_extent_cells [OF c(2), of "ex_key e" "[e]", simplified list.map]
  let ?es = "put_extents (ex_key e) [e] es"
  have es: "list_all extent_ok ?es" "sorted_wrt (<) (map ex_key ?es)"
    using c(2) e sorted_put [OF c(3), of "[e]" e] by (auto simp: set_put_extents list_all_iff)
  have len: "length ?es + of_bool (ex_key e \<in> ex_key ` set es) = Suc (length es)"
    using length_put_extents [OF c(3), of "ex_key e" "[e]"] by simp
  let ?done = "\<lambda>st' root' L P' rt. op_done retirement_codec retirement_cells V st P (r + (2 * l + 3)) st' root' L (map extent_cell ?es) P' rt"
  have ins: "rwp (insert_leaf retirement_codec S st1 root (extent_cell e) ret)
      (\<lambda>(st', root', rt, ins). (\<exists>L P'. ?done st' root' L P' rt) \<and> (ins \<longleftrightarrow> ex_key e \<notin> ex_key ` set es)) ?E"
  proof (rule insert_in_onto [OF tr])
    show "ordered retirement_cells (map extent_cell es)" using ordered_extents [OF c(2)] c(3) by simp
    show "leaf_ok retirement_cells (extent_cell e)" by (rule extent_keys(3) [OF e])
    show "?E" if "room V st1 < 2 * l + 3 \<or> l = MAX_PATH" using that rm by auto
    show "ret = [] \<or> length ret + l \<le> MAX_PATH" using m rl by auto
    fix st' root' L P' rt
    assume "op_done retirement_codec retirement_cells V st1 P1 (2 * l + 3) st' root' L
        (put_cells retirement_cells (key_of retirement_cells (extent_cell e)) [extent_cell e] (map extent_cell es)) P' rt"
    hence "op_done retirement_codec retirement_cells V st1 P1 (2 * l + 3) st' root' L (map extent_cell ?es) P' rt"
      unfolding extent_keys(1) [OF e] put .
    from op_done_trans [OF d this]
    show "case (st', root', ret @ rt, \<not> has_key retirement_cells (key_of retirement_cells (extent_cell e)) (map extent_cell es)) of
      (st', root', rt, ins) \<Rightarrow> (\<exists>L P'. ?done st' root' L P' rt) \<and> (ins \<longleftrightarrow> ex_key e \<notin> ex_key ` set es)"
      unfolding extent_keys(1) [OF e] has_key_extents [OF c(2)] by auto
  qed
  have fin: "rwp (if ins then rbind (ok_or (ArithmeticOverflow ''retirement extent count'') (Prelude.checked_add cnt 1))
        (\<lambda>cnt. Inr (st', root', cnt, rt)) else Inr (st', root', cnt, rt)) ?Q ?E"
    if "?done st' root' L P' rt" "ins \<longleftrightarrow> ex_key e \<notin> ex_key ` set es" for st' root' L P' rt ins
  proof -
    have "unat (cnt + 1) = Suc (length es)" "Prelude.checked_add cnt 1 = Some (cnt + 1)"
      using c(1) n by (simp_all add: unat_word_ariths Prelude.checked_add_def)
    thus ?thesis using that es len c(1) by (auto simp: retirement_at_def)
  qed
  show ?thesis
    unfolding t' retirement_insert_def encoded_extent_ok rwp_rbind split rwp_Inr rbind.simps
    by (rule rwp_mono [OF ins]) (auto intro: fin)
qed

lemma retirement_remove_ok:
  assumes t: "retirement_at V st P r t l es" and k: "key \<in> ex_key ` set es" and m: "r + l \<le> MAX_PATH"
  shows "rwp (retirement_remove S t key) (\<lambda>t'. \<exists>L\<le>l. retirement_at V st P (r + Suc l) t' L (put_extents key [] es))
    (room V st < r + Suc l)" (is "rwp _ ?Q ?E")
proof -
  obtain st1 root cnt ret where t': "t = (st1, root, cnt, ret)" by (cases t)
  obtain P1 where d: "op_done retirement_codec retirement_cells V st P r st1 root l (map extent_cell es) P1 ret"
    and c: "unat cnt = length es" "list_all extent_ok es" "sorted_wrt (<) (map ex_key es)"
    using t t' by (auto simp: retirement_at_def)
  have tr: "retirement_in V st1 root P1 l es" and rm: "room V st \<le> room V st1 + r" and rl: "length ret \<le> r"
    using d by (auto simp: op_done_def)
  note put = put_extent_cells [OF c(2), of key "[]", simplified list.map]
  let ?es = "put_extents key [] es"
  have es: "list_all extent_ok ?es" "sorted_wrt (<) (map ex_key ?es)"
    using c(2) sorted_put [OF c(3), of "[]"] by (auto simp: set_put_extents list_all_iff)
  have len: "Suc (length ?es) = length es" using length_put_extents [OF c(3), of key "[]"] k by simp
  have cnt: "Prelude.checked_sub cnt 1 = Some (cnt - 1)" "unat (cnt - 1) = length ?es"
    using c(1) len checked_sub_Some_iff [of cnt 1 "cnt - 1"] by (auto simp: unat_sub word_le_nat_alt)
  show ?thesis
    unfolding t' retirement_remove_def split rwp_rbind
  proof (rule delete_in_ok [OF tr])
    show "ordered retirement_cells (map extent_cell es)" using ordered_extents [OF c(2)] c(3) by simp
    show "has_key retirement_cells key (map extent_cell es)" using k has_key_extents [OF c(2)] by simp
    show "?E" if "room V st1 < Suc l" using that rm by auto
    fix st' root' L P' rt
    assume o: "op_done retirement_codec retirement_cells V st1 P1 (Suc l) st' root' L
        (put_cells retirement_cells key [] (map extent_cell es)) P' rt" and L: "L \<le> l"
    have "retired_extend ret rt = Inr (ret @ rt)"
      using o rl m by (intro retired_extend_ok) (auto simp: op_done_def)
    thus "rwp (case (st', root', rt) of (st, root, removed) \<Rightarrow> rbind (retired_extend ret removed) (\<lambda>retired.
        rbind (ok_or (ArithmeticOverflow ''retirement extent count'') (Prelude.checked_sub cnt 1))
          (\<lambda>extent_count. Inr (st, root, extent_count, retired)))) ?Q ?E"
      using op_done_trans [OF d o [unfolded put]] es cnt L by (auto simp: retirement_at_def)
  qed
qed

lemma insert_new_ok:
  assumes t: "retirement_at V st P r t' L es'" "r \<le> 2 * Suc l" "L \<le> l" "length es' \<le> length es"
    and c: "coalesced es" and n: "length es < 2 ^ 64 - 1" and f: "fits (set es) t (unat p) nb"
    and e: "e = new_extent (RetirementKey t p) nb" and tp: "1 < t" "2 \<le> p" and m: "3 * l + 2 \<le> MAX_PATH"
    and s: "{a \<in> set es'. ex_key a \<noteq> ex_key e} = set es - absorbed nb"
  shows "rwp (retirement_insert S t' e) (\<lambda>t'. \<exists>L es'. retirement_at V st P (4 * l + 5) t' L es'
      \<and> coalesced es' \<and> retired_in (set es') = insert (t, p) (retired_in (set es))) (room V st < 4 * l + 5)"
    (is "rwp _ ?Q ?E")
proof -
  note d = coalescedD [OF c] and o = new_extent_ok [OF c f tp, folded e]
  have "\<forall>a\<in>set es. extent_ok a" using d(4) by blast
  note a = fits_absorb [OF f d(3) this o(2,3)]
  let ?es = "put_extents (ex_key e) [e] es'"
  have es: "set ?es = set es - absorbed nb \<union> {e}" using s by (simp add: set_put_extents)
  show ?thesis
  proof (rule rwp_mono [OF retirement_insert_ok [OF t(1) o(1)]])
    show "length es' < 2 ^ 64 - 1" "r + L \<le> MAX_PATH" using t n m by simp_all
    show "?E" if "room V st < r + (2 * L + 3) \<or> L = MAX_PATH" using that t(2,3) m by auto
    fix t''
    assume "\<exists>L'. retirement_at V st P (r + (2 * L + 3)) t'' L' ?es"
    then obtain L' where r: "retirement_at V st P (r + (2 * L + 3)) t'' L' ?es" by blast
    have "retirement_at V st P (4 * l + 5) t'' L' ?es"
      using r op_done_mono [of _ _ _ _ _ "r + (2 * L + 3)" _ _ _ _ _ _ "4 * l + 5"] t(2,3)
      unfolding retirement_at_def by (fastforce split: prod.splits)
    moreover have "coalesced ?es" using r a(1) es by (auto simp: coalesced_def retirement_at_def split: prod.splits)
    ultimately show "?Q t''" using a(2) es by (intro exI [of _ L'] exI [of _ ?es]) simp
  qed
qed

text \<open>The tree operations of each case of the neighbours leave exactly the new extents.\<close>

lemma apply_page_ok:
  assumes t: "retirement_at V st P 0 (st, root, cnt, []) l es" and c: "coalesced es" and n: "length es < 2 ^ 64 - 1"
    and f: "fits (set es) t (unat p) nb" and tp: "1 < t" "2 \<le> p" "(t, p) \<notin> retired_in (set es)" and m: "3 * l + 2 \<le> MAX_PATH"
  shows "rwp (apply_page S st root cnt (RetirementKey t p) nb) (\<lambda>t'. \<exists>L es'. retirement_at V st P (4 * l + 5) t' L es'
      \<and> coalesced es' \<and> retired_in (set es') = insert (t, p) (retired_in (set es))) (room V st < 4 * l + 5)"
    (is "rwp _ ?Q ?E")
proof -
  note ins = insert_new_ok [OF _ _ _ _ c n f refl tp(1,2) m] and gr = new_extent_ok(4-6) [OF c f tp(1,2)]
  have keys: "a = b" if "a \<in> set es" "b \<in> set es" "ex_key a = ex_key b" for a b
    using coalescedD(2) [OF c] that by (auto simp: strict_sorted_iff distinct_map inj_on_def)
  have k: "ex_key a \<noteq> RetirementKey t p" if "a \<in> set es" for a
    using tp(3) that coalescedD(4) [OF c that] by (auto simp: retired_in_def ex_first_def extent_ok_def)
  have ab: "a \<in> set es" if "a \<in> absorbed nb" for a using f that by (auto simp: fits_def)
  have len: "length (put_extents key [] xs) \<le> length xs" if "sorted_wrt (<) (map ex_key xs)" for key xs
    using length_put_extents [OF that, of key "[]"] by simp
  show ?thesis
  proof (cases nb)
    case Neither
    thus ?thesis using ins [OF t] k by (auto simp: apply_page_def insert_single_def)
  next
    case (PreviousOnly g)
    thus ?thesis using ins [OF t] gr(1) keys ab by (auto simp: apply_page_def extend_previous_def)
  next
    case (NextOnly g)
    let ?e = "new_extent (RetirementKey t p) nb" and ?es = "put_extents (ex_key g) [] es"
    have g: "g \<in> set es" using ab NextOnly by simp
    have i: "rwp (retirement_insert S t1 ?e) ?Q ?E" if "retirement_at V st P (Suc l) t1 L ?es" "L \<le> l" for t1 L
      by (rule ins [OF that(1) _ that(2)])
        (use len [OF coalescedD(2) [OF c]] k keys g NextOnly in \<open>auto simp: set_put_extents\<close>)
    have "rwp (retirement_remove S (st, root, cnt, []) (ex_key g)) (\<lambda>t1. rwp (retirement_insert S t1 ?e) ?Q ?E) ?E"
      by (rule rwp_mono [OF retirement_remove_ok [OF t]]) (use g m i in auto)
    thus ?thesis using NextOnly gr(2) by (simp add: apply_page_def extend_next_def rwp_rbind)
  next
    case (BothNeighbors g h)
    let ?e = "new_extent (RetirementKey t p) nb" and ?es = "put_extents (ex_key g) [] es"
    let ?es2 = "put_extents (ex_key h) [] ?es"
    have gh: "g \<in> set es" "h \<in> set es" "g \<noteq> h" using ab f BothNeighbors coalescedD(4) [OF c, of h]
      by (auto simp: fits_def extent_ok_def)
    have hk: "ex_key h \<in> ex_key ` set ?es" using gh keys by (auto simp: set_put_extents)
    have i: "rwp (retirement_insert S t2 ?e) ?Q ?E"
      if r: "retirement_at V st P r t2 L ?es2" "r \<le> 2 * Suc l" "L \<le> l" for r t2 L
    proof (rule ins [OF r])
      show "length ?es2 \<le> length es"
        using len [of ?es] len [OF coalescedD(2) [OF c]] sorted_put [OF coalescedD(2) [OF c], of "[]"] le_trans by blast
      show "{a \<in> set ?es2. ex_key a \<noteq> ex_key ?e} = set es - absorbed nb"
        using keys gh BothNeighbors by (auto simp: set_put_extents)
    qed
    have "rwp (retirement_remove S t1 (ex_key h)) (\<lambda>t2. rwp (retirement_insert S t2 ?e) ?Q ?E) ?E"
      if "retirement_at V st P (Suc l) t1 L ?es" "L \<le> l" for t1 L
      by (rule rwp_mono [OF retirement_remove_ok [OF that(1) hk]]) (use that(2) m i in auto)
    hence "rwp (retirement_remove S (st, root, cnt, []) (ex_key g))
        (\<lambda>t1. rwp (retirement_remove S t1 (ex_key h)) (\<lambda>t2. rwp (retirement_insert S t2 ?e) ?Q ?E) ?E) ?E"
      using gh(1) m by (intro rwp_mono [OF retirement_remove_ok [OF t]]) auto
    thus ?thesis using BothNeighbors gr(3) by (simp add: apply_page_def bridge_def rwp_rbind)
  qed
qed

lemma add_page_ok:
  assumes t: "retirement_in V st root P l es" and c: "coalesced es" and n: "unat cnt = length es" "length es < 2 ^ 64 - 1"
    and tp: "1 < t" "2 \<le> p" and m: "3 * l + 2 \<le> MAX_PATH"
  shows "(t, p) \<in> retired_in (set es) \<Longrightarrow> add_page S st root cnt t p = Inl (Corrupt ''page is already retired'')"
    and "(t, p) \<notin> retired_in (set es) \<Longrightarrow>
      rwp (add_page S st root cnt t p) (\<lambda>t'. \<exists>L es'. retirement_at V st P (4 * l + 5) t' L es'
        \<and> coalesced es' \<and> retired_in (set es') = insert (t, p) (retired_in (set es))) (room V st < 4 * l + 5)"
proof -
  note d = coalescedD [OF c]
  have o: "ordered retirement_cells (map extent_cell es)" using ordered_extents [OF d(1)] d(2) by simp
  have f: "retirement_predecessor S st root key = Inr (floor_extent key es)" for key
    using store_predecessor_ok [OF t o, of key] floor_cell_extent [OF d(1), of key] by (simp add: retirement_predecessor_def)
  have g: "retirement_at_or_after S st root key = Inr (ceil_extent key es)" for key
    using store_at_or_after_ok [OF t o, of key] ceil_cell_extent [OF d(1), of key] by (simp add: retirement_at_or_after_def)
  have a: "add_page S st root cnt t p = rbind (classify_neighbors (RetirementKey t p) (floor_extent (RetirementKey t p) es)
      (ceil_extent (RetirementKey t p) es)) (apply_page S st root cnt (RetirementKey t p))"
    using tp by (simp add: add_page_def f g Let_def not_le [symmetric])
  show "(t, p) \<in> retired_in (set es) \<Longrightarrow> add_page S st root cnt t p = Inl (Corrupt ''page is already retired'')"
    using classify_fits(1) [OF c] a by simp
  have r: "retirement_at V st P 0 (st, root, cnt, []) l es"
    using t n d by (auto simp: retirement_at_def op_done_def keeps_def intro!: exI [of _ P])
  assume no: "(t, p) \<notin> retired_in (set es)"
  obtain nb where nb: "classify_neighbors (RetirementKey t p) (floor_extent (RetirementKey t p) es)
      (ceil_extent (RetirementKey t p) es) = Inr nb" "fits (set es) t (unat p) nb" using classify_fits(2) [OF c no] by blast
  show "rwp (add_page S st root cnt t p) (\<lambda>t'. \<exists>L es'. retirement_at V st P (4 * l + 5) t' L es'
        \<and> coalesced es' \<and> retired_in (set es') = insert (t, p) (retired_in (set es))) (room V st < 4 * l + 5)"
    using apply_page_ok [OF r c n(2) nb(2) tp no m] a nb(1) by simp
qed

end

section \<open>Retiring a page in a workspace\<close>

lemma empty_retirement: "ws_ok ws \<Longrightarrow> retirement_in workspace_view ws 0 {} 0 []"
  by (simp add: tree_in_def)

lemma empty_coalesced: "coalesced []" "retired_in {} = {}"
  by (simp_all add: coalesced_def apart_def retired_in_def)

text \<open>A page appears in exactly one extent.\<close>

definition pages_once :: "extent list \<Rightarrow> bool" where
  "pages_once es \<longleftrightarrow> (\<forall>a\<in>set es. \<forall>b\<in>set es. a \<noteq> b \<longrightarrow> {ex_first a..<ex_stop a} \<inter> {ex_first b..<ex_stop b} = {})"

lemma pages_once_inj:
  assumes c: "coalesced es"
  shows "pages_once es \<longleftrightarrow> inj_on snd (retired_in (set es))"
proof
  assume o: "pages_once es"
  show "inj_on snd (retired_in (set es))"
  proof (rule inj_onI, clarsimp simp: retired_in_def)
    fix p a b assume "a \<in> set es" "b \<in> set es" "ex_first a \<le> unat p" "unat p < ex_stop a" "ex_first b \<le> unat p" "unat p < ex_stop b"
    hence "a = b" using o unfolding pages_once_def by (metis IntI atLeastLessThan_iff empty_iff)
    thus "ex_txn a = ex_txn b" by simp
  qed
next
  assume j: "inj_on snd (retired_in (set es))"
  have False if ab: "a \<in> set es" "b \<in> set es" "a \<noteq> b" and i: "i \<in> {ex_first a..<ex_stop a}" "i \<in> {ex_first b..<ex_stop b}" for a b i
  proof -
    have "i < 2 ^ 32" using i(1) coalescedD(4) [OF c ab(1)] by (simp add: extent_ok_def)
    hence u: "unat (of_nat i :: 32 word) = i" by (simp add: unat_of_nat)
    hence "(ex_txn a, of_nat i :: 32 word) \<in> retired_in (set es)" "(ex_txn b, of_nat i :: 32 word) \<in> retired_in (set es)"
      using ab i by (auto simp: retired_in_def)
    hence "ex_txn a = ex_txn b" using inj_onD [OF j, of "(ex_txn a, of_nat i)" "(ex_txn b, of_nat i)"] by simp
    thus False using coalescedD(3) [OF c] ab i by (fastforce simp: apart_def)
  qed
  thus "pages_once es" unfolding pages_once_def by blast
qed

text \<open>C19. Retiring a page for a transaction fails when that transaction has retired it already; otherwise, in a
  workspace with room for it, it returns a tree whose extents stand for the old set of retired pages and the new one,
  still sorted, valid, merged wherever they touch and exactly counted, and no other page of the workspace is lost
  or changed. If every page appeared in exactly one extent before, this holds afterwards exactly when no transaction had
  retired the page: the code looks at the extents of the same transaction only, and its callers retire a page
  once.\<close>

theorem add_page_extends_set:
  assumes "retirement_in workspace_view ws root P l es" "coalesced es" "unat n = length es" "length es < 2 ^ 64 - 1"
    and "1 < t" "2 \<le> p" "3 * l + 2 \<le> MAX_PATH" "4 * l + 5 \<le> ws_room ws" "pages_once es"
  shows "if (t, p) \<in> retired_in (set es) then add_page workspace_ops ws root n t p = Inl (Corrupt ''page is already retired'')
    else \<exists>ws' root' n' rt P' L es'. add_page workspace_ops ws root n t p = Inr (ws', root', n', rt)
      \<and> retirement_in workspace_view ws' root' P' L es' \<and> coalesced es' \<and> unat n' = length es'
      \<and> retired_in (set es') = insert (t, p) (retired_in (set es))
      \<and> (pages_once es' \<longleftrightarrow> p \<notin> snd ` retired_in (set es))
      \<and> keeps (ws_heap ws) (ws_heap ws') (- P) \<and> hp_own (ws_heap ws') - set rt - P' = hp_own (ws_heap ws) - P"
proof (cases "(t, p) \<in> retired_in (set es)")
  case True
  thus ?thesis using rws.add_page_ok(1) [OF assms(1-7)] by simp
next
  case False
  have "\<not> room workspace_view ws < 4 * l + 5" using assms(8) by simp
  with rws.add_page_ok(2) [OF assms(1-7) False] obtain t' L es' where a: "add_page workspace_ops ws root n t p = Inr t'"
      "retirement_at workspace_view ws P (4 * l + 5) t' L es'" "coalesced es'"
      "retired_in (set es') = insert (t, p) (retired_in (set es))"
    by (auto simp: rwp_def split: sum.splits)
  have "inj_on snd (retired_in (set es))" using assms(9) pages_once_inj [OF assms(2)] by simp
  hence o: "pages_once es' \<longleftrightarrow> p \<notin> snd ` retired_in (set es)"
    unfolding pages_once_inj [OF a(3)] a(4) inj_on_insert using False by simp
  obtain ws' root' n' rt where t': "t' = (ws', root', n', rt)" by (cases t')
  obtain P' where d: "op_done retirement_codec retirement_cells workspace_view ws P (4 * l + 5) ws' root' L (map extent_cell es') P' rt"
      "unat n' = length es'" using a(2) t' by (auto simp: retirement_at_def)
  have k: "retirement_in workspace_view ws' root' P' L es'" "keeps (ws_heap ws) (ws_heap ws') (- P)"
      "hp_own (ws_heap ws') - set rt - P' = hp_own (ws_heap ws) - P"
    using d(1) by (auto simp: op_done_def)
  show ?thesis unfolding if_not_P [OF False]
    using a(1,3,4) o d(2) k unfolding t' by (intro exI conjI) assumption+
qed

theorem add_page_extends_set_witness:
  "\<exists>ws' root' n' rt P' L es'. add_page workspace_ops sample_workspace 0 0 2 9 = Inr (ws', root', n', rt)
    \<and> retirement_in workspace_view ws' root' P' L es' \<and> coalesced es' \<and> retired_in (set es') = {(2, 9)} \<and> pages_once es'"
proof -
  have "pages_once []" by (simp add: pages_once_def)
  thus ?thesis using add_page_extends_set [OF empty_retirement [OF sample_ok(1)] empty_coalesced(1), of 0 2 9] sample_ok(2)
    by (simp add: empty_coalesced MAX_PATH_31) blast
qed

end
