(* ===== verification/Reclamation.thy ===== *)
theory Reclamation
  imports RetirementSpec
begin

text \<open>
  The choice of the transactions whose retired pages are used again (\<open>select_reclamation\<close> of
  \<open>retirement.rs\<close>). The scan of a transaction's extents and the loop over transactions return; the
  selection is the longest run of oldest transactions that no reader still needs and that the two
  work limits admit.
\<close>

section \<open>Walking the extents\<close>

definition front :: "'a list \<Rightarrow> 'a option" where
  "front xs = (case xs of [] \<Rightarrow> None | x # _ \<Rightarrow> Some x)"

lemma front_simps [simp]: "front [] = None" "front (x # xs) = Some x"
  by (simp_all add: front_def)

lemma ceil_front:
  assumes "sorted_wrt (<) (map ex_key (xs @ ys))" "\<And>x. x \<in> set xs \<Longrightarrow> \<not> key \<le> ex_key x" "\<And>y. y \<in> set ys \<Longrightarrow> key \<le> ex_key y"
  shows "ceil_extent key (xs @ ys) = front ys"
proof -
  have "filter (\<lambda>e. key \<le> ex_key e) (xs @ ys) = ys" using assms(2,3) by (simp add: filter_empty_conv filter_id_conv)
  thus ?thesis by (simp add: ceil_extent_def front_def)
qed

text \<open>The key after that of an extent is the least one above it.\<close>

lemma next_first:
  assumes "Prelude.checked_add (rk_first k) 1 = Some f"
  shows "RetirementKey (rk_txn k) f \<le> k' \<longleftrightarrow> k < k'"
proof -
  have "unat f = Suc (unat (rk_first k))" using assms by (simp add: checked_add_Some_iff)
  thus ?thesis by (auto simp: key_le_iff less_retirement_key_def word_less_nat_alt)
qed

lemma last_first:
  assumes "Prelude.checked_add (rk_first k) 1 = None"
  shows "rk_first k' \<le> rk_first k"
  using assms unat_word_less [of "rk_first k'"] by (auto simp: Prelude.checked_add_def word_le_nat_alt split: if_splits)

lemma next_txn:
  assumes "Prelude.checked_add (rk_first k) 1 = None" "Prelude.checked_add (rk_txn k) 1 = Some t"
  shows "RetirementKey t 0 \<le> k' \<longleftrightarrow> k < k'"
proof -
  have "unat t = Suc (unat (rk_txn k))" using assms(2) by (simp add: checked_add_Some_iff)
  moreover have "\<not> rk_first k < rk_first k'" using last_first [OF assms(1), of k'] by (simp add: not_less)
  ultimately show ?thesis by (auto simp: key_le_iff less_retirement_key_def word_less_nat_alt word_unat_eq_iff)
qed

lemma no_next:
  assumes "Prelude.checked_add (rk_first k) 1 = None" "Prelude.checked_add (rk_txn k) 1 = None"
  shows "\<not> k < k'"
proof -
  have "rk_txn k' \<le> rk_txn k"
    using assms(2) unat_word_less [of "rk_txn k'"] by (auto simp: Prelude.checked_add_def word_le_nat_alt split: if_splits)
  thus ?thesis using last_first [OF assms(1), of k'] by (auto simp: less_retirement_key_def)
qed

definition page_total :: "extent list \<Rightarrow> nat" where
  "page_total es = (\<Sum>e\<leftarrow>es. unat (ex_count e))"

lemma page_total_simps [simp]: "page_total [] = 0" "page_total (e # es) = unat (ex_count e) + page_total es" "page_total (xs @ ys) = page_total xs + page_total ys"
  by (simp_all add: page_total_def)

abbreviation (input) same_txn :: "extent \<Rightarrow> extent \<Rightarrow> bool" where
  "same_txn e a \<equiv> ex_txn a = ex_txn e"

text \<open>A checkpoint of the caller may end the walk.\<close>

definition interrupts :: "'c checkpoint \<Rightarrow> bool" where
  "interrupts checkpoint \<longleftrightarrow> (\<exists>c e. checkpoint c = Inl e)"

lemma checkpoint_ok: "rwp (checkpoint c) (\<lambda>_. True) (interrupts checkpoint)"
  by (cases "checkpoint c") (auto simp: interrupts_def)

lemma validate_selected_ok:
  "ex_txn e \<le> sel \<Longrightarrow> ex_stop e \<le> unat (page_limit S st) \<Longrightarrow> validate_selected S st e sel = Inr ()"
  using extent_end [of e] by (simp add: validate_selected_def word_less_nat_alt word_le_nat_alt not_less)

lemma add_count_ok:
  fixes n :: "64 word"
  assumes "unat n + unat (x :: 32 word) < 2 ^ 64"
  shows "Prelude.checked_add n (ucast x) = Some (n + ucast x)" "unat (n + ucast x) = unat n + unat x"
  using assms by (simp_all add: Prelude.checked_add_def unat_word_ariths)

context retirement_store
begin

lemma at_or_after_extent:
  assumes "retirement_in V st root P l es" "coalesced es"
  shows "retirement_at_or_after S st root key = Inr (ceil_extent key es)"
proof -
  note d = coalescedD [OF assms(2)]
  have "ordered retirement_cells (map extent_cell es)" using ordered_extents [OF d(1)] d(2) by simp
  thus ?thesis
    using store_at_or_after_ok [OF assms(1), of key] ceil_cell_extent [OF d(1), of key] by (simp add: retirement_at_or_after_def)
qed

lemma first_extent:
  assumes "retirement_in V st root P l es" "coalesced es"
  shows "retirement_first S st root = Inr (front es)"
proof -
  have "RetirementKey 0 0 \<le> k" for k by (simp add: less_eq_retirement_key_def word_le_nat_alt neq_iff [symmetric] word_neq_0_conv [symmetric])
  thus ?thesis
    using ceil_front [of "[]" es] coalescedD(2) [OF assms(2)] by (simp add: retirement_first_def at_or_after_extent [OF assms])
qed

lemma after_extent:
  assumes t: "retirement_in V st root P l (xs @ e # ys)" and c: "coalesced (xs @ e # ys)"
  shows "retirement_after S st root e = Inr (front ys)"
proof -
  note a = at_or_after_extent [OF t c]
  have s: "sorted_wrt (<) (map ex_key ((xs @ [e]) @ ys))" using coalescedD(2) [OF c] by simp
  have above: "ex_key e < ex_key y" if "y \<in> set ys" for y using s that by (auto simp: sorted_wrt_append)
  have below: "\<not> ex_key e < ex_key x" if "x \<in> set (xs @ [e])" for x using s that by (auto simp: sorted_wrt_append)
  have f: "ceil_extent key (xs @ e # ys) = front ys" if "\<And>k. key \<le> k \<longleftrightarrow> ex_key e < k" for key
    using ceil_front [OF s, of key] above below that by simp
  show ?thesis
  proof (cases "Prelude.checked_add (rk_first (ex_key e)) 1")
    case (Some p)
    thus ?thesis using f [OF next_first [OF Some]] by (simp add: retirement_after_def a)
  next
    case None
    show ?thesis
    proof (cases "Prelude.checked_add (ex_txn e) 1")
      case (Some t)
      thus ?thesis using None f [OF next_txn [OF None Some]] by (simp add: retirement_after_def a)
    next
      case n: None
      have "ys = []" using above no_next [OF None n] by (cases ys) auto
      thus ?thesis using None n by (simp add: retirement_after_def)
    qed
  qed
qed

section \<open>The extents of a transaction\<close>

lemma scan_group_loop_ok:
  assumes "retirement_in V st root P l (xs @ e # ys)" "coalesced (xs @ e # ys)"
    and "\<forall>a\<in>set (e # ys). ex_txn a \<le> sel \<and> ex_stop a \<le> unat (page_limit S st)"
    and "unat n + page_total (e # ys) < 2 ^ 64"
  shows "runs (scan_group_loop S st root sel checkpoint (ex_txn e) c e n)
    (\<lambda>(c', n', nxt). unat n' = unat n + page_total (takeWhile (same_txn e) (e # ys)) \<and> nxt = front (dropWhile (same_txn e) ys))
    (interrupts checkpoint)"
  using assms
proof (induction ys arbitrary: xs e n c)
  case (Cons y ys)
  have v: "validate_selected S st e sel = Inr ()" using Cons.prems(3) by (simp add: validate_selected_ok)
  have "unat n + unat (ex_count e) < 2 ^ 64" using Cons.prems(4) by simp
  note n = add_count_ok [OF this]
  note a = after_extent [OF Cons.prems(1,2)]
  have ey: "ex_stop e < ex_first y" if "ex_txn y = ex_txn e"
  proof -
    have "ex_key e < ex_key y" using coalescedD(2) [OF Cons.prems(2)] by (auto simp: sorted_wrt_append)
    hence "e \<noteq> y" "ex_first e \<le> ex_first y" using that by (auto simp: less_retirement_key_def ex_first_def word_less_nat_alt)
    thus ?thesis
      using apartD [OF coalescedD(3) [OF Cons.prems(2)], of e y] that coalescedD(4) [OF Cons.prems(2), of y] by (simp add: extent_ok_def)
  qed
  have IH: "runs (scan_group_loop S st root sel checkpoint (ex_txn y) c' y (n + ucast (ex_count e)))
      (\<lambda>(c', n', nxt). unat n' = unat (n + ucast (ex_count e)) + page_total (takeWhile (same_txn y) (y # ys))
        \<and> nxt = front (dropWhile (same_txn y) ys)) (interrupts checkpoint)" for c'
    using Cons.IH [of "xs @ [e]" y "n + ucast (ex_count e)" c'] Cons.prems n(2) by simp
  show ?case
  proof (subst scan_group_loop.simps, rule runs_step_result [OF checkpoint_ok])
    fix c' :: 'a
    show "runs (step_result (validate_selected S st e sel) (\<lambda>_.
        step_result (ok_or (ArithmeticOverflow ''reclaimed page count'') (Prelude.checked_add n (ucast (ex_count e)))) (\<lambda>pages.
        step_result (retirement_after S st root e) (\<lambda>next.
        case next of None \<Rightarrow> Some (Inr (c', pages, None))
        | Some candidate \<Rightarrow>
            if ex_txn candidate \<noteq> ex_txn e then Some (Inr (c', pages, Some candidate))
            else if ucast (rk_first (ex_key candidate)) \<le> snd (extent_pages e)
            then Some (Inl (Corrupt ''retirement extents overlap or are not coalesced''))
            else scan_group_loop S st root sel checkpoint (ex_txn e) c' candidate pages))))
      (\<lambda>(c', n', nxt). unat n' = unat n + page_total (takeWhile (same_txn e) (e # y # ys))
        \<and> nxt = front (dropWhile (same_txn e) (y # ys))) (interrupts checkpoint)"
    proof (cases "ex_txn y = ex_txn e")
      case True
      have "\<not> ucast (rk_first (ex_key y)) \<le> snd (extent_pages e)"
        using ey [OF True] by (simp add: word_le_nat_alt ex_first_def)
      thus ?thesis using True v n a IH [of c'] by (auto elim!: runs_mono)
    qed (use v n a in simp)
  qed
next
  case Nil
  have v: "validate_selected S st e sel = Inr ()" using Nil.prems(3) by (simp add: validate_selected_ok)
  have "unat n + unat (ex_count e) < 2 ^ 64" using Nil.prems(4) by simp
  note n = add_count_ok [OF this]
  show ?case
    by (subst scan_group_loop.simps, rule runs_step_result [OF checkpoint_ok]) (use v n after_extent [OF Nil.prems(1,2)] in simp)
qed

lemma safe_group_ok:
  assumes "retirement_in V st root P l (xs @ e # ys)" "coalesced (xs @ e # ys)"
    and "\<forall>a\<in>set (e # ys). ex_txn a \<le> sel \<and> ex_stop a \<le> unat (page_limit S st)" "page_total (e # ys) < 2 ^ 64"
  shows "runs (safe_group S st root e sel reader checkpoint c)
    (\<lambda>(c', found). if reader_safe reader (ex_txn e) then \<exists>g. found = Some g \<and> rg_txn g = ex_txn e
        \<and> unat (rg_pages g) = page_total (takeWhile (same_txn e) (e # ys)) \<and> rg_next g = front (dropWhile (same_txn e) ys)
      else found = None) (interrupts checkpoint)"
proof -
  have v: "validate_selected S st e sel = Inr ()" using assms(3) by (simp add: validate_selected_ok)
  show ?thesis
    unfolding safe_group_def v step_result.simps
  proof (cases "reader_safe reader (ex_txn e)")
    case True
    have "runs (scan_group S st root e sel checkpoint c)
      (\<lambda>(c', n', nxt). unat n' = page_total (takeWhile (same_txn e) (e # ys)) \<and> nxt = front (dropWhile (same_txn e) ys)) (interrupts checkpoint)"
      using scan_group_loop_ok [OF assms(1-3), of 0 checkpoint c] assms(4) by (simp add: scan_group_def)
    thus "runs (if \<not> reader_safe reader (ex_txn e) then Some (Inr (c, None))
        else step_run (scan_group S st root e sel checkpoint c) (\<lambda>(c, pages, next).
          Some (Inr (c, Some \<lparr> rg_txn = ex_txn e, rg_pages = pages, rg_next = next \<rparr>))))
      (\<lambda>(c', found). if reader_safe reader (ex_txn e) then \<exists>g. found = Some g \<and> rg_txn g = ex_txn e
        \<and> unat (rg_pages g) = page_total (takeWhile (same_txn e) (e # ys)) \<and> rg_next g = front (dropWhile (same_txn e) ys)
      else found = None) (interrupts checkpoint)"
      using True by (auto elim!: runs_step_run)
  qed simp
qed

end

section \<open>The selection\<close>

definition picked :: "extent list \<Rightarrow> reclamation \<Rightarrow> bool" where
  "picked xs r \<longleftrightarrow> unat (rc_transactions r) = card (ex_txn ` set xs) \<and> unat (rc_pages r) = page_total xs
    \<and> (xs \<noteq> [] \<longrightarrow> rc_through_txn r = ex_txn (last xs))"

definition ends_txn :: "extent list \<Rightarrow> extent list \<Rightarrow> bool" where
  "ends_txn xs ys \<longleftrightarrow> (\<forall>x\<in>set xs. \<forall>y\<in>set ys. ex_txn x < ex_txn y)"

definition txn_group :: "extent list \<Rightarrow> extent list" where
  "txn_group ys = takeWhile (same_txn (hd ys)) ys"

definition after_group :: "extent list \<Rightarrow> extent list" where
  "after_group ys = dropWhile (same_txn (hd ys)) ys"

text \<open>Why the selection stopped before the extents \<open>ys\<close>.\<close>

definition stops :: "64 word option \<Rightarrow> 64 word \<Rightarrow> 64 word \<Rightarrow> extent list \<Rightarrow> extent list \<Rightarrow> bool" where
  "stops reader max_transactions max_pages xs ys \<longleftrightarrow> ys = [] \<or> card (ex_txn ` set xs) = unat max_transactions
    \<or> \<not> reader_safe reader (ex_txn (hd ys)) \<or> xs \<noteq> [] \<and> unat max_pages < page_total (xs @ txn_group ys)"

definition selection :: "64 word option \<Rightarrow> 64 word \<Rightarrow> 64 word \<Rightarrow> extent list \<Rightarrow> extent list \<Rightarrow> reclamation \<Rightarrow> bool" where
  "selection reader max_transactions max_pages xs ys r \<longleftrightarrow> ends_txn xs ys \<and> picked xs r
    \<and> (\<forall>x\<in>set xs. reader_safe reader (ex_txn x)) \<and> card (ex_txn ` set xs) \<le> unat max_transactions \<and> page_total xs \<le> unat max_pages"

definition too_large :: "64 word option \<Rightarrow> 64 word \<Rightarrow> extent list \<Rightarrow> bool" where
  "too_large reader max_pages es \<longleftrightarrow> es \<noteq> [] \<and> reader_safe reader (ex_txn (hd es)) \<and> unat max_pages < page_total (txn_group es)"

lemma group_append: "txn_group ys @ after_group ys = ys"
  by (simp add: txn_group_def after_group_def)

lemma group_txn: "ys \<noteq> [] \<Longrightarrow> txn_group ys \<noteq> [] \<and> ex_txn ` set (txn_group ys) = {ex_txn (hd ys)} \<and> ex_txn (last (txn_group ys)) = ex_txn (hd ys)"
proof (cases ys)
  case (Cons y zs)
  have a: "ex_txn x = ex_txn y" if "x \<in> set (txn_group ys)" for x
    using set_takeWhileD [of x "same_txn y" ys] that Cons by (simp add: txn_group_def)
  have m: "y \<in> set (txn_group ys)" using Cons by (simp add: txn_group_def)
  hence ne: "txn_group ys \<noteq> []" by auto
  moreover have "ex_txn ` set (txn_group ys) = {ex_txn y}" using a m by blast
  ultimately show ?thesis using a [OF last_in_set [OF ne]] Cons by simp
qed simp

lemma ends_group:
  assumes s: "sorted_wrt (<) (map ex_key ys)" and e: "ends_txn xs ys" "ys \<noteq> []"
  shows "ends_txn (xs @ txn_group ys) (after_group ys)"
proof -
  have "ex_txn (hd ys) < ex_txn z" if z: "z \<in> set (after_group ys)" for z
  proof -
    obtain a zs where a: "after_group ys = a # zs" using z by (cases "after_group ys") auto
    have "ex_txn a \<noteq> ex_txn (hd ys)"
      using a hd_dropWhile [of "same_txn (hd ys)" ys] unfolding after_group_def by fastforce
    moreover have sa: "sorted_wrt (<) (map ex_key (txn_group ys @ a # zs))" using s group_append [of ys] a by simp
    hence "ex_key (last (txn_group ys)) < ex_key a"
      using group_txn [OF e(2)] last_in_set [of "txn_group ys"] by (auto simp: sorted_wrt_append)
    ultimately have "ex_txn (hd ys) < ex_txn a" using group_txn [OF e(2)] by (auto simp: less_retirement_key_def)
    moreover have "ex_txn a \<le> ex_txn z" using sa z a by (auto simp: sorted_wrt_append less_retirement_key_def)
    ultimately show ?thesis by simp
  qed
  moreover have "ex_txn x < ex_txn z" if "x \<in> set xs" "z \<in> set (after_group ys)" for x z
    using e(1) that unfolding ends_txn_def after_group_def by (auto dest: set_dropWhileD)
  moreover have "ex_txn x = ex_txn (hd ys)" if "x \<in> set (txn_group ys)" for x using that group_txn [OF e(2)] by auto
  ultimately show ?thesis by (auto simp: ends_txn_def)
qed

lemma append_group_ok:
  assumes s: "selection reader max_transactions max_pages xs ys r" and y: "ys \<noteq> []" and k: "sorted_wrt (<) (map ex_key ys)"
    and b: "rc_transactions r < max_transactions" and n: "unat n = page_total (txn_group ys)" "page_total (xs @ ys) < 2 ^ 64"
    and safe: "reader_safe reader (ex_txn (hd ys))"
  shows "\<exists>r' taken. append_group r (ex_txn (hd ys)) n max_pages = Inr (r', taken)
    \<and> (if taken then selection reader max_transactions max_pages (xs @ txn_group ys) (after_group ys) r'
       else r' = r \<and> unat max_pages < page_total (xs @ txn_group ys))"
proof -
  have tot: "page_total (txn_group ys) \<le> page_total ys" using page_total_simps(3) [of "txn_group ys" "after_group ys"] unfolding group_append by simp
  have r: "unat (rc_pages r) = page_total xs" "unat (rc_transactions r) = card (ex_txn ` set xs)" "ends_txn xs ys"
    using s by (simp_all add: selection_def picked_def)
  have p: "Prelude.checked_add (rc_pages r) n = Some (rc_pages r + n)" "unat (rc_pages r + n) = page_total (xs @ txn_group ys)"
    using r n tot by (simp_all add: Prelude.checked_add_def unat_word_ariths)
  have tx: "unat (rc_transactions r + 1) = Suc (unat (rc_transactions r))"
    using b unat_word_less [of max_transactions] by (simp add: unat_word_ariths word_less_nat_alt)
  have fresh: "ex_txn (hd ys) \<notin> ex_txn ` set xs" using r(3) hd_in_set [OF y] by (force simp: ends_txn_def)
  have img: "ex_txn ` set (xs @ txn_group ys) = insert (ex_txn (hd ys)) (ex_txn ` set xs)" using group_txn [OF y] by auto
  have card: "card (ex_txn ` set (xs @ txn_group ys)) = Suc (card (ex_txn ` set xs))" unfolding img using fresh by simp
  show ?thesis
  proof (cases "rc_pages r + n > max_pages")
    case True
    thus ?thesis using p by (intro exI [of _ r] exI [of _ False]) (simp add: append_group_def word_less_nat_alt)
  next
    case False
    hence f: "page_total (xs @ txn_group ys) \<le> unat max_pages" using p(2) by (simp add: word_less_nat_alt)
    have "\<forall>x\<in>set (xs @ txn_group ys). reader_safe reader (ex_txn x)"
    proof -
      have "ex_txn x = ex_txn (hd ys)" if "x \<in> set (txn_group ys)" for x using that group_txn [OF y] by auto
      thus ?thesis using s safe by (auto simp: selection_def)
    qed
    moreover have "card (ex_txn ` set (xs @ txn_group ys)) \<le> unat max_transactions"
      unfolding card using b r(2) by (simp add: word_less_nat_alt)
    moreover have "picked (xs @ txn_group ys) \<lparr> rc_transactions = rc_transactions r + 1, rc_pages = rc_pages r + n, rc_through_txn = ex_txn (hd ys) \<rparr>"
      using group_txn [OF y] tx p(2) r(2) card by (simp add: picked_def)
    ultimately have "selection reader max_transactions max_pages (xs @ txn_group ys) (after_group ys)
        \<lparr> rc_transactions = rc_transactions r + 1, rc_pages = rc_pages r + n, rc_through_txn = ex_txn (hd ys) \<rparr>"
      using f ends_group [OF k r(3) y] by (simp add: selection_def)
    thus ?thesis using False p(1) by (intro exI conjI) (auto simp: append_group_def)
  qed
qed

context retirement_store
begin

lemma select_loop_ok:
  assumes "retirement_in V st root P l (xs @ ys)" "coalesced (xs @ ys)"
    and "\<forall>a\<in>set (xs @ ys). ex_txn a \<le> sel \<and> ex_stop a \<le> unat (page_limit S st)" "page_total (xs @ ys) < 2 ^ 64"
    and "selection reader max_transactions max_pages xs ys r"
  shows "runs (select_loop S st root sel reader max_transactions max_pages checkpoint c (front ys) r)
    (\<lambda>r'. \<exists>xs' ys'. xs @ ys = xs' @ ys' \<and> selection reader max_transactions max_pages xs' ys' r'
      \<and> stops reader max_transactions max_pages xs' ys') (interrupts checkpoint \<or> too_large reader max_pages (xs @ ys))"
  using assms
proof (induction "length ys" arbitrary: xs ys r c rule: less_induct)
  case less
  define Q where "Q = (\<lambda>r'. \<exists>xs' ys'. xs @ ys = xs' @ ys' \<and> selection reader max_transactions max_pages xs' ys' r'
      \<and> stops reader max_transactions max_pages xs' ys')"
  define E where "E = (interrupts checkpoint \<or> too_large reader max_pages (xs @ ys))"
  have chk: "rwp (checkpoint c) (\<lambda>_. True) E" using checkpoint_ok [of checkpoint c] by (auto simp: E_def elim: rwp_mono)
  note selected = less.prems(5)
  have stop: "Q r" if "stops reader max_transactions max_pages xs ys" using that selected unfolding Q_def by blast
  have card: "unat (rc_transactions r) = card (ex_txn ` set xs)" "card (ex_txn ` set xs) \<le> unat max_transactions"
    using selected by (simp_all add: selection_def picked_def)
  show ?case
    unfolding Q_def [symmetric] E_def [symmetric]
  proof (cases "rc_transactions r < max_transactions")
    case False
    hence "Q r" using card by (intro stop) (simp add: stops_def word_less_nat_alt)
    thus "runs (select_loop S st root sel reader max_transactions max_pages checkpoint c (front ys) r) Q E"
      using False by (subst select_loop.simps) simp
  next
    case b: True
    show "runs (select_loop S st root sel reader max_transactions max_pages checkpoint c (front ys) r) Q E"
    proof (cases ys)
      case Nil
      hence "Q r" by (intro stop) (simp add: stops_def)
      thus "runs (select_loop S st root sel reader max_transactions max_pages checkpoint c (front ys) r) Q E"
        using b Nil by (subst select_loop.simps) (auto intro!: runs_step_result [OF chk])
    next
      case (Cons e zs)
      have tot: "page_total (e # zs) < 2 ^ 64" "page_total (xs @ ys) < 2 ^ 64" using less.prems(4) Cons by simp_all
      have valid: "\<forall>a\<in>set (e # zs). ex_txn a \<le> sel \<and> ex_stop a \<le> unat (page_limit S st)" using less.prems(3) Cons by simp
      note sg = safe_group_ok [OF less.prems(1,2) [unfolded Cons] valid tot(1), of reader checkpoint]
      have grp: "txn_group ys = takeWhile (same_txn e) (e # zs)" "after_group ys = dropWhile (same_txn e) zs" "hd ys = e" "ys \<noteq> []"
        using Cons by (simp_all add: txn_group_def after_group_def)
      have body: "runs (case found of None \<Rightarrow> Some (Inr r) | Some g \<Rightarrow>
          step_result (require_first_group_fit r (rg_pages g) max_pages) (\<lambda>_.
          step_result (append_group r (rg_txn g) (rg_pages g) max_pages) (\<lambda>(r, taken).
          if \<not> taken then Some (Inr r)
          else select_loop S st root sel reader max_transactions max_pages checkpoint c' (rg_next g) r))) Q E"
        if f: "if reader_safe reader (ex_txn e) then \<exists>g. found = Some g \<and> rg_txn g = ex_txn e
            \<and> unat (rg_pages g) = page_total (takeWhile (same_txn e) (e # zs)) \<and> rg_next g = front (dropWhile (same_txn e) zs)
          else found = None" for c' found
      proof (cases "reader_safe reader (ex_txn e)")
        case True
        then obtain g where g: "found = Some g" "rg_txn g = ex_txn (hd ys)" "unat (rg_pages g) = page_total (txn_group ys)"
            "rg_next g = front (after_group ys)" using f grp by auto
        have srt: "sorted_wrt (<) (map ex_key ys)" using coalescedD(2) [OF less.prems(2)] by (simp add: sorted_wrt_append)
        obtain r' taken where ap: "append_group r (ex_txn (hd ys)) (rg_pages g) max_pages = Inr (r', taken)"
          "if taken then selection reader max_transactions max_pages (xs @ txn_group ys) (after_group ys) r'
           else r' = r \<and> unat max_pages < page_total (xs @ txn_group ys)"
          using append_group_ok [OF selected grp(4) srt b g(3) tot(2)] True grp(3) by auto
        have fit: "E" if "rc_transactions r = 0" "max_pages < rg_pages g"
          using that card(1) True g(3) grp(3,4) by (simp add: E_def too_large_def word_less_nat_alt)
        have ne: "xs \<noteq> []" if "\<not> (rc_transactions r = 0 \<and> max_pages < rg_pages g)" "unat max_pages < page_total (xs @ txn_group ys)"
          using that card(1) g(3) by (auto simp: word_less_nat_alt unat_eq_0)
        have loop: "runs (select_loop S st root sel reader max_transactions max_pages checkpoint c' (rg_next g) r') Q E" if taken
        proof -
          have eq: "(xs @ txn_group ys) @ after_group ys = xs @ ys" by (simp add: group_append)
          have "length (after_group ys) < length ys"
            using group_txn [OF grp(4)] arg_cong [OF group_append [of ys], of length] by (cases "txn_group ys") auto
          from less.hyps [OF this, of "xs @ txn_group ys", unfolded eq, OF less.prems(1-4), folded Q_def E_def] show ?thesis using ap(2) that g(4) by simp
        qed
        show ?thesis
          using g ap loop fit stop ne by (auto simp: require_first_group_fit_def stops_def)
      next
        case False
        thus ?thesis using f grp by (auto intro!: stop simp: stops_def)
      qed
      have sg': "runs (safe_group S st root e sel reader checkpoint c') (\<lambda>(c', found).
          if reader_safe reader (ex_txn e) then \<exists>g. found = Some g \<and> rg_txn g = ex_txn e
            \<and> unat (rg_pages g) = page_total (takeWhile (same_txn e) (e # zs)) \<and> rg_next g = front (dropWhile (same_txn e) zs)
          else found = None) E" for c' by (rule runs_mono [OF sg]) (simp_all add: E_def)
      show ?thesis
        using b Cons by (subst select_loop.simps) (auto intro!: runs_step_result [OF chk] runs_step_run [OF sg'] body)
    qed
  qed
qed

end

section \<open>Counting retired pages\<close>

lemma card_extent: "extent_ok e \<Longrightarrow> finite (retired_in {e}) \<and> card (retired_in {e}) = unat (ex_count e)"
proof -
  assume e: "extent_ok e"
  have "retired_in {e} = (\<lambda>i. (ex_txn e, of_nat i)) ` {ex_first e..<ex_stop e}"
  proof (intro set_eqI iffI)
    fix x assume "x \<in> retired_in {e}"
    thus "x \<in> (\<lambda>i. (ex_txn e, of_nat i)) ` {ex_first e..<ex_stop e}"
      by (cases x) (auto simp: retired_in_def intro!: image_eqI [of _ _ "unat (snd x)"])
  next
    fix x assume "x \<in> (\<lambda>i. (ex_txn e, of_nat i :: 32 word)) ` {ex_first e..<ex_stop e}"
    thus "x \<in> retired_in {e}" using e by (auto simp: retired_in_def extent_ok_def unat_of_nat)
  qed
  moreover have "inj_on (\<lambda>i. (ex_txn e, of_nat i :: 32 word)) {ex_first e..<ex_stop e}"
  proof (rule inj_onI)
    have u: "unat (of_nat k :: 32 word) = k" if "k \<in> {ex_first e..<ex_stop e}" for k
      using that e by (simp add: extent_ok_def unat_of_nat)
    fix i j assume "i \<in> {ex_first e..<ex_stop e}" "j \<in> {ex_first e..<ex_stop e}" "(ex_txn e, of_nat i :: 32 word) = (ex_txn e, of_nat j)"
    thus "i = j" using u by (metis prod.inject)
  qed
  ultimately show ?thesis by (simp add: card_image ex_stop_def)
qed

lemma retired_in_Cons: "retired_in (set (e # es)) = retired_in {e} \<union> retired_in (set es)"
  by (auto simp: retired_in_def)

lemma coalesced_append: "coalesced (xs @ ys) \<Longrightarrow> coalesced xs" "coalesced (e # es) \<Longrightarrow> coalesced es"
  by (auto simp: coalesced_def apart_def sorted_wrt_append)

lemma card_retired: "coalesced es \<Longrightarrow> finite (retired_in (set es)) \<and> card (retired_in (set es)) = page_total es"
proof (induction es)
  case (Cons e es)
  have e: "extent_ok e" using coalescedD(4) [OF Cons.prems] by simp
  have "e \<notin> set es" using coalescedD(2) [OF Cons.prems] by auto
  hence "retired_in {e} \<inter> retired_in (set es) = {}"
    using coalescedD(3) [OF Cons.prems] by (fastforce simp: apart_def retired_in_def)
  thus ?case
    unfolding retired_in_Cons using Cons.IH [OF coalesced_append(2) [OF Cons.prems]] card_extent [OF e] by (simp add: card_Un_disjoint)
qed (simp add: retired_in_def)

text \<open>The pages that the transactions up to a bound retired.\<close>

definition through :: "(64 word \<times> 32 word) set \<Rightarrow> 64 word \<Rightarrow> (64 word \<times> 32 word) set" where
  "through R t = {(t', p) \<in> R. t' \<le> t}"

lemma retired_txns: "list_all extent_ok es \<Longrightarrow> fst ` retired_in (set es) = ex_txn ` set es"
proof -
  assume "list_all extent_ok es"
  hence "(ex_txn e, rk_first (ex_key e)) \<in> retired_in (set es)" if "e \<in> set es" for e
    using that by (auto simp: retired_in_def list_all_iff extent_ok_def ex_first_def)
  thus ?thesis by (force simp: retired_in_def image_iff)
qed

lemma through_prefix:
  assumes e: "ends_txn xs ys" and t: "\<forall>x\<in>set xs. ex_txn x \<le> t" "\<forall>y\<in>set ys. t < ex_txn y"
  shows "through (retired_in (set (xs @ ys))) t = retired_in (set xs)" "{t' \<in> ex_txn ` set (xs @ ys). t' \<le> t} = ex_txn ` set xs"
  using t by (auto simp: through_def retired_in_def not_le)

lemma through_mono: "t \<le> t' \<Longrightarrow> through R t \<subseteq> through R t'"
  by (auto simp: through_def)

section \<open>Selection in a workspace\<close>

context retirement_store
begin

lemma select_reclamation_ok:
  assumes t: "retirement_in V st root P l es" "coalesced es"
    and v: "\<forall>a\<in>set es. ex_txn a \<le> sel \<and> ex_stop a \<le> unat (page_limit S st)" "page_total es < 2 ^ 64"
    and m: "max_transactions \<noteq> 0" "max_pages \<noteq> 0"
  shows "runs (select_reclamation_with_checkpoint S st root sel reader max_transactions max_pages checkpoint c)
    (\<lambda>res. \<exists>xs ys r. es = xs @ ys \<and> selection reader max_transactions max_pages xs ys r
      \<and> stops reader max_transactions max_pages xs ys \<and> res = (if xs = [] then None else Some r))
    (interrupts checkpoint \<or> too_large reader max_pages es)" (is "runs _ ?Q ?E")
proof -
  let ?z = "\<lparr> rc_transactions = 0, rc_pages = 0, rc_through_txn = 0 \<rparr>"
  have "selection reader max_transactions max_pages [] es ?z" by (simp add: selection_def ends_txn_def picked_def)
  hence l: "runs (select_loop S st root sel reader max_transactions max_pages checkpoint c (front es) ?z)
    (\<lambda>r'. \<exists>xs' ys'. es = xs' @ ys' \<and> selection reader max_transactions max_pages xs' ys' r'
      \<and> stops reader max_transactions max_pages xs' ys') ?E"
    using select_loop_ok [where xs = "[]" and ys = es] t v by simp
  have z: "rc_transactions r \<noteq> 0 \<longleftrightarrow> xs \<noteq> []" if "selection reader max_transactions max_pages xs ys r" for xs ys r
    using that by (simp add: selection_def picked_def unat_eq_0 [symmetric])
  have "runs (step_run (select_loop S st root sel reader max_transactions max_pages checkpoint c (front es) ?z)
      (\<lambda>selected. Some (Inr (if rc_transactions selected \<noteq> 0 then Some selected else None)))) ?Q ?E"
    by (rule runs_step_run [OF l]) (use z in fastforce)
  thus ?thesis
    using m first_extent [OF t] by (simp add: select_reclamation_with_checkpoint_def require_work_limits_def)
qed

end

lemma hd_least_txn:
  assumes "coalesced es" "e \<in> set es"
  shows "ex_txn (hd es) \<le> ex_txn e"
  using assms coalescedD(2) [OF assms(1)] by (cases es) (auto simp: less_retirement_key_def)

lemma last_greatest_txn:
  assumes "coalesced es" "e \<in> set es"
  shows "ex_txn e \<le> ex_txn (last es)"
  using assms coalescedD(2) [OF assms(1)] by (cases es rule: rev_cases) (auto simp: sorted_wrt_append less_retirement_key_def)

lemma reader_safe_mono: "reader_safe reader t \<Longrightarrow> t' \<le> t \<Longrightarrow> reader_safe reader t'"
  by (auto simp: reader_safe_def split: option.splits)

lemma card_through_prefix:
  assumes c: "coalesced (xs @ ys)" and e: "ends_txn xs ys" and t: "\<forall>x\<in>set xs. ex_txn x \<le> t" "\<forall>y\<in>set ys. t < ex_txn y"
  shows "card (through (retired_in (set (xs @ ys))) t) = page_total xs"
  using through_prefix(1) [OF e t] card_retired [OF coalesced_append(1) [OF c]] by simp

lemma card_through_group:
  assumes c: "coalesced (xs @ ys)" and e: "ends_txn xs ys" and y: "ys \<noteq> []" "ex_txn (hd ys) \<le> t"
  shows "page_total (xs @ txn_group ys) \<le> card (through (retired_in (set (xs @ ys))) t)"
proof -
  have s: "sorted_wrt (<) (map ex_key ys)" using coalescedD(2) [OF c] by (simp add: sorted_wrt_append)
  note g = ends_group [OF s e y(1)]
  have gx: "ex_txn x = ex_txn (hd ys)" if "x \<in> set (txn_group ys)" for x using that group_txn [OF y(1)] by auto
  have sp: "xs @ ys = (xs @ txn_group ys) @ after_group ys" by (simp add: group_append)
  have h: "hd ys \<in> set (txn_group ys)" using y(1) by (cases ys) (simp_all add: txn_group_def)
  have "card (through (retired_in (set (xs @ ys))) (ex_txn (hd ys))) = page_total (xs @ txn_group ys)"
    unfolding sp
  proof (rule card_through_prefix)
    show "coalesced ((xs @ txn_group ys) @ after_group ys)" using c sp by simp
    show "\<forall>x\<in>set (xs @ txn_group ys). ex_txn x \<le> ex_txn (hd ys)" using e gx hd_in_set [OF y(1)] by (auto simp: ends_txn_def less_imp_le)
    show "\<forall>z\<in>set (after_group ys). ex_txn (hd ys) < ex_txn z" using g h by (auto simp: ends_txn_def)
  qed (rule g)
  moreover have "finite (through (retired_in (set (xs @ ys))) t)"
    by (rule finite_subset [of _ "retired_in (set (xs @ ys))"]) (use card_retired [OF c] in \<open>auto simp: through_def\<close>)
  ultimately show ?thesis using card_mono [OF _ through_mono [OF y(2)]] by metis
qed

text \<open>No reader holds a generation older than the transaction that retired a page.\<close>

definition unneeded :: "64 word option \<Rightarrow> 64 word \<Rightarrow> bool" where
  "unneeded oldest_reader t \<longleftrightarrow> (\<forall>reader. oldest_reader = Some reader \<longrightarrow> t \<le> reader)"

lemma reader_safe_eq: "reader_safe = unneeded"
  by (auto simp: reader_safe_def unneeded_def fun_eq_iff split: option.splits)

text \<open>The selection as the caller sees it: the transactions up to \<open>through_txn\<close> and their pages.\<close>

definition reclaims :: "64 word option \<Rightarrow> 64 word \<Rightarrow> 64 word \<Rightarrow> (64 word \<times> 32 word) set \<Rightarrow> reclamation option \<Rightarrow> bool" where
  "reclaims reader max_transactions max_pages R res \<longleftrightarrow> (case res of
     None \<Rightarrow> \<forall>t\<in>fst ` R. \<not> unneeded reader t
   | Some r \<Rightarrow> rc_through_txn r \<in> fst ` R \<and> unneeded reader (rc_through_txn r)
       \<and> unat (rc_transactions r) = card {t \<in> fst ` R. t \<le> rc_through_txn r} \<and> rc_transactions r \<le> max_transactions
       \<and> unat (rc_pages r) = card (through R (rc_through_txn r)) \<and> rc_pages r \<le> max_pages
       \<and> (\<forall>t\<in>fst ` R. rc_through_txn r < t \<longrightarrow> rc_transactions r = max_transactions \<or> \<not> unneeded reader t
            \<or> unat max_pages < card (through R t)))"

lemma stops_behind:
  assumes c: "coalesced (xs @ ys)" and e: "ends_txn xs ys" and s: "stops reader max_transactions max_pages xs ys" and y: "y \<in> set ys"
  shows "card (ex_txn ` set xs) = unat max_transactions \<or> \<not> reader_safe reader (ex_txn y)
    \<or> unat max_pages < card (through (retired_in (set (xs @ ys))) (ex_txn y))"
proof -
  have ne: "ys \<noteq> []" using y by auto
  have "coalesced ys" using c by (auto simp: coalesced_def apart_def sorted_wrt_append)
  hence h: "ex_txn (hd ys) \<le> ex_txn y" using hd_least_txn y by blast
  show ?thesis
    using s ne card_through_group [OF c e ne h] reader_safe_mono [OF _ h] by (auto simp: stops_def)
qed

lemma selection_reclaims:
  assumes c: "coalesced (xs @ ys)" and sel: "selection reader max_transactions max_pages xs ys r"
    and s: "stops reader max_transactions max_pages xs ys" and m: "max_transactions \<noteq> 0"
  shows "reclaims reader max_transactions max_pages (retired_in (set (xs @ ys))) (if xs = [] then None else Some r)"
proof (cases "xs = []")
  case True
  have "\<not> reader_safe reader (ex_txn y)" if "y \<in> set ys" for y
  proof -
    have ne: "ys \<noteq> []" using that by auto
    have "\<not> reader_safe reader (ex_txn (hd ys))"
      using s m ne True by (auto simp: stops_def unat_eq_0)
    thus ?thesis using reader_safe_mono hd_least_txn [OF c] that True by auto
  qed
  thus ?thesis using True retired_txns [OF coalescedD(1) [OF c]] by (auto simp: reclaims_def reader_safe_eq [symmetric])
next
  case False
  have p: "ends_txn xs ys" "picked xs r" "\<forall>x\<in>set xs. reader_safe reader (ex_txn x)" "card (ex_txn ` set xs) \<le> unat max_transactions"
    "page_total xs \<le> unat max_pages" using sel by (simp_all add: selection_def)
  have thr: "rc_through_txn r = ex_txn (last xs)" using p(2) False by (simp add: picked_def)
  have le: "\<forall>x\<in>set xs. ex_txn x \<le> rc_through_txn r" using last_greatest_txn [OF coalesced_append(1) [OF c]] thr by simp
  have gt: "\<forall>y\<in>set ys. rc_through_txn r < ex_txn y" using p(1) thr False by (simp add: ends_txn_def)
  note txns = retired_txns [OF coalescedD(1) [OF c]]
  have "rc_through_txn r \<in> ex_txn ` set (xs @ ys)" using thr last_in_set [OF False] by simp
  moreover have "unat (rc_transactions r) = card {t \<in> ex_txn ` set (xs @ ys). t \<le> rc_through_txn r}"
    using through_prefix(2) [OF p(1) le gt] p(2) by (simp add: picked_def)
  moreover have "unat (rc_pages r) = card (through (retired_in (set (xs @ ys))) (rc_through_txn r))"
    using card_through_prefix [OF c p(1) le gt] p(2) by (simp add: picked_def)
  moreover have "rc_transactions r = max_transactions \<or> \<not> reader_safe reader t \<or> unat max_pages < card (through (retired_in (set (xs @ ys))) t)"
    if t: "t \<in> ex_txn ` set (xs @ ys)" "rc_through_txn r < t" for t
  proof -
    have "t \<notin> ex_txn ` set xs" using le t(2) by auto
    then obtain y where y: "y \<in> set ys" "t = ex_txn y" using t(1) by auto
    have "unat (rc_transactions r) = unat max_transactions \<longleftrightarrow> rc_transactions r = max_transactions" by (simp add: word_unat_eq_iff)
    thus ?thesis using stops_behind [OF c p(1) s y(1)] p(2) unfolding y(2) picked_def by metis
  qed
  ultimately show ?thesis
    using False p thr last_in_set [OF False] unfolding reclaims_def txns reader_safe_eq [symmetric]
    by (auto simp: picked_def word_le_nat_alt)
qed

text \<open>C20. Choosing the transactions to reclaim returns. It fails only when the caller's checkpoint stops it or when the
  pages of the oldest transaction alone exceed the page limit. Otherwise it selects nothing exactly when a reader may
  still need the pages of every retired transaction, and else the oldest transactions up to one that no reader
  needs, within both limits, with their exact number of transactions and pages; and it stops only at a limit or at
  a transaction that a reader still needs.\<close>

theorem select_reclamation_correct:
  assumes "retirement_in workspace_view ws root P l es" "coalesced es"
    and "\<forall>e\<in>set es. ex_txn e \<le> txn \<and> ex_stop e \<le> unat (ws_next ws)" "card (retired_in (set es)) < 2 ^ 64"
    and "max_transactions \<noteq> 0" "max_pages \<noteq> 0"
  shows "\<exists>res. select_reclamation_with_checkpoint workspace_ops ws root txn reader max_transactions max_pages checkpoint c = Some res
    \<and> (case res of
         Inl _ \<Rightarrow> interrupts checkpoint \<or> (\<exists>t\<in>fst ` retired_in (set es). (\<forall>t'\<in>fst ` retired_in (set es). t \<le> t')
           \<and> unneeded reader t \<and> unat max_pages < card (through (retired_in (set es)) t))
       | Inr selected \<Rightarrow> reclaims reader max_transactions max_pages (retired_in (set es)) selected)"
proof -
  let ?R = "retired_in (set es)"
  have n: "page_total es < 2 ^ 64" using card_retired [OF assms(2)] assms(4) by simp
  have v: "\<forall>e\<in>set es. ex_txn e \<le> txn \<and> ex_stop e \<le> unat (page_limit workspace_ops ws)" using assms(3) by simp
  note r = rws.select_reclamation_ok [OF assms(1,2) v n assms(5,6), of reader checkpoint c]
  then obtain res where res: "select_reclamation_with_checkpoint workspace_ops ws root txn reader max_transactions max_pages checkpoint c = Some res"
    by (cases "select_reclamation_with_checkpoint workspace_ops ws root txn reader max_transactions max_pages checkpoint c") (auto simp: runs_def)
  have "\<exists>t\<in>fst ` ?R. (\<forall>t'\<in>fst ` ?R. t \<le> t') \<and> unneeded reader t \<and> unat max_pages < card (through ?R t)"
    if tl: "too_large reader max_pages es"
  proof (intro bexI [of _ "ex_txn (hd es)"] conjI ballI)
    have e: "es \<noteq> []" using tl by (simp add: too_large_def)
    show "ex_txn (hd es) \<in> fst ` ?R" using retired_txns [OF coalescedD(1) [OF assms(2)]] e by simp
    show "ex_txn (hd es) \<le> t'" if "t' \<in> fst ` ?R" for t'
      using that hd_least_txn [OF assms(2)] retired_txns [OF coalescedD(1) [OF assms(2)]] by auto
    show "unneeded reader (ex_txn (hd es))" using tl by (simp add: too_large_def reader_safe_eq)
    show "unat max_pages < card (through ?R (ex_txn (hd es)))"
      using tl card_through_group [of "[]" es "ex_txn (hd es)"] assms(2) e by (simp add: too_large_def ends_txn_def)
  qed
  moreover have "reclaims reader max_transactions max_pages ?R s" if "res = Inr s" for s
    using r selection_reclaims [of _ _ reader max_transactions max_pages] assms(2,5) res that by auto
  ultimately show ?thesis using res r by (auto split: sum.splits)
qed

text \<open>A workspace in which transaction 2 has retired page 2.\<close>

lemma single_retired:
  assumes "coalesced es" "retired_in (set es) = {(t, p)}" "e \<in> set es"
  shows "ex_txn e = t" "ex_stop e = Suc (unat p)"
proof -
  have e: "extent_ok e" by (rule coalescedD(4) [OF assms(1,3)])
  have "retired_in {e} \<subseteq> {(t, p)}" using assms(2,3) by (auto simp: retired_in_def)
  moreover have "(ex_txn e, rk_first (ex_key e)) \<in> retired_in {e}" using e by (simp add: retired_in_def extent_ok_def ex_first_def)
  ultimately have r: "retired_in {e} = {(t, p)}" "ex_txn e = t" "rk_first (ex_key e) = p" by auto
  have "unat (ex_count e) = 1" using card_extent [OF e] r(1) by simp
  thus "ex_txn e = t" "ex_stop e = Suc (unat p)" using r by (simp_all add: ex_stop_def ex_first_def)
qed

lemma sample_retired:
  "\<exists>ws root P l es. retirement_in workspace_view ws root P l es \<and> coalesced es \<and> retired_in (set es) = {(2, 2)} \<and> 3 \<le> unat (ws_next ws)"
proof -
  have "\<not> room workspace_view sample_workspace < 4 * 0 + 5" using sample_ok(2) by simp
  with rws.add_page_ok(2) [OF empty_retirement [OF sample_ok(1)] empty_coalesced(1), of 0 2 2]
  obtain t' L es' where a: "retirement_at workspace_view sample_workspace {} 5 t' L es'" "coalesced es'" "retired_in (set es') = {(2, 2)}"
    by (auto simp: rwp_def empty_coalesced MAX_PATH_31 split: sum.splits)
  obtain ws root n rt P' where t: "retirement_in workspace_view ws root P' L es'"
    using a(1) by (cases t') (auto simp: retirement_at_def op_done_def)
  have "es' \<noteq> []" using a(3) by (auto simp: empty_coalesced)
  then obtain T where T: "ws_ok ws" "repr retirement_codec retirement_cells (ws_heap ws) L T" "root = root_page T"
    using t by (auto simp: tree_in_def tree_with_def)
  have "root_page T \<in> hp_own (ws_heap ws)" using repr_own [OF T(2)] by (meson root_in_pages subsetD)
  hence "2 \<le> root_page T" "ucast (root_page T) < ws_next ws" using ws.own_bounds [of ws "root_page T"] T(1) by auto
  hence "3 \<le> unat (ws_next ws)" by (simp add: word_le_nat_alt word_less_nat_alt)
  thus ?thesis using t a(2,3) by blast
qed

theorem select_reclamation_correct_witness:
  "\<exists>ws root r. select_reclamation_with_checkpoint workspace_ops ws root 5 (Some 2) 10 100 Inr () = Some (Inr (Some r))
    \<and> rc_through_txn r = 2 \<and> rc_pages r = 1 \<and> rc_transactions r = 1"
proof -
  obtain ws root P l es where w: "retirement_in workspace_view ws root P l es" "coalesced es" "retired_in (set es) = {(2, 2)}"
      "3 \<le> unat (ws_next ws)" using sample_retired by blast
  have v: "\<forall>e\<in>set es. ex_txn e \<le> 5 \<and> ex_stop e \<le> unat (ws_next ws)"
    using single_retired [OF w(2,3)] w(4) by auto
  have th: "through {(2, 2)} (2 :: 64 word) = {(2, 2 :: 32 word)}" by (auto simp: through_def)
  have i: "\<not> interrupts (Inr :: unit checkpoint)" by (simp add: interrupts_def)
  obtain res where res: "select_reclamation_with_checkpoint workspace_ops ws root 5 (Some 2) 10 100 Inr () = Some res"
      "case res of Inl _ \<Rightarrow> interrupts (Inr :: unit checkpoint) \<or> (\<exists>t\<in>fst ` retired_in (set es).
          (\<forall>t'\<in>fst ` retired_in (set es). t \<le> t') \<and> unneeded (Some 2) t \<and> unat (100 :: 64 word) < card (through (retired_in (set es)) t))
        | Inr selected \<Rightarrow> reclaims (Some 2) 10 100 (retired_in (set es)) selected"
    using select_reclamation_correct [OF w(1,2) v, of 10 100 "Some 2" Inr "()"] w(3) by auto
  then obtain selected where s: "select_reclamation_with_checkpoint workspace_ops ws root 5 (Some 2) 10 100 Inr () = Some (Inr selected)"
      "reclaims (Some 2) 10 100 {(2, 2)} selected" using i w(3) th by (cases res) auto
  obtain r where r: "selected = Some r" using s(2) by (cases selected) (auto simp: reclaims_def unneeded_def)
  have "{t. t = (2 :: 64 word) \<and> t \<le> 2} = {2}" by auto
  hence "rc_through_txn r = 2" "unat (rc_pages r) = 1" "unat (rc_transactions r) = 1"
    using s(2) r th by (auto simp: reclaims_def)
  thus ?thesis using s(1) r by (auto simp: word_unat_eq_iff)
qed

end
