(* ===== verification/Spec2Isabelle.thy ===== *)
theory Spec2Isabelle
  imports WorkspaceRanges SlottedSpec PublicationSpec Reclamation
begin

text \<open>
  A verification library for the Rust implementation of the iprange v4 database
  (\<open>src/v4/rust/iprange-livedb/src\<close>).
\<close>

end
